(* ===== verification/Prelude.thy ===== *)
theory Prelude
  imports Main "HOL-Library.Word"
begin

text \<open>
  Shared vocabulary of the development: the machine types of the Rust sources, their
  \<open>Result\<close> type as a sum, the little-endian byte conversions of the standard library,
  UTF-8 validity, and the list facts that several components need.
\<close>

section \<open>Types and proof collections\<close>

type_synonym u8 = "8 word"
type_synonym u16 = "16 word"
type_synonym u32 = "32 word"
type_synonym u64 = "64 word"
type_synonym bytes = "u8 list"

text \<open>
  \<open>f64\<close> values are carried as their IEEE 754 bit patterns; \<open>to_le_bytes\<close> and
  \<open>from_le_bytes\<close> of the standard library are conversions of exactly those bits.
\<close>

type_synonym f64 = "64 word"

text \<open>A point is \<open>(x, y)\<close>, a size \<open>(w, h)\<close>.\<close>

type_synonym point = "int \<times> int"

named_theorems parse_intros \<open>rules that compose parsing facts of the wire format\<close>
named_theorems starve_intros \<open>rules that compose facts about truncated input\<close>
named_theorems wire_simps \<open>lengths and appends of the wire encoders\<close>

section \<open>Results\<close>

text \<open>Rust's \<open>?\<close> operator on \<open>Result\<close>: an error ends the computation.\<close>

definition bind_res :: "'e + 'a \<Rightarrow> ('a \<Rightarrow> 'e + 'b) \<Rightarrow> 'e + 'b" where
  "bind_res r f = (case r of Inl e \<Rightarrow> Inl e | Inr x \<Rightarrow> f x)"

lemma bind_res_simps [simp]:
  "bind_res (Inl e) f = Inl e"
  "bind_res (Inr x) f = f x"
  by (simp_all add: bind_res_def)

lemma bind_res_eq_Inr:
  "bind_res r f = Inr y \<longleftrightarrow> (\<exists>x. r = Inr x \<and> f x = Inr y)"
  by (cases r) auto

definition is_ok :: "'e + 'a \<Rightarrow> bool" where
  "is_ok r = (case r of Inl _ \<Rightarrow> False | Inr _ \<Rightarrow> True)"

lemma is_ok_simps [simp]: "is_ok (Inl e) = False" "is_ok (Inr x) = True"
  by (simp_all add: is_ok_def)

section \<open>Little-endian bytes\<close>

text \<open>\<open>to_le_bytes\<close> of an integer of \<open>n\<close> bytes, least significant byte first.\<close>

definition to_le :: "nat \<Rightarrow> 'a::len word \<Rightarrow> bytes" where
  "to_le n v = map (\<lambda>i. ucast (drop_bit (8 * i) v)) [0..<n]"

text \<open>\<open>from_le_bytes\<close>.\<close>

fun from_le :: "bytes \<Rightarrow> 'a::len word" where
  "from_le [] = 0"
| "from_le (b # bs) = or (ucast b) (push_bit 8 (from_le bs))"

lemma length_to_le [simp, wire_simps]: "length (to_le n v) = n"
  by (simp add: to_le_def)

lemma to_le_eq_Nil [simp]: "to_le n v = [] \<longleftrightarrow> n = 0"
  by (simp add: to_le_def)

lemma bit_from_le:
  "bit (from_le bs :: 'a::len word) n \<longleftrightarrow>
     n < LENGTH('a) \<and> n div 8 < length bs \<and> bit (bs ! (n div 8)) (n mod 8)"
proof (induction bs arbitrary: n)
  case Nil
  then show ?case by simp
next
  case (Cons b bs)
  show ?case
  proof (cases "n < 8")
    case True
    then show ?thesis by (auto simp: bit_simps)
  next
    case False
    then have "n div 8 = Suc ((n - 8) div 8)" "n mod 8 = (n - 8) mod 8"
      by (simp_all add: le_div_geq le_mod_geq)
    with False show ?thesis
      by (auto simp: bit_simps Cons.IH dest: bit_imp_le_length)
  qed
qed

lemma bit_nth_to_le:
  "i < n \<Longrightarrow> bit (to_le n v ! i) j \<longleftrightarrow> j < 8 \<and> bit v (8 * i + j)"
  by (auto simp: to_le_def bit_simps)

lemma from_le_to_le:
  fixes v :: "'a::len word"
  assumes "LENGTH('a) \<le> 8 * n"
  shows "from_le (to_le n v) = v"
proof (rule bit_word_eqI)
  fix m
  assume m: "m < LENGTH('a)"
  with assms have "m div 8 < n" by linarith
  with m show "bit (from_le (to_le n v) :: 'a word) m = bit v m"
    by (simp add: bit_from_le bit_nth_to_le)
qed

section \<open>UTF-8\<close>

text \<open>
  A Rust \<open>String\<close> is a byte vector that is valid UTF-8. Strings that cross the wire are
  modelled as their bytes; \<open>valid_utf8\<close> is the test \<open>String::from_utf8\<close> makes.
\<close>

definition utf8_cont :: "u8 \<Rightarrow> bool" where
  "utf8_cont b \<longleftrightarrow> 0x80 \<le> b \<and> b \<le> 0xBF"

fun valid_utf8 :: "bytes \<Rightarrow> bool" where
  "valid_utf8 [] = True"
| "valid_utf8 (a # bs) =
    (if a \<le> 0x7F then valid_utf8 bs
     else if 0xC2 \<le> a \<and> a \<le> 0xDF then
       (case bs of b # cs \<Rightarrow> utf8_cont b \<and> valid_utf8 cs | _ \<Rightarrow> False)
     else if 0xE0 \<le> a \<and> a \<le> 0xEF then
       (case bs of b # c # cs \<Rightarrow>
          (if a = 0xE0 then 0xA0 \<le> b \<and> b \<le> 0xBF
           else if a = 0xED then 0x80 \<le> b \<and> b \<le> 0x9F else utf8_cont b)
          \<and> utf8_cont c \<and> valid_utf8 cs
        | _ \<Rightarrow> False)
     else if 0xF0 \<le> a \<and> a \<le> 0xF4 then
       (case bs of b # c # d # cs \<Rightarrow>
          (if a = 0xF0 then 0x90 \<le> b \<and> b \<le> 0xBF
           else if a = 0xF4 then 0x80 \<le> b \<and> b \<le> 0x8F else utf8_cont b)
          \<and> utf8_cont c \<and> utf8_cont d \<and> valid_utf8 cs
        | _ \<Rightarrow> False)
     else False)"

section \<open>Lists\<close>

text \<open>\<open>Vec::remove\<close> at a position that is in range.\<close>

definition remove_at :: "nat \<Rightarrow> 'a list \<Rightarrow> 'a list" where
  "remove_at i xs = take i xs @ drop (Suc i) xs"

text \<open>\<open>iter().position(p)\<close>: the index of the first element that satisfies \<open>p\<close>.\<close>

fun position :: "('a \<Rightarrow> bool) \<Rightarrow> 'a list \<Rightarrow> nat option" where
  "position p [] = None"
| "position p (x # xs) = (if p x then Some 0 else map_option Suc (position p xs))"

lemma position_None: "position p xs = None \<longleftrightarrow> (\<forall>x\<in>set xs. \<not> p x)"
  by (induction xs) auto

lemma position_SomeD:
  "position p xs = Some i \<Longrightarrow>
     i < length xs \<and> p (xs ! i) \<and> (\<forall>j<i. \<not> p (xs ! j))"
proof (induction xs arbitrary: i)
  case Nil
  then show ?case by simp
next
  case (Cons x xs)
  show ?case
  proof (cases "p x")
    case True
    with Cons.prems show ?thesis by simp
  next
    case False
    with Cons.prems obtain k where k: "position p xs = Some k" "i = Suc k" by auto
    from Cons.IH [OF k(1)] False k(2) show ?thesis
      by (auto simp: less_Suc_eq_0_disj)
  qed
qed

lemma length_remove_at [simp]: "i < length xs \<Longrightarrow> length (remove_at i xs) = length xs - 1"
  by (simp add: remove_at_def)

lemma set_remove_at_subset: "set (remove_at i xs) \<subseteq> set xs"
  by (auto simp: remove_at_def dest: in_set_takeD in_set_dropD)

lemma split_at: "i < length xs \<Longrightarrow> xs = take i xs @ xs ! i # drop (Suc i) xs"
  by (rule id_take_nth_drop)

lemma distinct_remove_at: "distinct xs \<Longrightarrow> distinct (remove_at i xs)"
  by (auto simp: remove_at_def set_take_disj_set_drop_if_distinct)

lemma filter_remove_at:
  "n < length xs \<Longrightarrow> length (filter p (remove_at n xs)) =
     length (filter p xs) - (if p (xs ! n) then 1 else 0)"
  by (subst (2) id_take_nth_drop [of n xs]) (auto simp: remove_at_def)

lemma nth_remove_at:
  "i < length xs \<Longrightarrow> j < length xs - 1 \<Longrightarrow>
     remove_at i xs ! j = (if j < i then xs ! j else xs ! Suc j)"
  by (auto simp: remove_at_def nth_append min_def)

lemma find_append: "List.find p (xs @ ys) = (case List.find p xs of Some x \<Rightarrow> Some x | None \<Rightarrow> List.find p ys)"
  by (induction xs) auto

section \<open>Machine words\<close>

lemma unat_Suc: "(x :: 'a::len word) \<noteq> - 1 \<Longrightarrow> unat (x + 1) = Suc (unat x)"
  by (metis add.commute eq_neg_iff_add_eq_0 unatSuc)

lemma less_word_Suc: "(x :: 'a::len word) \<noteq> - 1 \<Longrightarrow> x < x + 1"
  by (simp add: word_less_nat_alt unat_Suc)

lemma unat_pred: "(x :: 'a::len word) \<noteq> 0 \<Longrightarrow> unat (x - 1) = unat x - 1"
  by (simp add: unat_minus_one)

section \<open>Identifiers from a wrapping counter\<close>

text \<open>
  The next \<open>n\<close> identifiers a \<open>u64\<close> counter hands out are unused, although it wraps: which is so for
  \<open>2 ^ 64\<close> of them when none is used.
\<close>

definition ids_free :: "nat \<Rightarrow> u64 \<Rightarrow> u64 set \<Rightarrow> bool" where
  "ids_free n i used \<longleftrightarrow> n \<le> 2 ^ 64 \<and> (\<forall>k < n. i + of_nat k \<notin> used)"

lemma later_id_differs:
  fixes i :: u64
  assumes "Suc k < 2 ^ 64"
  shows "i + 1 + of_nat k \<noteq> i"
proof
  assume "i + 1 + of_nat k = i"
  then have "(of_nat (Suc k) :: u64) = 0" by (simp add: add.assoc)
  then have "(2 :: nat) ^ LENGTH(64) dvd Suc k" by (simp only: word_of_nat_eq_0_iff)
  then have "2 ^ LENGTH(64) \<le> Suc k" by (rule dvd_imp_le) simp
  with assms show False by simp
qed

lemma ids_free_empty: "n \<le> 2 ^ 64 \<Longrightarrow> ids_free n i {}"
  by (simp add: ids_free_def)

lemma ids_free_less: "ids_free (Suc n) i used \<Longrightarrow> ids_free n i used"
  by (simp add: ids_free_def)

lemma ids_free_subset: "ids_free n i used \<Longrightarrow> used' \<subseteq> used \<Longrightarrow> ids_free n i used'"
  by (auto simp: ids_free_def)

lemma ids_free_unused: "ids_free (Suc n) i used \<Longrightarrow> i \<notin> used"
  by (auto simp: ids_free_def dest: spec [of _ 0])

lemma ids_free_next:
  assumes "ids_free (Suc n) i used" "used' \<subseteq> insert i used"
  shows "ids_free n (i + 1) used'"
proof -
  have "i + 1 + of_nat k \<notin> used" if "k < n" for k
    using assms(1) that by (auto simp: ids_free_def add.assoc dest: spec [of _ "Suc k"])
  moreover have "i + 1 + of_nat k \<noteq> i" if "k < n" for k
    using assms(1) that by (intro later_id_differs) (simp add: ids_free_def)
  ultimately show ?thesis using assms unfolding ids_free_def by auto
qed

section \<open>Runs of a deterministic component\<close>

text \<open>
  A component whose operations are functions of the state and an event: an invariant every
  operation keeps holds along every run, and a measure every operation keeps small bounds
  what a run can produce.
\<close>

locale stepper =
  fixes step :: "'s \<Rightarrow> 'e \<Rightarrow> 's"
    and inv :: "'s \<Rightarrow> bool"
    and admissible :: "'s \<Rightarrow> 'e \<Rightarrow> bool"
  assumes step_inv: "inv s \<Longrightarrow> admissible s e \<Longrightarrow> inv (step s e)"
begin

primrec admissible_run :: "'s \<Rightarrow> 'e list \<Rightarrow> bool" where
  "admissible_run s [] = True"
| "admissible_run s (e # es) = (admissible s e \<and> admissible_run (step s e) es)"

lemma run_inv: "inv s \<Longrightarrow> admissible_run s es \<Longrightarrow> inv (foldl step s es)"
  by (induction es arbitrary: s) (auto intro: step_inv)

lemma run_append:
  "admissible_run s (es @ fs) \<longleftrightarrow> admissible_run s es \<and> admissible_run (foldl step s es) fs"
  by (induction es arbitrary: s) auto

end

end
