(* ===== verification/Wire.thy ===== *)
theory Wire
  imports Prelude
begin

text \<open>
  The primitives of the remote-desktop wire format (\<open>crates/shoestring-remote/src/lib.rs\<close>):
  the error type, the \<open>put_*\<close> writers, which append to an output buffer, and \<open>Reader\<close>,
  the checked cursor over a received payload. The locale \<open>wire_codec\<close> is the contract
  between a writer and its reader on which every message type rests.
\<close>

section \<open>Errors\<close>

text \<open>
  The variants of \<open>Error\<close>. The texts of \<open>Codec\<close> and \<open>BadFrame\<close> are kept as the data
  their \<open>format!\<close> calls print.
\<close>

datatype codec_error =
    Inflate
  | InflatesPast nat
  | DstTooSmall nat u32 u32
  | RectOutside u16 u16 u16 u16 u32 u32
  | RawTileLen nat nat
  | ZlibTileLen nat nat

datatype frame_error =
    FrameSize u32 u32
  | FramePixels u32 u32
  | FrameScale f64

datatype io_error = IoUnexpectedEof | IoWouldBlock | IoTimedOut | IoOther

datatype wire_error =
    UnexpectedEof
  | BadTag string u8
  | UnknownMessage string u8
  | BadBool u8
  | Utf8
  | TooLarge nat
  | Codec codec_error
  | BadFrame frame_error
  | Io io_error

section \<open>Writers\<close>

definition put_u8 :: "bytes \<Rightarrow> u8 \<Rightarrow> bytes" where
  "put_u8 out v = out @ [v]"

text \<open>\<open>v as u8\<close> of a \<open>bool\<close>.\<close>

definition bool_byte :: "bool \<Rightarrow> u8" where
  "bool_byte v = (if v then 1 else 0)"

definition put_bool :: "bytes \<Rightarrow> bool \<Rightarrow> bytes" where
  "put_bool out v = out @ [bool_byte v]"

definition put_u16 :: "bytes \<Rightarrow> u16 \<Rightarrow> bytes" where
  "put_u16 out v = out @ to_le 2 v"

definition put_u32 :: "bytes \<Rightarrow> u32 \<Rightarrow> bytes" where
  "put_u32 out v = out @ to_le 4 v"

definition put_f64 :: "bytes \<Rightarrow> f64 \<Rightarrow> bytes" where
  "put_f64 out v = out @ to_le 8 v"

text \<open>The length prefix is \<open>b.len() as u32\<close>, which truncates.\<close>

definition put_bytes :: "bytes \<Rightarrow> bytes \<Rightarrow> bytes" where
  "put_bytes out b = put_u32 out (of_nat (length b)) @ b"

definition put_str :: "bytes \<Rightarrow> bytes \<Rightarrow> bytes" where
  "put_str out s = put_bytes out s"

lemmas put_defs = put_u8_def put_bool_def put_u16_def put_u32_def put_f64_def
  put_bytes_def put_str_def

section \<open>The reader\<close>

record reader =
  buf :: bytes
  pos :: nat

type_synonym 'a get = "reader \<Rightarrow> wire_error + ('a \<times> reader)"

definition new_reader :: "bytes \<Rightarrow> reader" where
  "new_reader b = \<lparr>buf = b, pos = 0\<rparr>"

definition is_at_end :: "reader \<Rightarrow> bool" where
  "is_at_end r \<longleftrightarrow> length (buf r) \<le> pos r"

text \<open>\<open>Reader::take\<close>: \<open>usize\<close> overflow and a read past the end are both \<open>UnexpectedEof\<close>.\<close>

definition take_n :: "nat \<Rightarrow> bytes get" where
  "take_n n r =
     (let e = pos r + n in
      if 2 ^ 64 \<le> e then Inl UnexpectedEof
      else if pos r \<le> e \<and> e \<le> length (buf r)
      then Inr (take n (drop (pos r) (buf r)), r\<lparr>pos := e\<rparr>)
      else Inl UnexpectedEof)"

text \<open>Sequencing of reads with \<open>?\<close>.\<close>

definition get_bind :: "'a get \<Rightarrow> ('a \<Rightarrow> 'b get) \<Rightarrow> 'b get" where
  "get_bind p q r = (case p r of Inl e \<Rightarrow> Inl e | Inr (x, r') \<Rightarrow> q x r')"

definition get_ok :: "'a \<Rightarrow> 'a get" where
  "get_ok x r = Inr (x, r)"

definition get_err :: "wire_error \<Rightarrow> 'a get" where
  "get_err e r = Inl e"

lemma get_bind_simps [simp]:
  "get_bind (get_ok x) q = q x"
  "get_bind (get_err e) q = get_err e"
  by (simp_all add: fun_eq_iff get_bind_def get_ok_def get_err_def)

definition get_u8 :: "u8 get" where
  "get_u8 = get_bind (take_n 1) (\<lambda>b. get_ok (hd b))"

definition get_bool :: "bool get" where
  "get_bool = get_bind get_u8 (\<lambda>b.
     if b = 0 then get_ok False else if b = 1 then get_ok True else get_err (BadBool b))"

definition get_u16 :: "u16 get" where
  "get_u16 = get_bind (take_n 2) (\<lambda>b. get_ok (from_le b))"

definition get_u32 :: "u32 get" where
  "get_u32 = get_bind (take_n 4) (\<lambda>b. get_ok (from_le b))"

definition get_f64 :: "f64 get" where
  "get_f64 = get_bind (take_n 8) (\<lambda>b. get_ok (from_le b))"

definition get_bytes :: "bytes get" where
  "get_bytes = get_bind get_u32 (\<lambda>n. take_n (unat n))"

definition get_str :: "bytes get" where
  "get_str = get_bind get_bytes (\<lambda>b. if valid_utf8 b then get_ok b else get_err Utf8)"

section \<open>What a reader does on given bytes\<close>

text \<open>
  A slice is at most \<open>isize::MAX\<close> bytes long and the cursor never passes its end.
\<close>

definition reader_ok :: "reader \<Rightarrow> bool" where
  "reader_ok r \<longleftrightarrow> pos r \<le> length (buf r) \<and> length (buf r) < 2 ^ 63"

definition ahead :: "reader \<Rightarrow> bytes" where
  "ahead r = drop (pos r) (buf r)"

definition advance :: "reader \<Rightarrow> nat \<Rightarrow> reader" where
  "advance r n = r\<lparr>pos := pos r + n\<rparr>"

lemma reader_ok_new [simp]: "reader_ok (new_reader b) \<longleftrightarrow> length b < 2 ^ 63"
  by (simp add: reader_ok_def new_reader_def)

lemma ahead_new [simp]: "ahead (new_reader b) = b"
  by (simp add: ahead_def new_reader_def)

lemma ahead_advance [simp]: "ahead (advance r n) = drop n (ahead r)"
  by (simp add: ahead_def advance_def add.commute)

lemma advance_0 [simp]: "advance r 0 = r"
  by (simp add: advance_def)

lemma advance_advance [simp]: "advance (advance r m) n = advance r (m + n)"
  by (simp add: advance_def)

lemma reader_ok_advance:
  "reader_ok r \<Longrightarrow> n \<le> length (ahead r) \<Longrightarrow> reader_ok (advance r n)"
  by (auto simp: reader_ok_def advance_def ahead_def)

lemma is_at_end_iff: "is_at_end r \<longleftrightarrow> ahead r = []"
  by (simp add: is_at_end_def ahead_def)

lemma take_n_ok:
  assumes "reader_ok r" "n \<le> length (ahead r)"
  shows "take_n n r = Inr (take n (ahead r), advance r n)"
  using assms by (auto simp: take_n_def reader_ok_def ahead_def advance_def Let_def)

lemma take_n_short: "length (ahead r) < n \<Longrightarrow> take_n n r = Inl UnexpectedEof"
  by (auto simp: take_n_def ahead_def Let_def)

text \<open>
  \<open>parses p bs x\<close>: on input that begins with \<open>bs\<close>, \<open>p\<close> reads exactly \<open>bs\<close> and returns
  \<open>x\<close>. \<open>parses_end\<close> is the same where nothing follows, for the readers that look for the
  end of the message. \<open>starves p bs\<close>: on any proper prefix of \<open>bs\<close>, \<open>p\<close> reports
  \<open>UnexpectedEof\<close>; \<open>starves_but p bs m\<close> exempts the prefix of length \<open>m\<close>, where an
  older peer's message ends.
\<close>

definition parses :: "'a get \<Rightarrow> bytes \<Rightarrow> 'a \<Rightarrow> bool" where
  "parses p bs x \<longleftrightarrow>
     (\<forall>r rest. reader_ok r \<longrightarrow> ahead r = bs @ rest \<longrightarrow> p r = Inr (x, advance r (length bs)))"

definition parses_end :: "'a get \<Rightarrow> bytes \<Rightarrow> 'a \<Rightarrow> bool" where
  "parses_end p bs x \<longleftrightarrow>
     (\<forall>r. reader_ok r \<longrightarrow> ahead r = bs \<longrightarrow> p r = Inr (x, advance r (length bs)))"

definition starves :: "'a get \<Rightarrow> bytes \<Rightarrow> bool" where
  "starves p bs \<longleftrightarrow>
     (\<forall>r k. reader_ok r \<longrightarrow> k < length bs \<longrightarrow> ahead r = take k bs \<longrightarrow> p r = Inl UnexpectedEof)"

definition starves_but :: "'a get \<Rightarrow> bytes \<Rightarrow> nat \<Rightarrow> bool" where
  "starves_but p bs m \<longleftrightarrow>
     (\<forall>r k. reader_ok r \<longrightarrow> k < length bs \<longrightarrow> k \<noteq> m \<longrightarrow> ahead r = take k bs \<longrightarrow>
        p r = Inl UnexpectedEof)"

lemma starves_butI: "starves p bs \<Longrightarrow> starves_but p bs m"
  by (auto simp: starves_def starves_but_def)

lemma parsesD:
  "parses p bs x \<Longrightarrow> reader_ok r \<Longrightarrow> ahead r = bs @ rest \<Longrightarrow>
     p r = Inr (x, advance r (length bs))"
  by (auto simp: parses_def)

lemma parses_endI: "parses p bs x \<Longrightarrow> parses_end p bs x"
  by (auto simp: parses_def parses_end_def)

lemma parses_get_ok: "parses (get_ok x) [] x"
  by (simp add: parses_def get_ok_def)

lemma parses_ok [parse_intros]: "x = y \<Longrightarrow> parses (get_ok x) [] y"
  by (simp add: parses_get_ok)

lemma parses_bind:
  assumes "parses p bs x" "parses (q x) cs y"
  shows "parses (get_bind p q) (bs @ cs) y"
  unfolding parses_def
proof (intro allI impI)
  fix r rest
  assume r: "reader_ok r" "ahead r = (bs @ cs) @ rest"
  from assms(1) r have 1: "p r = Inr (x, advance r (length bs))"
    by (auto intro: parsesD)
  from r have "reader_ok (advance r (length bs))"
    by (auto intro: reader_ok_advance)
  moreover from r have "ahead (advance r (length bs)) = cs @ rest" by simp
  ultimately have "q x (advance r (length bs)) = Inr (y, advance (advance r (length bs)) (length cs))"
    using assms(2) by (blast intro: parsesD)
  with 1 show "get_bind p q r = Inr (y, advance r (length (bs @ cs)))"
    by (simp add: get_bind_def)
qed

lemma parses_end_bind:
  assumes "parses p bs x" "parses_end (q x) cs y"
  shows "parses_end (get_bind p q) (bs @ cs) y"
  unfolding parses_end_def
proof (intro allI impI)
  fix r
  assume r: "reader_ok r" "ahead r = bs @ cs"
  from assms(1) r have 1: "p r = Inr (x, advance r (length bs))"
    by (auto intro: parsesD)
  from r have "reader_ok (advance r (length bs))"
    by (auto intro: reader_ok_advance)
  moreover from r have "ahead (advance r (length bs)) = cs" by simp
  ultimately have "q x (advance r (length bs)) = Inr (y, advance (advance r (length bs)) (length cs))"
    using assms(2) by (auto simp: parses_end_def)
  with 1 show "get_bind p q r = Inr (y, advance r (length (bs @ cs)))"
    by (simp add: get_bind_def)
qed

lemma starves_but_bind:
  assumes "parses p bs x" "starves p bs" "starves_but (q x) cs m"
  shows "starves_but (get_bind p q) (bs @ cs) (length bs + m)"
  unfolding starves_but_def
proof (intro allI impI)
  fix r k
  assume r: "reader_ok r" "k < length (bs @ cs)" "k \<noteq> length bs + m" "ahead r = take k (bs @ cs)"
  show "get_bind p q r = Inl UnexpectedEof"
  proof (cases "k < length bs")
    case True
    with r have "ahead r = take k bs" by simp
    with assms(2) r(1) True have "p r = Inl UnexpectedEof"
      unfolding starves_def by blast
    then show ?thesis by (simp add: get_bind_def)
  next
    case False
    with r have a: "ahead r = bs @ take (k - length bs) cs" by simp
    with r have "reader_ok (advance r (length bs))"
      by (auto intro: reader_ok_advance)
    moreover from a have "ahead (advance r (length bs)) = take (k - length bs) cs" by simp
    moreover from False r have "k - length bs < length cs" "k - length bs \<noteq> m" by auto
    ultimately have "q x (advance r (length bs)) = Inl UnexpectedEof"
      using assms(3) unfolding starves_but_def by blast
    with assms(1) a r(1) show ?thesis by (simp add: get_bind_def parses_def)
  qed
qed

lemma starves_bind:
  assumes "parses p bs x" "starves p bs" "starves (q x) cs"
  shows "starves (get_bind p q) (bs @ cs)"
  using starves_but_bind [OF assms(1,2), of q cs "length cs"]
    starves_butI [OF assms(3), of "length cs"]
  by (auto simp: starves_def starves_but_def)

text \<open>A field that is only read when something is left of the message.\<close>

lemma parses_optional:
  assumes "\<And>r. \<not> is_at_end r \<Longrightarrow> f r = p r" "parses p bs x" "bs \<noteq> []"
  shows "parses f bs x"
  using assms by (auto simp: parses_def is_at_end_iff)

lemma starves_but_optional:
  assumes "\<And>r. \<not> is_at_end r \<Longrightarrow> f r = p r" "starves p bs"
  shows "starves_but f bs 0"
  unfolding starves_but_def
proof (intro allI impI)
  fix r k assume r: "reader_ok r" "k < length bs" "k \<noteq> 0" "ahead r = take k bs"
  then have "\<not> is_at_end r" by (cases bs; cases k) (auto simp: is_at_end_iff)
  moreover from r assms(2) have "p r = Inl UnexpectedEof" by (auto simp: starves_def)
  ultimately show "f r = Inl UnexpectedEof" using assms(1) by simp
qed

lemma starves_but_bind_left: "starves_but p bs m \<Longrightarrow> starves_but (get_bind p q) bs m"
  by (auto simp: starves_but_def get_bind_def)

lemma starves_Nil [parse_intros]: "starves p []"
  by (simp add: starves_def)

section \<open>The contract of a writer and its reader\<close>

locale wire_codec =
  fixes put :: "bytes \<Rightarrow> 'a \<Rightarrow> bytes"
    and get :: "'a get"
    and wf :: "'a \<Rightarrow> bool"
  assumes put_append: "put out x = out @ put [] x"
    and get_parses: "wf x \<Longrightarrow> parses get (put [] x) x"
    and get_starves: "wf x \<Longrightarrow> starves get (put [] x)"
begin

lemma parses_put: "wf x \<Longrightarrow> parses (q x) cs y \<Longrightarrow> parses (get_bind get q) (put [] x @ cs) y"
  by (rule parses_bind [OF get_parses])

lemma parses_end_put:
  "wf x \<Longrightarrow> parses_end (q x) cs y \<Longrightarrow> parses_end (get_bind get q) (put [] x @ cs) y"
  by (rule parses_end_bind [OF get_parses])

lemma starves_put: "wf x \<Longrightarrow> starves (q x) cs \<Longrightarrow> starves (get_bind get q) (put [] x @ cs)"
  by (rule starves_bind [OF get_parses get_starves])

lemma parses_last: "wf x \<Longrightarrow> parses (q x) [] y \<Longrightarrow> parses (get_bind get q) (put [] x) y"
  using parses_bind [OF get_parses, of x q "[]" y] by simp

lemma parses_end_last:
  "wf x \<Longrightarrow> parses_end (q x) [] y \<Longrightarrow> parses_end (get_bind get q) (put [] x) y"
  using parses_end_bind [OF get_parses, of x q "[]" y] by simp

lemma starves_but_put:
  "wf x \<Longrightarrow> starves_but (q x) cs m \<Longrightarrow> n = length (put [] x) + m \<Longrightarrow>
     starves_but (get_bind get q) (put [] x @ cs) n"
  using starves_but_bind [OF get_parses get_starves] by blast

lemma starves_last: "wf x \<Longrightarrow> starves (get_bind get q) (put [] x)"
  using starves_bind [OF get_parses get_starves, of x q "[]"] by (auto intro: parse_intros)

lemma length_put: "length (put out x) = length out + length (put [] x)"
  by (subst put_append) simp

lemma get_put_new: "wf x \<Longrightarrow> length (put [] x) < 2 ^ 63 \<Longrightarrow>
    get (new_reader (put [] x)) = Inr (x, advance (new_reader (put [] x)) (length (put [] x)))"
  using parsesD [OF get_parses, of x "new_reader (put [] x)" "[]"] by simp

end

section \<open>The primitives keep the contract\<close>

lemma parses_take_n: "n = length bs \<Longrightarrow> parses (take_n n) bs bs"
  by (auto simp: parses_def take_n_ok)

lemma starves_take_n: "length bs \<le> n \<Longrightarrow> starves (take_n n) bs"
  by (auto simp: starves_def intro!: take_n_short)

lemma parses_take_map:
  assumes "n = length bs" "f bs = x"
  shows "parses (get_bind (take_n n) (\<lambda>b. get_ok (f b))) bs x"
  using parses_bind [OF parses_take_n [OF assms(1)], of "\<lambda>b. get_ok (f b)" "[]" x] assms(2)
  by (auto intro: parse_intros)

lemma starves_take_map:
  "n = length bs \<Longrightarrow> starves (get_bind (take_n n) q) bs"
  using starves_bind [OF parses_take_n starves_take_n, of n bs q "[]"]
  by (auto intro: parse_intros)

interpretation u8: wire_codec put_u8 get_u8 "\<lambda>_. True"
  by unfold_locales
    (auto simp: put_u8_def get_u8_def intro!: parses_take_map starves_take_map)

interpretation u16: wire_codec put_u16 get_u16 "\<lambda>_. True"
  by unfold_locales
    (auto simp: put_u16_def get_u16_def from_le_to_le intro!: parses_take_map starves_take_map)

interpretation u32: wire_codec put_u32 get_u32 "\<lambda>_. True"
  by unfold_locales
    (auto simp: put_u32_def get_u32_def from_le_to_le intro!: parses_take_map starves_take_map)

interpretation f64: wire_codec put_f64 get_f64 "\<lambda>_. True"
  by unfold_locales
    (auto simp: put_f64_def get_f64_def from_le_to_le intro!: parses_take_map starves_take_map)

lemma put_bool_u8: "put_bool out v = put_u8 out (bool_byte v)"
  by (simp add: put_bool_def put_u8_def)

interpretation bool: wire_codec put_bool get_bool "\<lambda>_. True"
proof unfold_locales
  fix out x show "put_bool out x = out @ put_bool [] x" by (simp add: put_bool_def)
next
  fix x :: bool
  show "parses get_bool (put_bool [] x) x"
    unfolding get_bool_def put_bool_u8
    by (rule u8.parses_last) (auto simp: bool_byte_def intro: parse_intros)
  show "starves get_bool (put_bool [] x)"
    unfolding get_bool_def put_bool_u8 by (rule u8.starves_last) simp
qed

text \<open>Byte strings and UTF-8 strings whose length fits the \<open>u32\<close> prefix.\<close>

definition fits_u32 :: "bytes \<Rightarrow> bool" where
  "fits_u32 b \<longleftrightarrow> length b < 2 ^ 32"

definition wf_str :: "bytes \<Rightarrow> bool" where
  "wf_str s \<longleftrightarrow> fits_u32 s \<and> valid_utf8 s"

lemma unat_len: "fits_u32 b \<Longrightarrow> unat (of_nat (length b) :: u32) = length b"
  by (simp add: fits_u32_def unat_of_nat)

lemma put_bytes_split: "put_bytes [] b = put_u32 [] (of_nat (length b)) @ b"
  by (simp add: put_bytes_def)

interpretation bytes: wire_codec put_bytes get_bytes fits_u32
proof unfold_locales
  fix out x show "put_bytes out x = out @ put_bytes [] x" by (simp add: put_defs)
next
  fix x assume x: "fits_u32 x"
  show "parses get_bytes (put_bytes [] x) x"
    unfolding get_bytes_def put_bytes_split
    by (rule u32.parses_put) (simp_all add: unat_len x parses_take_n)
  show "starves get_bytes (put_bytes [] x)"
    unfolding get_bytes_def put_bytes_split
    by (rule u32.starves_put) (simp_all add: unat_len x starves_take_n)
qed

interpretation str: wire_codec put_str get_str wf_str
proof unfold_locales
  fix out x show "put_str out x = out @ put_str [] x" by (simp add: put_defs)
next
  fix x assume x: "wf_str x"
  then have f: "fits_u32 x" and u: "valid_utf8 x" by (simp_all add: wf_str_def)
  show "parses get_str (put_str [] x) x"
    unfolding get_str_def put_str_def
    by (rule bytes.parses_last) (auto simp: f u intro: parse_intros)
  show "starves get_str (put_str [] x)"
    unfolding get_str_def put_str_def by (rule bytes.starves_last) (rule f)
qed

text \<open>
  The contracts with the bytes written out, so that a message's encoding, simplified to a
  list of chunks, is matched chunk by chunk.
\<close>

lemmas parses_chunks [parse_intros] =
  u8.parses_put [unfolded put_defs append_Nil append_Cons append_Nil, OF TrueI]
  u16.parses_put [unfolded put_defs append_Nil, OF TrueI]
  u32.parses_put [unfolded put_defs append_Nil, OF TrueI]
  f64.parses_put [unfolded put_defs append_Nil, OF TrueI]
  bool.parses_put [unfolded put_bool_def append_Nil append_Cons append_Nil, OF TrueI]
  bytes.parses_put str.parses_put

lemmas parses_lasts [parse_intros] =
  u8.parses_last [unfolded put_defs append_Nil, OF TrueI]
  u16.parses_last [unfolded put_defs append_Nil, OF TrueI]
  u32.parses_last [unfolded put_defs append_Nil, OF TrueI]
  f64.parses_last [unfolded put_defs append_Nil, OF TrueI]
  bool.parses_last [unfolded put_bool_def append_Nil, OF TrueI]
  bytes.parses_last str.parses_last

lemmas starves_chunks [starve_intros] =
  u8.starves_put [unfolded put_defs append_Nil append_Cons append_Nil, OF TrueI]
  u16.starves_put [unfolded put_defs append_Nil, OF TrueI]
  u32.starves_put [unfolded put_defs append_Nil, OF TrueI]
  f64.starves_put [unfolded put_defs append_Nil, OF TrueI]
  bool.starves_put [unfolded put_bool_def append_Nil append_Cons append_Nil, OF TrueI]
  bytes.starves_put str.starves_put

lemmas starves_lasts [starve_intros] =
  u8.starves_last [unfolded put_defs append_Nil, OF TrueI]
  u16.starves_last [unfolded put_defs append_Nil, OF TrueI]
  u32.starves_last [unfolded put_defs append_Nil, OF TrueI]
  f64.starves_last [unfolded put_defs append_Nil, OF TrueI]
  bool.starves_last [unfolded put_bool_def append_Nil, OF TrueI]
  bytes.starves_last str.starves_last

lemmas parses_end_chunks =
  u8.parses_end_put [unfolded put_defs append_Nil append_Cons append_Nil, OF TrueI]
  u32.parses_end_put [unfolded put_defs append_Nil, OF TrueI]
  f64.parses_end_put [unfolded put_defs append_Nil, OF TrueI]
  str.parses_end_put

lemmas parses_end_lasts =
  u32.parses_end_last [unfolded put_defs append_Nil, OF TrueI]
  f64.parses_end_last [unfolded put_defs append_Nil, OF TrueI]
  u8.parses_end_last [unfolded put_defs append_Nil, OF TrueI]
  str.parses_end_last

lemmas starves_but_chunks =
  u8.starves_but_put [unfolded put_defs append_Nil append_Cons append_Nil, OF TrueI]
  u32.starves_but_put [unfolded put_defs append_Nil, OF TrueI]
  f64.starves_but_put [unfolded put_defs append_Nil, OF TrueI]
  str.starves_but_put

text \<open>
  Writers that already hold some output: fixed-width fields become chunks, strings stay
  folded as \<open>put_str [] s\<close>.
\<close>

lemmas put_chunks =
  put_u8_def put_bool_def put_u16_def put_u32_def put_f64_def

lemma put_str_Cons: "put_str (a # out) s = a # out @ put_str [] s"
  by (subst str.put_append) simp

lemma put_bytes_Cons: "put_bytes (a # out) s = a # out @ put_bytes [] s"
  by (subst bytes.put_append) simp

lemma put_lengths [wire_simps]:
  "length (put_u8 out a) = Suc (length out)"
  "length (put_bool out b) = Suc (length out)"
  "length (put_u16 out c) = length out + 2"
  "length (put_u32 out d) = length out + 4"
  "length (put_f64 out e) = length out + 8"
  "length (put_bytes out f) = length out + 4 + length f"
  "length (put_str out f) = length out + 4 + length f"
  by (simp_all add: put_defs)

end
