(* ===== verification/Messages.thy ===== *)
theory Messages
  imports Wire
begin

text \<open>
  The messages of the remote-desktop protocol and their binary encoding
  (\<open>crates/shoestring-remote/src/message.rs\<close>), with the version information of the
  handshake (\<open>version.rs\<close>). Every type has its \<open>encode\<close>, its \<open>decode\<close> and a
  well-formedness predicate that says which values fit the wire: strings are UTF-8 and
  shorter than their \<open>u32\<close> length prefix can say.
\<close>

section \<open>Version information\<close>

text \<open>ASCII text as the bytes of a Rust string literal.\<close>

definition str :: "string \<Rightarrow> bytes" where
  "str s = map of_char s"

fun show_nat :: "nat \<Rightarrow> string" where
  "show_nat n = (if n < 10 then [char_of (48 + n)]
     else show_nat (n div 10) @ [char_of (48 + n mod 10)])"

declare show_nat.simps [simp del]

definition PROTOCOL_VERSION :: u16 where "PROTOCOL_VERSION = 1"
definition LEGACY_PROTOCOL :: u16 where "LEGACY_PROTOCOL = 1"
definition CAPABILITIES :: u32 where "CAPABILITIES = 0"

text \<open>\<open>env!("CARGO_PKG_VERSION")\<close>, from the workspace's \<open>Cargo.toml\<close>.\<close>

definition PKG_VERSION :: bytes where "PKG_VERSION = str ''0.11.0''"

record peer_info =
  protocol :: u16
  capabilities :: u32
  software :: bytes

definition peer_ours :: peer_info where
  "peer_ours = \<lparr>protocol = PROTOCOL_VERSION, capabilities = CAPABILITIES, software = PKG_VERSION\<rparr>"

definition peer_legacy :: peer_info where
  "peer_legacy = \<lparr>protocol = LEGACY_PROTOCOL, capabilities = 0, software = []\<rparr>"

definition is_legacy :: "peer_info \<Rightarrow> bool" where
  "is_legacy p \<longleftrightarrow> software p = []"

definition shared_capabilities :: "peer_info \<Rightarrow> peer_info \<Rightarrow> u32" where
  "shared_capabilities p q = and (capabilities p) (capabilities q)"

definition describe :: "peer_info \<Rightarrow> bytes" where
  "describe p = (if is_legacy p then str ''a release without version exchange'' else software p)"

definition put_peer :: "bytes \<Rightarrow> peer_info \<Rightarrow> bytes" where
  "put_peer out p = put_str (put_u32 (put_u16 out (protocol p)) (capabilities p)) (software p)"

definition get_peer_fields :: "peer_info get" where
  "get_peer_fields =
     get_bind get_u16 (\<lambda>p. get_bind get_u32 (\<lambda>c. get_bind get_str (\<lambda>s.
       get_ok \<lparr>protocol = p, capabilities = c, software = s\<rparr>)))"

text \<open>\<open>PeerInfo::decode_trailing\<close>\<close>

definition get_peer :: "peer_info get" where
  "get_peer r = (if is_at_end r then Inr (peer_legacy, r) else get_peer_fields r)"

definition incompatibility :: "peer_info \<Rightarrow> peer_info \<Rightarrow> bytes option" where
  "incompatibility server client =
     (if protocol server = protocol client then None
      else
        (let older = (if protocol server < protocol client then str ''server'' else str ''client'')
         in Some (str ''shoestring-remote-server ('' @ describe server
              @ str '') speaks remote protocol '' @ str (show_nat (unat (protocol server)))
              @ str '', but shoestring-remote-client ('' @ describe client
              @ str '') speaks protocol '' @ str (show_nat (unat (protocol client)))
              @ str ''; upgrade the '' @ older @ str '' so both match'')))"

section \<open>Pixels and tiles\<close>

definition BYTES_PER_PIXEL :: nat where "BYTES_PER_PIXEL = 4"

datatype pixel_format = Argb8888

fun pixel_format_tag :: "pixel_format \<Rightarrow> u8" where
  "pixel_format_tag Argb8888 = 0"

definition pixel_format_from_tag :: "u8 \<Rightarrow> wire_error + pixel_format" where
  "pixel_format_from_tag t = (if t = 0 then Inr Argb8888 else Inl (BadTag ''PixelFormat'' t))"

datatype tile_encoding = Raw | Zlib

fun tile_encoding_tag :: "tile_encoding \<Rightarrow> u8" where
  "tile_encoding_tag Raw = 0"
| "tile_encoding_tag Zlib = 1"

definition tile_encoding_from_tag :: "u8 \<Rightarrow> wire_error + tile_encoding" where
  "tile_encoding_from_tag t =
     (if t = 0 then Inr Raw else if t = 1 then Inr Zlib else Inl (BadTag ''TileEncoding'' t))"

text \<open>\<open>from_tag(r.u8()?)?\<close>\<close>

definition get_lift :: "wire_error + 'a \<Rightarrow> 'a get" where
  "get_lift x = (case x of Inl e \<Rightarrow> get_err e | Inr y \<Rightarrow> get_ok y)"

lemma get_lift_simps [simp]: "get_lift (Inr y) = get_ok y" "get_lift (Inl e) = get_err e"
  by (simp_all add: get_lift_def)

lemma tags_inverse [simp]:
  "pixel_format_from_tag (pixel_format_tag f) = Inr f"
  "tile_encoding_from_tag (tile_encoding_tag e) = Inr e"
  by (cases f; simp add: pixel_format_from_tag_def)
    (cases e; simp add: tile_encoding_from_tag_def)

record rect =
  rx :: u16
  ry :: u16
  rw :: u16
  rh :: u16

definition pixel_count :: "rect \<Rightarrow> nat" where
  "pixel_count r = unat (rw r) * unat (rh r)"

definition raw_len :: "rect \<Rightarrow> nat" where
  "raw_len r = pixel_count r * BYTES_PER_PIXEL"

definition put_rect :: "bytes \<Rightarrow> rect \<Rightarrow> bytes" where
  "put_rect out r = put_u16 (put_u16 (put_u16 (put_u16 out (rx r)) (ry r)) (rw r)) (rh r)"

definition get_rect :: "rect get" where
  "get_rect = get_bind get_u16 (\<lambda>x. get_bind get_u16 (\<lambda>y. get_bind get_u16 (\<lambda>w.
     get_bind get_u16 (\<lambda>h. get_ok \<lparr>rx = x, ry = y, rw = w, rh = h\<rparr>))))"

record tile =
  tile_rect :: rect
  encoding :: tile_encoding
  data :: bytes

definition encoded_len :: "tile \<Rightarrow> nat" where
  "encoded_len t = 8 + 1 + 4 + length (data t)"

definition put_tile :: "bytes \<Rightarrow> tile \<Rightarrow> bytes" where
  "put_tile out t =
     put_bytes (put_u8 (put_rect out (tile_rect t)) (tile_encoding_tag (encoding t))) (data t)"

definition get_tile :: "tile get" where
  "get_tile = get_bind get_rect (\<lambda>r. get_bind get_u8 (\<lambda>t.
     get_bind (get_lift (tile_encoding_from_tag t)) (\<lambda>e. get_bind get_bytes (\<lambda>d.
       get_ok \<lparr>tile_rect = r, encoding = e, data = d\<rparr>))))"

definition wf_tile :: "tile \<Rightarrow> bool" where
  "wf_tile t \<longleftrightarrow> fits_u32 (data t)"

section \<open>The cursor\<close>

text \<open>The \<open>i32\<close> position is sent as the \<open>u32\<close> with the same bits.\<close>

datatype cursor_update = Hidden | Shape u32 u32 bytes

fun put_cursor :: "bytes \<Rightarrow> cursor_update \<Rightarrow> bytes" where
  "put_cursor out Hidden = put_u8 out 0"
| "put_cursor out (Shape x y icon) = put_str (put_u32 (put_u32 (put_u8 out 1) x) y) icon"

definition get_cursor :: "cursor_update get" where
  "get_cursor = get_bind get_u8 (\<lambda>t.
     if t = 0 then get_ok Hidden
     else if t = 1 then get_bind get_u32 (\<lambda>x. get_bind get_u32 (\<lambda>y. get_bind get_str (\<lambda>i.
       get_ok (Shape x y i))))
     else get_err (BadTag ''CursorUpdate'' t))"

fun wf_cursor :: "cursor_update \<Rightarrow> bool" where
  "wf_cursor Hidden = True"
| "wf_cursor (Shape x y icon) = wf_str icon"

section \<open>The parts keep the codec contract\<close>

definition get_format :: "pixel_format get" where
  "get_format = get_bind get_u8 (\<lambda>t. get_lift (pixel_format_from_tag t))"

definition put_format :: "bytes \<Rightarrow> pixel_format \<Rightarrow> bytes" where
  "put_format out f = put_u8 out (pixel_format_tag f)"

interpretation pixel_format: wire_codec put_format get_format "\<lambda>_. True"
  by unfold_locales
    (auto simp: put_format_def get_format_def put_u8_def intro!: parse_intros starve_intros)

lemma put_rect_append: "put_rect out r = out @ put_rect [] r"
  by (simp add: put_rect_def put_chunks)

interpretation rect: wire_codec put_rect get_rect "\<lambda>_. True"
proof unfold_locales
  fix out x show "put_rect out x = out @ put_rect [] x" by (rule put_rect_append)
next
  fix x :: rect
  show "parses get_rect (put_rect [] x) x"
    unfolding get_rect_def put_rect_def put_chunks append_Nil append_assoc
    by (intro parse_intros) simp
  show "starves get_rect (put_rect [] x)"
    unfolding get_rect_def put_rect_def put_chunks append_Nil append_assoc
    by (intro starves_chunks starves_lasts)
qed

lemma put_tile_append: "put_tile out t = out @ put_tile [] t"
  by (simp add: put_tile_def put_defs put_rect_append [of out])

lemma length_put_rect [simp]: "length (put_rect out r) = length out + 8"
  by (simp add: put_rect_def wire_simps)

lemma length_put_tile: "length (put_tile out t) = length out + encoded_len t"
  by (simp add: put_tile_def wire_simps encoded_len_def)

lemma put_tile_chunks:
  "put_tile [] t = put_rect [] (tile_rect t) @ tile_encoding_tag (encoding t) # put_bytes [] (data t)"
  by (simp add: put_tile_def put_u8_def bytes.put_append [of "_ @ _"])

interpretation tile: wire_codec put_tile get_tile wf_tile
proof unfold_locales
  fix out x show "put_tile out x = out @ put_tile [] x" by (rule put_tile_append)
next
  fix x :: tile
  assume x: "wf_tile x"
  show "parses get_tile (put_tile [] x) x"
    unfolding get_tile_def put_tile_chunks
    using x by (auto intro!: rect.parses_put parse_intros simp: wf_tile_def)
  show "starves get_tile (put_tile [] x)"
    unfolding get_tile_def put_tile_chunks
    using x by (auto intro!: rect.starves_put starve_intros simp: wf_tile_def)
qed

lemma put_cursor_append: "put_cursor out c = out @ put_cursor [] c"
  by (cases c) (simp_all add: put_defs)

interpretation cursor: wire_codec put_cursor get_cursor wf_cursor
proof unfold_locales
  fix out x show "put_cursor out x = out @ put_cursor [] x" by (rule put_cursor_append)
next
  fix x :: cursor_update
  assume x: "wf_cursor x"
  show "parses get_cursor (put_cursor [] x) x"
    unfolding get_cursor_def
    using x by (cases x) (auto simp: put_chunks put_str_Cons intro!: parse_intros)
  show "starves get_cursor (put_cursor [] x)"
    unfolding get_cursor_def
    using x by (cases x) (auto simp: put_chunks put_str_Cons intro!: starves_chunks starves_lasts)
qed

end
