(* ===== verification/Protocol.thy ===== *)
theory Protocol
  imports Messages
begin

text \<open>
  The two message enums of \<open>crates/shoestring-remote/src/message.rs\<close> with their \<open>encode\<close>
  and \<open>decode\<close>, the \<open>Message\<close> trait as a locale, and the length-prefixed framing of
  \<open>lib.rs\<close> (\<open>write_framed\<close>, \<open>read_framed\<close>) proved once for both enums.
\<close>

section \<open>Client to server\<close>

datatype client_message =
    Hello u32 u32 f64 peer_info
  | Graft bytes peer_info
  | Key u32 bool
  | PointerMotion f64 f64
  | PointerButton u32 bool
  | PointerAxis f64 f64 "(f64 \<times> f64) option"
  | GetClipboard bool
  | SetClipboard bool bytes bytes
  | ClientBye

fun encode_client :: "bytes \<Rightarrow> client_message \<Rightarrow> bytes" where
  "encode_client out (Hello w h s p) =
     put_peer (put_f64 (put_u32 (put_u32 (put_u8 out 0) w) h) s) p"
| "encode_client out (Key k b) = put_bool (put_u32 (put_u8 out 1) k) b"
| "encode_client out (PointerMotion x y) = put_f64 (put_f64 (put_u8 out 2) x) y"
| "encode_client out (PointerButton b p) = put_bool (put_u32 (put_u8 out 3) b) p"
| "encode_client out (PointerAxis h v wheel) =
     (let out = put_f64 (put_f64 (put_u8 out 4) h) v in
      case wheel of None \<Rightarrow> out | Some (a, b) \<Rightarrow> put_f64 (put_f64 out a) b)"
| "encode_client out (GetClipboard p) = put_bool (put_u8 out 6) p"
| "encode_client out (SetClipboard p m d) = put_bytes (put_str (put_bool (put_u8 out 7) p) m) d"
| "encode_client out ClientBye = put_u8 out 5"
| "encode_client out (Graft s p) = put_peer (put_str (put_u8 out 8) s) p"

text \<open>The optional wheel travel at the end of \<open>PointerAxis\<close>.\<close>

definition get_wheel :: "(f64 \<times> f64) option get" where
  "get_wheel r = (if is_at_end r then Inr (None, r)
     else get_bind get_f64 (\<lambda>a. get_bind get_f64 (\<lambda>b. get_ok (Some (a, b)))) r)"

definition get_client :: "client_message get" where
  "get_client = get_bind get_u8 (\<lambda>t.
     if t = 0 then get_bind get_u32 (\<lambda>w. get_bind get_u32 (\<lambda>h. get_bind get_f64 (\<lambda>s.
       get_bind get_peer (\<lambda>p. get_ok (Hello w h s p)))))
     else if t = 1 then get_bind get_u32 (\<lambda>k. get_bind get_bool (\<lambda>b. get_ok (Key k b)))
     else if t = 2 then get_bind get_f64 (\<lambda>x. get_bind get_f64 (\<lambda>y. get_ok (PointerMotion x y)))
     else if t = 3 then get_bind get_u32 (\<lambda>b. get_bind get_bool (\<lambda>p. get_ok (PointerButton b p)))
     else if t = 4 then get_bind get_f64 (\<lambda>h. get_bind get_f64 (\<lambda>v. get_bind get_wheel (\<lambda>w.
       get_ok (PointerAxis h v w))))
     else if t = 5 then get_ok ClientBye
     else if t = 6 then get_bind get_bool (\<lambda>p. get_ok (GetClipboard p))
     else if t = 7 then get_bind get_bool (\<lambda>p. get_bind get_str (\<lambda>m. get_bind get_bytes (\<lambda>d.
       get_ok (SetClipboard p m d))))
     else if t = 8 then get_bind get_str (\<lambda>s. get_bind get_peer (\<lambda>p. get_ok (Graft s p)))
     else get_err (UnknownMessage ''ClientMessage'' t))"

definition decode_client :: "bytes \<Rightarrow> wire_error + client_message" where
  "decode_client b = (case get_client (new_reader b) of Inl e \<Rightarrow> Inl e | Inr (m, _) \<Rightarrow> Inr m)"

definition wf_peer :: "peer_info \<Rightarrow> bool" where
  "wf_peer p \<longleftrightarrow> wf_str (software p)"

fun wf_client :: "client_message \<Rightarrow> bool" where
  "wf_client (Hello w h s p) = wf_peer p"
| "wf_client (Graft s p) = (wf_str s \<and> wf_peer p)"
| "wf_client (SetClipboard p m d) = (wf_str m \<and> fits_u32 d)"
| "wf_client _ = True"

section \<open>Server to client\<close>

datatype server_message =
    Ready u32 u32 f64 pixel_format peer_info
  | Frame u32 "tile list"
  | Cursor cursor_update
  | Resize u32 u32 f64
  | Meta bytes bytes
  | Clipboard bool bytes bytes
  | ServerBye
  | Refused bytes

text \<open>The tile count is \<open>tiles.len() as u32\<close>.\<close>

fun encode_server :: "bytes \<Rightarrow> server_message \<Rightarrow> bytes" where
  "encode_server out (Ready w h s f p) =
     put_peer (put_format (put_f64 (put_u32 (put_u32 (put_u8 out 0) w) h) s) f) p"
| "encode_server out (Frame s ts) =
     foldl put_tile (put_u32 (put_u32 (put_u8 out 1) s) (of_nat (length ts))) ts"
| "encode_server out (Cursor c) = put_cursor (put_u8 out 2) c"
| "encode_server out (Resize w h s) = put_f64 (put_u32 (put_u32 (put_u8 out 3) w) h) s"
| "encode_server out (Clipboard p m d) = put_bytes (put_str (put_bool (put_u8 out 5) p) m) d"
| "encode_server out ServerBye = put_u8 out 4"
| "encode_server out (Meta a t) = put_str (put_str (put_u8 out 6) a) t"
| "encode_server out (Refused r) = put_str (put_u8 out 7) r"

text \<open>\<open>for _ in 0..count { tiles.push(Tile::decode(&mut r)?) }\<close>\<close>

primrec get_tiles :: "nat \<Rightarrow> tile list get" where
  "get_tiles 0 = get_ok []"
| "get_tiles (Suc n) = get_bind get_tile (\<lambda>t. get_bind (get_tiles n) (\<lambda>ts. get_ok (t # ts)))"

definition get_server :: "server_message get" where
  "get_server = get_bind get_u8 (\<lambda>t.
     if t = 0 then get_bind get_u32 (\<lambda>w. get_bind get_u32 (\<lambda>h. get_bind get_f64 (\<lambda>s.
       get_bind get_format (\<lambda>f. get_bind get_peer (\<lambda>p. get_ok (Ready w h s f p))))))
     else if t = 1 then get_bind get_u32 (\<lambda>s. get_bind get_u32 (\<lambda>n.
       get_bind (get_tiles (unat n)) (\<lambda>ts. get_ok (Frame s ts))))
     else if t = 2 then get_bind get_cursor (\<lambda>c. get_ok (Cursor c))
     else if t = 3 then get_bind get_u32 (\<lambda>w. get_bind get_u32 (\<lambda>h. get_bind get_f64 (\<lambda>s.
       get_ok (Resize w h s))))
     else if t = 4 then get_ok ServerBye
     else if t = 5 then get_bind get_bool (\<lambda>p. get_bind get_str (\<lambda>m. get_bind get_bytes (\<lambda>d.
       get_ok (Clipboard p m d))))
     else if t = 6 then get_bind get_str (\<lambda>a. get_bind get_str (\<lambda>t. get_ok (Meta a t)))
     else if t = 7 then get_bind get_str (\<lambda>r. get_ok (Refused r))
     else get_err (UnknownMessage ''ServerMessage'' t))"

definition decode_server :: "bytes \<Rightarrow> wire_error + server_message" where
  "decode_server b = (case get_server (new_reader b) of Inl e \<Rightarrow> Inl e | Inr (m, _) \<Rightarrow> Inr m)"

fun wf_server :: "server_message \<Rightarrow> bool" where
  "wf_server (Ready w h s f p) = wf_peer p"
| "wf_server (Frame s ts) = (length ts < 2 ^ 32 \<and> list_all wf_tile ts)"
| "wf_server (Cursor c) = wf_cursor c"
| "wf_server (Meta a t) = (wf_str a \<and> wf_str t)"
| "wf_server (Clipboard p m d) = (wf_str m \<and> fits_u32 d)"
| "wf_server (Refused r) = wf_str r"
| "wf_server _ = True"

section \<open>The trailing version information\<close>

lemma put_peer_chunks:
  "put_peer [] p = to_le 2 (protocol p) @ to_le 4 (capabilities p) @ put_str [] (software p)"
  by (simp add: put_peer_def put_chunks str.put_append [of "_ @ _"])

lemma put_peer_append: "put_peer out p = out @ put_peer [] p"
  by (simp add: put_peer_def put_defs)

lemma put_peer_Cons: "put_peer (a # out) p = a # out @ put_peer [] p"
  by (subst put_peer_append) simp

lemma length_put_peer: "length (put_peer out p) = length out + 10 + length (software p)"
  by (simp add: put_peer_def wire_simps)

lemma parses_peer_fields: "wf_peer p \<Longrightarrow> parses get_peer_fields (put_peer [] p) p"
  unfolding get_peer_fields_def put_peer_chunks wf_peer_def
  by (intro parse_intros) auto

lemma starves_peer_fields: "wf_peer p \<Longrightarrow> starves get_peer_fields (put_peer [] p)"
  unfolding get_peer_fields_def put_peer_chunks wf_peer_def
  by (intro starves_chunks starves_lasts) auto

lemma put_peer_neq_Nil: "put_peer [] p \<noteq> []"
  by (simp add: put_peer_chunks)

lemma parses_peer: "wf_peer p \<Longrightarrow> parses get_peer (put_peer [] p) p"
  by (rule parses_optional [where p = get_peer_fields])
    (simp_all add: get_peer_def parses_peer_fields put_peer_neq_Nil)

lemma starves_but_peer: "wf_peer p \<Longrightarrow> starves_but get_peer (put_peer [] p) 0"
  by (rule starves_but_optional [where p = get_peer_fields])
    (simp_all add: get_peer_def starves_peer_fields)

lemma parses_end_peer: "parses_end get_peer [] peer_legacy"
  by (simp add: parses_end_def get_peer_def is_at_end_iff)

lemma parses_peer_put [parse_intros]:
  "wf_peer p \<Longrightarrow> parses (q p) [] y \<Longrightarrow> parses (get_bind get_peer q) (put_peer [] p) y"
  using parses_bind [OF parses_peer, of p q "[]" y] by simp

lemma parses_end_legacy: "parses_end (q peer_legacy) [] y \<Longrightarrow> parses_end (get_bind get_peer q) [] y"
  by (auto simp: parses_end_def get_bind_def get_peer_def is_at_end_iff)

lemma starves_but_peer_put:
  "wf_peer p \<Longrightarrow> starves_but (get_bind get_peer q) (put_peer [] p) 0"
  by (rule starves_but_bind_left) (rule starves_but_peer)

lemmas format_chunks =
  pixel_format.parses_put [unfolded put_format_def put_u8_def append_Nil append_Cons append_Nil, OF TrueI]
  pixel_format.starves_put [unfolded put_format_def put_u8_def append_Nil append_Cons append_Nil, OF TrueI]
  pixel_format.starves_but_put [unfolded put_format_def put_u8_def append_Nil append_Cons append_Nil, OF TrueI]
  pixel_format.parses_end_put [unfolded put_format_def put_u8_def append_Nil append_Cons append_Nil, OF TrueI]
  pixel_format.parses_end_last [unfolded put_format_def put_u8_def append_Nil append_Cons append_Nil, OF TrueI]

section \<open>Lists of tiles\<close>

lemma foldl_put_tile: "foldl put_tile out ts = out @ concat (map (put_tile []) ts)"
proof (induction ts arbitrary: out)
  case Nil
  then show ?case by simp
next
  case (Cons t ts)
  have "foldl put_tile out (t # ts) = put_tile out t @ concat (map (put_tile []) ts)"
    by (simp only: foldl_Cons Cons.IH)
  also have "put_tile out t = out @ put_tile [] t" by (rule put_tile_append)
  finally show ?case by simp
qed

lemma length_concat_tiles:
  "length (concat (map (put_tile []) ts)) = sum_list (map encoded_len ts)"
  by (induction ts) (simp_all add: length_put_tile)

lemma parses_tiles:
  "list_all wf_tile ts \<Longrightarrow> parses (get_tiles (length ts)) (concat (map (put_tile []) ts)) ts"
proof (induction ts)
  case Nil
  then show ?case by (simp add: parse_intros)
next
  case (Cons t ts)
  then have t: "wf_tile t" and ts: "parses (get_tiles (length ts)) (concat (map (put_tile []) ts)) ts"
    by auto
  have "parses (get_bind (get_tiles (length ts)) (\<lambda>us. get_ok (t # us)))
      (concat (map (put_tile []) ts) @ []) (t # ts)"
    by (rule parses_bind [OF ts]) (simp add: parse_intros)
  with t show ?case by (auto intro: tile.parses_put)
qed

lemma starves_tiles:
  "list_all wf_tile ts \<Longrightarrow> starves (get_tiles (length ts)) (concat (map (put_tile []) ts))"
proof (induction ts)
  case Nil
  then show ?case by (simp add: starves_Nil)
next
  case (Cons t ts)
  then have t: "wf_tile t" and ts: "starves (get_tiles (length ts)) (concat (map (put_tile []) ts))"
    by auto
  have "starves (get_bind (get_tiles (length ts)) (\<lambda>us. get_ok (t # us)))
      (concat (map (put_tile []) ts))"
    using ts by (auto simp: starves_def get_bind_def)
  with t show ?case by (auto intro: tile.starves_put)
qed

section \<open>Whole messages\<close>

lemma parses_tiles_put [parse_intros]:
  "list_all wf_tile ts \<Longrightarrow> n = length ts \<Longrightarrow> parses (q ts) [] y \<Longrightarrow>
     parses (get_bind (get_tiles n) q) (concat (map (put_tile []) ts)) y"
  using parses_bind [OF parses_tiles, of ts q "[]" y] by simp

lemma parses_last_cursor:
  "wf_cursor c \<Longrightarrow> parses (q c) [] y \<Longrightarrow> parses (get_bind get_cursor q) (put_cursor [] c) y"
  by (rule cursor.parses_last)

lemma starves_tiles_put:
  "list_all wf_tile ts \<Longrightarrow> n = length ts \<Longrightarrow>
     starves (get_bind (get_tiles n) q) (concat (map (put_tile []) ts))"
  using starves_bind [OF parses_tiles starves_tiles, of ts q "[]"] by (simp add: starves_Nil)

text \<open>
  The part of a client message every decoder needs, the optional part some messages carry
  after it, and what a decoder makes of a message that ends after the first part.
\<close>

fun client_required :: "client_message \<Rightarrow> bytes" where
  "client_required (Hello w h s p) = put_f64 (put_u32 (put_u32 (put_u8 [] 0) w) h) s"
| "client_required (Graft s p) = put_str (put_u8 [] 8) s"
| "client_required (PointerAxis h v w) = put_f64 (put_f64 (put_u8 [] 4) h) v"
| "client_required m = encode_client [] m"

fun client_legacy :: "client_message \<Rightarrow> client_message" where
  "client_legacy (Hello w h s p) = Hello w h s peer_legacy"
| "client_legacy (Graft s p) = Graft s peer_legacy"
| "client_legacy (PointerAxis h v w) = PointerAxis h v None"
| "client_legacy m = m"

fun server_required :: "server_message \<Rightarrow> bytes" where
  "server_required (Ready w h s f p) =
     put_format (put_f64 (put_u32 (put_u32 (put_u8 [] 0) w) h) s) f"
| "server_required m = encode_server [] m"

fun server_legacy :: "server_message \<Rightarrow> server_message" where
  "server_legacy (Ready w h s f p) = Ready w h s f peer_legacy"
| "server_legacy m = m"

lemma parses_get_wheel:
  fixes a b :: f64
  assumes "parses (q (Some (a, b))) [] y"
  shows "parses (get_bind get_wheel q) (to_le 8 a @ to_le 8 b) y"
proof -
  have "parses get_wheel (to_le 8 a @ to_le 8 b) (Some (a, b))"
    by (rule parses_optional [where p =
          "get_bind get_f64 (\<lambda>a. get_bind get_f64 (\<lambda>b. get_ok (Some (a, b))))"])
      (auto simp: get_wheel_def intro: parse_intros)
  with assms show ?thesis using parses_bind [of get_wheel _ "Some (a, b)" q "[]" y] by simp
qed

lemma parses_client:
  assumes "wf_client m" "\<And>h v. m \<noteq> PointerAxis h v None"
  shows "parses get_client (encode_client [] m) m"
  using assms
  by (cases m)
    (auto simp: get_client_def put_chunks put_str_Cons put_bytes_Cons put_peer_Cons Let_def
      intro!: parse_intros parses_get_wheel split: option.splits)

lemma starves_but_wheel:
  fixes a b :: f64
  shows "starves_but (get_bind get_wheel q) (to_le 8 a @ to_le 8 b) 0"
  by (rule starves_but_bind_left, rule starves_but_optional [where p =
        "get_bind get_f64 (\<lambda>a. get_bind get_f64 (\<lambda>b. get_ok (Some (a, b))))"])
    (auto simp: get_wheel_def intro: starve_intros)

lemma parses_end_wheel:
  "parses_end (q None) [] y \<Longrightarrow> parses_end (get_bind get_wheel q) [] y"
  by (auto simp: parses_end_def get_bind_def get_wheel_def is_at_end_iff)

lemma parses_end_ok: "x = y \<Longrightarrow> parses_end (get_ok x) [] y"
  by (rule parses_endI) (rule parses_ok)

lemma starves_but_client:
  assumes "wf_client m"
  shows "starves_but get_client (encode_client [] m) (length (client_required m))"
proof (cases "encode_client [] m = client_required m")
  case True
  with assms have "starves get_client (encode_client [] m)"
    by (cases m)
      (auto simp: get_client_def put_chunks put_str_Cons put_bytes_Cons put_peer_Cons Let_def
        put_peer_chunks intro!: starve_intros split: option.splits)
  then show ?thesis by (rule starves_butI)
next
  case False
  with assms show ?thesis
    by (cases m)
      (auto simp: get_client_def put_chunks put_str_Cons put_bytes_Cons put_peer_Cons Let_def wire_simps
        intro!: starves_but_chunks starves_but_peer_put starves_but_wheel split: option.splits)
qed

lemma parses_end_required_client:
  assumes "wf_client m"
  shows "parses_end get_client (client_required m) (client_legacy m)"
proof (cases "encode_client [] m = client_required m \<and> client_legacy m = m \<and> (\<forall>h v. m \<noteq> PointerAxis h v None)")
  case True
  with assms parses_client [of m] show ?thesis by (auto intro: parses_endI)
next
  case False
  with assms show ?thesis
    by (cases m)
      (auto simp: get_client_def put_chunks put_str_Cons put_bytes_Cons put_peer_Cons
        intro!: parses_end_chunks parses_end_lasts parses_end_legacy parses_end_wheel parses_end_ok)
qed

lemma parses_server:
  assumes "wf_server m"
  shows "parses get_server (encode_server [] m) m"
  using assms
  by (cases m)
    (auto simp: get_server_def put_chunks put_format_def put_str_Cons put_bytes_Cons put_peer_Cons
      put_cursor_append [of "[_]"] foldl_put_tile unat_of_nat
      intro!: parse_intros format_chunks parses_last_cursor)

lemma starves_but_server:
  assumes "wf_server m"
  shows "starves_but get_server (encode_server [] m) (length (server_required m))"
proof (cases "encode_server [] m = server_required m")
  case True
  with assms have "starves get_server (encode_server [] m)"
    by (cases m)
      (auto simp: get_server_def put_chunks put_format_def put_str_Cons put_bytes_Cons put_peer_Cons
        put_cursor_append [of "[_]"] foldl_put_tile unat_of_nat put_peer_neq_Nil
        intro!: starve_intros starves_tiles_put cursor.starves_last)
  then show ?thesis by (rule starves_butI)
next
  case False
  with assms show ?thesis
    by (cases m)
      (auto simp: get_server_def put_chunks put_format_def put_str_Cons put_peer_Cons wire_simps
        intro!: starves_but_chunks format_chunks starves_but_peer_put)
qed

lemma parses_end_required_server:
  assumes "wf_server m"
  shows "parses_end get_server (server_required m) (server_legacy m)"
proof (cases "encode_server [] m = server_required m \<and> server_legacy m = m")
  case True
  with assms parses_server [of m] show ?thesis by (auto intro: parses_endI)
next
  case False
  with assms show ?thesis
    by (cases m)
      (auto simp: get_server_def put_chunks put_format_def put_str_Cons put_peer_Cons
        intro!: parses_end_chunks parses_end_lasts format_chunks parses_end_legacy parses_end_ok)
qed

section \<open>The \<open>Message\<close> trait\<close>

text \<open>
  \<open>run_get\<close> is the shape of both \<open>decode\<close>s: read from a fresh cursor, ignore what is left.
\<close>

definition run_get :: "'a get \<Rightarrow> bytes \<Rightarrow> wire_error + 'a" where
  "run_get g b = (case g (new_reader b) of Inl e \<Rightarrow> Inl e | Inr (m, _) \<Rightarrow> Inr m)"

lemma decode_client_run: "decode_client = run_get get_client"
  by (simp add: fun_eq_iff decode_client_def run_get_def)

lemma decode_server_run: "decode_server = run_get get_server"
  by (simp add: fun_eq_iff decode_server_def run_get_def)

lemma run_get_parses:
  "parses g bs x \<Longrightarrow> length (bs @ rest) < 2 ^ 63 \<Longrightarrow> run_get g (bs @ rest) = Inr x"
  using parsesD [of g bs x "new_reader (bs @ rest)" rest] by (simp add: run_get_def)

lemma run_get_parses_end: "parses_end g bs x \<Longrightarrow> length bs < 2 ^ 63 \<Longrightarrow> run_get g bs = Inr x"
  by (auto simp: run_get_def parses_end_def)

lemma run_get_starves:
  "starves_but g bs m \<Longrightarrow> k < length bs \<Longrightarrow> k \<noteq> m \<Longrightarrow> length bs < 2 ^ 63 \<Longrightarrow>
     run_get g (take k bs) = Inl UnexpectedEof"
  by (auto simp: run_get_def starves_but_def)

text \<open>
  A message type: what it writes is appended, and a payload it wrote is decoded to the same
  message. \<open>required\<close> is the prefix every peer sends, \<open>legacy\<close> how a payload that stops
  there is read.
\<close>

locale message =
  fixes encode :: "bytes \<Rightarrow> 'm \<Rightarrow> bytes"
    and decode :: "bytes \<Rightarrow> wire_error + 'm"
    and wf :: "'m \<Rightarrow> bool"
    and required :: "'m \<Rightarrow> bytes"
    and legacy :: "'m \<Rightarrow> 'm"
  assumes encode_append: "encode out m = out @ encode [] m"
    and decode_encode: "wf m \<Longrightarrow> length (encode [] m) < 2 ^ 63 \<Longrightarrow> decode (encode [] m) = Inr m"
    and decode_truncated: "wf m \<Longrightarrow> length (encode [] m) < 2 ^ 63 \<Longrightarrow> k < length (encode [] m) \<Longrightarrow>
      decode (take k (encode [] m)) =
        (if k = length (required m) then Inr (legacy m) else Inl UnexpectedEof)"

text \<open>\<open>MAX_MESSAGE_LEN\<close>: 256 MiB.\<close>

definition MAX_MESSAGE_LEN :: nat where
  "MAX_MESSAGE_LEN = 268435456"

text \<open>
  \<open>write_framed\<close> into a byte vector, which cannot fail: the \<open>u32\<close> length and the payload,
  or \<open>TooLarge\<close> and nothing written.
\<close>

definition write_framed :: "(bytes \<Rightarrow> 'm \<Rightarrow> bytes) \<Rightarrow> bytes \<Rightarrow> 'm \<Rightarrow> wire_error + bytes" where
  "write_framed enc w msg =
     (let payload = enc [] msg; len = length payload in
      if MAX_MESSAGE_LEN < len then Inl (TooLarge len)
      else Inr (w @ to_le 4 (of_nat len :: u32) @ payload))"

text \<open>
  \<open>read_framed\<close> on a stream given as all the bytes that arrive before its end; returns the
  result and what is left of the stream. \<open>read_exact\<close> past the end consumes the rest.
\<close>

definition read_framed :: "(bytes \<Rightarrow> wire_error + 'm) \<Rightarrow> bytes \<Rightarrow> (wire_error + 'm) \<times> bytes" where
  "read_framed dec s =
     (if length s < 4 then (Inl (Io IoUnexpectedEof), [])
      else
        (let len = unat (from_le (take 4 s) :: u32) in
         if MAX_MESSAGE_LEN < len then (Inl (TooLarge len), drop 4 s)
         else if length (drop 4 s) < len then (Inl (Io IoUnexpectedEof), [])
         else (dec (take len (drop 4 s)), drop len (drop 4 s))))"

lemma read_framed_payload:
  assumes "length p \<le> MAX_MESSAGE_LEN"
  shows "read_framed dec (to_le 4 (of_nat (length p) :: u32) @ p @ rest) = (dec p, rest)"
  using assms
  by (simp add: read_framed_def from_le_to_le unat_of_nat MAX_MESSAGE_LEN_def)

text \<open>A message a writer accepts: well formed and within \<open>MAX_MESSAGE_LEN\<close>.\<close>

definition fits_frame :: "(bytes \<Rightarrow> 'm \<Rightarrow> bytes) \<Rightarrow> ('m \<Rightarrow> bool) \<Rightarrow> 'm \<Rightarrow> bool" where
  "fits_frame enc valid m \<longleftrightarrow> valid m \<and> length (enc [] m) \<le> MAX_MESSAGE_LEN"

context message
begin

abbreviation fits :: "'m \<Rightarrow> bool" where
  "fits \<equiv> fits_frame encode wf"

lemmas fits_def = fits_frame_def [of encode wf]

lemma write_framed_fits:
  "fits m \<Longrightarrow>
     write_framed encode w m = Inr (w @ to_le 4 (of_nat (length (encode [] m)) :: u32) @ encode [] m)"
  by (simp add: write_framed_def fits_def Let_def)

lemma read_write_framed:
  assumes "fits m" "write_framed encode w m = Inr s"
  shows "\<exists>f. s = w @ f \<and> read_framed decode (f @ rest) = (Inr m, rest)"
proof -
  let ?p = "encode [] m"
  have "length ?p \<le> MAX_MESSAGE_LEN" "decode ?p = Inr m"
    using assms(1) by (auto simp: fits_def MAX_MESSAGE_LEN_def decode_encode)
  then have "read_framed decode ((to_le 4 (of_nat (length ?p) :: u32) @ ?p) @ rest) = (Inr m, rest)"
    using read_framed_payload [of ?p decode rest] by simp
  with assms show ?thesis by (auto simp: write_framed_fits)
qed

lemma encode_inj:
  "wf m \<Longrightarrow> wf n \<Longrightarrow> length (encode [] m) < 2 ^ 63 \<Longrightarrow> encode [] m = encode [] n \<Longrightarrow> m = n"
  by (metis decode_encode sum.inject(2))

end

lemma client_truncated:
  assumes "wf_client m" "length (encode_client [] m) < 2 ^ 63" "k < length (encode_client [] m)"
  shows "decode_client (take k (encode_client [] m)) =
    (if k = length (client_required m) then Inr (client_legacy m) else Inl UnexpectedEof)"
proof (cases "k = length (client_required m)")
  case True
  have "\<exists>t. encode_client [] m = client_required m @ t"
    by (cases m) (auto simp: Let_def put_chunks put_str_Cons put_peer_Cons split: option.splits)
  with True have "take k (encode_client [] m) = client_required m" by auto
  with True assms show ?thesis
    by (simp add: decode_client_run run_get_parses_end [OF parses_end_required_client])
next
  case False
  with assms show ?thesis
    by (simp add: decode_client_run run_get_starves [OF starves_but_client])
qed

lemma server_truncated:
  assumes "wf_server m" "length (encode_server [] m) < 2 ^ 63" "k < length (encode_server [] m)"
  shows "decode_server (take k (encode_server [] m)) =
    (if k = length (server_required m) then Inr (server_legacy m) else Inl UnexpectedEof)"
proof (cases "k = length (server_required m)")
  case True
  have "\<exists>t. encode_server [] m = server_required m @ t"
    by (cases m) (auto simp: put_chunks put_format_def put_peer_Cons)
  with True have "take k (encode_server [] m) = server_required m" by auto
  with True assms show ?thesis
    by (simp add: decode_server_run run_get_parses_end [OF parses_end_required_server])
next
  case False
  with assms show ?thesis
    by (simp add: decode_server_run run_get_starves [OF starves_but_server])
qed

lemma client_encode_append: "encode_client out m = out @ encode_client [] m"
  by (cases m) (auto simp: put_defs put_peer_def Let_def split: option.splits)

lemma server_encode_append: "encode_server out m = out @ encode_server [] m"
  by (cases m) (auto simp: put_defs put_format_def put_peer_def foldl_put_tile put_cursor_append [of "_ @ _"]
      put_cursor_append [of "[_]"])

lemma client_decode_encode:
  assumes "wf_client m" "length (encode_client [] m) < 2 ^ 63"
  shows "decode_client (encode_client [] m) = Inr m"
proof (cases "\<exists>h v. m = PointerAxis h v None")
  case True
  then show ?thesis using assms run_get_parses_end [OF parses_end_required_client [of m]]
    by (auto simp: decode_client_run)
next
  case False
  then show ?thesis using assms run_get_parses [OF parses_client, of m "[]"]
    by (auto simp: decode_client_run)
qed

interpretation client: message encode_client decode_client wf_client client_required client_legacy
  by unfold_locales (rule client_encode_append, erule (1) client_decode_encode, erule (2) client_truncated)

interpretation server: message encode_server decode_server wf_server server_required server_legacy
proof unfold_locales
  fix m assume "wf_server m" "length (encode_server [] m) < 2 ^ 63"
  then show "decode_server (encode_server [] m) = Inr m"
    using run_get_parses [OF parses_server, of m "[]"] by (simp add: decode_server_run)
qed (rule server_encode_append, erule (2) server_truncated)

section \<open>Reading a stream of messages\<close>

text \<open>
  The reading loop of both ends (\<open>forward_frames\<close> and \<open>forward_input\<close> in
  \<open>crates/shoestring-remote-server/src/session.rs\<close>): a message this build does not know is
  skipped, any other error ends the loop. \<open>receive\<close> is the list of messages the loop hands
  on while its caller does not stop it.
\<close>

lemma read_framed_shorter:
  "read_framed dec s = (Inr m, s') \<Longrightarrow> length s' < length s"
  "read_framed dec s = (Inl (UnknownMessage k t), s') \<Longrightarrow> length s' < length s"
  by (auto simp: read_framed_def Let_def split: if_splits)

function receive :: "(bytes \<Rightarrow> wire_error + 'm) \<Rightarrow> bytes \<Rightarrow> 'm list" where
  "receive dec s =
     (case read_framed dec s of
        (Inr m, s') \<Rightarrow> m # receive dec s'
      | (Inl (UnknownMessage k t), s') \<Rightarrow> receive dec s'
      | (Inl e, s') \<Rightarrow> [])"
  by pat_completeness auto
termination
  by (relation "measure (\<lambda>(dec, s). length s)") (auto dest!: read_framed_shorter [OF sym])

declare receive.simps [simp del]

definition frame_of :: "bytes \<Rightarrow> bytes" where
  "frame_of p = to_le 4 (of_nat (length p) :: u32) @ p"

definition unknown_payload :: "(bytes \<Rightarrow> wire_error + 'm) \<Rightarrow> bytes \<Rightarrow> bool" where
  "unknown_payload dec p \<longleftrightarrow> length p \<le> MAX_MESSAGE_LEN \<and>
     (case dec p of Inl (UnknownMessage k t) \<Rightarrow> True | _ \<Rightarrow> False)"

lemma receive_message:
  "length p \<le> MAX_MESSAGE_LEN \<Longrightarrow> dec p = Inr m \<Longrightarrow> receive dec (frame_of p @ s) = m # receive dec s"
  by (simp add: frame_of_def receive.simps [of dec "_ @ _"] read_framed_payload)

lemma receive_unknown:
  "unknown_payload dec p \<Longrightarrow> receive dec (frame_of p @ s) = receive dec s"
  by (auto simp: unknown_payload_def frame_of_def receive.simps [of dec "_ @ _"] read_framed_payload
      split: sum.splits wire_error.splits)

lemma receive_Nil: "receive dec [] = []"
  by (simp add: receive.simps read_framed_def)

lemma receive_error:
  "read_framed dec s = (Inl e, s') \<Longrightarrow> (\<And>k t. e \<noteq> UnknownMessage k t) \<Longrightarrow> receive dec s = []"
  by (subst receive.simps) (auto split: wire_error.splits)

text \<open>
  What goes over a stream: messages, and payloads with a tag the reader does not know.
\<close>

datatype 'm item = Known 'm | Unknown bytes

fun known :: "'m item list \<Rightarrow> 'm list" where
  "known [] = []"
| "known (Known m # is) = m # known is"
| "known (Unknown p # is) = known is"

fun item_ok :: "(bytes \<Rightarrow> 'm \<Rightarrow> bytes) \<Rightarrow> (bytes \<Rightarrow> wire_error + 'm) \<Rightarrow> ('m \<Rightarrow> bool) \<Rightarrow> 'm item \<Rightarrow> bool" where
  "item_ok enc dec valid (Known m) = fits_frame enc valid m"
| "item_ok enc dec valid (Unknown p) = unknown_payload dec p"

fun item_bytes :: "(bytes \<Rightarrow> 'm \<Rightarrow> bytes) \<Rightarrow> 'm item \<Rightarrow> bytes" where
  "item_bytes enc (Known m) = frame_of (enc [] m)"
| "item_bytes enc (Unknown p) = frame_of p"

context message
begin

lemma receive_items:
  "list_all (item_ok encode decode wf) is \<Longrightarrow>
     receive decode (concat (map (item_bytes encode) is) @ s) = known is @ receive decode s"
proof (induction "is")
  case Nil
  then show ?case by simp
next
  case (Cons i "is")
  show ?case
  proof (cases i)
    case (Known m)
    with Cons have "length (encode [] m) \<le> MAX_MESSAGE_LEN" "wf m" by (auto simp: fits_def)
    moreover from this have "decode (encode [] m) = Inr m"
      by (auto intro: decode_encode simp: MAX_MESSAGE_LEN_def)
    ultimately show ?thesis using Known Cons by (simp add: receive_message)
  next
    case (Unknown p)
    with Cons show ?thesis by (simp add: receive_unknown)
  qed
qed

end

section \<open>Properties of the protocol\<close>

text \<open>
  Framing round trip, client to server: a well-formed client message that fits
  \<open>MAX_MESSAGE_LEN\<close> is appended to the stream by \<open>write_framed\<close>, and \<open>read_framed\<close> reads
  exactly its bytes back to the same message, whatever follows.
\<close>

theorem client_frame_roundtrip:
  assumes "wf_client m" and "length (encode_client [] m) \<le> MAX_MESSAGE_LEN"
    and "write_framed encode_client w m = Inr s"
  shows "\<exists>f. s = w @ f \<and> read_framed decode_client (f @ rest) = (Inr m, rest)"
  using assms by (intro client.read_write_framed) (simp_all add: fits_frame_def)

theorem client_frame_roundtrip_witness:
  "\<exists>f. [7] @ (to_le 4 (6 :: u32) @ [1, 30, 0, 0, 0, 1]) = [7] @ f \<and>
     read_framed decode_client (f @ [9]) = (Inr (Key 30 True), [9])"
  by (rule client_frame_roundtrip)
    (simp_all add: write_framed_def put_chunks to_le_def MAX_MESSAGE_LEN_def bool_byte_def upt_rec)

text \<open>
  C3. A stream from the server, read by the loop every receiver runs: well-formed messages
  arrive in order and unchanged, and payloads with an unknown tag (a newer peer's messages)
  are skipped without disturbing their neighbours.
\<close>

theorem server_stream_skips_unknown:
  assumes "list_all (item_ok encode_server decode_server wf_server) is"
  shows "receive decode_server (concat (map (item_bytes encode_server) is)) = known is"
  using server.receive_items [OF assms, of "[]"] by (simp add: receive_Nil)

theorem server_stream_skips_unknown_witness:
  "receive decode_server (concat (map (item_bytes encode_server)
     [Known (Cursor Hidden), Unknown [200, 1], Known ServerBye])) = [Cursor Hidden, ServerBye]"
proof -
  have "unknown_payload decode_server [200, 1]"
    by (simp add: unknown_payload_def decode_server_def MAX_MESSAGE_LEN_def get_server_def get_bind_def
        get_u8_def take_n_def new_reader_def get_ok_def get_err_def)
  then show ?thesis
    by (subst server_stream_skips_unknown)
      (simp_all add: fits_frame_def put_u8_def MAX_MESSAGE_LEN_def)
qed

text \<open>
  A client message cut short anywhere is never misread: the decoder reports
  \<open>UnexpectedEof\<close>, except exactly where an older peer's message ends, where the missing
  version information (or wheel travel) is read as absent.
\<close>

theorem client_message_cut_short:
  assumes "wf_client m" and "length (encode_client [] m) \<le> MAX_MESSAGE_LEN"
    and "k < length (encode_client [] m)"
  shows "decode_client (take k (encode_client [] m)) =
    (if k = length (client_required m) then Inr (client_legacy m) else Inl UnexpectedEof)"
  using assms by (intro client.decode_truncated) (simp_all add: MAX_MESSAGE_LEN_def)

theorem client_message_cut_short_witness:
  "decode_client (take 17 (encode_client [] (Hello 800 600 0x3FF0000000000000 peer_ours))) =
     Inr (Hello 800 600 0x3FF0000000000000 peer_legacy)"
proof -
  let ?m = "Hello 800 600 0x3FF0000000000000 peer_ours"
  have "wf_client ?m" "17 < length (encode_client [] ?m)"
    "length (encode_client [] ?m) \<le> MAX_MESSAGE_LEN" "length (client_required ?m) = 17"
    by (simp_all add: wf_peer_def wf_str_def fits_u32_def peer_ours_def PKG_VERSION_def str_def
        wire_simps length_put_peer MAX_MESSAGE_LEN_def)
  from client_message_cut_short [OF this(1) this(3) this(2)] this(4) show ?thesis by simp
qed

text \<open>
  Append-only evolution: bytes a newer server appends to any message are ignored.
\<close>

theorem server_trailing_ignored:
  assumes "wf_server m" and "length (encode_server [] m @ rest) \<le> MAX_MESSAGE_LEN"
  shows "decode_server (encode_server [] m @ rest) = Inr m"
  using assms run_get_parses [OF parses_server, of m rest]
  by (simp add: decode_server_run MAX_MESSAGE_LEN_def)

theorem server_trailing_ignored_witness:
  "decode_server (encode_server [] (Resize 1 2 3) @ [1, 2]) = Inr (Resize 1 2 3)"
  by (rule server_trailing_ignored) (simp_all add: wire_simps MAX_MESSAGE_LEN_def)

end
