(* ===== verification/TileCodec.thy ===== *)
theory TileCodec
  imports Protocol
begin

text \<open>
  The tile codec (\<open>crates/shoestring-remote/src/codec.rs\<close>) and the size limits around it
  (\<open>lib.rs\<close>: \<open>band_rows\<close>, \<open>frame_messages\<close>, \<open>framebuffer_len\<close>, \<open>check_scale\<close>). The server
  crops damaged rectangles into tiles, the viewer blits them into its own framebuffer.

  zlib (\<open>flate2\<close>) is a parameter: \<open>deflate\<close> is what the encoder makes of some bytes,
  \<open>inflate\<close> what the decoder yields from some data, with a flag that is \<open>False\<close> when the
  stream ends in an error. A Rust slice out of range panics: an outer \<open>None\<close>.
\<close>

type_synonym deflater = "bytes \<Rightarrow> bytes"
type_synonym inflater = "bytes \<Rightarrow> bytes \<times> bool"

section \<open>Machine arithmetic and slices\<close>

text \<open>\<open>usize\<close> products wrap in a release build.\<close>

definition usize_mul :: "nat \<Rightarrow> nat \<Rightarrow> nat" where
  "usize_mul a b = (a * b) mod 2 ^ 64"

text \<open>\<open>&xs[i..i + n]\<close>\<close>

definition slice :: "'a list \<Rightarrow> nat \<Rightarrow> nat \<Rightarrow> 'a list option" where
  "slice xs i n = (if i + n \<le> length xs then Some (take n (drop i xs)) else None)"

text \<open>\<open>xs[i..i + n].copy_from_slice(ys)\<close> with \<open>n = ys.len()\<close>\<close>

definition copy_into :: "'a list \<Rightarrow> nat \<Rightarrow> 'a list \<Rightarrow> 'a list option" where
  "copy_into xs i ys =
     (if i + length ys \<le> length xs then Some (take i xs @ ys @ drop (i + length ys) xs) else None)"

section \<open>Cropping and blitting\<close>

text \<open>The row loop of \<open>crop\<close>, from row \<open>row\<close> on, \<open>n\<close> rows left.\<close>

fun crop_rows :: "bytes \<Rightarrow> nat \<Rightarrow> nat \<Rightarrow> nat \<Rightarrow> nat \<Rightarrow> nat \<Rightarrow> nat \<Rightarrow> bytes \<Rightarrow> bytes option" where
  "crop_rows fb stride x y row_bytes row 0 out = Some out"
| "crop_rows fb stride x y row_bytes row (Suc n) out =
     (case slice fb ((y + row) * stride + x * BYTES_PER_PIXEL) row_bytes of
        None \<Rightarrow> None
      | Some s \<Rightarrow> crop_rows fb stride x y row_bytes (Suc row) n (out @ s))"

definition crop :: "bytes \<Rightarrow> u32 \<Rightarrow> u32 \<Rightarrow> rect \<Rightarrow> bytes option option" where
  "crop fb fb_width fb_height r =
     (let stride = unat fb_width * BYTES_PER_PIXEL in
      if length fb < usize_mul stride (unat fb_height) then Some None
      else
        (let x = unat (rx r); y = unat (ry r); w = unat (rw r); h = unat (rh r) in
         if w = 0 \<or> h = 0 \<or> unat fb_width < x + w \<or> unat fb_height < y + h then Some None
         else map_option Some (crop_rows fb stride x y (w * BYTES_PER_PIXEL) 0 h [])))"

definition encode_tile :: "deflater \<Rightarrow> rect \<Rightarrow> bytes \<Rightarrow> tile_encoding \<Rightarrow> tile" where
  "encode_tile deflate r raw pref =
     (case pref of
        Raw \<Rightarrow> \<lparr>tile_rect = r, encoding = Raw, data = raw\<rparr>
      | Zlib \<Rightarrow>
          (let compressed = deflate raw in
           if length compressed < length raw
           then \<lparr>tile_rect = r, encoding = Zlib, data = compressed\<rparr>
           else \<lparr>tile_rect = r, encoding = Raw, data = raw\<rparr>))"

fun extract_tiles ::
  "deflater \<Rightarrow> bytes \<Rightarrow> u32 \<Rightarrow> u32 \<Rightarrow> rect list \<Rightarrow> tile_encoding \<Rightarrow> tile list option" where
  "extract_tiles deflate fb w h [] pref = Some []"
| "extract_tiles deflate fb w h (r # rs) pref =
     (case crop fb w h r of
        None \<Rightarrow> None
      | Some None \<Rightarrow> extract_tiles deflate fb w h rs pref
      | Some (Some raw) \<Rightarrow>
          map_option ((#) (encode_tile deflate r raw pref)) (extract_tiles deflate fb w h rs pref))"

text \<open>
  \<open>zlib_decompress\<close>: the decoder is read through \<open>take(expected + 1)\<close>, so an error is seen
  only if it comes before that many bytes.
\<close>

definition zlib_decompress :: "inflater \<Rightarrow> bytes \<Rightarrow> nat \<Rightarrow> wire_error + bytes" where
  "zlib_decompress inflate d expected =
     (case inflate d of (yielded, fine) \<Rightarrow>
        (let out = take (expected + 1) yielded in
         if length yielded < expected + 1 \<and> \<not> fine then Inl (Codec Inflate)
         else if expected < length out then Inl (Codec (InflatesPast expected))
         else Inr out))"

text \<open>The pixels of a tile, checked against the length its rectangle needs.\<close>

definition tile_pixels :: "inflater \<Rightarrow> tile \<Rightarrow> nat \<Rightarrow> wire_error + bytes" where
  "tile_pixels inflate t expected =
     (case encoding t of
        Raw \<Rightarrow> (if length (data t) \<noteq> expected then Inl (Codec (RawTileLen (length (data t)) expected))
                else Inr (data t))
      | Zlib \<Rightarrow> bind_res (zlib_decompress inflate (data t) expected) (\<lambda>decoded.
           if length decoded \<noteq> expected then Inl (Codec (ZlibTileLen (length decoded) expected))
           else Inr decoded))"

fun blit_rows :: "bytes \<Rightarrow> bytes \<Rightarrow> nat \<Rightarrow> nat \<Rightarrow> nat \<Rightarrow> nat \<Rightarrow> nat \<Rightarrow> nat \<Rightarrow> bytes option" where
  "blit_rows dst pixels stride x y row_bytes row 0 = Some dst"
| "blit_rows dst pixels stride x y row_bytes row (Suc n) =
     (case slice pixels (row * row_bytes) row_bytes of
        None \<Rightarrow> None
      | Some s \<Rightarrow>
          (case copy_into dst ((y + row) * stride + x * BYTES_PER_PIXEL) s of
             None \<Rightarrow> None
           | Some dst' \<Rightarrow> blit_rows dst' pixels stride x y row_bytes (Suc row) n))"

text \<open>\<open>apply_tile\<close>: the result and the destination afterwards.\<close>

definition apply_tile ::
  "inflater \<Rightarrow> bytes \<Rightarrow> u32 \<Rightarrow> u32 \<Rightarrow> tile \<Rightarrow> ((wire_error + unit) \<times> bytes) option" where
  "apply_tile inflate dst dst_width dst_height t =
     (let stride = unat dst_width * BYTES_PER_PIXEL in
      if length dst < usize_mul stride (unat dst_height)
      then Some (Inl (Codec (DstTooSmall (length dst) dst_width dst_height)), dst)
      else
        (let r = tile_rect t;
             x = unat (rx r); y = unat (ry r); w = unat (rw r); h = unat (rh r) in
         if w = 0 \<or> h = 0 \<or> unat dst_width < x + w \<or> unat dst_height < y + h
         then Some (Inl (Codec (RectOutside (rx r) (ry r) (rw r) (rh r) dst_width dst_height)), dst)
         else
           (case tile_pixels inflate t (raw_len r) of
              Inl e \<Rightarrow> Some (Inl e, dst)
            | Inr pixels \<Rightarrow>
                map_option (Pair (Inr ()))
                  (blit_rows dst pixels stride x y (w * BYTES_PER_PIXEL) 0 h))))"

text \<open>
  The frame loop of the viewer (\<open>drain_server_messages\<close> in
  \<open>crates/shoestring-remote-client/src/main.rs\<close>): a tile that fails is logged and dropped.
\<close>

fun apply_tiles :: "inflater \<Rightarrow> bytes \<Rightarrow> u32 \<Rightarrow> u32 \<Rightarrow> tile list \<Rightarrow> bytes option" where
  "apply_tiles inflate dst w h [] = Some dst"
| "apply_tiles inflate dst w h (t # ts) =
     (case apply_tile inflate dst w h t of
        None \<Rightarrow> None
      | Some (_, dst') \<Rightarrow> apply_tiles inflate dst' w h ts)"

section \<open>Limits\<close>

text \<open>\<open>MAX_TILE_BYTES\<close>: 32 MiB.\<close>

definition MAX_TILE_BYTES :: nat where "MAX_TILE_BYTES = 33554432"
definition FRAME_HEADER_LEN :: nat where "FRAME_HEADER_LEN = 1 + 4 + 4"
definition MAX_FRAME_DIMENSION :: u32 where "MAX_FRAME_DIMENSION = 16384"
definition MAX_FRAME_PIXELS :: nat where "MAX_FRAME_PIXELS = 8192 * 8192"

definition band_rows :: "u32 \<Rightarrow> u32" where
  "band_rows width =
     (let row = max (unat width) 1 * BYTES_PER_PIXEL in
      of_nat (min (max (MAX_TILE_BYTES div row) 1) (2 ^ 32 - 1)))"

text \<open>The loop of \<open>frame_messages\<close>: frames so far, \<open>seq\<close>, the current batch and its length.\<close>

fun pack_frames ::
  "server_message list \<Rightarrow> u32 \<Rightarrow> tile list \<Rightarrow> nat \<Rightarrow> tile list \<Rightarrow> server_message list \<times> u32" where
  "pack_frames frames seq batch len [] = (frames @ [Frame (seq + 1) batch], seq + 1)"
| "pack_frames frames seq batch len (t # ts) =
     (if batch \<noteq> [] \<and> MAX_MESSAGE_LEN < len + encoded_len t
      then pack_frames (frames @ [Frame (seq + 1) batch]) (seq + 1) [t]
             (FRAME_HEADER_LEN + encoded_len t) ts
      else pack_frames frames seq (batch @ [t]) (len + encoded_len t) ts)"

definition frame_messages :: "u32 \<Rightarrow> tile list \<Rightarrow> server_message list \<times> u32" where
  "frame_messages last_seq tiles = pack_frames [] last_seq [] FRAME_HEADER_LEN tiles"

definition framebuffer_len :: "u32 \<Rightarrow> u32 \<Rightarrow> wire_error + nat" where
  "framebuffer_len width height =
     (if width = 0 \<or> height = 0 \<or> MAX_FRAME_DIMENSION < width \<or> MAX_FRAME_DIMENSION < height
      then Inl (BadFrame (FrameSize width height))
      else
        (let pixels = unat width * unat height in
         if MAX_FRAME_PIXELS < pixels then Inl (BadFrame (FramePixels width height))
         else Inr (pixels * BYTES_PER_PIXEL)))"

text \<open>
  IEEE 754 binary64 on bit patterns: exponent, sign, and the order, which on
  non-negative values is the order of the patterns.
\<close>

definition f64_exponent :: "f64 \<Rightarrow> nat" where
  "f64_exponent v = unat (and (drop_bit 52 v) 0x7FF)"

definition f64_is_finite :: "f64 \<Rightarrow> bool" where
  "f64_is_finite v \<longleftrightarrow> f64_exponent v \<noteq> 0x7FF"

definition f64_sign :: "f64 \<Rightarrow> bool" where
  "f64_sign v \<longleftrightarrow> bit v 63"

text \<open>\<open>16.0\<close>\<close>

definition MAX_SCALE :: f64 where "MAX_SCALE = 0x4030000000000000"

definition check_scale :: "f64 \<Rightarrow> wire_error + f64" where
  "check_scale s =
     (if f64_is_finite s \<and> (\<not> f64_sign s \<and> s \<noteq> 0) \<and> s \<le> MAX_SCALE
      then Inr s else Inl (BadFrame (FrameScale s)))"

section \<open>Which bytes a rectangle covers\<close>

text \<open>
  Byte \<open>i\<close> of a framebuffer of stride \<open>s\<close> belongs to pixel column \<open>i mod s div 4\<close> of row
  \<open>i div s\<close>.
\<close>

definition covers :: "nat \<Rightarrow> rect \<Rightarrow> nat \<Rightarrow> bool" where
  "covers stride r i \<longleftrightarrow>
     (let px = i mod stride div BYTES_PER_PIXEL; py = i div stride in
      unat (rx r) \<le> px \<and> px < unat (rx r) + unat (rw r) \<and>
      unat (ry r) \<le> py \<and> py < unat (ry r) + unat (rh r))"

definition inside :: "u32 \<Rightarrow> u32 \<Rightarrow> rect \<Rightarrow> bool" where
  "inside w h r \<longleftrightarrow> rw r \<noteq> 0 \<and> rh r \<noteq> 0 \<and>
     unat (rx r) + unat (rw r) \<le> unat w \<and> unat (ry r) + unat (rh r) \<le> unat h"

text \<open>A framebuffer that holds its declared size, whose length does not overflow \<open>usize\<close>.\<close>

definition fb_ok :: "bytes \<Rightarrow> u32 \<Rightarrow> u32 \<Rightarrow> bool" where
  "fb_ok fb w h \<longleftrightarrow>
     unat w * BYTES_PER_PIXEL * unat h < 2 ^ 64 \<and> unat w * BYTES_PER_PIXEL * unat h \<le> length fb"

lemma fb_ok_not_small: "fb_ok fb w h \<Longrightarrow> \<not> length fb < usize_mul (unat w * BYTES_PER_PIXEL) (unat h)"
  by (simp add: fb_ok_def usize_mul_def)

lemma unat_eq_0: "unat (x :: 'a::len word) = 0 \<longleftrightarrow> x = 0"
  by (simp add: unat_eq_zero)

lemma row_in_range:
  assumes "x * 4 + rb \<le> stride" "R < H" "stride * H \<le> (L :: nat)"
  shows "R * stride + x * 4 + rb \<le> L"
proof -
  have "R * stride + x * 4 + rb \<le> Suc R * stride" using assms(1) by simp
  also have "\<dots> \<le> H * stride" using assms(2) by (intro mult_le_mono1) simp
  finally show ?thesis using assms(3) by (simp add: mult.commute)
qed

lemma crop_rows_correct:
  assumes "x * 4 + rb \<le> stride" "y + row + n \<le> H" "stride * H \<le> length fb"
  shows "crop_rows fb stride x y rb row n out =
    Some (out @ concat (map (\<lambda>k. take rb (drop ((y + k) * stride + x * 4) fb)) [row..<row + n]))"
  using assms(2)
proof (induction n arbitrary: row out)
  case 0
  then show ?case by simp
next
  case (Suc n)
  have "(y + row) * stride + x * 4 + rb \<le> length fb"
    using row_in_range [OF assms(1) _ assms(3), of "y + row"] Suc.prems by simp
  then have "slice fb ((y + row) * stride + x * 4) rb =
      Some (take rb (drop ((y + row) * stride + x * 4) fb))"
    by (simp add: slice_def)
  moreover have "[row..<row + Suc n] = row # [Suc row..<Suc row + n]"
    by (simp add: upt_conv_Cons)
  ultimately show ?case
    using Suc.IH [of "Suc row"] Suc.prems by (simp add: BYTES_PER_PIXEL_def)
qed

lemma nth_copy_into:
  assumes "copy_into xs i ys = Some zs"
  shows "length zs = length xs \<and>
    (\<forall>j<length xs. zs ! j = (if i \<le> j \<and> j < i + length ys then ys ! (j - i) else xs ! j))"
  using assms by (auto simp: copy_into_def nth_append min_def split: if_splits)

text \<open>The rows \<open>[row..<row + n]\<close> of a rectangle, blitted from pixels laid out row by row.\<close>

lemma blit_rows_correct:
  assumes rb: "x * 4 + rb \<le> stride" and H: "y + row + n \<le> H" and L: "stride * H \<le> length dst"
    and P: "length pixels = (row + n) * rb"
  shows "\<exists>dst'. blit_rows dst pixels stride x y rb row n = Some dst' \<and> length dst' = length dst \<and>
    (\<forall>i<length dst. dst' ! i =
      (if y + row \<le> i div stride \<and> i div stride < y + row + n
          \<and> x * 4 \<le> i mod stride \<and> i mod stride < x * 4 + rb
       then pixels ! ((i div stride - y) * rb + (i mod stride - x * 4)) else dst ! i))"
  using H L P
proof (induction n arbitrary: row dst)
  case 0
  then show ?case by auto
next
  case (Suc n)
  have "row * rb + rb \<le> length pixels" using Suc.prems by simp
  then have s: "slice pixels (row * rb) rb = Some (take rb (drop (row * rb) pixels))"
    by (simp add: slice_def)
  let ?s = "take rb (drop (row * rb) pixels)"
  let ?i = "(y + row) * stride + x * 4"
  have ls: "length ?s = rb" using Suc.prems by (simp add: add_mult_distrib)
  have "?i + rb \<le> length dst"
    using row_in_range [OF rb _ Suc.prems(2), of "y + row"] Suc.prems(1) by simp
  then obtain d where d: "copy_into dst ?i ?s = Some d" using ls by (simp add: copy_into_def)
  note n = nth_copy_into [OF d]
  have "\<exists>dst'. blit_rows d pixels stride x y rb (Suc row) n = Some dst' \<and> length dst' = length d \<and>
    (\<forall>i<length d. dst' ! i =
      (if y + Suc row \<le> i div stride \<and> i div stride < y + Suc row + n
          \<and> x * 4 \<le> i mod stride \<and> i mod stride < x * 4 + rb
       then pixels ! ((i div stride - y) * rb + (i mod stride - x * 4)) else d ! i))"
    by (rule Suc.IH) (use Suc.prems n in auto)
  then obtain d' where d': "blit_rows d pixels stride x y rb (Suc row) n = Some d'" "length d' = length d"
    and nth: "\<And>i. i < length d \<Longrightarrow> d' ! i =
      (if y + Suc row \<le> i div stride \<and> i div stride < y + Suc row + n
          \<and> x * 4 \<le> i mod stride \<and> i mod stride < x * 4 + rb
       then pixels ! ((i div stride - y) * rb + (i mod stride - x * 4)) else d ! i)"
    by blast
  have dn: "d ! i = (if i div stride = y + row \<and> x * 4 \<le> i mod stride \<and> i mod stride < x * 4 + rb
       then pixels ! (row * rb + (i mod stride - x * 4)) else dst ! i)" if i: "i < length dst" for i
  proof (cases "rb = 0")
    case True
    with n i ls show ?thesis by auto
  next
    case False
    have "(?i \<le> i \<and> i < ?i + rb) \<longleftrightarrow>
        (i div stride = y + row \<and> x * 4 \<le> i mod stride \<and> i mod stride < x * 4 + rb)" (is "?A \<longleftrightarrow> ?B")
    proof
      assume A: ?A
      with rb have "i div stride = y + row"
        by (intro div_nat_eqI) (auto simp: algebra_simps)
      moreover from this have "i mod stride = i - (y + row) * stride"
        by (metis minus_div_mult_eq_mod)
      ultimately show ?B using A by auto
    next
      assume B: ?B
      then have "i = (y + row) * stride + i mod stride" by (metis div_mult_mod_eq)
      with B show ?A by linarith
    qed
    moreover have "i - ?i = i mod stride - x * 4" if "i div stride = y + row"
    proof -
      from that have "i = (y + row) * stride + i mod stride" by (metis div_mult_mod_eq)
      then show ?thesis by linarith
    qed
    ultimately show ?thesis using n i ls by (auto simp: nth_take)
  qed
  show ?case
  proof (intro exI conjI allI impI)
    show "blit_rows dst pixels stride x y rb row (Suc n) = Some d'"
      using s d d'(1) by (simp add: BYTES_PER_PIXEL_def)
    show "length d' = length dst" using d'(2) n by simp
    fix i assume "i < length dst"
    then show "d' ! i =
      (if y + row \<le> i div stride \<and> i div stride < y + row + Suc n
          \<and> x * 4 \<le> i mod stride \<and> i mod stride < x * 4 + rb
       then pixels ! ((i div stride - y) * rb + (i mod stride - x * 4)) else dst ! i)"
      using nth [of i] dn [of i] n by auto
  qed
qed

section \<open>Crop and apply\<close>

definition region :: "bytes \<Rightarrow> u32 \<Rightarrow> rect \<Rightarrow> bytes" where
  "region fb w r = concat (map (\<lambda>k. take (unat (rw r) * 4)
     (drop ((unat (ry r) + k) * (unat w * 4) + unat (rx r) * 4) fb)) [0..<unat (rh r)])"

lemma inside_bounds:
  assumes "inside w h r"
  shows "unat (rx r) * 4 + unat (rw r) * 4 \<le> unat w * 4" "unat (ry r) + unat (rh r) \<le> unat h"
    "unat (rw r) \<noteq> 0" "unat (rh r) \<noteq> 0"
  using assms by (auto simp: inside_def unat_eq_zero)

lemma crop_inside:
  assumes "fb_ok fb w h" "inside w h r"
  shows "crop fb w h r = Some (Some (region fb w r))"
proof -
  note b = inside_bounds [OF assms(2)]
  have "unat w * 4 * unat h \<le> length fb" using assms(1) by (simp add: fb_ok_def BYTES_PER_PIXEL_def)
  from crop_rows_correct [OF b(1) _ this, of "unat (ry r)" 0 "unat (rh r)" "[]"] b(2)
  have "crop_rows fb (unat w * 4) (unat (rx r)) (unat (ry r)) (unat (rw r) * 4) 0 (unat (rh r)) []
      = Some (region fb w r)"
    by (simp add: region_def)
  with b fb_ok_not_small [OF assms(1)] show ?thesis
    by (simp add: crop_def BYTES_PER_PIXEL_def Let_def)
qed

lemma crop_outside: "fb_ok fb w h \<Longrightarrow> \<not> inside w h r \<Longrightarrow> crop fb w h r = Some None"
  by (auto simp: crop_def inside_def Let_def dest: fb_ok_not_small simp: unat_eq_zero)

lemma length_concat_rows:
  "(\<And>k. k \<in> set ks \<Longrightarrow> length (f k) = c) \<Longrightarrow> length (concat (map f ks)) = length ks * c"
  by (induction ks) auto

lemma nth_concat_rows:
  assumes "\<And>k. k < n \<Longrightarrow> length (f k) = c" "k < n" "j < c"
  shows "concat (map f [0..<n]) ! (k * c + j) = f k ! j"
  using assms
proof (induction n)
  case 0
  then show ?case by simp
next
  case (Suc n)
  have l: "length (concat (map f [0..<n])) = n * c"
    using length_concat_rows [of "[0..<n]" f c] Suc.prems(1) by simp
  show ?case
  proof (cases "k < n")
    case True
    then have "Suc k * c \<le> n * c" by (intro mult_le_mono1) simp
    with Suc.prems(3) have "k * c + j < n * c" by simp
    with l have "concat (map f [0..<Suc n]) ! (k * c + j) = concat (map f [0..<n]) ! (k * c + j)"
      by (simp add: nth_append)
    with True Suc show ?thesis by simp
  next
    case False
    with Suc.prems have "k = n" by simp
    with l show ?thesis by (simp add: nth_append)
  qed
qed

lemma length_region:
  assumes "fb_ok fb w h" "inside w h r"
  shows "length (region fb w r) = raw_len r"
proof -
  note b = inside_bounds [OF assms(2)]
  have L: "unat w * 4 * unat h \<le> length fb" using assms(1) by (simp add: fb_ok_def BYTES_PER_PIXEL_def)
  have "length (take (unat (rw r) * 4)
      (drop ((unat (ry r) + k) * (unat w * 4) + unat (rx r) * 4) fb)) = unat (rw r) * 4"
    if "k < unat (rh r)" for k
    using row_in_range [OF b(1) _ L, of "unat (ry r) + k"] that b(2) by simp
  then have "length (region fb w r) = length [0..<unat (rh r)] * (unat (rw r) * 4)"
    unfolding region_def by (intro length_concat_rows) simp
  then show ?thesis by (simp add: raw_len_def pixel_count_def BYTES_PER_PIXEL_def)
qed

lemma nth_region:
  assumes "fb_ok fb w h" "inside w h r" "k < unat (rh r)" "j < unat (rw r) * 4"
  shows "region fb w r ! (k * (unat (rw r) * 4) + j) =
    fb ! ((unat (ry r) + k) * (unat w * 4) + unat (rx r) * 4 + j)"
proof -
  note b = inside_bounds [OF assms(2)]
  have L: "unat w * 4 * unat h \<le> length fb" using assms(1) by (simp add: fb_ok_def BYTES_PER_PIXEL_def)
  have r: "(unat (ry r) + k) * (unat w * 4) + unat (rx r) * 4 + unat (rw r) * 4 \<le> length fb"
    if "k < unat (rh r)" for k
    using row_in_range [OF b(1) _ L, of "unat (ry r) + k"] that b(2) by simp
  have "region fb w r ! (k * (unat (rw r) * 4) + j) =
      take (unat (rw r) * 4) (drop ((unat (ry r) + k) * (unat w * 4) + unat (rx r) * 4) fb) ! j"
    unfolding region_def
    by (rule nth_concat_rows [OF _ assms(3,4)]) (use r in force)
  also have "\<dots> = fb ! ((unat (ry r) + k) * (unat w * 4) + unat (rx r) * 4 + j)"
    using r [OF assms(3)] assms(4) by (simp add: add.assoc)
  finally show ?thesis .
qed

lemma covers_iff:
  "covers (w * 4) r i \<longleftrightarrow>
     unat (ry r) \<le> i div (w * 4) \<and> i div (w * 4) < unat (ry r) + unat (rh r) \<and>
     unat (rx r) * 4 \<le> i mod (w * 4) \<and> i mod (w * 4) < unat (rx r) * 4 + unat (rw r) * 4"
proof -
  have "a \<le> m div 4 \<longleftrightarrow> a * 4 \<le> m" "m div 4 < a + b \<longleftrightarrow> m < a * 4 + b * 4" for a b m :: nat
    by linarith+
  then show ?thesis by (auto simp: covers_def BYTES_PER_PIXEL_def Let_def)
qed

text \<open>Applying any tile: what it writes, and that it never reads or writes out of range.\<close>

lemma apply_tile_inside:
  assumes "fb_ok dst w h" "inside w h (tile_rect t)"
    and px: "tile_pixels inflate t (raw_len (tile_rect t)) = Inr pixels"
    and len: "length pixels = raw_len (tile_rect t)"
  shows "\<exists>dst'. apply_tile inflate dst w h t = Some (Inr (), dst') \<and> length dst' = length dst \<and>
    (\<forall>i<length dst. dst' ! i =
      (if covers (unat w * 4) (tile_rect t) i
       then pixels ! ((i div (unat w * 4) - unat (ry (tile_rect t))) * (unat (rw (tile_rect t)) * 4)
              + (i mod (unat w * 4) - unat (rx (tile_rect t)) * 4))
       else dst ! i))"
proof -
  note b = inside_bounds [OF assms(2)]
  have L: "unat w * 4 * unat h \<le> length dst"
    using assms(1) by (simp add: fb_ok_def BYTES_PER_PIXEL_def)
  have l: "length pixels = (0 + unat (rh (tile_rect t))) * (unat (rw (tile_rect t)) * 4)"
    using len by (simp add: raw_len_def pixel_count_def BYTES_PER_PIXEL_def)
  from blit_rows_correct [OF b(1) _ L l, of "unat (ry (tile_rect t))"] b(2)
  obtain dst' where d: "blit_rows dst pixels (unat w * 4) (unat (rx (tile_rect t)))
      (unat (ry (tile_rect t))) (unat (rw (tile_rect t)) * 4) 0 (unat (rh (tile_rect t))) = Some dst'"
    "length dst' = length dst"
    and n: "\<forall>i<length dst. dst' ! i =
      (if covers (unat w * 4) (tile_rect t) i
       then pixels ! ((i div (unat w * 4) - unat (ry (tile_rect t))) * (unat (rw (tile_rect t)) * 4)
              + (i mod (unat w * 4) - unat (rx (tile_rect t)) * 4))
       else dst ! i)"
    by (auto simp: covers_iff)
  have "apply_tile inflate dst w h t = Some (Inr (), dst')"
    using d(1) px b fb_ok_not_small [OF assms(1)]
    by (simp add: apply_tile_def BYTES_PER_PIXEL_def Let_def)
  with d(2) n show ?thesis by blast
qed

lemma apply_tile_rejected:
  assumes "fb_ok dst w h" "\<not> inside w h (tile_rect t) \<or>
    tile_pixels inflate t (raw_len (tile_rect t)) = Inl e"
  shows "\<exists>e. apply_tile inflate dst w h t = Some (Inl e, dst)"
  using assms fb_ok_not_small [OF assms(1)]
  by (auto simp: apply_tile_def inside_def unat_eq_zero Let_def)

lemma tile_pixels_length: "tile_pixels inflate t n = Inr p \<Longrightarrow> length p = n"
  by (auto simp: tile_pixels_def bind_res_eq_Inr split: tile_encoding.splits if_splits)

text \<open>What zlib promises: decompressing what was compressed yields it, without error.\<close>

definition zlib_ok :: "deflater \<Rightarrow> inflater \<Rightarrow> bool" where
  "zlib_ok deflate inflate \<longleftrightarrow> (\<forall>xs. inflate (deflate xs) = (xs, True))"

lemma tile_pixels_encode:
  "zlib_ok deflate inflate \<Longrightarrow> length raw = n \<Longrightarrow>
     tile_pixels inflate (encode_tile deflate r raw pref) n = Inr raw"
  by (cases pref)
    (auto simp: encode_tile_def tile_pixels_def zlib_decompress_def zlib_ok_def Let_def)

lemma tile_rect_encode [simp]: "tile_rect (encode_tile deflate r raw pref) = r"
  by (cases pref) (auto simp: encode_tile_def Let_def)

lemma apply_encoded:
  assumes z: "zlib_ok deflate inflate"
    and fb: "fb_ok fb w h" and dst: "fb_ok dst w h" and r: "inside w h r"
    and len: "length fb = length dst"
  shows "\<exists>dst'. apply_tile inflate dst w h (encode_tile deflate r (region fb w r) pref)
      = Some (Inr (), dst') \<and> length dst' = length dst \<and>
    (\<forall>i<length dst. dst' ! i = (if covers (unat w * 4) r i then fb ! i else dst ! i))"
proof -
  let ?t = "encode_tile deflate r (region fb w r) pref"
  note lr = length_region [OF fb r]
  have px: "tile_pixels inflate ?t (raw_len (tile_rect ?t)) = Inr (region fb w r)"
    using tile_pixels_encode [OF z lr] by simp
  from apply_tile_inside [OF dst _ px] r lr obtain dst' where d:
    "apply_tile inflate dst w h ?t = Some (Inr (), dst')" "length dst' = length dst"
    and n: "\<forall>i<length dst. dst' ! i = (if covers (unat w * 4) r i
       then region fb w r ! ((i div (unat w * 4) - unat (ry r)) * (unat (rw r) * 4)
              + (i mod (unat w * 4) - unat (rx r) * 4))
       else dst ! i)"
    by auto
  have "region fb w r ! ((i div (unat w * 4) - unat (ry r)) * (unat (rw r) * 4)
              + (i mod (unat w * 4) - unat (rx r) * 4)) = fb ! i"
    if c: "covers (unat w * 4) r i" for i
  proof -
    from c have "region fb w r ! ((i div (unat w * 4) - unat (ry r)) * (unat (rw r) * 4)
              + (i mod (unat w * 4) - unat (rx r) * 4)) =
       fb ! ((unat (ry r) + (i div (unat w * 4) - unat (ry r))) * (unat w * 4) + unat (rx r) * 4
              + (i mod (unat w * 4) - unat (rx r) * 4))"
      by (intro nth_region [OF fb r]) (auto simp: covers_iff)
    also have "(unat (ry r) + (i div (unat w * 4) - unat (ry r))) * (unat w * 4) + unat (rx r) * 4
              + (i mod (unat w * 4) - unat (rx r) * 4) = i div (unat w * 4) * (unat w * 4) + i mod (unat w * 4)"
      using c by (simp add: covers_iff)
    also have "\<dots> = i" by (rule div_mult_mod_eq)
    finally show ?thesis .
  qed
  with d n show ?thesis by auto
qed

section \<open>Packing tiles into frames\<close>

fun frame_tiles :: "server_message \<Rightarrow> tile list" where
  "frame_tiles (Frame s ts) = ts"
| "frame_tiles _ = []"

fun frame_seq :: "server_message \<Rightarrow> u32" where
  "frame_seq (Frame s ts) = s"
| "frame_seq _ = 0"

definition frame_len :: "tile list \<Rightarrow> nat" where
  "frame_len ts = FRAME_HEADER_LEN + sum_list (map encoded_len ts)"

lemma frame_len_simps [simp]:
  "frame_len [] = FRAME_HEADER_LEN"
  "frame_len (ts @ us) = frame_len ts + sum_list (map encoded_len us)"
  by (simp_all add: frame_len_def)

lemma length_encode_frame: "length (encode_server [] (Frame s ts)) = frame_len ts"
  by (simp add: foldl_put_tile wire_simps length_concat_tiles frame_len_def FRAME_HEADER_LEN_def)

text \<open>The frames a packing loop adds, and what holds of them.\<close>

definition packs :: "u32 \<Rightarrow> tile list \<Rightarrow> server_message list \<Rightarrow> bool" where
  "packs seq ts fs \<longleftrightarrow> fs \<noteq> [] \<and> concat (map frame_tiles fs) = ts \<and>
     fs = map (\<lambda>j. Frame (seq + 1 + of_nat j) (frame_tiles (fs ! j))) [0..<length fs]"

lemma packs_single: "packs seq ts [Frame (seq + 1) ts]"
  by (simp add: packs_def)

lemma packs_Cons:
  assumes "packs (seq + 1) ts fs"
  shows "packs seq (batch @ ts) (Frame (seq + 1) batch # fs)"
proof -
  from assms have "fs = map (\<lambda>j. Frame (seq + 1 + 1 + of_nat j) (frame_tiles (fs ! j))) [0..<length fs]"
    by (simp add: packs_def)
  moreover have "map (\<lambda>j. Frame (seq + 1 + of_nat j) (frame_tiles ((Frame (seq + 1) batch # fs) ! j)))
      [0..<length (Frame (seq + 1) batch # fs)] =
    Frame (seq + 1) batch # map (\<lambda>j. Frame (seq + 1 + 1 + of_nat j) (frame_tiles (fs ! j))) [0..<length fs]"
    by (simp add: upt_conv_Cons map_Suc_upt [symmetric] algebra_simps del: upt_Suc)
  ultimately show ?thesis using assms by (simp add: packs_def)
qed

lemma pack_frames_correct:
  "\<exists>fs. pack_frames frames seq batch len ts = (frames @ fs, seq + of_nat (length fs)) \<and>
     packs seq (batch @ ts) fs"
proof (induction frames seq batch len ts rule: pack_frames.induct)
  case (1 frames seq batch len)
  then show ?case using packs_single by force
next
  case (2 frames seq batch len t ts)
  show ?case
  proof (cases "batch \<noteq> [] \<and> MAX_MESSAGE_LEN < len + encoded_len t")
    case True
    with 2 obtain fs where "pack_frames frames seq batch len (t # ts) =
        ((frames @ [Frame (seq + 1) batch]) @ fs, seq + 1 + of_nat (length fs))"
      "packs (seq + 1) ([t] @ ts) fs" by auto
    then show ?thesis using packs_Cons [of seq "[t] @ ts" fs batch]
      by (intro exI [of _ "Frame (seq + 1) batch # fs"]) (simp add: algebra_simps)
  next
    case False
    with 2 show ?thesis by auto
  qed
qed

text \<open>Every frame fits a message, if every tile does; a further tile would not have fitted.\<close>

fun greedy :: "server_message list \<Rightarrow> bool" where
  "greedy (f # g # fs) =
     (MAX_MESSAGE_LEN < frame_len (frame_tiles f) + encoded_len (hd (frame_tiles g)) \<and> greedy (g # fs))"
| "greedy _ = True"

lemma greedy_snoc:
  "greedy (fs @ [f]) \<Longrightarrow>
     MAX_MESSAGE_LEN < frame_len (frame_tiles f) + encoded_len (hd (frame_tiles g)) \<Longrightarrow>
     greedy (fs @ [f, g])"
  by (induction fs rule: greedy.induct) auto

lemma greedy_last: "greedy (fs @ [f]) \<Longrightarrow> hd (frame_tiles f) = hd (frame_tiles g) \<Longrightarrow> greedy (fs @ [g])"
  by (induction fs rule: greedy.induct) auto

lemma pack_frames_fit:
  assumes "len = frame_len batch" "len \<le> MAX_MESSAGE_LEN"
    "\<forall>t\<in>set ts. frame_len [t] \<le> MAX_MESSAGE_LEN"
    "\<forall>f\<in>set frames. frame_len (frame_tiles f) \<le> MAX_MESSAGE_LEN"
  shows "\<forall>f\<in>set (fst (pack_frames frames seq batch len ts)). frame_len (frame_tiles f) \<le> MAX_MESSAGE_LEN"
  using assms
proof (induction frames seq batch len ts rule: pack_frames.induct)
  case (1 frames seq batch len)
  then show ?case by auto
next
  case (2 frames seq batch len t ts)
  show ?case
  proof (cases "batch \<noteq> [] \<and> MAX_MESSAGE_LEN < len + encoded_len t")
    case True
    have "\<forall>f\<in>set (fst (pack_frames (frames @ [Frame (seq + 1) batch]) (seq + 1) [t]
        (FRAME_HEADER_LEN + encoded_len t) ts)). frame_len (frame_tiles f) \<le> MAX_MESSAGE_LEN"
      by (rule "2.IH"(1) [OF True]) (use "2.prems" in \<open>auto simp: frame_len_def\<close>)
    with True show ?thesis by simp
  next
    case False
    have "\<forall>f\<in>set (fst (pack_frames frames seq (batch @ [t]) (len + encoded_len t) ts)).
        frame_len (frame_tiles f) \<le> MAX_MESSAGE_LEN"
      by (rule "2.IH"(2) [OF False]) (use "2.prems" False in \<open>auto simp: frame_len_def\<close>)
    with False show ?thesis by (simp only: pack_frames.simps if_False)
  qed
qed

lemma pack_frames_greedy:
  assumes "len = frame_len batch" "greedy (frames @ [Frame s batch])" "batch = [] \<longrightarrow> frames = []"
  shows "greedy (fst (pack_frames frames seq batch len ts))"
  using assms
proof (induction frames seq batch len ts arbitrary: s rule: pack_frames.induct)
  case (1 frames seq batch len)
  then show ?case using greedy_last [of frames "Frame s batch" "Frame (seq + 1) batch"] by simp
next
  case (2 frames seq batch len t ts)
  show ?case
  proof (cases "batch \<noteq> [] \<and> MAX_MESSAGE_LEN < len + encoded_len t")
    case True
    have "greedy (frames @ [Frame (seq + 1) batch, Frame s [t]])"
      using True "2.prems" greedy_last [of frames "Frame s batch" "Frame (seq + 1) batch"]
      by (intro greedy_snoc) auto
    then have "greedy (fst (pack_frames (frames @ [Frame (seq + 1) batch]) (seq + 1) [t]
        (FRAME_HEADER_LEN + encoded_len t) ts))"
      by (intro "2.IH"(1) [OF True, of s]) (auto simp: frame_len_def)
    with True show ?thesis by simp
  next
    case False
    have "greedy (frames @ [Frame s (batch @ [t])])"
    proof (cases "batch = []")
      case True
      with "2.prems" show ?thesis by simp
    next
      case False
      with "2.prems" greedy_last [of frames "Frame s batch" "Frame s (batch @ [t])"] show ?thesis
        by simp
    qed
    then have "greedy (fst (pack_frames frames seq (batch @ [t]) (len + encoded_len t) ts))"
      by (intro "2.IH"(2) [OF False, of s]) (use "2.prems" in \<open>auto simp: frame_len_def\<close>)
    with False show ?thesis by (simp only: pack_frames.simps if_False)
  qed
qed

lemma band_bytes:
  assumes "unat width \<le> unat MAX_FRAME_DIMENSION" "0 < width"
  shows "unat (band_rows width) * (unat width * BYTES_PER_PIXEL) \<le> MAX_TILE_BYTES"
    "1 \<le> unat (band_rows width)"
proof -
  let ?row = "unat width * 4"
  from assms(2) have w: "1 \<le> unat width"
    by (simp add: Suc_le_eq unat_gt_0)
  have "?row \<le> 65536" using assms(1) by (simp add: MAX_FRAME_DIMENSION_def)
  then have "1 \<le> MAX_TILE_BYTES div ?row"
    using w div_le_mono2 [of ?row 65536 MAX_TILE_BYTES] by (simp add: MAX_TILE_BYTES_def)
  moreover have "MAX_TILE_BYTES div ?row \<le> 33554432"
    using div_le_dividend [of MAX_TILE_BYTES ?row] by (simp only: MAX_TILE_BYTES_def)
  ultimately have "unat (band_rows width) = MAX_TILE_BYTES div ?row"
    using w by (simp add: band_rows_def BYTES_PER_PIXEL_def Let_def unat_of_nat max_def min_def)
  then show "unat (band_rows width) * (unat width * BYTES_PER_PIXEL) \<le> MAX_TILE_BYTES"
    "1 \<le> unat (band_rows width)"
    using \<open>1 \<le> MAX_TILE_BYTES div ?row\<close> by (simp_all add: BYTES_PER_PIXEL_def div_times_less_eq_dividend)
qed

section \<open>Properties of the codec\<close>

lemma apply_extracted:
  assumes z: "zlib_ok deflate inflate" and fb: "fb_ok fb w h"
  shows "fb_ok dst w h \<Longrightarrow> length dst = length fb \<Longrightarrow>
    \<exists>ts dst'. extract_tiles deflate fb w h rs pref = Some ts \<and> apply_tiles inflate dst w h ts = Some dst' \<and>
      length dst' = length fb \<and>
      (\<forall>i<length fb. dst' ! i =
         (if \<exists>r\<in>set rs. inside w h r \<and> covers (unat w * 4) r i then fb ! i else dst ! i))"
proof (induction rs arbitrary: dst)
  case Nil
  then show ?case by simp
next
  case (Cons r rs)
  show ?case
  proof (cases "inside w h r")
    case True
    note c = crop_inside [OF fb True]
    from apply_encoded [OF z fb Cons.prems(1) True Cons.prems(2) [symmetric]] obtain d where
      d: "apply_tile inflate dst w h (encode_tile deflate r (region fb w r) pref) = Some (Inr (), d)"
      "length d = length dst"
      "\<forall>i<length dst. d ! i = (if covers (unat w * 4) r i then fb ! i else dst ! i)"
      by blast
    with Cons.prems have "fb_ok d w h" "length d = length fb" by (simp_all add: fb_ok_def)
    from Cons.IH [OF this] obtain ts d' where
      "extract_tiles deflate fb w h rs pref = Some ts" "apply_tiles inflate d w h ts = Some d'"
      "length d' = length fb" "\<forall>i<length fb. d' ! i =
         (if \<exists>r\<in>set rs. inside w h r \<and> covers (unat w * 4) r i then fb ! i else d ! i)"
      by blast
    with c d True Cons.prems(2) show ?thesis by auto
  next
    case False
    from Cons.IH [OF Cons.prems] crop_outside [OF fb False] False show ?thesis by auto
  qed
qed

text \<open>
  C2. Damage reaches the viewer: extracting tiles for any list of damaged rectangles and
  applying them to a viewer's framebuffer of the same size never panics, copies exactly the
  server's bytes on every rectangle that lies inside the output, skips stale rectangles, and
  leaves every other byte of the viewer alone, with or without compression.
\<close>

theorem damage_reaches_viewer:
  assumes "zlib_ok deflate inflate" and "fb_ok fb w h" and "length dst = length fb"
  shows "\<exists>ts dst'. extract_tiles deflate fb w h rs pref = Some ts \<and>
    apply_tiles inflate dst w h ts = Some dst' \<and> length dst' = length fb \<and>
    (\<forall>i<length fb. dst' ! i =
      (if \<exists>r\<in>set rs. inside w h r \<and> covers (unat w * 4) r i then fb ! i else dst ! i))"
  using assms by (intro apply_extracted) (simp_all add: fb_ok_def)

text \<open>A toy codec that shrinks runs of equal bytes, for the witness.\<close>

definition rle :: deflater where
  "rle xs = (if xs \<noteq> [] \<and> xs = replicate (length xs) (hd xs) \<and> length xs < 256
     then [1, of_nat (length xs), hd xs] else 0 # xs)"

fun unrle :: inflater where
  "unrle (b # xs) = (if b = 1 then (replicate (unat (hd xs)) (hd (tl xs)), True) else (xs, True))"
| "unrle [] = ([], False)"

lemma zlib_ok_rle: "zlib_ok rle unrle"
  unfolding zlib_ok_def
proof
  fix xs show "unrle (rle xs) = (xs, True)"
    by (auto simp: rle_def unat_of_nat)
qed

theorem damage_reaches_viewer_witness:
  "\<exists>ts dst'. extract_tiles rle (replicate 16 5) 2 2 [\<lparr>rx = 0, ry = 0, rw = 1, rh = 2\<rparr>] Zlib = Some ts \<and>
    apply_tiles unrle (replicate 16 0) 2 2 ts = Some dst' \<and> length dst' = length (replicate 16 (5 :: u8)) \<and>
    (\<forall>i<length (replicate 16 (5 :: u8)). dst' ! i =
      (if \<exists>r\<in>set [\<lparr>rx = 0, ry = 0, rw = 1, rh = 2\<rparr>]. inside 2 2 r \<and> covers (unat (2 :: u32) * 4) r i
       then replicate 16 5 ! i else replicate 16 0 ! i))"
  by (rule damage_reaches_viewer [OF zlib_ok_rle]) (simp_all add: fb_ok_def BYTES_PER_PIXEL_def)

text \<open>
  No tile can corrupt memory: whatever its rectangle, encoding and data, applying it to
  a framebuffer that holds its declared size returns (no slice is out of range), keeps the
  length, writes only inside the tile's rectangle, and writes nothing when it is refused.
\<close>

theorem apply_tile_is_contained:
  assumes "fb_ok dst w h"
  shows "\<exists>res dst'. apply_tile inflate dst w h t = Some (res, dst') \<and> length dst' = length dst \<and>
    (is_ok res \<longleftrightarrow> inside w h (tile_rect t) \<and> is_ok (tile_pixels inflate t (raw_len (tile_rect t)))) \<and>
    (if is_ok res
     then \<forall>i<length dst. \<not> covers (unat w * 4) (tile_rect t) i \<longrightarrow> dst' ! i = dst ! i
     else dst' = dst)"
proof (cases "inside w h (tile_rect t) \<and> is_ok (tile_pixels inflate t (raw_len (tile_rect t)))")
  case True
  then obtain p where p: "tile_pixels inflate t (raw_len (tile_rect t)) = Inr p"
    by (cases "tile_pixels inflate t (raw_len (tile_rect t))") auto
  from apply_tile_inside [OF assms _ p tile_pixels_length [OF p]] True show ?thesis by fastforce
next
  case False
  then have "\<not> inside w h (tile_rect t) \<or> (\<exists>e. tile_pixels inflate t (raw_len (tile_rect t)) = Inl e)"
    by (cases "tile_pixels inflate t (raw_len (tile_rect t))") auto
  with apply_tile_rejected [OF assms] obtain e where "apply_tile inflate dst w h t = Some (Inl e, dst)"
    by blast
  with False show ?thesis by auto
qed

theorem apply_tile_is_contained_witness:
  "\<exists>res dst'. apply_tile unrle (replicate 16 0) 2 2
      \<lparr>tile_rect = \<lparr>rx = 1, ry = 0, rw = 2, rh = 1\<rparr>, encoding = Raw, data = []\<rparr> = Some (res, dst') \<and>
    dst' = replicate 16 0"
  using apply_tile_is_contained [of "replicate 16 0" 2 2 unrle
      "\<lparr>tile_rect = \<lparr>rx = 1, ry = 0, rw = 2, rh = 1\<rparr>, encoding = Raw, data = []\<rparr>"]
  by (auto simp: fb_ok_def BYTES_PER_PIXEL_def inside_def split: if_splits)

text \<open>
  Packing one render's tiles into frames: no tile is lost, duplicated or reordered; at
  least one frame is sent; the frames are numbered on from the last sequence number
  (wrapping) and the returned number is the last one used; every encoded frame fits a
  message when every tile alone does; and no frame could have taken the next one's first tile.
\<close>

theorem frames_carry_the_tiles:
  assumes "frame_messages last_seq tiles = (frames, seq)"
    and "\<forall>t\<in>set tiles. FRAME_HEADER_LEN + encoded_len t \<le> MAX_MESSAGE_LEN"
  shows "packs last_seq tiles frames \<and> seq = last_seq + of_nat (length frames) \<and>
    (\<forall>f\<in>set frames. length (encode_server [] f) \<le> MAX_MESSAGE_LEN) \<and> greedy frames"
proof -
  let ?p = "pack_frames [] last_seq [] FRAME_HEADER_LEN tiles"
  from assms(1) have p: "?p = (frames, seq)" by (simp add: frame_messages_def)
  from pack_frames_correct [of "[]" last_seq "[]" FRAME_HEADER_LEN tiles] p
  have k: "packs last_seq tiles frames" "seq = last_seq + of_nat (length frames)" by auto
  have "\<forall>f\<in>set (fst ?p). frame_len (frame_tiles f) \<le> MAX_MESSAGE_LEN"
    by (rule pack_frames_fit)
      (use assms(2) in \<open>auto simp: frame_len_def FRAME_HEADER_LEN_def MAX_MESSAGE_LEN_def\<close>)
  moreover have "\<exists>s ts. f = Frame s ts" if "f \<in> set frames" for f
  proof -
    have "f \<in> set (map (\<lambda>j. Frame (last_seq + 1 + of_nat j) (frame_tiles (frames ! j))) [0..<length frames])"
      using that k(1) unfolding packs_def by metis
    then show ?thesis by auto
  qed
  ultimately have "\<forall>f\<in>set frames. length (encode_server [] f) \<le> MAX_MESSAGE_LEN"
    using p length_encode_frame by (metis fst_conv frame_tiles.simps(1))
  moreover have "greedy frames"
    using pack_frames_greedy [of FRAME_HEADER_LEN "[]" "[]" 0 last_seq tiles] p by simp
  ultimately show ?thesis using k by simp
qed

theorem frames_carry_the_tiles_witness:
  "packs 0xFFFFFFFF [\<lparr>tile_rect = \<lparr>rx = 0, ry = 0, rw = 1, rh = 1\<rparr>, encoding = Raw, data = [1, 2, 3, 4]\<rparr>]
     [Frame 0 [\<lparr>tile_rect = \<lparr>rx = 0, ry = 0, rw = 1, rh = 1\<rparr>, encoding = Raw, data = [1, 2, 3, 4]\<rparr>]]"
  using frames_carry_the_tiles [of "0xFFFFFFFF"
      "[\<lparr>tile_rect = \<lparr>rx = 0, ry = 0, rw = 1, rh = 1\<rparr>, encoding = Raw, data = [1, 2, 3, 4]\<rparr>]"
      "[Frame 0 [\<lparr>tile_rect = \<lparr>rx = 0, ry = 0, rw = 1, rh = 1\<rparr>, encoding = Raw, data = [1, 2, 3, 4]\<rparr>]]" 0]
  by (simp add: frame_messages_def FRAME_HEADER_LEN_def encoded_len_def MAX_MESSAGE_LEN_def)

text \<open>
  The size limits fit together: a framebuffer length is returned only for a size within
  \<open>MAX_FRAME_DIMENSION\<close> and \<open>MAX_FRAME_PIXELS\<close>, is that size's exact byte count and at most
  \<open>MAX_MESSAGE_LEN\<close>, and an uncompressed band of \<open>band_rows\<close> rows of that width makes a
  one-tile frame that fits a message.
\<close>

theorem frame_limits_fit:
  assumes "framebuffer_len w h = Inr n"
  shows "n = unat w * unat h * BYTES_PER_PIXEL \<and> 0 < n \<and> n \<le> MAX_MESSAGE_LEN \<and>
    1 \<le> unat (band_rows w) \<and>
    (\<forall>r raw. unat (rw r) = unat w \<longrightarrow> unat (rh r) \<le> unat (band_rows w) \<longrightarrow> length raw = raw_len r \<longrightarrow>
       FRAME_HEADER_LEN + encoded_len (encode_tile deflate r raw pref) \<le> MAX_MESSAGE_LEN)"
proof -
  from assms have w: "unat w \<le> unat MAX_FRAME_DIMENSION" "0 < w" and h: "h \<noteq> 0"
    and n: "n = unat w * unat h * BYTES_PER_PIXEL" "unat w * unat h \<le> MAX_FRAME_PIXELS"
    by (auto simp: framebuffer_len_def Let_def not_less word_le_nat_alt [of w] word_neq_0_conv split: if_splits)
  note b = band_bytes [OF w]
  have "encoded_len (encode_tile deflate r raw pref) \<le> 13 + MAX_TILE_BYTES"
    if r: "unat (rw r) = unat w" "unat (rh r) \<le> unat (band_rows w)" "length raw = raw_len r" for r raw
  proof -
    have "raw_len r = unat (rh r) * (unat w * BYTES_PER_PIXEL)"
      using r(1) by (simp add: raw_len_def pixel_count_def)
    also have "\<dots> \<le> unat (band_rows w) * (unat w * BYTES_PER_PIXEL)"
      using r(2) by (rule mult_le_mono1)
    finally have "length raw \<le> MAX_TILE_BYTES" using b(1) r(3) by simp
    then show ?thesis by (cases pref) (auto simp: encoded_len_def encode_tile_def Let_def)
  qed
  moreover have "0 < n"
    using n(1) w(2) h by (simp add: BYTES_PER_PIXEL_def unat_gt_0 word_neq_0_conv)
  moreover have "n \<le> MAX_MESSAGE_LEN"
    using n mult_le_mono1 [OF n(2), of 4]
    by (simp add: MAX_MESSAGE_LEN_def MAX_FRAME_PIXELS_def BYTES_PER_PIXEL_def)
  moreover have "FRAME_HEADER_LEN + (13 + MAX_TILE_BYTES) \<le> MAX_MESSAGE_LEN"
    by (simp add: FRAME_HEADER_LEN_def MAX_TILE_BYTES_def MAX_MESSAGE_LEN_def)
  ultimately show ?thesis using n(1) b(2) by (meson add_le_cancel_left le_trans)
qed

theorem frame_limits_fit_witness:
  "(640 * 480 * 4 :: nat) \<le> MAX_MESSAGE_LEN \<and> 1 \<le> unat (band_rows 640)"
  using frame_limits_fit [of 640 480 "640 * 480 * 4" rle Raw]
  by (simp add: framebuffer_len_def MAX_FRAME_DIMENSION_def MAX_FRAME_PIXELS_def BYTES_PER_PIXEL_def)

end
