(* ===== verification/Tracker.thy ===== *)
theory Tracker
  imports Prelude
begin

text \<open>
  The contract shared by the two places that track held input: the remote server's
  \<open>holds.rs\<close> (which viewer holds what) and the window manager's \<open>SeatHeld\<close> in
  \<open>inject.rs\<close> (which input source holds what). Both pass a transition on only when it
  changes what all sources together hold. The locale proves once what a receiver of the
  transitions sees.
\<close>

section \<open>The receiver\<close>

text \<open>
  A transition is a code and whether it was pressed. \<open>receive_all D ts\<close> is what a receiver
  that held \<open>D\<close> holds after \<open>ts\<close>, or \<open>None\<close> when one of them was a repeat or a stray
  release: a press of something down, a release of something up.
\<close>

fun receive_all :: "'c set \<Rightarrow> ('c \<times> bool) list \<Rightarrow> 'c set option" where
  "receive_all D [] = Some D"
| "receive_all D ((c, p) # ts) =
    (if p = (c \<in> D) then None
     else receive_all (if p then insert c D else D - {c}) ts)"

lemma receive_all_append:
  "receive_all D (ts @ us) = Option.bind (receive_all D ts) (\<lambda>E. receive_all E us)"
  by (induction D ts rule: receive_all.induct) auto

lemma receive_all_releases:
  "distinct cs \<Longrightarrow> set cs \<subseteq> D \<Longrightarrow>
     receive_all D (map (\<lambda>c. (c, False)) cs) = Some (D - set cs)"
proof (induction cs arbitrary: D)
  case Nil
  then show ?case by simp
next
  case (Cons c cs)
  then have "set cs \<subseteq> D - {c}" by auto
  with Cons show ?case by (auto simp: Diff_insert2 [symmetric] insert_commute)
qed

lemma toggled_set:
  assumes "D' = (if p then insert c D else if other then D else D - {c})"
    and "d \<longleftrightarrow> (c \<in> D) \<noteq> (c \<in> D')"
  shows "D' = (if d then (if p then insert c D else D - {c}) else D)"
  using assms by (cases p; cases other) auto

text \<open>Events of a tracker: a source's own transition, and a source letting go of everything.\<close>

datatype ('i, 'c) hold_event = Note 'i 'c bool | Forget 'i

section \<open>The contract\<close>

locale held_tracker =
  fixes upd :: "'s \<Rightarrow> 'i \<Rightarrow> 'c \<Rightarrow> bool \<Rightarrow> 's \<times> bool"
    and rel :: "'s \<Rightarrow> 'i \<Rightarrow> 's \<times> 'c list"
    and holds :: "'s \<Rightarrow> 'i \<Rightarrow> 'c set"
    and live :: "'s \<Rightarrow> 'i \<Rightarrow> bool"
    and inv :: "'s \<Rightarrow> bool"
  assumes upd_inv: "inv s \<Longrightarrow> inv (fst (upd s i c p))"
    and rel_inv: "inv s \<Longrightarrow> inv (fst (rel s i))"
    and upd_holds: "inv s \<Longrightarrow> live s i \<Longrightarrow> holds (fst (upd s i c p)) =
        (holds s)(i := if p then insert c (holds s i) else holds s i - {c})"
    and upd_dead: "inv s \<Longrightarrow> \<not> live s i \<Longrightarrow> holds (fst (upd s i c p)) = holds s"
    and upd_delivers: "inv s \<Longrightarrow> snd (upd s i c p) \<longleftrightarrow>
        (\<exists>j. c \<in> holds s j) \<noteq> (\<exists>j. c \<in> holds (fst (upd s i c p)) j)"
    and rel_holds: "inv s \<Longrightarrow> holds (fst (rel s i)) = (holds s)(i := {})"
    and rel_released: "inv s \<Longrightarrow> set (snd (rel s i)) =
        {c. (\<exists>j. c \<in> holds s j) \<and> \<not> (\<exists>j. c \<in> holds (fst (rel s i)) j)}"
    and rel_distinct: "inv s \<Longrightarrow> distinct (snd (rel s i))"
begin

text \<open>What all sources together hold.\<close>

definition down :: "'s \<Rightarrow> 'c set" where
  "down s = (\<Union>i. holds s i)"

lemma mem_down: "c \<in> down s \<longleftrightarrow> (\<exists>i. c \<in> holds s i)"
  by (auto simp: down_def)

fun track :: "'s \<Rightarrow> ('i, 'c) hold_event \<Rightarrow> 's \<times> ('c \<times> bool) list" where
  "track s (Note i c p) = (case upd s i c p of (s', d) \<Rightarrow> (s', if d then [(c, p)] else []))"
| "track s (Forget i) = (case rel s i of (s', cs) \<Rightarrow> (s', map (\<lambda>c. (c, False)) cs))"

fun track_all :: "'s \<Rightarrow> ('i, 'c) hold_event list \<Rightarrow> 's \<times> ('c \<times> bool) list" where
  "track_all s [] = (s, [])"
| "track_all s (e # es) = (case track s e of (s', ts) \<Rightarrow>
     (case track_all s' es of (s'', us) \<Rightarrow> (s'', ts @ us)))"

lemma down_upd_live:
  assumes "inv s" "live s i"
  shows "down (fst (upd s i c p)) =
     (if p then insert c (down s)
      else if \<exists>j. j \<noteq> i \<and> c \<in> holds s j then down s else down s - {c})"
  using assms
  by (auto simp: down_def upd_holds split: if_splits)

lemma delivers_change:
  "inv s \<Longrightarrow> snd (upd s i c p) \<longleftrightarrow> (c \<in> down s) \<noteq> (c \<in> down (fst (upd s i c p)))"
  by (simp add: upd_delivers mem_down)

lemma down_upd:
  assumes s: "inv s"
  shows "down (fst (upd s i c p)) =
    (if snd (upd s i c p) then (if p then insert c (down s) else down s - {c}) else down s)"
proof (cases "live s i")
  case True
  show ?thesis
    by (rule toggled_set [OF down_upd_live [OF s True] delivers_change [OF s]])
next
  case False
  with s show ?thesis by (simp add: down_def upd_dead upd_delivers)
qed

lemma upd_changes:
  assumes s: "inv s" and d: "snd (upd s i c p)"
  shows "p = (c \<notin> down s)"
proof -
  from s d have ne: "(c \<in> down s) \<noteq> (c \<in> down (fst (upd s i c p)))"
    by (simp add: delivers_change)
  from down_upd [OF s, of i c p] d
  have "c \<in> down (fst (upd s i c p)) \<longleftrightarrow> p" by (cases p) simp_all
  with ne show ?thesis by blast
qed

lemma down_rel: "inv s \<Longrightarrow> down (fst (rel s i)) = down s - set (snd (rel s i))"
  by (auto simp: down_def rel_released rel_holds)

lemma rel_subset: "inv s \<Longrightarrow> set (snd (rel s i)) \<subseteq> down s"
  by (auto simp: mem_down rel_released)

lemma track_step:
  assumes "inv s"
  shows "inv (fst (track s e)) \<and>
         receive_all (down s) (snd (track s e)) = Some (down (fst (track s e)))"
proof (cases e)
  case (Note i c p)
  obtain s' d where u: "upd s i c p = (s', d)" by fastforce
  from upd_inv [OF assms, of i c p] down_upd [OF assms, of i c p]
       upd_changes [OF assms, of i c p] u
  show ?thesis by (auto simp: Note)
next
  case (Forget i)
  obtain s' cs where r: "rel s i = (s', cs)" by fastforce
  from rel_inv [OF assms, of i] down_rel [OF assms, of i] rel_distinct [OF assms, of i]
       rel_subset [OF assms, of i] r
  show ?thesis by (simp add: Forget receive_all_releases)
qed

text \<open>
  A receiver of the transitions always holds exactly what the sources together hold, and
  never sees a repeat or a stray release.
\<close>

lemma track_all_exact:
  "inv s \<Longrightarrow> inv (fst (track_all s es)) \<and>
     receive_all (down s) (snd (track_all s es)) = Some (down (fst (track_all s es)))"
proof (induction es arbitrary: s)
  case Nil
  then show ?case by simp
next
  case (Cons e es)
  obtain s' ts where e: "track s e = (s', ts)" by fastforce
  obtain s'' us where es: "track_all s' es = (s'', us)" by fastforce
  from track_step [OF Cons.prems, of e] e
  have "inv s'" "receive_all (down s) ts = Some (down s')" by auto
  with Cons.IH [of s'] show ?case by (simp add: e es receive_all_append)
qed

text \<open>A source that lets go leaves what the others hold alone.\<close>

lemma others_keep:
  "inv s \<Longrightarrow> j \<noteq> i \<Longrightarrow> c \<in> holds s j \<Longrightarrow>
     c \<notin> set (snd (rel s i)) \<and> c \<in> holds (fst (rel s i)) j"
  by (auto simp: rel_released rel_holds)

end

end
