(* ===== verification/SeatHeld.thy ===== *)
theory SeatHeld
  imports Tracker "HOL-Library.AList"
begin

text \<open>
  \<open>src/inject.rs\<close>: which keys and buttons each input source of the served seat holds
  (\<open>SeatHeld\<close>), raw injection, and the release of what a source leaves held. The
  \<open>HashMap\<close> of physical devices is an association list with distinct keys (only whether
  some device satisfies a test is ever asked of it), a \<open>BTreeSet\<close> a set that is walked in
  ascending order.
\<close>

section \<open>State\<close>

record held_input =
  keys :: "u32 set"
  buttons :: "u32 set"

definition held_input_default :: held_input where
  "held_input_default = \<lparr> keys = {}, buttons = {} \<rparr>"

datatype input_source = Physical string | Injected

record seat_held =
  physical :: "(string \<times> held_input) list"
  injected :: held_input

definition seat_held_default :: seat_held where
  "seat_held_default = \<lparr> physical = [], injected = held_input_default \<rparr>"

text \<open>The private \<open>Held\<close> of \<open>inject.rs\<close>: which of the two sets is meant.\<close>

datatype held_kind = KeyKind | ButtonKind

fun of_kind :: "held_kind \<Rightarrow> held_input \<Rightarrow> u32 set" where
  "of_kind KeyKind input = keys input"
| "of_kind ButtonKind input = buttons input"

fun of_mut :: "held_kind \<Rightarrow> (u32 set \<Rightarrow> u32 set) \<Rightarrow> held_input \<Rightarrow> held_input" where
  "of_mut KeyKind f input = input\<lparr> keys := f (keys input) \<rparr>"
| "of_mut ButtonKind f input = input\<lparr> buttons := f (buttons input) \<rparr>"

section \<open>Operations\<close>

definition own_input :: "seat_held \<Rightarrow> input_source \<Rightarrow> held_input" where
  "own_input s src = (case src of
     Physical d \<Rightarrow> (case map_of (physical s) d of Some i \<Rightarrow> i | None \<Rightarrow> held_input_default)
   | Injected \<Rightarrow> injected s)"

definition set_own_input :: "seat_held \<Rightarrow> input_source \<Rightarrow> held_input \<Rightarrow> seat_held" where
  "set_own_input s src i = (case src of
     Physical d \<Rightarrow> s\<lparr> physical := AList.update d i (physical s) \<rparr>
   | Injected \<Rightarrow> s\<lparr> injected := i \<rparr>)"

text \<open>A device that holds nothing any more is dropped from the map.\<close>

definition prune :: "seat_held \<Rightarrow> input_source \<Rightarrow> seat_held" where
  "prune s src = (case src of
     Physical d \<Rightarrow>
       (if keys (own_input s src) = {} \<and> buttons (own_input s src) = {}
        then s\<lparr> physical := AList.delete d (physical s) \<rparr> else s)
   | Injected \<Rightarrow> s)"

definition held_by_any :: "seat_held \<Rightarrow> held_kind \<Rightarrow> u32 \<Rightarrow> bool" where
  "held_by_any s k c \<longleftrightarrow> c \<in> of_kind k (injected s) \<or>
     (\<exists>(d, i) \<in> set (physical s). c \<in> of_kind k i)"

definition held_by_other :: "seat_held \<Rightarrow> input_source \<Rightarrow> held_kind \<Rightarrow> u32 \<Rightarrow> bool" where
  "held_by_other s src k c \<longleftrightarrow> (src \<noteq> Injected \<and> c \<in> of_kind k (injected s)) \<or>
     (\<exists>(d, i) \<in> set (physical s). src \<noteq> Physical d \<and> c \<in> of_kind k i)"

definition note_held ::
    "seat_held \<Rightarrow> input_source \<Rightarrow> held_kind \<Rightarrow> u32 \<Rightarrow> bool \<Rightarrow> seat_held \<times> bool" where
  "note_held s src k c pressed =
    (let own = own_input s src;
         changed = (if pressed then c \<notin> of_kind k own else c \<in> of_kind k own);
         s1 = set_own_input s src
                (of_mut k (\<lambda>S. if pressed then insert c S else S - {c}) own);
         s2 = prune s1 src
     in (s2, changed \<and> \<not> held_by_other s2 src k c))"

definition seat_key :: "seat_held \<Rightarrow> input_source \<Rightarrow> u32 \<Rightarrow> bool \<Rightarrow> seat_held \<times> bool" where
  "seat_key s src keycode pressed = note_held s src KeyKind keycode pressed"

definition seat_button :: "seat_held \<Rightarrow> input_source \<Rightarrow> u32 \<Rightarrow> bool \<Rightarrow> seat_held \<times> bool" where
  "seat_button s src button pressed = note_held s src ButtonKind button pressed"

definition release_source :: "seat_held \<Rightarrow> input_source \<Rightarrow> seat_held \<times> held_input" where
  "release_source s src =
    (let taken = own_input s src;
         s' = (case src of
                 Physical d \<Rightarrow> s\<lparr> physical := AList.delete d (physical s) \<rparr>
               | Injected \<Rightarrow> s\<lparr> injected := held_input_default \<rparr>)
     in (s', \<lparr> keys = Set.filter (\<lambda>c. \<not> held_by_any s' KeyKind c) (keys taken),
               buttons = Set.filter (\<lambda>c. \<not> held_by_any s' ButtonKind c) (buttons taken) \<rparr>))"

definition physical_devices :: "seat_held \<Rightarrow> string list" where
  "physical_devices s = map fst (physical s)"

section \<open>Injection\<close>

text \<open>
  What the operations ask of the rest of the window manager, in order: a key or button on
  the path of a local device (\<open>process_key\<close>, \<open>process_button\<close>), or straight to the seat
  (\<open>dispatch_key\<close>, \<open>PointerHandle::button\<close>), a pointer frame, the end of a keybind
  repeat, and the raw motion and scroll that holds do not concern.
\<close>

datatype seat_call =
    ProcessKey u32 bool
  | DispatchKey u32 bool
  | ProcessButton u32 bool
  | PointerButtonTo u32 bool
  | PointerFrame
  | CancelKeyRepeat
  | RawMotionTo f64 f64 bool
  | RawAxisTo f64 f64 "(f64 \<times> f64) option" bool

text \<open>X-style keycodes are evdev codes plus 8, in \<open>u32\<close> arithmetic (no overflow check).\<close>

definition x_keycode :: "u32 \<Rightarrow> u32" where
  "x_keycode evdev = evdev + 8"

definition inject_raw_keycode ::
    "seat_held \<Rightarrow> u32 \<Rightarrow> bool \<Rightarrow> bool \<Rightarrow> seat_held \<times> seat_call list" where
  "inject_raw_keycode s evdev pressed bindings =
    (let keycode = x_keycode evdev;
         (s', deliver) = seat_key s Injected keycode pressed
     in (s', if \<not> deliver then []
             else if bindings then [ProcessKey keycode pressed]
             else [DispatchKey keycode pressed]))"

definition inject_raw_button ::
    "seat_held \<Rightarrow> u32 \<Rightarrow> bool \<Rightarrow> bool \<Rightarrow> seat_held \<times> seat_call list" where
  "inject_raw_button s button pressed bindings =
    (let (s', deliver) = seat_button s Injected button pressed
     in (s', if \<not> deliver then []
             else if bindings then [ProcessButton button pressed]
             else [PointerButtonTo button pressed, PointerFrame]))"

text \<open>The physical keyboard path (\<open>handle_keyboard_event\<close> of \<open>input.rs\<close>).\<close>

definition handle_keyboard_event ::
    "seat_held \<Rightarrow> string \<Rightarrow> u32 \<Rightarrow> bool \<Rightarrow> seat_held \<times> seat_call list" where
  "handle_keyboard_event s device keycode pressed =
    (let (s', deliver) = seat_key s (Physical device) keycode pressed
     in (s', if deliver then [ProcessKey keycode pressed] else []))"

definition handle_pointer_button ::
    "seat_held \<Rightarrow> string \<Rightarrow> u32 \<Rightarrow> bool \<Rightarrow> seat_held \<times> seat_call list" where
  "handle_pointer_button s device button pressed =
    (let (s', deliver) = seat_button s (Physical device) button pressed
     in (s', if deliver then [ProcessButton button pressed] else []))"

text \<open>
  \<open>release_held_by\<close>: the released keys in ascending order, each ending the keybind repeat
  it drives, then the released buttons, framed once. \<open>rep\<close> is the keycode of the current
  keybind repeat.
\<close>

fun release_keys :: "u32 option \<Rightarrow> u32 list \<Rightarrow> u32 option \<times> seat_call list" where
  "release_keys rep [] = (rep, [])"
| "release_keys rep (k # ks) =
    (let stop = (rep = Some k);
         (rep', calls) = release_keys (if stop then None else rep) ks
     in (rep', (if stop then [CancelKeyRepeat] else []) @ DispatchKey k False # calls))"

definition release_held_by ::
    "seat_held \<Rightarrow> u32 option \<Rightarrow> input_source \<Rightarrow> seat_held \<times> u32 option \<times> seat_call list" where
  "release_held_by s rep src =
    (let (s', released) = release_source s src;
         (rep', calls) = release_keys rep (sorted_list_of_set (keys released));
         bs = sorted_list_of_set (buttons released)
     in (s', rep', calls @ map (\<lambda>b. PointerButtonTo b False) bs
                         @ (if bs \<noteq> [] then [PointerFrame] else [])))"

definition release_injected_input ::
    "seat_held \<Rightarrow> u32 option \<Rightarrow> seat_held \<times> u32 option \<times> seat_call list" where
  "release_injected_input s rep = release_held_by s rep Injected"

definition release_device_input ::
    "seat_held \<Rightarrow> u32 option \<Rightarrow> string \<Rightarrow> seat_held \<times> u32 option \<times> seat_call list" where
  "release_device_input s rep device = release_held_by s rep (Physical device)"

text \<open>The nested backend's host window lost focus: every physical device lets go.\<close>

fun release_devices ::
    "seat_held \<Rightarrow> u32 option \<Rightarrow> string list \<Rightarrow> seat_held \<times> u32 option \<times> seat_call list" where
  "release_devices s rep [] = (s, rep, [])"
| "release_devices s rep (d # ds) =
    (let (s1, rep1, calls) = release_device_input s rep d;
         (s2, rep2, more) = release_devices s1 rep1 ds
     in (s2, rep2, calls @ more))"

definition host_focus_lost ::
    "seat_held \<Rightarrow> u32 option \<Rightarrow> seat_held \<times> u32 option \<times> seat_call list" where
  "host_focus_lost s rep = release_devices s rep (physical_devices s)"

text \<open>What clients see of the calls: the key and button transitions.\<close>

fun transition_of :: "seat_call \<Rightarrow> ((held_kind \<times> u32) \<times> bool) list" where
  "transition_of (ProcessKey k p) = [((KeyKind, k), p)]"
| "transition_of (DispatchKey k p) = [((KeyKind, k), p)]"
| "transition_of (ProcessButton b p) = [((ButtonKind, b), p)]"
| "transition_of (PointerButtonTo b p) = [((ButtonKind, b), p)]"
| "transition_of PointerFrame = []"
| "transition_of CancelKeyRepeat = []"
| "transition_of (RawMotionTo x y b) = []"
| "transition_of (RawAxisTo h v w b) = []"

definition transitions :: "seat_call list \<Rightarrow> ((held_kind \<times> u32) \<times> bool) list" where
  "transitions calls = concat (map transition_of calls)"

section \<open>What each source holds\<close>

definition seat_ok :: "seat_held \<Rightarrow> bool" where
  "seat_ok s \<longleftrightarrow> distinct (map fst (physical s)) \<and>
     finite (keys (injected s)) \<and> finite (buttons (injected s)) \<and>
     (\<forall>(d, i) \<in> set (physical s). finite (keys i) \<and> finite (buttons i) \<and>
        (keys i \<noteq> {} \<or> buttons i \<noteq> {}))"

definition seat_holds :: "seat_held \<Rightarrow> input_source \<Rightarrow> (held_kind \<times> u32) set" where
  "seat_holds s src = {(k, c). c \<in> of_kind k (own_input s src)}"

definition seat_down :: "seat_held \<Rightarrow> (held_kind \<times> u32) set" where
  "seat_down s = (\<Union>src. seat_holds s src)"

definition seat_upd ::
    "seat_held \<Rightarrow> input_source \<Rightarrow> held_kind \<times> u32 \<Rightarrow> bool \<Rightarrow> seat_held \<times> bool" where
  "seat_upd s src kc p = note_held s src (fst kc) (snd kc) p"

definition seat_rel :: "seat_held \<Rightarrow> input_source \<Rightarrow> seat_held \<times> (held_kind \<times> u32) list" where
  "seat_rel s src = (let (s', r) = release_source s src in
     (s', map (Pair KeyKind) (sorted_list_of_set (keys r)) @
          map (Pair ButtonKind) (sorted_list_of_set (buttons r))))"

lemma mem_seat_holds [simp]: "(k, c) \<in> seat_holds s src \<longleftrightarrow> c \<in> of_kind k (own_input s src)"
  by (simp add: seat_holds_def)

lemma of_kind_default [simp]: "of_kind k held_input_default = {}"
  by (cases k) (simp_all add: held_input_default_def)

lemma of_kind_of_mut [simp]: "of_kind k (of_mut k' f i) = (if k = k' then f (of_kind k i) else of_kind k i)"
  by (cases k; cases k') simp_all

lemma own_input_set [simp]:
  "own_input (set_own_input s src i) src' = (if src' = src then i else own_input s src')"
  by (auto simp: own_input_def set_own_input_def update_conv' split: input_source.splits)

lemma own_input_prune [simp]: "own_input (prune s src) src' = own_input s src'"
  by (auto simp: own_input_def prune_def held_input_default_def delete_conv'
           split: input_source.splits option.splits)

lemma own_input_default_iff:
  "distinct (map fst (physical s)) \<Longrightarrow> (d, i) \<in> set (physical s) \<Longrightarrow> own_input s (Physical d) = i"
  by (simp add: own_input_def)

lemma held_by_any_iff:
  assumes "distinct (map fst (physical s))"
  shows "held_by_any s k c \<longleftrightarrow> (\<exists>src. c \<in> of_kind k (own_input s src))" (is "?l = ?r")
proof
  assume ?l
  then consider "c \<in> of_kind k (own_input s Injected)"
    | d i where "(d, i) \<in> set (physical s)" "c \<in> of_kind k i"
    by (auto simp: held_by_any_def own_input_def)
  then show ?r by cases (use assms own_input_default_iff in blast)+
next
  assume ?r
  then obtain src where "c \<in> of_kind k (own_input s src)" ..
  then show ?l
    by (cases src) (auto simp: held_by_any_def own_input_def split: option.splits dest: map_of_SomeD)
qed

lemma held_by_other_iff:
  assumes "distinct (map fst (physical s))"
  shows "held_by_other s src k c \<longleftrightarrow> (\<exists>j. j \<noteq> src \<and> c \<in> of_kind k (own_input s j))" (is "?l = ?r")
proof
  assume ?l
  then consider "src \<noteq> Injected" "c \<in> of_kind k (own_input s Injected)"
    | d i where "src \<noteq> Physical d" "(d, i) \<in> set (physical s)" "c \<in> of_kind k i"
    by (auto simp: held_by_other_def own_input_def)
  then show ?r
  proof cases
    case 1
    then show ?thesis by (intro exI [of _ Injected]) auto
  next
    case 2
    from 2 have "Physical d \<noteq> src" "c \<in> of_kind k (own_input s (Physical d))"
      using own_input_default_iff [OF assms] by auto
    then show ?thesis by (intro exI [of _ "Physical d"]) simp
  qed
next
  assume ?r
  then obtain j where "j \<noteq> src" "c \<in> of_kind k (own_input s j)" by blast
  then show ?l
    by (cases j) (auto simp: held_by_other_def own_input_def split: option.splits dest: map_of_SomeD)
qed

lemma seat_ok_distinct: "seat_ok s \<Longrightarrow> distinct (map fst (physical s))"
  by (simp add: seat_ok_def)

lemma finite_own:
  "seat_ok s \<Longrightarrow> finite (keys (own_input s src)) \<and> finite (buttons (own_input s src))"
  by (auto simp: seat_ok_def own_input_def held_input_default_def
           split: input_source.splits option.splits dest!: map_of_SomeD)

lemma finite_of_mut:
  "finite (keys i) \<Longrightarrow> finite (buttons i) \<Longrightarrow> (\<And>S. finite S \<Longrightarrow> finite (f S)) \<Longrightarrow>
     finite (keys (of_mut k f i)) \<and> finite (buttons (of_mut k f i))"
  by (cases k) auto

lemma mem_delete: "x \<in> set (AList.delete d ps) \<longleftrightarrow> x \<in> set ps \<and> fst x \<noteq> d"
  by (auto simp: AList.delete_eq)

lemma seat_ok_delete:
  "seat_ok s \<Longrightarrow> seat_ok (s\<lparr> physical := AList.delete d (physical s) \<rparr>)"
  by (fastforce simp: seat_ok_def distinct_delete mem_delete)

lemma seat_ok_store:
  assumes "seat_ok s" "finite (keys i)" "finite (buttons i)"
  shows "seat_ok (prune (set_own_input s src i) src)"
proof (cases src)
  case Injected
  with assms show ?thesis by (auto simp: seat_ok_def prune_def set_own_input_def)
next
  case (Physical d)
  let ?ps = "AList.update d i (physical s)"
  have dist: "distinct (map fst ?ps)"
    using assms(1) by (simp add: seat_ok_def distinct_update)
  have mem: "(e, j) \<in> set ?ps \<Longrightarrow> e = d \<and> j = i \<or> e \<noteq> d \<and> (e, j) \<in> set (physical s)" for e j
    using dist assms(1)
    by (metis map_of_eq_Some_iff map_of_is_SomeI option.inject seat_ok_distinct update_Some_unfold)
  show ?thesis
  proof (cases "keys i = {} \<and> buttons i = {}")
    case True
    have "prune (set_own_input s src i) src = s\<lparr> physical := AList.delete d ?ps \<rparr>"
      using True by (simp add: prune_def Physical own_input_def set_own_input_def update_conv')
    moreover have "seat_ok (s\<lparr> physical := AList.delete d ?ps \<rparr>)"
      unfolding seat_ok_def
    proof (intro conjI ballI)
      show "distinct (map fst (physical (s\<lparr>physical := AList.delete d ?ps\<rparr>)))"
        using dist by (simp add: distinct_delete)
      fix x
      assume "x \<in> set (physical (s\<lparr>physical := AList.delete d ?ps\<rparr>))"
      then have "x \<in> set (physical s)"
        using mem [of "fst x" "snd x"] by (auto simp: mem_delete)
      with assms(1)
      show "case x of (d, i) \<Rightarrow> finite (keys i) \<and> finite (buttons i) \<and> (keys i \<noteq> {} \<or> buttons i \<noteq> {})"
        by (auto simp: seat_ok_def)
    qed (use assms(1) in \<open>simp_all add: seat_ok_def\<close>)
    ultimately show ?thesis by simp
  next
    case False
    then have "prune (set_own_input s src i) src = s\<lparr> physical := ?ps \<rparr>"
      by (auto simp: prune_def Physical own_input_def set_own_input_def update_conv')
    with False assms dist show ?thesis by (auto simp: seat_ok_def dest: mem)
  qed
qed

lemma seat_ok_note: "seat_ok s \<Longrightarrow> seat_ok (fst (note_held s src k c p))"
  unfolding note_held_def Let_def fst_conv
  by (rule seat_ok_store)
     (use finite_own finite_of_mut [where f = "\<lambda>S. if p then insert c S else S - {c}"] in simp_all)

lemma own_note:
  "own_input (fst (note_held s src k c p)) j =
     (if j = src then of_mut k (\<lambda>S. if p then insert c S else S - {c}) (own_input s src)
      else own_input s j)"
  by (simp add: note_held_def Let_def)

lemma own_release:
  "own_input (fst (release_source s src)) j = (if j = src then held_input_default else own_input s j)"
  by (auto simp: release_source_def Let_def own_input_def delete_conv'
           split: input_source.splits option.splits)

lemma seat_ok_release: "seat_ok s \<Longrightarrow> seat_ok (fst (release_source s src))"
  using seat_ok_delete [of s]
  by (auto simp: release_source_def Let_def seat_ok_def held_input_default_def
           split: input_source.splits)

lemma released_iff:
  assumes "seat_ok s"
  shows "c \<in> of_kind k (snd (release_source s src)) \<longleftrightarrow>
     c \<in> of_kind k (own_input s src) \<and> (\<forall>j. j \<noteq> src \<longrightarrow> c \<notin> of_kind k (own_input s j))"
proof -
  let ?s = "fst (release_source s src)"
  have "distinct (map fst (physical ?s))"
    using seat_ok_release [OF assms] by (rule seat_ok_distinct)
  then have "held_by_any ?s k c \<longleftrightarrow> (\<exists>j. j \<noteq> src \<and> c \<in> of_kind k (own_input s j))"
    by (auto simp: held_by_any_iff own_release)
  then show ?thesis
    by (cases k) (auto simp: release_source_def Let_def)
qed

lemma finite_released:
  assumes "seat_ok s"
  shows "finite (keys (snd (release_source s src)))" "finite (buttons (snd (release_source s src)))"
  using finite_own [OF assms, of src] by (auto simp: release_source_def Let_def)

lemma note_delivers:
  assumes "seat_ok s"
  shows "snd (note_held s src k c p) \<longleftrightarrow>
    (\<exists>j. c \<in> of_kind k (own_input s j)) \<noteq>
    (\<exists>j. c \<in> of_kind k (own_input (fst (note_held s src k c p)) j))"
proof -
  let ?s = "fst (note_held s src k c p)"
  have "distinct (map fst (physical ?s))"
    using seat_ok_note [OF assms] by (rule seat_ok_distinct)
  then have "held_by_other ?s src k c \<longleftrightarrow> (\<exists>j. j \<noteq> src \<and> c \<in> of_kind k (own_input s j))"
    by (auto simp: held_by_other_iff own_note)
  moreover have "snd (note_held s src k c p) \<longleftrightarrow>
      (if p then c \<notin> of_kind k (own_input s src) else c \<in> of_kind k (own_input s src)) \<and>
      \<not> held_by_other ?s src k c"
    by (simp add: note_held_def Let_def)
  ultimately show ?thesis by (auto simp: own_note split: if_splits)
qed

lemma fst_seat_rel: "fst (seat_rel s src) = fst (release_source s src)"
  by (simp add: seat_rel_def split: prod.splits)

lemma snd_seat_rel:
  "snd (seat_rel s src) =
     map (Pair KeyKind) (sorted_list_of_set (keys (snd (release_source s src)))) @
     map (Pair ButtonKind) (sorted_list_of_set (buttons (snd (release_source s src))))"
  by (simp add: seat_rel_def split: prod.splits)

lemma set_seat_rel:
  assumes "seat_ok s"
  shows "(k, c) \<in> set (snd (seat_rel s src)) \<longleftrightarrow> c \<in> of_kind k (snd (release_source s src))"
  using finite_released [OF assms, of src] by (cases k) (auto simp: snd_seat_rel)

interpretation seat: held_tracker seat_upd seat_rel seat_holds "\<lambda>_ _. True" seat_ok
proof
  fix s i and kc :: "held_kind \<times> u32" and p
  assume s: "seat_ok s"
  obtain k c where kc: "kc = (k, c)" by fastforce
  show "seat_ok (fst (seat_upd s i kc p))" using s by (simp add: seat_upd_def seat_ok_note)
  show "seat_ok (fst (seat_rel s i))" using s by (simp add: fst_seat_rel seat_ok_release)
  show "seat_holds (fst (seat_upd s i kc p)) =
      (seat_holds s)(i := if p then insert kc (seat_holds s i) else seat_holds s i - {kc})"
    by (auto simp: seat_upd_def own_note fun_eq_iff kc split: if_splits)
  show "snd (seat_upd s i kc p) \<longleftrightarrow>
      (\<exists>j. kc \<in> seat_holds s j) \<noteq> (\<exists>j. kc \<in> seat_holds (fst (seat_upd s i kc p)) j)"
    using note_delivers [OF s, of i k c p] by (simp add: seat_upd_def kc)
  show rel: "seat_holds (fst (seat_rel s i)) = (seat_holds s)(i := {})"
    by (auto simp: fst_seat_rel own_release fun_eq_iff)
  show "set (snd (seat_rel s i)) =
      {c. (\<exists>j. c \<in> seat_holds s j) \<and> \<not> (\<exists>j. c \<in> seat_holds (fst (seat_rel s i)) j)}"
    by (rule set_eqI, unfold rel)
       (auto simp: split_paired_all set_seat_rel [OF s] released_iff [OF s])
  show "distinct (snd (seat_rel s i))"
    by (auto simp: snd_seat_rel distinct_map inj_on_def)
qed simp

section \<open>What the rest of the window manager sees\<close>

lemma transitions_simps [simp]:
  "transitions [] = []"
  "transitions (c # cs) = transition_of c @ transitions cs"
  "transitions (as @ bs) = transitions as @ transitions bs"
  by (simp_all add: transitions_def)

lemma transitions_release_keys:
  "transitions (snd (release_keys rep ks)) = map (\<lambda>k. ((KeyKind, k), False)) ks"
proof (induction ks arbitrary: rep)
  case Nil
  then show ?case by simp
next
  case (Cons k ks)
  show ?case
    using Cons.IH [of None] Cons.IH [of rep] by (auto simp: Let_def split: prod.splits)
qed

lemma transitions_buttons:
  "transitions (map (\<lambda>b. PointerButtonTo b False) bs) = map (\<lambda>b. ((ButtonKind, b), False)) bs"
  by (induction bs) auto

lemma release_held_by_tracks:
  "release_held_by s rep src = (s', rep', calls) \<Longrightarrow>
     s' = fst (seat_rel s src) \<and> transitions calls = map (\<lambda>c. (c, False)) (snd (seat_rel s src))"
proof -
  assume r: "release_held_by s rep src = (s', rep', calls)"
  obtain s1 rel where rel: "release_source s src = (s1, rel)" by fastforce
  obtain rep1 cs where ks: "release_keys rep (sorted_list_of_set (keys rel)) = (rep1, cs)"
    by fastforce
  from transitions_release_keys [of rep "sorted_list_of_set (keys rel)"] ks r rel
  show "s' = fst (seat_rel s src) \<and>
      transitions calls = map (\<lambda>c. (c, False)) (snd (seat_rel s src))"
    by (auto simp: release_held_by_def Let_def fst_seat_rel snd_seat_rel transitions_buttons)
qed

text \<open>The events of the seat, and the calls each makes.\<close>

datatype seat_event =
    InjectKey u32 bool bool
  | InjectButton u32 bool bool
  | KeyboardKey string u32 bool
  | PointerButtonEv string u32 bool
  | DeviceRemoved string
  | InjectionRevoked
  | HostFocusLost

fun seat_step :: "seat_held \<times> u32 option \<Rightarrow> seat_event \<Rightarrow> (seat_held \<times> u32 option) \<times> seat_call list"
where
  "seat_step (s, rep) (InjectKey k p b) =
     (let (s', calls) = inject_raw_keycode s k p b in ((s', rep), calls))"
| "seat_step (s, rep) (InjectButton k p b) =
     (let (s', calls) = inject_raw_button s k p b in ((s', rep), calls))"
| "seat_step (s, rep) (KeyboardKey d k p) =
     (let (s', calls) = handle_keyboard_event s d k p in ((s', rep), calls))"
| "seat_step (s, rep) (PointerButtonEv d k p) =
     (let (s', calls) = handle_pointer_button s d k p in ((s', rep), calls))"
| "seat_step (s, rep) (DeviceRemoved d) =
     (let (s', rep', calls) = release_device_input s rep d in ((s', rep'), calls))"
| "seat_step (s, rep) InjectionRevoked =
     (let (s', rep', calls) = release_injected_input s rep in ((s', rep'), calls))"
| "seat_step (s, rep) HostFocusLost =
     (let (s', rep', calls) = host_focus_lost s rep in ((s', rep'), calls))"

definition seat_exact :: "seat_held \<Rightarrow> seat_held \<Rightarrow> seat_call list \<Rightarrow> bool" where
  "seat_exact s s' calls \<longleftrightarrow>
     seat_ok s' \<and> receive_all (seat_down s) (transitions calls) = Some (seat_down s')"

lemma seat_down_eq: "seat.down = seat_down"
  by (simp add: fun_eq_iff seat.down_def seat_down_def)

lemma seat_exact_upd:
  assumes "seat_ok s" "note_held s src k c p = (s', d)"
    and "transitions calls = (if d then [((k, c), p)] else [])"
  shows "seat_exact s s' calls"
proof -
  have "seat_upd s src (k, c) p = (s', d)" using assms(2) by (simp add: seat_upd_def)
  with seat.track_step [OF assms(1), of "Note src (k, c) p"] assms(3)
  show ?thesis by (simp add: seat_exact_def seat_down_eq)
qed

lemma seat_exact_rel:
  assumes "seat_ok s" "release_held_by s rep src = (s', rep', calls)"
  shows "seat_exact s s' calls"
proof -
  from release_held_by_tracks [OF assms(2)]
  have "seat_rel s src = (s', snd (seat_rel s src))"
       "transitions calls = map (\<lambda>c. (c, False)) (snd (seat_rel s src))"
    by (auto simp: prod_eq_iff)
  with seat.track_step [OF assms(1), of "Forget src"]
  show ?thesis by (auto simp: seat_exact_def seat_down_eq split: prod.splits)
qed

lemma seat_exact_trans:
  "seat_exact s s1 as \<Longrightarrow> seat_exact s1 s2 bs \<Longrightarrow> seat_exact s s2 (as @ bs)"
  by (simp add: seat_exact_def receive_all_append)

lemma seat_exact_devices:
  "seat_ok s \<Longrightarrow> release_devices s rep ds = (s', rep', calls) \<Longrightarrow> seat_exact s s' calls"
proof (induction ds arbitrary: s rep s' rep' calls)
  case Nil
  then show ?case by (simp add: seat_exact_def)
next
  case (Cons d ds)
  obtain s1 rep1 as where d: "release_device_input s rep d = (s1, rep1, as)"
    by (metis prod_cases3)
  obtain bs where rest: "release_devices s1 rep1 ds = (s', rep', bs)" "calls = as @ bs"
    using Cons.prems(2) d by (auto split: prod.splits)
  have 1: "seat_exact s s1 as"
    using seat_exact_rel [OF Cons.prems(1)] d by (simp add: release_device_input_def)
  then have "seat_ok s1" by (simp add: seat_exact_def)
  from seat_exact_trans [OF 1 Cons.IH [OF this rest(1)]] rest(2) show ?case by simp
qed

lemma seat_step_exact:
  assumes "seat_ok s" "seat_step (s, rep) e = ((s', rep'), calls)"
  shows "seat_exact s s' calls"
proof (cases e)
  case (DeviceRemoved d)
  with assms show ?thesis
    by (auto simp: release_device_input_def split: prod.splits intro: seat_exact_rel)
next
  case InjectionRevoked
  with assms show ?thesis
    by (auto simp: release_injected_input_def split: prod.splits intro: seat_exact_rel)
next
  case HostFocusLost
  with assms show ?thesis
    by (auto simp: host_focus_lost_def split: prod.splits intro: seat_exact_devices)
qed (use assms in \<open>auto simp: inject_raw_keycode_def inject_raw_button_def seat_key_def Let_def
       seat_button_def handle_keyboard_event_def handle_pointer_button_def
       split: prod.splits intro!: seat_exact_upd\<close>)

fun seat_run :: "seat_held \<times> u32 option \<Rightarrow> seat_event list \<Rightarrow> (seat_held \<times> u32 option) \<times> seat_call list"
where
  "seat_run st [] = (st, [])"
| "seat_run st (e # es) =
    (let (st1, calls) = seat_step st e; (st2, more) = seat_run st1 es in (st2, calls @ more))"

lemma seat_run_exact:
  "seat_ok s \<Longrightarrow> seat_run (s, rep) es = ((s', rep'), calls) \<Longrightarrow> seat_exact s s' calls"
proof (induction es arbitrary: s rep s' rep' calls)
  case Nil
  then show ?case by (simp add: seat_exact_def)
next
  case (Cons e es)
  obtain s1 rep1 as where e: "seat_step (s, rep) e = ((s1, rep1), as)"
    by (metis surj_pair)
  obtain bs where rest: "seat_run (s1, rep1) es = ((s', rep'), bs)" "calls = as @ bs"
    using Cons.prems(2) e by (auto split: prod.splits)
  note 1 = seat_step_exact [OF Cons.prems(1) e]
  then have "seat_ok s1" by (simp add: seat_exact_def)
  from seat_exact_trans [OF 1 Cons.IH [OF this rest(1)]] rest(2) show ?case by simp
qed

lemma seat_ok_default: "seat_ok seat_held_default"
  by (simp add: seat_ok_def seat_held_default_def held_input_default_def)

lemma seat_down_default [simp]: "seat_down seat_held_default = {}"
  by (auto simp: seat_down_def seat_holds_def own_input_def seat_held_default_def
           split: input_source.splits)

text \<open>C4. Whatever the physical devices and the injecting programs do, in whatever order,
  devices going away, injection being revoked and the host window losing focus included: the
  key and button transitions the seat passes on are exactly the changes of what all sources
  together hold. A receiver never sees a repeat or a release of something up, and after every
  run it holds exactly the keys and buttons some source holds.\<close>

theorem seat_transitions_exact:
  assumes "seat_run (seat_held_default, rep) es = ((s, rep'), calls)"
  shows "receive_all {} (transitions calls) = Some (seat_down s)"
  using seat_run_exact [OF seat_ok_default assms] by (simp add: seat_exact_def)

theorem seat_transitions_exact_witness:
  "\<exists>s rep' calls. receive_all {} (transitions calls) = Some (seat_down s) \<and>
     calls = [ProcessKey 38 True, DispatchKey 38 False]"
proof -
  let ?run = "seat_run (seat_held_default, None)
      [KeyboardKey ''kbd'' 38 True, InjectKey 30 True False, KeyboardKey ''kbd'' 38 False,
       InjectionRevoked]"
  have "snd ?run = [ProcessKey 38 True, DispatchKey 38 False]" by code_simp
  then have "?run = ((fst (fst ?run), snd (fst ?run)), [ProcessKey 38 True, DispatchKey 38 False])"
    by (metis prod.collapse)
  from seat_transitions_exact [OF this] show ?thesis by blast
qed

text \<open>When one source lets go of everything (injection revoked, a device unplugged), no key
  or button another source holds is released, and that source holds it still.\<close>

theorem release_spares_others:
  assumes "seat_ok s" "release_held_by s rep src = (s', rep', calls)"
    and "other \<noteq> src" "c \<in> of_kind k (own_input s other)"
  shows "((k, c), False) \<notin> set (transitions calls) \<and> c \<in> of_kind k (own_input s' other)"
proof -
  have "(k, c) \<in> seat_holds s other" using assms(4) by simp
  from seat.others_keep [OF assms(1,3) this] release_held_by_tracks [OF assms(2)]
  show ?thesis by auto
qed

theorem release_spares_others_witness:
  "\<exists>s' rep' calls. calls = [CancelKeyRepeat, DispatchKey 50 False] \<and>
     ((KeyKind, 38), False) \<notin> set (transitions calls) \<and>
     38 \<in> of_kind KeyKind (own_input s' (Physical ''kbd''))"
proof -
  let ?s = "\<lparr> physical = [(''kbd'', \<lparr> keys = {38}, buttons = {} \<rparr>)],
              injected = \<lparr> keys = {38, 50}, buttons = {} \<rparr> \<rparr>"
  let ?r = "release_held_by ?s (Some 50) Injected"
  have ok: "seat_ok ?s" by (simp add: seat_ok_def)
  have held: "38 \<in> of_kind KeyKind (own_input ?s (Physical ''kbd''))"
    by (simp add: own_input_def)
  have "snd (snd ?r) = [CancelKeyRepeat, DispatchKey 50 False]" by code_simp
  then have "?r = (fst ?r, fst (snd ?r), [CancelKeyRepeat, DispatchKey 50 False])"
    by (metis prod.collapse)
  from release_spares_others [OF ok this _ held] show ?thesis by blast
qed

end
