(* ===== verification/Holds.thy ===== *)
theory Holds
  imports Tracker
begin

text \<open>
  \<open>crates/shoestring-remote-server/src/holds.rs\<close> and \<open>viewers.rs\<close>: which keys and buttons
  the connected viewers hold, counted across sessions, and the count of viewers reported to
  the window manager. A \<open>Mutex\<close> makes every operation atomic, so an operation is a function
  from the locked state to the new one, and concurrency is the order of the operations. The
  \<open>HashMap\<close> of counts is a map, the \<open>BTreeSet\<close> of a session a set walked in ascending
  order.
\<close>

section \<open>Holds\<close>

datatype held = Key u32 | Button u32

text \<open>The derived \<open>Ord\<close>: by variant, then by code.\<close>

instantiation held :: linorder
begin

fun less_eq_held :: "held \<Rightarrow> held \<Rightarrow> bool" where
  "less_eq_held (Key a) (Key b) = (a \<le> b)"
| "less_eq_held (Key a) (Button b) = True"
| "less_eq_held (Button a) (Key b) = False"
| "less_eq_held (Button a) (Button b) = (a \<le> b)"

definition less_held :: "held \<Rightarrow> held \<Rightarrow> bool" where
  "less_held a b \<longleftrightarrow> a \<le> b \<and> \<not> b \<le> a"

instance
proof
  fix x y z :: held
  show "x < y \<longleftrightarrow> x \<le> y \<and> \<not> y \<le> x" by (rule less_held_def)
  show "x \<le> x" by (cases x) auto
  show "x \<le> y \<Longrightarrow> y \<le> z \<Longrightarrow> x \<le> z" by (cases x; cases y; cases z) auto
  show "x \<le> y \<Longrightarrow> y \<le> x \<Longrightarrow> x = y" by (cases x; cases y) auto
  show "x \<le> y \<or> y \<le> x" by (cases x; cases y) auto
qed

end

record session_holds =
  session_generation :: u64
  held :: "held set"

record hold_counts =
  counts_generation :: u64
  counts :: "held \<rightharpoonup> nat"

definition holds_new :: hold_counts where
  "holds_new = \<lparr> counts_generation = 0, counts = Map.empty \<rparr>"

definition new_session :: "hold_counts \<Rightarrow> session_holds" where
  "new_session inner = \<lparr> session_generation = counts_generation inner, held = {} \<rparr>"

definition drop_one :: "(held \<rightharpoonup> nat) \<Rightarrow> held \<Rightarrow> (held \<rightharpoonup> nat) \<times> bool" where
  "drop_one cs h = (case cs h of
     Some n \<Rightarrow> if n > 1 then (cs(h \<mapsto> n - 1), False) else (cs(h := None), True)
   | None \<Rightarrow> (cs, False))"

definition record_held ::
    "hold_counts \<Rightarrow> session_holds \<Rightarrow> held \<Rightarrow> bool \<Rightarrow> hold_counts \<times> session_holds \<times> bool" where
  "record_held inner mine h pressed =
    (if session_generation mine \<noteq> counts_generation inner then (inner, mine, False)
     else if pressed then
       (if h \<in> held mine then (inner, mine, False)
        else let n = (case counts inner h of Some n \<Rightarrow> n | None \<Rightarrow> 0) + 1
             in (inner\<lparr> counts := (counts inner)(h \<mapsto> n) \<rparr>,
                 mine\<lparr> held := insert h (held mine) \<rparr>, n = 1))
     else
       (if h \<notin> held mine then (inner, mine, False)
        else let (cs, last) = drop_one (counts inner) h
             in (inner\<lparr> counts := cs \<rparr>, mine\<lparr> held := held mine - {h} \<rparr>, last)))"

text \<open>
  \<open>transition_then\<close>: what \<open>deliver\<close> does to the rest of the world \<open>'w\<close> happens under the
  lock.
\<close>

definition transition_then ::
    "hold_counts \<Rightarrow> session_holds \<Rightarrow> held \<Rightarrow> bool \<Rightarrow> ('w \<Rightarrow> 'w \<times> 't) \<Rightarrow> 'w \<Rightarrow>
       hold_counts \<times> session_holds \<times> 'w \<times> 't option" where
  "transition_then inner mine h pressed deliver w =
    (case record_held inner mine h pressed of (inner', mine', pass) \<Rightarrow>
       if pass then (case deliver w of (w', r) \<Rightarrow> (inner', mine', w', Some r))
       else (inner', mine', w, None))"

fun drop_each :: "(held \<rightharpoonup> nat) \<Rightarrow> held list \<Rightarrow> (held \<rightharpoonup> nat) \<times> held list" where
  "drop_each cs [] = (cs, [])"
| "drop_each cs (h # hs) =
    (let (cs1, last) = drop_one cs h; (cs2, released) = drop_each cs1 hs
     in (cs2, if last then h # released else released))"

definition end_then ::
    "hold_counts \<Rightarrow> session_holds \<Rightarrow> (held list \<Rightarrow> 'w \<Rightarrow> 'w) \<Rightarrow> 'w \<Rightarrow>
       hold_counts \<times> session_holds \<times> 'w" where
  "end_then inner mine release w =
    (let mine' = mine\<lparr> held := {} \<rparr>;
         (cs, released) =
           (if session_generation mine = counts_generation inner
            then drop_each (counts inner) (sorted_list_of_set (held mine))
            else (counts inner, []))
     in (inner\<lparr> counts := cs \<rparr>, mine', release released w))"

definition holds_reset :: "hold_counts \<Rightarrow> hold_counts" where
  "holds_reset inner =
     \<lparr> counts_generation = counts_generation inner + 1, counts = Map.empty \<rparr>"

section \<open>The server's sessions\<close>

text \<open>
  The shared counts and the bookkeeping of every session thread, by session.
\<close>

record server =
  inner :: hold_counts
  sessions :: "nat \<rightharpoonup> session_holds"

definition srv_upd :: "server \<Rightarrow> nat \<Rightarrow> held \<Rightarrow> bool \<Rightarrow> server \<times> bool" where
  "srv_upd s i h p = (case sessions s i of
     None \<Rightarrow> (s, False)
   | Some mine \<Rightarrow> (case transition_then (inner s) mine h p (\<lambda>w. (w, ())) () of
       (inner', mine', _, r) \<Rightarrow>
         (s\<lparr> inner := inner', sessions := (sessions s)(i \<mapsto> mine') \<rparr>, r \<noteq> None)))"

definition srv_rel :: "server \<Rightarrow> nat \<Rightarrow> server \<times> held list" where
  "srv_rel s i = (case sessions s i of
     None \<Rightarrow> (s, [])
   | Some mine \<Rightarrow> (case end_then (inner s) mine (\<lambda>hs _. hs) [] of
       (inner', mine', released) \<Rightarrow>
         (s\<lparr> inner := inner', sessions := (sessions s)(i := None) \<rparr>, released)))"

definition srv_start :: "server \<Rightarrow> nat \<Rightarrow> server" where
  "srv_start s i = s\<lparr> sessions := (sessions s)(i \<mapsto> new_session (inner s)) \<rparr>"

definition srv_reset :: "server \<Rightarrow> server" where
  "srv_reset s = s\<lparr> inner := holds_reset (inner s) \<rparr>"

definition srv_live :: "server \<Rightarrow> nat \<Rightarrow> bool" where
  "srv_live s i = (case sessions s i of
     None \<Rightarrow> False | Some m \<Rightarrow> session_generation m = counts_generation (inner s))"

text \<open>What a session holds in the current generation.\<close>

definition srv_holds :: "server \<Rightarrow> nat \<Rightarrow> held set" where
  "srv_holds s i = (case sessions s i of
     None \<Rightarrow> {}
   | Some m \<Rightarrow> if session_generation m = counts_generation (inner s) then held m else {})"

definition holders :: "server \<Rightarrow> held \<Rightarrow> nat set" where
  "holders s h = {i. h \<in> srv_holds s i}"

definition count_of :: "(held \<rightharpoonup> nat) \<Rightarrow> held \<Rightarrow> nat" where
  "count_of cs h = (case cs h of None \<Rightarrow> 0 | Some n \<Rightarrow> n)"

text \<open>
  The invariant: every count is the number of sessions of this generation that hold the key,
  a key nobody holds has no count, and no session is ahead of the generation.
\<close>

definition srv_ok :: "server \<Rightarrow> bool" where
  "srv_ok s \<longleftrightarrow> finite (dom (sessions s)) \<and>
     (\<forall>i m. sessions s i = Some m \<longrightarrow>
        finite (held m) \<and> session_generation m \<le> counts_generation (inner s)) \<and>
     (\<forall>h. count_of (counts (inner s)) h = card (holders s h)) \<and>
     (\<forall>h. counts (inner s) h \<noteq> Some 0)"

lemma finite_holders: "srv_ok s \<Longrightarrow> finite (holders s h)"
  by (rule finite_subset [of _ "dom (sessions s)"])
     (auto simp: srv_ok_def holders_def srv_holds_def split: option.splits)

lemma count_drop_one:
  "count_of (fst (drop_one cs h)) h' = (if h' = h then count_of cs h - 1 else count_of cs h')"
  by (auto simp: drop_one_def count_of_def split: option.splits)

lemma drop_one_last:
  "cs h \<noteq> Some 0 \<Longrightarrow> snd (drop_one cs h) \<longleftrightarrow> count_of cs h = 1"
  by (auto simp: drop_one_def count_of_def split: option.splits)

lemma drop_one_pos: "\<forall>h. cs h \<noteq> Some 0 \<Longrightarrow> fst (drop_one cs h) h' \<noteq> Some 0"
  by (auto simp: drop_one_def split: option.splits)

lemma drop_each_spec:
  assumes "distinct hs" "\<forall>h. cs h \<noteq> Some 0"
  shows "(\<forall>h. count_of (fst (drop_each cs hs)) h =
            (if h \<in> set hs then count_of cs h - 1 else count_of cs h)) \<and>
         (\<forall>h. fst (drop_each cs hs) h \<noteq> Some 0) \<and>
         snd (drop_each cs hs) = filter (\<lambda>h. count_of cs h = 1) hs"
  using assms
proof (induction hs arbitrary: cs)
  case Nil
  then show ?case by simp
next
  case (Cons h hs)
  obtain cs1 last where d: "drop_one cs h = (cs1, last)" by fastforce
  have last: "last \<longleftrightarrow> count_of cs h = 1"
    using drop_one_last [of cs h] Cons.prems(2) d by simp
  have cs1: "count_of cs1 g = (if g = h then count_of cs h - 1 else count_of cs g)" for g
    using count_drop_one [of cs h g] d by simp
  have pos: "\<forall>g. cs1 g \<noteq> Some 0"
    using drop_one_pos [OF Cons.prems(2), of h] d by simp
  obtain cs2 rest where r: "drop_each cs1 hs = (cs2, rest)" by fastforce
  have IH: "\<forall>g. count_of cs2 g = (if g \<in> set hs then count_of cs1 g - 1 else count_of cs1 g)"
      "\<forall>g. cs2 g \<noteq> Some 0" "rest = filter (\<lambda>g. count_of cs1 g = 1) hs"
    using Cons.IH [OF _ pos] Cons.prems(1) r by auto
  have eq: "drop_each cs (h # hs) = (cs2, if last then h # rest else rest)"
    by (simp add: Let_def d r)
  have f: "filter (\<lambda>g. count_of cs1 g = 1) hs = filter (\<lambda>g. count_of cs g = 1) hs"
    using Cons.prems(1) by (intro filter_cong) (auto simp: cs1)
  show ?case
    using Cons.prems(1) IH f last by (auto simp: eq cs1 simp del: drop_each.simps)
qed

text \<open>How each operation changes what the sessions hold.\<close>

lemma srv_upd_cases:
  obtains (absent) "sessions s i = None" "srv_upd s i h p = (s, False)"
  | (present) mine inner' mine' d where "sessions s i = Some mine"
      "record_held (inner s) mine h p = (inner', mine', d)"
      "srv_upd s i h p = (s\<lparr> inner := inner', sessions := (sessions s)(i \<mapsto> mine') \<rparr>, d)"
proof (cases "sessions s i")
  case None
  with absent show thesis by (simp add: srv_upd_def)
next
  case (Some mine)
  obtain inner' mine' d where r: "record_held (inner s) mine h p = (inner', mine', d)"
    by (metis prod_cases3)
  with Some have "srv_upd s i h p = (s\<lparr> inner := inner', sessions := (sessions s)(i \<mapsto> mine') \<rparr>, d)"
    by (simp add: srv_upd_def transition_then_def)
  with present Some r show thesis by blast
qed

lemma record_held_dead:
  "session_generation mine \<noteq> counts_generation inn \<Longrightarrow> record_held inn mine h p = (inn, mine, False)"
  by (simp add: record_held_def)

lemma srv_upd_dead: "\<not> srv_live s i \<Longrightarrow> srv_upd s i h p = (s, False)"
  by (rule srv_upd_cases [of s i h p])
     (auto simp: srv_live_def record_held_dead fun_upd_idem)

lemma srv_holds_live: "srv_live s i \<Longrightarrow> \<exists>m. sessions s i = Some m \<and> srv_holds s i = held m
    \<and> session_generation m = counts_generation (inner s)"
  by (auto simp: srv_live_def srv_holds_def split: option.splits)

lemma srv_upd_noop:
  assumes "srv_live s i" "(h \<in> srv_holds s i) = p"
  shows "srv_upd s i h p = (s, False)"
  using srv_holds_live [OF assms(1)] assms(2)
  by (auto simp: srv_upd_def transition_then_def record_held_def fun_upd_idem)

lemma srv_upd_press:
  assumes "sessions s i = Some m" "session_generation m = counts_generation (inner s)" "h \<notin> held m"
  shows "srv_upd s i h True =
    (s\<lparr> inner := (inner s)\<lparr> counts := (counts (inner s))(h \<mapsto> count_of (counts (inner s)) h + 1) \<rparr>,
        sessions := (sessions s)(i \<mapsto> m\<lparr> held := insert h (held m) \<rparr>) \<rparr>,
     count_of (counts (inner s)) h = 0)"
  using assms by (simp add: srv_upd_def transition_then_def record_held_def Let_def count_of_def
                       split: option.splits)

lemma srv_upd_release:
  assumes "sessions s i = Some m" "session_generation m = counts_generation (inner s)" "h \<in> held m"
  shows "srv_upd s i h False =
    (s\<lparr> inner := (inner s)\<lparr> counts := fst (drop_one (counts (inner s)) h) \<rparr>,
        sessions := (sessions s)(i \<mapsto> m\<lparr> held := held m - {h} \<rparr>) \<rparr>,
     snd (drop_one (counts (inner s)) h))"
  using assms by (simp add: srv_upd_def transition_then_def record_held_def
                       split: prod.splits)

lemma srv_holds_put:
  "session_generation m = counts_generation (inner s) \<Longrightarrow>
   counts_generation inn = counts_generation (inner s) \<Longrightarrow>
     srv_holds (s\<lparr> inner := inn, sessions := (sessions s)(i \<mapsto> m\<lparr> held := H \<rparr>) \<rparr>) = (srv_holds s)(i := H)"
  by (auto simp: fun_eq_iff srv_holds_def split: option.splits)

lemma holders_upd:
  assumes "srv_holds s' = (srv_holds s)(i := H)"
  shows "holders s' g = (if g \<in> H then insert i (holders s g) else holders s g - {i})"
  using assms by (auto simp: holders_def)

lemma srv_ok_put:
  assumes ok: "srv_ok s"
    and h: "srv_holds s' = (srv_holds s)(i := H)"
    and dom: "finite (dom (sessions s'))"
    and each: "\<And>j m. sessions s' j = Some m \<Longrightarrow>
      finite (held m) \<and> session_generation m \<le> counts_generation (inner s')"
    and pos: "\<And>g. counts (inner s') g \<noteq> Some 0"
    and cnt: "\<And>g. count_of (counts (inner s')) g =
      (if g \<in> H \<and> g \<notin> srv_holds s i then count_of (counts (inner s)) g + 1
       else if g \<notin> H \<and> g \<in> srv_holds s i then count_of (counts (inner s)) g - 1
       else count_of (counts (inner s)) g)"
  shows "srv_ok s'"
proof -
  have "count_of (counts (inner s')) g = card (holders s' g)" for g
  proof -
    have old: "count_of (counts (inner s)) g = card (holders s g)"
      using ok by (simp add: srv_ok_def)
    have i: "i \<in> holders s g \<longleftrightarrow> g \<in> srv_holds s i" by (simp add: holders_def)
    show ?thesis
      unfolding cnt holders_upd [OF h] old
      using finite_holders [OF ok, of g] i by (auto simp: insert_absorb)
  qed
  with dom each pos show ?thesis by (simp add: srv_ok_def)
qed

lemma srv_ok_session:
  "srv_ok s \<Longrightarrow> sessions s i = Some m \<Longrightarrow>
     finite (held m) \<and> session_generation m \<le> counts_generation (inner s)"
  by (simp add: srv_ok_def)

lemma srv_ok_counts:
  "srv_ok s \<Longrightarrow> counts (inner s) h \<noteq> Some 0"
  "srv_ok s \<Longrightarrow> count_of (counts (inner s)) h = card (holders s h)"
  "srv_ok s \<Longrightarrow> finite (dom (sessions s))"
  by (simp_all add: srv_ok_def)

lemma srv_upd_live:
  assumes ok: "srv_ok s" and live: "srv_live s i"
  shows "srv_ok (fst (srv_upd s i h p)) \<and>
    srv_holds (fst (srv_upd s i h p)) =
      (srv_holds s)(i := if p then insert h (srv_holds s i) else srv_holds s i - {h}) \<and>
    (snd (srv_upd s i h p) \<longleftrightarrow> (holders s h = {}) \<noteq> (holders (fst (srv_upd s i h p)) h = {}))"
proof -
  obtain m where m: "sessions s i = Some m" "srv_holds s i = held m"
    and g: "session_generation m = counts_generation (inner s)"
    using srv_holds_live [OF live] by blast
  note fin = srv_ok_session [OF ok]
  have empty: "count_of (counts (inner s)) h = 0 \<longleftrightarrow> holders s h = {}"
    using finite_holders [OF ok, of h] by (simp add: srv_ok_counts(2) [OF ok])
  consider (same) "(h \<in> held m) = p" | (press) "h \<notin> held m" "p" | (release) "h \<in> held m" "\<not> p"
    by blast
  then show ?thesis
  proof cases
    case same
    then have "(if p then insert h (held m) else held m - {h}) = held m" by auto
    moreover have "(srv_holds s)(i := held m) = srv_holds s" using m by (simp add: fun_upd_idem)
    ultimately have "(srv_holds s)(i := if p then insert h (srv_holds s i) else srv_holds s i - {h}) = srv_holds s"
      by (simp only: m(2))
    with same srv_upd_noop [OF live, of h p] ok m show ?thesis by simp
  next
  case press
    define s' where "s' = fst (srv_upd s i h p)"
    have eq: "s' = s\<lparr> inner := (inner s)\<lparr> counts := (counts (inner s))(h \<mapsto> count_of (counts (inner s)) h + 1) \<rparr>,
        sessions := (sessions s)(i \<mapsto> m\<lparr> held := insert h (held m) \<rparr>) \<rparr>"
      and d: "snd (srv_upd s i h p) \<longleftrightarrow> holders s h = {}"
      using srv_upd_press [OF m(1) g] press empty by (auto simp: s'_def)
    have h': "srv_holds s' = (srv_holds s)(i := insert h (held m))"
      unfolding eq by (rule srv_holds_put [OF g]) simp
    have "srv_ok s'"
      by (rule srv_ok_put [OF ok h'])
         (use fin m(1) press srv_ok_counts(1,3) [OF ok] g in
          \<open>auto simp: eq m(2) count_of_def split: if_splits\<close>)
    with h' d press m have "srv_ok s' \<and>
      srv_holds s' = (srv_holds s)(i := if p then insert h (srv_holds s i) else srv_holds s i - {h}) \<and>
      (snd (srv_upd s i h p) \<longleftrightarrow> (holders s h = {}) \<noteq> (holders s' h = {}))"
      by (simp add: holders_upd [OF h'])
    then show ?thesis by (simp only: s'_def)
  next
    case release
    define s' where "s' = fst (srv_upd s i h p)"
    have eq: "s' = s\<lparr> inner := (inner s)\<lparr> counts := fst (drop_one (counts (inner s)) h) \<rparr>,
        sessions := (sessions s)(i \<mapsto> m\<lparr> held := held m - {h} \<rparr>) \<rparr>"
      and d: "snd (srv_upd s i h p) \<longleftrightarrow> card (holders s h) = 1"
      using srv_upd_release [OF m(1) g] release drop_one_last [of "counts (inner s)" h]
        srv_ok_counts [OF ok] by (auto simp: s'_def)
    have h': "srv_holds s' = (srv_holds s)(i := held m - {h})"
      unfolding eq by (rule srv_holds_put [OF g]) simp
    have "srv_ok s'"
      by (rule srv_ok_put [OF ok h'])
         (use fin m(1) release srv_ok_counts(1,3) [OF ok] g drop_one_pos [of "counts (inner s)" h] in
          \<open>auto simp: eq m(2) count_drop_one split: if_splits\<close>)
    moreover have "i \<in> holders s h" using release m by (simp add: holders_def)
    then have "card (holders s h) = 1 \<longleftrightarrow> holders s h - {i} = {}"
      using finite_holders [OF ok, of h] by (auto simp: card_1_singleton_iff)
    ultimately have "srv_ok s' \<and>
      srv_holds s' = (srv_holds s)(i := if p then insert h (srv_holds s i) else srv_holds s i - {h}) \<and>
      (snd (srv_upd s i h p) \<longleftrightarrow> (holders s h = {}) \<noteq> (holders s' h = {}))"
      using h' d release m \<open>i \<in> holders s h\<close>
      by (auto simp: holders_upd [OF h'])
    then show ?thesis by (simp only: s'_def)
  qed
qed

text \<open>The end of a session.\<close>

lemma srv_rel_absent: "sessions s i = None \<Longrightarrow> srv_rel s i = (s, [])"
  by (simp add: srv_rel_def)

lemma srv_rel_stale:
  "sessions s i = Some m \<Longrightarrow> session_generation m \<noteq> counts_generation (inner s) \<Longrightarrow>
     srv_rel s i = (s\<lparr> inner := inner s, sessions := (sessions s)(i := None) \<rparr>, [])"
  by (simp add: srv_rel_def end_then_def Let_def)

lemma srv_rel_live:
  "sessions s i = Some m \<Longrightarrow> session_generation m = counts_generation (inner s) \<Longrightarrow>
     srv_rel s i =
       (s\<lparr> inner := (inner s)\<lparr> counts :=
              fst (drop_each (counts (inner s)) (sorted_list_of_set (held m))) \<rparr>,
          sessions := (sessions s)(i := None) \<rparr>,
        snd (drop_each (counts (inner s)) (sorted_list_of_set (held m))))"
  by (simp add: srv_rel_def end_then_def Let_def split: prod.splits)

lemma srv_holds_drop:
  "counts_generation inn = counts_generation (inner s) \<Longrightarrow>
     srv_holds (s\<lparr> inner := inn, sessions := (sessions s)(i := None) \<rparr>) = (srv_holds s)(i := {})"
  by (auto simp: fun_eq_iff srv_holds_def split: option.splits)

lemma srv_rel_spec:
  assumes ok: "srv_ok s"
  shows "srv_ok (fst (srv_rel s i)) \<and> srv_holds (fst (srv_rel s i)) = (srv_holds s)(i := {}) \<and>
     distinct (snd (srv_rel s i)) \<and> set (snd (srv_rel s i)) = {h. holders s h = {i}}"
proof -
  note fin = srv_ok_session [OF ok]
  have none: "{h. holders s h = {i}} = {}" if "srv_holds s i = {}"
    using that by (auto simp: holders_def)
  consider (absent) "sessions s i = None"
    | (stale) m where "sessions s i = Some m" "session_generation m \<noteq> counts_generation (inner s)"
    | (live) m where "sessions s i = Some m" "session_generation m = counts_generation (inner s)"
    by (cases "sessions s i") auto
  then show ?thesis
  proof cases
    case absent
    then have "srv_holds s i = {}" by (simp add: srv_holds_def)
    with ok none absent show ?thesis by (simp add: srv_rel_absent fun_upd_idem)
  next
    case (stale m)
    define s' where "s' = fst (srv_rel s i)"
    have eq: "s' = s\<lparr> inner := inner s, sessions := (sessions s)(i := None) \<rparr>"
      using srv_rel_stale [OF stale] by (simp add: s'_def)
    have e: "srv_holds s i = {}" using stale by (simp add: srv_holds_def)
    have h': "srv_holds s' = (srv_holds s)(i := {})"
      unfolding eq by (rule srv_holds_drop) simp
    have "srv_ok s'"
      by (rule srv_ok_put [OF ok h'])
         (use fin srv_ok_counts(1,3) [OF ok] e in \<open>auto simp: eq split: if_splits\<close>)
    with h' none [OF e] have "srv_ok s' \<and> srv_holds s' = (srv_holds s)(i := {}) \<and>
        distinct (snd (srv_rel s i)) \<and> set (snd (srv_rel s i)) = {h. holders s h = {i}}"
      using srv_rel_stale [OF stale] by simp
    then show ?thesis by (simp only: s'_def)
  next
    case (live m)
    let ?hs = "sorted_list_of_set (held m)"
    have H: "srv_holds s i = held m" using live by (simp add: srv_holds_def)
    have f: "finite (held m)" using fin [OF live(1)] by blast
    have spec: "\<forall>h. count_of (fst (drop_each (counts (inner s)) ?hs)) h =
            (if h \<in> held m then count_of (counts (inner s)) h - 1 else count_of (counts (inner s)) h)"
      "\<forall>h. fst (drop_each (counts (inner s)) ?hs) h \<noteq> Some 0"
      "snd (drop_each (counts (inner s)) ?hs) = filter (\<lambda>h. count_of (counts (inner s)) h = 1) ?hs"
      using drop_each_spec [of ?hs "counts (inner s)"] srv_ok_counts(1) [OF ok] f by auto
    define s' where "s' = fst (srv_rel s i)"
    have eq: "s' = s\<lparr> inner := (inner s)\<lparr> counts := fst (drop_each (counts (inner s)) ?hs) \<rparr>,
          sessions := (sessions s)(i := None) \<rparr>"
      using srv_rel_live [OF live] by (simp add: s'_def)
    have r: "snd (srv_rel s i) = filter (\<lambda>h. count_of (counts (inner s)) h = 1) ?hs"
      using srv_rel_live [OF live] spec(3) by simp
    have h': "srv_holds s' = (srv_holds s)(i := {})"
      unfolding eq by (rule srv_holds_drop) simp
    have "srv_ok s'"
      by (rule srv_ok_put [OF ok h'])
         (use fin srv_ok_counts(1,3) [OF ok] spec H in \<open>auto simp: eq split: if_splits\<close>)
    moreover have "set (snd (srv_rel s i)) = {h. holders s h = {i}}"
      using f srv_ok_counts(2) [OF ok] H
      by (auto simp: r holders_def card_1_singleton_iff) (metis mem_Collect_eq singletonD)+
    ultimately have "srv_ok s' \<and> srv_holds s' = (srv_holds s)(i := {}) \<and>
        distinct (snd (srv_rel s i)) \<and> set (snd (srv_rel s i)) = {h. holders s h = {i}}"
      using h' r f by simp
    then show ?thesis by (simp only: s'_def)
  qed
qed

lemma srv_holds_member: "(\<exists>j. h \<in> srv_holds s j) \<longleftrightarrow> holders s h \<noteq> {}"
  by (auto simp: holders_def)

interpretation srv: held_tracker srv_upd srv_rel srv_holds srv_live srv_ok
proof
  fix s i h p
  assume ok: "srv_ok s"
  note rel = srv_rel_spec [OF ok, of i]
  show "srv_ok (fst (srv_upd s i h p))"
    by (cases "srv_live s i") (use ok srv_upd_live [OF ok, of i h p] in \<open>simp_all add: srv_upd_dead\<close>)
  show "srv_ok (fst (srv_rel s i))" using rel by blast
  show "srv_holds (fst (srv_upd s i h p)) =
      (srv_holds s)(i := if p then insert h (srv_holds s i) else srv_holds s i - {h})" if "srv_live s i"
    using srv_upd_live [OF ok that] by blast
  show "srv_holds (fst (srv_upd s i h p)) = srv_holds s" if "\<not> srv_live s i"
    using that by (simp add: srv_upd_dead)
  show "snd (srv_upd s i h p) \<longleftrightarrow>
      (\<exists>j. h \<in> srv_holds s j) \<noteq> (\<exists>j. h \<in> srv_holds (fst (srv_upd s i h p)) j)"
    unfolding srv_holds_member
    by (cases "srv_live s i") (use srv_upd_live [OF ok, of i h p] in \<open>simp_all add: srv_upd_dead\<close>)
  show h: "srv_holds (fst (srv_rel s i)) = (srv_holds s)(i := {})" using rel by blast
  show "set (snd (srv_rel s i)) =
      {c. (\<exists>j. c \<in> srv_holds s j) \<and> \<not> (\<exists>j. c \<in> srv_holds (fst (srv_rel s i)) j)}"
    unfolding h using rel by (auto simp: holders_def set_eq_iff split: if_splits)
  show "distinct (snd (srv_rel s i))" using rel by blast
qed

text \<open>Starting a session and closing the gate.\<close>

lemma srv_start_spec:
  assumes ok: "srv_ok s" and new: "sessions s i = None"
  shows "srv_ok (srv_start s i) \<and> srv_holds (srv_start s i) = srv_holds s"
proof -
  have h: "srv_holds (srv_start s i) = srv_holds s"
    using new by (auto simp: fun_eq_iff srv_holds_def srv_start_def new_session_def split: option.splits)
  with ok have "srv_ok (srv_start s i)"
    by (auto simp: srv_ok_def holders_def srv_start_def new_session_def split: if_splits)
  with h show ?thesis by blast
qed

lemma srv_reset_spec:
  assumes ok: "srv_ok s" and room: "counts_generation (inner s) \<noteq> - 1"
  shows "srv_ok (srv_reset s) \<and> srv_holds (srv_reset s) = (\<lambda>_. {})"
proof -
  let ?g = "counts_generation (inner s)"
  have "?g < ?g + 1" using room by (rule less_word_Suc)
  then have old: "m \<le> ?g \<Longrightarrow> m < ?g + 1" for m by (rule le_less_trans [rotated])
  have sess: "finite (held m) \<and> session_generation m < ?g + 1" if "sessions s i = Some m" for i m
    using srv_ok_session [OF ok that] old by blast
  then have h: "srv_holds (srv_reset s) = (\<lambda>_. {})"
    by (fastforce simp: fun_eq_iff srv_holds_def srv_reset_def holds_reset_def split: option.splits)
  then have "srv_ok (srv_reset s)"
    using ok sess
    by (auto simp: srv_ok_def holders_def srv_reset_def holds_reset_def count_of_def less_imp_le)
  with h show ?thesis by blast
qed

section \<open>Viewers\<close>

text \<open>
  \<open>viewers.rs\<close>: the count the window manager is told. An operation returns the new count
  and the reports it makes, in order.
\<close>

record viewers =
  viewers_generation :: u64
  viewers :: u32

definition viewers_new :: viewers where
  "viewers_new = \<lparr> viewers_generation = 0, viewers = 0 \<rparr>"

text \<open>\<open>join\<close> also returns the guard: the generation it counts in.\<close>

definition viewers_join :: "viewers \<Rightarrow> viewers \<times> u32 list \<times> u64" where
  "viewers_join c = (let c' = c\<lparr> viewers := viewers c + 1 \<rparr>
     in (c', [viewers c'], viewers_generation c'))"

definition viewers_reset :: "viewers \<Rightarrow> viewers \<times> u32 list" where
  "viewers_reset c =
     (\<lparr> viewers_generation = viewers_generation c + 1, viewers = 0 \<rparr>, [0])"

definition viewers_leave :: "viewers \<Rightarrow> u64 \<Rightarrow> viewers \<times> u32 list" where
  "viewers_leave c g =
    (if viewers_generation c \<noteq> g then (c, [])
     else let c' = c\<lparr> viewers := (if viewers c = 0 then 0 else viewers c - 1) \<rparr>
          in (c', [viewers c']))"

text \<open>The sessions' guards with the count: a run of joins, drops and gate closings.\<close>

datatype viewer_event = Join nat | Leave nat | GateClosed

record viewer_world =
  vcount :: viewers
  guards :: "(nat \<times> u64) list"
  reports :: "u32 list"

definition viewer_world_new :: viewer_world where
  "viewer_world_new = \<lparr> vcount = viewers_new, guards = [], reports = [] \<rparr>"

fun viewer_step :: "viewer_world \<Rightarrow> viewer_event \<Rightarrow> viewer_world" where
  "viewer_step w (Join i) =
     (let (c, rs, g) = viewers_join (vcount w)
      in w\<lparr> vcount := c, guards := (i, g) # guards w, reports := reports w @ rs \<rparr>)"
| "viewer_step w (Leave i) =
     (case position (\<lambda>(j, _). j = i) (guards w) of
        None \<Rightarrow> w
      | Some n \<Rightarrow> (let (c, rs) = viewers_leave (vcount w) (snd (guards w ! n))
          in w\<lparr> vcount := c, guards := remove_at n (guards w), reports := reports w @ rs \<rparr>))"
| "viewer_step w GateClosed =
     (let (c, rs) = viewers_reset (vcount w) in w\<lparr> vcount := c, reports := reports w @ rs \<rparr>)"

definition current_guards :: "viewer_world \<Rightarrow> nat" where
  "current_guards w = length (filter (\<lambda>(_, g). g = viewers_generation (vcount w)) (guards w))"

definition viewer_ok :: "viewer_world \<Rightarrow> bool" where
  "viewer_ok w \<longleftrightarrow> unat (viewers (vcount w)) = current_guards w \<and>
     (\<forall>(_, g) \<in> set (guards w). g \<le> viewers_generation (vcount w)) \<and>
     last (0 # reports w) = viewers (vcount w)"

text \<open>Neither the count nor the generation may be at the end of its type.\<close>

definition viewer_room :: "viewer_world \<Rightarrow> viewer_event \<Rightarrow> bool" where
  "viewer_room w e \<longleftrightarrow> (case e of
     Join _ \<Rightarrow> viewers (vcount w) \<noteq> - 1
   | Leave _ \<Rightarrow> True
   | GateClosed \<Rightarrow> viewers_generation (vcount w) \<noteq> - 1)"

interpretation viewing: stepper viewer_step viewer_ok viewer_room
proof
  fix w e
  assume ok: "viewer_ok w" and room: "viewer_room w e"
  show "viewer_ok (viewer_step w e)"
  proof (cases e)
    case (Join i)
    with ok room show ?thesis
      by (auto simp: viewer_ok_def viewer_room_def viewers_join_def Let_def current_guards_def unat_Suc)
  next
    case (Leave i)
    show ?thesis
    proof (cases "position (\<lambda>(j, _). j = i) (guards w)")
      case None
      with ok Leave show ?thesis by simp
    next
      case (Some n)
      let ?g = "guards w ! n"
      have n: "n < length (guards w)" using position_SomeD [OF Some] by blast
      have sub: "set (remove_at n (guards w)) \<subseteq> set (guards w)" by (rule set_remove_at_subset)
      show ?thesis
      proof (cases "snd ?g = viewers_generation (vcount w)")
        case False
        with ok n sub Some Leave show ?thesis
          by (auto simp: viewer_ok_def viewers_leave_def current_guards_def filter_remove_at
                   split: prod.splits)
      next
        case True
        have "?g \<in> set (filter (\<lambda>(_, g). g = viewers_generation (vcount w)) (guards w))"
          using True n by (auto simp: split_beta)
        then have "current_guards w \<noteq> 0"
          unfolding current_guards_def by (metis length_0_conv list.set(1) empty_iff)
        with ok have "viewers (vcount w) \<noteq> 0" by (auto simp: viewer_ok_def)
        with True ok n sub Some Leave show ?thesis
          by (auto simp: viewer_ok_def viewers_leave_def current_guards_def filter_remove_at
                         unat_pred Let_def split: prod.splits)
      qed
    qed
  next
    case GateClosed
    let ?g = "viewers_generation (vcount w)"
    have "?g < ?g + 1"
      using room GateClosed by (simp add: viewer_room_def less_word_Suc)
    then have old: "\<forall>(_, g) \<in> set (guards w). g < ?g + 1"
      using ok by (auto simp: viewer_ok_def intro: le_less_trans)
    then have "filter (\<lambda>(_, g). g = ?g + 1) (guards w) = []"
      by (auto simp: filter_empty_conv)
    with old GateClosed show ?thesis
      by (auto simp: viewer_ok_def viewers_reset_def current_guards_def intro: less_imp_le)
  qed
qed

end
