(* ===== verification/Serve.thy ===== *)
theory Serve
  imports Protocol SeatHeld Holds
begin

text \<open>
  \<open>crates/shoestring-remote-server/src/session.rs\<close> and \<open>wm.rs\<close>: one viewer's session,
  from the handshake to its end, and the sessions of one server together with the seat of
  the window manager they inject into. The sockets are the list of what is read from them
  and the world \<open>'w\<close> the session acts on; the window manager's answer to a request is
  whether it was \<open>Ok\<close>.
\<close>

section \<open>Input events\<close>

datatype raw_input =
    RawKey u32 bool
  | RawButton u32 bool
  | RawMotion f64 f64
  | RawAxis f64 f64 "(f64 \<times> f64) option"

fun to_raw_input :: "client_message \<Rightarrow> raw_input option" where
  "to_raw_input (client_message.Key k p) = Some (RawKey k p)"
| "to_raw_input (PointerMotion x y) = Some (RawMotion x y)"
| "to_raw_input (PointerButton b p) = Some (RawButton b p)"
| "to_raw_input (PointerAxis h v wheel) = Some (RawAxis h v wheel)"
| "to_raw_input _ = None"

fun held_transition :: "raw_input \<Rightarrow> (held \<times> bool) option" where
  "held_transition (RawKey k p) = Some (Key k, p)"
| "held_transition (RawButton b p) = Some (Button b, p)"
| "held_transition _ = None"

section \<open>The session\<close>

text \<open>What a session asks of the window manager and of its own network connection.\<close>

record 'w session_api =
  api_inject :: "'w \<Rightarrow> raw_input \<Rightarrow> bool \<Rightarrow> 'w \<times> bool"
  api_inject_to_window :: "'w \<Rightarrow> bytes \<Rightarrow> raw_input \<Rightarrow> 'w \<times> bool"
  api_get_clipboard :: "'w \<Rightarrow> bool \<Rightarrow> 'w \<times> (bytes option \<times> bytes) option"
  api_set_clipboard :: "'w \<Rightarrow> bool \<Rightarrow> bytes \<Rightarrow> bytes \<Rightarrow> 'w"
  api_send :: "'w \<Rightarrow> server_message \<Rightarrow> 'w \<times> bool"

definition session_inject ::
    "'w session_api \<Rightarrow> bytes option \<Rightarrow> raw_input \<Rightarrow> 'w \<Rightarrow> 'w \<times> bool" where
  "session_inject api graft ev w = (case graft of
     Some ftid \<Rightarrow> api_inject_to_window api w ftid ev
   | None \<Rightarrow> api_inject api w ev True)"

text \<open>
  One turn of the loop of \<open>forward_input\<close> on a message; the last component is whether the
  loop goes on.
\<close>

definition session_message ::
    "'w session_api \<Rightarrow> bytes option \<Rightarrow> client_message \<Rightarrow> hold_counts \<times> session_holds \<times> 'w \<Rightarrow>
       (hold_counts \<times> session_holds \<times> 'w) \<times> bool" where
  "session_message api graft msg st = (case st of (inn, mine, w) \<Rightarrow>
    (case msg of
       ClientBye \<Rightarrow> (st, False)
     | GetClipboard primary \<Rightarrow>
         (let (w1, got) = api_get_clipboard api w primary;
              reply = (case got of
                Some (mime, body) \<Rightarrow>
                  Clipboard primary (case mime of Some m \<Rightarrow> m | None \<Rightarrow> []) body
              | None \<Rightarrow> Clipboard primary [] []);
              (w2, sent) = api_send api w1 reply
          in ((inn, mine, w2), sent))
     | SetClipboard primary mime body \<Rightarrow> ((inn, mine, api_set_clipboard api w primary mime body), True)
     | other \<Rightarrow> (case to_raw_input other of
         None \<Rightarrow> (st, True)
       | Some ev \<Rightarrow> (case held_transition ev of
           Some (h, p) \<Rightarrow>
             (case transition_then inn mine h p (session_inject api graft ev) w of
               (inn', mine', w', r) \<Rightarrow> ((inn', mine', w'), r \<noteq> Some False))
         | None \<Rightarrow> (case session_inject api graft ev w of
               (w', ok) \<Rightarrow> ((inn, mine, w'), ok))))))"

text \<open>\<open>release_held\<close>: stops at the first release the window manager refuses.\<close>

fun release_event :: "held \<Rightarrow> raw_input" where
  "release_event (Key k) = RawKey k False"
| "release_event (Button b) = RawButton b False"

fun release_held :: "'w session_api \<Rightarrow> bool \<Rightarrow> held list \<Rightarrow> 'w \<Rightarrow> 'w" where
  "release_held api serve [] w = w"
| "release_held api serve (h # hs) w =
    (case api_inject api w (release_event h) serve of
       (w', ok) \<Rightarrow> if ok then release_held api serve hs w' else w')"

definition session_end ::
    "'w session_api \<Rightarrow> bytes option \<Rightarrow> hold_counts \<times> session_holds \<times> 'w \<Rightarrow>
       hold_counts \<times> session_holds \<times> 'w" where
  "session_end api graft st = (case st of (inn, mine, w) \<Rightarrow>
     end_then inn mine (release_held api (graft = None)) w)"

text \<open>
  \<open>forward_input\<close> of one session on its own: the messages its reading loop hands it, until
  one stops it, then the release of what it held.
\<close>

fun session_loop ::
    "'w session_api \<Rightarrow> bytes option \<Rightarrow> client_message list \<Rightarrow> hold_counts \<times> session_holds \<times> 'w \<Rightarrow>
       hold_counts \<times> session_holds \<times> 'w" where
  "session_loop api graft [] st = st"
| "session_loop api graft (m # ms) st =
    (case session_message api graft m st of
       (st', go) \<Rightarrow> if go then session_loop api graft ms st' else st')"

definition forward_input ::
    "'w session_api \<Rightarrow> bytes option \<Rightarrow> bytes \<Rightarrow> hold_counts \<Rightarrow> 'w \<Rightarrow> hold_counts \<times> session_holds \<times> 'w"
where
  "forward_input api graft stream inn w =
     session_end api graft
       (session_loop api graft (receive decode_client stream) (inn, new_session inn, w))"

text \<open>
  \<open>forward_frames\<close>: the messages of the capture stream go to the viewer, \<open>Ready\<close> with the
  server's own version information, until one is not sent or a \<open>Bye\<close> has been.
\<close>

definition as_forwarded :: "server_message \<Rightarrow> server_message" where
  "as_forwarded m = (case m of Ready w h s f p \<Rightarrow> Ready w h s f peer_ours | _ \<Rightarrow> m)"

fun forward_frames :: "'w session_api \<Rightarrow> server_message list \<Rightarrow> 'w \<Rightarrow> 'w" where
  "forward_frames api [] w = w"
| "forward_frames api (m # ms) w =
    (case api_send api w (as_forwarded m) of
       (w', ok) \<Rightarrow> if \<not> ok \<or> m = ServerBye then w' else forward_frames api ms w')"

text \<open>The decision \<open>serve\<close> takes on a connection's first message.\<close>

datatype handshake =
    Fail
  | Refuse bytes
  | ServeOutput
  | ServeWindow bytes

definition handshake_of :: "wire_error + client_message \<Rightarrow> handshake" where
  "handshake_of first = (case first of
     Inl _ \<Rightarrow> Fail
   | Inr (Hello w h s peer) \<Rightarrow>
       (case incompatibility peer_ours peer of Some reason \<Rightarrow> Refuse reason | None \<Rightarrow> ServeOutput)
   | Inr (Graft selector peer) \<Rightarrow>
       (case incompatibility peer_ours peer of Some reason \<Rightarrow> Refuse reason
        | None \<Rightarrow> ServeWindow selector)
   | Inr _ \<Rightarrow> Fail)"

section \<open>The window a graft means\<close>

record window_info =
  win_id :: bytes
  win_app_id :: bytes
  win_title :: bytes
  win_z :: "u32 option"

fun contains :: "bytes \<Rightarrow> bytes \<Rightarrow> bool" where
  "contains hay needle = (take (length needle) hay = needle \<or>
     (case hay of [] \<Rightarrow> False | _ # rest \<Rightarrow> contains rest needle))"

declare contains.simps [simp del]

definition or_else :: "'a option \<Rightarrow> 'a option \<Rightarrow> 'a option" where
  "or_else a b = (case a of Some _ \<Rightarrow> a | None \<Rightarrow> b)"

text \<open>\<open>sort_by_key\<close> is stable, as \<open>sort_key\<close> is.\<close>

definition resolve_window :: "window_info list \<Rightarrow> bytes \<Rightarrow> bytes option" where
  "resolve_window windows selector =
    (let sorted = sort_key (\<lambda>w. - (case win_z w of Some z \<Rightarrow> uint z | None \<Rightarrow> 0)) windows
     in map_option win_id
         (or_else (List.find (\<lambda>w. win_id w = selector) sorted)
         (or_else (List.find (\<lambda>w. win_app_id w = selector) sorted)
         (or_else (List.find (\<lambda>w. contains (win_app_id w) selector) sorted)
                  (List.find (\<lambda>w. contains (win_title w) selector) sorted)))))"

section \<open>The window manager's side\<close>

text \<open>
  The parts of the window manager's state an \<open>inject_input\<close> request reads and writes: the
  automation gate, the seat's holds and the keycode of the current keybind repeat, with the
  calls made on the rest of it so far.
\<close>

record wm_seat =
  automation_enabled :: bool
  seat_state :: seat_held
  repeat_key :: "u32 option"
  seat_calls :: "seat_call list"

text \<open>\<open>Request::InjectInput\<close> in \<open>dispatch_input\<close> of \<open>src/ipc.rs\<close>.\<close>

definition wm_inject_input :: "wm_seat \<Rightarrow> raw_input \<Rightarrow> bool \<Rightarrow> wm_seat \<times> bool" where
  "wm_inject_input wm ev bindings =
    (if \<not> automation_enabled wm then (wm, False)
     else (case ev of
         RawKey k p \<Rightarrow> (case inject_raw_keycode (seat_state wm) k p bindings of
           (s, cs) \<Rightarrow> (wm\<lparr> seat_state := s, seat_calls := seat_calls wm @ cs \<rparr>, True))
       | RawButton b p \<Rightarrow> (case inject_raw_button (seat_state wm) b p bindings of
           (s, cs) \<Rightarrow> (wm\<lparr> seat_state := s, seat_calls := seat_calls wm @ cs \<rparr>, True))
       | RawMotion x y \<Rightarrow> (wm\<lparr> seat_calls := seat_calls wm @ [RawMotionTo x y bindings] \<rparr>, True)
       | RawAxis h v w \<Rightarrow> (wm\<lparr> seat_calls := seat_calls wm @ [RawAxisTo h v w bindings] \<rparr>, True)))"

text \<open>\<open>set_automation\<close> of \<open>src/state.rs\<close>, as far as the seat is concerned.\<close>

definition wm_set_automation :: "wm_seat \<Rightarrow> bool \<Rightarrow> wm_seat" where
  "wm_set_automation wm enabled =
    (let wm1 = wm\<lparr> automation_enabled := enabled \<rparr>
     in if enabled then wm1
        else (case release_injected_input (seat_state wm1) (repeat_key wm1) of
          (s, rep, cs) \<Rightarrow> wm1\<lparr> seat_state := s, repeat_key := rep, seat_calls := seat_calls wm1 @ cs \<rparr>))"

definition wm_local :: "wm_seat \<Rightarrow> seat_event \<Rightarrow> wm_seat" where
  "wm_local wm e = (case seat_step (seat_state wm, repeat_key wm) e of
     ((s, rep), cs) \<Rightarrow> wm\<lparr> seat_state := s, repeat_key := rep, seat_calls := seat_calls wm @ cs \<rparr>)"

section \<open>Server and window manager together\<close>

text \<open>
  The server's shared counts and sessions with the seat they inject into, in serve mode.
  \<open>reading\<close> are the sessions whose input loop is still reading. An operation of one thread
  that holds the lock is one event; events of different threads come in any order.
\<close>

record world =
  srv_state :: server
  wm_state :: wm_seat
  reading :: "nat set"

definition seat_api :: "wm_seat session_api" where
  "seat_api = \<lparr> api_inject = wm_inject_input,
     api_inject_to_window = (\<lambda>wm _ ev. wm_inject_input wm ev False),
     api_get_clipboard = (\<lambda>wm _. (wm, None)),
     api_set_clipboard = (\<lambda>wm _ _ _. wm),
     api_send = (\<lambda>wm _. (wm, True)) \<rparr>"

datatype world_event =
    Connect nat
  | ClientSends nat client_message
  | LoopEnds nat
  | LocalInput seat_event
  | GateOff
  | ServerReset
  | GateOn

definition put_session :: "world \<Rightarrow> nat \<Rightarrow> hold_counts \<times> session_holds \<times> wm_seat \<Rightarrow> world" where
  "put_session w i st = (case st of (inn, mine, wm) \<Rightarrow>
     w\<lparr> srv_state := (srv_state w)\<lparr> inner := inn, sessions := (sessions (srv_state w))(i \<mapsto> mine) \<rparr>,
        wm_state := wm \<rparr>)"

fun world_step :: "world \<Rightarrow> world_event \<Rightarrow> world" where
  "world_step w (Connect i) =
     w\<lparr> srv_state := srv_start (srv_state w) i, reading := insert i (reading w) \<rparr>"
| "world_step w (ClientSends i m) =
     (case sessions (srv_state w) i of
        Some mine \<Rightarrow>
          (if i \<in> reading w then
             (case session_message seat_api None m (inner (srv_state w), mine, wm_state w) of
                (st, go) \<Rightarrow> (put_session w i st)
                  \<lparr> reading := (if go then reading w else reading w - {i}) \<rparr>)
           else w)
      | None \<Rightarrow> w)"
| "world_step w (LoopEnds i) =
     (case sessions (srv_state w) i of
        Some mine \<Rightarrow>
          (case session_end seat_api None (inner (srv_state w), mine, wm_state w) of
             (inn, _, wm) \<Rightarrow>
               w\<lparr> srv_state := (srv_state w)\<lparr> inner := inn,
                                 sessions := (sessions (srv_state w))(i := None) \<rparr>,
                  wm_state := wm, reading := reading w - {i} \<rparr>)
      | None \<Rightarrow> w)"
| "world_step w (LocalInput e) = w\<lparr> wm_state := wm_local (wm_state w) e \<rparr>"
| "world_step w GateOff = w\<lparr> wm_state := wm_set_automation (wm_state w) False \<rparr>"
| "world_step w ServerReset = w\<lparr> srv_state := srv_reset (srv_state w) \<rparr>"
| "world_step w GateOn = w\<lparr> wm_state := wm_set_automation (wm_state w) True \<rparr>"

text \<open>How a held key of \<open>holds.rs\<close> appears on the seat.\<close>

fun seat_code :: "held \<Rightarrow> held_kind \<times> u32" where
  "seat_code (Key k) = (KeyKind, x_keycode k)"
| "seat_code (Button b) = (ButtonKind, b)"

text \<open>What the viewers of the current generation hold.\<close>

definition viewers_hold :: "world \<Rightarrow> held set" where
  "viewers_hold w = (\<Union>i. srv_holds (srv_state w) i)"

text \<open>
  Where the two sides differ. A hold is \<open>swallowed\<close> when it was made or interrupted by the closed
  gate and has not been let go since: viewers hold it and the seat does not have it. It is
  \<open>orphaned\<close> when the server started a new generation while the gate was on, and nobody has
  pressed it since: the seat has it and no viewer holds it.
\<close>

record ledger =
  swallowed :: "held set"
  orphaned :: "held set"

definition ledger_step :: "world \<times> ledger \<Rightarrow> world_event \<Rightarrow> world \<times> ledger" where
  "ledger_step = (\<lambda>(w, l) e.
    (let w' = world_step w e
     in (w', if \<not> automation_enabled (wm_state w') then \<lparr> swallowed = viewers_hold w', orphaned = {} \<rparr>
         else \<lparr> swallowed = swallowed l \<inter> viewers_hold w',
                orphaned = (orphaned l \<union> (if e = ServerReset then viewers_hold w - swallowed l else {}))
                  - viewers_hold w' \<rparr>)))"

definition world_booked :: "world \<Rightarrow> ledger \<Rightarrow> bool" where
  "world_booked w l \<longleftrightarrow> srv_ok (srv_state w) \<and> seat_ok (seat_state (wm_state w)) \<and>
     receive_all {} (transitions (seat_calls (wm_state w))) =
       Some (seat_down (seat_state (wm_state w))) \<and>
     seat_holds (seat_state (wm_state w)) Injected =
       seat_code ` ((viewers_hold w - swallowed l) \<union> orphaned l) \<and>
     swallowed l \<subseteq> viewers_hold w \<and> orphaned l \<inter> viewers_hold w = {} \<and>
     (\<not> automation_enabled (wm_state w) \<longrightarrow> swallowed l = viewers_hold w \<and> orphaned l = {})"

text \<open>The ledger of a state in which the two sides agree, and that of the next state.\<close>

definition balanced :: "world \<Rightarrow> ledger" where
  "balanced w = \<lparr> swallowed = (if automation_enabled (wm_state w) then {} else viewers_hold w), orphaned = {} \<rparr>"

definition world_ok :: "world \<Rightarrow> bool" where
  "world_ok w \<longleftrightarrow> world_booked w (balanced w)"

definition carry :: "ledger \<Rightarrow> world \<Rightarrow> ledger" where
  "carry l w' = (if \<not> automation_enabled (wm_state w') then \<lparr> swallowed = viewers_hold w', orphaned = {} \<rparr>
     else \<lparr> swallowed = swallowed l \<inter> viewers_hold w', orphaned = orphaned l - viewers_hold w' \<rparr>)"

fun physical_event :: "seat_event \<Rightarrow> bool" where
  "physical_event (InjectKey k p b) = False"
| "physical_event (InjectButton k p b) = False"
| "physical_event InjectionRevoked = False"
| "physical_event _ = True"

text \<open>
  What the rest of the two programs guarantees: a new session has a new place, and the seat's
  own events are physical ones. Generations are not used up. The gate goes on and off as it
  likes, and the server starts a new generation whenever it finds, or believes, it is off.
\<close>

definition world_admissible :: "world \<Rightarrow> world_event \<Rightarrow> bool" where
  "world_admissible w e \<longleftrightarrow> (case e of
     Connect i \<Rightarrow> sessions (srv_state w) i = None
   | LocalInput ev \<Rightarrow> physical_event ev
   | ServerReset \<Rightarrow> counts_generation (inner (srv_state w)) \<noteq> - 1
   | _ \<Rightarrow> True)"

definition world_new :: world where
  "world_new = \<lparr> srv_state = \<lparr> inner = holds_new, sessions = Map.empty \<rparr>,
     wm_state = \<lparr> automation_enabled = False, seat_state = seat_held_default,
       repeat_key = None, seat_calls = [] \<rparr>,
     reading = {} \<rparr>"

lemma seat_code_inject [simp]: "seat_code a = seat_code b \<longleftrightarrow> a = b"
  by (cases a; cases b) (simp_all add: x_keycode_def)

lemma seat_holds_note:
  "seat_ok s \<Longrightarrow> seat_holds (fst (note_held s src k c p)) =
     (seat_holds s)(src := if p then insert (k, c) (seat_holds s src) else seat_holds s src - {(k, c)})"
  using seat.upd_holds [of s src "(k, c)" p] by (simp add: seat_upd_def)

text \<open>A key or button delivered to the window manager while the gate is on.\<close>

fun raw_of :: "held \<Rightarrow> bool \<Rightarrow> raw_input" where
  "raw_of (Key k) p = RawKey k p"
| "raw_of (Button b) p = RawButton b p"

definition wm_ok :: "wm_seat \<Rightarrow> bool" where
  "wm_ok wm \<longleftrightarrow> seat_ok (seat_state wm) \<and>
     receive_all {} (transitions (seat_calls wm)) = Some (seat_down (seat_state wm))"

lemma wm_ok_step:
  "wm_ok wm \<Longrightarrow> seat_exact (seat_state wm) s cs \<Longrightarrow>
     wm_ok (wm\<lparr> seat_state := s, seat_calls := seat_calls wm @ cs \<rparr>)"
  by (simp add: wm_ok_def seat_exact_def receive_all_append)

lemma wm_ok_step_rep:
  "wm_ok wm \<Longrightarrow> seat_exact (seat_state wm) s cs \<Longrightarrow>
     wm_ok (wm\<lparr> seat_state := s, repeat_key := rep, seat_calls := seat_calls wm @ cs \<rparr>)"
  by (simp add: wm_ok_def seat_exact_def receive_all_append)

lemma wm_inject_off: "\<not> automation_enabled wm \<Longrightarrow> wm_inject_input wm ev b = (wm, False)"
  by (simp add: wm_inject_input_def)

lemma wm_inject_held:
  assumes "automation_enabled wm" "wm_ok wm" "wm_inject_input wm (raw_of h p) b = (wm', ok)"
  shows "wm_ok wm' \<and> ok \<and> automation_enabled wm' \<and>
    seat_holds (seat_state wm') Injected =
      (if p then insert (seat_code h) (seat_holds (seat_state wm) Injected)
       else seat_holds (seat_state wm) Injected - {seat_code h})"
proof (cases h)
  case (Key k)
  have s: "seat_ok (seat_state wm)" using assms(2) by (simp add: wm_ok_def)
  obtain s' cs where i: "inject_raw_keycode (seat_state wm) k p b = (s', cs)" by fastforce
  have e: "seat_exact (seat_state wm) s' cs"
    using seat_step_exact [OF s, of None "InjectKey k p b"] i by simp
  have "s' = fst (note_held (seat_state wm) Injected KeyKind (x_keycode k) p)"
    using i by (auto simp: inject_raw_keycode_def seat_key_def Let_def split: prod.splits)
  with seat_holds_note [OF s] wm_ok_step [OF assms(2) e] assms i Key show ?thesis
    by (auto simp: wm_inject_input_def)
next
  case (Button k)
  have s: "seat_ok (seat_state wm)" using assms(2) by (simp add: wm_ok_def)
  obtain s' cs where i: "inject_raw_button (seat_state wm) k p b = (s', cs)" by fastforce
  have e: "seat_exact (seat_state wm) s' cs"
    using seat_step_exact [OF s, of None "InjectButton k p b"] i by simp
  have "s' = fst (note_held (seat_state wm) Injected ButtonKind k p)"
    using i by (auto simp: inject_raw_button_def seat_button_def split: prod.splits)
  with seat_holds_note [OF s] wm_ok_step [OF assms(2) e] assms i Button show ?thesis
    by (auto simp: wm_inject_input_def)
qed

lemma wm_inject_other:
  assumes "wm_ok wm" "held_transition ev = None" "wm_inject_input wm ev b = (wm', ok)"
  shows "wm_ok wm' \<and> automation_enabled wm' = automation_enabled wm \<and> seat_state wm' = seat_state wm"
  using assms by (cases ev) (auto simp: wm_inject_input_def wm_ok_def receive_all_append split: if_splits)

lemma release_held_off:
  "\<not> automation_enabled wm \<Longrightarrow> release_held seat_api b hs wm = wm"
  by (cases hs) (simp_all add: seat_api_def wm_inject_off)

lemma release_event_raw: "release_event h = raw_of h False"
  by (cases h) simp_all

lemma release_held_on:
  assumes "automation_enabled wm" "wm_ok wm"
  shows "wm_ok (release_held seat_api b hs wm) \<and> automation_enabled (release_held seat_api b hs wm) \<and>
    seat_holds (seat_state (release_held seat_api b hs wm)) Injected =
      seat_holds (seat_state wm) Injected - seat_code ` set hs"
  using assms
proof (induction hs arbitrary: wm)
  case Nil
  then show ?case by simp
next
  case (Cons h hs)
  obtain wm' ok where i: "wm_inject_input wm (release_event h) b = (wm', ok)" by fastforce
  from wm_inject_held [OF Cons.prems, of h False b wm' ok] i
  have "wm_ok wm'" "ok" "automation_enabled wm'"
    "seat_holds (seat_state wm') Injected = seat_holds (seat_state wm) Injected - {seat_code h}"
    by (auto simp: release_event_raw)
  with Cons.IH [of wm'] i show ?case by (auto simp: seat_api_def)
qed

lemma transition_then_srv:
  assumes "sessions srv i = Some mine"
    and "transition_then (inner srv) mine h p f wm = (inn', mine', wm', r)"
  shows "srv\<lparr> inner := inn', sessions := (sessions srv)(i \<mapsto> mine') \<rparr> = fst (srv_upd srv i h p) \<and>
    (if snd (srv_upd srv i h p) then wm' = fst (f wm) \<and> r = Some (snd (f wm))
     else wm' = wm \<and> r = None)"
  using assms
  by (auto simp: srv_upd_def transition_then_def split: prod.splits if_splits)

lemma end_then_srv:
  assumes "sessions srv i = Some mine"
    and "end_then (inner srv) mine f wm = (inn', mine', wm')"
  shows "srv\<lparr> inner := inn', sessions := (sessions srv)(i := None) \<rparr> = fst (srv_rel srv i) \<and>
    wm' = f (snd (srv_rel srv i)) wm"
  using assms
  by (auto simp: srv_rel_def end_then_def Let_def split: prod.splits if_splits)

lemma world_booked_alt:
  "world_booked w l \<longleftrightarrow> srv_ok (srv_state w) \<and> wm_ok (wm_state w) \<and>
     seat_holds (seat_state (wm_state w)) Injected =
       seat_code ` ((srv.down (srv_state w) - swallowed l) \<union> orphaned l) \<and>
     swallowed l \<subseteq> srv.down (srv_state w) \<and> orphaned l \<inter> srv.down (srv_state w) = {} \<and>
     (\<not> automation_enabled (wm_state w) \<longrightarrow> swallowed l = srv.down (srv_state w) \<and> orphaned l = {})"
  by (auto simp: world_booked_def wm_ok_def viewers_hold_def srv.down_def)

lemma viewers_hold_down: "viewers_hold w = srv.down (srv_state w)"
  by (simp add: viewers_hold_def srv.down_def)

lemma carry_balanced:
  "automation_enabled (wm_state w') = automation_enabled (wm_state w) \<Longrightarrow> carry (balanced w) w' = balanced w'"
  by (simp add: carry_def balanced_def)

lemma world_okI:
  "world_ok w \<Longrightarrow> automation_enabled (wm_state w') = automation_enabled (wm_state w) \<Longrightarrow>
     (world_booked w (balanced w) \<Longrightarrow> world_booked w' (carry (balanced w) w')) \<Longrightarrow> world_ok w'"
  by (simp add: world_ok_def carry_balanced)

text \<open>What changes on the seat when viewers press or let go changes in the books.\<close>

lemma booked_change:
  assumes "srv_ok srv'" "wm_ok wm'" "automation_enabled wm' = automation_enabled (wm_state w)" and b: "world_booked w l"
    and inj: "automation_enabled (wm_state w) \<Longrightarrow> seat_holds (seat_state wm') Injected =
      seat_code ` ((srv.down srv' - swallowed l) \<union> (orphaned l - srv.down srv'))"
    and off: "\<not> automation_enabled (wm_state w) \<Longrightarrow> seat_state wm' = seat_state (wm_state w)"
    and w': "srv_state w' = srv'" "wm_state w' = wm'"
  shows "world_booked w' (carry l w')"
proof (cases "automation_enabled (wm_state w)")
  case True
  have "srv.down srv' - swallowed l \<inter> srv.down srv' = srv.down srv' - swallowed l" by blast
  with True inj [OF True] assms(1-3) w' show ?thesis
    by (auto simp: world_booked_alt carry_def viewers_hold_down)
next
  case False
  with off [OF False] assms(1-3) b w' show ?thesis
    by (simp add: world_booked_alt carry_def viewers_hold_down)
qed

lemma seat_code_mem: "seat_code h \<in> seat_code ` A \<longleftrightarrow> h \<in> A"
  by (auto simp del: seat_code.simps)

lemma seat_code_remove: "seat_code ` (D - {h}) = seat_code ` D - {seat_code h}"
  by auto

lemma world_held_step:
  assumes ok: "world_booked w l" and m: "sessions (srv_state w) i = Some mine"
    and t: "transition_then (inner (srv_state w)) mine h p
      (session_inject seat_api None (raw_of h p)) (wm_state w) = st"
    and st: "st = (inn', mine', wm', r)"
  shows "world_booked (put_session w i (inn', mine', wm')) (carry l (put_session w i (inn', mine', wm')))"
    and "automation_enabled wm' = automation_enabled (wm_state w)"
proof -
  let ?srv = "srv_state w" and ?wm = "wm_state w" and ?up = "srv_upd (srv_state w) i h p"
  have s: "srv_ok ?srv" and wm: "wm_ok ?wm"
    and inj: "seat_holds (seat_state ?wm) Injected = seat_code ` ((srv.down ?srv - swallowed l) \<union> orphaned l)"
    and sub: "swallowed l \<subseteq> srv.down ?srv" "orphaned l \<inter> srv.down ?srv = {}"
    using ok by (auto simp: world_booked_alt)
  from transition_then_srv [OF m t [unfolded st]]
  have srv': "?srv\<lparr> inner := inn', sessions := (sessions ?srv)(i \<mapsto> mine') \<rparr> = fst ?up"
    and wm': "wm' = (if snd ?up then fst (wm_inject_input ?wm (raw_of h p) True) else ?wm)"
    by (auto simp: session_inject_def seat_api_def)
  have s': "srv_ok (fst ?up)" by (rule srv.upd_inv [OF s])
  note down = srv.down_upd [OF s, of i h p] and change = srv.upd_changes [OF s, of i h p]
  have off: "wm' = ?wm" if "\<not> automation_enabled ?wm" using that wm' by (simp add: wm_inject_off)
  have on: "wm_ok wm' \<and> automation_enabled wm' \<and> seat_holds (seat_state wm') Injected =
      seat_code ` ((srv.down (fst ?up) - swallowed l) \<union> (orphaned l - srv.down (fst ?up)))" if a: "automation_enabled ?wm"
  proof (cases "snd ?up")
    case True
    obtain wm2 b where i: "wm_inject_input ?wm (raw_of h p) True = (wm2, b)" by fastforce
    have w2: "wm' = wm2" using wm' True i by simp
    have "(srv.down (fst ?up) - swallowed l) \<union> (orphaned l - srv.down (fst ?up)) =
        (if p then insert h ((srv.down ?srv - swallowed l) \<union> orphaned l) else ((srv.down ?srv - swallowed l) \<union> orphaned l) - {h})"
      using down change True sub by auto
    with wm_inject_held [OF a wm i] inj show ?thesis by (simp add: w2 seat_code_remove split: if_splits)
  next
    case False
    then have "wm' = ?wm" "srv.down (fst ?up) = srv.down ?srv" using wm' down by simp_all
    moreover have "orphaned l - srv.down ?srv = orphaned l" using sub(2) by blast
    ultimately show ?thesis using wm a inj by simp
  qed
  show e: "automation_enabled wm' = automation_enabled ?wm" using on off by blast
  have "wm_ok wm'" using on off wm by (cases "automation_enabled ?wm") auto
  then show "world_booked (put_session w i (inn', mine', wm')) (carry l (put_session w i (inn', mine', wm')))"
    by (rule booked_change [OF s' _ e ok]) (use on off srv' in \<open>simp_all add: put_session_def\<close>)
qed

lemma put_session_same:
  "sessions (srv_state w) i = Some mine \<Longrightarrow>
     put_session w i (inner (srv_state w), mine, wm) = w\<lparr> wm_state := wm \<rparr>"
  by (simp add: put_session_def fun_upd_idem)

lemma booked_ignores_reading [simp]:
  "world_booked (w\<lparr> reading := R \<rparr>) l = world_booked w l" "carry l (w\<lparr> reading := R \<rparr>) = carry l w"
  "balanced (w\<lparr> reading := R \<rparr>) = balanced w"
  by (simp_all add: world_booked_def viewers_hold_def carry_def balanced_def)

lemma world_ok_reading [simp]: "world_ok (w\<lparr> reading := R \<rparr>) = world_ok w"
  by (simp add: world_ok_def)

lemma carry_same:
  assumes "world_booked w l" "automation_enabled (wm_state w') = automation_enabled (wm_state w)" "viewers_hold w' = viewers_hold w"
  shows "carry l w' = l"
proof -
  have "swallowed l \<inter> viewers_hold w = swallowed l" "orphaned l - viewers_hold w = orphaned l"
    using assms(1) by (auto simp: world_booked_def)
  with assms show ?thesis by (auto simp: carry_def world_booked_def)
qed

lemma booked_wm:
  assumes "world_booked w l" "wm_ok wm'" "automation_enabled wm' = automation_enabled (wm_state w)"
    "seat_holds (seat_state wm') Injected = seat_holds (seat_state (wm_state w)) Injected"
  shows "world_booked (w\<lparr> wm_state := wm' \<rparr>) (carry l (w\<lparr> wm_state := wm' \<rparr>))"
  using assms carry_same [OF assms(1), of "w\<lparr> wm_state := wm' \<rparr>"] by (simp add: world_booked_alt viewers_hold_down)

lemma world_message_other:
  assumes ok: "world_booked w l" and m: "sessions (srv_state w) i = Some mine"
    and ev: "held_transition ev = None" "wm_inject_input (wm_state w) ev True = (wm', b)"
  shows "world_booked (put_session w i (inner (srv_state w), mine, wm')) (carry l (put_session w i (inner (srv_state w), mine, wm')))"
    "automation_enabled wm' = automation_enabled (wm_state w)"
proof -
  have "wm_ok (wm_state w)" using ok by (simp add: world_booked_alt)
  from wm_inject_other [OF this ev] booked_wm [OF ok, of wm'] show
    "world_booked (put_session w i (inner (srv_state w), mine, wm')) (carry l (put_session w i (inner (srv_state w), mine, wm')))"
    "automation_enabled wm' = automation_enabled (wm_state w)"
    by (simp_all add: put_session_same [OF m] seat_holds_def)
qed

lemma world_message:
  assumes ok: "world_booked w l" and m: "sessions (srv_state w) i = Some mine"
    and msg: "session_message seat_api None msg (inner (srv_state w), mine, wm_state w) = (st, go)"
  shows "world_booked (put_session w i st) (carry l (put_session w i st)) \<and>
    automation_enabled (wm_state (put_session w i st)) = automation_enabled (wm_state w)"
proof -
  have "wm_ok (wm_state w)" using ok by (simp add: world_booked_alt)
  with booked_wm [OF ok, of "wm_state w"]
  have same: "world_booked (put_session w i (inner (srv_state w), mine, wm_state w)) (carry l (put_session w i (inner (srv_state w), mine, wm_state w)))"
    by (simp add: put_session_same [OF m])
  have held: ?thesis
    if "(case transition_then (inner (srv_state w)) mine h p
           (session_inject seat_api None (raw_of h p)) (wm_state w) of
         (inn', mine', w', r) \<Rightarrow> ((inn', mine', w'), r \<noteq> Some False)) = (st, go)" for h p
    using that world_held_step [OF ok m refl] by (auto simp: put_session_def split: prod.splits)
  show ?thesis
  proof (cases msg)
    case (Key k p)
    with msg held [of "held.Key k" p] show ?thesis by (simp add: session_message_def)
  next
    case (PointerButton b p)
    with msg held [of "held.Button b" p] show ?thesis by (simp add: session_message_def)
  next
    case (PointerMotion x y)
    obtain wm' b where i: "wm_inject_input (wm_state w) (RawMotion x y) True = (wm', b)" by fastforce
    with msg PointerMotion have "st = (inner (srv_state w), mine, wm')"
      by (simp add: session_message_def session_inject_def seat_api_def)
    with world_message_other [OF ok m _ i] show ?thesis by (simp add: put_session_def)
  next
    case (PointerAxis h v wheel)
    obtain wm' b where i: "wm_inject_input (wm_state w) (RawAxis h v wheel) True = (wm', b)" by fastforce
    with msg PointerAxis have "st = (inner (srv_state w), mine, wm')"
      by (simp add: session_message_def session_inject_def seat_api_def)
    with world_message_other [OF ok m _ i] show ?thesis by (simp add: put_session_def)
  qed (use msg same in \<open>auto simp: session_message_def seat_api_def put_session_def\<close>)
qed

lemma world_end:
  assumes ok: "world_booked w l" and m: "sessions (srv_state w) i = Some mine"
    and e: "session_end seat_api None (inner (srv_state w), mine, wm_state w) = (inn, mine', wm)"
  defines "w' \<equiv> w\<lparr> srv_state := (srv_state w)\<lparr> inner := inn,
            sessions := (sessions (srv_state w))(i := None) \<rparr>, wm_state := wm \<rparr>"
  shows "world_booked w' (carry l w') \<and> automation_enabled wm = automation_enabled (wm_state w)"
proof -
  let ?srv = "srv_state w" and ?down = "srv_rel (srv_state w) i"
  have s: "srv_ok ?srv" and wm: "wm_ok (wm_state w)"
    and inj: "seat_holds (seat_state (wm_state w)) Injected = seat_code ` ((srv.down ?srv - swallowed l) \<union> orphaned l)"
    and sub: "swallowed l \<subseteq> srv.down ?srv" "orphaned l \<inter> srv.down ?srv = {}"
    using ok by (auto simp: world_booked_alt)
  from end_then_srv [OF m, of "release_held seat_api True" "wm_state w" inn mine' wm] e
  have srv': "?srv\<lparr> inner := inn, sessions := (sessions ?srv)(i := None) \<rparr> = fst ?down"
    and wm': "wm = release_held seat_api True (snd ?down) (wm_state w)"
    by (auto simp: session_end_def)
  have s': "srv_ok (fst ?down)" by (rule srv.rel_inv [OF s])
  have img: "seat_code ` (A - B) = seat_code ` A - seat_code ` B" for A B by auto
  have books: "(srv.down (fst ?down) - swallowed l) \<union> (orphaned l - srv.down (fst ?down)) =
      ((srv.down ?srv - swallowed l) \<union> orphaned l) - set (snd ?down)"
    using srv.down_rel [OF s, of i] srv.rel_subset [OF s, of i] sub(2) by auto
  have off: "wm = wm_state w" if "\<not> automation_enabled (wm_state w)" using that wm' by (simp add: release_held_off)
  have on: "wm_ok wm \<and> automation_enabled wm \<and> seat_holds (seat_state wm) Injected =
      seat_code ` ((srv.down (fst ?down) - swallowed l) \<union> (orphaned l - srv.down (fst ?down)))"
    if "automation_enabled (wm_state w)"
    using release_held_on [OF that wm, of True "snd ?down"] inj by (simp only: wm' books img)
  have e: "automation_enabled wm = automation_enabled (wm_state w)" using on off by blast
  have "wm_ok wm" using on off wm by (cases "automation_enabled (wm_state w)") auto
  then have "world_booked w' (carry l w')"
    by (rule booked_change [OF s' _ e ok]) (use on off srv' in \<open>simp_all add: w'_def\<close>)
  with e show ?thesis by blast
qed

lemma own_devices:
  "release_devices s rep ds = (s', rep', cs) \<Longrightarrow> own_input s' Injected = own_input s Injected"
proof (induction ds arbitrary: s rep s' rep' cs)
  case Nil
  then show ?case by simp
next
  case (Cons d ds)
  obtain s1 rep1 as where d: "release_device_input s rep d = (s1, rep1, as)" by (metis prod_cases3)
  have "own_input s1 Injected = own_input s Injected"
    using own_release [of s "Physical d" Injected] d
    by (auto simp: release_device_input_def release_held_by_def Let_def split: prod.splits)
  with Cons.IH [of s1 rep1] Cons.prems d show ?case by (auto split: prod.splits)
qed

lemma seat_step_physical:
  assumes "physical_event e" "seat_step (s, rep) e = ((s', rep'), cs)"
  shows "own_input s' Injected = own_input s Injected"
proof (cases e)
  case (KeyboardKey d k p)
  with assms own_note [of s "Physical d" KeyKind k p Injected] show ?thesis
    by (auto simp: handle_keyboard_event_def seat_key_def split: prod.splits)
next
  case (PointerButtonEv d k p)
  with assms own_note [of s "Physical d" ButtonKind k p Injected] show ?thesis
    by (auto simp: handle_pointer_button_def seat_button_def split: prod.splits)
next
  case (DeviceRemoved d)
  with assms own_devices [of s rep "[d]"] show ?thesis by (auto split: prod.splits)
next
  case HostFocusLost
  with assms show ?thesis by (auto simp: host_focus_lost_def split: prod.splits dest: own_devices)
qed (use assms in simp_all)

lemma world_local:
  assumes ok: "world_booked w l" and e: "physical_event e"
  shows "world_booked (w\<lparr> wm_state := wm_local (wm_state w) e \<rparr>) (carry l (w\<lparr> wm_state := wm_local (wm_state w) e \<rparr>))"
proof -
  have wm: "wm_ok (wm_state w)" using ok by (simp add: world_booked_alt)
  then have s: "seat_ok (seat_state (wm_state w))" by (simp add: wm_ok_def)
  obtain s' rep' cs where st:
    "seat_step (seat_state (wm_state w), repeat_key (wm_state w)) e = ((s', rep'), cs)"
    by (metis surj_pair)
  show ?thesis
    by (rule booked_wm [OF ok])
       (use wm_ok_step_rep [OF wm seat_step_exact [OF s st]] seat_step_physical [OF e st] in
         \<open>simp_all add: wm_local_def st seat_holds_def\<close>)
qed

lemma world_gate_off:
  assumes ok: "world_booked w l"
  defines "w' \<equiv> w\<lparr> wm_state := wm_set_automation (wm_state w) False \<rparr>"
  shows "world_booked w' (carry l w')"
proof -
  let ?wm = "wm_state w"
  have wm: "wm_ok ?wm" using ok by (simp add: world_booked_alt)
  then have s: "seat_ok (seat_state ?wm)" by (simp add: wm_ok_def)
  obtain s' rep' cs where r: "release_injected_input (seat_state ?wm) (repeat_key ?wm) = (s', rep', cs)"
    by (metis prod_cases3)
  have e: "seat_exact (seat_state ?wm) s' cs"
    using seat_exact_rel [OF s] r by (simp add: release_injected_input_def)
  have "own_input s' Injected = held_input_default"
    using own_release [of "seat_state ?wm" Injected Injected] r
    by (auto simp: release_injected_input_def release_held_by_def Let_def split: prod.splits)
  then have "seat_holds s' Injected = {}" by (simp add: seat_holds_def)
  with ok wm_ok_step_rep [OF wm e] r show ?thesis
    by (simp add: w'_def world_booked_alt wm_set_automation_def Let_def wm_ok_def carry_def viewers_hold_down)
qed

lemma world_gate_on:
  assumes ok: "world_booked w l"
  defines "w' \<equiv> w\<lparr> wm_state := wm_set_automation (wm_state w) True \<rparr>"
  shows "world_booked w' (carry l w')"
proof -
  have "swallowed l \<inter> srv.down (srv_state w) = swallowed l" "orphaned l - srv.down (srv_state w) = orphaned l"
    using ok by (auto simp: world_booked_alt)
  with ok show ?thesis by (simp add: w'_def world_booked_alt wm_set_automation_def carry_def viewers_hold_down wm_ok_def)
qed

lemma world_reset:
  assumes ok: "world_booked w l" and room: "counts_generation (inner (srv_state w)) \<noteq> - 1"
  shows "world_booked (fst (ledger_step (w, l) ServerReset)) (snd (ledger_step (w, l) ServerReset))"
proof -
  have "srv_ok (srv_state w)" using ok by (simp add: world_booked_def)
  note R = srv_reset_spec [OF this room]
  with ok show ?thesis
    by (auto simp: ledger_step_def Let_def world_booked_def viewers_hold_def)
qed

lemma carried: "e \<noteq> ServerReset \<Longrightarrow> ledger_step (w, l) e = (world_step w e, carry l (world_step w e))"
  by (simp add: ledger_step_def carry_def Let_def)

lemma ledger_step_booked:
  assumes ok: "world_booked w l" and adm: "world_admissible w e"
  shows "world_booked (fst (ledger_step (w, l) e)) (snd (ledger_step (w, l) e))"
proof (cases "e = ServerReset")
  case True
  with world_reset [OF ok] adm show ?thesis by (simp add: world_admissible_def)
next
  case False
  have srv: "srv_ok (srv_state w)" and wm: "wm_ok (wm_state w)" using ok by (auto simp: world_booked_alt)
  note keep = booked_wm [OF ok wm refl refl]
  have "world_booked (world_step w e) (carry l (world_step w e))"
  proof (cases e)
    case (Connect i)
    with adm have "sessions (srv_state w) i = None" by (simp add: world_admissible_def)
    note S = srv_start_spec [OF srv this]
    then have "carry l (world_step w e) = l" by (intro carry_same [OF ok]) (simp_all add: Connect viewers_hold_def)
    with S ok Connect show ?thesis by (simp add: world_booked_def viewers_hold_def)
  next
    case (ClientSends i m)
    with keep world_message [OF ok] show ?thesis by (auto split: option.splits prod.splits)
  next
    case (LoopEnds i)
    show ?thesis
    proof (cases "sessions (srv_state w) i")
      case None
      with keep LoopEnds show ?thesis by simp
    next
      case (Some mine)
      obtain inn mine' wm where e: "session_end seat_api None (inner (srv_state w), mine, wm_state w)
          = (inn, mine', wm)" by (metis prod_cases3)
      from world_end [OF ok Some e] Some e LoopEnds show ?thesis by simp
    qed
  next
    case (LocalInput ev)
    with ok adm show ?thesis by (simp add: world_local world_admissible_def)
  next
    case GateOff
    with ok show ?thesis by (simp add: world_gate_off)
  next
    case GateOn
    with ok show ?thesis by (simp add: world_gate_on)
  qed (use False in simp)
  with False show ?thesis by (simp add: carried)
qed

interpretation serving: stepper ledger_step "\<lambda>(w, l). world_booked w l" "\<lambda>(w, l). world_admissible w"
  by unfold_locales (use ledger_step_booked in \<open>fastforce split: prod.splits\<close>)

lemma own_input_new [simp]: "own_input seat_held_default src = held_input_default"
  by (simp add: own_input_def seat_held_default_def split: input_source.splits)

lemma world_new_booked: "world_booked world_new (balanced world_new)"
  by (auto simp: world_booked_def balanced_def world_new_def seat_ok_default srv_ok_def count_of_def holders_def
        srv_holds_def holds_new_def seat_holds_def viewers_hold_def)

section \<open>Properties\<close>


text \<open>
  The witness: a press while the gate is on, the gate off and on before the server noticed, and
  another viewer's press of the same key, which is swallowed, then of another key, which arrives.
\<close>

lemma ledger_worlds: "fst (foldl ledger_step (w, l) es) = foldl world_step w es"
  by (induction es arbitrary: w l) (simp_all add: ledger_step_def Let_def)

fun worlds_admissible :: "world \<Rightarrow> world_event list \<Rightarrow> bool" where
  "worlds_admissible w [] = True"
| "worlds_admissible w (e # es) = (world_admissible w e \<and> worlds_admissible (world_step w e) es)"

lemma ledger_admissible: "serving.admissible_run (w, l) es = worlds_admissible w es"
proof (induction es arbitrary: w l)
  case (Cons e es)
  obtain l' where "ledger_step (w, l) e = (world_step w e, l')" by (simp add: ledger_step_def Let_def)
  with Cons show ?case by simp
qed simp


lemma world_ok_message:
  assumes "world_ok w" "sessions (srv_state w) i = Some mine"
    and "session_message seat_api None msg (inner (srv_state w), mine, wm_state w) = (st, go)"
  shows "world_ok (put_session w i st)"
proof -
  have b: "world_booked w (balanced w)" using assms(1) by (simp add: world_ok_def)
  from world_message [OF b assms(2,3)] carry_balanced [of "put_session w i st" w] show ?thesis by (simp add: world_ok_def)
qed

lemma world_ok_end:
  assumes "world_ok w" "sessions (srv_state w) i = Some mine"
    and "session_end seat_api None (inner (srv_state w), mine, wm_state w) = (inn, mine', wm)"
  shows "world_ok (w\<lparr> srv_state := (srv_state w)\<lparr> inner := inn,
            sessions := (sessions (srv_state w))(i := None) \<rparr>, wm_state := wm \<rparr>)" (is "world_ok ?w")
proof -
  have b: "world_booked w (balanced w)" using assms(1) by (simp add: world_ok_def)
  from world_end [OF b assms(2,3)] carry_balanced [of ?w w] show ?thesis by (simp add: world_ok_def)
qed

lemma session_loop_ok:
  assumes "world_ok (put_session w i st)"
  shows "world_ok (put_session w i (session_loop seat_api None ms st))"
  using assms
proof (induction ms arbitrary: st)
  case Nil
  then show ?case by simp
next
  case (Cons m ms)
  obtain inn mine wm where st: "st = (inn, mine, wm)" by (cases st) auto
  obtain st' go where m: "session_message seat_api None m st = (st', go)" by fastforce
  let ?w = "put_session w i st"
  have "session_message seat_api None m (inner (srv_state ?w), mine, wm_state ?w) = (st', go)"
    using m st by (simp add: put_session_def)
  moreover have "sessions (srv_state ?w) i = Some mine" by (simp add: st put_session_def)
  ultimately have "world_ok (put_session ?w i st')"
    by (intro world_ok_message [OF Cons.prems])
  moreover have "put_session ?w i st' = put_session w i st'"
    by (simp add: put_session_def st split: prod.splits)
  ultimately show ?case using Cons.IH [of st'] m Cons.prems by simp
qed

lemma srv_holds_empty: "sessions s = Map.empty \<Longrightarrow> srv_holds s = (\<lambda>_. {})"
  by (simp add: srv_holds_def fun_eq_iff)

lemma srv_counts_empty:
  assumes "srv_ok s" "sessions s = Map.empty"
  shows "counts (inner s) = Map.empty"
proof
  fix h
  from assms have "count_of (counts (inner s)) h = 0" "counts (inner s) h \<noteq> Some 0"
    by (auto simp: srv_ok_def holders_def srv_holds_empty)
  then show "counts (inner s) h = None" by (auto simp: count_of_def split: option.splits)
qed

lemma world_ok_single:
  assumes "wm_ok wm" "seat_holds (seat_state wm) Injected = {}"
  shows "world_ok (put_session \<lparr> srv_state = \<lparr> inner = holds_new, sessions = Map.empty \<rparr>,
    wm_state = wm, reading = {} \<rparr> 0 (holds_new, new_session holds_new, wm))"
  using assms
  by (auto simp: world_ok_def world_booked_def balanced_def put_session_def holds_new_def new_session_def srv_ok_def wm_ok_def
        holders_def srv_holds_def count_of_def viewers_hold_def split: if_splits)

text \<open>C5. A session takes back what it pressed. Whatever bytes a viewer sends while it is the
  only one, malformed and truncated ones included: when its session has ended, with the gate
  on, no count is left and the seat has nothing down for injection.\<close>

theorem session_leaves_nothing:
  assumes "wm_ok wm" "seat_holds (seat_state wm) Injected = {}"
    and "forward_input seat_api None stream holds_new wm = (inn, mine, wm')"
  shows "counts inn = Map.empty \<and> seat_holds (seat_state wm') Injected = {}"
proof -
  let ?w = "\<lparr> srv_state = \<lparr> inner = holds_new, sessions = Map.empty \<rparr>, wm_state = wm, reading = {} \<rparr>"
  let ?ms = "receive decode_client stream"
  let ?st = "session_loop seat_api None ?ms (holds_new, new_session holds_new, wm)"
  obtain inn1 mine1 wm1 where st: "?st = (inn1, mine1, wm1)" by (metis prod_cases3)
  let ?w1 = "put_session ?w 0 (inn1, mine1, wm1)"
  have w1: "world_ok ?w1"
    using session_loop_ok [OF world_ok_single [OF assms(1,2)], of ?ms] st by simp
  have m: "sessions (srv_state ?w1) 0 = Some mine1" by (simp add: put_session_def)
  have "session_end seat_api None (inner (srv_state ?w1), mine1, wm_state ?w1) = (inn, mine, wm')"
    using assms(3) st by (simp add: forward_input_def put_session_def)
  from world_ok_end [OF w1 m this]
  have ok: "world_ok \<lparr> srv_state = \<lparr> inner = inn, sessions = Map.empty \<rparr>, wm_state = wm', reading = {} \<rparr>"
    by (simp add: put_session_def)
  then have "counts inn = Map.empty"
    using srv_counts_empty [of "\<lparr> inner = inn, sessions = Map.empty \<rparr>"] by (simp add: world_ok_def world_booked_def)
  moreover have "seat_holds (seat_state wm') Injected = {}"
    using ok by (simp add: world_ok_def world_booked_def balanced_def viewers_hold_def srv_holds_empty split: if_splits)
  ultimately show ?thesis ..
qed

theorem session_leaves_nothing_witness:
  "let stream = frame_of (encode_client [] (client_message.Key 42 True)) @ [1, 0, 0];
     wm = \<lparr> automation_enabled = True, seat_state = seat_held_default, repeat_key = None,
             seat_calls = [] \<rparr>;
     (inn, mine, wm') = forward_input seat_api None stream holds_new wm
   in counts inn = Map.empty \<and> seat_holds (seat_state wm') Injected = {} \<and>
      seat_calls wm' = [ProcessKey 50 True, ProcessKey 50 False]"
proof -
  let ?stream = "frame_of (encode_client [] (client_message.Key 42 True)) @ [1, 0, 0]"
  let ?wm = "\<lparr> automation_enabled = True, seat_state = seat_held_default, repeat_key = None,
             seat_calls = [] \<rparr>"
  let ?r = "forward_input seat_api None ?stream holds_new ?wm"
  have ok: "wm_ok ?wm" "seat_holds (seat_state ?wm) Injected = {}"
    by (simp_all add: wm_ok_def seat_ok_default seat_holds_def)
  have "receive decode_client [1, 0, 0] = []"
    by (rule receive_error) (auto simp: read_framed_def)
  then have msgs: "receive decode_client ?stream = [client_message.Key 42 True]"
    using client.receive_items [of "[Known (client_message.Key 42 True)]" "[1, 0, 0]"]
    by (simp add: fits_frame_def MAX_MESSAGE_LEN_def wire_simps)
  have "seat_calls (snd (snd (session_end seat_api None (session_loop seat_api None
      [client_message.Key 42 True] (holds_new, new_session holds_new, ?wm)))))
      = [ProcessKey 50 True, ProcessKey 50 False]"
    by code_simp
  then have calls: "seat_calls (snd (snd ?r)) = [ProcessKey 50 True, ProcessKey 50 False]"
    by (simp only: forward_input_def msgs)
  obtain inn mine wm' where r: "?r = (inn, mine, wm')" by (metis prod_cases3)
  from session_leaves_nothing [OF ok r] calls r show ?thesis by (simp add: Let_def)
qed

text \<open>A gate that goes off and on again before the server starts a new generation loses a
  press. The server resets its counts only if it finds the gate off when it wakes
  (\<open>run_supervisor\<close>); after off and on it finds it on, and a session from before that has
  not ended (its viewer stopped reading) still counts for the key it held. The next viewer to
  press that key holds it, with the gate on, and the seat does not have it down.\<close>

theorem quick_toggle_loses_press:
  "let w = foldl world_step world_new
       [GateOn, Connect 0, ClientSends 0 (client_message.Key 42 True), GateOff, GateOn,
        Connect 1, ClientSends 1 (client_message.Key 42 True)]
   in held.Key 42 \<in> srv_holds (srv_state w) 1 \<and> 1 \<in> reading w \<and>
      automation_enabled (wm_state w) \<and>
      x_keycode 42 \<notin> keys (own_input (seat_state (wm_state w)) Injected)"
  by code_simp

text \<open>The viewer count the window manager is told, last, is the number of sessions of this
  generation whose guard is alive, whatever order sessions join, drop their guards and the
  gate closes in; a session from before the gate closed changes nothing.\<close>

theorem reported_viewers_exact:
  assumes "viewing.admissible_run viewer_world_new es"
  shows "unat (last (0 # reports (foldl viewer_step viewer_world_new es))) =
    current_guards (foldl viewer_step viewer_world_new es)"
proof -
  have "viewer_ok viewer_world_new"
    by (simp add: viewer_ok_def viewer_world_new_def viewers_new_def current_guards_def)
  from viewing.run_inv [OF this assms] show ?thesis by (simp add: viewer_ok_def)
qed

theorem reported_viewers_exact_witness:
  "let w = foldl viewer_step viewer_world_new [Join 1, GateClosed, Join 2, Leave 1]
   in unat (last (0 # reports w)) = current_guards w \<and> reports w = [1, 0, 1]"
proof -
  have "viewing.admissible_run viewer_world_new [Join 1, GateClosed, Join 2, Leave 1]"
    by (simp add: viewer_room_def viewer_world_new_def viewers_new_def viewers_join_def
          viewers_reset_def Let_def)
  from reported_viewers_exact [OF this]
  have "unat (last (0 # reports (foldl viewer_step viewer_world_new [Join 1, GateClosed, Join 2, Leave 1]))) =
    current_guards (foldl viewer_step viewer_world_new [Join 1, GateClosed, Join 2, Leave 1])" .
  moreover have "reports (foldl viewer_step viewer_world_new [Join 1, GateClosed, Join 2, Leave 1]) = [1, 0, 1]"
    by code_simp
  ultimately show ?thesis by (simp only: Let_def simp_thms)
qed

section \<open>The choice of a window\<close>

text \<open>How well a window matches a selector, best first.\<close>

definition match_rank :: "bytes \<Rightarrow> window_info \<Rightarrow> nat" where
  "match_rank sel w =
    (if win_id w = sel then 0 else if win_app_id w = sel then 1
     else if contains (win_app_id w) sel then 2 else if contains (win_title w) sel then 3 else 4)"

definition z_of :: "window_info \<Rightarrow> int" where
  "z_of w = (case win_z w of Some z \<Rightarrow> uint z | None \<Rightarrow> 0)"

lemma find_first_max:
  assumes "List.find P (sort_key (\<lambda>w. - z_of w) ws) = Some w"
  shows "w \<in> set ws \<and> P w \<and> (\<forall>v\<in>set ws. P v \<longrightarrow> z_of v \<le> z_of w)"
proof -
  let ?s = "sort_key (\<lambda>w. - z_of w) ws"
  from assms obtain i where i: "i < length ?s" "P (?s ! i)" "w = ?s ! i" "\<forall>j<i. \<not> P (?s ! j)"
    by (auto simp: find_Some_iff)
  have "z_of v \<le> z_of w" if v: "v \<in> set ws" "P v" for v
  proof -
    from v obtain j where j: "j < length ?s" "v = ?s ! j" by (metis in_set_conv_nth set_sort)
    with i v have "i \<le> j" by (metis not_le)
    with j i sorted_nth_mono [OF sorted_sort_key [of "\<lambda>w. - z_of w" ws], of i j] show ?thesis by simp
  qed
  moreover have "w \<in> set ws" using i by (metis nth_mem set_sort)
  ultimately show ?thesis using i by simp
qed

lemma find_none: "List.find P (sort_key f ws) = None \<longleftrightarrow> (\<forall>v\<in>set ws. \<not> P v)"
  by (auto simp: find_None_iff)

text \<open>A graft streams the window its selector means: the one with that id, else with that
  application id, else with it in the application id, else in the title, and among equals one
  that is on top. It is refused exactly when no window matches.\<close>

theorem graft_picks_best:
  "(case resolve_window ws sel of
      Some i \<Rightarrow> \<exists>w\<in>set ws. win_id w = i \<and> match_rank sel w < 4 \<and>
        (\<forall>v\<in>set ws. match_rank sel w < match_rank sel v \<or>
           match_rank sel w = match_rank sel v \<and> z_of v \<le> z_of w)
    | None \<Rightarrow> \<forall>v\<in>set ws. match_rank sel v = 4)"
proof -
  let ?find = "\<lambda>P. List.find P (sort_key (\<lambda>w. - z_of w) ws)"
  have r: "resolve_window ws sel = map_option win_id
      (or_else (?find (\<lambda>w. win_id w = sel)) (or_else (?find (\<lambda>w. win_app_id w = sel))
        (or_else (?find (\<lambda>w. contains (win_app_id w) sel)) (?find (\<lambda>w. contains (win_title w) sel)))))"
    by (simp add: resolve_window_def z_of_def Let_def)
  have best: "\<exists>w\<in>set ws. win_id w = win_id x \<and> match_rank sel w < 4 \<and>
        (\<forall>v\<in>set ws. match_rank sel w < match_rank sel v \<or>
           match_rank sel w = match_rank sel v \<and> z_of v \<le> z_of w)"
    if x: "?find P = Some x" and n: "n < 4" and lower: "\<forall>v\<in>set ws. n \<le> match_rank sel v"
      and rank: "\<forall>v\<in>set ws. match_rank sel v = n \<longrightarrow> P v" "\<forall>v\<in>set ws. P v \<longrightarrow> match_rank sel v \<le> n"
    for P n x
  proof -
    from find_first_max [OF x] have w: "x \<in> set ws" "P x" "\<forall>v\<in>set ws. P v \<longrightarrow> z_of v \<le> z_of x"
      by auto
    then have "match_rank sel x = n" using lower rank by (meson le_antisym)
    with w n lower rank show ?thesis by (metis le_neq_implies_less)
  qed
  consider (a) x where "?find (\<lambda>w. win_id w = sel) = Some x"
    | (b) x where "?find (\<lambda>w. win_id w = sel) = None" "?find (\<lambda>w. win_app_id w = sel) = Some x"
    | (c) x where "?find (\<lambda>w. win_id w = sel) = None" "?find (\<lambda>w. win_app_id w = sel) = None"
        "?find (\<lambda>w. contains (win_app_id w) sel) = Some x"
    | (d) x where "?find (\<lambda>w. win_id w = sel) = None" "?find (\<lambda>w. win_app_id w = sel) = None"
        "?find (\<lambda>w. contains (win_app_id w) sel) = None" "?find (\<lambda>w. contains (win_title w) sel) = Some x"
    | (e) "?find (\<lambda>w. win_id w = sel) = None" "?find (\<lambda>w. win_app_id w = sel) = None"
        "?find (\<lambda>w. contains (win_app_id w) sel) = None" "?find (\<lambda>w. contains (win_title w) sel) = None"
    by (meson not_Some_eq)
  then show ?thesis
  proof cases
    case a
    note hit = best [OF a, of 0]
    have "\<exists>w\<in>set ws. win_id w = win_id x \<and> match_rank sel w < 4 \<and>
        (\<forall>v\<in>set ws. match_rank sel w < match_rank sel v \<or>
           match_rank sel w = match_rank sel v \<and> z_of v \<le> z_of w)"
      by (rule hit) (use a in \<open>auto simp: match_rank_def find_none\<close>)
    with a show ?thesis by (simp add: r or_else_def)
  next
    case b
    note hit = best [OF b(2), of 1]
    have "\<exists>w\<in>set ws. win_id w = win_id x \<and> match_rank sel w < 4 \<and>
        (\<forall>v\<in>set ws. match_rank sel w < match_rank sel v \<or>
           match_rank sel w = match_rank sel v \<and> z_of v \<le> z_of w)"
      by (rule hit) (use b in \<open>auto simp: match_rank_def find_none\<close>)
    with b show ?thesis by (simp add: r or_else_def)
  next
    case c
    note hit = best [OF c(3), of 2]
    have "\<exists>w\<in>set ws. win_id w = win_id x \<and> match_rank sel w < 4 \<and>
        (\<forall>v\<in>set ws. match_rank sel w < match_rank sel v \<or>
           match_rank sel w = match_rank sel v \<and> z_of v \<le> z_of w)"
      by (rule hit) (use c in \<open>auto simp: match_rank_def find_none\<close>)
    with c show ?thesis by (simp add: r or_else_def)
  next
    case d
    note hit = best [OF d(4), of 3]
    have "\<exists>w\<in>set ws. win_id w = win_id x \<and> match_rank sel w < 4 \<and>
        (\<forall>v\<in>set ws. match_rank sel w < match_rank sel v \<or>
           match_rank sel w = match_rank sel v \<and> z_of v \<le> z_of w)"
      by (rule hit) (use d in \<open>auto simp: match_rank_def find_none\<close>)
    with d show ?thesis by (simp add: r or_else_def)
  next
    case e
    then have all: "\<forall>v\<in>set ws. match_rank sel v = 4" by (simp add: find_none match_rank_def)
    from e show ?thesis by (simp add: r or_else_def all)
  qed
qed

theorem graft_picks_best_witness:
  "let ws = [\<lparr> win_id = [1], win_app_id = [7, 8], win_title = [5], win_z = Some 1 \<rparr>,
             \<lparr> win_id = [2], win_app_id = [8, 9], win_title = [5], win_z = Some 4 \<rparr>]
   in resolve_window ws [8] = Some [2] \<and>
      (\<exists>w\<in>set ws. win_id w = [2] \<and> match_rank [8] w < 4 \<and>
        (\<forall>v\<in>set ws. match_rank [8] w < match_rank [8] v \<or>
           match_rank [8] w = match_rank [8] v \<and> z_of v \<le> z_of w))"
proof -
  let ?ws = "[\<lparr> win_id = [1], win_app_id = [7, 8], win_title = [5], win_z = Some 1 \<rparr>,
             \<lparr> win_id = [2], win_app_id = [8, 9], win_title = [5], win_z = Some 4 \<rparr>] :: window_info list"
  have r: "resolve_window ?ws [8] = Some [2]" by code_simp
  from graft_picks_best [of ?ws "[8]"] show ?thesis
    unfolding r Let_def option.case by blast
qed

end
