(* ===== verification/Layout.thy ===== *)
theory Layout
  imports Prelude "HOL-Library.Signed_Division"
begin

text \<open>
  \<open>src/layout.rs\<close>: the rectangles of the tiling layouts, the per-window layout state with
  its saved rectangle and the minimized stack, and the transitions between floating, tiled,
  maximized and fullscreen. Coordinates are \<open>i32\<close>; the model computes in \<open>int\<close> with the
  truncating division of Rust (\<open>sdiv\<close>, \<open>smod\<close>), and the bounds proved of every rectangle
  keep each value the code computes between the edges of the output. Smithay's
  \<open>Space\<close> and \<open>Window\<close> are not part of the repository: they are a record of the operations
  the code calls, with \<open>space_laws\<close> what it relies on.
\<close>

section \<open>Rectangles\<close>

record rectangle =
  loc_x :: int
  loc_y :: int
  size_w :: int
  size_h :: int

definition rect_at :: "point \<Rightarrow> point \<Rightarrow> rectangle" where
  "rect_at l s = \<lparr> loc_x = fst l, loc_y = snd l, size_w = fst s, size_h = snd s \<rparr>"

definition rect_loc :: "rectangle \<Rightarrow> point" where "rect_loc r = (loc_x r, loc_y r)"
definition rect_size :: "rectangle \<Rightarrow> point" where "rect_size r = (size_w r, size_h r)"

definition rect_contains :: "rectangle \<Rightarrow> point \<Rightarrow> bool" where
  "rect_contains r p \<longleftrightarrow> fst p \<ge> loc_x r \<and> fst p < loc_x r + size_w r
     \<and> snd p \<ge> loc_y r \<and> snd p < loc_y r + size_h r"

datatype arrange_kind = Grid | Spiral | Bsp

text \<open>The \<open>for\<close> loop of \<open>even_spans\<close> from span \<open>i\<close>, with \<open>k\<close> spans to go.\<close>

fun spans_from :: "int \<Rightarrow> int \<Rightarrow> nat \<Rightarrow> int \<Rightarrow> int \<Rightarrow> (int \<times> int) list" where
  "spans_from base extra 0 i off = []"
| "spans_from base extra (Suc k) i off =
    (let ln = base + (if i < extra then 1 else 0)
     in (off, ln) # spans_from base extra k (i + 1) (off + ln))"

definition even_spans :: "int \<Rightarrow> int \<Rightarrow> (int \<times> int) list" where
  "even_spans tot parts =
    (let base = tot sdiv parts; extra = tot smod parts
     in spans_from base extra (nat parts) 0 0)"

text \<open>
  \<open>(n as f64).sqrt().floor()\<close>: the conversion is exact below \<open>2 ^ 53\<close> and \<open>sqrt\<close> is
  correctly rounded, so the floor is the integer square root.
\<close>

function isqrt_from :: "nat \<Rightarrow> nat \<Rightarrow> nat" where
  "isqrt_from n k = (if (k + 1) * (k + 1) \<le> n then isqrt_from n (k + 1) else k)"
  by pat_completeness auto
termination
proof (relation "measure (\<lambda>(n, k). n - k)")
  fix n k :: nat
  assume "(k + 1) * (k + 1) \<le> n"
  then have "k < n" by (metis Suc_eq_plus1 Suc_le_lessD le_square le_trans)
  then show "((n, k + 1), n, k) \<in> measure (\<lambda>(n, k). n - k)" by simp
qed simp

declare isqrt_from.simps [simp del]

definition isqrt :: "nat \<Rightarrow> nat" where "isqrt n = isqrt_from n 0"

fun grid_row :: "rectangle \<Rightarrow> int \<Rightarrow> int \<Rightarrow> (int \<times> int) list \<Rightarrow> rectangle list" where
  "grid_row usable y h [] = []"
| "grid_row usable y h ((x_off, w) # spans) =
    rect_at (loc_x usable + x_off, y) (w, h) # grid_row usable y h spans"

fun grid_rows :: "rectangle \<Rightarrow> int \<Rightarrow> int \<Rightarrow> int \<Rightarrow> (int \<times> int) list \<Rightarrow> rectangle list" where
  "grid_rows usable base_cols extra r [] = []"
| "grid_rows usable base_cols extra r ((y_off, h) # rows) =
    (let cols = base_cols + (if r < extra then 1 else 0)
     in (if cols = 0 then []
         else grid_row usable (loc_y usable + y_off) h (even_spans (size_w usable) cols))
        @ grid_rows usable base_cols extra (r + 1) rows)"

definition grid_rects :: "rectangle \<Rightarrow> nat \<Rightarrow> rectangle list" where
  "grid_rects usable n =
    (if n = 0 then []
     else let n_i = int n;
              rows = max (int (isqrt n)) 1;
              base_cols = n_i sdiv rows;
              extra = n_i smod rows
          in grid_rows usable base_cols extra 0 (even_spans (size_h usable) rows))"

definition halves :: "int \<Rightarrow> int \<times> int" where
  "halves ln = (let first = ln sdiv 2 in (first, ln - first))"

definition split_once :: "rectangle \<Rightarrow> nat \<Rightarrow> bool \<Rightarrow> rectangle \<times> rectangle" where
  "split_once rest i spin =
    (let vertical = (i mod 2 = 0);
         keep_first = (\<not> spin \<or> i mod 4 < 2)
     in if vertical then
          (let (lw, rw) = halves (size_w rest);
               left = rect_at (rect_loc rest) (lw, size_h rest);
               right = rect_at (loc_x rest + lw, loc_y rest) (rw, size_h rest)
           in if keep_first then (left, right) else (right, left))
        else
          (let (th, bh) = halves (size_h rest);
               top' = rect_at (rect_loc rest) (size_w rest, th);
               bottom = rect_at (loc_x rest, loc_y rest + th) (size_w rest, bh)
           in if keep_first then (top', bottom) else (bottom, top')))"

text \<open>The loop of \<open>split_rects\<close> from step \<open>i\<close>, with \<open>k\<close> windows to go.\<close>

fun split_from :: "rectangle \<Rightarrow> nat \<Rightarrow> nat \<Rightarrow> bool \<Rightarrow> rectangle list" where
  "split_from rest i 0 spin = []"
| "split_from rest i (Suc 0) spin = [rest]"
| "split_from rest i (Suc (Suc k)) spin =
    (let (mine, next) = split_once rest i spin in mine # split_from next (i + 1) (Suc k) spin)"

definition split_rects :: "rectangle \<Rightarrow> nat \<Rightarrow> bool \<Rightarrow> rectangle list" where
  "split_rects usable n spin = split_from usable 0 n spin"

definition arrange_rects :: "rectangle \<Rightarrow> nat \<Rightarrow> arrange_kind \<Rightarrow> rectangle list" where
  "arrange_rects usable n kind = (case kind of
     Grid \<Rightarrow> grid_rects usable n
   | Spiral \<Rightarrow> split_rects usable n True
   | Bsp \<Rightarrow> split_rects usable n False)"

section \<open>Splitting a length\<close>

text \<open>
  The contract of a one-dimensional split: the spans start at 0, follow each other without a
  gap, none is negative and they end at the tot.
\<close>

fun contiguous :: "int \<Rightarrow> (int \<times> int) list \<Rightarrow> int \<Rightarrow> bool" where
  "contiguous off [] tot \<longleftrightarrow> off = tot"
| "contiguous off ((o', ln) # spans) tot \<longleftrightarrow>
     o' = off \<and> 0 \<le> ln \<and> contiguous (off + ln) spans tot"

definition in_span :: "int \<Rightarrow> int \<times> int \<Rightarrow> bool" where
  "in_span c s \<longleftrightarrow> fst s \<le> c \<and> c < fst s + snd s"

lemma in_span_simp [simp]: "in_span c (o', ln) \<longleftrightarrow> o' \<le> c \<and> c < o' + ln"
  by (simp add: in_span_def)

lemma contiguous_le: "contiguous off spans tot \<Longrightarrow> off \<le> tot"
  by (induction off spans tot rule: contiguous.induct) auto

lemma contiguous_bounds:
  "contiguous off spans tot \<Longrightarrow> s \<in> set spans \<Longrightarrow> off \<le> fst s \<and> 0 \<le> snd s \<and> fst s + snd s \<le> tot"
proof (induction off spans tot rule: contiguous.induct)
  case (2 off o' ln spans tot)
  then show ?case using contiguous_le [of "off + ln" spans tot] by auto
qed simp

lemma contiguous_count:
  "contiguous off spans tot \<Longrightarrow>
     length (filter (in_span c) spans) = (if off \<le> c \<and> c < tot then 1 else 0)"
proof (induction off spans tot rule: contiguous.induct)
  case (2 off o' ln spans tot)
  then show ?case using contiguous_le [of "off + ln" spans tot]
    by auto
qed simp

text \<open>
  An exact partition of a rectangle: every piece lies within it with a non-negative size,
  and every point of it is in exactly one piece.
\<close>

definition within :: "rectangle \<Rightarrow> rectangle \<Rightarrow> bool" where
  "within r u \<longleftrightarrow> 0 \<le> size_w r \<and> 0 \<le> size_h r \<and> loc_x u \<le> loc_x r \<and> loc_y u \<le> loc_y r \<and>
     loc_x r + size_w r \<le> loc_x u + size_w u \<and> loc_y r + size_h r \<le> loc_y u + size_h u"

definition times_covered :: "rectangle list \<Rightarrow> point \<Rightarrow> nat" where
  "times_covered rs p = length (filter (\<lambda>r. rect_contains r p) rs)"

definition splits_exactly :: "rectangle list \<Rightarrow> rectangle \<Rightarrow> bool" where
  "splits_exactly rs u \<longleftrightarrow> (\<forall>r\<in>set rs. within r u) \<and>
     (\<forall>p. times_covered rs p = (if rect_contains u p then 1 else 0))"

lemma rect_at_simps [simp]:
  "loc_x (rect_at l s) = fst l" "loc_y (rect_at l s) = snd l"
  "size_w (rect_at l s) = fst s" "size_h (rect_at l s) = snd s"
  by (simp_all add: rect_at_def)

lemma times_covered_simps [simp]:
  "times_covered [] p = 0"
  "times_covered (r # rs) p = (if rect_contains r p then 1 else 0) + times_covered rs p"
  "times_covered (rs @ qs) p = times_covered rs p + times_covered qs p"
  by (simp_all add: times_covered_def)

lemma within_trans: "within r u \<Longrightarrow> within u v \<Longrightarrow> within r v"
  by (auto simp: within_def)

text \<open>A partition of a piece of a partition refines the partition.\<close>

lemma splits_refine:
  assumes "splits_exactly [a, b] u" "splits_exactly rs b"
  shows "splits_exactly (a # rs) u"
  using assms by (fastforce simp: splits_exactly_def intro: within_trans)

lemma splits_within: "splits_exactly rs u \<Longrightarrow> r \<in> set rs \<Longrightarrow> within r u"
  by (simp add: splits_exactly_def)

lemma splits_swap: "splits_exactly [a, b] u \<Longrightarrow> splits_exactly [b, a] u"
  by (simp add: splits_exactly_def add.commute)

definition column :: "rectangle \<Rightarrow> int \<times> int \<Rightarrow> rectangle" where
  "column u s = rect_at (loc_x u + fst s, loc_y u) (snd s, size_h u)"

definition row :: "rectangle \<Rightarrow> int \<times> int \<Rightarrow> rectangle" where
  "row u s = rect_at (loc_x u, loc_y u + fst s) (size_w u, snd s)"

lemma times_covered_columns:
  "times_covered (map (column u) ss) p =
     (if loc_y u \<le> snd p \<and> snd p < loc_y u + size_h u
      then length (filter (in_span (fst p - loc_x u)) ss) else 0)"
  by (induction ss) (auto simp: column_def rect_contains_def)

lemma times_covered_rows:
  "times_covered (map (row u) ss) p =
     (if loc_x u \<le> fst p \<and> fst p < loc_x u + size_w u
      then length (filter (in_span (snd p - loc_y u)) ss) else 0)"
  by (induction ss) (auto simp: row_def rect_contains_def)

locale span_split =
  fixes spans :: "'a \<Rightarrow> int \<Rightarrow> (int \<times> int) list"
    and valid :: "'a \<Rightarrow> bool"
    and parts :: "'a \<Rightarrow> nat"
  assumes exact: "valid a \<Longrightarrow> 0 \<le> tot \<Longrightarrow> contiguous 0 (spans a tot) tot"
    and number: "valid a \<Longrightarrow> length (spans a tot) = parts a"
begin

lemma count: "valid a \<Longrightarrow> 0 \<le> tot \<Longrightarrow>
    length (filter (in_span c) (spans a tot)) = (if 0 \<le> c \<and> c < tot then 1 else 0)"
  using contiguous_count [OF exact] by simp

lemma bounds: "valid a \<Longrightarrow> 0 \<le> tot \<Longrightarrow> s \<in> set (spans a tot) \<Longrightarrow>
    0 \<le> fst s \<and> 0 \<le> snd s \<and> fst s + snd s \<le> tot"
  using contiguous_bounds [OF exact] by blast

text \<open>Splitting the width of a rectangle, or its height, partitions it.\<close>

lemma columns_exact:
  assumes "valid a" "0 \<le> size_w u" "0 \<le> size_h u"
  shows "splits_exactly (map (column u) (spans a (size_w u))) u"
  unfolding splits_exactly_def times_covered_columns count [OF assms(1,2)]
  using bounds [OF assms(1,2)] assms
  by (force simp: column_def within_def rect_contains_def)

lemma rows_exact:
  assumes "valid a" "0 \<le> size_w u" "0 \<le> size_h u"
  shows "splits_exactly (map (row u) (spans a (size_h u))) u"
  unfolding splits_exactly_def times_covered_rows count [OF assms(1,3)]
  using bounds [OF assms(1,3)] assms
  by (force simp: row_def within_def rect_contains_def)

end

lemma length_spans_from [simp]: "length (spans_from base extra k i off) = k"
  by (induction k arbitrary: i off) (simp_all add: Let_def)

lemma contiguous_spans_from:
  "0 \<le> base \<Longrightarrow> contiguous off (spans_from base extra k i off)
     (off + base * int k + (max 0 (min (int k) (extra - i))))"
proof (induction k arbitrary: i off)
  case 0
  then show ?case by simp
next
  case (Suc k)
  let ?ln = "base + (if i < extra then 1 else 0)"
  from Suc.IH [of "off + ?ln" "i + 1"] Suc.prems
  have "contiguous (off + ?ln) (spans_from base extra k (i + 1) (off + ?ln))
     (off + ?ln + base * int k + max 0 (min (int k) (extra - (i + 1))))" by simp
  moreover have "off + ?ln + base * int k + max 0 (min (int k) (extra - (i + 1)))
     = off + base * int (Suc k) + max 0 (min (int (Suc k)) (extra - i))"
    by (auto simp: algebra_simps max_def min_def)
  ultimately show ?case using Suc.prems by (simp add: Let_def)
qed

lemma sdiv_smod_nonneg:
  "0 \<le> a \<Longrightarrow> 0 < (b :: int) \<Longrightarrow> a sdiv b = a div b \<and> a smod b = a mod b"
  by (simp add: signed_divide_int_def signed_modulo_int_def sgn_if)

lemma contiguous_even_spans:
  assumes "1 \<le> parts" "0 \<le> tot"
  shows "contiguous 0 (even_spans tot parts) tot"
proof -
  from assms have d: "tot sdiv parts = tot div parts" "tot smod parts = tot mod parts"
    using sdiv_smod_nonneg [of tot parts] by auto
  have "tot mod parts < parts" "0 \<le> tot mod parts" using assms by simp_all
  then have "max 0 (min (int (nat parts)) (tot mod parts)) = tot mod parts" by linarith
  then have "tot div parts * int (nat parts) + max 0 (min (int (nat parts)) (tot mod parts)) = tot"
    using assms by simp
  with contiguous_spans_from [of "tot div parts" 0 "tot mod parts" "nat parts" 0] assms
  show ?thesis by (simp add: even_spans_def d pos_imp_zdiv_nonneg_iff)
qed

interpretation even: span_split "\<lambda>parts tot. even_spans tot parts" "\<lambda>parts. 1 \<le> parts" nat
  by unfold_locales (simp_all add: contiguous_even_spans, simp add: even_spans_def)

definition half_spans :: "unit \<Rightarrow> int \<Rightarrow> (int \<times> int) list" where
  "half_spans _ ln = (case halves ln of (a, b) \<Rightarrow> [(0, a), (a, b)])"

interpretation half: span_split half_spans "\<lambda>_. True" "\<lambda>_. 2"
  by unfold_locales (auto simp: half_spans_def halves_def Let_def sdiv_smod_nonneg)

section \<open>The layouts partition the usable rectangle\<close>

lemma split_once_exact:
  assumes "0 \<le> size_w u" "0 \<le> size_h u" "split_once u i spin = (mine, next)"
  shows "splits_exactly [mine, next] u"
proof -
  have v: "splits_exactly [rect_at (rect_loc u) (fst (halves (size_w u)), size_h u),
      rect_at (loc_x u + fst (halves (size_w u)), loc_y u) (snd (halves (size_w u)), size_h u)] u"
    using half.columns_exact [where a = "()" and u = u] assms(1,2)
    by (simp add: half_spans_def column_def rect_loc_def split_beta)
  have h: "splits_exactly [rect_at (rect_loc u) (size_w u, fst (halves (size_h u))),
      rect_at (loc_x u, loc_y u + fst (halves (size_h u))) (size_w u, snd (halves (size_h u)))] u"
    using half.rows_exact [where a = "()" and u = u] assms(1,2)
    by (simp add: half_spans_def row_def rect_loc_def split_beta)
  from assms(3) v h splits_swap [OF v] splits_swap [OF h] show ?thesis
    by (auto simp: split_once_def Let_def split_beta split: if_splits)
qed

lemma split_from_exact:
  assumes "0 \<le> size_w u" "0 \<le> size_h u" "0 < n"
  shows "length (split_from u i n spin) = n \<and> splits_exactly (split_from u i n spin) u"
  using assms
proof (induction u i n spin rule: split_from.induct)
  case (1 u i spin)
  then show ?case by simp
next
  case (2 u i spin)
  then show ?case by (auto simp: splits_exactly_def within_def)
next
  case (3 u i k spin)
  obtain mine next' where o: "split_once u i spin = (mine, next')" by fastforce
  note ex = split_once_exact [OF 3(2,3) o]
  then have "0 \<le> size_w next'" "0 \<le> size_h next'" by (simp_all add: splits_exactly_def within_def)
  with 3(1) [OF o [symmetric] refl] have "length (split_from next' (i + 1) (Suc k) spin) = Suc k"
    "splits_exactly (split_from next' (i + 1) (Suc k) spin) next'" by auto
  with splits_refine [OF ex] show ?case by (simp add: o)
qed

lemma isqrt_from_le: "k * k \<le> n \<Longrightarrow> isqrt_from n k * isqrt_from n k \<le> n"
proof (induction n k rule: isqrt_from.induct)
  case (1 n k)
  then show ?case by (subst (1 2) isqrt_from.simps) auto
qed

lemma isqrt_le: "isqrt n * isqrt n \<le> n"
  unfolding isqrt_def by (rule isqrt_from_le) simp

lemma grid_row_map:
  "grid_row u y h ss = map (\<lambda>s. rect_at (loc_x u + fst s, y) (snd s, h)) ss"
  by (induction u y h ss rule: grid_row.induct) auto

lemma grid_row_columns:
  "grid_row u (loc_y u + o') h ss = map (column (row u (o', h))) ss"
  by (simp add: grid_row_map column_def row_def)

lemma grid_rows_exact:
  assumes "1 \<le> base" "0 \<le> size_w u" "contiguous off rows tot" "0 \<le> off" "tot \<le> size_h u"
  shows "(\<forall>r\<in>set (grid_rows u base extra i rows). within r u) \<and>
     (\<forall>p. times_covered (grid_rows u base extra i rows) p = times_covered (map (row u) rows) p) \<and>
     int (length (grid_rows u base extra i rows)) =
       base * int (length rows) + max 0 (min (int (length rows)) (extra - i))"
  using assms(3-)
proof (induction rows arbitrary: off i)
  case Nil
  then show ?case by simp
next
  case (Cons s rows)
  obtain y h where s: "s = (y, h)" by fastforce
  let ?cols = "base + (if i < extra then 1 else 0)"
  let ?row = "row u (y, h)"
  let ?rs = "map (column ?row) (even_spans (size_w u) ?cols)"
  have cols: "1 \<le> ?cols" using assms(1) by simp
  have y: "y = off" "0 \<le> h" "contiguous (off + h) rows tot" using Cons.prems(1) by (auto simp: s)
  have le: "off + h \<le> tot" by (rule contiguous_le [OF y(3)])
  have sz: "size_w ?row = size_w u" "size_h ?row = h" by (simp_all add: row_def)
  have ex: "splits_exactly ?rs ?row"
    using even.columns_exact [OF cols, of ?row] assms(2) y(2) by (simp add: sz)
  have row: "within ?row u"
    using assms(2) y le Cons.prems by (simp add: row_def within_def)
  have IH: "(\<forall>r\<in>set (grid_rows u base extra (i + 1) rows). within r u) \<and>
     (\<forall>p. times_covered (grid_rows u base extra (i + 1) rows) p = times_covered (map (row u) rows) p) \<and>
     int (length (grid_rows u base extra (i + 1) rows)) =
       base * int (length rows) + max 0 (min (int (length rows)) (extra - (i + 1)))"
    using Cons.IH [OF y(3)] Cons.prems y by simp
  have eq: "grid_rows u base extra i (s # rows) = ?rs @ grid_rows u base extra (i + 1) rows"
    using cols by (simp add: s Let_def grid_row_columns)
  have len: "int (length ?rs) = ?cols"
    using even.number [OF cols, of "size_w u"] cols by simp
  have "int (length (grid_rows u base extra i (s # rows))) =
       base * int (length (s # rows)) + max 0 (min (int (length (s # rows))) (extra - i))"
    unfolding eq length_append of_nat_add len
    using IH by (auto simp: algebra_simps max_def min_def)
  moreover have "\<forall>r\<in>set (grid_rows u base extra i (s # rows)). within r u"
    unfolding eq set_append using IH splits_within [OF ex] row within_trans by blast
  moreover have "\<forall>p. times_covered (grid_rows u base extra i (s # rows)) p =
      times_covered (map (row u) (s # rows)) p"
    unfolding eq using IH ex by (simp add: splits_exactly_def s)
  ultimately show ?case by blast
qed

lemma grid_rects_exact:
  assumes "0 \<le> size_w u" "0 \<le> size_h u" "0 < n"
  shows "length (grid_rects u n) = n \<and> splits_exactly (grid_rects u n) u"
proof -
  let ?rows = "max (int (isqrt n)) 1"
  let ?spans = "even_spans (size_h u) ?rows"
  have rows: "1 \<le> ?rows" by simp
  have "isqrt n \<le> n" using isqrt_le [of n] by (metis le_square le_trans)
  then have le: "?rows \<le> int n" using assms(3) by simp
  have d: "int n sdiv ?rows = int n div ?rows" "int n smod ?rows = int n mod ?rows"
    using sdiv_smod_nonneg [of "int n" ?rows] rows by auto
  have base: "1 \<le> int n div ?rows"
    using le rows by (metis pos_imp_zdiv_pos_iff zless_imp_add1_zle add_0 order_less_le_trans zero_less_one)
  have num: "length ?spans = nat ?rows" by (rule even.number [OF rows])
  from grid_rows_exact [OF base assms(1) even.exact [OF rows assms(2)], of "int n mod ?rows" 0]
  have g: "\<forall>r\<in>set (grid_rects u n). within r u"
    "\<forall>p. times_covered (grid_rects u n) p = times_covered (map (row u) ?spans) p"
    "int (length (grid_rects u n)) =
       int n div ?rows * int (length ?spans) + max 0 (min (int (length ?spans)) (int n mod ?rows))"
    using assms(3) by (simp_all add: grid_rects_def Let_def d)
  have "int n mod ?rows < ?rows" "0 \<le> int n mod ?rows" using rows by simp_all
  then have "max 0 (min (int (length ?spans)) (int n mod ?rows)) = int n mod ?rows"
    unfolding num by linarith
  then have "int (length (grid_rects u n)) = int n"
    unfolding g(3) num using rows by (metis div_mult_mod_eq int_nat_eq order_trans zero_le_one)
  with g even.rows_exact [OF rows assms(1,2)] show ?thesis
    by (simp add: splits_exactly_def)
qed

section \<open>Layout state\<close>

datatype layout_state = Floating | TiledLeft | TiledRight | Maximized | Fullscreen

record window_meta =
  layout :: layout_state
  saved_rect :: "rectangle option"
  pre_fullscreen :: "layout_state option"

definition meta_default :: window_meta where
  "meta_default = \<lparr> layout = Floating, saved_rect = None, pre_fullscreen = None \<rparr>"

record 'w layout_manager =
  meta :: "'w \<rightharpoonup> window_meta"
  minimized :: "('w \<times> rectangle) list"

definition layout_manager_default :: "'w layout_manager" where
  "layout_manager_default = \<lparr> meta = Map.empty, minimized = [] \<rparr>"

text \<open>\<open>entry\<close>: the metadata to change, put back by \<open>put_meta\<close>.\<close>

definition entry :: "'w layout_manager \<Rightarrow> 'w \<Rightarrow> window_meta" where
  "entry lm w = (case meta lm w of Some m \<Rightarrow> m | None \<Rightarrow> meta_default)"

definition put_meta :: "'w layout_manager \<Rightarrow> 'w \<Rightarrow> window_meta \<Rightarrow> 'w layout_manager" where
  "put_meta lm w m = lm\<lparr> meta := (meta lm)(w \<mapsto> m) \<rparr>"

definition forget :: "'w layout_manager \<Rightarrow> 'w \<Rightarrow> 'w layout_manager" where
  "forget lm w = \<lparr> meta = (meta lm)(w := None),
     minimized = filter (\<lambda>(mw, _). mw \<noteq> w) (minimized lm) \<rparr>"

definition push_minimized :: "'w layout_manager \<Rightarrow> 'w \<Rightarrow> rectangle \<Rightarrow> 'w layout_manager" where
  "push_minimized lm w r = lm\<lparr> minimized := minimized lm @ [(w, r)] \<rparr>"

definition is_minimized :: "'w layout_manager \<Rightarrow> 'w \<Rightarrow> bool" where
  "is_minimized lm w \<longleftrightarrow> list_ex (\<lambda>(mw, _). mw = w) (minimized lm)"

definition layout_state_of :: "'w layout_manager \<Rightarrow> 'w \<Rightarrow> layout_state" where
  "layout_state_of lm w = (case meta lm w of Some m \<Rightarrow> layout m | None \<Rightarrow> Floating)"

definition take_minimized :: "'w layout_manager \<Rightarrow> 'w \<Rightarrow> 'w layout_manager \<times> rectangle option" where
  "take_minimized lm w = (case position (\<lambda>(mw, _). mw = w) (minimized lm) of
     None \<Rightarrow> (lm, None)
   | Some pos \<Rightarrow> (lm\<lparr> minimized := remove_at pos (minimized lm) \<rparr>, Some (snd (minimized lm ! pos))))"

text \<open>\<open>pop_live_minimized\<close>: the stack is walked from its end.\<close>

fun pop_live :: "('w \<Rightarrow> bool) \<Rightarrow> ('w \<times> rectangle) list \<Rightarrow> ('w \<times> rectangle) list \<times> ('w \<times> rectangle) option" where
  "pop_live alive [] = ([], None)"
| "pop_live alive ((w, r) # rev_stack) =
    (if alive w then (rev_stack, Some (w, r)) else pop_live alive rev_stack)"

definition pop_live_minimized ::
    "('w \<Rightarrow> bool) \<Rightarrow> 'w layout_manager \<Rightarrow> 'w layout_manager \<times> ('w \<times> rectangle) option" where
  "pop_live_minimized alive lm =
    (case pop_live alive (rev (minimized lm)) of
       (rest, got) \<Rightarrow> (lm\<lparr> minimized := rev rest \<rparr>, got))"

section \<open>Windows and outputs\<close>

text \<open>What a window is told: the pending xdg state, or the X11 configuration.\<close>

datatype configure =
    XdgConfigure point bool bool
  | X11Configure bool bool rectangle

datatype surface_kind = XdgToplevel | X11Window | OtherSurface

text \<open>
  The operations of Smithay's \<open>Space\<close>, \<open>Window\<close> and layer map that \<open>layout.rs\<close> calls, on a
  state \<open>'s\<close> that also holds what clients have committed.
\<close>

record ('s, 'w, 'o) space_api =
  element_location :: "'s \<Rightarrow> 'w \<Rightarrow> point option"
  geometry_size :: "'s \<Rightarrow> 'w \<Rightarrow> point"
  space_outputs :: "'s \<Rightarrow> 'o list"
  output_geometry :: "'s \<Rightarrow> 'o \<Rightarrow> rectangle option"
  non_exclusive_zone :: "'s \<Rightarrow> 'o \<Rightarrow> rectangle"
  kind_of_surface :: "'s \<Rightarrow> 'w \<Rightarrow> surface_kind"
  map_element :: "'s \<Rightarrow> 'w \<Rightarrow> point \<Rightarrow> 's"
  send_configure :: "'s \<Rightarrow> 'w \<Rightarrow> configure \<Rightarrow> 's"
  space_elements :: "'s \<Rightarrow> 'w list"
  outputs_for_element :: "'s \<Rightarrow> 'w \<Rightarrow> 'o list"

definition output_under :: "('s, 'w, 'o) space_api \<Rightarrow> 's \<Rightarrow> 'w \<Rightarrow> 'o option" where
  "output_under api s w =
    (let first = (case space_outputs api s of [] \<Rightarrow> None | out # _ \<Rightarrow> Some out)
     in case element_location api s w of
          None \<Rightarrow> first
        | Some l \<Rightarrow>
            (let geo = geometry_size api s w;
                 center = (fst l + fst geo sdiv 2, snd l + snd geo sdiv 2)
             in case List.find (\<lambda>out. case output_geometry api s out of
                       Some g \<Rightarrow> rect_contains g center | None \<Rightarrow> False) (space_outputs api s) of
                  Some out \<Rightarrow> Some out
                | None \<Rightarrow> first))"

definition usable_rect_for :: "('s, 'w, 'o) space_api \<Rightarrow> 's \<Rightarrow> 'w \<Rightarrow> rectangle option" where
  "usable_rect_for api s w =
    Option.bind (output_under api s w) (\<lambda>out.
    Option.bind (output_geometry api s out) (\<lambda>geo.
      let zone = non_exclusive_zone api s out
      in Some (rect_at (loc_x geo + loc_x zone, loc_y geo + loc_y zone) (rect_size zone))))"

definition output_rect_for :: "('s, 'w, 'o) space_api \<Rightarrow> 's \<Rightarrow> 'w \<Rightarrow> rectangle option" where
  "output_rect_for api s w = Option.bind (output_under api s w) (output_geometry api s)"

definition current_rect :: "('s, 'w, 'o) space_api \<Rightarrow> 's \<Rightarrow> 'w \<Rightarrow> rectangle" where
  "current_rect api s w =
    rect_at (case element_location api s w of Some l \<Rightarrow> l | None \<Rightarrow> (0, 0)) (geometry_size api s w)"

definition tiled_rect :: "rectangle \<Rightarrow> layout_state \<Rightarrow> rectangle option" where
  "tiled_rect usable target =
    (let half_w = size_w usable sdiv 2 in case target of
       TiledLeft \<Rightarrow> Some (rect_at (rect_loc usable) (half_w, size_h usable))
     | TiledRight \<Rightarrow> Some (rect_at (loc_x usable + half_w, loc_y usable)
                               (size_w usable - half_w, size_h usable))
     | Maximized \<Rightarrow> Some usable
     | Floating \<Rightarrow> None
     | Fullscreen \<Rightarrow> None)"

definition apply_geometry ::
    "('s, 'w, 'o) space_api \<Rightarrow> 's \<Rightarrow> 'w \<Rightarrow> rectangle \<Rightarrow> layout_state \<Rightarrow> 's" where
  "apply_geometry api s w r state =
    (let maxi = (state = Maximized); full = (state = Fullscreen);
         s1 = (case kind_of_surface api s w of
                 XdgToplevel \<Rightarrow> send_configure api s w (XdgConfigure (rect_size r) maxi full)
               | X11Window \<Rightarrow> send_configure api s w (X11Configure maxi full r)
               | OtherSurface \<Rightarrow> s)
     in map_element api s1 w (rect_loc r))"

section \<open>Transitions\<close>

fun arrange_each ::
    "('s, 'w, 'o) space_api \<Rightarrow> 's \<Rightarrow> 'w layout_manager \<Rightarrow> ('w \<times> rectangle) list \<Rightarrow> 's \<times> 'w layout_manager"
where
  "arrange_each api s lm [] = (s, lm)"
| "arrange_each api s lm ((w, r) # rest) =
    (let lm1 = put_meta lm w ((entry lm w)\<lparr> layout := Floating, saved_rect := None, pre_fullscreen := None \<rparr>)
     in arrange_each api (apply_geometry api s w r Floating) lm1 rest)"

definition arrange ::
    "('s, 'w, 'o) space_api \<Rightarrow> 's \<Rightarrow> 'w layout_manager \<Rightarrow> 'w list \<Rightarrow> rectangle \<Rightarrow> arrange_kind \<Rightarrow>
       's \<times> 'w layout_manager" where
  "arrange api s lm windows usable kind =
     arrange_each api s lm (zip windows (arrange_rects usable (length windows) kind))"

definition set_layout ::
    "('s, 'w, 'o) space_api \<Rightarrow> 's \<Rightarrow> 'w layout_manager \<Rightarrow> 'w \<Rightarrow> layout_state \<Rightarrow> 's \<times> 'w layout_manager"
where
  "set_layout api s lm w target =
    (case usable_rect_for api s w of
       None \<Rightarrow> (s, lm)
     | Some usable \<Rightarrow>
        (let current = current_rect api s w; m = entry lm w in
         if layout m = target then
           (let restore = (case saved_rect m of Some r \<Rightarrow> r | None \<Rightarrow> current)
            in (apply_geometry api s w restore Floating,
                put_meta lm w (m\<lparr> saved_rect := None, layout := Floating \<rparr>)))
         else
           (let m1 = (if layout m = Floating then m\<lparr> saved_rect := Some current \<rparr> else m);
                lm' = put_meta lm w (m1\<lparr> layout := target \<rparr>)
            in case tiled_rect usable target of
                 None \<Rightarrow> (s, lm')
               | Some r \<Rightarrow> (apply_geometry api s w r target, lm'))))"

definition set_fullscreen ::
    "('s, 'w, 'o) space_api \<Rightarrow> 's \<Rightarrow> 'w layout_manager \<Rightarrow> 'w \<Rightarrow> rectangle \<Rightarrow> 's \<times> 'w layout_manager"
where
  "set_fullscreen api s lm w output_geo =
    (let current = current_rect api s w; m = entry lm w;
         m' = (if layout m \<noteq> Fullscreen then
                 (let m1 = m\<lparr> pre_fullscreen := Some (layout m) \<rparr>;
                      m2 = (if layout m1 = Floating then m1\<lparr> saved_rect := Some current \<rparr> else m1)
                  in m2\<lparr> layout := Fullscreen \<rparr>)
               else m)
     in (apply_geometry api s w output_geo Fullscreen, put_meta lm w m'))"

definition unset_fullscreen ::
    "('s, 'w, 'o) space_api \<Rightarrow> 's \<Rightarrow> 'w layout_manager \<Rightarrow> 'w \<Rightarrow> 's \<times> 'w layout_manager" where
  "unset_fullscreen api s lm w =
    (if layout_state_of lm w \<noteq> Fullscreen then (s, lm)
     else case usable_rect_for api s w of
       None \<Rightarrow> (s, lm)
     | Some usable \<Rightarrow>
        (let current = current_rect api s w; m = entry lm w;
             prev = (case pre_fullscreen m of Some p \<Rightarrow> p | None \<Rightarrow> Floating);
             m1 = m\<lparr> pre_fullscreen := None, layout := prev \<rparr>
         in case tiled_rect usable prev of
              Some r \<Rightarrow> (apply_geometry api s w r prev, put_meta lm w m1)
            | None \<Rightarrow>
               (let restore = (case saved_rect m1 of Some r \<Rightarrow> r | None \<Rightarrow> current)
                in (apply_geometry api s w restore Floating,
                    put_meta lm w (m1\<lparr> saved_rect := None, layout := Floating \<rparr>)))))"

definition fullscreen_window_on ::
    "('s, 'w, 'o) space_api \<Rightarrow> 's \<Rightarrow> 'w layout_manager \<Rightarrow> 'o \<Rightarrow> 'w option" where
  "fullscreen_window_on api s lm out = List.find
     (\<lambda>w. layout_state_of lm w = Fullscreen \<and> list_ex (\<lambda>o'. o' = out) (outputs_for_element api s w))
     (space_elements api s)"

section \<open>Reachable layout states\<close>

text \<open>
  One step: an operation of the layout code, or anything the clients and outputs do to the
  space meanwhile.
\<close>

inductive layout_step ::
    "('s, 'w, 'o) space_api \<Rightarrow> 's \<times> 'w layout_manager \<Rightarrow> 's \<times> 'w layout_manager \<Rightarrow> bool"
  for api :: "('s, 'w, 'o) space_api" where
  step_layout: "target = TiledLeft \<or> target = TiledRight \<or> target = Maximized \<Longrightarrow>
     layout_step api (s, lm) (set_layout api s lm w target)"
| step_fullscreen: "layout_step api (s, lm) (set_fullscreen api s lm w geo)"
| step_unfullscreen: "layout_step api (s, lm) (unset_fullscreen api s lm w)"
| step_arrange: "layout_step api (s, lm) (arrange api s lm ws usable kind)"
| step_forget: "layout_step api (s, lm) (s, forget lm w)"
| step_minimize: "layout_step api (s, lm) (s, push_minimized lm w r)"
| step_restore: "layout_step api (s, lm) (s, fst (take_minimized lm w))"
| step_pop: "layout_step api (s, lm) (s, fst (pop_live_minimized alive lm))"
| step_client: "layout_step api (s, lm) (s', lm)"

inductive_cases layout_stepE: "layout_step api (s, lm) (s', lm')"

abbreviation layout_reachable ::
    "('s, 'w, 'o) space_api \<Rightarrow> 's \<Rightarrow> 's \<times> 'w layout_manager \<Rightarrow> bool" where
  "layout_reachable api s0 \<equiv> rtranclp (layout_step api) (s0, layout_manager_default)"

text \<open>A window that is not floating has a rectangle to return to.\<close>

definition meta_ok :: "window_meta \<Rightarrow> bool" where
  "meta_ok m \<longleftrightarrow> (layout m \<noteq> Floating \<longrightarrow> saved_rect m \<noteq> None) \<and>
     (layout m = Fullscreen \<longrightarrow> (\<exists>p. pre_fullscreen m = Some p \<and> p \<noteq> Fullscreen))"

definition manager_ok :: "'w layout_manager \<Rightarrow> bool" where
  "manager_ok lm \<longleftrightarrow> (\<forall>w m. meta lm w = Some m \<longrightarrow> meta_ok m)"

lemma meta_ok_entry: "manager_ok lm \<Longrightarrow> meta_ok (entry lm w)"
  by (auto simp: manager_ok_def entry_def meta_default_def meta_ok_def split: option.splits)

lemma manager_ok_put: "manager_ok lm \<Longrightarrow> meta_ok m \<Longrightarrow> manager_ok (put_meta lm w m)"
  by (simp add: manager_ok_def put_meta_def)

lemma tiled_rect_None: "tiled_rect u t = None \<longleftrightarrow> t = Floating \<or> t = Fullscreen"
  by (cases t) (simp_all add: tiled_rect_def Let_def)

lemma manager_ok_set_layout:
  assumes "manager_ok lm" "target \<noteq> Fullscreen" "target \<noteq> Floating"
  shows "manager_ok (snd (set_layout api s lm w target))"
proof (cases "usable_rect_for api s w")
  case (Some u)
  obtain r where "tiled_rect u target = Some r" using assms(2,3) by (metis tiled_rect_None not_None_eq)
  with Some meta_ok_entry [OF assms(1), of w] assms show ?thesis
    by (auto simp: set_layout_def Let_def meta_ok_def intro!: manager_ok_put)
qed (use assms in \<open>simp add: set_layout_def\<close>)

lemma manager_ok_set_fullscreen:
  "manager_ok lm \<Longrightarrow> manager_ok (snd (set_fullscreen api s lm w geo))"
  using meta_ok_entry [of lm w]
  by (auto simp: set_fullscreen_def Let_def meta_ok_def intro!: manager_ok_put)

lemma manager_ok_unset_fullscreen:
  assumes "manager_ok lm"
  shows "manager_ok (snd (unset_fullscreen api s lm w))"
proof (cases "layout_state_of lm w = Fullscreen")
  case True
  then obtain m where m: "meta lm w = Some m" "layout m = Fullscreen"
    by (auto simp: layout_state_of_def split: option.splits)
  with assms have ok: "meta_ok m" by (simp add: manager_ok_def)
  with m obtain p r where "pre_fullscreen m = Some p" "p \<noteq> Fullscreen" "saved_rect m = Some r"
    by (auto simp: meta_ok_def)
  with m True assms show ?thesis
    by (auto simp: unset_fullscreen_def Let_def entry_def meta_ok_def tiled_rect_None
             split: option.splits intro!: manager_ok_put)
qed (use assms in \<open>simp add: unset_fullscreen_def\<close>)

lemma manager_ok_arrange: "manager_ok lm \<Longrightarrow> manager_ok (snd (arrange_each api s lm wrs))"
  by (induction api s lm wrs rule: arrange_each.induct)
     (simp_all add: Let_def manager_ok_put meta_ok_def)

lemma manager_ok_stack: "meta lm' = meta lm \<Longrightarrow> manager_ok lm \<Longrightarrow> manager_ok lm'"
  by (simp add: manager_ok_def)

lemma meta_stack [simp]:
  "meta (push_minimized lm w r) = meta lm"
  "meta (fst (take_minimized lm w)) = meta lm"
  "meta (fst (pop_live_minimized alive lm)) = meta lm"
  by (simp_all add: push_minimized_def take_minimized_def pop_live_minimized_def
        split: option.splits prod.splits)

lemma manager_ok_step: "layout_step api st st' \<Longrightarrow> manager_ok (snd st) \<Longrightarrow> manager_ok (snd st')"
proof (induction rule: layout_step.induct)
  case (step_layout target s lm w)
  then show ?case using manager_ok_set_layout [of lm target api s w] by auto
next
  case (step_forget s lm w)
  then show ?case by (simp add: manager_ok_def forget_def)
qed (simp_all add: manager_ok_set_fullscreen manager_ok_unset_fullscreen manager_ok_arrange
       arrange_def manager_ok_stack [OF meta_stack(1)] manager_ok_stack [OF meta_stack(2)]
       manager_ok_stack [OF meta_stack(3)])

lemma manager_ok_reachable: "layout_reachable api s0 st \<Longrightarrow> manager_ok (snd st)"
  by (induction rule: rtranclp_induct)
     (simp_all add: manager_ok_step, simp add: manager_ok_def layout_manager_default_def)

text \<open>What the code relies on of the space: mapping a window places it and no other.\<close>

definition space_laws :: "('s, 'w, 'o) space_api \<Rightarrow> bool" where
  "space_laws api \<longleftrightarrow>
     (\<forall>s w l v. element_location api (map_element api s w l) v =
        (if v = w then Some l else element_location api s v)) \<and>
     (\<forall>s w c v. element_location api (send_configure api s w c) v = element_location api s v)"

lemma location_apply_geometry:
  "space_laws api \<Longrightarrow> element_location api (apply_geometry api s w r st) v =
     (if v = w then Some (rect_loc r) else element_location api s v)"
proof -
  assume laws: "space_laws api"
  then have "element_location api (map_element api s w l) v =
      (if v = w then Some l else element_location api s v)"
    "element_location api (send_configure api s w c) v = element_location api s v" for s w l v c
    unfolding space_laws_def by blast+
  then show ?thesis by (simp add: apply_geometry_def Let_def split: surface_kind.splits)
qed

lemma layout_state_put [simp]:
  "layout_state_of (put_meta lm w m) v = (if v = w then layout m else layout_state_of lm v)"
  by (simp add: layout_state_of_def put_meta_def)

lemma arrange_each_other:
  "space_laws api \<Longrightarrow> v \<notin> fst ` set wrs \<Longrightarrow> arrange_each api s lm wrs = (s', lm') \<Longrightarrow>
     element_location api s' v = element_location api s v \<and>
     layout_state_of lm' v = layout_state_of lm v"
  by (induction api s lm wrs rule: arrange_each.induct)
     (auto simp: Let_def location_apply_geometry)

lemma arrange_each_places:
  "space_laws api \<Longrightarrow> distinct (map fst wrs) \<Longrightarrow> arrange_each api s lm wrs = (s', lm') \<Longrightarrow>
     (w, r) \<in> set wrs \<Longrightarrow>
     element_location api s' w = Some (rect_loc r) \<and> layout_state_of lm' w = Floating"
proof (induction api s lm wrs rule: arrange_each.induct)
  case (2 api s lm v q wrs)
  show ?case
  proof (cases "(w, r) = (v, q)")
    case True
    with 2 have "v \<notin> fst ` set wrs" by auto
    from arrange_each_other [OF 2(2) this] 2 True show ?thesis
      by (simp add: Let_def location_apply_geometry)
  next
    case False
    with 2 show ?thesis by (auto simp: Let_def)
  qed
qed simp

section \<open>Properties\<close>

text \<open>The edges of a rectangle are \<open>i32\<close> values.\<close>

definition i32_rect :: "rectangle \<Rightarrow> bool" where
  "i32_rect r \<longleftrightarrow> - (2 ^ 31) \<le> loc_x r \<and> - (2 ^ 31) \<le> loc_y r \<and>
     loc_x r + size_w r < 2 ^ 31 \<and> loc_y r + size_h r < 2 ^ 31"

lemma within_i32: "within r u \<Longrightarrow> i32_rect u \<Longrightarrow> i32_rect r"
  by (auto simp: within_def i32_rect_def)

text \<open>C8. Every automatic arrangement (grid, spiral, dwindle) of \<open>n\<close> windows is an exact
  partition of the usable rectangle: \<open>n\<close> rectangles, each inside it with a non-negative size
  and \<open>i32\<close> edges when its own are, and every point of it in exactly one of them.\<close>

theorem arrange_rects_partition:
  assumes "0 \<le> size_w usable" "0 \<le> size_h usable" "i32_rect usable" "0 < n"
  shows "length (arrange_rects usable n kind) = n \<and>
    (\<forall>r\<in>set (arrange_rects usable n kind). within r usable \<and> i32_rect r) \<and>
    (\<forall>p. length (filter (\<lambda>r. rect_contains r p) (arrange_rects usable n kind)) =
       (if rect_contains usable p then 1 else 0))"
proof -
  have "length (arrange_rects usable n kind) = n \<and> splits_exactly (arrange_rects usable n kind) usable"
    using grid_rects_exact [OF assms(1,2,4)] split_from_exact [OF assms(1,2,4)]
    by (cases kind) (simp_all add: arrange_rects_def split_rects_def)
  with assms(3) show ?thesis
    by (auto simp: splits_exactly_def times_covered_def intro: within_i32)
qed

theorem arrange_rects_partition_witness:
  "length (arrange_rects (rect_at (0, 30) (1919, 1050)) 5 Spiral) = 5 \<and>
    (\<forall>p. length (filter (\<lambda>r. rect_contains r p) (arrange_rects (rect_at (0, 30) (1919, 1050)) 5 Spiral)) =
       (if rect_contains (rect_at (0, 30) (1919, 1050)) p then 1 else 0))"
  using arrange_rects_partition [of "rect_at (0, 30) (1919, 1050)" 5 Spiral]
  by (simp add: i32_rect_def)

text \<open>\<open>arrange\<close> puts distinct windows on such a partition, one each, and leaves them
  floating; windows it was not given stay where they are.\<close>

theorem arrange_places_windows:
  assumes "space_laws api" "distinct ws" "ws \<noteq> []" "0 \<le> size_w usable" "0 \<le> size_h usable"
    and "arrange api s lm ws usable kind = (s', lm')"
  shows "\<exists>rs. length rs = length ws \<and> splits_exactly rs usable \<and>
    (\<forall>i<length ws. element_location api s' (ws ! i) = Some (rect_loc (rs ! i)) \<and>
       layout_state_of lm' (ws ! i) = Floating) \<and>
    (\<forall>v. v \<notin> set ws \<longrightarrow> element_location api s' v = element_location api s v)"
proof (intro exI conjI allI impI)
  let ?rs = "arrange_rects usable (length ws) kind"
  have n: "0 < length ws" using assms(3) by simp
  have ex: "length ?rs = length ws \<and> splits_exactly ?rs usable"
    using grid_rects_exact [OF assms(4,5) n] split_from_exact [OF assms(4,5) n]
    by (cases kind) (simp_all add: arrange_rects_def split_rects_def)
  then show "length ?rs = length ws" "splits_exactly ?rs usable" by auto
  have run: "arrange_each api s lm (zip ws ?rs) = (s', lm')" using assms(6) by (simp add: arrange_def)
  have d: "distinct (map fst (zip ws ?rs))" using ex assms(2) by simp
  show "element_location api s' (ws ! i) = Some (rect_loc (?rs ! i))"
       "layout_state_of lm' (ws ! i) = Floating" if "i < length ws" for i
    using arrange_each_places [OF assms(1) d run, of "ws ! i" "?rs ! i"] that ex
    by (auto simp: in_set_zip)
  show "element_location api s' v = element_location api s v" if "v \<notin> set ws" for v
  proof -
    have "v \<notin> fst ` set (zip ws ?rs)" using that by (auto dest: set_zip_leftD)
    with arrange_each_other [OF assms(1) _ run] show ?thesis by blast
  qed
qed

text \<open>A space that keeps a map of locations, with one output, for the witnesses.\<close>

definition demo_api :: "(nat \<rightharpoonup> point, nat, unit) space_api" where
  "demo_api = \<lparr> element_location = (\<lambda>s w. s w), geometry_size = (\<lambda>_ _. (640, 480)),
     space_outputs = (\<lambda>_. [()]),
     output_geometry = (\<lambda>_ _. Some (rect_at (0, 0) (1920, 1080))),
     non_exclusive_zone = (\<lambda>_ _. rect_at (0, 30) (1920, 1050)),
     kind_of_surface = (\<lambda>_ _. XdgToplevel), map_element = (\<lambda>s w l. s(w \<mapsto> l)),
     send_configure = (\<lambda>s _ _. s), space_elements = (\<lambda>_. [0, 1]),
     outputs_for_element = (\<lambda>_ _. [()]) \<rparr>"

lemma demo_laws: "space_laws demo_api"
  by (simp add: space_laws_def demo_api_def)

theorem arrange_places_windows_witness:
  "let (s', lm') = arrange demo_api (Map.empty(5 \<mapsto> (7, 7))) layout_manager_default [0, 1, 2]
       (rect_at (0, 30) (1920, 1050)) Grid
   in layout_state_of lm' 2 = Floating \<and> element_location demo_api s' 5 = Some (7, 7)"
proof -
  let ?u = "rect_at (0, 30) (1920, 1050)"
  obtain s' lm' where r:
    "arrange demo_api (Map.empty(5 \<mapsto> (7, 7))) layout_manager_default [0, 1, 2] ?u Grid = (s', lm')"
    by fastforce
  from arrange_places_windows [OF demo_laws _ _ _ _ r]
  obtain rs :: "rectangle list" where
    "\<forall>i<3. layout_state_of lm' ([0, 1, 2] ! i) = Floating"
    "element_location demo_api s' 5 = element_location demo_api (Map.empty(5 \<mapsto> (7, 7))) 5"
    by auto
  from this(1) [rule_format, of 2] this(2) r show ?thesis by (simp add: demo_api_def)
qed

text \<open>A tiling action undone by pressing it again: a floating window tiled or maximized, and
  later, whatever clients and other windows did meanwhile, given the same action, is floating
  again and configured and placed at exactly the rectangle it had before.\<close>

theorem layout_toggle_restores:
  assumes "layout_state_of lm w = Floating"
    and "target = TiledLeft \<or> target = TiledRight \<or> target = Maximized"
    and "usable_rect_for api s w \<noteq> None" "set_layout api s lm w target = (s1, lm1)"
    and "usable_rect_for api s2 w \<noteq> None" "meta lm2 w = meta lm1 w"
  shows "set_layout api s2 lm2 w target =
     (apply_geometry api s2 w (current_rect api s w) Floating,
      put_meta lm2 w ((entry lm w)\<lparr> saved_rect := None, layout := Floating \<rparr>))"
proof -
  have fl: "layout (entry lm w) = Floating"
    using assms(1) by (simp add: layout_state_of_def entry_def meta_default_def split: option.splits)
  obtain u r where u: "usable_rect_for api s w = Some u" "tiled_rect u target = Some r"
    using assms(2,3) by (cases "usable_rect_for api s w") (auto simp: tiled_rect_def Let_def)
  have "meta lm1 w = Some ((entry lm w)\<lparr> saved_rect := Some (current_rect api s w), layout := target \<rparr>)"
    using assms(2,4) fl u by (auto simp: set_layout_def Let_def put_meta_def)
  with assms(5,6) show ?thesis by (auto simp: set_layout_def entry_def)
qed

theorem layout_toggle_restores_witness:
  "let s = [0 \<mapsto> (100, 200)]; lm = layout_manager_default;
     (s1, lm1) = set_layout demo_api s lm 0 TiledLeft
   in element_location demo_api s1 0 = Some (0, 30) \<and>
      set_layout demo_api s1 lm1 0 TiledLeft =
        (apply_geometry demo_api s1 0 (current_rect demo_api s 0) Floating,
         put_meta lm1 0 ((entry lm 0)\<lparr> saved_rect := None, layout := Floating \<rparr>))"
proof -
  let ?s = "[0 \<mapsto> (100, 200)] :: nat \<rightharpoonup> point"
  let ?lm = "layout_manager_default :: nat layout_manager"
  have u: "usable_rect_for demo_api s w \<noteq> None" for s w
    by (simp add: usable_rect_for_def output_under_def demo_api_def Let_def split: option.splits)
  obtain s1 lm1 where r: "set_layout demo_api ?s ?lm 0 TiledLeft = (s1, lm1)" by fastforce
  have f: "layout_state_of ?lm 0 = Floating" by (simp add: layout_state_of_def layout_manager_default_def)
  have "element_location demo_api (fst (set_layout demo_api ?s ?lm 0 TiledLeft)) 0 = Some (0, 30)"
    by code_simp
  with layout_toggle_restores [OF f _ u r u refl] r show ?thesis by (simp add: Let_def)
qed

text \<open>Fullscreen is a detour: a window made fullscreen (any number of times, on any outputs)
  and then not, comes back to the layout it had, tiled and maximized ones recomputed for the
  output it is on, a floating one at its old rectangle; and a tiled window still remembers the
  floating rectangle it had before.\<close>

theorem fullscreen_detour:
  assumes "layout_state_of lm w \<noteq> Fullscreen"
    and "lm1 = foldl (\<lambda>l (sp, geo). snd (set_fullscreen api sp l w geo))
               (snd (set_fullscreen api s lm w geo0)) again"
    and "usable_rect_for api s2 w = Some usable"
  shows "unset_fullscreen api s2 lm1 w =
     (apply_geometry api s2 w
        (case tiled_rect usable (layout_state_of lm w) of Some r \<Rightarrow> r | None \<Rightarrow> current_rect api s w)
        (layout_state_of lm w),
      put_meta lm1 w \<lparr> layout = layout_state_of lm w,
        saved_rect = (if layout_state_of lm w = Floating then None else saved_rect (entry lm w)),
        pre_fullscreen = None \<rparr>)"
proof -
  have ls: "layout (entry lm w) = layout_state_of lm w"
    by (simp add: layout_state_of_def entry_def meta_default_def split: option.splits)
  define m where "m = \<lparr> layout = Fullscreen,
    saved_rect = (if layout_state_of lm w = Floating then Some (current_rect api s w)
                  else saved_rect (entry lm w)),
    pre_fullscreen = Some (layout_state_of lm w) \<rparr>"
  have first: "meta (snd (set_fullscreen api s lm w geo0)) w = Some m"
    using assms(1) ls by (simp add: set_fullscreen_def Let_def put_meta_def m_def)
  have stay: "meta l w = Some m \<Longrightarrow> meta (snd (set_fullscreen api sp l w geo)) w = Some m" for l sp geo
    by (simp add: set_fullscreen_def Let_def put_meta_def entry_def m_def)
  have "meta l w = Some m \<Longrightarrow>
      meta (foldl (\<lambda>l (sp, geo). snd (set_fullscreen api sp l w geo)) l again) w = Some m" for l
    by (induction again arbitrary: l) (auto simp: stay)
  then have meta: "meta lm1 w = Some m" using first assms(2) by blast
  then have "layout_state_of lm1 w = Fullscreen" "entry lm1 w = m"
    by (simp_all add: layout_state_of_def entry_def m_def)
  with assms(1,3) tiled_rect_None [of usable "layout_state_of lm w"] show ?thesis
    by (auto simp: unset_fullscreen_def Let_def m_def split: option.splits)
qed

theorem fullscreen_detour_witness:
  "let lm = snd (set_layout demo_api [0 \<mapsto> (100, 200)] layout_manager_default 0 Maximized);
     lm1 = foldl (\<lambda>l (sp, geo). snd (set_fullscreen demo_api sp l 0 geo))
               (snd (set_fullscreen demo_api [0 \<mapsto> (0, 30)] lm 0 (rect_at (0, 0) (1920, 1080))))
               [([0 \<mapsto> (0, 0)], rect_at (0, 0) (800, 600))]
   in unset_fullscreen demo_api [0 \<mapsto> (0, 0)] lm1 0 =
     (apply_geometry demo_api [0 \<mapsto> (0, 0)] 0 (rect_at (0, 30) (1920, 1050)) Maximized,
      put_meta lm1 0 \<lparr> layout = Maximized, saved_rect = Some (rect_at (100, 200) (640, 480)),
        pre_fullscreen = None \<rparr>)"
proof -
  let ?lm = "snd (set_layout demo_api [0 \<mapsto> (100, 200)] layout_manager_default 0 Maximized)"
  have 1: "layout_state_of ?lm 0 = Maximized" by code_simp
  have 2: "usable_rect_for demo_api [0 \<mapsto> (0, 0)] 0 = Some (rect_at (0, 30) (1920, 1050))" by code_simp
  have 3: "saved_rect (entry ?lm 0) = Some (rect_at (100, 200) (640, 480))" by code_simp
  have 4: "tiled_rect (rect_at (0, 30) (1920, 1050)) Maximized = Some (rect_at (0, 30) (1920, 1050))"
    by (simp add: tiled_rect_def)
  from 1 have nf: "layout_state_of ?lm 0 \<noteq> Fullscreen" by simp
  show ?thesis
    unfolding Let_def
    using fullscreen_detour [OF nf refl 2, of "[0 \<mapsto> (0, 30)]" "rect_at (0, 0) (1920, 1080)"
        "[([0 \<mapsto> (0, 0)], rect_at (0, 0) (800, 600))]", unfolded 1 3 4]
    by simp
qed

text \<open>In every reachable state, whatever order tiling, fullscreen, arranging, minimizing and
  the clients' own changes come in: a tiled or maximized window has a floating rectangle to go
  back to, and pressing its action again takes it there.\<close>

theorem tiled_window_can_return:
  assumes "layout_reachable api s0 (s, lm)"
    and "layout_state_of lm w = target"
    and "target = TiledLeft \<or> target = TiledRight \<or> target = Maximized"
    and "usable_rect_for api s w \<noteq> None"
  shows "\<exists>r. saved_rect (entry lm w) = Some r \<and>
    fst (set_layout api s lm w target) = apply_geometry api s w r Floating \<and>
    layout_state_of (snd (set_layout api s lm w target)) w = Floating"
proof -
  have ok: "meta_ok (entry lm w)" using manager_ok_reachable [OF assms(1)] meta_ok_entry by fastforce
  have ls: "layout (entry lm w) = target"
    using assms(2) by (simp add: layout_state_of_def entry_def meta_default_def split: option.splits)
  with ok assms(3) obtain r where r: "saved_rect (entry lm w) = Some r" by (auto simp: meta_ok_def)
  with ls assms(4) show ?thesis by (auto simp: set_layout_def)
qed

theorem tiled_window_can_return_witness:
  "let st = set_layout demo_api [0 \<mapsto> (100, 200)] layout_manager_default 0 TiledRight
   in \<exists>r. saved_rect (entry (snd st) 0) = Some r \<and>
    fst (set_layout demo_api (fst st) (snd st) 0 TiledRight) = apply_geometry demo_api (fst st) 0 r Floating \<and>
    layout_state_of (snd (set_layout demo_api (fst st) (snd st) 0 TiledRight)) 0 = Floating"
proof -
  let ?s = "[0 \<mapsto> (100, 200)] :: nat \<rightharpoonup> point"
  let ?st = "set_layout demo_api ?s layout_manager_default 0 TiledRight"
  have "layout_step demo_api (?s, layout_manager_default) ?st"
    by (rule step_layout) simp
  then have reach: "layout_reachable demo_api ?s (fst ?st, snd ?st)" by auto
  have t: "layout_state_of (snd ?st) 0 = TiledRight" by code_simp
  have u: "usable_rect_for demo_api (fst ?st) 0 \<noteq> None"
    by (simp add: usable_rect_for_def output_under_def demo_api_def Let_def split: option.splits)
  from tiled_window_can_return [OF reach t _ u] show ?thesis by (simp add: Let_def)
qed

end
