(* ===== verification/Workspaces.thy ===== *)
theory Workspaces
  imports Layout "HOL-Library.AList"
begin

text \<open>
  \<open>src/workspace.rs\<close> and the operations of \<open>src/state.rs\<close>, \<open>src/input.rs\<close>,
  \<open>src/picker.rs\<close> and \<open>src/handlers/xdg_shell.rs\<close> that decide which window is on which
  workspace, what is mapped, and what has the keyboard. The \<open>HashMap\<close> of windows is an
  association list (its order only decides the order windows are mapped in). Smithay's space
  is the record of Layout with three more operations; the keyboard focus of the seat is the
  window it is on. Broadcasts to clients are the list of events.
\<close>

section \<open>The workspace manager\<close>

text \<open>A \<open>WorkspaceId\<close> is its zero-based index; the count is at most \<open>MAX_WORKSPACE_COUNT\<close>.\<close>

definition one_based :: "nat \<Rightarrow> nat" where "one_based ws = ws + 1"

record win_info =
  workspace :: nat
  saved_location :: point

record 'w workspace_manager =
  active :: nat
  windows :: "('w \<times> win_info) list"
  focus_history :: "'w list list"
  count :: nat
  names :: "string list"

definition manager_new :: "nat \<Rightarrow> string list \<Rightarrow> 'w workspace_manager" where
  "manager_new n ns =
    (let cnt = max n 1
     in \<lparr> active = 0, windows = [], focus_history = replicate cnt [], count = cnt,
          names = take cnt (ns @ replicate cnt []) \<rparr>)"

definition from_one_based :: "'w workspace_manager \<Rightarrow> nat \<Rightarrow> nat option" where
  "from_one_based m idx = (if 1 \<le> idx \<and> idx \<le> count m then Some (idx - 1) else None)"

definition shifted :: "'w workspace_manager \<Rightarrow> nat \<Rightarrow> int \<Rightarrow> nat" where
  "shifted m ws delta = nat (max 0 (min (int ws + delta) (int (count m) - 1)))"

definition set_active :: "'w workspace_manager \<Rightarrow> nat \<Rightarrow> 'w workspace_manager" where
  "set_active m ws = m\<lparr> active := ws \<rparr>"

definition assign :: "'w workspace_manager \<Rightarrow> 'w \<Rightarrow> nat \<Rightarrow> point \<Rightarrow> 'w workspace_manager" where
  "assign m w ws l = m\<lparr> windows := AList.update w \<lparr> workspace = ws, saved_location = l \<rparr> (windows m) \<rparr>"

definition reassign :: "'w workspace_manager \<Rightarrow> 'w \<Rightarrow> nat \<Rightarrow> 'w workspace_manager" where
  "reassign m w ws = m\<lparr> windows := AList.map_entry w (\<lambda>i. i\<lparr> workspace := ws \<rparr>) (windows m) \<rparr>"

definition record_location :: "'w workspace_manager \<Rightarrow> 'w \<Rightarrow> point \<Rightarrow> 'w workspace_manager" where
  "record_location m w l = m\<lparr> windows := AList.map_entry w (\<lambda>i. i\<lparr> saved_location := l \<rparr>) (windows m) \<rparr>"

definition saved_location_of :: "'w workspace_manager \<Rightarrow> 'w \<Rightarrow> point option" where
  "saved_location_of m w = map_option saved_location (map_of (windows m) w)"

definition windows_on :: "'w workspace_manager \<Rightarrow> nat \<Rightarrow> 'w list" where
  "windows_on m ws = map fst (filter (\<lambda>(_, i). workspace i = ws) (windows m))"

definition workspace_of :: "'w workspace_manager \<Rightarrow> 'w \<Rightarrow> nat option" where
  "workspace_of m w = map_option workspace (map_of (windows m) w)"

definition forget_window :: "'w workspace_manager \<Rightarrow> 'w \<Rightarrow> 'w workspace_manager" where
  "forget_window m w = m\<lparr> windows := AList.delete w (windows m),
     focus_history := map (filter (\<lambda>v. v \<noteq> w)) (focus_history m) \<rparr>"

definition prune_dead :: "('w \<Rightarrow> bool) \<Rightarrow> 'w workspace_manager \<Rightarrow> 'w workspace_manager" where
  "prune_dead alive m = m\<lparr> windows := filter (\<lambda>(w, _). alive w) (windows m),
     focus_history := map (filter alive) (focus_history m) \<rparr>"

definition record_focus :: "'w workspace_manager \<Rightarrow> nat \<Rightarrow> 'w \<Rightarrow> 'w workspace_manager" where
  "record_focus m ws w = m\<lparr> focus_history :=
     (focus_history m)[ws := filter (\<lambda>v. v \<noteq> w) (focus_history m ! ws) @ [w]] \<rparr>"

text \<open>\<open>last_focused\<close> on a stack (top at the end): dead windows are popped.\<close>

definition last_live :: "('w \<Rightarrow> bool) \<Rightarrow> 'w list \<Rightarrow> 'w list \<times> 'w option" where
  "last_live alive stk =
    (let live = dropWhile (\<lambda>w. \<not> alive w) (rev stk)
     in (rev live, case live of [] \<Rightarrow> None | w # _ \<Rightarrow> Some w))"

definition last_focused ::
    "('w \<Rightarrow> bool) \<Rightarrow> 'w workspace_manager \<Rightarrow> nat \<Rightarrow> 'w workspace_manager \<times> 'w option" where
  "last_focused alive m ws = (case last_live alive (focus_history m ! ws) of
     (stk, w) \<Rightarrow> (m\<lparr> focus_history := (focus_history m)[ws := stk] \<rparr>, w))"

definition discard_top_focus :: "'w workspace_manager \<Rightarrow> nat \<Rightarrow> 'w workspace_manager" where
  "discard_top_focus m ws = m\<lparr> focus_history :=
     (focus_history m)[ws := butlast (focus_history m ! ws)] \<rparr>"

definition remove_from_active_focus :: "'w workspace_manager \<Rightarrow> nat \<Rightarrow> 'w \<Rightarrow> 'w workspace_manager" where
  "remove_from_active_focus m ws w = m\<lparr> focus_history :=
     (focus_history m)[ws := filter (\<lambda>v. v \<noteq> w) (focus_history m ! ws)] \<rparr>"

lemma last_live_shorter:
  assumes "last_live alive stk = (stk', Some w)"
  shows "stk' \<noteq> [] \<and> length stk' \<le> length stk"
proof -
  obtain vs where d: "dropWhile (\<lambda>w. \<not> alive w) (rev stk) = w # vs" "stk' = rev (w # vs)"
    using assms by (auto simp: last_live_def Let_def split: list.splits)
  with length_dropWhile_le [of "\<lambda>w. \<not> alive w" "rev stk"] show ?thesis by simp
qed

text \<open>
  The loop that picks the window to focus: the most recently focused one that is alive and
  mapped; the ones above it leave the stack.
\<close>

function pick_stack :: "('w \<Rightarrow> bool) \<Rightarrow> ('w \<Rightarrow> bool) \<Rightarrow> 'w list \<Rightarrow> 'w list \<times> 'w option" where
  "pick_stack alive mapped stk = (case last_live alive stk of
     (stk1, None) \<Rightarrow> (stk1, None)
   | (stk1, Some w) \<Rightarrow> if mapped w then (stk1, Some w) else pick_stack alive mapped (butlast stk1))"
  by pat_completeness auto
termination
proof (relation "measure (\<lambda>(_, _, stk). length stk)", goal_cases)
  case 1
  show ?case by simp
next
  case (2 alive mapped stk stk1 pick w)
  then have "stk1 \<noteq> [] \<and> length stk1 \<le> length stk"
    by (auto dest: last_live_shorter [OF sym])
  then show ?case by (cases stk1 rule: rev_cases) auto
qed

declare pick_stack.simps [simp del]

text \<open>\<open>build_workspace_manager\<close>; the configured names are its pairs of key and name.\<close>

definition MAX_WORKSPACE_COUNT :: nat where "MAX_WORKSPACE_COUNT = 32"

fun parse_digits :: "nat \<Rightarrow> string \<Rightarrow> nat option" where
  "parse_digits acc [] = Some acc"
| "parse_digits acc (c # cs) =
    (if 48 \<le> (of_char c :: nat) \<and> of_char c \<le> (57 :: nat)
     then (let v = acc * 10 + (of_char c - 48) in if v > 255 then None else parse_digits v cs)
     else None)"

text \<open>\<open>str::parse::<u8>\<close>: digits with an optional plus sign, at most 255.\<close>

fun parse_u8 :: "string \<Rightarrow> nat option" where
  "parse_u8 [] = None"
| "parse_u8 (c # cs) =
    (if c = CHR ''+'' then (if cs = [] then None else parse_digits 0 cs) else parse_digits 0 (c # cs))"

fun fill_names :: "nat \<Rightarrow> string list \<Rightarrow> (string \<times> string) list \<Rightarrow> string list" where
  "fill_names cnt ns [] = ns"
| "fill_names cnt ns ((key, name) # rest) =
    (case parse_u8 key of
       Some idx \<Rightarrow> fill_names cnt (if 1 \<le> idx \<and> idx \<le> cnt then ns[idx - 1 := name] else ns) rest
     | None \<Rightarrow> fill_names cnt ns rest)"

definition build_workspace_manager :: "nat \<Rightarrow> (string \<times> string) list \<Rightarrow> 'w workspace_manager" where
  "build_workspace_manager raw cfg_names =
    (let cnt = max 1 (min raw MAX_WORKSPACE_COUNT)
     in manager_new cnt (fill_names cnt (replicate cnt []) cfg_names))"

section \<open>The desktop\<close>

record ('s, 'w, 'o) desk_api = "('s, 'w, 'o) space_api" +
  unmap_elem :: "'s \<Rightarrow> 'w \<Rightarrow> 's"
  raise_element :: "'s \<Rightarrow> 'w \<Rightarrow> 's"

datatype 'w wm_event =
    WindowOpened 'w nat
  | WindowClosed 'w
  | WindowFocused "'w option"
  | WindowMovedToWorkspace 'w nat
  | WindowStickyChanged 'w bool
  | WorkspaceChanged nat

record ('s, 'w) desktop =
  space :: 's
  manager :: "'w workspace_manager"
  layouts :: "'w layout_manager"
  sticky :: "'w set"
  kb_focus :: "'w option"
  locked :: bool
  alive :: "'w \<Rightarrow> bool"
  foreign :: "'w list"
  emitted :: "'w wm_event list"

definition emit :: "'w wm_event \<Rightarrow> ('s, 'w) desktop \<Rightarrow> ('s, 'w) desktop" where
  "emit e d = d\<lparr> emitted := emitted d @ [e] \<rparr>"

text \<open>Events that name a window are sent when it has a foreign-toplevel handle.\<close>

definition emit_for :: "'w \<Rightarrow> 'w wm_event \<Rightarrow> ('s, 'w) desktop \<Rightarrow> ('s, 'w) desktop" where
  "emit_for w e d = (if w \<in> set (foreign d) then emit e d else d)"

definition focused_window :: "('s, 'w, 'o) desk_api \<Rightarrow> ('s, 'w) desktop \<Rightarrow> 'w option" where
  "focused_window api d = (case kb_focus d of
     Some w \<Rightarrow> if w \<in> set (space_elements api (space d)) then Some w else None
   | None \<Rightarrow> None)"

definition focus_window :: "('s, 'w, 'o) desk_api \<Rightarrow> ('s, 'w) desktop \<Rightarrow> 'w \<Rightarrow> ('s, 'w) desktop" where
  "focus_window api d w =
    (if locked d then d
     else emit (WindowFocused (if w \<in> set (foreign d) then Some w else None))
       (d\<lparr> space := raise_element api (space d) w, kb_focus := Some w,
           manager := record_focus (manager d) (active (manager d)) w \<rparr>))"

definition clear_focus :: "('s, 'w) desktop \<Rightarrow> ('s, 'w) desktop" where
  "clear_focus d = (if locked d then d else emit (WindowFocused None) (d\<lparr> kb_focus := None \<rparr>))"

text \<open>Focus the pick of workspace \<open>ws\<close>'s history, or nothing.\<close>

definition refocus :: "('s, 'w, 'o) desk_api \<Rightarrow> ('s, 'w) desktop \<Rightarrow> nat \<Rightarrow> ('s, 'w) desktop" where
  "refocus api d ws =
    (case pick_stack (alive d) (\<lambda>w. w \<in> set (space_elements api (space d)))
            (focus_history (manager d) ! ws) of
       (stk, pick) \<Rightarrow>
         (let d1 = d\<lparr> manager := (manager d)\<lparr> focus_history := (focus_history (manager d))[ws := stk] \<rparr> \<rparr>
          in case pick of Some w \<Rightarrow> focus_window api d1 w | None \<Rightarrow> clear_focus d1))"

definition save_location :: "('s, 'w, 'o) desk_api \<Rightarrow> 's \<Rightarrow> 'w workspace_manager \<Rightarrow> 'w \<Rightarrow> 'w workspace_manager"
where
  "save_location api s m w = (case element_location api s w of
     Some l \<Rightarrow> record_location m w l | None \<Rightarrow> m)"

text \<open>One window of the loop that maps the target workspace.\<close>

definition map_back :: "('s, 'w, 'o) desk_api \<Rightarrow> ('s, 'w) desktop \<Rightarrow> 's \<Rightarrow> 'w \<Rightarrow> 's" where
  "map_back api d s w =
    (if is_minimized (layouts d) w then s
     else if w \<in> set (space_elements api s) then s
     else map_element api s w
       (case saved_location_of (manager d) w of Some l \<Rightarrow> l | None \<Rightarrow> (0, 0)))"

definition focus_workspace_id ::
    "('s, 'w, 'o) desk_api \<Rightarrow> ('s, 'w) desktop \<Rightarrow> nat \<Rightarrow> ('s, 'w) desktop" where
  "focus_workspace_id api d target =
    (let current = active (manager d) in
     if current = target then d
     else
       (let m1 = prune_dead (alive d) (manager d);
            m2 = (case focused_window api d of Some w \<Rightarrow> record_focus m1 current w | None \<Rightarrow> m1);
            to_unmap = space_elements api (space d);
            m3 = foldl (save_location api (space d)) m2 to_unmap;
            s1 = foldl (\<lambda>s w. if w \<in> sticky d then s else unmap_elem api s w) (space d) to_unmap;
            m4 = set_active m3 target;
            m5 = foldl (\<lambda>m w. if w \<in> sticky d then reassign m w target else m) m4 to_unmap;
            d1 = d\<lparr> manager := m5 \<rparr>;
            s2 = foldl (map_back api d1) s1 (windows_on m5 target);
            d2 = refocus api (d1\<lparr> space := s2 \<rparr>) target
        in emit (WorkspaceChanged (one_based target)) d2))"

definition move_window_to_workspace ::
    "('s, 'w, 'o) desk_api \<Rightarrow> ('s, 'w) desktop \<Rightarrow> 'w \<Rightarrow> nat \<Rightarrow> ('s, 'w) desktop" where
  "move_window_to_workspace api d w target =
    (let act = active (manager d) in
     if target = act then d
     else if w \<in> sticky d then d
     else
       (let was_focused = (focused_window api d = Some w);
            m1 = save_location api (space d) (manager d) w;
            m2 = remove_from_active_focus (record_focus (reassign m1 w target) target w) act w;
            d1 = emit_for w (WindowMovedToWorkspace w (one_based target))
                   (d\<lparr> manager := m2, space := unmap_elem api (space d) w \<rparr>)
        in if was_focused then refocus api d1 act else d1))"

definition move_focused_to_workspace ::
    "('s, 'w, 'o) desk_api \<Rightarrow> ('s, 'w) desktop \<Rightarrow> nat \<Rightarrow> ('s, 'w) desktop" where
  "move_focused_to_workspace api d target = (case focused_window api d of
     None \<Rightarrow> d | Some w \<Rightarrow> move_window_to_workspace api d w target)"

definition move_window_to_workspace_following ::
    "('s, 'w, 'o) desk_api \<Rightarrow> ('s, 'w) desktop \<Rightarrow> 'w \<Rightarrow> nat \<Rightarrow> ('s, 'w) desktop" where
  "move_window_to_workspace_following api d w target =
    (let act = active (manager d) in
     if target = act then d
     else
       (let m1 = save_location api (space d) (manager d) w;
            m2 = remove_from_active_focus (record_focus (reassign m1 w target) target w) act w;
            d1 = emit_for w (WindowMovedToWorkspace w (one_based target)) (d\<lparr> manager := m2 \<rparr>)
        in focus_workspace_id api (clear_focus d1) target))"

text \<open>\<open>move_window_to_workspace_by_id\<close> on the window the id names; \<open>Inl\<close> is the error reply.\<close>

datatype move_error = OutOfRange | IsSticky | IsMinimized | NoWorkspace

definition move_window_to_workspace_by_id ::
    "('s, 'w, 'o) desk_api \<Rightarrow> ('s, 'w) desktop \<Rightarrow> 'w \<Rightarrow> nat \<Rightarrow> move_error + ('s, 'w) desktop" where
  "move_window_to_workspace_by_id api d w index =
    (case from_one_based (manager d) index of
       None \<Rightarrow> Inl OutOfRange
     | Some target \<Rightarrow>
        if w \<in> sticky d then Inl IsSticky
        else if is_minimized (layouts d) w then Inl IsMinimized
        else (case workspace_of (manager d) w of
           None \<Rightarrow> Inl NoWorkspace
         | Some current \<Rightarrow>
            if current = target then Inr d
            else
              (let act = active (manager d);
                   was_focused = (focused_window api d = Some w);
                   m1 = save_location api (space d) (manager d) w;
                   m2 = remove_from_active_focus (record_focus (reassign m1 w target) target w) current w;
                   s1 = (if target = act then
                           (if w \<in> set (space_elements api (space d)) then space d
                            else map_element api (space d) w
                              (case saved_location_of m2 w of Some l \<Rightarrow> l | None \<Rightarrow> (0, 0)))
                         else if current = act then unmap_elem api (space d) w
                         else space d);
                   d1 = emit_for w (WindowMovedToWorkspace w (one_based target))
                          (d\<lparr> manager := m2, space := s1 \<rparr>)
               in Inr (if was_focused \<and> target \<noteq> act then refocus api d1 act else d1))))"

definition set_sticky :: "('s, 'w) desktop \<Rightarrow> 'w \<Rightarrow> bool \<Rightarrow> ('s, 'w) desktop" where
  "set_sticky d w on =
    (if (w \<in> sticky d) = on then d
     else emit_for w (WindowStickyChanged w on)
       (d\<lparr> sticky := (if on then insert w (sticky d) else sticky d - {w}),
           manager := reassign (manager d) w (active (manager d)) \<rparr>))"

definition minimize_window :: "('s, 'w, 'o) desk_api \<Rightarrow> ('s, 'w) desktop \<Rightarrow> 'w \<Rightarrow> ('s, 'w) desktop" where
  "minimize_window api d w =
    (if is_minimized (layouts d) w then d
     else
       (let l = (case element_location api (space d) w of Some l \<Rightarrow> l | None \<Rightarrow> (0, 0));
            r = rect_at l (geometry_size api (space d) w);
            d1 = d\<lparr> space := unmap_elem api (space d) w, manager := forget_window (manager d) w \<rparr>;
            d2 = (if focused_window api d1 = Some w then clear_focus d1 else d1)
        in d2\<lparr> layouts := push_minimized (layouts d2) w r \<rparr>))"

text \<open>The common part of the two ways to restore a window.\<close>

definition restore_at :: "('s, 'w, 'o) desk_api \<Rightarrow> ('s, 'w) desktop \<Rightarrow> 'w \<Rightarrow> rectangle \<Rightarrow> ('s, 'w) desktop" where
  "restore_at api d w r =
     d\<lparr> space := map_element api (space d) w (rect_loc r),
        manager := assign (manager d) w (active (manager d)) (rect_loc r) \<rparr>"

definition unminimize_window :: "('s, 'w, 'o) desk_api \<Rightarrow> ('s, 'w) desktop \<Rightarrow> 'w \<Rightarrow> ('s, 'w) desktop" where
  "unminimize_window api d w = (case take_minimized (layouts d) w of
     (_, None) \<Rightarrow> d
   | (lm, Some r) \<Rightarrow> focus_window api (restore_at api (d\<lparr> layouts := lm \<rparr>) w r) w)"

definition unminimize_last :: "('s, 'w, 'o) desk_api \<Rightarrow> ('s, 'w) desktop \<Rightarrow> ('s, 'w) desktop" where
  "unminimize_last api d = (case pop_live_minimized (alive d) (layouts d) of
     (lm, None) \<Rightarrow> d\<lparr> layouts := lm \<rparr>
   | (lm, Some (w, r)) \<Rightarrow> focus_window api (restore_at api (d\<lparr> layouts := lm \<rparr>) w r) w)"

definition activate_window :: "('s, 'w, 'o) desk_api \<Rightarrow> ('s, 'w) desktop \<Rightarrow> 'w \<Rightarrow> ('s, 'w) desktop" where
  "activate_window api d w =
    (let d1 = (case take_minimized (layouts d) w of
                 (_, None) \<Rightarrow> d
               | (lm, Some r) \<Rightarrow> restore_at api (d\<lparr> layouts := lm \<rparr>) w r);
         d2 = (case workspace_of (manager d1) w of
                 Some ws \<Rightarrow> if ws \<noteq> active (manager d1) then focus_workspace_id api d1 ws else d1
               | None \<Rightarrow> d1)
     in focus_window api d2 w)"

text \<open>\<open>new_toplevel\<close>, with the location \<open>center_for_new_window\<close> chose.\<close>

definition new_toplevel :: "('s, 'w, 'o) desk_api \<Rightarrow> ('s, 'w) desktop \<Rightarrow> 'w \<Rightarrow> point \<Rightarrow> ('s, 'w) desktop" where
  "new_toplevel api d w l =
    (let act = active (manager d);
         d1 = d\<lparr> space := map_element api (space d) w l, manager := assign (manager d) w act l,
                 foreign := w # foreign d \<rparr>
     in focus_window api (emit (WindowOpened w (one_based act)) d1) w)"

text \<open>\<open>find_window\<close>: mapped windows, then those the workspace manager tracks.\<close>

definition find_window :: "('s, 'w, 'o) desk_api \<Rightarrow> ('s, 'w) desktop \<Rightarrow> 'w \<Rightarrow> bool" where
  "find_window api d w \<longleftrightarrow> w \<in> set (space_elements api (space d)) \<or> map_of (windows (manager d)) w \<noteq> None"

definition toplevel_destroyed :: "('s, 'w, 'o) desk_api \<Rightarrow> ('s, 'w) desktop \<Rightarrow> 'w \<Rightarrow> ('s, 'w) desktop" where
  "toplevel_destroyed api d w =
    (if \<not> find_window api d w then d
     else
       (let d1 = d\<lparr> space := unmap_elem api (space d) w, layouts := forget (layouts d) w,
                    manager := forget_window (manager d) w, sticky := sticky d - {w} \<rparr>
        in if w \<in> set (foreign d)
           then emit (WindowClosed w) (d1\<lparr> foreign := filter (\<lambda>v. v \<noteq> w) (foreign d) \<rparr>)
           else d1))"

section \<open>What the operations change\<close>

lemma map_of_map_entry:
  "map_of (AList.map_entry k f xs) v = (if v = k then map_option f (map_of xs k) else map_of xs v)"
  by (induction xs) auto

lemma workspace_of_simps [simp]:
  "workspace_of (assign m w ws l) v = (if v = w then Some ws else workspace_of m v)"
  "workspace_of (reassign m w ws) v =
     (if v = w then map_option (\<lambda>_. ws) (workspace_of m w) else workspace_of m v)"
  "workspace_of (record_location m w l) v = workspace_of m v"
  "workspace_of (forget_window m w) v = (if v = w then None else workspace_of m v)"
  "workspace_of (record_focus m i w) v = workspace_of m v"
  "workspace_of (remove_from_active_focus m i w) v = workspace_of m v"
  "workspace_of (set_active m i) v = workspace_of m v"
  "workspace_of (m\<lparr> focus_history := h \<rparr>) v = workspace_of m v"
  by (simp_all add: workspace_of_def assign_def reassign_def record_location_def forget_window_def
        record_focus_def remove_from_active_focus_def set_active_def update_conv' delete_conv'
        map_of_map_entry option.map_comp comp_def)

lemma saved_location_simps [simp]:
  "saved_location_of (reassign m w ws) v = saved_location_of m v"
  "saved_location_of (record_location m w l) v =
     (if v = w then map_option (\<lambda>_. l) (saved_location_of m w) else saved_location_of m v)"
  "saved_location_of (record_focus m i w) v = saved_location_of m v"
  "saved_location_of (remove_from_active_focus m i w) v = saved_location_of m v"
  "saved_location_of (set_active m i) v = saved_location_of m v"
  "saved_location_of (m\<lparr> focus_history := h \<rparr>) v = saved_location_of m v"
  by (simp_all add: saved_location_of_def reassign_def record_location_def
        record_focus_def remove_from_active_focus_def set_active_def
        map_of_map_entry option.map_comp comp_def)

lemma active_simps [simp]:
  "active (assign m w ws l) = active m" "active (reassign m w ws) = active m"
  "active (record_location m w l) = active m" "active (forget_window m w) = active m"
  "active (record_focus m i w) = active m" "active (remove_from_active_focus m i w) = active m"
  "active (set_active m i) = i" "active (prune_dead al m) = active m"
  by (simp_all add: assign_def reassign_def record_location_def forget_window_def
        record_focus_def remove_from_active_focus_def set_active_def prune_dead_def)

lemma tracked_saved: "saved_location_of m w = None \<longleftrightarrow> workspace_of m w = None"
  by (simp add: saved_location_of_def workspace_of_def)

text \<open>The manager's own invariant.\<close>

definition ws_ok :: "'w workspace_manager \<Rightarrow> bool" where
  "ws_ok m \<longleftrightarrow> active m < count m \<and> length (focus_history m) = count m \<and>
     distinct (map fst (windows m)) \<and> (\<forall>(w, i) \<in> set (windows m). workspace i < count m)"

lemma keys_map_entry [simp]: "map fst (AList.map_entry k f xs) = map fst xs"
  by (induction xs) auto

lemma mem_map_entry:
  "x \<in> set (AList.map_entry k f xs) \<Longrightarrow> x \<in> set xs \<or> (\<exists>y. (k, y) \<in> set xs \<and> x = (k, f y))"
  by (induction xs) (auto split: if_splits)

lemma mem_update:
  "distinct (map fst xs) \<Longrightarrow> (w, i) \<in> set (AList.update k y xs) \<Longrightarrow> (w = k \<and> i = y) \<or> (w, i) \<in> set xs"
  by (metis distinct_update map_of_eq_Some_iff update_Some_unfold)

lemma ws_ok_simps:
  "ws_ok m \<Longrightarrow> ws < count m \<Longrightarrow> ws_ok (assign m w ws l)"
  "ws_ok m \<Longrightarrow> ws < count m \<Longrightarrow> ws_ok (reassign m w ws)"
  "ws_ok m \<Longrightarrow> ws_ok (record_location m w l)"
  "ws_ok m \<Longrightarrow> ws_ok (forget_window m w)"
  "ws_ok m \<Longrightarrow> ws_ok (record_focus m i w)"
  "ws_ok m \<Longrightarrow> ws_ok (remove_from_active_focus m i w)"
  "ws_ok m \<Longrightarrow> ws < count m \<Longrightarrow> ws_ok (set_active m ws)"
  "ws_ok m \<Longrightarrow> ws_ok (prune_dead al m)"
proof -
  assume ok: "ws_ok m"
  show "ws_ok (assign m w ws l)" if "ws < count m"
    using ok that by (auto simp: ws_ok_def assign_def distinct_update dest!: mem_update)
  show "ws_ok (reassign m w ws)" if "ws < count m"
    using ok that by (fastforce simp: ws_ok_def reassign_def dest!: mem_map_entry)
  show "ws_ok (record_location m w l)"
    using ok by (fastforce simp: ws_ok_def record_location_def dest!: mem_map_entry)
  show "ws_ok (forget_window m w)"
    using ok by (auto simp: ws_ok_def forget_window_def AList.delete_eq distinct_map_filter)
  show "ws_ok (record_focus m i w)" using ok by (simp add: ws_ok_def record_focus_def)
  show "ws_ok (remove_from_active_focus m i w)"
    using ok by (simp add: ws_ok_def remove_from_active_focus_def)
  show "ws_ok (set_active m ws)" if "ws < count m"
    using ok that by (simp add: ws_ok_def set_active_def)
  show "ws_ok (prune_dead al m)"
    using ok by (auto simp: ws_ok_def prune_dead_def distinct_map_filter)
qed

lemma count_simps [simp]:
  "count (assign m w ws l) = count m" "count (reassign m w ws) = count m"
  "count (record_location m w l) = count m" "count (forget_window m w) = count m"
  "count (record_focus m i w) = count m" "count (remove_from_active_focus m i w) = count m"
  "count (set_active m i) = count m" "count (prune_dead al m) = count m"
  by (simp_all add: assign_def reassign_def record_location_def forget_window_def
        record_focus_def remove_from_active_focus_def set_active_def prune_dead_def)

lemma workspace_of_less: "ws_ok m \<Longrightarrow> workspace_of m w = Some i \<Longrightarrow> i < count m"
  by (auto simp: ws_ok_def workspace_of_def dest!: map_of_SomeD)

lemma map_of_filter_key: "map_of (filter (\<lambda>(w, _). P w) xs) v = (if P v then map_of xs v else None)"
  by (induction xs) auto

lemma workspace_of_prune [simp]:
  "workspace_of (prune_dead al m) v = (if al v then workspace_of m v else None)"
  "saved_location_of (prune_dead al m) v = (if al v then saved_location_of m v else None)"
  by (simp_all add: workspace_of_def saved_location_of_def prune_dead_def map_of_filter_key)

lemma windows_on_iff:
  "distinct (map fst (windows m)) \<Longrightarrow> w \<in> set (windows_on m ws) \<longleftrightarrow> workspace_of m w = Some ws"
  by (force simp: windows_on_def workspace_of_def)

section \<open>What the code relies on of the space\<close>

definition desk_laws :: "('s, 'w, 'o) desk_api \<Rightarrow> bool" where
  "desk_laws api \<longleftrightarrow>
     (\<forall>s w l v. element_location api (map_element api s w l) v =
        (if v = w then Some l else element_location api s v)) \<and>
     (\<forall>s w v. element_location api (unmap_elem api s w) v =
        (if v = w then None else element_location api s v)) \<and>
     (\<forall>s w v. element_location api (raise_element api s w) v = element_location api s v) \<and>
     (\<forall>s w. w \<in> set (space_elements api s) \<longleftrightarrow> element_location api s w \<noteq> None)"

lemma desk_lawsD:
  assumes "desk_laws api"
  shows "element_location api (map_element api s w l) v =
      (if v = w then Some l else element_location api s v)"
    and "element_location api (unmap_elem api s w) v =
      (if v = w then None else element_location api s v)"
    and "element_location api (raise_element api s w) v = element_location api s v"
    and "w \<in> set (space_elements api s) \<longleftrightarrow> element_location api s w \<noteq> None"
  using assms unfolding desk_laws_def by blast+

lemma ws_ok_history: "ws_ok m \<Longrightarrow> ws_ok (m\<lparr> focus_history := (focus_history m)[i := stk] \<rparr>)"
  by (simp add: ws_ok_def)

text \<open>Focusing changes neither what is mapped where nor what belongs where.\<close>

definition same_desk :: "('s, 'w, 'o) desk_api \<Rightarrow> ('s, 'w) desktop \<Rightarrow> ('s, 'w) desktop \<Rightarrow> bool" where
  "same_desk api d d' \<longleftrightarrow> element_location api (space d') = element_location api (space d) \<and>
     workspace_of (manager d') = workspace_of (manager d) \<and>
     saved_location_of (manager d') = saved_location_of (manager d) \<and>
     active (manager d') = active (manager d) \<and> count (manager d') = count (manager d) \<and>
     (ws_ok (manager d) \<longrightarrow> ws_ok (manager d')) \<and>
     layouts d' = layouts d \<and> sticky d' = sticky d \<and> alive d' = alive d \<and> locked d' = locked d \<and>
     foreign d' = foreign d"

lemma same_desk_refl [simp]: "same_desk api d d"
  by (simp add: same_desk_def)

lemma same_desk_trans: "same_desk api d d1 \<Longrightarrow> same_desk api d1 d2 \<Longrightarrow> same_desk api d d2"
  by (simp add: same_desk_def)

lemma same_desk_emit [simp]:
  "same_desk api d (emit e d')  = same_desk api d d'"
  "same_desk api d (emit_for w e d') = same_desk api d d'"
  by (simp_all add: same_desk_def emit_def emit_for_def)

lemma same_focus: "desk_laws api \<Longrightarrow> same_desk api d (focus_window api d w)"
  by (auto simp: focus_window_def same_desk_def emit_def fun_eq_iff desk_lawsD ws_ok_simps)

lemma same_clear: "same_desk api d (clear_focus d)"
  by (simp add: clear_focus_def same_desk_def emit_def)

lemma same_refocus:
  assumes "desk_laws api"
  shows "same_desk api d (refocus api d ws)"
proof -
  obtain stk pick where p: "pick_stack (alive d) (\<lambda>w. w \<in> set (space_elements api (space d)))
      (focus_history (manager d) ! ws) = (stk, pick)" by fastforce
  let ?d = "d\<lparr> manager := (manager d)\<lparr> focus_history := (focus_history (manager d))[ws := stk] \<rparr> \<rparr>"
  have "same_desk api d ?d"
    by (simp add: same_desk_def fun_eq_iff ws_ok_history)
  from same_desk_trans [OF this same_focus [OF assms]] same_desk_trans [OF this same_clear]
  show ?thesis by (simp add: refocus_def p Let_def split: option.splits)
qed

section \<open>A workspace switch\<close>

lemma fold_save_location:
  assumes "ws_ok m"
  shows "ws_ok (foldl (save_location api s) m ws) \<and>
    workspace_of (foldl (save_location api s) m ws) = workspace_of m \<and>
    active (foldl (save_location api s) m ws) = active m \<and>
    count (foldl (save_location api s) m ws) = count m \<and>
    (\<forall>v. saved_location_of (foldl (save_location api s) m ws) v =
       (if v \<in> set ws \<and> element_location api s v \<noteq> None \<and> workspace_of m v \<noteq> None
        then element_location api s v else saved_location_of m v))"
  using assms
proof (induction ws arbitrary: m)
  case Nil
  then show ?case by simp
next
  case (Cons w ws)
  have same: "ws_ok (save_location api s m w)" "workspace_of (save_location api s m w) = workspace_of m"
    "active (save_location api s m w) = active m" "count (save_location api s m w) = count m"
    using Cons.prems by (auto simp: save_location_def ws_ok_simps fun_eq_iff split: option.splits)
  have loc: "saved_location_of (save_location api s m w) v =
      (if v = w \<and> element_location api s w \<noteq> None \<and> workspace_of m w \<noteq> None
       then element_location api s w else saved_location_of m v)" for v
    using tracked_saved [of m w] by (auto simp: save_location_def split: option.splits)
  show ?case using Cons.IH [OF same(1)] by (auto simp: same loc)
qed

lemma fold_unmap:
  assumes "desk_laws api"
  shows "element_location api (foldl (\<lambda>s w. if w \<in> keep then s else unmap_elem api s w) s ws) v =
    (if v \<in> set ws \<and> v \<notin> keep then None else element_location api s v)"
  by (induction ws arbitrary: s) (auto simp: desk_lawsD [OF assms])

lemma fold_reassign:
  assumes "ws_ok m" "t < count m"
  shows "ws_ok (foldl (\<lambda>m w. if w \<in> keep then reassign m w t else m) m ws) \<and>
    active (foldl (\<lambda>m w. if w \<in> keep then reassign m w t else m) m ws) = active m \<and>
    count (foldl (\<lambda>m w. if w \<in> keep then reassign m w t else m) m ws) = count m \<and>
    saved_location_of (foldl (\<lambda>m w. if w \<in> keep then reassign m w t else m) m ws) = saved_location_of m \<and>
    (\<forall>v. workspace_of (foldl (\<lambda>m w. if w \<in> keep then reassign m w t else m) m ws) v =
      (if v \<in> set ws \<and> v \<in> keep then map_option (\<lambda>_. t) (workspace_of m v) else workspace_of m v))"
  using assms
proof (induction ws arbitrary: m)
  case Nil
  then show ?case by simp
next
  case (Cons w ws)
  show ?case
  proof (cases "w \<in> keep")
    case True
    have "ws_ok (reassign m w t)" "t < count (reassign m w t)"
      using Cons.prems by (simp_all add: ws_ok_simps)
    from Cons.IH [OF this] True show ?thesis
      by (auto simp: fun_eq_iff option.map_comp comp_def)
  next
    case False
    with Cons show ?thesis by auto
  qed
qed

lemma fold_map_back:
  assumes "desk_laws api"
  shows "element_location api (foldl (map_back api d) s ws) v =
    (if element_location api s v \<noteq> None then element_location api s v
     else if v \<in> set ws \<and> \<not> is_minimized (layouts d) v
     then Some (case saved_location_of (manager d) v of Some l \<Rightarrow> l | None \<Rightarrow> (0, 0))
     else None)"
proof (induction ws arbitrary: s)
  case Nil
  then show ?case by (cases "element_location api s v") simp_all
next
  case (Cons w ws)
  have step: "element_location api (map_back api d s w) v =
    (if element_location api s v \<noteq> None then element_location api s v
     else if v = w \<and> \<not> is_minimized (layouts d) v
     then Some (case saved_location_of (manager d) v of Some l \<Rightarrow> l | None \<Rightarrow> (0, 0))
     else None)"
    by (cases "v = w"; cases "element_location api s v"; cases "element_location api s w")
       (simp_all add: map_back_def desk_lawsD [OF assms])
  show ?case by (simp add: Cons.IH step del: split_paired_All split_paired_Ex not_None_eq)
qed

text \<open>
  The effect of \<open>focus_workspace_id\<close>: who is tracked where, what is mapped where, and what is
  remembered.
\<close>

lemma focus_workspace_effect:
  assumes laws: "desk_laws api" and ok: "ws_ok (manager d)" and t: "target < count (manager d)"
    and ne: "active (manager d) \<noteq> target"
  defines "d' \<equiv> focus_workspace_id api d target"
  shows "ws_ok (manager d')" "active (manager d') = target" "count (manager d') = count (manager d)"
    "layouts d' = layouts d" "sticky d' = sticky d" "alive d' = alive d" "locked d' = locked d"
    "foreign d' = foreign d"
    "\<And>v. workspace_of (manager d') v =
       (if \<not> alive d v then None
        else if v \<in> sticky d \<and> element_location api (space d) v \<noteq> None
        then map_option (\<lambda>_. target) (workspace_of (manager d) v) else workspace_of (manager d) v)"
    "\<And>v. saved_location_of (manager d') v =
       (if \<not> alive d v then None
        else if element_location api (space d) v \<noteq> None \<and> workspace_of (manager d) v \<noteq> None
        then element_location api (space d) v else saved_location_of (manager d) v)"
    "\<And>v. element_location api (space d') v =
       (if v \<in> sticky d \<and> element_location api (space d) v \<noteq> None then element_location api (space d) v
        else if workspace_of (manager d') v = Some target \<and> \<not> is_minimized (layouts d) v
        then Some (case saved_location_of (manager d') v of Some l \<Rightarrow> l | None \<Rightarrow> (0, 0))
        else None)"
proof -
  let ?cur = "active (manager d)" and ?els = "space_elements api (space d)"
  define m1 where "m1 = prune_dead (alive d) (manager d)"
  define m2 where "m2 = (case focused_window api d of Some w \<Rightarrow> record_focus m1 ?cur w | None \<Rightarrow> m1)"
  define m3 where "m3 = foldl (save_location api (space d)) m2 ?els"
  define s1 where "s1 = foldl (\<lambda>s w. if w \<in> sticky d then s else unmap_elem api s w) (space d) ?els"
  define m5 where "m5 = foldl (\<lambda>m w. if w \<in> sticky d then reassign m w target else m) (set_active m3 target) ?els"
  define s2 where "s2 = foldl (map_back api (d\<lparr> manager := m5 \<rparr>)) s1 (windows_on m5 target)"
  define d2 where "d2 = d\<lparr> manager := m5, space := s2 \<rparr>"
  have d': "d' = emit (WorkspaceChanged (one_based target)) (refocus api d2 target)"
    unfolding d'_def focus_workspace_id_def Let_def d2_def s2_def m5_def s1_def m3_def m2_def m1_def
    using ne by simp
  have els: "w \<in> set ?els \<longleftrightarrow> element_location api (space d) w \<noteq> None" for w
    by (rule desk_lawsD(4) [OF laws])
  have m2: "ws_ok m2" "count m2 = count (manager d)"
    "workspace_of m2 v = (if alive d v then workspace_of (manager d) v else None)"
    "saved_location_of m2 v = (if alive d v then saved_location_of (manager d) v else None)" for v
    using ok by (auto simp: m2_def m1_def ws_ok_simps split: option.splits)
  note m3 = fold_save_location [OF m2(1), of api "space d" ?els, folded m3_def]
  have m4: "ws_ok (set_active m3 target)" "target < count (set_active m3 target)"
    using m3 m2(2) t by (auto intro: ws_ok_simps)
  note m5 = fold_reassign [OF m4, of "sticky d" ?els, folded m5_def]
  have ws: "workspace_of m5 v =
       (if \<not> alive d v then None
        else if v \<in> sticky d \<and> element_location api (space d) v \<noteq> None
        then map_option (\<lambda>_. target) (workspace_of (manager d) v) else workspace_of (manager d) v)" for v
    using m5 m3 m2(3) [of v] els [of v] by (simp del: not_None_eq split_paired_Ex)
  have sl: "saved_location_of m5 v =
       (if \<not> alive d v then None
        else if element_location api (space d) v \<noteq> None \<and> workspace_of (manager d) v \<noteq> None
        then element_location api (space d) v else saved_location_of (manager d) v)" for v
    using m5 m3 m2(3,4) [of v] els [of v] by (simp del: not_None_eq split_paired_Ex)
  have s1: "element_location api s1 v =
      (if v \<in> sticky d then element_location api (space d) v else None)" for v
    unfolding s1_def fold_unmap [OF laws] using els [of v] by (simp del: not_None_eq split_paired_Ex)
  have on: "v \<in> set (windows_on m5 target) \<longleftrightarrow> workspace_of m5 v = Some target" for v
    using m5 by (intro windows_on_iff) (simp add: ws_ok_def)
  have s2: "element_location api s2 v =
      (if v \<in> sticky d \<and> element_location api (space d) v \<noteq> None then element_location api (space d) v
        else if workspace_of m5 v = Some target \<and> \<not> is_minimized (layouts d) v
        then Some (case saved_location_of m5 v of Some l \<Rightarrow> l | None \<Rightarrow> (0, 0))
        else None)" for v
    unfolding s2_def fold_map_back [OF laws] s1 on by (simp del: not_None_eq split_paired_Ex)
  have same: "same_desk api d2 d'"
    using same_refocus [OF laws, of d2 target] by (simp add: d')
  have ok5: "ws_ok m5" "active m5 = target" "count m5 = count (manager d)"
    using m5 m3 m2(2) by simp_all
  from same ok5 show "ws_ok (manager d')" "active (manager d') = target"
    "count (manager d') = count (manager d)" "layouts d' = layouts d" "sticky d' = sticky d"
    "alive d' = alive d" "locked d' = locked d" "foreign d' = foreign d"
    by (simp_all add: same_desk_def d2_def)
  have w': "workspace_of (manager d') = workspace_of m5"
    "saved_location_of (manager d') = saved_location_of m5"
    "element_location api (space d') = element_location api s2"
    using same by (simp_all add: same_desk_def d2_def)
  show "workspace_of (manager d') v =
       (if \<not> alive d v then None
        else if v \<in> sticky d \<and> element_location api (space d) v \<noteq> None
        then map_option (\<lambda>_. target) (workspace_of (manager d) v) else workspace_of (manager d) v)" for v
    unfolding w' by (rule ws)
  show "saved_location_of (manager d') v =
       (if \<not> alive d v then None
        else if element_location api (space d) v \<noteq> None \<and> workspace_of (manager d) v \<noteq> None
        then element_location api (space d) v else saved_location_of (manager d) v)" for v
    unfolding w' by (rule sl)
  show "element_location api (space d') v =
       (if v \<in> sticky d \<and> element_location api (space d) v \<noteq> None then element_location api (space d) v
        else if workspace_of (manager d') v = Some target \<and> \<not> is_minimized (layouts d) v
        then Some (case saved_location_of (manager d') v of Some l \<Rightarrow> l | None \<Rightarrow> (0, 0))
        else None)" for v
    unfolding w' by (rule s2)
qed

section \<open>The invariant of the desktop\<close>

text \<open>
  A live window is mapped exactly when the manager has it on the active workspace, a sticky
  one is never left on another workspace, and a minimized one is on none.
\<close>

definition mapped :: "('s, 'w, 'o) desk_api \<Rightarrow> ('s, 'w) desktop \<Rightarrow> 'w \<Rightarrow> bool" where
  "mapped api d w \<longleftrightarrow> element_location api (space d) w \<noteq> None"

definition window_ok :: "('s, 'w, 'o) desk_api \<Rightarrow> ('s, 'w) desktop \<Rightarrow> 'w \<Rightarrow> bool" where
  "window_ok api d w \<longleftrightarrow>
     (is_minimized (layouts d) w \<longrightarrow> workspace_of (manager d) w = None) \<and>
     (mapped api d w \<longleftrightarrow> workspace_of (manager d) w = Some (active (manager d))) \<and>
     (w \<in> sticky d \<longrightarrow> workspace_of (manager d) w \<in> {None, Some (active (manager d))})"

text \<open>The invariant for the windows of a set, and for all windows.\<close>

definition desk_on :: "'w set \<Rightarrow> ('s, 'w, 'o) desk_api \<Rightarrow> ('s, 'w) desktop \<Rightarrow> bool" where
  "desk_on X api d \<longleftrightarrow> ws_ok (manager d) \<and> distinct (map fst (minimized (layouts d))) \<and>
     (\<forall>w \<in> X. alive d w \<longrightarrow> window_ok api d w)"

abbreviation desk_ok :: "('s, 'w, 'o) desk_api \<Rightarrow> ('s, 'w) desktop \<Rightarrow> bool" where
  "desk_ok \<equiv> desk_on UNIV"

lemma desk_ok_def: "desk_ok api d \<longleftrightarrow> ws_ok (manager d) \<and> distinct (map fst (minimized (layouts d))) \<and>
     (\<forall>w. alive d w \<longrightarrow> window_ok api d w)"
  by (simp add: desk_on_def)

text \<open>The operations, as the keyboard bindings, the clients and the control socket call them.\<close>

inductive desk_step :: "('s, 'w, 'o) desk_api \<Rightarrow> ('s, 'w) desktop \<Rightarrow> ('s, 'w) desktop \<Rightarrow> bool" for api where
  Switch: "t < count (manager d) \<Longrightarrow> desk_step api d (focus_workspace_id api d t)"
| Move: "t < count (manager d) \<Longrightarrow> desk_step api d (move_window_to_workspace api d w t)"
| MoveFollowing: "t < count (manager d) \<Longrightarrow> desk_step api d (move_window_to_workspace_following api d w t)"
| MoveById: "move_window_to_workspace_by_id api d w i = Inr d' \<Longrightarrow> desk_step api d d'"
| Stick: "on \<longrightarrow> workspace_of (manager d) w \<in> {None, Some (active (manager d))} \<Longrightarrow>
    desk_step api d (set_sticky d w on)"
| Minimize: "desk_step api d (minimize_window api d w)"
| Unminimize: "desk_step api d (unminimize_window api d w)"
| UnminimizeLast: "desk_step api d (unminimize_last api d)"
| Activate: "desk_step api d (activate_window api d w)"
| Open: "\<not> is_minimized (layouts d) w \<Longrightarrow> desk_step api d (new_toplevel api d w l)"
| Close: "desk_step api d (toplevel_destroyed api d w)"
| Place: "mapped api d w \<Longrightarrow> desk_step api d (d\<lparr> space := map_element api (space d) w l \<rparr>)"
| Focus: "desk_step api d (focus_window api d w)"
| KeyboardElsewhere: "desk_step api d (d\<lparr> kb_focus := f \<rparr>)"
| Dies: "desk_step api d (d\<lparr> alive := (alive d)(w := False) \<rparr>)"
| Lock: "desk_step api d (d\<lparr> locked := b \<rparr>)"

lemma desk_ok_same: "same_desk api d d' \<Longrightarrow> desk_on X api d \<Longrightarrow> desk_on X api d'"
  by (simp add: same_desk_def desk_on_def window_ok_def mapped_def)

lemma desk_ok_ignores:
  "desk_on X api (emit e d) = desk_on X api d" "desk_on X api (d\<lparr> foreign := fs \<rparr>) = desk_on X api d"
  "desk_on X api (d\<lparr> kb_focus := f \<rparr>) = desk_on X api d" "desk_on X api (d\<lparr> locked := b \<rparr>) = desk_on X api d"
  "desk_on X api (d\<lparr> space := s, manager := m, foreign := fs \<rparr>) = desk_on X api (d\<lparr> space := s, manager := m \<rparr>)"
  "desk_on X api (d\<lparr> layouts := layouts d, space := s, manager := m \<rparr>) = desk_on X api (d\<lparr> space := s, manager := m \<rparr>)"
  by (simp_all add: desk_on_def window_ok_def mapped_def emit_def)

lemma is_minimized_iff: "is_minimized lm w \<longleftrightarrow> w \<in> fst ` set (minimized lm)"
  by (force simp: is_minimized_def list_ex_iff)

lemma is_minimized_simps [simp]:
  "is_minimized (push_minimized lm w r) v \<longleftrightarrow> v = w \<or> is_minimized lm v"
  "is_minimized (forget lm w) v \<longleftrightarrow> v \<noteq> w \<and> is_minimized lm v"
  by (force simp: is_minimized_iff push_minimized_def forget_def)+

lemma take_minimized_Some:
  assumes "take_minimized lm w = (lm', Some r)" "distinct (map fst (minimized lm))"
  shows "distinct (map fst (minimized lm'))" "is_minimized lm' v \<longleftrightarrow> is_minimized lm v \<and> v \<noteq> w"
    "is_minimized lm w"
proof -
  obtain pos where p: "position (\<lambda>(mw, _). mw = w) (minimized lm) = Some pos"
    "lm' = lm\<lparr> minimized := remove_at pos (minimized lm) \<rparr>"
    using assms(1) by (auto simp: take_minimized_def split: option.splits)
  have "pos < length (minimized lm)" "fst (minimized lm ! pos) = w"
    using position_SomeD [OF p(1)] by (auto split: prod.splits)
  then obtain xs y ys where l: "minimized lm = xs @ y # ys" "length xs = pos" "fst y = w"
    by (metis id_take_nth_drop length_take min.absorb4)
  have "remove_at pos (minimized lm) = xs @ ys"
    using l by (simp add: remove_at_def)
  then have m: "map fst (minimized lm) = map fst xs @ w # map fst ys"
    "map fst (minimized lm') = map fst xs @ map fst ys" using l by (simp_all add: p)
  have mem: "is_minimized k v \<longleftrightarrow> v \<in> set (map fst (minimized k))" for k v
    by (simp add: is_minimized_iff)
  show "distinct (map fst (minimized lm'))"
    "is_minimized lm' v \<longleftrightarrow> is_minimized lm v \<and> v \<noteq> w" "is_minimized lm w"
    using assms(2) unfolding mem m by auto
qed

lemma pop_live_keeps: "pop_live al ms = (rest, got) \<Longrightarrow> \<exists>pre. ms = pre @ rest \<and>
    (case got of None \<Rightarrow> rest = [] | Some x \<Rightarrow> \<exists>dead. pre = dead @ [x])"
  by (induction al ms rule: pop_live.induct) (fastforce split: if_splits option.splits)+

lemma pop_live_minimized_effect:
  assumes "pop_live_minimized al lm = (lm', got)" "distinct (map fst (minimized lm))"
  shows "distinct (map fst (minimized lm'))" "is_minimized lm' v \<Longrightarrow> is_minimized lm v"
    "got = Some (w, r) \<Longrightarrow> is_minimized lm w \<and> \<not> is_minimized lm' w"
proof -
  obtain rest where r: "pop_live al (rev (minimized lm)) = (rest, got)" "lm' = lm\<lparr> minimized := rev rest \<rparr>"
    using assms(1) by (auto simp: pop_live_minimized_def split: prod.splits)
  obtain pre where pre: "rev (minimized lm) = pre @ rest"
    "got = Some (w, r) \<longrightarrow> (\<exists>dead. pre = dead @ [(w, r)])" using pop_live_keeps [OF r(1)] by (cases got) auto
  then have l: "minimized lm = rev rest @ rev pre" by (metis rev_append rev_rev_ident)
  with assms(2) pre(2) show "distinct (map fst (minimized lm'))"
    "is_minimized lm' v \<Longrightarrow> is_minimized lm v"
    "got = Some (w, r) \<Longrightarrow> is_minimized lm w \<and> \<not> is_minimized lm' w"
    by (auto simp: r(2) is_minimized_iff rev_map [symmetric])
qed

lemma desk_ok_switch:
  assumes laws: "desk_laws api" and t: "t < count (manager d)" "active (manager d) \<noteq> t"
    and ok: "ws_ok (manager d)" "distinct (map fst (minimized (layouts d)))"
    and w: "\<And>w. w \<in> X \<Longrightarrow> alive d w \<Longrightarrow> (is_minimized (layouts d) w \<longrightarrow> workspace_of (manager d) w = None) \<and>
       (mapped api d w \<longrightarrow> workspace_of (manager d) w \<noteq> None) \<and>
       (w \<in> sticky d \<and> workspace_of (manager d) w \<noteq> None \<longrightarrow> mapped api d w)"
  shows "desk_on X api (focus_workspace_id api d t)"
proof -
  note e = focus_workspace_effect [OF laws ok(1) t]
  show ?thesis
    unfolding desk_on_def
  proof (intro conjI ballI impI)
    fix v assume "v \<in> X" "alive (focus_workspace_id api d t) v"
    then have "v \<in> X" "alive d v" by (simp_all add: e)
    from w [OF this] this show "window_ok api (focus_workspace_id api d t) v"
      unfolding window_ok_def mapped_def e by (cases "workspace_of (manager d) v") (auto simp: e)
  qed (use ok in \<open>simp_all add: e\<close>)
qed

text \<open>A window that leaves the active workspace, or joins it.\<close>

lemma ws_ok_save: "ws_ok m \<Longrightarrow> ws_ok (save_location api s m w)"
  "workspace_of (save_location api s m w) = workspace_of m"
  "active (save_location api s m w) = active m" "count (save_location api s m w) = count m"
  by (auto simp: save_location_def ws_ok_simps fun_eq_iff split: option.splits)

lemma ws_ok_active:
  "ws_ok m \<Longrightarrow> ws_ok (assign m w (active m) l)" "ws_ok m \<Longrightarrow> ws_ok (reassign m w (active m))"
proof -
  assume "ws_ok m"
  moreover from this have "active m < count m" by (simp add: ws_ok_def)
  ultimately show "ws_ok (assign m w (active m) l)" "ws_ok (reassign m w (active m))"
    by (simp_all add: ws_ok_simps)
qed

lemma desk_ok_restore:
  assumes laws: "desk_laws api" and ok: "desk_on X api d" and lm: "distinct (map fst (minimized lm))"
    "\<And>v. is_minimized lm v \<Longrightarrow> is_minimized (layouts d) v" "\<not> is_minimized lm w"
  shows "desk_on X api (restore_at api (d\<lparr> layouts := lm \<rparr>) w r)"
  using ok lm unfolding desk_on_def window_ok_def mapped_def restore_at_def
  by (auto simp: desk_lawsD [OF laws] ws_ok_active)

lemma desk_ok_move:
  assumes laws: "desk_laws api" and ok: "desk_on X api d" and t: "t < count (manager d)"
  shows "desk_on X api (move_window_to_workspace api d w t)"
proof -
  let ?act = "active (manager d)"
  let ?m = "remove_from_active_focus (record_focus (reassign (save_location api (space d) (manager d) w) w t) t w) ?act w"
  let ?d = "d\<lparr> manager := ?m, space := unmap_elem api (space d) w \<rparr>"
  have "desk_on X api ?d" if "t \<noteq> ?act" "w \<notin> sticky d"
    using ok that t unfolding desk_on_def window_ok_def mapped_def
    by (auto simp: desk_lawsD [OF laws] ws_ok_simps ws_ok_save)
  then have "desk_on X api (emit_for w e ?d)" if "t \<noteq> ?act" "w \<notin> sticky d" for e
    by (rule desk_ok_same [rotated]) (simp_all add: that)
  then show ?thesis
    using ok desk_ok_same [OF same_refocus [OF laws]]
    by (simp add: move_window_to_workspace_def Let_def)
qed

lemma desk_ok_move_following:
  assumes laws: "desk_laws api" and ok: "desk_on X api d" and t: "t < count (manager d)"
  shows "desk_on X api (move_window_to_workspace_following api d w t)"
proof (cases "t = active (manager d)")
  case True
  then show ?thesis using ok by (simp add: move_window_to_workspace_following_def)
next
  case False
  define m where "m = remove_from_active_focus (record_focus (reassign
     (save_location api (space d) (manager d) w) w t) t w) (active (manager d)) w"
  define d1 where "d1 = clear_focus (emit_for w (WindowMovedToWorkspace w (one_based t)) (d\<lparr> manager := m \<rparr>))"
  have m: "ws_ok m" "active m = active (manager d)" "count m = count (manager d)"
    "workspace_of m v = (if v = w then map_option (\<lambda>_. t) (workspace_of (manager d) w)
       else workspace_of (manager d) v)" for v
    using ok t by (simp_all add: m_def desk_on_def ws_ok_simps ws_ok_save)
  have same: "same_desk api (d\<lparr> manager := m \<rparr>) d1"
    using same_clear [of api "emit_for w (WindowMovedToWorkspace w (one_based t)) (d\<lparr> manager := m \<rparr>)"]
    unfolding d1_def by (rule same_desk_trans [rotated]) simp
  have "desk_on X api (focus_workspace_id api d1 t)"
  proof (rule desk_ok_switch [OF laws])
    show "t < count (manager d1)" "active (manager d1) \<noteq> t" "ws_ok (manager d1)"
      "distinct (map fst (minimized (layouts d1)))"
      using same m t False ok by (simp_all add: same_desk_def desk_on_def)
    fix v assume "v \<in> X" "alive d1 v"
    then have "window_ok api d v" using ok same by (simp add: same_desk_def desk_on_def)
    then show "(is_minimized (layouts d1) v \<longrightarrow> workspace_of (manager d1) v = None) \<and>
       (mapped api d1 v \<longrightarrow> workspace_of (manager d1) v \<noteq> None) \<and>
       (v \<in> sticky d1 \<and> workspace_of (manager d1) v \<noteq> None \<longrightarrow> mapped api d1 v)"
      using same m(4) [of v] by (auto simp: same_desk_def window_ok_def mapped_def)
  qed
  then show ?thesis
    using False by (simp add: move_window_to_workspace_following_def Let_def d1_def m_def)
qed

lemma desk_ok_move_by_id:
  assumes laws: "desk_laws api" and ok: "desk_on X api d"
    and mv: "move_window_to_workspace_by_id api d w i = Inr d'"
  shows "desk_on X api d'"
proof -
  let ?act = "active (manager d)"
  obtain t cur where t: "from_one_based (manager d) i = Some t" "w \<notin> sticky d"
    "\<not> is_minimized (layouts d) w" "workspace_of (manager d) w = Some cur"
    using mv by (auto simp: move_window_to_workspace_by_id_def split: option.splits if_splits)
  then have lt: "t < count (manager d)" by (auto simp: from_one_based_def split: if_splits)
  show ?thesis
  proof (cases "cur = t")
    case True
    then show ?thesis using mv t ok by (simp add: move_window_to_workspace_by_id_def)
  next
    case False
    define m where "m = remove_from_active_focus (record_focus (reassign
       (save_location api (space d) (manager d) w) w t) t w) cur w"
    define s where "s = (if t = ?act then (if w \<in> set (space_elements api (space d)) then space d
         else map_element api (space d) w (case saved_location_of m w of Some l \<Rightarrow> l | None \<Rightarrow> (0, 0)))
       else if cur = ?act then unmap_elem api (space d) w else space d)"
    let ?d = "emit_for w (WindowMovedToWorkspace w (one_based t)) (d\<lparr> manager := m, space := s \<rparr>)"
    have m: "ws_ok m" "active m = ?act" "count m = count (manager d)"
      "workspace_of m v = (if v = w then Some t else workspace_of (manager d) v)" for v
      using ok lt t by (simp_all add: m_def desk_on_def ws_ok_simps ws_ok_save)
    have "window_ok api (d\<lparr> manager := m, space := s \<rparr>) v" if "v \<in> X" "alive d v" for v
      using ok that t m(2,4) False unfolding desk_on_def window_ok_def mapped_def
      by (cases "v = w") (auto simp: s_def desk_lawsD [OF laws])
    with ok m have "desk_on X api (d\<lparr> manager := m, space := s \<rparr>)" by (simp add: desk_on_def)
    then have "desk_on X api ?d" by (rule desk_ok_same [rotated]) simp
    moreover have "d' = (if focused_window api d = Some w \<and> t \<noteq> ?act then refocus api ?d ?act else ?d)"
      using mv t False unfolding m_def s_def by (simp add: move_window_to_workspace_by_id_def Let_def)
    ultimately show ?thesis
      using desk_ok_same [OF same_refocus [OF laws, of ?d ?act], of X] by presburger
  qed
qed

lemma focused_window_unmapped:
  "desk_laws api \<Longrightarrow> element_location api (space d) w = None \<Longrightarrow> focused_window api d \<noteq> Some w"
  by (auto simp: focused_window_def desk_lawsD split: option.splits if_splits)

lemma minimize_never_clears:
  assumes "desk_laws api" "\<not> is_minimized (layouts d) w"
  shows "minimize_window api d w = d\<lparr> space := unmap_elem api (space d) w,
    manager := forget_window (manager d) w,
    layouts := push_minimized (layouts d) w (rect_at
      (case element_location api (space d) w of Some l \<Rightarrow> l | None \<Rightarrow> (0, 0))
      (geometry_size api (space d) w)) \<rparr>"
proof -
  have "focused_window api (d\<lparr> space := unmap_elem api (space d) w, manager := forget_window (manager d) w \<rparr>) \<noteq> Some w"
    using assms(1) by (rule focused_window_unmapped) (simp add: desk_lawsD [OF assms(1)])
  with assms(2) show ?thesis by (simp add: minimize_window_def Let_def)
qed

lemma desk_ok_minimize:
  assumes laws: "desk_laws api" and ok: "desk_on X api d"
  shows "desk_on X api (minimize_window api d w)"
proof (cases "is_minimized (layouts d) w")
  case True
  with ok show ?thesis by (simp add: minimize_window_def)
next
  case False
  then have "w \<notin> fst ` set (minimized (layouts d))" by (simp add: is_minimized_iff)
  with ok show ?thesis
    unfolding minimize_never_clears [OF laws False] desk_on_def window_ok_def mapped_def
    by (auto simp: desk_lawsD [OF laws] ws_ok_simps) (simp add: push_minimized_def)
qed

lemma desk_ok_focus: "desk_laws api \<Longrightarrow> desk_on X api d \<Longrightarrow> desk_on X api (focus_window api d w)"
  by (rule desk_ok_same [OF same_focus])

lemma desk_ok_taken:
  assumes "desk_laws api" "desk_on X api d" "take_minimized (layouts d) w = (lm, Some r)"
  shows "desk_on X api (restore_at api (d\<lparr> layouts := lm \<rparr>) w r)"
  using assms take_minimized_Some [OF assms(3)]
  by (intro desk_ok_restore) (simp_all add: desk_on_def)

lemma desk_ok_unminimize:
  "desk_laws api \<Longrightarrow> desk_on X api d \<Longrightarrow> desk_on X api (unminimize_window api d w)"
  by (auto simp: unminimize_window_def desk_ok_taken desk_ok_focus split: prod.splits option.splits)

lemma desk_ok_unminimize_last:
  assumes laws: "desk_laws api" and ok: "desk_on X api d"
  shows "desk_on X api (unminimize_last api d)"
proof -
  obtain lm got where p: "pop_live_minimized (alive d) (layouts d) = (lm, got)" by fastforce
  have "distinct (map fst (minimized (layouts d)))" using ok by (simp add: desk_on_def)
  note e = pop_live_minimized_effect [OF p this]
  show ?thesis
  proof (cases got)
    case None
    have "desk_on X api (d\<lparr> layouts := lm \<rparr>)"
      using ok e by (auto simp: desk_on_def window_ok_def mapped_def)
    then show ?thesis by (simp add: unminimize_last_def p None)
  next
    case (Some wr)
    then obtain w r where "got = Some (w, r)" by (cases wr) auto
    with e ok show ?thesis
      by (simp add: unminimize_last_def p desk_ok_focus [OF laws desk_ok_restore [OF laws]])
  qed
qed

lemma desk_ok_focus_workspace:
  assumes laws: "desk_laws api" and ok: "desk_on X api d" and t: "t < count (manager d)"
  shows "desk_on X api (focus_workspace_id api d t)"
proof (cases "active (manager d) = t")
  case True
  then show ?thesis using ok by (simp add: focus_workspace_id_def)
next
  case False
  from laws t False ok show ?thesis
    by (intro desk_ok_switch) (auto simp: desk_on_def window_ok_def)
qed

lemma desk_ok_activate:
  assumes laws: "desk_laws api" and ok: "desk_on X api d"
  shows "desk_on X api (activate_window api d w)"
proof -
  define d1 where "d1 = (case take_minimized (layouts d) w of
                 (_, None) \<Rightarrow> d
               | (lm, Some r) \<Rightarrow> restore_at api (d\<lparr> layouts := lm \<rparr>) w r)"
  have ok1: "desk_on X api d1"
    using ok desk_ok_taken [OF laws ok] by (auto simp: d1_def split: prod.splits option.splits)
  then have "desk_on X api (focus_workspace_id api d1 ws)"
    if "workspace_of (manager d1) w = Some ws" for ws
    using that by (intro desk_ok_focus_workspace [OF laws]) (auto simp: desk_on_def workspace_of_less)
  with ok1 show ?thesis
    by (auto simp: activate_window_def Let_def d1_def [symmetric] intro!: desk_ok_focus [OF laws]
          split: option.splits)
qed

lemma desk_ok_new_toplevel:
  assumes laws: "desk_laws api" and ok: "desk_on X api d" and w: "\<not> is_minimized (layouts d) w"
  shows "desk_on X api (new_toplevel api d w l)"
proof -
  let ?d = "restore_at api (d\<lparr> layouts := layouts d \<rparr>) w (rect_at l (0, 0))"
  have "desk_on X api ?d"
    using ok w by (intro desk_ok_restore [OF laws]) (simp_all add: desk_on_def)
  moreover have "rect_loc (rect_at l (0, 0)) = l" by (cases l) (simp add: rect_loc_def rect_at_def)
  ultimately have "desk_on X api (emit (WindowOpened w (one_based (active (manager d))))
      (d\<lparr> space := map_element api (space d) w l,
          manager := assign (manager d) w (active (manager d)) l, foreign := w # foreign d \<rparr>))"
    by (simp add: restore_at_def desk_ok_ignores)
  then show ?thesis
    unfolding new_toplevel_def Let_def by (rule desk_ok_focus [OF laws])
qed

lemma desk_ok_destroyed:
  assumes laws: "desk_laws api" and ok: "desk_on X api d"
  shows "desk_on X api (toplevel_destroyed api d w)"
proof -
  let ?d = "d\<lparr> space := unmap_elem api (space d) w, layouts := forget (layouts d) w,
                    manager := forget_window (manager d) w, sticky := sticky d - {w} \<rparr>"
  have "distinct (map fst (minimized (forget (layouts d) w)))"
    using ok by (simp add: desk_on_def forget_def distinct_map_filter)
  with ok have d: "desk_on X api (?d\<lparr> foreign := f \<rparr>)" for f
    unfolding desk_on_def window_ok_def mapped_def by (auto simp: desk_lawsD [OF laws] ws_ok_simps)
  have "desk_on X api (emit e (?d\<lparr> foreign := f \<rparr>))" for e f
    using d [of f] by (rule desk_ok_same [rotated]) simp
  with ok d [of "foreign d"] show ?thesis by (simp add: toplevel_destroyed_def Let_def)
qed

lemma desk_ok_sticky:
  assumes ok: "desk_on X api d"
    and "on \<longrightarrow> workspace_of (manager d) w \<in> {None, Some (active (manager d))}"
  shows "desk_on X api (set_sticky d w on)"
proof -
  let ?d = "d\<lparr> sticky := (if on then insert w (sticky d) else sticky d - {w}),
           manager := reassign (manager d) w (active (manager d)) \<rparr>"
  have "window_ok api ?d v" if "(w \<in> sticky d) \<noteq> on" "v \<in> X" "alive d v" for v
  proof -
    have v: "window_ok api d v" using ok that by (simp add: desk_on_def)
    show ?thesis
    proof (cases "v = w")
      case True
      have "workspace_of (manager d) w \<in> {None, Some (active (manager d))}"
        using v assms(2) that(1) True by (cases on) (simp_all add: window_ok_def)
      then have "workspace_of (manager ?d) w = workspace_of (manager d) w" by auto
      with v True \<open>_ \<in> {None, _}\<close> show ?thesis by (simp add: window_ok_def mapped_def)
    qed (use v in \<open>simp add: window_ok_def mapped_def\<close>)
  qed
  with ok have "desk_on X api ?d" if "(w \<in> sticky d) \<noteq> on"
    using that by (simp add: desk_on_def ws_ok_active)
  then have "desk_on X api (emit_for w (WindowStickyChanged w on) ?d)" if "(w \<in> sticky d) \<noteq> on"
    by (rule desk_ok_same [rotated]) (simp_all add: that)
  with ok show ?thesis unfolding set_sticky_def by presburger
qed

lemma desk_ok_place:
  assumes laws: "desk_laws api" and ok: "desk_on X api d" and w: "mapped api d w"
  shows "desk_on X api (d\<lparr> space := map_element api (space d) w l \<rparr>)"
proof -
  have "mapped api (d\<lparr> space := map_element api (space d) w l \<rparr>) v = mapped api d v" for v
    using w by (simp add: mapped_def desk_lawsD [OF laws] del: not_None_eq)
  with ok show ?thesis by (simp add: desk_on_def window_ok_def)
qed

text \<open>
  Two steps do not keep the invariant for their own window: making a window sticky while it is on another
  workspace, and mapping a window that is not mapped, as a drag does. They leave the other windows alone.
\<close>

lemma desk_on_sticky_anywhere:
  assumes ok: "desk_on X api d" and w: "w \<notin> X"
  shows "desk_on X api (set_sticky d w on)"
proof -
  let ?d = "d\<lparr> sticky := (if on then insert w (sticky d) else sticky d - {w}),
           manager := reassign (manager d) w (active (manager d)) \<rparr>"
  have "window_ok api ?d v" if "v \<in> X" "alive d v" for v
  proof -
    have "window_ok api d v" "v \<noteq> w" using ok w that by (auto simp: desk_on_def)
    then show ?thesis by (simp add: window_ok_def mapped_def)
  qed
  with ok have "desk_on X api ?d" by (simp add: desk_on_def ws_ok_active)
  then have "desk_on X api (emit_for w (WindowStickyChanged w on) ?d)" by (rule desk_ok_same [rotated]) simp
  with ok show ?thesis unfolding set_sticky_def by presburger
qed

lemma desk_on_place_anywhere:
  assumes laws: "desk_laws api" and ok: "desk_on X api d" and w: "w \<notin> X"
  shows "desk_on X api (d\<lparr> space := map_element api (space d) w l \<rparr>)"
proof -
  have "mapped api (d\<lparr> space := map_element api (space d) w l \<rparr>) v = mapped api d v" if "v \<in> X" for v
    using w that by (auto simp: mapped_def desk_lawsD [OF laws])
  with ok show ?thesis by (auto simp: desk_on_def window_ok_def)
qed

lemma desk_on_subset: "desk_on X api d \<Longrightarrow> Y \<subseteq> X \<Longrightarrow> desk_on Y api d"
  by (auto simp: desk_on_def)

lemma desk_ok_step:
  assumes laws: "desk_laws api" and step: "desk_step api d d'" and ok: "desk_on X api d"
  shows "desk_on X api d'"
  using step ok
proof cases
  case (Dies w)
  with ok show ?thesis by (auto simp: desk_on_def window_ok_def mapped_def)
qed (simp_all add: desk_ok_focus_workspace [OF laws] desk_ok_move [OF laws]
      desk_ok_move_following [OF laws] desk_ok_move_by_id [OF laws] desk_ok_sticky
      desk_ok_minimize [OF laws] desk_ok_unminimize [OF laws] desk_ok_unminimize_last [OF laws]
      desk_ok_activate [OF laws] desk_ok_new_toplevel [OF laws] desk_ok_destroyed [OF laws]
      desk_ok_place [OF laws] desk_ok_focus [OF laws] desk_ok_ignores)

lemma desk_ok_reachable:
  assumes laws: "desk_laws api"
  shows "(desk_step api)\<^sup>*\<^sup>* d d' \<Longrightarrow> desk_on X api d \<Longrightarrow> desk_on X api d'"
  by (induction rule: rtranclp_induct) (auto intro: desk_ok_step [OF laws])

text \<open>The desktop before the first window.\<close>

definition desktop_start :: "'s \<Rightarrow> 'w workspace_manager \<Rightarrow> ('w \<Rightarrow> bool) \<Rightarrow> ('s, 'w) desktop" where
  "desktop_start s m al = \<lparr> space = s, manager = m, layouts = layout_manager_default, sticky = {},
     kb_focus = None, locked = False, alive = al, foreign = [], emitted = [] \<rparr>"

lemma length_fill_names [simp]: "length (fill_names cnt ns cfg) = length ns"
  by (induction cnt ns cfg rule: fill_names.induct) (auto split: option.splits)

lemma build_simps [simp]:
  "active (build_workspace_manager raw cfg) = 0" "windows (build_workspace_manager raw cfg) = []"
  "count (build_workspace_manager raw cfg) = max 1 (min raw 32)"
  "length (focus_history (build_workspace_manager raw cfg)) = max 1 (min raw 32)"
  "names (build_workspace_manager raw cfg) =
     fill_names (max 1 (min raw 32)) (replicate (max 1 (min raw 32)) []) cfg"
  by (simp_all add: build_workspace_manager_def manager_new_def Let_def MAX_WORKSPACE_COUNT_def)

lemma desk_ok_start:
  "element_location api s = (\<lambda>_. None) \<Longrightarrow>
   desk_on X api (desktop_start s (build_workspace_manager raw cfg) al)"
  by (simp add: desk_on_def window_ok_def mapped_def desktop_start_def ws_ok_def
        workspace_of_def layout_manager_default_def is_minimized_def)

section \<open>The pick of the window to focus\<close>

lemma pick_stack_eq:
  "pick_stack al mp stk =
     (let live = dropWhile (\<lambda>w. \<not> (al w \<and> mp w)) (rev stk)
      in (rev live, case live of [] \<Rightarrow> None | w # _ \<Rightarrow> Some w))"
proof (induction al mp stk rule: pick_stack.induct)
  case (1 al mp stk)
  show ?case
  proof (cases "dropWhile (\<lambda>w. \<not> al w) (rev stk)")
    case Nil
    then have "\<forall>w \<in> set (rev stk). \<not> al w" unfolding dropWhile_eq_Nil_conv .
    then have "dropWhile (\<lambda>w. \<not> (al w \<and> mp w)) (rev stk) = []" by auto
    with Nil show ?thesis
      unfolding pick_stack.simps [of al mp stk] last_live_def by (simp only: Let_def rev.simps list.case prod.case option.case)
  next
    case (Cons w vs)
    have split: "dropWhile (\<lambda>w. \<not> (al w \<and> mp w)) (rev stk) = dropWhile (\<lambda>w. \<not> (al w \<and> mp w)) (w # vs)"
    proof -
      define pre where "pre = takeWhile (\<lambda>w. \<not> al w) (rev stk)"
      have "rev stk = pre @ w # vs" unfolding pre_def Cons [symmetric] by simp
      moreover have "dropWhile (\<lambda>w. \<not> (al w \<and> mp w)) (pre @ w # vs) = dropWhile (\<lambda>w. \<not> (al w \<and> mp w)) (w # vs)"
        by (rule dropWhile_append2) (auto simp: pre_def dest: set_takeWhileD)
      ultimately show ?thesis by simp
    qed
    have l: "last_live al stk = (rev (w # vs), Some w)" by (simp add: last_live_def Cons)
    have w: "al w" using hd_dropWhile [of "\<lambda>w. \<not> al w" "rev stk"] unfolding Cons by simp
    show ?thesis
    proof (cases "mp w")
      case True
      with w l split show ?thesis by (simp add: pick_stack.simps)
    next
      case False
      then have "pick_stack al mp stk = pick_stack al mp (rev vs)" by (simp add: pick_stack.simps l)
      with "1.IH" [OF l [symmetric]] False split show ?thesis by simp
    qed
  qed
qed

lemma history_folds [simp]:
  "focus_history (foldl (save_location api s) m ws) = focus_history m"
  "focus_history (foldl (\<lambda>m w. if w \<in> keep then reassign m w t else m) m ws) = focus_history m"
proof -
  have "focus_history (save_location api s m w) = focus_history m" for m w
    by (simp add: save_location_def record_location_def split: option.splits)
  then show "focus_history (foldl (save_location api s) m ws) = focus_history m"
    by (induction ws arbitrary: m) simp_all
  show "focus_history (foldl (\<lambda>m w. if w \<in> keep then reassign m w t else m) m ws) = focus_history m"
    by (induction ws arbitrary: m) (simp_all add: reassign_def)
qed

lemma refocus_history:
  "active (manager d) = i \<Longrightarrow> j \<noteq> i \<Longrightarrow>
   focus_history (manager (refocus api d i)) ! j = focus_history (manager d) ! j"
  by (simp add: refocus_def focus_window_def clear_focus_def emit_def record_focus_def Let_def
        split: prod.splits option.splits)

lemma refocus_kb:
  "\<not> locked d \<Longrightarrow> kb_focus (refocus api d i) =
     snd (pick_stack (alive d) (\<lambda>w. w \<in> set (space_elements api (space d))) (focus_history (manager d) ! i))"
  by (simp add: refocus_def focus_window_def clear_focus_def emit_def Let_def
        split: prod.splits option.splits)

text \<open>The history that a switch leaves on the old workspace, and the focus it gives on the new one.\<close>

lemma focus_workspace_history:
  assumes laws: "desk_laws api" and ok: "ws_ok (manager d)" and t: "t < count (manager d)"
    and ne: "active (manager d) \<noteq> t"
  shows "focus_history (manager (focus_workspace_id api d t)) ! active (manager d) =
      (let live = filter (alive d) (focus_history (manager d) ! active (manager d))
       in case focused_window api d of Some w \<Rightarrow> filter (\<lambda>v. v \<noteq> w) live @ [w] | None \<Rightarrow> live)"
    and "\<not> locked d \<Longrightarrow> kb_focus (focus_workspace_id api d t) =
      snd (pick_stack (alive d) (mapped api (focus_workspace_id api d t))
             (filter (alive d) (focus_history (manager d) ! t)))"
proof -
  let ?cur = "active (manager d)" and ?els = "space_elements api (space d)"
  define m1 where "m1 = prune_dead (alive d) (manager d)"
  define m2 where "m2 = (case focused_window api d of Some w \<Rightarrow> record_focus m1 ?cur w | None \<Rightarrow> m1)"
  define m5 where "m5 = foldl (\<lambda>m w. if w \<in> sticky d then reassign m w t else m)
    (set_active (foldl (save_location api (space d)) m2 ?els) t) ?els"
  define s2 where "s2 = foldl (map_back api (d\<lparr> manager := m5 \<rparr>))
    (foldl (\<lambda>s w. if w \<in> sticky d then s else unmap_elem api s w) (space d) ?els) (windows_on m5 t)"
  let ?d2 = "d\<lparr> manager := m5, space := s2 \<rparr>"
  have d': "focus_workspace_id api d t = emit (WorkspaceChanged (one_based t)) (refocus api ?d2 t)"
    unfolding focus_workspace_id_def Let_def s2_def m5_def m2_def m1_def using ne by simp
  have h1: "focus_history m1 ! i = filter (alive d) (focus_history (manager d) ! i)"
    "length (focus_history m1) = count (manager d)" if "i < count (manager d)" for i
    using ok that by (simp_all add: m1_def prune_dead_def ws_ok_def)
  have cur: "?cur < count (manager d)" using ok by (simp add: ws_ok_def)
  have h5: "focus_history m5 = focus_history m2" by (simp add: m5_def set_active_def)
  have a5: "active m5 = t"
  proof -
    have "active (reassign m w t) = active m" for m :: "'b workspace_manager" and w by simp
    then have "active (foldl (\<lambda>m w. if w \<in> sticky d then reassign m w t else m) m ws) = active m"
      for m ws by (induction ws arbitrary: m) simp_all
    then show ?thesis by (simp add: m5_def)
  qed
  have hc: "focus_history m2 ! ?cur =
      (let live = filter (alive d) (focus_history (manager d) ! ?cur)
       in case focused_window api d of Some w \<Rightarrow> filter (\<lambda>v. v \<noteq> w) live @ [w] | None \<Rightarrow> live)"
    using h1 [OF cur] cur by (simp add: m2_def record_focus_def split: option.splits)
  have ht: "focus_history m2 ! t = filter (alive d) (focus_history (manager d) ! t)"
    using h1 [OF t] ne by (simp add: m2_def record_focus_def split: option.splits)
  show "focus_history (manager (focus_workspace_id api d t)) ! ?cur =
      (let live = filter (alive d) (focus_history (manager d) ! ?cur)
       in case focused_window api d of Some w \<Rightarrow> filter (\<lambda>v. v \<noteq> w) live @ [w] | None \<Rightarrow> live)"
    using refocus_history [of ?d2 t ?cur api] ne by (simp add: d' emit_def a5 h5 hc)
  have "element_location api (space (focus_workspace_id api d t)) = element_location api s2"
    using same_refocus [OF laws, of ?d2 t] by (simp add: d' emit_def same_desk_def)
  then have "(\<lambda>w. w \<in> set (space_elements api s2)) = mapped api (focus_workspace_id api d t)"
    by (simp add: fun_eq_iff mapped_def desk_lawsD(4) [OF laws])
  with refocus_kb [of ?d2 api t] show "kb_focus (focus_workspace_id api d t) =
      snd (pick_stack (alive d) (mapped api (focus_workspace_id api d t))
             (filter (alive d) (focus_history (manager d) ! t)))" if "\<not> locked d"
    using that by (simp add: d' emit_def h5 ht)
qed

lemma pick_top: "al w \<Longrightarrow> mp w \<Longrightarrow> pick_stack al mp (stk @ [w]) = (stk @ [w], Some w)"
  by (simp add: pick_stack_eq)

text \<open>One window over the two switches: its workspace, location, saved location at each stage.\<close>

lemma there_and_back:
  assumes "L \<noteq> None \<longleftrightarrow> W = Some cur" "st \<longrightarrow> W \<in> {None, Some cur}" "mn \<longrightarrow> W = None"
    and "S = None \<longleftrightarrow> W = None" "cur \<noteq> t"
    and "W1 = (if st \<and> L \<noteq> None then map_option (\<lambda>_. t) W else W)"
    and "S1 = (if L \<noteq> None \<and> W \<noteq> None then L else S)"
    and "L1 = (if st \<and> L \<noteq> None then L else if W1 = Some t \<and> \<not> mn
           then Some (case S1 of Some l \<Rightarrow> l | None \<Rightarrow> z) else None)"
    and "W2 = (if st \<and> L1 \<noteq> None then map_option (\<lambda>_. cur) W1 else W1)"
    and "S2 = (if L1 \<noteq> None \<and> W1 \<noteq> None then L1 else S1)"
    and "L2 = (if st \<and> L1 \<noteq> None then L1 else if W2 = Some cur \<and> \<not> mn
           then Some (case S2 of Some l \<Rightarrow> l | None \<Rightarrow> z) else None)"
  shows "W2 = W \<and> L2 = L"
  using assms by (cases W; cases L; cases S; cases st; cases mn) auto

lemma move_by_id_frame:
  assumes laws: "desk_laws api" and mv: "move_window_to_workspace_by_id api d w i = Inr d'"
  shows "alive d' = alive d" "active (manager d') = active (manager d)"
    "workspace_of (manager d') w = Some (i - 1)"
    "v \<noteq> w \<Longrightarrow> workspace_of (manager d') v = workspace_of (manager d) v \<and>
       element_location api (space d') v = element_location api (space d) v"
proof -
  let ?act = "active (manager d)"
  obtain t cur where t: "from_one_based (manager d) i = Some t" "w \<notin> sticky d"
    "\<not> is_minimized (layouts d) w" "workspace_of (manager d) w = Some cur"
    using mv by (auto simp: move_window_to_workspace_by_id_def split: option.splits if_splits)
  then have i: "t = i - 1" by (auto simp: from_one_based_def split: if_splits)
  define m where "m = remove_from_active_focus (record_focus (reassign
       (save_location api (space d) (manager d) w) w t) t w) cur w"
  define s where "s = (if t = ?act then (if w \<in> set (space_elements api (space d)) then space d
         else map_element api (space d) w (case saved_location_of m w of Some l \<Rightarrow> l | None \<Rightarrow> (0, 0)))
       else if cur = ?act then unmap_elem api (space d) w else space d)"
  let ?d = "emit_for w (WindowMovedToWorkspace w (one_based t)) (d\<lparr> manager := m, space := s \<rparr>)"
  have sv: "active (save_location api (space d) (manager d) w) = active (manager d)"
    "workspace_of (save_location api (space d) (manager d) w) = workspace_of (manager d)"
    by (auto simp: save_location_def fun_eq_iff split: option.splits)
  have e1: "d' = (if focused_window api d = Some w \<and> t \<noteq> ?act then refocus api ?d ?act else ?d)" if "cur \<noteq> t"
    using mv t that unfolding m_def s_def by (simp add: move_window_to_workspace_by_id_def Let_def)
  have e2: "d' = d" if "cur = t"
    using mv t that by (simp add: move_window_to_workspace_by_id_def)
  have "same_desk api (d\<lparr> manager := m, space := s \<rparr>) d'" if "cur \<noteq> t"
    unfolding e1 [OF that] using same_desk_trans [OF _ same_refocus [OF laws], of "d\<lparr> manager := m, space := s \<rparr>" ?d ?act]
    by simp
  moreover have "element_location api s v = element_location api (space d) v" if "v \<noteq> w"
    using that by (simp add: s_def desk_lawsD [OF laws])
  ultimately show "alive d' = alive d" "active (manager d') = ?act"
    "workspace_of (manager d') w = Some (i - 1)"
    "v \<noteq> w \<Longrightarrow> workspace_of (manager d') v = workspace_of (manager d) v \<and>
       element_location api (space d') v = element_location api (space d) v"
    using e2 t(4) i by (cases "cur = t"; simp add: same_desk_def m_def sv)+
qed

lemma position_append:
  "position p (xs @ ys) = (case position p xs of Some i \<Rightarrow> Some i
     | None \<Rightarrow> map_option (\<lambda>i. i + length xs) (position p ys))"
  by (induction xs) (auto simp: option.map_comp comp_def option.map_ident split: option.splits)

lemma take_pushed:
  assumes "\<not> is_minimized lm w"
  shows "take_minimized (push_minimized lm w r) w = (lm, Some r)"
proof -
  have "position (\<lambda>(mw, _). mw = w) (minimized lm) = None"
    using assms unfolding position_None is_minimized_def list_ex_iff by blast
  then show ?thesis
    by (simp add: take_minimized_def push_minimized_def position_append remove_at_def)
qed

lemma find_dropWhile: "find P xs = (case dropWhile (\<lambda>x. \<not> P x) xs of [] \<Rightarrow> None | x # _ \<Rightarrow> Some x)"
  by (induction xs) auto

lemma fill_names_nth:
  "k < length ns \<Longrightarrow> length ns = cnt \<Longrightarrow> fill_names cnt ns cfg ! k =
     (case find (\<lambda>(key, _). parse_u8 key = Some (k + 1)) (rev cfg) of
        Some (_, name) \<Rightarrow> name | None \<Rightarrow> ns ! k)"
proof (induction cnt ns cfg rule: fill_names.induct)
  case (2 cnt ns key name rest)
  show ?case
  proof (cases "parse_u8 key")
    case None
    with 2 show ?thesis by (simp add: find_append split: option.splits)
  next
    case (Some idx)
    with 2 show ?thesis by (auto simp: find_append nth_list_update split: option.splits)
  qed
qed simp

section \<open>Properties\<close>

text \<open>A concrete space for the witnesses: the mapped windows with their locations.\<close>

definition toy_api :: "((nat \<times> point) list, nat, unit) desk_api" where
  "toy_api = \<lparr> element_location = map_of, geometry_size = (\<lambda>_ _. (10, 10)), space_outputs = (\<lambda>_. []),
     output_geometry = (\<lambda>_ _. None), non_exclusive_zone = (\<lambda>_ _. rect_at (0, 0) (0, 0)),
     kind_of_surface = (\<lambda>_ _. XdgToplevel), map_element = (\<lambda>s w l. (w, l) # filter (\<lambda>(v, _). v \<noteq> w) s),
     send_configure = (\<lambda>s _ _. s), space_elements = map fst, outputs_for_element = (\<lambda>_ _. []),
     unmap_elem = (\<lambda>s w. filter (\<lambda>(v, _). v \<noteq> w) s), raise_element = (\<lambda>s _. s) \<rparr>"

lemma map_of_filter_neq: "map_of (filter (\<lambda>(v, _). v \<noteq> w) s) v = (if v = w then None else map_of s v)"
  by (induction s) auto

lemma toy_laws: "desk_laws toy_api"
  by (simp add: desk_laws_def toy_api_def map_of_filter_neq map_of_eq_None_iff)

definition toy_start :: "((nat \<times> point) list, nat) desktop" where
  "toy_start = desktop_start [] (build_workspace_manager 3 []) (\<lambda>_. True)"

lemma toy_start_ok: "desk_ok toy_api toy_start"
  unfolding toy_start_def by (rule desk_ok_start) (simp add: toy_api_def fun_eq_iff)

definition toy_open :: "((nat \<times> point) list, nat) desktop" where
  "toy_open = new_toplevel toy_api toy_start 7 (3, 4)"

lemma toy_open:
  "active (manager toy_open) = 0" "count (manager toy_open) = 3" "alive toy_open = (\<lambda>_. True)"
  "workspace_of (manager toy_open) v = (if v = 7 then Some 0 else None)"
  "ws_ok (manager toy_open)" "sticky toy_open = {}" "locked toy_open = False"
  "element_location toy_api (space toy_open) v = (if v = 7 then Some (3, 4) else None)"
  "kb_focus toy_open = Some 7" "layouts toy_open = layout_manager_default" "foreign toy_open = [7]"
proof -
  define d where "d = emit (WindowOpened 7 (one_based 0)) (toy_start\<lparr> space := map_element toy_api [] 7 (3, 4),
    manager := assign (manager toy_start) 7 0 (3, 4), foreign := [7] \<rparr>)"
  have o: "toy_open = focus_window toy_api d 7"
    by (simp add: toy_open_def d_def new_toplevel_def toy_start_def desktop_start_def Let_def)
  have d: "active (manager d) = 0" "count (manager d) = 3" "alive d = (\<lambda>_. True)"
    "workspace_of (manager d) v = (if v = 7 then Some 0 else None)" "sticky d = {}" "locked d = False"
    "element_location toy_api (space d) v = (if v = 7 then Some (3, 4) else None)"
    "layouts d = layout_manager_default" "foreign d = [7]" "ws_ok (manager d)" for v
    using desk_ok_start [of toy_api "[]" UNIV 3 "[]" "\<lambda>_. True"] ws_ok_active(1) [of "manager toy_start" 7 "(3, 4)"]
    by (auto simp: d_def toy_start_def desktop_start_def emit_def toy_api_def
          workspace_of_def assign_def desk_ok_def fun_eq_iff)
  from same_focus [OF toy_laws, of d 7] d
  show "active (manager toy_open) = 0" "count (manager toy_open) = 3" "alive toy_open = (\<lambda>_. True)"
    "workspace_of (manager toy_open) v = (if v = 7 then Some 0 else None)"
    "ws_ok (manager toy_open)" "sticky toy_open = {}" "locked toy_open = False"
    "element_location toy_api (space toy_open) v = (if v = 7 then Some (3, 4) else None)"
    "layouts toy_open = layout_manager_default" "foreign toy_open = [7]"
    by (simp_all add: o same_desk_def)
  show "kb_focus toy_open = Some 7" by (simp add: o focus_window_def d emit_def)
qed

lemma toy_open_ok: "desk_ok toy_api toy_open"
  unfolding toy_open_def by (rule desk_ok_new_toplevel [OF toy_laws toy_start_ok])
    (simp add: toy_start_def desktop_start_def layout_manager_default_def is_minimized_def)

text \<open>
  Every step, with the windows it may set apart: those made sticky while on another workspace, and those
  mapped while they were not mapped.
\<close>

inductive any_step :: "('s, 'w, 'o) desk_api \<Rightarrow> ('s, 'w) desktop \<times> 'w set \<Rightarrow> ('s, 'w) desktop \<times> 'w set \<Rightarrow> bool" for api where
  Regular: "desk_step api d d' \<Longrightarrow> any_step api (d, apart) (d', apart)"
| StickAnywhere: "any_step api (d, apart) (set_sticky d w on, insert w apart)"
| PlaceAnywhere: "any_step api (d, apart) (d\<lparr> space := map_element api (space d) w l \<rparr>, insert w apart)"

lemma any_step_ok:
  assumes laws: "desk_laws api" and step: "any_step api (d, apart) (d', apart')" and ok: "desk_on (- apart) api d"
  shows "desk_on (- apart') api d'"
  using step
proof cases
  case Regular
  with ok show ?thesis by (simp add: desk_ok_step [OF laws])
next
  case (StickAnywhere w on)
  have "desk_on (- insert w apart) api d" by (rule desk_on_subset [OF ok]) auto
  then show ?thesis unfolding StickAnywhere by (rule desk_on_sticky_anywhere) simp
next
  case (PlaceAnywhere w l)
  have "desk_on (- insert w apart) api d" by (rule desk_on_subset [OF ok]) auto
  then show ?thesis unfolding PlaceAnywhere by (rule desk_on_place_anywhere [OF laws]) simp
qed

lemma any_step_reachable:
  assumes laws: "desk_laws api"
  shows "(any_step api)\<^sup>*\<^sup>* x y \<Longrightarrow> desk_on (- snd x) api (fst x) \<Longrightarrow> desk_on (- snd y) api (fst y)"
proof (induction rule: rtranclp_induct)
  case (step y z)
  with any_step_ok [OF laws, of "fst y" "snd y" "fst z" "snd z"] show ?case by simp
qed



text \<open>C7. Going to another workspace and back: with a live window focused and the session
  unlocked, every live window is again mapped where it was and on its workspace, the same
  workspace is active, and the same window has the keyboard.\<close>

theorem switch_there_and_back:
  assumes laws: "desk_laws api" and ok: "desk_ok api d" and t: "t < count (manager d)"
    "active (manager d) \<noteq> t" and f: "focused_window api d = Some w" "alive d w" "\<not> locked d"
  defines "d' \<equiv> focus_workspace_id api (focus_workspace_id api d t) (active (manager d))"
  shows "active (manager d') = active (manager d) \<and> kb_focus d' = Some w \<and>
    (\<forall>v. alive d v \<longrightarrow> workspace_of (manager d') v = workspace_of (manager d) v \<and>
       element_location api (space d') v = element_location api (space d) v)"
proof -
  let ?cur = "active (manager d)" and ?d1 = "focus_workspace_id api d t"
  have ok0: "ws_ok (manager d)" using ok by (simp add: desk_ok_def)
  note e1 = focus_workspace_effect [OF laws ok0 t]
  have cur: "?cur < count (manager ?d1)" using ok0 by (simp add: e1 ws_ok_def)
  have ne: "active (manager ?d1) \<noteq> ?cur" using t(2) by (simp add: e1)
  note e2 = focus_workspace_effect [OF laws e1(1) cur ne, folded d'_def]
  have same: "workspace_of (manager d') v = workspace_of (manager d) v \<and>
       element_location api (space d') v = element_location api (space d) v" if "alive d v" for v
  proof -
    have v: "window_ok api d v" using ok that by (simp add: desk_ok_def)
    have s: "saved_location_of (manager d) v = None \<longleftrightarrow> workspace_of (manager d) v = None"
      by (rule tracked_saved)
    show ?thesis
      by (rule there_and_back [OF _ _ _ s t(2)])
         (use v that in \<open>simp_all only: window_ok_def mapped_def e2 e1 simp_thms if_True if_False,
           blast+\<close>)
  qed
  have "element_location api (space d) w \<noteq> None"
    using f(1) by (auto simp: focused_window_def desk_lawsD(4) [OF laws] split: option.splits if_splits)
  then have m: "mapped api d' w" using same [OF f(2)] by (simp add: mapped_def)
  have "kb_focus d' = snd (pick_stack (alive ?d1) (mapped api d')
      (filter (alive ?d1) (focus_history (manager ?d1) ! ?cur)))"
    using focus_workspace_history(2) [OF laws e1(1) cur ne] f(3) by (simp add: d'_def e1)
  also have "filter (alive ?d1) (focus_history (manager ?d1) ! ?cur) =
      filter (\<lambda>v. v \<noteq> w) (filter (alive d) (focus_history (manager d) ! ?cur)) @ [w]"
    unfolding focus_workspace_history(1) [OF laws ok0 t] using f(1,2) by (simp add: e1 conj_commute)
  also have "alive ?d1 = alive d" by (simp add: e1)
  finally have "kb_focus d' = Some w" using pick_top [of "alive d" w "mapped api d'"] f(2) m by simp
  with same show ?thesis by (simp add: e2)
qed

lemma toy_open_focused: "focused_window toy_api toy_open = Some 7"
proof -
  have "7 \<in> set (space_elements toy_api (space toy_open))"
    unfolding desk_lawsD(4) [OF toy_laws] by (simp add: toy_open)
  then show ?thesis by (simp add: focused_window_def toy_open)
qed

theorem switch_there_and_back_witness:
  "element_location toy_api (space (focus_workspace_id toy_api
     (focus_workspace_id toy_api toy_open 2) 0)) 7 = Some (3, 4)"
  using switch_there_and_back [OF toy_laws toy_open_ok, of 2 7] toy_open_focused
  by (simp add: toy_open)

text \<open>Moving a window by its id: each error reply is given exactly when its condition holds
  (an index out of range, then sticky, then minimized, then on no workspace); otherwise the
  window is on the workspace asked for, mapped exactly when that one is active, every other live
  window keeps its workspace and place, and the invariant of the desktop is kept.\<close>

theorem move_by_id_effect:
  assumes laws: "desk_laws api" and ok: "desk_ok api d" and w: "alive d w"
  shows "case move_window_to_workspace_by_id api d w i of
     Inl OutOfRange \<Rightarrow> i = 0 \<or> count (manager d) < i
   | Inl IsSticky \<Rightarrow> 1 \<le> i \<and> i \<le> count (manager d) \<and> w \<in> sticky d
   | Inl IsMinimized \<Rightarrow> 1 \<le> i \<and> i \<le> count (manager d) \<and> w \<notin> sticky d \<and> is_minimized (layouts d) w
   | Inl NoWorkspace \<Rightarrow> 1 \<le> i \<and> i \<le> count (manager d) \<and> w \<notin> sticky d \<and>
       \<not> is_minimized (layouts d) w \<and> workspace_of (manager d) w = None
   | Inr d' \<Rightarrow> desk_ok api d' \<and> active (manager d') = active (manager d) \<and>
       workspace_of (manager d') w = Some (i - 1) \<and>
       (element_location api (space d') w \<noteq> None \<longleftrightarrow> i - 1 = active (manager d)) \<and>
       (\<forall>v. alive d v \<and> v \<noteq> w \<longrightarrow> workspace_of (manager d') v = workspace_of (manager d) v \<and>
          element_location api (space d') v = element_location api (space d) v)"
proof (cases "move_window_to_workspace_by_id api d w i")
  case (Inl e)
  then show ?thesis
    by (cases e) (auto simp: move_window_to_workspace_by_id_def from_one_based_def Let_def
      split: option.splits if_splits)
next
  case (Inr d')
  note e = move_by_id_frame [OF laws Inr]
  have ok': "desk_ok api d'" by (rule desk_ok_move_by_id [OF laws ok Inr])
  moreover have "alive d' w" using e w by simp
  ultimately have "window_ok api d' w" by (simp add: desk_ok_def)
  with e ok' show ?thesis by (simp add: Inr window_ok_def mapped_def del: not_None_eq split_paired_Ex)
qed

theorem move_by_id_effect_witness:
  "\<exists>d'. move_window_to_workspace_by_id toy_api toy_open 7 3 = Inr d' \<and>
     workspace_of (manager d') 7 = Some 2 \<and> element_location toy_api (space d') 7 = None"
proof -
  have "\<not> is_minimized (layouts toy_open) 7"
    by (simp add: toy_open layout_manager_default_def is_minimized_def)
  with move_by_id_effect [OF toy_laws toy_open_ok, of 7 3] show ?thesis
    by (cases "move_window_to_workspace_by_id toy_api toy_open 7 3")
       (auto simp: toy_open simp del: split_paired_Ex split_paired_All split: move_error.splits)
qed

text \<open>Minimizing a mapped window and restoring it brings it back where it was, on the active
  workspace and with the keyboard, takes it off the stack of minimized windows, and leaves the
  place and workspace of every other window alone.\<close>

theorem minimize_and_restore:
  assumes laws: "desk_laws api" and ok: "desk_ok api d" and unlocked: "\<not> locked d"
    and w: "element_location api (space d) w = Some l" "\<not> is_minimized (layouts d) w"
  defines "d' \<equiv> unminimize_window api (minimize_window api d w) w"
  shows "workspace_of (manager d') w = Some (active (manager d)) \<and> kb_focus d' = Some w \<and>
    minimized (layouts d') = minimized (layouts d) \<and>
    (\<forall>v. element_location api (space d') v = element_location api (space d) v \<and>
       (v \<noteq> w \<longrightarrow> workspace_of (manager d') v = workspace_of (manager d) v))"
proof -
  let ?r = "rect_at l (geometry_size api (space d) w)"
  let ?d1 = "minimize_window api d w"
  have d1: "?d1 = d\<lparr> space := unmap_elem api (space d) w, manager := forget_window (manager d) w,
    layouts := push_minimized (layouts d) w ?r \<rparr>"
    by (simp add: minimize_never_clears [OF laws w(2)] w(1))
  have t: "take_minimized (layouts ?d1) w = (layouts d, Some ?r)"
    using take_pushed [OF w(2)] by (simp add: d1)
  have r: "rect_loc ?r = l" by (cases l) (simp add: rect_loc_def rect_at_def)
  let ?d2 = "restore_at api (?d1\<lparr> layouts := layouts d \<rparr>) w ?r"
  have d': "d' = focus_window api ?d2 w" by (simp add: d'_def unminimize_window_def t)
  have "kb_focus d' = Some w"
    using unlocked by (simp add: d' focus_window_def emit_def restore_at_def d1)
  moreover have "same_desk api ?d2 d'" unfolding d' by (rule same_focus [OF laws])
  ultimately show ?thesis
    using w(1) by (simp add: same_desk_def restore_at_def d1 desk_lawsD [OF laws] r)
qed

theorem minimize_and_restore_witness:
  "kb_focus (unminimize_window toy_api (minimize_window toy_api toy_open 7) 7) = Some 7"
  using minimize_and_restore [OF toy_laws toy_open_ok, of 7 "(3, 4)"]
  by (simp add: toy_open layout_manager_default_def is_minimized_def)

text \<open>Minimizing the window that has the keyboard does not take the keyboard away from it:
  the window is unmapped first, and only a mapped window counts as focused, so the branch of
  \<open>minimize_window\<close> that clears the focus is never taken. Keys still go to the hidden window.\<close>

theorem minimized_window_keeps_keyboard:
  assumes laws: "desk_laws api" and w: "\<not> is_minimized (layouts d) w" "kb_focus d = Some w"
  shows "kb_focus (minimize_window api d w) = Some w \<and>
    element_location api (space (minimize_window api d w)) w = None \<and>
    emitted (minimize_window api d w) = emitted d"
  using w(2) by (simp add: minimize_never_clears [OF laws w(1)] desk_lawsD [OF laws])

theorem minimized_window_keeps_keyboard_witness:
  "kb_focus (minimize_window toy_api toy_open 7) = Some 7"
  using minimized_window_keeps_keyboard [OF toy_laws, of toy_open 7]
  by (simp add: toy_open layout_manager_default_def is_minimized_def)

text \<open>A minimized window that closes is not cleaned up: it is neither mapped nor tracked, so
  \<open>find_window\<close> does not find it, its foreign-toplevel handle and its entry on the stack of
  minimized windows stay, and no client is told that it closed. A window that is found is
  removed everywhere, and \<open>WindowClosed\<close> is sent when it has a handle.\<close>

theorem closing_cleans_up_unless_minimized:
  assumes laws: "desk_laws api"
  shows "(element_location api (space d) w \<noteq> None \<or> workspace_of (manager d) w \<noteq> None \<longrightarrow>
      (let d' = toplevel_destroyed api d w in
         element_location api (space d') w = None \<and> workspace_of (manager d') w = None \<and>
         \<not> is_minimized (layouts d') w \<and> w \<notin> sticky d' \<and> w \<notin> set (foreign d') \<and>
         emitted d' = emitted d @ (if w \<in> set (foreign d) then [WindowClosed w] else []))) \<and>
    (desk_ok api d \<and> alive d w \<and> is_minimized (layouts d) w \<longrightarrow> toplevel_destroyed api d w = d)"
proof (intro conjI impI)
  have find: "find_window api d w \<longleftrightarrow> element_location api (space d) w \<noteq> None \<or> workspace_of (manager d) w \<noteq> None"
    by (simp add: find_window_def workspace_of_def desk_lawsD(4) [OF laws])
  {
    assume "desk_ok api d \<and> alive d w \<and> is_minimized (layouts d) w"
    then have "workspace_of (manager d) w = None" "\<not> mapped api d w"
      by (auto simp: desk_ok_def window_ok_def)
    then show "toplevel_destroyed api d w = d"
      using find by (simp add: toplevel_destroyed_def mapped_def del: not_None_eq)
  next
    assume "element_location api (space d) w \<noteq> None \<or> workspace_of (manager d) w \<noteq> None"
    then have "find_window api d w" using find by blast
    then show "let d' = toplevel_destroyed api d w in
         element_location api (space d') w = None \<and> workspace_of (manager d') w = None \<and>
         \<not> is_minimized (layouts d') w \<and> w \<notin> sticky d' \<and> w \<notin> set (foreign d') \<and>
         emitted d' = emitted d @ (if w \<in> set (foreign d) then [WindowClosed w] else [])"
      by (simp add: toplevel_destroyed_def Let_def desk_lawsD [OF laws] emit_def)
  }
qed

theorem closing_cleans_up_unless_minimized_witness:
  "toplevel_destroyed toy_api (minimize_window toy_api toy_open 7) 7 = minimize_window toy_api toy_open 7 \<and>
   foreign (minimize_window toy_api toy_open 7) = [7]"
proof -
  have "\<not> is_minimized (layouts toy_open) 7"
    by (simp add: toy_open layout_manager_default_def is_minimized_def)
  note m = minimize_never_clears [OF toy_laws this]
  have "desk_ok toy_api (minimize_window toy_api toy_open 7)"
    by (rule desk_ok_minimize [OF toy_laws toy_open_ok])
  with closing_cleans_up_unless_minimized [OF toy_laws, of "minimize_window toy_api toy_open 7" 7]
  show ?thesis by (simp add: m toy_open)
qed

text \<open>The window that gets the keyboard after a switch, a move or a close is the most recently
  focused one that is alive and mapped: the loop that pops the history stack gives what a search
  from its top gives, and what stays on the stack is a prefix of it that ends in that window.\<close>

theorem refocus_picks_most_recent:
  "snd (pick_stack al mp stk) = find (\<lambda>w. al w \<and> mp w) (rev stk) \<and>
   (\<exists>popped. stk = fst (pick_stack al mp stk) @ popped \<and> (\<forall>w \<in> set popped. \<not> (al w \<and> mp w)))"
proof -
  let ?P = "\<lambda>w. \<not> (al w \<and> mp w)"
  have "rev stk = takeWhile ?P (rev stk) @ dropWhile ?P (rev stk)" by simp
  then have "stk = rev (dropWhile ?P (rev stk)) @ rev (takeWhile ?P (rev stk))"
    by (metis rev_append rev_rev_ident)
  moreover have "\<forall>w \<in> set (rev (takeWhile ?P (rev stk))). ?P w" by (auto dest: set_takeWhileD)
  ultimately have "\<exists>popped. stk = fst (pick_stack al mp stk) @ popped \<and> (\<forall>w \<in> set popped. ?P w)"
    by (auto simp: pick_stack_eq Let_def)
  moreover have "snd (pick_stack al mp stk) = find (\<lambda>w. al w \<and> mp w) (rev stk)"
    by (simp add: pick_stack_eq Let_def find_dropWhile)
  ultimately show ?thesis by simp
qed

theorem refocus_picks_most_recent_witness:
  "pick_stack (\<lambda>w. w \<noteq> 5) (\<lambda>w. w \<noteq> 4) [2, 3, 5, 4] = ([2, 3], Some (3 :: nat))"
  using refocus_picks_most_recent [of "\<lambda>w :: nat. w \<noteq> 5" "\<lambda>w. w \<noteq> 4" "[2, 3, 5, 4]"]
  by (simp add: pick_stack_eq)

text \<open>\<open>set_sticky\<close> on a window of another workspace (the control socket and the taskbar may ask
  for any window) gives the window to the active workspace without mapping it: it is sticky and on
  the active workspace, yet nothing shows it.\<close>

theorem sticky_elsewhere_is_hidden:
  assumes "desk_ok api d" "alive d w" "workspace_of (manager d) w = Some i" "i \<noteq> active (manager d)"
  defines "d' \<equiv> set_sticky d w True"
  shows "w \<in> sticky d' \<and> workspace_of (manager d') w = Some (active (manager d')) \<and>
    element_location api (space d') w = None \<and> \<not> desk_ok api d'"
proof -
  have w: "window_ok api d w" using assms(1,2) by (simp add: desk_ok_def)
  then have ns: "w \<notin> sticky d" and um: "element_location api (space d) w = None"
    using assms(3,4) by (auto simp: window_ok_def mapped_def simp del: not_None_eq split_paired_Ex)
  have same: "same_desk api (d\<lparr> sticky := insert w (sticky d),
     manager := reassign (manager d) w (active (manager d)) \<rparr>) d'"
    using ns by (simp add: d'_def set_sticky_def)
  then have "w \<in> sticky d'" "workspace_of (manager d') w = Some (active (manager d'))"
    "element_location api (space d') w = None" "alive d' w"
    using assms(2,3) um by (simp_all add: same_desk_def)
  then show ?thesis by (auto simp: desk_ok_def window_ok_def mapped_def)
qed

theorem sticky_elsewhere_is_hidden_witness:
  "element_location toy_api (space (set_sticky (focus_workspace_id toy_api toy_open 2) 7 True)) 7 = None"
proof -
  let ?d = "focus_workspace_id toy_api toy_open 2"
  note e = focus_workspace_effect [OF toy_laws toy_open(5), of 2]
  have "desk_ok toy_api ?d" by (rule desk_ok_focus_workspace [OF toy_laws toy_open_ok]) (simp add: toy_open)
  moreover have "alive ?d 7" "workspace_of (manager ?d) 7 = Some 0" "0 \<noteq> active (manager ?d)"
    using e by (simp_all add: toy_open)
  ultimately show ?thesis using sticky_elsewhere_is_hidden [of toy_api ?d 7 0] by simp
qed

text \<open>The configured workspaces: there are between 1 and 32 of them whatever the file says, the
  first is active, each index from 1 to the count names exactly one of them and no other index
  does, and workspace \<open>k\<close> has the name of the last entry whose key parses to its number.\<close>

theorem configured_workspaces:
  fixes m :: "'w workspace_manager" and raw cfg
  defines "m \<equiv> build_workspace_manager raw cfg"
  shows "1 \<le> count m \<and> count m \<le> 32 \<and> (1 \<le> raw \<and> raw \<le> 32 \<longrightarrow> count m = raw) \<and>
    active m = 0 \<and> length (focus_history m) = count m \<and> length (names m) = count m \<and>
    (\<forall>i ws. from_one_based m i = Some ws \<longleftrightarrow> i = one_based ws \<and> ws < count m) \<and>
    (\<forall>k < count m. names m ! k =
       (case find (\<lambda>(key, _). parse_u8 key = Some (one_based k)) (rev cfg) of
          Some (_, name) \<Rightarrow> name | None \<Rightarrow> []))"
proof -
  have "from_one_based m i = Some ws \<longleftrightarrow> i = one_based ws \<and> ws < count m" for i ws
    by (auto simp: from_one_based_def one_based_def)
  moreover have "names m ! k = (case find (\<lambda>(key, _). parse_u8 key = Some (one_based k)) (rev cfg) of
          Some (_, name) \<Rightarrow> name | None \<Rightarrow> [])" if "k < count m" for k
    using that fill_names_nth [of k "replicate (max 1 (min raw 32)) []" "max 1 (min raw 32)" cfg]
    by (simp add: m_def one_based_def split: option.splits)
  ultimately show ?thesis by (auto simp: m_def)
qed

theorem configured_workspaces_witness:
  "names (build_workspace_manager 2 [(''2'', ''web''), (''+2'', ''mail''), (''x'', ''y'')]) ! 1 = ''mail''"
proof -
  have "parse_u8 ''2'' = Some 2" "parse_u8 ''+2'' = Some 2" "parse_u8 ''x'' = None" by code_simp+
  then show ?thesis
    using configured_workspaces [of 2 "[(''2'', ''web''), (''+2'', ''mail''), (''x'', ''y'')]"]
    by (simp add: one_based_def del: parse_u8.simps)
qed

end
