(* ===== verification/Gates.thy ===== *)
theory Gates
  imports Prelude
begin

text \<open>
  The gates that let a remote viewer in: \<open>src/remote_lease.rs\<close>, the gate operations of
  \<open>src/state.rs\<close> (\<open>set_screen_capture\<close>, \<open>set_automation\<close>, \<open>set_remote\<close> and its
  announcements) and the requests of \<open>src/ipc.rs\<close> that reach them. An \<open>Instant\<close> and a
  \<open>Duration\<close> are a number of nanoseconds. Whether the event loop takes a new timer is an
  argument of each operation that arms one. What is being captured is kept as lists of the
  identifiers of frames, sessions and streams; a stream's connection is its own, not the one
  the remote server registered on.
\<close>

section \<open>The lease\<close>

type_synonym instant = nat

definition nanos :: "nat \<Rightarrow> nat" where "nanos secs = secs * 1000000000"

definition REMOTE_LEASE_MAX_SECS :: nat where "REMOTE_LEASE_MAX_SECS = 30 * 24 * 60 * 60"

record lease =
  until :: "instant option"
  idle :: "nat option"
  idle_since :: "instant option"

definition lease_new :: "instant \<Rightarrow> nat option \<Rightarrow> nat option \<Rightarrow> nat \<Rightarrow> lease option" where
  "lease_new now limit idl viewers =
    (if limit = None \<and> idl = None then None
     else (let mx = nanos REMOTE_LEASE_MAX_SECS;
               limit' = map_option (\<lambda>d. min d mx) limit;
               idl' = map_option (\<lambda>d. min d mx) idl
           in Some \<lparr> until = map_option (\<lambda>d. now + d) limit', idle = idl',
                     idle_since = (if viewers = 0 then Some now else None) \<rparr>))"

definition viewers_changed :: "lease \<Rightarrow> instant \<Rightarrow> nat \<Rightarrow> lease" where
  "viewers_changed l now viewers =
    (case idle_since l of
       None \<Rightarrow> if viewers = 0 then l\<lparr> idle_since := Some now \<rparr> else l
     | Some _ \<Rightarrow> if viewers = 0 then l else l\<lparr> idle_since := None \<rparr>)"

definition idle_end :: "lease \<Rightarrow> instant option" where
  "idle_end l = (case (idle_since l, idle l) of (Some since, Some d) \<Rightarrow> Some (since + d) | _ \<Rightarrow> None)"

definition deadline :: "lease \<Rightarrow> instant option" where
  "deadline l = (case (until l, idle_end l) of
     (Some a, Some b) \<Rightarrow> Some (min a b)
   | (None, b) \<Rightarrow> b
   | (a, None) \<Rightarrow> a)"

definition secs_ceil :: "nat \<Rightarrow> nat" where
  "secs_ceil d = d div 1000000000 + (if 0 < d mod 1000000000 then 1 else 0)"

record lease_report =
  expires_in_secs :: "nat option"
  idle_secs :: "nat option"
  idle_expires_in_secs :: "nat option"

definition lease_status :: "lease \<Rightarrow> instant \<Rightarrow> lease_report" where
  "lease_status l now = (let left = (\<lambda>at. secs_ceil (at - now)) in
     \<lparr> expires_in_secs = map_option left (until l),
       idle_secs = map_option (\<lambda>d. d div 1000000000) (idle l),
       idle_expires_in_secs = map_option left (idle_end l) \<rparr>)"

text \<open>\<open>check_remote_lease\<close>; on an \<open>Option\<close>, \<open>max\<close> puts \<open>None\<close> below every value.\<close>

datatype lease_refusal = NeedsEnabled | NotPositive | TooLong

fun option_max :: "nat option \<Rightarrow> nat option \<Rightarrow> nat option" where
  "option_max None b = b"
| "option_max a None = a"
| "option_max (Some a) (Some b) = Some (max a b)"

definition check_remote_lease :: "bool \<Rightarrow> nat option \<Rightarrow> nat option \<Rightarrow> lease_refusal option" where
  "check_remote_lease enabled for_secs idle_s =
    (if \<not> enabled \<and> (for_secs \<noteq> None \<or> idle_s \<noteq> None) then Some NeedsEnabled
     else if for_secs = Some 0 \<or> idle_s = Some 0 then Some NotPositive
     else (case option_max for_secs idle_s of
             Some secs \<Rightarrow> if secs > REMOTE_LEASE_MAX_SECS then Some TooLong else None
           | None \<Rightarrow> None))"

section \<open>The gates\<close>

datatype gate_event =
    AutomationChanged bool
  | ScreenCaptureChanged bool
  | RemoteChanged bool bool nat "lease_report option"

datatype gate_effect =
    InputReleased
  | FrameFailed nat
  | SessionStopped nat
  | ExtFrameFailed nat
  | StreamBye nat
  | WindowStreamBye nat

record gates =
  remote_enabled :: bool
  automation_enabled :: bool
  screen_capture_enabled :: bool
  remote_server :: "nat option"
  remote_endpoint :: "string option"
  remote_viewers :: nat
  remote_lease :: "lease option"
  lease_timer :: "instant option"
  capture_gate :: bool
  manager_global :: bool
  frames :: "nat list"
  sessions :: "nat list"
  ext_frames :: "nat list"
  streams :: "nat list"
  window_streams :: "nat list"
  events :: "gate_event list"
  effects :: "gate_effect list"

definition set_screen_capture :: "gates \<Rightarrow> bool \<Rightarrow> gates" where
  "set_screen_capture g enabled =
    (let g1 = g\<lparr> screen_capture_enabled := enabled, capture_gate := enabled \<rparr> in
     if enabled then g1\<lparr> manager_global := True \<rparr>
     else g1\<lparr> manager_global := False, frames := [], sessions := [], ext_frames := [],
              streams := [], window_streams := [],
              effects := effects g @ map FrameFailed (frames g) @ map SessionStopped (sessions g) @
                map ExtFrameFailed (ext_frames g) @ map StreamBye (streams g) @
                map WindowStreamBye (window_streams g) \<rparr>)"

definition set_automation :: "gates \<Rightarrow> bool \<Rightarrow> gates \<times> bool" where
  "set_automation g enabled =
    (let g1 = g\<lparr> automation_enabled := enabled \<rparr>;
         g2 = (if \<not> enabled then g1\<lparr> effects := effects g1 @ [InputReleased] \<rparr> else g1);
         capture_changed = (screen_capture_enabled g2 \<noteq> enabled)
     in (if capture_changed then set_screen_capture g2 enabled else g2, capture_changed))"

text \<open>\<open>arm_remote_lease\<close>; \<open>ins\<close> is whether the event loop takes the timer.\<close>

definition arm_remote_lease :: "bool \<Rightarrow> gates \<Rightarrow> gates \<times> bool" where
  "arm_remote_lease ins g =
    (let g1 = g\<lparr> lease_timer := None \<rparr> in
     case remote_lease g1 of
       None \<Rightarrow> (g1, True)
     | Some l \<Rightarrow> (case deadline l of
           None \<Rightarrow> (g1, True)
         | Some d \<Rightarrow> if ins then (g1\<lparr> lease_timer := Some d \<rparr>, True) else (g1, False)))"

definition set_remote_lease :: "bool \<Rightarrow> gates \<Rightarrow> lease option \<Rightarrow> gates \<times> bool" where
  "set_remote_lease ins g l = arm_remote_lease ins (g\<lparr> remote_lease := l \<rparr>)"

definition remote_lease_status :: "instant \<Rightarrow> gates \<Rightarrow> lease_report option" where
  "remote_lease_status now g = map_option (\<lambda>l. lease_status l now) (remote_lease g)"

text \<open>Clearing the lease needs no timer, so the flag given to \<open>set_remote_lease\<close> is not used.\<close>

definition set_remote :: "gates \<Rightarrow> bool \<Rightarrow> gates \<times> bool \<times> bool" where
  "set_remote g enabled =
    (let g1 = fst (set_remote_lease False (g\<lparr> remote_enabled := enabled \<rparr>) None);
         auto_before = automation_enabled g1;
         (g2, capture_changed) = set_automation g1 enabled;
         auto_changed = (automation_enabled g2 \<noteq> auto_before);
         g3 = (if \<not> enabled then g2\<lparr> remote_viewers := 0 \<rparr> else g2)
     in (g3, auto_changed, capture_changed))"

definition emit_ipc :: "gate_event \<Rightarrow> gates \<Rightarrow> gates" where
  "emit_ipc e g = g\<lparr> events := events g @ [e] \<rparr>"

definition emit_remote_changed :: "instant \<Rightarrow> gates \<Rightarrow> gates" where
  "emit_remote_changed now g = emit_ipc (RemoteChanged (remote_enabled g) (remote_server g \<noteq> None)
     (remote_viewers g) (remote_lease_status now g)) g"

definition announce_remote :: "instant \<Rightarrow> gates \<Rightarrow> bool \<Rightarrow> bool \<Rightarrow> bool \<Rightarrow> gates" where
  "announce_remote now g changed auto_changed capture_changed =
    (let g1 = (if auto_changed then emit_ipc (AutomationChanged (automation_enabled g)) g else g);
         g2 = (if capture_changed then emit_ipc (ScreenCaptureChanged (screen_capture_enabled g1)) g1 else g1)
     in if changed then emit_remote_changed now g2 else g2)"

definition turn_remote :: "instant \<Rightarrow> gates \<Rightarrow> bool \<Rightarrow> gates \<times> bool" where
  "turn_remote now g enabled =
    (let changed = (remote_enabled g \<noteq> enabled);
         (g1, auto_changed, capture_changed) = set_remote g enabled
     in (announce_remote now g1 changed auto_changed capture_changed, changed))"

definition remote_lease_fail_closed :: "instant \<Rightarrow> gates \<Rightarrow> gates" where
  "remote_lease_fail_closed now g = fst (turn_remote now g False)"

definition remote_lease_viewers_changed :: "instant \<Rightarrow> bool \<Rightarrow> gates \<Rightarrow> gates \<times> bool" where
  "remote_lease_viewers_changed now ins g =
    (case remote_lease g of
       None \<Rightarrow> (g, False)
     | Some l \<Rightarrow>
        (let (g1, armed) = arm_remote_lease ins
               (g\<lparr> remote_lease := Some (viewers_changed l now (remote_viewers g)) \<rparr>)
         in if armed then (g1, False) else (remote_lease_fail_closed now g1, True)))"

definition remote_lease_tick :: "instant \<Rightarrow> bool \<Rightarrow> gates \<Rightarrow> gates" where
  "remote_lease_tick now ins g =
    (case (case remote_lease g of Some l \<Rightarrow> deadline l | None \<Rightarrow> None) of
       None \<Rightarrow> g
     | Some d \<Rightarrow>
        if now < d then
          (let (g1, armed) = arm_remote_lease ins g
           in if armed then g1 else remote_lease_fail_closed now g1)
        else fst (turn_remote now g False))"

text \<open>The callback of the timer that \<open>arm_remote_lease\<close> inserts.\<close>

definition lease_timer_fires :: "instant \<Rightarrow> bool \<Rightarrow> gates \<Rightarrow> gates" where
  "lease_timer_fires now ins g = remote_lease_tick now ins (g\<lparr> lease_timer := None \<rparr>)"

section \<open>The requests\<close>

datatype gate_reply =
    OkReply
  | ErrorReply
  | AutomationReply bool
  | ScreenCaptureReply bool
  | RemoteReply bool bool nat "string option" "lease_report option"

definition remote_response :: "instant \<Rightarrow> gates \<Rightarrow> gate_reply" where
  "remote_response now g = RemoteReply (remote_enabled g) (remote_server g \<noteq> None) (remote_viewers g)
     (remote_endpoint g) (remote_lease_status now g)"

definition request_set_automation :: "gates \<Rightarrow> bool \<Rightarrow> gate_reply \<times> gates" where
  "request_set_automation g enabled =
    (let changed = (automation_enabled g \<noteq> enabled);
         (g1, capture_changed) = set_automation g enabled;
         g2 = (if changed then emit_ipc (AutomationChanged enabled) g1 else g1);
         g3 = (if capture_changed then emit_ipc (ScreenCaptureChanged enabled) g2 else g2)
     in (AutomationReply enabled, g3))"

definition request_set_screen_capture :: "gates \<Rightarrow> bool \<Rightarrow> gate_reply \<times> gates" where
  "request_set_screen_capture g enabled =
    (let changed = (screen_capture_enabled g \<noteq> enabled);
         g1 = set_screen_capture g enabled
     in (ScreenCaptureReply enabled,
         if changed then emit_ipc (ScreenCaptureChanged enabled) g1 else g1))"

definition register_remote_server :: "instant \<Rightarrow> gates \<Rightarrow> nat \<Rightarrow> string option \<Rightarrow> gate_reply \<times> gates" where
  "register_remote_server now g client endpoint =
    (let g1 = g\<lparr> remote_server := Some client, remote_endpoint := endpoint \<rparr>
     in (remote_response now g1, emit_remote_changed now g1))"

definition request_set_remote ::
    "instant \<Rightarrow> bool \<Rightarrow> gates \<Rightarrow> bool \<Rightarrow> nat option \<Rightarrow> nat option \<Rightarrow> gate_reply \<times> gates" where
  "request_set_remote now ins g enabled for_secs idle_s =
    (if enabled \<and> remote_server g = None then (ErrorReply, g)
     else if check_remote_lease enabled for_secs idle_s \<noteq> None then (ErrorReply, g)
     else
       (let had_lease = (remote_lease g \<noteq> None);
            g1 = fst (set_remote g enabled);
            (g2, armed) = (if enabled then set_remote_lease ins g1
                 (lease_new now (map_option nanos for_secs) (map_option nanos idle_s) (remote_viewers g1))
               else (g1, True));
            (reply, g3) = (if armed then (remote_response now g2, g2)
               else (ErrorReply, fst (set_remote g2 False)));
            changed = (remote_enabled g3 \<noteq> remote_enabled g);
            auto_changed = (automation_enabled g3 \<noteq> automation_enabled g);
            capture_changed = (screen_capture_enabled g3 \<noteq> screen_capture_enabled g);
            lease_changed = (had_lease \<or> remote_lease g3 \<noteq> None)
        in (reply, announce_remote now g3 (changed \<or> lease_changed) auto_changed capture_changed)))"

definition report_remote_viewers :: "instant \<Rightarrow> bool \<Rightarrow> gates \<Rightarrow> nat \<Rightarrow> gate_reply \<times> gates" where
  "report_remote_viewers now ins g viewers =
    (let changed = (remote_viewers g \<noteq> viewers);
         g1 = g\<lparr> remote_viewers := viewers \<rparr>
     in if \<not> changed then (OkReply, g1)
        else (let (g2, closed) = remote_lease_viewers_changed now ins g1
              in (OkReply, if closed then g2 else emit_remote_changed now g2)))"

text \<open>The part of \<open>drop_ipc_client\<close> that concerns the registered server.\<close>

definition drop_remote_server :: "instant \<Rightarrow> gates \<Rightarrow> nat \<Rightarrow> gates" where
  "drop_remote_server now g client =
    (if remote_server g \<noteq> Some client then g
     else
       (let g1 = g\<lparr> remote_server := None, remote_endpoint := None \<rparr>;
            (g2, auto_changed, capture_changed) =
              (if remote_enabled g1 then set_remote g1 False else (g1, False, False));
            g3 = g2\<lparr> remote_viewers := 0 \<rparr>;
            g4 = (if auto_changed then emit_ipc (AutomationChanged (automation_enabled g3)) g3 else g3);
            g5 = (if capture_changed then emit_ipc (ScreenCaptureChanged (screen_capture_enabled g4)) g4 else g4)
        in emit_remote_changed now g5))"

text \<open>
  What asks for the screen: each refuses while the capture gate is off. The other conditions of
  each (a valid buffer, an output or window that exists, the session lock) are its arguments.
\<close>

definition copy_frame :: "gates \<Rightarrow> bool \<Rightarrow> nat \<Rightarrow> bool \<times> gates" where
  "copy_frame g valid i =
    (if \<not> screen_capture_enabled g then (False, g\<lparr> effects := effects g @ [FrameFailed i] \<rparr>)
     else if \<not> valid then (False, g)
     else (True, g\<lparr> frames := frames g @ [i] \<rparr>))"

text \<open>\<open>capture_constraints\<close> answers nothing while the gate is off, so no session is made.\<close>

definition new_session :: "gates \<Rightarrow> bool \<Rightarrow> nat \<Rightarrow> bool \<times> gates" where
  "new_session g output i =
    (if \<not> screen_capture_enabled g then (False, g)
     else if \<not> output then (False, g)
     else (True, g\<lparr> sessions := sessions g @ [i] \<rparr>))"

definition ext_frame :: "gates \<Rightarrow> bool \<Rightarrow> nat \<Rightarrow> bool \<times> gates" where
  "ext_frame g output i =
    (if \<not> screen_capture_enabled g then (False, g\<lparr> effects := effects g @ [ExtFrameFailed i] \<rparr>)
     else if \<not> output then (False, g\<lparr> effects := effects g @ [ExtFrameFailed i] \<rparr>)
     else (True, g\<lparr> ext_frames := ext_frames g @ [i] \<rparr>))"

definition capture_stream :: "gates \<Rightarrow> bool \<Rightarrow> nat \<Rightarrow> bool \<times> gates" where
  "capture_stream g output i =
    (if \<not> screen_capture_enabled g then (False, g)
     else if \<not> output then (False, g)
     else (True, g\<lparr> streams := streams g @ [i] \<rparr>))"

definition capture_window :: "gates \<Rightarrow> bool \<Rightarrow> bool \<Rightarrow> nat \<Rightarrow> bool \<times> gates" where
  "capture_window g locked window i =
    (if \<not> screen_capture_enabled g then (False, g)
     else if locked then (False, g)
     else if \<not> window then (False, g)
     else (True, g\<lparr> window_streams := window_streams g @ [i] \<rparr>))"

datatype capture_request =
    CopyFrame bool nat
  | NewSession bool nat
  | CopyExtFrame bool nat
  | CaptureStream bool nat
  | CaptureWindow bool bool nat

fun request_capture :: "gates \<Rightarrow> capture_request \<Rightarrow> bool \<times> gates" where
  "request_capture g (CopyFrame valid i) = copy_frame g valid i"
| "request_capture g (NewSession output i) = new_session g output i"
| "request_capture g (CopyExtFrame output i) = ext_frame g output i"
| "request_capture g (CaptureStream output i) = capture_stream g output i"
| "request_capture g (CaptureWindow locked window i) = capture_window g locked window i"

lemmas request_capture_defs = copy_frame_def new_session_def ext_frame_def capture_stream_def capture_window_def

section \<open>Runs\<close>

text \<open>
  The clock and the gates. Time passes, the timer fires at or after the time it was armed for,
  clients make requests (apart from \<open>set_remote\<close>), captures are asked for and end.
\<close>

inductive gate_step :: "instant \<times> gates \<Rightarrow> instant \<times> gates \<Rightarrow> bool" where
  Time: "t \<le> t' \<Longrightarrow> gate_step (t, g) (t', g)"
| Fires: "lease_timer g = Some d \<Longrightarrow> d \<le> t \<Longrightarrow> gate_step (t, g) (t, lease_timer_fires t ins g)"
| Automation: "gate_step (t, g) (t, snd (request_set_automation g e))"
| Capture: "gate_step (t, g) (t, snd (request_set_screen_capture g e))"
| Register: "gate_step (t, g) (t, snd (register_remote_server t g c ep))"
| Viewers: "gate_step (t, g) (t, snd (report_remote_viewers t ins g n))"
| Dropped: "gate_step (t, g) (t, drop_remote_server t g c)"
| Captured: "gate_step (t, g) (t, snd (request_capture g r))"
| CaptureEnds: "set fs \<subseteq> set (frames g) \<Longrightarrow> set ss \<subseteq> set (sessions g) \<Longrightarrow> set es \<subseteq> set (ext_frames g) \<Longrightarrow>
    set os \<subseteq> set (streams g) \<Longrightarrow> set ws \<subseteq> set (window_streams g) \<Longrightarrow>
    gate_step (t, g) (t, g\<lparr> frames := fs, sessions := ss, ext_frames := es, streams := os,
       window_streams := ws \<rparr>)"

inductive gate_run :: "instant \<times> gates \<Rightarrow> instant \<times> gates \<Rightarrow> bool" where
  Start: "gate_run s s"
| Step: "gate_run s s' \<Longrightarrow> gate_step s' s'' \<Longrightarrow> gate_run s s''"
| Ask: "gate_run s (t, g) \<Longrightarrow> gate_run s (t, snd (request_set_remote t ins g e fs is))"

text \<open>The gates as \<open>main\<close> starts them: remote off, capture as configured.\<close>

definition gates_start :: "bool \<Rightarrow> bool \<Rightarrow> gates" where
  "gates_start automation capture =
    \<lparr> remote_enabled = False, automation_enabled = automation, screen_capture_enabled = capture,
      remote_server = None, remote_endpoint = None, remote_viewers = 0, remote_lease = None,
      lease_timer = None, capture_gate = capture, manager_global = capture, frames = [], sessions = [],
      ext_frames = [], streams = [], window_streams = [], events = [], effects = [] \<rparr>"

section \<open>The invariant\<close>

definition captures :: "gates \<Rightarrow> nat list" where
  "captures g = frames g @ sessions g @ ext_frames g @ streams g @ window_streams g"

definition capture_ends :: "gates \<Rightarrow> gate_effect list" where
  "capture_ends g = map FrameFailed (frames g) @ map SessionStopped (sessions g) @
     map ExtFrameFailed (ext_frames g) @ map StreamBye (streams g) @ map WindowStreamBye (window_streams g)"

definition capture_ok :: "gates \<Rightarrow> bool" where
  "capture_ok g \<longleftrightarrow> capture_gate g = screen_capture_enabled g \<and>
     manager_global g = screen_capture_enabled g \<and> (\<not> screen_capture_enabled g \<longrightarrow> captures g = [])"

definition lease_ok :: "gates \<Rightarrow> bool" where
  "lease_ok g \<longleftrightarrow> (case remote_lease g of
     None \<Rightarrow> lease_timer g = None
   | Some l \<Rightarrow> remote_enabled g \<and> (idle_since l = None \<longleftrightarrow> 0 < remote_viewers g) \<and>
       lease_timer g = deadline l)"

definition gates_ok :: "gates \<Rightarrow> bool" where
  "gates_ok g \<longleftrightarrow> capture_ok g \<and> lease_ok g \<and> (remote_enabled g \<longrightarrow> remote_server g \<noteq> None)"

lemma set_screen_capture_simps [simp]:
  "remote_enabled (set_screen_capture g e) = remote_enabled g"
  "automation_enabled (set_screen_capture g e) = automation_enabled g"
  "screen_capture_enabled (set_screen_capture g e) = e"
  "remote_server (set_screen_capture g e) = remote_server g"
  "remote_viewers (set_screen_capture g e) = remote_viewers g"
  "remote_lease (set_screen_capture g e) = remote_lease g"
  "lease_timer (set_screen_capture g e) = lease_timer g"
  "events (set_screen_capture g e) = events g"
  "capture_ok g \<Longrightarrow> capture_ok (set_screen_capture g e)"
  by (auto simp: set_screen_capture_def capture_ok_def captures_def Let_def)

lemma emit_simps [simp]:
  "remote_enabled (emit_ipc e g) = remote_enabled g" "automation_enabled (emit_ipc e g) = automation_enabled g"
  "screen_capture_enabled (emit_ipc e g) = screen_capture_enabled g"
  "remote_server (emit_ipc e g) = remote_server g" "remote_viewers (emit_ipc e g) = remote_viewers g"
  "remote_lease (emit_ipc e g) = remote_lease g" "lease_timer (emit_ipc e g) = lease_timer g"
  "capture_ok (emit_ipc e g) = capture_ok g" "lease_ok (emit_ipc e g) = lease_ok g"
  "gates_ok (emit_ipc e g) = gates_ok g" "events (emit_ipc e g) = events g @ [e]"
  "effects (emit_ipc e g) = effects g"
  by (simp_all add: emit_ipc_def capture_ok_def captures_def lease_ok_def gates_ok_def split: option.splits)

lemma announce_simps [simp]:
  "remote_enabled (announce_remote t g c a k) = remote_enabled g"
  "automation_enabled (announce_remote t g c a k) = automation_enabled g"
  "screen_capture_enabled (announce_remote t g c a k) = screen_capture_enabled g"
  "remote_server (announce_remote t g c a k) = remote_server g"
  "remote_viewers (announce_remote t g c a k) = remote_viewers g"
  "remote_lease (announce_remote t g c a k) = remote_lease g"
  "lease_timer (announce_remote t g c a k) = lease_timer g"
  "capture_ok (announce_remote t g c a k) = capture_ok g"
  "lease_ok (announce_remote t g c a k) = lease_ok g"
  "gates_ok (announce_remote t g c a k) = gates_ok g" "gates_ok (emit_remote_changed t g) = gates_ok g"
  "effects (announce_remote t g c a k) = effects g"
  by (simp_all add: announce_remote_def emit_remote_changed_def Let_def)

text \<open>What \<open>set_remote\<close> leaves.\<close>

lemma set_remote_effect:
  assumes "set_remote g e = (g', auto_changed, capture_changed)"
  shows "remote_enabled g' = e" "automation_enabled g' = e" "screen_capture_enabled g' = e"
    "remote_lease g' = None" "lease_timer g' = None" "remote_server g' = remote_server g"
    "remote_viewers g' = (if e then remote_viewers g else 0)" "events g' = events g"
    "auto_changed \<longleftrightarrow> automation_enabled g \<noteq> e" "capture_changed \<longleftrightarrow> screen_capture_enabled g \<noteq> e"
    "capture_ok g \<Longrightarrow> capture_ok g'"
    "\<not> e \<Longrightarrow> capture_ok g \<Longrightarrow> effects g' = effects g @ InputReleased # capture_ends g"
  using assms
  by (auto simp: set_remote_def set_automation_def set_remote_lease_def arm_remote_lease_def Let_def
      capture_ok_def captures_def capture_ends_def set_screen_capture_def split: if_splits)

lemma gates_okD:
  "gates_ok g \<Longrightarrow> capture_ok g" "gates_ok g \<Longrightarrow> lease_ok g"
  "gates_ok g \<Longrightarrow> remote_enabled g \<Longrightarrow> remote_server g \<noteq> None"
  by (simp_all add: gates_ok_def)

lemma gates_ok_off:
  "set_remote g False = (g', a, c) \<Longrightarrow> capture_ok g \<Longrightarrow> gates_ok g'"
  by (simp add: gates_ok_def lease_ok_def set_remote_effect)

lemma gates_ok_turn_off:
  "capture_ok g \<Longrightarrow> gates_ok (fst (turn_remote t g False))"
  using gates_ok_off [of g] by (auto simp: turn_remote_def Let_def split: prod.splits)

text \<open>Arming: the timer is the lease's deadline, or arming failed.\<close>

lemma arm_cases:
  assumes "arm_remote_lease ins g = (g', armed)"
  shows "g' = g\<lparr> lease_timer := lease_timer g' \<rparr>"
    "armed \<Longrightarrow> lease_timer g' = (case remote_lease g of Some l \<Rightarrow> deadline l | None \<Rightarrow> None)"
    "ins \<Longrightarrow> armed"
  using assms by (auto simp: arm_remote_lease_def Let_def split: option.splits if_splits)

lemma capture_ok_lease [simp]:
  "capture_ok (g\<lparr> remote_lease := l \<rparr>) = capture_ok g" "capture_ok (g\<lparr> lease_timer := d \<rparr>) = capture_ok g"
  "capture_ok (g\<lparr> remote_viewers := n \<rparr>) = capture_ok g"
  "capture_ok (g\<lparr> remote_server := c, remote_endpoint := ep \<rparr>) = capture_ok g"
  "capture_ok (g\<lparr> remote_enabled := b \<rparr>) = capture_ok g"
  by (simp_all add: capture_ok_def captures_def)

lemma gates_ok_arm:
  assumes "arm_remote_lease ins g = (g', True)" "capture_ok g" "remote_enabled g \<longrightarrow> remote_server g \<noteq> None"
    and "\<And>l. remote_lease g = Some l \<Longrightarrow> remote_enabled g \<and> (idle_since l = None \<longleftrightarrow> 0 < remote_viewers g)"
  shows "gates_ok g'"
proof -
  note a = arm_cases [OF assms(1)]
  obtain d where g': "g' = g\<lparr> lease_timer := d \<rparr>" using a(1) by blast
  have "d = (case remote_lease g of Some l \<Rightarrow> deadline l | None \<Rightarrow> None)" using a(2) by (simp add: g')
  then show ?thesis
    using assms(2-4) by (simp add: g' gates_ok_def lease_ok_def split: option.splits)
qed

lemma idle_since_viewers_changed [simp]:
  "idle_since (viewers_changed l t n) = None \<longleftrightarrow> 0 < n"
  "until (viewers_changed l t n) = until l"
  by (auto simp: viewers_changed_def split: option.splits)

lemma capture_ok_arm: "arm_remote_lease ins g = (g', b) \<Longrightarrow> capture_ok g' = capture_ok g"
  by (drule arm_cases(1), erule ssubst) simp

lemma gates_ok_viewers:
  assumes "gates_ok g"
  shows "gates_ok (snd (report_remote_viewers t ins g n))"
proof (cases "remote_viewers g = n")
  case True
  then show ?thesis
    using assms by (auto simp: report_remote_viewers_def gates_ok_def lease_ok_def split: option.splits)
next
  case False
  let ?g = "g\<lparr> remote_viewers := n \<rparr>"
  show ?thesis
  proof (cases "remote_lease g")
    case None
    then have "gates_ok ?g" using assms by (simp add: gates_ok_def lease_ok_def)
    with False None show ?thesis
      by (simp add: report_remote_viewers_def remote_lease_viewers_changed_def Let_def)
  next
    case (Some l)
    let ?g1 = "?g\<lparr> remote_lease := Some (viewers_changed l t n) \<rparr>"
    obtain g' b where arm: "arm_remote_lease ins ?g1 = (g', b)" by fastforce
    have "gates_ok g'" if b
      by (rule gates_ok_arm [of ins ?g1])
         (use assms Some arm that in \<open>auto simp: gates_ok_def lease_ok_def\<close>)
    moreover have "gates_ok (remote_lease_fail_closed t g')"
      unfolding remote_lease_fail_closed_def
      by (rule gates_ok_turn_off) (use assms capture_ok_arm [OF arm] in \<open>simp add: gates_okD\<close>)
    ultimately show ?thesis
      using False Some arm
      by (cases b) (simp_all add: report_remote_viewers_def remote_lease_viewers_changed_def Let_def)
  qed
qed

lemma gates_ok_set_remote:
  assumes "gates_ok g"
  shows "gates_ok (snd (request_set_remote t ins g e fs is))"
proof (cases "(e \<and> remote_server g = None) \<or> check_remote_lease e fs is \<noteq> None")
  case True
  with assms show ?thesis by (auto simp: request_set_remote_def)
next
  case False
  obtain g1 a c where r: "set_remote g e = (g1, a, c)" by (metis prod_cases3)
  note e1 = set_remote_effect [OF r]
  let ?l = "lease_new t (map_option nanos fs) (map_option nanos is) (remote_viewers g1)"
  obtain g2 armed where g2: "(if e then set_remote_lease ins g1 ?l else (g1, True)) = (g2, armed)"
    by fastforce
  have c2: "capture_ok g2"
    using g2 e1(11) assms capture_ok_arm [of ins "g1\<lparr> remote_lease := ?l \<rparr>"]
    by (auto simp: set_remote_lease_def gates_okD split: if_splits)
  have "gates_ok g2" if armed
  proof (cases e)
    case True
    show ?thesis
      by (rule gates_ok_arm [of ins "g1\<lparr> remote_lease := ?l \<rparr>"])
         (use g2 that True False e1 assms in \<open>auto simp: set_remote_lease_def gates_okD lease_new_def Let_def
           split: if_splits\<close>)
  next
    case no: False
    with g2 r assms show ?thesis using gates_ok_off [of g] by (simp add: gates_okD)
  qed
  moreover have "gates_ok (fst (set_remote g2 False))"
    using gates_ok_off [of g2] c2 by (cases "set_remote g2 False") auto
  ultimately have "gates_ok (if armed then g2 else fst (set_remote g2 False))" by simp
  then show ?thesis
    using False g2 r by (cases armed) (auto simp: request_set_remote_def Let_def split: prod.splits if_splits)
qed

lemma gates_ok_tick:
  assumes "gates_ok g"
  shows "gates_ok (lease_timer_fires t ins g)"
proof (cases "remote_lease g")
  case None
  then show ?thesis
    using assms by (simp add: lease_timer_fires_def remote_lease_tick_def gates_ok_def lease_ok_def)
next
  case (Some l)
  let ?g = "g\<lparr> lease_timer := None \<rparr>"
  have off: "gates_ok (fst (turn_remote t ?g False))"
    by (rule gates_ok_turn_off) (use assms in \<open>simp add: gates_okD\<close>)
  obtain g' b where arm: "arm_remote_lease ins ?g = (g', b)" by fastforce
  have "gates_ok g'" if b
    by (rule gates_ok_arm [of ins ?g])
       (use assms Some arm that in \<open>auto simp: gates_ok_def lease_ok_def\<close>)
  moreover have "gates_ok (remote_lease_fail_closed t g')"
    unfolding remote_lease_fail_closed_def
    by (rule gates_ok_turn_off) (use assms capture_ok_arm [OF arm] in \<open>simp add: gates_okD\<close>)
  moreover have "gates_ok ?g" if "deadline l = None"
    using assms Some that by (simp add: gates_ok_def lease_ok_def)
  ultimately show ?thesis
    using Some arm off
    by (cases b) (auto simp: lease_timer_fires_def remote_lease_tick_def split: option.splits)
qed

lemma gates_ok_dropped:
  assumes "gates_ok g"
  shows "gates_ok (drop_remote_server t g c)"
proof (cases "remote_server g = Some c")
  case True
  let ?g = "g\<lparr> remote_server := None, remote_endpoint := None \<rparr>"
  obtain g1 a k where r: "(if remote_enabled ?g then set_remote ?g False else (?g, False, False)) = (g1, a, k)"
    by (metis prod_cases3)
  have "gates_ok (g1\<lparr> remote_viewers := 0 \<rparr>)"
  proof (cases "remote_enabled g")
    case True
    with r have r': "set_remote ?g False = (g1, a, k)" by simp
    show ?thesis
      using set_remote_effect [OF r'] assms by (simp add: gates_ok_def lease_ok_def)
  next
    case False
    with assms have "remote_lease g = None" "lease_timer g = None"
      by (auto simp: gates_ok_def lease_ok_def split: option.splits)
    with False r assms show ?thesis by (auto simp: gates_ok_def lease_ok_def)
  qed
  with True r show ?thesis
    by (simp add: drop_remote_server_def Let_def)
qed (use assms in \<open>simp add: drop_remote_server_def\<close>)

lemma gates_ok_automation: "gates_ok g \<Longrightarrow> gates_ok (snd (request_set_automation g e))"
  by (auto simp: request_set_automation_def set_automation_def gates_ok_def Let_def lease_ok_def
      capture_ok_def captures_def set_screen_capture_def emit_ipc_def split: option.splits)

lemma gates_ok_capture: "gates_ok g \<Longrightarrow> gates_ok (snd (request_set_screen_capture g e))"
  by (auto simp: request_set_screen_capture_def gates_ok_def Let_def lease_ok_def split: option.splits)

lemma gates_ok_captured: "gates_ok g \<Longrightarrow> gates_ok (snd (request_capture g r))"
  by (cases r) (auto simp: request_capture_defs gates_ok_def lease_ok_def capture_ok_def captures_def
      split: option.splits)

lemma gates_ok_register: "gates_ok g \<Longrightarrow> gates_ok (snd (register_remote_server t g c ep))"
  by (auto simp: register_remote_server_def gates_ok_def lease_ok_def emit_remote_changed_def Let_def
      split: option.splits)

lemma gates_ok_ends:
  "gates_ok g \<Longrightarrow> set fs \<subseteq> set (frames g) \<Longrightarrow> set ss \<subseteq> set (sessions g) \<Longrightarrow> set es \<subseteq> set (ext_frames g) \<Longrightarrow>
   set os \<subseteq> set (streams g) \<Longrightarrow> set ws \<subseteq> set (window_streams g) \<Longrightarrow>
   gates_ok (g\<lparr> frames := fs, sessions := ss, ext_frames := es, streams := os, window_streams := ws \<rparr>)"
  by (auto simp: gates_ok_def lease_ok_def capture_ok_def captures_def split: option.splits)

lemma gates_ok_step: "gate_step (t, g) (t', g') \<Longrightarrow> gates_ok g \<Longrightarrow> gates_ok g'"
  by (cases rule: gate_step.cases)
     (auto intro: gates_ok_tick gates_ok_automation gates_ok_capture gates_ok_register gates_ok_viewers
        gates_ok_dropped gates_ok_captured gates_ok_ends)

lemma gates_ok_start: "gates_ok (gates_start a c)"
  by (simp add: gates_ok_def gates_start_def lease_ok_def capture_ok_def captures_def)

lemma gates_ok_run: "gate_run s s' \<Longrightarrow> gates_ok (snd s) \<Longrightarrow> gates_ok (snd s')"
proof (induction rule: gate_run.induct)
  case (Step s s' s'')
  then show ?case using gates_ok_step [of "fst s'" "snd s'" "fst s''" "snd s''"] by simp
qed (auto intro: gates_ok_set_remote)

section \<open>What subscribers were told\<close>

fun last_told :: "(gate_event \<Rightarrow> 'a option) \<Rightarrow> 'a \<Rightarrow> gate_event list \<Rightarrow> 'a" where
  "last_told f a [] = a"
| "last_told f a (e # es) = last_told f (case f e of Some x \<Rightarrow> x | None \<Rightarrow> a) es"

fun automation_of :: "gate_event \<Rightarrow> bool option" where
  "automation_of (AutomationChanged b) = Some b" | "automation_of _ = None"

fun capture_of :: "gate_event \<Rightarrow> bool option" where
  "capture_of (ScreenCaptureChanged b) = Some b" | "capture_of _ = None"

fun remote_of :: "gate_event \<Rightarrow> (bool \<times> bool \<times> nat) option" where
  "remote_of (RemoteChanged e s v l) = Some (e, s, v)" | "remote_of _ = None"

lemma last_told_append [simp]:
  "last_told f a (es @ [e]) = (case f e of Some x \<Rightarrow> x | None \<Rightarrow> last_told f a es)"
  by (induction es arbitrary: a) (auto split: option.splits)

text \<open>The events so far, read by a subscriber that knew the gates at the start.\<close>

definition told_ok :: "bool \<Rightarrow> bool \<Rightarrow> gates \<Rightarrow> bool" where
  "told_ok a0 c0 g \<longleftrightarrow> last_told automation_of a0 (events g) = automation_enabled g \<and>
     last_told capture_of c0 (events g) = screen_capture_enabled g \<and>
     (case last_told remote_of (False, False, 0) (events g) of (r, s, v) \<Rightarrow>
        r = remote_enabled g \<and> s = (remote_server g \<noteq> None) \<and> (r \<longrightarrow> v = remote_viewers g))"

lemma told_announce:
  assumes "events g = es" "ac \<longleftrightarrow> automation_enabled g \<noteq> last_told automation_of a0 es"
    "cc \<longleftrightarrow> screen_capture_enabled g \<noteq> last_told capture_of c0 es"
    "\<not> ch \<Longrightarrow> (case last_told remote_of (False, False, 0) es of (r, s, v) \<Rightarrow>
        r = remote_enabled g \<and> s = (remote_server g \<noteq> None) \<and> (r \<longrightarrow> v = remote_viewers g))"
  shows "told_ok a0 c0 (announce_remote t g ch ac cc)"
  using assms by (auto simp: told_ok_def announce_remote_def emit_remote_changed_def Let_def)

lemma told_set_remote:
  assumes "set_remote g e = (g', ac, cc)" "told_ok a0 c0 g" "ch \<or> remote_enabled g = e"
  shows "told_ok a0 c0 (announce_remote t g' ch ac cc)"
proof -
  note e = set_remote_effect [OF assms(1)]
  show ?thesis
    by (rule told_announce [OF e(8)]) (use assms(2,3) in \<open>auto simp: e told_ok_def split: prod.splits\<close>)
qed

lemma told_turn_remote: "told_ok a0 c0 g \<Longrightarrow> told_ok a0 c0 (fst (turn_remote t g e))"
proof -
  assume told: "told_ok a0 c0 g"
  obtain g' ac cc where r: "set_remote g e = (g', ac, cc)" by (metis prod_cases3)
  have "told_ok a0 c0 (announce_remote t g' (remote_enabled g \<noteq> e) ac cc)"
    by (rule told_set_remote [OF r told]) blast
  then show ?thesis by (simp add: turn_remote_def r Let_def)
qed

lemma told_ok_frame [simp]:
  "told_ok a0 c0 (g\<lparr> lease_timer := d \<rparr>) = told_ok a0 c0 g"
  "told_ok a0 c0 (g\<lparr> remote_lease := l \<rparr>) = told_ok a0 c0 g"
  "told_ok a0 c0 (g\<lparr> frames := fs, sessions := ss, ext_frames := es, streams := os, window_streams := ws \<rparr>)
     = told_ok a0 c0 g"
  by (simp_all add: told_ok_def)

lemma told_arm: "arm_remote_lease ins g = (g', b) \<Longrightarrow> told_ok a0 c0 g' = told_ok a0 c0 g"
  by (drule arm_cases(1), erule ssubst) simp

lemma told_viewers:
  assumes ok: "gates_ok g" and told: "told_ok a0 c0 g"
  shows "told_ok a0 c0 (snd (report_remote_viewers t ins g n))"
proof (cases "remote_viewers g = n")
  case True
  then show ?thesis using told by (auto simp: report_remote_viewers_def told_ok_def)
next
  case False
  let ?g = "g\<lparr> remote_viewers := n \<rparr>"
  have emit: "told_ok a0 c0 (emit_remote_changed t g')"
    if "automation_enabled g' = automation_enabled g" "screen_capture_enabled g' = screen_capture_enabled g"
      "events g' = events g" for g'
    using told that by (auto simp: told_ok_def emit_remote_changed_def)
  show ?thesis
  proof (cases "remote_lease g")
    case None
    then show ?thesis using False emit [of ?g]
      by (simp add: report_remote_viewers_def remote_lease_viewers_changed_def Let_def)
  next
    case (Some l)
    let ?g1 = "?g\<lparr> remote_lease := Some (viewers_changed l t n) \<rparr>"
    obtain g' b where arm: "arm_remote_lease ins ?g1 = (g', b)" by fastforce
    obtain d where g': "g' = ?g1\<lparr> lease_timer := d \<rparr>" using arm_cases(1) [OF arm] by blast
    obtain g2 ac cc where off: "set_remote g' False = (g2, ac, cc)" by (metis prod_cases3)
    have on: "remote_enabled g'" using ok Some by (simp add: g' gates_ok_def lease_ok_def)
    note e = set_remote_effect [OF off]
    have "told_ok a0 c0 (announce_remote t g2 True ac cc)"
      by (rule told_announce [OF e(8)]) (use told in \<open>simp_all add: e g' told_ok_def\<close>)
    then have "told_ok a0 c0 (remote_lease_fail_closed t g')"
      using on by (simp add: remote_lease_fail_closed_def turn_remote_def off Let_def)
    moreover have "told_ok a0 c0 (emit_remote_changed t g')" by (rule emit) (simp_all add: g')
    ultimately show ?thesis
      using False Some arm
      by (cases b) (simp_all add: report_remote_viewers_def remote_lease_viewers_changed_def Let_def)
  qed
qed

lemma told_tick:
  assumes "told_ok a0 c0 g"
  shows "told_ok a0 c0 (lease_timer_fires t ins g)"
proof -
  let ?g = "g\<lparr> lease_timer := None \<rparr>"
  obtain g' b where arm: "arm_remote_lease ins ?g = (g', b)" by fastforce
  have "told_ok a0 c0 g'" using told_arm [OF arm] assms by simp
  then show ?thesis
    using assms arm by (auto simp: lease_timer_fires_def remote_lease_tick_def remote_lease_fail_closed_def
        intro!: told_turn_remote split: option.splits)
qed

lemma told_dropped:
  assumes told: "told_ok a0 c0 g"
  shows "told_ok a0 c0 (drop_remote_server t g c)"
proof (cases "remote_server g = Some c")
  case True
  let ?g = "g\<lparr> remote_server := None, remote_endpoint := None \<rparr>"
  obtain g1 a k where r: "(if remote_enabled ?g then set_remote ?g False else (?g, False, False)) = (g1, a, k)"
    by (metis prod_cases3)
  have e: "events g1 = events g" "a \<longleftrightarrow> automation_enabled g1 \<noteq> automation_enabled g"
    "k \<longleftrightarrow> screen_capture_enabled g1 \<noteq> screen_capture_enabled g"
    using r set_remote_effect [of ?g False g1 a k] by (auto split: if_splits)
  have "told_ok a0 c0 (announce_remote t (g1\<lparr> remote_viewers := 0 \<rparr>) True a k)"
    by (rule told_announce [of _ "events g"]) (use told e in \<open>auto simp: told_ok_def\<close>)
  then show ?thesis using True r
    by (simp add: drop_remote_server_def announce_remote_def Let_def)
qed (use told in \<open>simp add: drop_remote_server_def\<close>)

lemma told_automation:
  "told_ok a0 c0 g \<Longrightarrow> told_ok a0 c0 (snd (request_set_automation g e))"
  by (auto simp: request_set_automation_def set_automation_def told_ok_def Let_def)

lemma told_capture: "told_ok a0 c0 g \<Longrightarrow> told_ok a0 c0 (snd (request_set_screen_capture g e))"
  by (auto simp: request_set_screen_capture_def told_ok_def Let_def)

lemma told_captured: "told_ok a0 c0 g \<Longrightarrow> told_ok a0 c0 (snd (request_capture g r))"
  by (cases r) (auto simp: request_capture_defs told_ok_def)

lemma told_register: "told_ok a0 c0 g \<Longrightarrow> told_ok a0 c0 (snd (register_remote_server t g c ep))"
  by (auto simp: register_remote_server_def emit_remote_changed_def told_ok_def Let_def)

lemma told_step:
  "gate_step (t, g) (t', g') \<Longrightarrow> gates_ok g \<Longrightarrow> told_ok a0 c0 g \<Longrightarrow> told_ok a0 c0 g'"
  by (cases rule: gate_step.cases)
     (auto intro: told_tick told_automation told_capture told_register told_viewers told_dropped told_captured)

lemma told_request_set_remote:
  assumes told: "told_ok a0 c0 g"
  shows "told_ok a0 c0 (snd (request_set_remote t ins g e fs is))"
proof (cases "(e \<and> remote_server g = None) \<or> check_remote_lease e fs is \<noteq> None")
  case True
  with told show ?thesis by (auto simp: request_set_remote_def)
next
  case False
  obtain g1 a c where r: "set_remote g e = (g1, a, c)" by (metis prod_cases3)
  note e1 = set_remote_effect [OF r]
  let ?l = "lease_new t (map_option nanos fs) (map_option nanos is) (remote_viewers g1)"
  obtain g2 armed where g2: "(if e then set_remote_lease ins g1 ?l else (g1, True)) = (g2, armed)"
    by fastforce
  obtain l d where l: "g2 = g1\<lparr> remote_lease := l, lease_timer := d \<rparr>"
  proof (cases e)
    case True
    with g2 have "arm_remote_lease ins (g1\<lparr> remote_lease := ?l \<rparr>) = (g2, armed)"
      by (simp add: set_remote_lease_def)
    from arm_cases(1) [OF this] that show ?thesis by auto
  next
    case no: False
    with g2 that [of "lease_timer g1" "remote_lease g1"] show ?thesis by simp
  qed
  let ?g3 = "if armed then g2 else fst (set_remote g2 False)"
  obtain g3' a3 c3 where r3: "set_remote g2 False = (g3', a3, c3)" by (metis prod_cases3)
  note e3 = set_remote_effect [OF r3]
  have g3: "events ?g3 = events g" "remote_server ?g3 = remote_server g"
    "remote_enabled ?g3 \<Longrightarrow> remote_viewers ?g3 = remote_viewers g"
    using e1 e3 r3 by (cases armed; cases e; simp add: l)+
  have "told_ok a0 c0 (announce_remote t ?g3
      ((remote_enabled ?g3 \<noteq> remote_enabled g) \<or> remote_lease g \<noteq> None \<or> remote_lease ?g3 \<noteq> None)
      (automation_enabled ?g3 \<noteq> automation_enabled g)
      (screen_capture_enabled ?g3 \<noteq> screen_capture_enabled g))"
    by (rule told_announce [OF g3(1)])
       (use told g3(2,3) in \<open>auto simp: told_ok_def split: prod.splits\<close>)
  then show ?thesis
    using False g2 r by (cases armed) (auto simp: request_set_remote_def Let_def split: prod.splits if_splits)
qed

lemma told_ok_run: "gate_run s s' \<Longrightarrow> gates_ok (snd s) \<Longrightarrow> told_ok a0 c0 (snd s) \<Longrightarrow> told_ok a0 c0 (snd s')"
proof (induction rule: gate_run.induct)
  case (Step s s' s'')
  then show ?case
    using told_step [of "fst s'" "snd s'" "fst s''" "snd s''"] gates_ok_run [OF Step.hyps(1)] by simp
qed (auto intro: told_request_set_remote)

lemma told_ok_start: "told_ok a c (gates_start a c)"
  by (simp add: told_ok_def gates_start_def)

section \<open>Properties\<close>

text \<open>The time limit of a lease survives everything but another \<open>set_remote\<close>.\<close>

definition limited :: "instant \<Rightarrow> gates \<Rightarrow> bool" where
  "limited u g \<longleftrightarrow> (remote_enabled g \<longrightarrow> (\<exists>l. remote_lease g = Some l \<and> until l = Some u))"

lemma limited_off: "\<not> remote_enabled g \<Longrightarrow> limited u g"
  by (simp add: limited_def)

lemma turn_remote_off: "\<not> remote_enabled (fst (turn_remote t g False))"
  using set_remote_effect(1) [of g False] by (auto simp: turn_remote_def Let_def split: prod.splits)

lemma limited_frame:
  "remote_enabled g' = remote_enabled g \<Longrightarrow> remote_lease g' = remote_lease g \<Longrightarrow> limited u g' = limited u g"
  by (simp add: limited_def)

lemma limited_arm:
  "arm_remote_lease ins g = (g', b) \<Longrightarrow> limited u g' = limited u g"
  by (drule arm_cases(1), erule ssubst) (simp add: limited_def)

lemma limited_viewers:
  assumes "limited u g"
  shows "limited u (snd (report_remote_viewers t ins g n))"
proof (cases "remote_lease g")
  case None
  with assms show ?thesis
    by (auto simp: report_remote_viewers_def remote_lease_viewers_changed_def limited_def Let_def
        emit_remote_changed_def)
next
  case (Some l)
  let ?g1 = "g\<lparr> remote_viewers := n, remote_lease := Some (viewers_changed l t n) \<rparr>"
  obtain g' b where arm: "arm_remote_lease ins ?g1 = (g', b)" by fastforce
  have "limited u ?g1" using assms Some by (auto simp: limited_def)
  then have "limited u g'" using limited_arm [OF arm] by simp
  moreover have "limited u (g\<lparr> remote_viewers := n \<rparr>)" using assms by (simp add: limited_def)
  ultimately show ?thesis
    using Some arm turn_remote_off [of t g']
    by (auto simp: report_remote_viewers_def remote_lease_viewers_changed_def Let_def
        remote_lease_fail_closed_def limited_off emit_remote_changed_def limited_frame [of "emit_ipc _ _"])
qed

lemma limited_tick:
  assumes "limited u g"
  shows "limited u (lease_timer_fires t ins g)"
proof -
  let ?g = "g\<lparr> lease_timer := None \<rparr>"
  obtain g' b where arm: "arm_remote_lease ins ?g = (g', b)" by fastforce
  have "limited u g'" using limited_arm [OF arm] assms by (simp add: limited_def)
  then show ?thesis
    using assms arm turn_remote_off
    by (auto simp: lease_timer_fires_def remote_lease_tick_def remote_lease_fail_closed_def limited_off
        limited_frame [of "g\<lparr> lease_timer := None \<rparr>"] split: option.splits)
qed

lemma limited_dropped:
  assumes "limited u g"
  shows "limited u (drop_remote_server t g c)"
proof (cases "remote_enabled g")
  case True
  let ?g = "g\<lparr> remote_server := None, remote_endpoint := None \<rparr>"
  obtain g1 a k where r: "set_remote ?g False = (g1, a, k)" by (metis prod_cases3)
  from set_remote_effect(1) [OF r] True assms show ?thesis
    by (simp add: drop_remote_server_def Let_def limited_def emit_remote_changed_def r)
next
  case False
  then show ?thesis
    by (simp add: drop_remote_server_def Let_def limited_def emit_remote_changed_def)
qed

lemma limited_others:
  "limited u g \<Longrightarrow> limited u (snd (request_set_automation g e))"
  "limited u g \<Longrightarrow> limited u (snd (request_set_screen_capture g e))"
  "limited u g \<Longrightarrow> limited u (snd (register_remote_server t g c ep))"
  "limited u g \<Longrightarrow> limited u (snd (request_capture g r))"
  by (auto simp: limited_def request_set_automation_def set_automation_def request_set_screen_capture_def
      register_remote_server_def emit_remote_changed_def Let_def split: if_splits)
    (cases r; auto simp: request_capture_defs split: if_splits)+

lemma limited_step: "gate_step (t, g) (t', g') \<Longrightarrow> limited u g \<Longrightarrow> limited u g'"
  by (cases rule: gate_step.cases)
     (auto intro: limited_viewers limited_tick limited_dropped limited_others limited_frame [THEN iffD2])

lemma limited_steps:
  "gate_step\<^sup>*\<^sup>* s s' \<Longrightarrow> limited u (snd s) \<Longrightarrow> gates_ok (snd s) \<Longrightarrow> limited u (snd s') \<and> gates_ok (snd s')"
proof (induction rule: rtranclp_induct)
  case (step s' s'')
  then show ?case
    using limited_step [of "fst s'" "snd s'" "fst s''" "snd s''"] gates_ok_step [of "fst s'" "snd s'" "fst s''" "snd s''"]
    by simp
qed simp

text \<open>An accepted request to turn the gate on under a lease.\<close>

lemma accepted_lease:
  assumes "request_set_remote t ins g True fs is = (r, g')" "r \<noteq> ErrorReply"
  shows "remote_enabled g' \<and> remote_lease g' = lease_new t (map_option nanos fs) (map_option nanos is) (remote_viewers g) \<and>
    check_remote_lease True fs is = None \<and> remote_server g \<noteq> None"
proof -
  obtain g1 a c where r: "set_remote g True = (g1, a, c)" by (metis prod_cases3)
  note e1 = set_remote_effect [OF r]
  let ?l = "lease_new t (map_option nanos fs) (map_option nanos is) (remote_viewers g)"
  obtain g2 armed where g2: "set_remote_lease ins g1 ?l = (g2, armed)" by fastforce
  have ok: "remote_server g \<noteq> None" "check_remote_lease True fs is = None"
    using assms by (auto simp: request_set_remote_def split: if_splits)
  have a: armed
    using assms ok r g2 e1(7) by (auto simp: request_set_remote_def Let_def split: prod.splits if_splits)
  have "arm_remote_lease ins (g1\<lparr> remote_lease := ?l \<rparr>) = (g2, armed)" using g2 by (simp add: set_remote_lease_def)
  from arm_cases(1) [OF this] obtain d where "g2 = g1\<lparr> remote_lease := ?l, lease_timer := d \<rparr>" by auto
  with assms ok r g2 e1(1,7) a show ?thesis by (auto simp: request_set_remote_def Let_def)
qed

lemma nanos_mono: "n \<le> m \<Longrightarrow> nanos n \<le> nanos m" by (simp add: nanos_def)

lemma deadline_until: "until l = Some u \<Longrightarrow> \<exists>d. deadline l = Some d \<and> d \<le> u"
  by (auto simp: deadline_def split: option.splits)

lemma checked_lease:
  assumes "check_remote_lease True (Some s) is = None"
  shows "0 < s" "min (nanos s) (nanos REMOTE_LEASE_MAX_SECS) = nanos s"
  using assms nanos_mono [of s REMOTE_LEASE_MAX_SECS]
  by (cases "is"; auto simp: check_remote_lease_def split: if_splits)+

text \<open>A concrete run for the witnesses: a server registers, then shares for ten minutes.\<close>

definition registered :: gates where
  "registered = snd (register_remote_server 5 (gates_start False False) 7 None)"

definition shared :: gates where
  "shared = snd (request_set_remote 5 True registered True (Some 600) (Some 60))"

lemmas gate_request_defs = request_set_remote_def set_remote_def set_remote_lease_def arm_remote_lease_def
  set_automation_def set_screen_capture_def announce_remote_def emit_remote_changed_def emit_ipc_def
  check_remote_lease_def lease_new_def deadline_def idle_end_def Let_def

lemma registered_run: "gate_run (5, gates_start False False) (5, registered)"
  unfolding registered_def by (rule gate_run.Step [OF gate_run.Start], rule gate_step.Register)

lemma shared_run: "gate_run (5, gates_start False False) (5, shared)"
  unfolding shared_def by (rule gate_run.Ask [OF registered_run])

lemma registered_simps:
  "remote_server registered = Some 7" "remote_lease registered = None" "remote_enabled registered = False"
  "automation_enabled registered = False" "screen_capture_enabled registered = False"
  "remote_viewers registered = 0"
  by (simp_all add: registered_def register_remote_server_def gates_start_def gate_request_defs)

lemma shared_lease:
  "remote_lease shared = Some \<lparr> until = Some 600000000005, idle = Some 60000000000, idle_since = Some 5 \<rparr>"
  "remote_enabled shared" "screen_capture_enabled shared" "remote_viewers shared = 0"
  "fst (request_set_remote 5 True registered True (Some 600) (Some 60)) \<noteq> ErrorReply"
  by (simp_all add: shared_def gate_request_defs registered_simps nanos_def REMOTE_LEASE_MAX_SECS_def
        remote_response_def)

text \<open>The screen is captured only with consent: in every reachable state, while the capture gate
  is off nothing is being captured, the capture globals are withdrawn, and any request to capture
  is refused and adds nothing; and the remote gate is on only while a server is registered.\<close>

theorem capture_needs_consent:
  assumes "gate_run (t0, gates_start a c) (t, g)"
  shows "(\<not> screen_capture_enabled g \<longrightarrow> captures g = [] \<and> \<not> manager_global g \<and> \<not> capture_gate g \<and>
      \<not> fst (request_capture g r) \<and> captures (snd (request_capture g r)) = []) \<and>
    (remote_enabled g \<longrightarrow> remote_server g \<noteq> None)"
proof -
  have "gates_ok g" using gates_ok_run [OF assms] gates_ok_start by simp
  then show ?thesis
    by (cases r) (auto simp: gates_ok_def capture_ok_def request_capture_defs captures_def)
qed

theorem capture_needs_consent_witness: "remote_server shared \<noteq> None"
  using capture_needs_consent [OF shared_run] shared_lease(2) by simp

text \<open>C9. A lease ends: in every reachable state with a lease the remote gate is on and the timer is
  armed for exactly the lease's deadline when it has one, which it does while nobody is connected
  under an idle limit or when a time limit was given; and when the timer fires at or after the
  deadline, the remote, automation and capture gates are off, every capture has been ended and
  every key and button a viewer held is released, whatever the event loop does.\<close>

theorem remote_lease_ends:
  assumes run: "gate_run (t0, gates_start a c) (t, g)" and l: "remote_lease g = Some l"
  shows "remote_enabled g \<and> lease_timer g = deadline l \<and>
    (until l \<noteq> None \<or> (idle l \<noteq> None \<and> remote_viewers g = 0) \<longrightarrow> deadline l \<noteq> None) \<and>
    (\<forall>d t' ins. deadline l = Some d \<and> d \<le> t' \<longrightarrow>
      (let g' = lease_timer_fires t' ins g in
         \<not> remote_enabled g' \<and> \<not> automation_enabled g' \<and> \<not> screen_capture_enabled g' \<and>
         captures g' = [] \<and> remote_lease g' = None \<and> lease_timer g' = None \<and>
         effects g' = effects g @ InputReleased # capture_ends g))"
proof -
  have ok: "gates_ok g" using gates_ok_run [OF run] gates_ok_start by simp
  then have lk: "remote_enabled g" "lease_timer g = deadline l" "idle_since l = None \<longleftrightarrow> 0 < remote_viewers g"
    using l by (simp_all add: gates_ok_def lease_ok_def)
  have "deadline l \<noteq> None" if "until l \<noteq> None \<or> (idle l \<noteq> None \<and> remote_viewers g = 0)"
    using that lk(3) by (auto simp: deadline_def idle_end_def split: option.splits)
  moreover have "let g' = lease_timer_fires t' ins g in
         \<not> remote_enabled g' \<and> \<not> automation_enabled g' \<and> \<not> screen_capture_enabled g' \<and>
         captures g' = [] \<and> remote_lease g' = None \<and> lease_timer g' = None \<and>
         effects g' = effects g @ InputReleased # capture_ends g"
    if "deadline l = Some d" "d \<le> t'" for d t' ins
  proof -
    let ?g = "g\<lparr> lease_timer := None \<rparr>"
    obtain g1 ac cc where r: "set_remote ?g False = (g1, ac, cc)" by (metis prod_cases3)
    note e = set_remote_effect [OF r]
    have f: "lease_timer_fires t' ins g = announce_remote t' g1 True ac cc"
      using that l lk(1) r by (simp add: lease_timer_fires_def remote_lease_tick_def turn_remote_def)
    have "gates_ok (lease_timer_fires t' ins g)" by (rule gates_ok_tick [OF ok])
    then have "captures (lease_timer_fires t' ins g) = []"
      unfolding f by (simp add: gates_ok_def capture_ok_def e)
    moreover have "capture_ends ?g = capture_ends g" by (simp add: capture_ends_def)
    ultimately show ?thesis using ok by (simp add: f [symmetric] Let_def) (simp add: f e gates_okD)
  qed
  ultimately show ?thesis using lk by blast
qed

theorem remote_lease_ends_witness:
  "lease_timer shared = Some 60000000005 \<and> \<not> remote_enabled (lease_timer_fires 60000000005 False shared)"
  using remote_lease_ends [OF shared_run shared_lease(1)]
  by (simp add: deadline_def idle_end_def Let_def)

text \<open>C10. Asking to share for \<open>s\<close> seconds is a promise: after the request is accepted at time \<open>t\<close>,
  whatever viewers, clients and the clock do, as long as nobody asks again, either the remote gate
  is off or a timer is armed to turn it off at most \<open>s\<close> seconds after \<open>t\<close>.\<close>

theorem time_limit_is_kept:
  assumes run: "gate_run (t0, gates_start a c) (t, g)"
    and ask: "request_set_remote t ins g True (Some s) is = (r, g1)" "r \<noteq> ErrorReply"
    and later: "gate_step\<^sup>*\<^sup>* (t, g1) (t', g')"
  shows "remote_enabled g' \<longrightarrow> (\<exists>d \<le> t + nanos s. lease_timer g' = Some d)"
proof
  assume on: "remote_enabled g'"
  have "gates_ok g" using gates_ok_run [OF run] gates_ok_start by simp
  then have ok1: "gates_ok g1" using gates_ok_set_remote [of g t ins True "Some s" "is"] ask(1) by simp
  from accepted_lease [OF ask] have a: "remote_lease g1 =
      lease_new t (Some (nanos s)) (map_option nanos is) (remote_viewers g)"
    "check_remote_lease True (Some s) is = None" by simp_all
  have "limited (t + nanos s) g1"
    using a(1) checked_lease(2) [OF a(2)] by (simp add: limited_def lease_new_def Let_def)
  with limited_steps [OF later] ok1 have "limited (t + nanos s) g'" "gates_ok g'" by simp_all
  then obtain l where l: "remote_lease g' = Some l" "until l = Some (t + nanos s)" "lease_timer g' = deadline l"
    using on by (auto simp: limited_def gates_ok_def lease_ok_def)
  then show "\<exists>d \<le> t + nanos s. lease_timer g' = Some d" using deadline_until [OF l(2)] by auto
qed

theorem time_limit_is_kept_witness:
  "\<exists>d \<le> 5 + nanos 600. lease_timer (snd (report_remote_viewers 9 True shared 1)) = Some d"
proof -
  let ?g = "snd (report_remote_viewers 9 True shared 1)"
  obtain r where r: "request_set_remote 5 True registered True (Some 600) (Some 60) = (r, shared)" "r \<noteq> ErrorReply"
    using shared_lease(5) by (cases "request_set_remote 5 True registered True (Some 600) (Some 60)")
      (simp add: shared_def)
  have "gate_step (5, shared) (9, shared)" by (rule gate_step.Time) simp
  moreover have "gate_step (9, shared) (9, ?g)" by (rule gate_step.Viewers)
  ultimately have later: "gate_step\<^sup>*\<^sup>* (5, shared) (9, ?g)"
    by (blast intro: converse_rtranclp_into_rtranclp)
  have "remote_enabled ?g"
    by (simp add: report_remote_viewers_def remote_lease_viewers_changed_def gate_request_defs
        shared_lease viewers_changed_def)
  with time_limit_is_kept [OF registered_run r later] show ?thesis by simp
qed

text \<open>Subscribers know the gates: in every reachable state, the last automation, capture and remote
  events a subscriber was sent (or the values at the start) are the values of the gates now, whether
  a server is registered, and, while the remote gate is on, how many viewers it has.\<close>

theorem subscribers_know_the_gates:
  assumes "gate_run (t0, gates_start a c) (t, g)"
  shows "last_told automation_of a (events g) = automation_enabled g \<and>
    last_told capture_of c (events g) = screen_capture_enabled g \<and>
    fst (last_told remote_of (False, False, 0) (events g)) = remote_enabled g \<and>
    fst (snd (last_told remote_of (False, False, 0) (events g))) = (remote_server g \<noteq> None) \<and>
    (remote_enabled g \<longrightarrow> snd (snd (last_told remote_of (False, False, 0) (events g))) = remote_viewers g)"
proof -
  have "told_ok a c g" using told_ok_run [OF assms, of a c] gates_ok_start told_ok_start by simp
  then show ?thesis by (simp add: told_ok_def split_beta)
qed

theorem subscribers_know_the_gates_witness: "last_told capture_of False (events shared)"
  using subscribers_know_the_gates [OF shared_run] shared_lease(3) by simp

text \<open>What a lease may ask and what it reports: a request is accepted exactly when it limits a gate
  being turned on and each limit is between 1 second and 30 days, so no deadline is clamped and
  nanosecond arithmetic stays below \<open>2 ^ 62\<close> beyond the clock; and the time left is reported in whole
  seconds rounded up, so it reads 0 exactly when the lease has ended.\<close>

theorem lease_bounds_and_report:
  "(check_remote_lease e fs is = None \<longleftrightarrow>
      (e \<or> (fs = None \<and> is = None)) \<and>
      (\<forall>s \<in> set_option fs \<union> set_option is. 1 \<le> s \<and> s \<le> 2592000)) \<and>
   (check_remote_lease True fs is = None \<and> lease_new now (map_option nanos fs) (map_option nanos is) n = Some l \<longrightarrow>
      until l = map_option (\<lambda>s. now + nanos s) fs \<and> idle l = map_option nanos is \<and>
      (\<forall>d. deadline l = Some d \<longrightarrow> now < d \<and> d < now + 2 ^ 62)) \<and>
   (\<forall>u k t. until l = Some u \<and> expires_in_secs (lease_status l t) = Some k \<longrightarrow>
      u - t \<le> nanos k \<and> nanos k < (u - t) + nanos 1 \<and> (k = 0 \<longleftrightarrow> u \<le> t))"
proof (intro conjI impI allI)
  show "check_remote_lease e fs is = None \<longleftrightarrow>
      (e \<or> (fs = None \<and> is = None)) \<and>
      (\<forall>s \<in> set_option fs \<union> set_option is. 1 \<le> s \<and> s \<le> 2592000)"
    by (cases fs; cases "is") (auto simp: check_remote_lease_def REMOTE_LEASE_MAX_SECS_def)
next
  assume a: "check_remote_lease True fs is = None \<and>
    lease_new now (map_option nanos fs) (map_option nanos is) n = Some l"
  have b: "\<And>s. fs = Some s \<or> is = Some s \<Longrightarrow> 1 \<le> s \<and> s \<le> 2592000"
    using a by (cases fs; cases "is") (auto simp: check_remote_lease_def REMOTE_LEASE_MAX_SECS_def split: if_splits)
  then show u: "until l = map_option (\<lambda>s. now + nanos s) fs" and i: "idle l = map_option nanos is"
    using a by (cases fs; cases "is"; auto simp: lease_new_def nanos_def REMOTE_LEASE_MAX_SECS_def Let_def)+
  have since: "idle_since l = (if n = 0 then Some now else None)"
    using a by (auto simp: lease_new_def Let_def split: if_splits)
  have s: "now < now + nanos s \<and> now + nanos s < now + 2 ^ 62" if "fs = Some s \<or> is = Some s" for s
    using b [OF that] by (simp add: nanos_def)
  have d: "\<exists>s. (fs = Some s \<or> is = Some s) \<and> d = now + nanos s" if "deadline l = Some d" for d
    using that unfolding deadline_def idle_end_def u i since
    by (cases fs; cases "is"; cases "n = 0") (auto simp: min_def split: if_splits)
  show "now < d" "d < now + 2 ^ 62" if "deadline l = Some d" for d
    using d [OF that] s by blast+
next
  fix v k t assume "until l = Some v \<and> expires_in_secs (lease_status l t) = Some k"
  then have k: "k = secs_ceil (v - t)" by (auto simp: lease_status_def Let_def)
  define x where "x = v - t"
  obtain q r where q: "x = q * 1000000000 + r" "r < 1000000000" "x div 1000000000 = q" "x mod 1000000000 = r"
    using div_mult_mod_eq [of x 1000000000] by (metis mod_less_divisor zero_less_numeral)
  have "x \<le> nanos k \<and> nanos k < x + nanos 1 \<and> (k = 0 \<longleftrightarrow> x = 0)"
    unfolding k x_def [symmetric] secs_ceil_def q(3,4) using q(1,2) by (simp add: nanos_def)
  then show "v - t \<le> nanos k" "nanos k < (v - t) + nanos 1" "k = 0 \<longleftrightarrow> v \<le> t"
    by (simp_all add: x_def)
qed

theorem lease_bounds_and_report_witness:
  "check_remote_lease True (Some 600) None = None \<and> check_remote_lease True (Some 2592001) None \<noteq> None"
  using lease_bounds_and_report [of True "Some 600" None]
    lease_bounds_and_report [of True "Some 2592001" None] by simp

end
