(* ===== verification/Viewer.thy ===== *)
theory Viewer
  imports TileCodec Serve
begin

text \<open>
  The viewer, \<open>crates/shoestring-remote-client\<close>: the connection of \<open>src/net.rs\<close> (incremental
  parsing of what arrives, staged output) and the handlers of \<open>src/main.rs\<close> that apply the server's
  messages and relay the local compositor's events. What the socket gives back to each \<open>read\<close>
  and \<open>write\<close> is an argument: the list of results, in order; at its end the socket has nothing more.
  Presenting the framebuffer, the cursor theme and the poll loop's other sources are left out.
\<close>

section \<open>The connection\<close>

datatype read_result = Got bytes | ReadEof | ReadWouldBlock | ReadInterrupted | ReadFailed

datatype write_result = Wrote nat | WriteWouldBlock | WriteInterrupted | WriteFailed

datatype net_error =
    FrameTooLong nat
  | ReadError
  | WriteError
  | PeerClosed
  | DecodeError wire_error
  | EncodeError wire_error
  | BadSize wire_error

record net =
  in_buf :: bytes
  validated_to :: nat
  out_buf :: bytes

definition from_stream :: net where
  "from_stream = \<lparr> in_buf = [], validated_to = 0, out_buf = [] \<rparr>"

definition READ_BUDGET :: nat where "READ_BUDGET = 4 * 1024 * 1024"

definition header_at :: "bytes \<Rightarrow> nat \<Rightarrow> nat" where
  "header_at b at = unat (from_le (take 4 (drop at b)) :: u32)"

function validate_headers :: "net \<Rightarrow> (net_error + unit) \<times> net" where
  "validate_headers n =
    (if validated_to n + 4 \<le> length (in_buf n)
     then (let len = header_at (in_buf n) (validated_to n) in
       if MAX_MESSAGE_LEN < len then (Inl (FrameTooLong len), n)
       else validate_headers (n\<lparr> validated_to := validated_to n + (4 + len) \<rparr>))
     else (Inr (), n))"
  by pat_completeness auto
termination
  by (relation "measure (\<lambda>n. length (in_buf n) + 4 - validated_to n)") auto

declare validate_headers.simps [simp del]

text \<open>
  The loop of \<open>fill\<close>; \<open>got\<close> counts the bytes read so far. Also returned: the results the socket
  has yet to give.
\<close>

fun fill_loop :: "net \<Rightarrow> nat \<Rightarrow> read_result list \<Rightarrow> (net_error + bool) \<times> net \<times> read_result list" where
  "fill_loop n got [] = (Inr True, n, [])"
| "fill_loop n got (r # rs) =
    (if \<not> got < READ_BUDGET then (Inr True, n, r # rs)
     else (case r of
         ReadEof \<Rightarrow> (Inr (0 < got), n, rs)
       | Got bs \<Rightarrow>
           (case validate_headers (n\<lparr> in_buf := in_buf n @ bs \<rparr>) of
              (Inl e, n') \<Rightarrow> (Inl e, n', rs)
            | (Inr _, n') \<Rightarrow> fill_loop n' (got + length bs) rs)
       | ReadWouldBlock \<Rightarrow> (Inr True, n, rs)
       | ReadInterrupted \<Rightarrow> fill_loop n got rs
       | ReadFailed \<Rightarrow> (Inl ReadError, n, rs)))"

definition fill :: "net \<Rightarrow> read_result list \<Rightarrow> (net_error + bool) \<times> net \<times> read_result list" where
  "fill n rs = fill_loop n 0 rs"

definition next_frame :: "net \<Rightarrow> (net_error + (wire_error + server_message) option) \<times> net" where
  "next_frame n =
    (if length (in_buf n) < 4 then (Inr None, n)
     else (let len = header_at (in_buf n) 0 in
       if MAX_MESSAGE_LEN < len then (Inl (FrameTooLong len), n)
       else if length (in_buf n) < 4 + len then (Inr None, n)
       else (Inr (Some (decode_server (take len (drop 4 (in_buf n))))),
             n\<lparr> in_buf := drop (4 + len) (in_buf n), validated_to := validated_to n - (4 + len) \<rparr>)))"

lemma next_frame_shorter: "next_frame n = (Inr (Some r), n') \<Longrightarrow> length (in_buf n') < length (in_buf n)"
  by (auto simp: next_frame_def Let_def split: if_splits)

function next_message :: "net \<Rightarrow> (net_error + server_message option) \<times> net" where
  "next_message n = (case next_frame n of
     (Inl e, n') \<Rightarrow> (Inl e, n')
   | (Inr None, n') \<Rightarrow> (Inr None, n')
   | (Inr (Some (Inl e)), n') \<Rightarrow>
       (case e of UnknownMessage k t \<Rightarrow> next_message n' | _ \<Rightarrow> (Inl (DecodeError e), n'))
   | (Inr (Some (Inr msg)), n') \<Rightarrow> (Inr (Some msg), n'))"
  by pat_completeness auto
termination
  by (relation "measure (\<lambda>n. length (in_buf n))") (auto dest: next_frame_shorter [OF sym])

declare next_message.simps [simp del]

lemma next_message_shorter:
  "next_message n = (Inr (Some m), n') \<Longrightarrow> length (in_buf n') < length (in_buf n)"
proof (induction n rule: next_message.induct)
  case (1 n)
  obtain r n1 where f: "next_frame n = (r, n1)" by fastforce
  show ?case
  proof (cases "\<exists>k t. r = Inr (Some (Inl (UnknownMessage k t)))")
    case True
    then obtain k t where r: "r = Inr (Some (Inl (UnknownMessage k t)))" by blast
    with "1.prems" f have "next_message n1 = (Inr (Some m), n')" by (simp add: next_message.simps [of n])
    from "1.IH" [OF f [symmetric] r refl refl refl this] next_frame_shorter [OF f [unfolded r]]
    show ?thesis by simp
  next
    case False
    with "1.prems" f obtain k where "r = Inr (Some (Inr k))" "n1 = n'"
      by (subst (asm) next_message.simps) (auto split: sum.splits option.splits wire_error.splits)
    with next_frame_shorter f show ?thesis by blast
  qed
qed

text \<open>\<open>flush_out\<close>: on an error nothing is taken off the buffer.\<close>

fun flush_loop :: "bytes \<Rightarrow> nat \<Rightarrow> write_result list \<Rightarrow> net_error + nat" where
  "flush_loop out written [] = Inr written"
| "flush_loop out written (w # ws) =
    (if \<not> written < length out then Inr written
     else (case w of
         Wrote k \<Rightarrow> if k = 0 then Inl PeerClosed else flush_loop out (written + k) ws
       | WriteWouldBlock \<Rightarrow> Inr written
       | WriteInterrupted \<Rightarrow> flush_loop out written ws
       | WriteFailed \<Rightarrow> Inl WriteError))"

definition flush_out :: "net \<Rightarrow> write_result list \<Rightarrow> (net_error + unit) \<times> net" where
  "flush_out n ws = (case flush_loop (out_buf n) 0 ws of
     Inl e \<Rightarrow> (Inl e, n)
   | Inr written \<Rightarrow> (Inr (), n\<lparr> out_buf := drop written (out_buf n) \<rparr>))"

definition net_send :: "net \<Rightarrow> client_message \<Rightarrow> write_result list \<Rightarrow> (net_error + unit) \<times> net" where
  "net_send n msg ws = (case write_framed encode_client (out_buf n) msg of
     Inl e \<Rightarrow> (Inl (EncodeError e), n)
   | Inr out \<Rightarrow> flush_out (n\<lparr> out_buf := out \<rparr>) ws)"

text \<open>\<open>await_ready\<close>, on the bytes of the handshake; the messages before the reply go to \<open>early\<close>.\<close>

datatype await_error = AwaitFailed wire_error | Incompatible bytes | ServerRefused bytes

function await_ready ::
    "bytes \<Rightarrow> server_message list \<Rightarrow> (await_error + (u32 \<times> u32 \<times> f64)) \<times> server_message list \<times> bytes" where
  "await_ready s early = (case read_framed decode_server s of
     (Inl e, s') \<Rightarrow> (case e of UnknownMessage k t \<Rightarrow> await_ready s' early | _ \<Rightarrow> (Inl (AwaitFailed e), early, s'))
   | (Inr msg, s') \<Rightarrow> (case msg of
         Ready w h sc f peer \<Rightarrow>
           (case incompatibility peer peer_ours of
              Some why \<Rightarrow> (Inl (Incompatible why), early, s')
            | None \<Rightarrow> (Inr (w, h, sc), early, s'))
       | Refused reason \<Rightarrow> (Inl (ServerRefused reason), early, s')
       | _ \<Rightarrow> await_ready s' (early @ [msg])))"
  by pat_completeness auto
termination
  by (relation "measure (\<lambda>(s, early). length s)") (auto dest!: read_framed_shorter [OF sym])

section \<open>The viewer\<close>

record viewer =
  fb :: bytes
  fb_w :: u32
  fb_h :: u32
  view_active :: bool
  cursor_pos :: "(u32 \<times> u32 \<times> bytes) option"
  dirty :: bool
  frames_seen :: u64
  selections :: "(bool \<times> bytes \<times> bytes) list"

definition resize_fb :: "viewer \<Rightarrow> u32 \<Rightarrow> u32 \<Rightarrow> net_error + viewer" where
  "resize_fb v w h = (case framebuffer_len w h of
     Inl e \<Rightarrow> Inl (BadSize e)
   | Inr len \<Rightarrow> Inr (v\<lparr> fb_w := w, fb_h := h, fb := replicate len 0, dirty := True \<rparr>))"

text \<open>
  One message of \<open>drain_server_messages\<close>: whether it was the server's \<open>Bye\<close>; \<open>None\<close> is a panic.
\<close>

definition apply_message ::
    "inflater \<Rightarrow> viewer \<Rightarrow> server_message \<Rightarrow> (net_error + (bool \<times> viewer)) option" where
  "apply_message inflate v msg = (case msg of
     Refused reason \<Rightarrow> Some (Inr (False, v))
   | Ready w h sc f peer \<Rightarrow>
       if (w, h) \<noteq> (fb_w v, fb_h v) then Some (map_sum id (Pair False) (resize_fb v w h))
       else Some (Inr (False, v))
   | Frame sq tiles \<Rightarrow>
       (case apply_tiles inflate (fb v) (fb_w v) (fb_h v) tiles of
          None \<Rightarrow> None
        | Some fb' \<Rightarrow> Some (Inr (False, v\<lparr> fb := fb', frames_seen := frames_seen v + 1, dirty := True \<rparr>)))
   | Cursor update \<Rightarrow>
       Some (Inr (False, v\<lparr> cursor_pos := (case update of Hidden \<Rightarrow> None | Shape x y icon \<Rightarrow> Some (x, y, icon)),
                            dirty := True \<rparr>))
   | Resize w h sc \<Rightarrow> Some (map_sum id (Pair False) (resize_fb v w h))
   | Clipboard prim mime dat \<Rightarrow>
       Some (Inr (False, if mime = [] then v else v\<lparr> selections := selections v @ [(prim, mime, dat)] \<rparr>))
   | Meta app_id title \<Rightarrow> Some (Inr (False, v))
   | ServerBye \<Rightarrow> Some (Inr (True, v)))"

function drain_server_messages ::
    "inflater \<Rightarrow> viewer \<Rightarrow> net \<Rightarrow> ((net_error + bool) \<times> viewer \<times> net) option" where
  "drain_server_messages inflate v n = (case next_message n of
     (Inl e, n') \<Rightarrow> Some (Inl e, v, n')
   | (Inr None, n') \<Rightarrow> Some (Inr False, v, n')
   | (Inr (Some msg), n') \<Rightarrow>
       (case apply_message inflate v msg of
          None \<Rightarrow> None
        | Some (Inl e) \<Rightarrow> Some (Inl e, v, n')
        | Some (Inr (bye, v')) \<Rightarrow>
            if bye then Some (Inr True, v', n') else drain_server_messages inflate v' n'))"
  by pat_completeness auto
termination
  by (relation "measure (\<lambda>(inflate, v, n). length (in_buf n))") (auto dest: next_message_shorter [OF sym])

declare drain_server_messages.simps [simp del]

text \<open>
  One pass of the poll loop whose socket is readable: whether the loop ends, and what the socket
  has left to give.
\<close>

definition socket_pass ::
    "inflater \<Rightarrow> viewer \<Rightarrow> net \<Rightarrow> read_result list \<Rightarrow> (bool \<times> viewer \<times> net \<times> read_result list) option" where
  "socket_pass inflate v n rs = (case fill n rs of
     (Inl e, n', rs') \<Rightarrow> Some (True, v, n', rs')
   | (Inr False, n', rs') \<Rightarrow> Some (True, v, n', rs')
   | (Inr True, n', rs') \<Rightarrow>
       (case drain_server_messages inflate v n' of
          None \<Rightarrow> None
        | Some (Inl e, v', n'') \<Rightarrow> Some (True, v', n'', rs')
        | Some (Inr bye, v', n'') \<Rightarrow> Some (bye, v', n'', rs')))"

text \<open>At most \<open>k\<close> passes; the socket is readable while it has something to give.\<close>

fun passes ::
    "nat \<Rightarrow> inflater \<Rightarrow> viewer \<Rightarrow> net \<Rightarrow> read_result list \<Rightarrow> (bool \<times> viewer \<times> net \<times> read_result list) option"
where
  "passes 0 inflate v n rs = Some (False, v, n, rs)"
| "passes (Suc k) inflate v n rs =
    (if rs = [] then Some (False, v, n, rs)
     else (case socket_pass inflate v n rs of
        None \<Rightarrow> None
      | Some (True, v', n', rs') \<Rightarrow> Some (True, v', n', rs')
      | Some (False, v', n', rs') \<Rightarrow> passes k inflate v' n' rs'))"

text \<open>The events of the local compositor, with what reading its clipboard gives.\<close>

datatype clipboard_op = Push | Pull

datatype wm_notice =
    ViewChanged u8
  | CapturedInput raw_input
  | RemoteClipboard clipboard_op
  | OtherEvent

definition relayed :: "raw_input \<Rightarrow> client_message" where
  "relayed event = (case event of
     RawKey k p \<Rightarrow> client_message.Key k p
   | RawButton b p \<Rightarrow> PointerButton b p
   | RawMotion x y \<Rightarrow> PointerMotion x y
   | RawAxis h v wheel \<Rightarrow> PointerAxis h v wheel)"

definition handle_wm_event ::
    "viewer \<Rightarrow> net \<Rightarrow> u8 \<Rightarrow> (bytes option \<times> bytes) option \<Rightarrow> write_result list \<Rightarrow> wm_notice \<Rightarrow> viewer \<times> net" where
  "handle_wm_event v n my_index clip ws ev = (case ev of
     ViewChanged index \<Rightarrow>
       (let now_active = (index = my_index) in
        if now_active \<and> \<not> view_active v then (v\<lparr> view_active := True, dirty := True \<rparr>, n)
        else if \<not> now_active \<and> view_active v then (v\<lparr> view_active := False \<rparr>, n)
        else (v, n))
   | CapturedInput event \<Rightarrow>
       if \<not> view_active v then (v, n) else (v, snd (net_send n (relayed event) ws))
   | RemoteClipboard op \<Rightarrow>
       if \<not> view_active v then (v, n)
       else (case op of
           Push \<Rightarrow> (case clip of
               Some (Some mime, dat) \<Rightarrow> (v, snd (net_send n (SetClipboard False mime dat) ws))
             | _ \<Rightarrow> (v, n))
         | Pull \<Rightarrow> (v, snd (net_send n (GetClipboard False) ws)))
   | OtherEvent \<Rightarrow> (v, n))"

section \<open>Incremental parsing is framing\<close>

abbreviation receive_server :: "bytes \<Rightarrow> server_message list" where
  "receive_server \<equiv> receive decode_server"

text \<open>No whole frame is buffered.\<close>

definition incomplete :: "bytes \<Rightarrow> bool" where
  "incomplete b \<longleftrightarrow> length b < 4 \<or> (header_at b 0 \<le> MAX_MESSAGE_LEN \<and> length b < 4 + header_at b 0)"

lemma header_at_append: "at + 4 \<le> length b \<Longrightarrow> header_at (b @ s) at = header_at b at"
  by (simp add: header_at_def)

lemma next_frame_read_framed:
  assumes "next_frame n = (Inr (Some r), n')"
  shows "read_framed decode_server (in_buf n @ s) = (r, in_buf n' @ s)"
  using assms header_at_append [of 0 "in_buf n" s]
  by (auto simp: next_frame_def read_framed_def Let_def header_at_def add.commute split: if_splits)

lemma next_frame_None: "next_frame n = (Inr None, n') \<longleftrightarrow> n' = n \<and> incomplete (in_buf n)"
  by (auto simp: next_frame_def incomplete_def Let_def split: if_splits)

lemma receive_incomplete: "incomplete b \<Longrightarrow> receive_server b = []"
  by (subst receive.simps) (auto simp: incomplete_def read_framed_def header_at_def Let_def)

lemma receive_read:
  "read_framed decode_server s = (Inr m, s') \<Longrightarrow> receive_server s = m # receive_server s'"
  "read_framed decode_server s = (Inl (UnknownMessage k t), s') \<Longrightarrow> receive_server s = receive_server s'"
  by (simp_all add: receive.simps [of decode_server s])

lemma next_message_receive:
  "(next_message n = (Inr (Some m), n') \<longrightarrow>
      (\<forall>s. receive_server (in_buf n @ s) = m # receive_server (in_buf n' @ s))) \<and>
   (next_message n = (Inr None, n') \<longrightarrow> incomplete (in_buf n') \<and>
      (\<forall>s. receive_server (in_buf n @ s) = receive_server (in_buf n' @ s)))"
proof (induction n rule: next_message.induct)
  case (1 n)
  obtain r n1 where f: "next_frame n = (r, n1)" by fastforce
  show ?case
  proof (cases "\<exists>k t. r = Inr (Some (Inl (UnknownMessage k t)))")
    case True
    then obtain k t where r: "r = Inr (Some (Inl (UnknownMessage k t)))" by blast
    have "receive_server (in_buf n @ s) = receive_server (in_buf n1 @ s)" for s
      by (rule receive_read(2) [OF next_frame_read_framed]) (use f r in simp)
    moreover have "next_message n = next_message n1" using f r by (simp add: next_message.simps [of n])
    ultimately show ?thesis using "1.IH" [OF f [symmetric] r refl refl refl] by simp
  next
    case False
    consider (some) k where "r = Inr (Some (Inr k))" | (none) "r = Inr None" "n1 = n" "incomplete (in_buf n)"
      | (err) e where "next_message n = (Inl e, n1)"
    proof (cases r)
      case (Inl e)
      with f have "next_message n = (Inl e, n1)" by (simp add: next_message.simps [of n])
      then show ?thesis by (rule err)
    next
      case (Inr q)
      show ?thesis
      proof (cases q)
        case None
        with Inr f next_frame_None [of n n1] none show ?thesis by auto
      next
        case (Some d)
        show ?thesis
        proof (cases d)
          case (Inl e)
          with Some Inr f False have "next_message n = (Inl (DecodeError e), n1)"
            by (auto simp: next_message.simps [of n] split: wire_error.splits)
          then show ?thesis by (rule err)
        next
          case r: (Inr k)
          with Some Inr some show ?thesis by blast
        qed
      qed
    qed
    then show ?thesis
    proof cases
      case some
      then have "receive_server (in_buf n @ s) = k # receive_server (in_buf n1 @ s)" for s
        using receive_read(1) [OF next_frame_read_framed] f by simp
      with some f show ?thesis by (auto simp: next_message.simps [of n])
    next
      case none
      with f show ?thesis by (auto simp: next_message.simps [of n])
    qed auto
  qed
qed

text \<open>
  What is buffered and what is still to come are whole frames this build can read or skip, and
  \<open>validated_to\<close> is at one of their boundaries, perhaps past what is buffered.
\<close>

definition readable :: "bytes \<Rightarrow> bool" where
  "readable p \<longleftrightarrow> length p \<le> MAX_MESSAGE_LEN \<and>
     (case decode_server p of Inr m \<Rightarrow> True | Inl e \<Rightarrow> \<exists>k t. e = UnknownMessage k t)"

definition on_track :: "net \<Rightarrow> bytes \<Rightarrow> bool" where
  "on_track n s \<longleftrightarrow> (\<exists>ps qs. list_all readable (ps @ qs) \<and>
     in_buf n @ s = concat (map frame_of (ps @ qs)) \<and> validated_to n = length (concat (map frame_of ps)))"

lemma frame_of_length [simp]: "length (frame_of p) = 4 + length p"
  by (simp add: frame_of_def)

lemma header_of_frame:
  "length p \<le> MAX_MESSAGE_LEN \<Longrightarrow> header_at (xs @ frame_of p @ ys) (length xs) = length p"
  by (simp add: header_at_def frame_of_def from_le_to_le unat_of_nat MAX_MESSAGE_LEN_def)

lemma on_track_header:
  assumes "on_track n s" "validated_to n + 4 \<le> length (in_buf n)"
  shows "header_at (in_buf n) (validated_to n) \<le> MAX_MESSAGE_LEN"
    and "on_track (n\<lparr> validated_to := validated_to n + (4 + header_at (in_buf n) (validated_to n)) \<rparr>) s"
proof -
  obtain ps qs where r: "list_all readable (ps @ qs)" and b: "in_buf n @ s = concat (map frame_of (ps @ qs))"
    and v: "validated_to n = length (concat (map frame_of ps))" using assms(1) by (auto simp: on_track_def)
  from arg_cong [OF b, of length] v assms(2) have "qs \<noteq> []" by (intro notI) simp
  then obtain q qs' where qs: "qs = q # qs'" by (cases qs) auto
  have q: "length q \<le> MAX_MESSAGE_LEN" using r qs by (simp add: readable_def)
  have "header_at (in_buf n @ s) (validated_to n) = length q"
    using header_of_frame [OF q, of "concat (map frame_of ps)"] by (simp add: b v qs)
  then have h: "header_at (in_buf n) (validated_to n) = length q" using header_at_append [OF assms(2)] by simp
  with q show "header_at (in_buf n) (validated_to n) \<le> MAX_MESSAGE_LEN" by simp
  show "on_track (n\<lparr> validated_to := validated_to n + (4 + header_at (in_buf n) (validated_to n)) \<rparr>) s"
    unfolding on_track_def using r b v qs h by (intro exI [of _ "ps @ [q]"] exI [of _ qs']) simp
qed

lemma validate_on_track: "on_track n s \<Longrightarrow> \<exists>n'. validate_headers n = (Inr (), n') \<and> on_track n' s"
proof (induction n rule: validate_headers.induct)
  case (1 n)
  show ?case
  proof (cases "validated_to n + 4 \<le> length (in_buf n)")
    case True
    note h = on_track_header [OF "1.prems" True]
    with True "1.IH" [OF True refl] show ?thesis by (simp add: validate_headers.simps [of n] Let_def not_less)
  qed (use "1.prems" in \<open>simp add: validate_headers.simps [of n]\<close>)
qed

lemma next_frame_on_track:
  assumes "on_track n s"
  shows "\<exists>r n'. next_frame n = (Inr r, n') \<and> on_track n' s \<and>
    (\<forall>e. r = Some (Inl e) \<longrightarrow> (\<exists>k t. e = UnknownMessage k t))"
proof (cases "length (in_buf n) < 4")
  case True
  with assms show ?thesis by (simp add: next_frame_def)
next
  case False
  obtain ps qs where r: "list_all readable (ps @ qs)" and b: "in_buf n @ s = concat (map frame_of (ps @ qs))"
    and v: "validated_to n = length (concat (map frame_of ps))" using assms by (auto simp: on_track_def)
  have "ps @ qs \<noteq> []" using arg_cong [OF b, of length] False by (intro notI) simp
  then obtain p fs where pf: "ps @ qs = p # fs" by (cases "ps @ qs") auto
  have p: "length p \<le> MAX_MESSAGE_LEN" using r pf by (simp add: readable_def)
  have h: "header_at (in_buf n) 0 = length p"
    using header_of_frame [OF p, of "[]" "concat (map frame_of fs)"] header_at_append [of 0 "in_buf n" s] False
    by (simp add: b pf)
  show ?thesis
  proof (cases "length (in_buf n) < 4 + length p")
    case True
    with False h p assms show ?thesis by (simp add: next_frame_def)
  next
    case l: False
    let ?k = "4 + length p"
    have t: "take ?k (in_buf n) = frame_of p" "drop ?k (in_buf n) @ s = concat (map frame_of fs)"
      using arg_cong [OF b, of "take ?k"] arg_cong [OF b, of "drop ?k"] l by (simp_all add: pf)
    then have "take (length p) (drop 4 (in_buf n)) = p"
      by (simp add: take_drop add.commute frame_of_def)
    then have f: "next_frame n = (Inr (Some (decode_server p)),
        n\<lparr> in_buf := drop ?k (in_buf n), validated_to := validated_to n - ?k \<rparr>)"
      using False h p l by (simp add: next_frame_def Let_def not_less)
    have "list_all readable fs" "\<And>e. decode_server p = Inl e \<Longrightarrow> \<exists>k t. e = UnknownMessage k t"
      using r pf by (auto simp: readable_def)
    moreover have "\<exists>ps' qs'. fs = ps' @ qs' \<and> validated_to n - ?k = length (concat (map frame_of ps'))"
    proof (cases ps)
      case Nil
      with v show ?thesis by (intro exI [of _ "[]"] exI [of _ fs]) simp
    next
      case (Cons a ps')
      with v pf show ?thesis by (intro exI [of _ ps'] exI [of _ qs]) auto
    qed
    ultimately obtain ps' qs' where "list_all readable (ps' @ qs')" "fs = ps' @ qs'"
      "validated_to n - ?k = length (concat (map frame_of ps'))" by auto
    with t(2) have "on_track (n\<lparr> in_buf := drop ?k (in_buf n), validated_to := validated_to n - ?k \<rparr>) s"
      unfolding on_track_def by (intro exI [of _ ps'] exI [of _ qs']) simp
    with f \<open>\<And>e. decode_server p = Inl e \<Longrightarrow> \<exists>k t. e = UnknownMessage k t\<close> show ?thesis by blast
  qed
qed

lemma next_message_on_track: "on_track n s \<Longrightarrow> \<exists>r n'. next_message n = (Inr r, n') \<and> on_track n' s"
proof (induction n rule: next_message.induct)
  case (1 n)
  obtain r n1 where f: "next_frame n = (Inr r, n1)" "on_track n1 s"
    "\<forall>e. r = Some (Inl e) \<longrightarrow> (\<exists>k t. e = UnknownMessage k t)" using next_frame_on_track [OF "1.prems"] by blast
  show ?case
  proof (cases "\<exists>k t. r = Some (Inl (UnknownMessage k t))")
    case True
    then obtain k t where r: "r = Some (Inl (UnknownMessage k t))" by blast
    from "1.IH" [OF f(1) [symmetric] refl r refl refl f(2)] f(1) r show ?thesis
      by (simp add: next_message.simps [of n])
  next
    case False
    then consider "r = None" | m where "r = Some (Inr m)" using f(3) by (cases r) (auto split: sum.splits, metis sum.exhaust)
    then show ?thesis by cases (use f in \<open>auto simp: next_message.simps [of n]\<close>)
  qed
qed

text \<open>Messages applied in order until one ends the loop: whether it ended, and the viewer.\<close>

fun deliver :: "inflater \<Rightarrow> viewer \<Rightarrow> server_message list \<Rightarrow> (bool \<times> viewer) option" where
  "deliver inflate v [] = Some (False, v)"
| "deliver inflate v (m # ms) = (case apply_message inflate v m of
     None \<Rightarrow> None
   | Some (Inl e) \<Rightarrow> Some (True, v)
   | Some (Inr (bye, v')) \<Rightarrow> if bye then Some (True, v') else deliver inflate v' ms)"

lemma deliver_append:
  "deliver inflate v ms = Some (False, v') \<Longrightarrow> deliver inflate v (ms @ ms') = deliver inflate v' ms'"
  by (induction ms arbitrary: v) (auto split: option.splits sum.splits prod.splits if_splits)

lemma drain_delivers:
  "drain_server_messages inflate v n = Some (r, v', n') \<Longrightarrow>
   \<exists>ms. (\<forall>s. \<exists>rest. receive_server (in_buf n @ s) = ms @ rest \<and>
           (r = Inr False \<longrightarrow> rest = receive_server (in_buf n' @ s))) \<and>
        (\<exists>b. deliver inflate v ms = Some (b, v') \<and> (r = Inr False \<longrightarrow> \<not> b \<and> incomplete (in_buf n')) \<and>
            (\<forall>s. on_track n s \<longrightarrow> on_track n' s \<and> (r \<noteq> Inr False \<longrightarrow> b)))"
proof (induction inflate v n rule: drain_server_messages.induct)
  case (1 inflate v n)
  obtain q n1 where f: "next_message n = (q, n1)" by fastforce
  note p = "1.prems" [unfolded drain_server_messages.simps [of inflate v n] f prod.case]
  show ?case
  proof (cases q)
    case (Inl e)
    then have "\<not> on_track n s" for s using next_message_on_track [of n s] f by auto
    with Inl p show ?thesis by (intro exI [of _ "[]"]) auto
  next
    case (Inr om)
    have tr: "on_track n s \<Longrightarrow> on_track n1 s" for s using next_message_on_track [of n s] f by auto
    show ?thesis
    proof (cases om)
      case None
      with p Inr next_message_receive [of n undefined n1] f tr
      show ?thesis by (intro exI [of _ "[]"]) auto
    next
      case (Some m)
      then have rec: "receive_server (in_buf n @ s) = m # receive_server (in_buf n1 @ s)" for s
        using next_message_receive [of n m n1] f Inr by simp
      show ?thesis
      proof (cases "\<exists>v1. apply_message inflate v m = Some (Inr (False, v1))")
        case True
        then obtain v1 where a: "apply_message inflate v m = Some (Inr (False, v1))" by blast
        with p Inr Some have "drain_server_messages inflate v1 n1 = Some (r, v', n')" by simp
        from "1.IH" [OF f [symmetric] Inr Some a refl refl _ this] obtain ms b where
          ms: "\<And>s. \<exists>rest. receive_server (in_buf n1 @ s) = ms @ rest \<and>
             (r = Inr False \<longrightarrow> rest = receive_server (in_buf n' @ s))"
            "deliver inflate v1 ms = Some (b, v')" "r = Inr False \<longrightarrow> \<not> b \<and> incomplete (in_buf n')"
            "\<And>s. on_track n1 s \<Longrightarrow> on_track n' s \<and> (r \<noteq> Inr False \<longrightarrow> b)" by blast
        have "deliver inflate v (m # ms) = Some (b, v')" using ms(2) a by simp
        moreover have "\<exists>rest. receive_server (in_buf n @ s) = (m # ms) @ rest \<and>
             (r = Inr False \<longrightarrow> rest = receive_server (in_buf n' @ s))" for s
          using ms(1) [of s] rec [of s] by auto
        ultimately show ?thesis using ms(3,4) tr by (intro exI [of _ "m # ms"]) blast
      next
        case False
        with p Inr Some rec tr show ?thesis
          by (intro exI [of _ "[m]"]) (auto split: option.splits sum.splits prod.splits if_splits)
      qed
    qed
  qed
qed

section \<open>Passes over a socket\<close>

definition data_of :: "read_result list \<Rightarrow> bytes" where
  "data_of rs = concat (map (\<lambda>r. case r of Got bs \<Rightarrow> bs | _ \<Rightarrow> []) rs)"

lemma data_of_simps [simp]:
  "data_of [] = []" "data_of (r # rs) = (case r of Got bs \<Rightarrow> bs | _ \<Rightarrow> []) @ data_of rs"
  by (simp_all add: data_of_def)

lemma validate_same: "in_buf (snd (validate_headers n)) = in_buf n \<and> out_buf (snd (validate_headers n)) = out_buf n"
proof (induction n rule: validate_headers.induct)
  case (1 n)
  then show ?case by (subst (1 2) validate_headers.simps) (auto simp: Let_def)
qed

lemma fill_loop_data:
  "fill_loop n got rs = (r, n', rs') \<Longrightarrow>
   in_buf n' @ data_of rs' = in_buf n @ data_of rs \<and> length rs' \<le> length rs"
proof (induction n got rs rule: fill_loop.induct)
  case (2 n got x rs)
  note p = "2.prems" [unfolded fill_loop.simps]
  show ?case
  proof (cases "got < READ_BUDGET")
    case False
    with p show ?thesis by simp
  next
    case True
    show ?thesis
    proof (cases x)
      case (Got bs)
      obtain q n1 where v: "validate_headers (n\<lparr> in_buf := in_buf n @ bs \<rparr>) = (q, n1)" by fastforce
      have b: "in_buf n1 = in_buf n @ bs" using validate_same [of "n\<lparr> in_buf := in_buf n @ bs \<rparr>"] v by simp
      show ?thesis
      proof (cases q)
        case (Inl e)
        with p True Got v b show ?thesis by simp
      next
        case (Inr u)
        with p True Got v have "fill_loop n1 (got + length bs) rs = (r, n', rs')" by simp
        with "2.IH"(1) [of bs q n1 u] True Got v Inr b show ?thesis by simp
      qed
    qed (use p True "2.IH"(2) in \<open>auto simp del: fill_loop.simps\<close>)
  qed
qed simp

lemma fill_loop_on_track:
  "fill_loop n got rs = (r, n', rs') \<Longrightarrow> on_track n (data_of rs) \<Longrightarrow>
   on_track n' (data_of rs') \<and> set rs' \<subseteq> set rs \<and> (\<forall>e. r = Inl e \<longrightarrow> ReadFailed \<in> set rs) \<and>
   (r = Inr False \<longrightarrow> ReadEof \<in> set rs \<and> got = 0 \<and> in_buf n' = in_buf n)"
proof (induction n got rs rule: fill_loop.induct)
  case (2 n got x rs)
  note p = "2.prems"(1) [unfolded fill_loop.simps]
  show ?case
  proof (cases "got < READ_BUDGET")
    case False
    with p "2.prems"(2) show ?thesis by auto
  next
    case True
    show ?thesis
    proof (cases x)
      case (Got bs)
      let ?n = "n\<lparr> in_buf := in_buf n @ bs \<rparr>"
      have "on_track ?n (data_of rs)" using "2.prems"(2) Got by (simp add: on_track_def)
      from validate_on_track [OF this] obtain n1
        where v: "validate_headers ?n = (Inr (), n1)" "on_track n1 (data_of rs)" by blast
      have b: "in_buf n1 = in_buf n @ bs" using validate_same [of ?n] v(1) by simp
      from p True Got v have "fill_loop n1 (got + length bs) rs = (r, n', rs')" by simp
      with "2.IH"(1) [of bs "Inr ()" n1 "()"] True Got v b show ?thesis by auto
    qed (use p True "2.IH"(2) "2.prems"(2) in \<open>auto simp del: fill_loop.simps\<close>)
  qed
qed auto

lemma fill_consumes:
  assumes "fill n rs = (r, n', rs')" "rs \<noteq> []"
  shows "length rs' < length rs"
proof -
  obtain q qs where rs: "rs = q # qs" using assms(2) by (cases rs) auto
  have "READ_BUDGET > 0" by (simp add: READ_BUDGET_def)
  then have "rs' = qs \<or> (\<exists>m g. fill_loop m g qs = (r, n', rs'))"
    using assms(1) by (auto simp: fill_def rs split: read_result.splits prod.splits sum.splits)
  then show ?thesis using fill_loop_data by (auto simp: rs less_Suc_eq_le)
qed

text \<open>
  What a pass from such a state leaves: the same, and if it ends the loop, then for a message it
  applied or for what the socket gave; and then, unless a read failed, no whole message is left.
\<close>

definition stayed :: "read_result list \<Rightarrow> net \<Rightarrow> net \<Rightarrow> read_result list \<Rightarrow> server_message list \<Rightarrow> bool \<Rightarrow> bool \<Rightarrow> bool" where
  "stayed rs n n' rs' rest stop b \<longleftrightarrow> on_track n' (data_of rs') \<and> set rs' \<subseteq> set rs \<and>
     (stop \<and> \<not> b \<longrightarrow> (ReadFailed \<in> set rs \<or> ReadEof \<in> set rs) \<and>
       (ReadFailed \<notin> set rs \<and> incomplete (in_buf n) \<longrightarrow>
          rest = receive_server (in_buf n' @ data_of rs') \<and> incomplete (in_buf n')))"

lemma pass_delivers:
  assumes "socket_pass inflate v n rs = Some (stop, v', n', rs')"
  shows "\<exists>ms rest b. receive_server (in_buf n @ data_of rs) = ms @ rest \<and>
     deliver inflate v ms = Some (b, v') \<and>
     (\<not> stop \<longrightarrow> \<not> b \<and> rest = receive_server (in_buf n' @ data_of rs') \<and> incomplete (in_buf n')) \<and>
     (on_track n (data_of rs) \<longrightarrow> stayed rs n n' rs' rest stop b)"
proof -
  obtain r n1 rs1 where f: "fill n rs = (r, n1, rs1)" by (metis prod_cases3)
  have d: "in_buf n1 @ data_of rs1 = in_buf n @ data_of rs"
    using fill_loop_data f by (simp add: fill_def)
  have tr: "on_track n1 (data_of rs1)" "set rs1 \<subseteq> set rs" "\<And>e. r = Inl e \<Longrightarrow> ReadFailed \<in> set rs"
      "r = Inr False \<Longrightarrow> ReadEof \<in> set rs \<and> in_buf n1 = in_buf n" if "on_track n (data_of rs)"
    using fill_loop_on_track [of n 0 rs r n1 rs1] f that by (auto simp: fill_def)
  show ?thesis
  proof (cases "r = Inr True")
    case True
    with assms f obtain q n2 where q: "drain_server_messages inflate v n1 = Some (q, v', n2)" "rs' = rs1" "n' = n2"
      "\<not> stop \<longrightarrow> q = Inr False" and q5: "stop \<longrightarrow> q \<noteq> Inr False"
      by (cases "drain_server_messages inflate v n1") (auto simp: socket_pass_def split: sum.splits)
    from drain_delivers [OF q(1)] obtain ms b where
      ms: "\<And>s. \<exists>rest. receive_server (in_buf n1 @ s) = ms @ rest \<and>
           (q = Inr False \<longrightarrow> rest = receive_server (in_buf n2 @ s))"
        "deliver inflate v ms = Some (b, v')" "q = Inr False \<longrightarrow> \<not> b \<and> incomplete (in_buf n2)"
        "\<And>s. on_track n1 s \<Longrightarrow> on_track n2 s \<and> (q \<noteq> Inr False \<longrightarrow> b)" by blast
    from ms(1) [of "data_of rs1"] obtain rest where rest: "receive_server (in_buf n @ data_of rs) = ms @ rest"
      "q = Inr False \<longrightarrow> rest = receive_server (in_buf n2 @ data_of rs1)" unfolding d by blast
    have "stayed rs n n' rs' rest stop b" if "on_track n (data_of rs)"
      using tr(1,2) [OF that] ms(4) [of "data_of rs1"] q(2-4) q5 by (auto simp: stayed_def)
    with rest ms(2,3) q(2-4) show ?thesis by metis
  next
    case False
    with assms f have "stop" "v' = v" "n' = n1" "rs' = rs1"
      by (auto simp: socket_pass_def split: sum.splits bool.splits)
    moreover have "stayed rs n n1 rs1 (receive_server (in_buf n @ data_of rs)) True False" if t: "on_track n (data_of rs)"
    proof (cases r)
      case (Inl e)
      with tr [OF t] show ?thesis by (auto simp: stayed_def)
    next
      case (Inr e)
      with False have "r = Inr False" by auto
      with tr [OF t] show ?thesis unfolding d [symmetric] by (auto simp: stayed_def)
    qed
    ultimately show ?thesis
      by (intro exI [of _ "[]"] exI [of _ "receive_server (in_buf n @ data_of rs)"] exI [of _ False]) simp
  qed
qed

lemma passes_deliver:
  "passes k inflate v n rs = Some (stop, v', n', rs') \<Longrightarrow> incomplete (in_buf n) \<Longrightarrow>
   \<exists>ms rest b. receive_server (in_buf n @ data_of rs) = ms @ rest \<and> deliver inflate v ms = Some (b, v') \<and>
     (\<not> stop \<longrightarrow> \<not> b \<and> rest = receive_server (in_buf n' @ data_of rs') \<and> incomplete (in_buf n')) \<and>
     (on_track n (data_of rs) \<longrightarrow> stayed rs n n' rs' rest stop b)"
proof (induction k arbitrary: v n rs)
  case 0
  then show ?case
    by (intro exI [of _ "[]"] exI [of _ "receive_server (in_buf n @ data_of rs)"] exI [of _ False])
      (auto simp: stayed_def)
next
  case (Suc k)
  show ?case
  proof (cases "rs = []")
    case True
    with Suc.prems show ?thesis
      by (intro exI [of _ "[]"] exI [of _ "receive_server (in_buf n @ data_of rs)"] exI [of _ False])
        (auto simp: stayed_def)
  next
    case False
    with Suc.prems(1) obtain st v1 n1 rs1 where p: "socket_pass inflate v n rs = Some (st, v1, n1, rs1)"
      by (auto split: option.splits)
    from pass_delivers [OF p] obtain ms rest b where
      ms: "receive_server (in_buf n @ data_of rs) = ms @ rest" "deliver inflate v ms = Some (b, v1)"
        "\<not> st \<longrightarrow> \<not> b \<and> rest = receive_server (in_buf n1 @ data_of rs1) \<and> incomplete (in_buf n1)"
        "on_track n (data_of rs) \<longrightarrow> stayed rs n n1 rs1 rest st b" by blast
    show ?thesis
    proof (cases st)
      case True
      with Suc.prems(1) False p have "stop" "v' = v1" "n' = n1" "rs' = rs1" by auto
      with ms True show ?thesis by (intro exI [of _ ms] exI [of _ rest] exI [of _ b]) simp
    next
      case no: False
      with Suc.prems(1) False p have "passes k inflate v1 n1 rs1 = Some (stop, v', n', rs')" by simp
      from Suc.IH [OF this] ms(3) no obtain ms2 rest2 b2 where
        ms2: "receive_server (in_buf n1 @ data_of rs1) = ms2 @ rest2" "deliver inflate v1 ms2 = Some (b2, v')"
          "\<not> stop \<longrightarrow> \<not> b2 \<and> rest2 = receive_server (in_buf n' @ data_of rs') \<and> incomplete (in_buf n')"
          "on_track n1 (data_of rs1) \<longrightarrow> stayed rs1 n1 n' rs' rest2 stop b2" by blast
      have "deliver inflate v (ms @ ms2) = Some (b2, v')"
        using deliver_append [of inflate v ms v1 ms2] ms(2,3) ms2(2) no by simp
      moreover have "stayed rs n n' rs' rest2 stop b2" if "on_track n (data_of rs)"
        using ms(3,4) ms2(4) no that by (auto simp: stayed_def)
      ultimately show ?thesis using ms ms2 no
        by (intro exI [of _ "ms @ ms2"] exI [of _ rest2] exI [of _ b2]) simp
    qed
  qed
qed

text \<open>Enough passes: one for each thing the socket gives.\<close>

lemma passes_finish:
  "passes k inflate v n rs = Some (False, v', n', rs') \<Longrightarrow> length rs \<le> k \<Longrightarrow> rs' = []"
proof (induction k arbitrary: v n rs)
  case (Suc k)
  show ?case
  proof (cases "rs = []")
    case True
    with Suc.prems show ?thesis by simp
  next
    case False
    with Suc.prems(1) obtain v1 n1 rs1 where p: "socket_pass inflate v n rs = Some (False, v1, n1, rs1)"
      "passes k inflate v1 n1 rs1 = Some (False, v', n', rs')"
      by (auto split: option.splits prod.splits bool.splits)
    obtain r n2 rs2 where f: "fill n rs = (r, n2, rs2)" by (metis prod_cases3)
    have "rs1 = rs2" using p(1) f by (auto simp: socket_pass_def split: sum.splits bool.splits option.splits)
    with fill_consumes [OF f False] Suc.prems(2) Suc.IH [OF p(2)] show ?thesis by simp
  qed
qed simp

section \<open>The viewer survives its server\<close>

definition view_ok :: "viewer \<Rightarrow> bool" where
  "view_ok v \<longleftrightarrow> framebuffer_len (fb_w v) (fb_h v) = Inr (length (fb v))"

lemma view_ok_fb: "view_ok v \<Longrightarrow> fb_ok (fb v) (fb_w v) (fb_h v)"
proof -
  assume "view_ok v"
  then have l: "length (fb v) = unat (fb_w v) * unat (fb_h v) * 4" "unat (fb_w v) * unat (fb_h v) \<le> 67108864"
    by (auto simp: view_ok_def framebuffer_len_def Let_def BYTES_PER_PIXEL_def MAX_FRAME_PIXELS_def split: if_splits)
  then show ?thesis by (simp add: fb_ok_def BYTES_PER_PIXEL_def mult.commute mult.left_commute)
qed

lemma apply_tile_length:
  assumes "fb_ok dst w h"
  shows "\<exists>r dst'. apply_tile inflate dst w h t = Some (r, dst') \<and> length dst' = length dst"
proof (cases "inside w h (tile_rect t) \<and> is_ok (tile_pixels inflate t (raw_len (tile_rect t)))")
  case True
  then obtain p where p: "tile_pixels inflate t (raw_len (tile_rect t)) = Inr p"
    by (cases "tile_pixels inflate t (raw_len (tile_rect t))") auto
  from apply_tile_inside [OF assms _ p tile_pixels_length [OF p]] True show ?thesis by fastforce
next
  case False
  then have "\<not> inside w h (tile_rect t) \<or> (\<exists>e. tile_pixels inflate t (raw_len (tile_rect t)) = Inl e)"
    by (cases "tile_pixels inflate t (raw_len (tile_rect t))") auto
  with apply_tile_rejected [OF assms] show ?thesis by blast
qed

lemma apply_tiles_length:
  "fb_ok dst w h \<Longrightarrow> \<exists>dst'. apply_tiles inflate dst w h ts = Some dst' \<and> length dst' = length dst"
proof (induction ts arbitrary: dst)
  case (Cons t ts)
  obtain r d1 where "apply_tile inflate dst w h t = Some (r, d1)" "length d1 = length dst"
    using apply_tile_length [OF Cons.prems] by blast
  moreover from this Cons.prems have "fb_ok d1 w h" by (simp add: fb_ok_def)
  ultimately show ?case using Cons.IH by fastforce
qed simp

lemma view_ok_resize: "resize_fb v w h = Inr v' \<Longrightarrow> view_ok v'"
  by (auto simp: resize_fb_def view_ok_def split: sum.splits)

lemma apply_message_ok:
  assumes "view_ok v"
  shows "\<exists>r. apply_message inflate v msg = Some r \<and> (\<forall>bye v'. r = Inr (bye, v') \<longrightarrow> view_ok v')"
proof (cases msg)
  case (Frame sq tiles)
  with apply_tiles_length [OF view_ok_fb [OF assms], of inflate tiles] assms
  show ?thesis by (auto simp: apply_message_def view_ok_def)
next
  case (Ready w h sc f p)
  with assms view_ok_resize [of v w h] show ?thesis
    by (cases "resize_fb v w h") (auto simp: apply_message_def)
next
  case (Resize w h sc)
  with view_ok_resize [of v w h] show ?thesis by (cases "resize_fb v w h") (auto simp: apply_message_def)
qed (use assms in \<open>auto simp: apply_message_def view_ok_def\<close>)

lemma drain_ok:
  "view_ok v \<Longrightarrow> \<exists>r v' n'. drain_server_messages inflate v n = Some (r, v', n') \<and> view_ok v'"
proof (induction inflate v n rule: drain_server_messages.induct)
  case (1 inflate v n)
  obtain q n1 where f: "next_message n = (q, n1)" by fastforce
  show ?case
  proof (cases "\<exists>m. q = Inr (Some m)")
    case True
    then obtain m where q: "q = Inr (Some m)" by blast
    from apply_message_ok [OF "1.prems", of inflate m] obtain r where
      r: "apply_message inflate v m = Some r" "\<forall>bye v'. r = Inr (bye, v') \<longrightarrow> view_ok v'" by blast
    show ?thesis
    proof (cases r)
      case (Inl e)
      with "1.prems" f q r show ?thesis by (subst drain_server_messages.simps) simp
    next
      case (Inr bv)
      obtain bye v1 where bv: "bv = (bye, v1)" by fastforce
      have v1: "view_ok v1" using r(2) Inr bv by simp
      show ?thesis
      proof (cases bye)
        case True
        with v1 f q r(1) Inr bv show ?thesis by (subst drain_server_messages.simps) simp
      next
        case no: False
        from "1.IH" [OF f [symmetric] q refl r(1) Inr bv [symmetric] no v1]
        show ?thesis using no f q r(1) Inr bv by (subst drain_server_messages.simps) simp
      qed
    qed
  next
    case False
    with "1.prems" f show ?thesis
      by (subst drain_server_messages.simps) (auto split: sum.splits option.splits)
  qed
qed

lemma pass_ok:
  assumes "view_ok v"
  shows "\<exists>stop v' n' rs'. socket_pass inflate v n rs = Some (stop, v', n', rs') \<and> view_ok v'"
proof -
  obtain r n1 rs1 where f: "fill n rs = (r, n1, rs1)" by (metis prod_cases3)
  from drain_ok [OF assms, of inflate n1] assms f show ?thesis
    by (auto simp: socket_pass_def split: sum.splits bool.splits)
qed

lemma passes_ok:
  "view_ok v \<Longrightarrow> \<exists>stop v' n' rs'. passes k inflate v n rs = Some (stop, v', n', rs') \<and> view_ok v'"
proof (induction k arbitrary: v n rs)
  case (Suc k)
  obtain st v1 n1 rs1 where p: "socket_pass inflate v n rs = Some (st, v1, n1, rs1)" "view_ok v1"
    using pass_ok [OF Suc.prems] by blast
  from Suc.IH [OF p(2), of n1 rs1] Suc.prems p show ?case by (cases st) auto
qed auto

lemma incomplete_bound: "incomplete b \<Longrightarrow> length b < 4 + MAX_MESSAGE_LEN"
  by (auto simp: incomplete_def)

text \<open>One \<open>read\<close> gives at most the 64 KiB of its buffer.\<close>

definition reads_ok :: "read_result list \<Rightarrow> bool" where
  "reads_ok rs \<longleftrightarrow> (\<forall>bs. Got bs \<in> set rs \<longrightarrow> length bs \<le> 65536)"

lemma fill_loop_bound:
  "fill_loop n got rs = (r, n', rs') \<Longrightarrow> reads_ok rs \<Longrightarrow> got < READ_BUDGET + 65536 \<Longrightarrow>
   length (in_buf n') + got < length (in_buf n) + (READ_BUDGET + 65536)"
proof (induction n got rs rule: fill_loop.induct)
  case (2 n got x rs)
  note p = "2.prems"(1) [unfolded fill_loop.simps]
  show ?case
  proof (cases "got < READ_BUDGET")
    case True
    show ?thesis
    proof (cases x)
      case (Got bs)
      obtain q n1 where v: "validate_headers (n\<lparr> in_buf := in_buf n @ bs \<rparr>) = (q, n1)" by fastforce
      have b: "in_buf n1 = in_buf n @ bs" using validate_same [of "n\<lparr> in_buf := in_buf n @ bs \<rparr>"] v by simp
      have l: "length bs \<le> 65536" "reads_ok rs" using "2.prems"(2) Got by (auto simp: reads_ok_def)
      show ?thesis
      proof (cases q)
        case (Inl e)
        with p True Got v b l show ?thesis by simp
      next
        case (Inr u)
        with p True Got v have "fill_loop n1 (got + length bs) rs = (r, n', rs')" by simp
        with "2.IH"(1) [of bs q n1 u] True Got v Inr b l show ?thesis by simp
      qed
    qed (use p True "2.IH"(2) "2.prems" in \<open>auto simp: reads_ok_def simp del: fill_loop.simps\<close>)
  qed (use p "2.prems" in simp)
qed simp

section \<open>Relaying input\<close>

definition calm :: "write_result list \<Rightarrow> bool" where
  "calm ws \<longleftrightarrow> WriteFailed \<notin> set ws \<and> Wrote 0 \<notin> set ws"

text \<open>The bytes the socket takes of what is staged.\<close>

definition took :: "bytes \<Rightarrow> write_result list \<Rightarrow> bytes" where
  "took out ws = (case flush_loop out 0 ws of Inr k \<Rightarrow> take k out | Inl e \<Rightarrow> [])"

datatype viewer_op = Flush "write_result list"
  | Notice wm_notice "(bytes option \<times> bytes) option" "write_result list"

text \<open>What an event has the viewer send, given whether it is the active view.\<close>

definition to_relay :: "bool \<Rightarrow> (bytes option \<times> bytes) option \<Rightarrow> wm_notice \<Rightarrow> client_message option" where
  "to_relay act clip ev = (if \<not> act then None else
     (case (case ev of
         CapturedInput e \<Rightarrow> Some (relayed e)
       | RemoteClipboard Pull \<Rightarrow> Some (GetClipboard False)
       | RemoteClipboard Push \<Rightarrow>
           (case clip of Some (Some mime, dat) \<Rightarrow> Some (SetClipboard False mime dat) | _ \<Rightarrow> None)
       | _ \<Rightarrow> None) of
       Some m \<Rightarrow> if length (encode_client [] m) \<le> MAX_MESSAGE_LEN then Some m else None
     | None \<Rightarrow> None))"

fun spec_relayed :: "u8 \<Rightarrow> bool \<Rightarrow> viewer_op list \<Rightarrow> client_message list" where
  "spec_relayed my act [] = []"
| "spec_relayed my act (Flush ws # ops) = spec_relayed my act ops"
| "spec_relayed my act (Notice ev clip ws # ops) =
    (case to_relay act clip ev of Some m \<Rightarrow> [m] | None \<Rightarrow> []) @
    spec_relayed my (case ev of ViewChanged i \<Rightarrow> i = my | _ \<Rightarrow> act) ops"

text \<open>A run of the handlers, with the bytes that went over the wire.\<close>

fun relay_run :: "u8 \<Rightarrow> viewer \<Rightarrow> net \<Rightarrow> bytes \<Rightarrow> viewer_op list \<Rightarrow> viewer \<times> net \<times> bytes" where
  "relay_run my v n wire [] = (v, n, wire)"
| "relay_run my v n wire (Flush ws # ops) =
    relay_run my v (snd (flush_out n ws)) (wire @ took (out_buf n) ws) ops"
| "relay_run my v n wire (Notice ev clip ws # ops) =
    (let (v', n') = handle_wm_event v n my clip ws ev;
         sent = (case to_relay (view_active v) clip ev of
            Some m \<Rightarrow> took (out_buf n @ frame_of (encode_client [] m)) ws | None \<Rightarrow> [])
     in relay_run my v' n' (wire @ sent) ops)"

definition calm_ops :: "viewer_op list \<Rightarrow> bool" where
  "calm_ops ops \<longleftrightarrow> (\<forall>op \<in> set ops. case op of Flush ws \<Rightarrow> calm ws | Notice ev clip ws \<Rightarrow> calm ws)"

lemma calm_flush: "calm ws \<Longrightarrow> \<exists>k. flush_loop out written ws = Inr k"
  by (induction out written ws rule: flush_loop.induct) (auto simp: calm_def split: write_result.splits)

lemma flush_took:
  assumes "calm ws"
  shows "took (out_buf n) ws @ out_buf (snd (flush_out n ws)) = out_buf n"
proof -
  obtain k where "flush_loop (out_buf n) 0 ws = Inr k" using calm_flush [OF assms] by blast
  then show ?thesis by (simp add: took_def flush_out_def)
qed

lemma net_send_took:
  assumes "calm ws"
  shows "if length (encode_client [] m) \<le> MAX_MESSAGE_LEN
    then took (out_buf n @ frame_of (encode_client [] m)) ws @ out_buf (snd (net_send n m ws)) =
           out_buf n @ frame_of (encode_client [] m)
    else out_buf (snd (net_send n m ws)) = out_buf n"
proof (cases "length (encode_client [] m) \<le> MAX_MESSAGE_LEN")
  case True
  let ?n = "n\<lparr> out_buf := out_buf n @ frame_of (encode_client [] m) \<rparr>"
  have "net_send n m ws = flush_out ?n ws"
    using True by (simp add: net_send_def write_framed_def frame_of_def Let_def)
  with flush_took [OF assms, of ?n] True show ?thesis by simp
next
  case False
  then show ?thesis by (simp add: net_send_def write_framed_def Let_def)
qed

lemma handle_wm_event_relays:
  assumes "calm ws" "handle_wm_event v n my clip ws ev = (v', n')"
  shows "(case to_relay (view_active v) clip ev of
      Some m \<Rightarrow> took (out_buf n @ frame_of (encode_client [] m)) ws @ out_buf n' =
          out_buf n @ frame_of (encode_client [] m)
    | None \<Rightarrow> out_buf n' = out_buf n) \<and>
    view_active v' = (case ev of ViewChanged i \<Rightarrow> i = my | _ \<Rightarrow> view_active v)"
  using assms(2) net_send_took [OF assms(1), of _ n]
  by (auto simp: handle_wm_event_def to_relay_def Let_def simp del: encode_client.simps
      split: wm_notice.splits clipboard_op.splits option.splits if_splits)

lemma relay_run_bytes:
  "relay_run my v n wire ops = (v', n', wire') \<Longrightarrow> calm_ops ops \<Longrightarrow>
   wire' @ out_buf n' = wire @ out_buf n @
     concat (map (\<lambda>m. frame_of (encode_client [] m)) (spec_relayed my (view_active v) ops))"
proof (induction my v n wire ops rule: relay_run.induct)
  case (2 my v n wire ws ops)
  then have "calm ws" "calm_ops ops" by (auto simp: calm_ops_def)
  moreover from 2 this(2) have "wire' @ out_buf n' = (wire @ took (out_buf n) ws) @ out_buf (snd (flush_out n ws)) @
     concat (map (\<lambda>m. frame_of (encode_client [] m)) (spec_relayed my (view_active v) ops))" by simp
  ultimately show ?case using flush_took [of ws n] by (metis append_assoc spec_relayed.simps(2))
next
  case (3 my v n wire ev clip ws ops)
  obtain v1 n1 where h: "handle_wm_event v n my clip ws ev = (v1, n1)" by fastforce
  have c: "calm ws" "calm_ops ops" using "3.prems" by (auto simp: calm_ops_def)
  note e = handle_wm_event_relays [OF c(1) h]
  show ?case
  proof (cases "to_relay (view_active v) clip ev")
    case None
    with 3 h c e show ?thesis by simp
  next
    case (Some m)
    let ?f = "frame_of (encode_client [] m)"
    have t: "took (out_buf n @ ?f) ws @ out_buf n1 = out_buf n @ ?f" "view_active v1 =
        (case ev of ViewChanged i \<Rightarrow> i = my | _ \<Rightarrow> view_active v)" using e Some by simp_all
    from 3 h c Some have "wire' @ out_buf n' = wire @ (took (out_buf n @ ?f) ws @ out_buf n1) @
       concat (map (\<lambda>m. frame_of (encode_client [] m)) (spec_relayed my (view_active v1) ops))" by simp
    then show ?thesis unfolding t using Some by simp
  qed
qed simp

section \<open>Properties\<close>

definition blank_viewer :: viewer where
  "blank_viewer = \<lparr> fb = replicate 16 0, fb_w = 2, fb_h = 2, view_active = True, cursor_pos = None,
     dirty = False, frames_seen = 0, selections = [] \<rparr>"

lemma blank_ok: "view_ok blank_viewer"
  by (simp add: view_ok_def blank_viewer_def framebuffer_len_def MAX_FRAME_DIMENSION_def
      MAX_FRAME_PIXELS_def BYTES_PER_PIXEL_def Let_def)

text \<open>C12. The viewer survives its server: whatever bytes the server sends, in whatever pieces the
  socket gives them, no pass over them panics; the framebuffer always has exactly the size it
  declares, within the protocol's limits; one fill adds less than the read budget and one read to
  the buffer; and after every pass that goes on, what is buffered is less than one message.\<close>

theorem viewer_survives_server:
  assumes "view_ok v"
  shows "\<exists>stop v' n' rs'. passes k inflate v from_stream rs = Some (stop, v', n', rs') \<and>
    framebuffer_len (fb_w v') (fb_h v') = Inr (length (fb v')) \<and>
    (\<not> stop \<longrightarrow> length (in_buf n') < 4 + MAX_MESSAGE_LEN) \<and>
    (reads_ok rs' \<longrightarrow> length (in_buf (fst (snd (fill n' rs')))) < length (in_buf n') + READ_BUDGET + 65536)"
proof -
  obtain stop v' n' rs' where p: "passes k inflate v from_stream rs = Some (stop, v', n', rs')" "view_ok v'"
    using passes_ok [OF assms] by blast
  have "incomplete (in_buf from_stream)" by (simp add: from_stream_def incomplete_def)
  from passes_deliver [OF p(1) this] have "\<not> stop \<longrightarrow> length (in_buf n') < 4 + MAX_MESSAGE_LEN"
    using incomplete_bound by blast
  moreover have "length (in_buf (fst (snd (fill n' rs')))) < length (in_buf n') + READ_BUDGET + 65536"
    if "reads_ok rs'"
    using fill_loop_bound [of n' 0 rs' "fst (fill n' rs')" "fst (snd (fill n' rs'))" "snd (snd (fill n' rs'))"] that
    by (simp add: fill_def)
  ultimately show ?thesis using p by (auto simp: view_ok_def)
qed

theorem viewer_survives_server_witness:
  "\<exists>v'. map_option (fst \<circ> snd) (passes 3 unrle blank_viewer from_stream [Got [255, 255], Got [255, 255, 1], ReadEof]) = Some v' \<and>
     framebuffer_len (fb_w v') (fb_h v') = Inr (length (fb v'))"
  using viewer_survives_server [OF blank_ok, of 3 unrle "[Got [255, 255], Got [255, 255, 1], ReadEof]"] by auto

lemma items_on_track:
  assumes "list_all (item_ok encode_server decode_server wf_server) is"
  shows "on_track from_stream (concat (map (item_bytes encode_server) is))"
proof -
  have "\<exists>ps. list_all readable ps \<and> concat (map (item_bytes encode_server) is) = concat (map frame_of ps)"
    using assms
  proof (induction "is")
    case (Cons i "is")
    then obtain ps where ps: "list_all readable ps"
      "concat (map (item_bytes encode_server) is) = concat (map frame_of ps)" by auto
    show ?case
    proof (cases i)
      case (Known m)
      with Cons.prems have "wf_server m" "length (encode_server [] m) \<le> MAX_MESSAGE_LEN" by (simp_all add: fits_frame_def)
      then have "readable (encode_server [] m)"
        using server.decode_encode [of m] by (simp add: readable_def MAX_MESSAGE_LEN_def)
      with Known ps show ?thesis by (intro exI [of _ "encode_server [] m # ps"]) simp
    next
      case (Unknown p)
      with Cons.prems have "readable p"
        by (auto simp: unknown_payload_def readable_def split: sum.splits wire_error.splits)
      with Unknown ps show ?thesis by (intro exI [of _ "p # ps"]) simp
    qed
  qed (intro exI [of _ "[]"], simp)
  then obtain ps where "list_all readable ps" "concat (map (item_bytes encode_server) is) = concat (map frame_of ps)"
    by blast
  then show ?thesis unfolding on_track_def by (intro exI [of _ "[]"] exI [of _ ps]) (simp add: from_stream_def)
qed

text \<open>C11. Incremental parsing implements framing: take any server that sends well-formed messages
  (and messages of kinds this build does not know), cut into pieces and interleaved with
  interruptions anyhow. The passes (one for each thing the socket gives are enough) apply exactly
  the messages sent, in order, up to the first that ends the session (\<open>b\<close>: the server's \<open>Bye\<close>, or
  a size no framebuffer can have). Nothing else in such a stream ends the loop: it goes on and reads all
  there is unless one of the messages applied ended it or the socket gave an end of file or an
  error; and after an end of file that nothing follows every message has been applied, so that only
  a failed read can lose one.\<close>

theorem viewer_applies_what_was_sent:
  assumes v: "view_ok v" and items: "list_all (item_ok encode_server decode_server wf_server) is"
    and sent: "data_of rs = concat (map (item_bytes encode_server) is)"
  shows "\<exists>stop v' n' rs' ms rest b. passes (length rs) inflate v from_stream rs = Some (stop, v', n', rs') \<and>
    known is = ms @ rest \<and> deliver inflate v ms = Some (b, v') \<and>
    (\<not> stop \<longrightarrow> rs' = [] \<and> rest = [] \<and> \<not> b) \<and>
    (stop \<longrightarrow> b \<or> ReadEof \<in> set rs \<or> ReadFailed \<in> set rs) \<and>
    (data_of rs' = [] \<and> ReadFailed \<notin> set rs \<longrightarrow> rest = [] \<or> b)"
proof -
  obtain stop v' n' rs' where p: "passes (length rs) inflate v from_stream rs = Some (stop, v', n', rs')"
    using passes_ok [OF v] by blast
  have i: "incomplete (in_buf from_stream)" "in_buf from_stream = []" by (simp_all add: from_stream_def incomplete_def)
  have "receive_server (data_of rs) = known is"
    using server.receive_items [OF items, of "[]"] by (simp add: sent receive_Nil)
  with passes_deliver [OF p i(1)] i(2) items_on_track [OF items] sent obtain ms rest b where
    ms: "known is = ms @ rest" "deliver inflate v ms = Some (b, v')"
      "\<not> stop \<longrightarrow> \<not> b \<and> rest = receive_server (in_buf n' @ data_of rs') \<and> incomplete (in_buf n')"
      "stayed rs from_stream n' rs' rest stop b" by auto
  have "rs' = []" "rest = []" if "\<not> stop"
  proof -
    show "rs' = []" using passes_finish [of "length rs" inflate v from_stream rs v' n' rs'] p that by simp
    with ms(3) that show "rest = []" by (simp add: receive_incomplete)
  qed
  moreover have "rest = [] \<or> b" if "data_of rs' = []" "ReadFailed \<notin> set rs" "stop"
    using ms(4) i that by (auto simp: stayed_def receive_incomplete)
  moreover have "stop \<longrightarrow> b \<or> ReadEof \<in> set rs \<or> ReadFailed \<in> set rs" using ms(4) by (auto simp: stayed_def)
  ultimately show ?thesis using p ms(1-3) by blast
qed

theorem viewer_applies_what_was_sent_witness:
  "\<exists>v' n'. passes 3 unrle blank_viewer from_stream [Got [2, 0, 0], ReadInterrupted, Got [0, 2, 0]] =
       Some (False, v', n', []) \<and>
     deliver unrle blank_viewer [Cursor Hidden] = Some (False, v')"
proof -
  let ?rs = "[Got [2, 0, 0], ReadInterrupted, Got [0, 2, 0]]"
  have "list_all (item_ok encode_server decode_server wf_server) [Known (Cursor Hidden)]"
    by (simp add: fits_frame_def put_u8_def MAX_MESSAGE_LEN_def)
  moreover have "data_of ?rs = concat (map (item_bytes encode_server) [Known (Cursor Hidden)])"
    by (simp add: put_u8_def frame_of_def to_le_def upt_rec)
  moreover have l: "length ?rs = 3" "ReadEof \<notin> set ?rs" "ReadFailed \<notin> set ?rs" by simp_all
  ultimately obtain stop v' n' rs' ms rest b where
    w: "passes 3 unrle blank_viewer from_stream ?rs = Some (stop, v', n', rs')"
      "known [Known (Cursor Hidden)] = ms @ rest" "deliver unrle blank_viewer ms = Some (b, v')"
      "\<not> stop \<longrightarrow> rs' = [] \<and> rest = [] \<and> \<not> b" "stop \<longrightarrow> b"
    using viewer_applies_what_was_sent [OF blank_ok, of "[Known (Cursor Hidden)]" ?rs unrle]
    unfolding l(1) using l(2,3) by blast
  have "\<not> b" using w(2,3) by (cases ms) (auto simp: apply_message_def)
  with w have e: "stop = False" "rs' = []" "ms = [Cursor Hidden]" "b = False" by auto
  show ?thesis using w(1,3) unfolding e by blast
qed

text \<open>Input is relayed exactly: over any run of the viewer's handlers and flushes, however
  the socket splits the writes (as long as it does not fail), what went over the wire followed by
  what is still staged is read by the server as exactly the messages of the events that arrived
  while this was the active view, in order, none lost and none twice.\<close>

theorem input_is_relayed_in_order:
  assumes "relay_run my v from_stream [] ops = (v', n', wire)" and "calm_ops ops"
    and "list_all (fits_frame encode_client wf_client) (spec_relayed my (view_active v) ops)"
  shows "receive decode_client (wire @ out_buf n') = spec_relayed my (view_active v) ops"
proof -
  let ?ms = "spec_relayed my (view_active v) ops"
  have "list_all (item_ok encode_client decode_client wf_client) (map Known ?ms)"
    using assms(3) by (simp add: list_all_iff)
  note r = client.receive_items [OF this, of "[]"]
  have "known (map Known ms) = ms" for ms :: "client_message list" by (induction ms) simp_all
  with r have "receive decode_client (concat (map (\<lambda>m. frame_of (encode_client [] m)) ?ms)) = ?ms"
    by (simp add: comp_def receive_Nil)
  then show ?thesis
    using relay_run_bytes [OF assms(1,2)] by (simp add: from_stream_def)
qed

theorem input_is_relayed_in_order_witness:
  "let (v', n', wire) = relay_run 1 blank_viewer from_stream []
       [Notice (CapturedInput (RawKey 30 True)) None [Wrote 3, WriteWouldBlock], Notice (ViewChanged 0) None [],
        Notice (CapturedInput (RawKey 31 True)) None [], Flush [WriteInterrupted, Wrote 2]]
   in receive decode_client (wire @ out_buf n') = [client_message.Key 30 True]"
proof -
  let ?ops = "[Notice (CapturedInput (RawKey 30 True)) None [Wrote 3, WriteWouldBlock], Notice (ViewChanged 0) None [],
        Notice (CapturedInput (RawKey 31 True)) None [], Flush [WriteInterrupted, Wrote 2]]"
  obtain v' n' wire where r: "relay_run 1 blank_viewer from_stream [] ?ops = (v', n', wire)" by (metis prod_cases3)
  have c: "calm_ops ?ops" by (simp add: calm_ops_def calm_def)
  have m: "spec_relayed 1 (view_active blank_viewer) ?ops = [client_message.Key 30 True]"
    by (simp add: to_relay_def relayed_def blank_viewer_def wire_simps MAX_MESSAGE_LEN_def)
  have "list_all (fits_frame encode_client wf_client) [client_message.Key 30 True]"
    by (simp add: fits_frame_def wire_simps MAX_MESSAGE_LEN_def)
  with input_is_relayed_in_order [OF r c] m have "receive decode_client (wire @ out_buf n') = [client_message.Key 30 True]"
    by metis
  then show ?thesis unfolding r by simp
qed

end
