(* ===== verification/Ipc.thy ===== *)
theory Ipc
  imports Viewer
begin

text \<open>
  One connection of the window manager's control socket (\<open>Client\<close> of \<open>src/ipc.rs\<close>): requests
  arrive as newline-terminated JSON lines and are cut out of what was read; replies and events are
  queued as lines and written as the socket takes them. The socket is a list of what it will give
  to each \<open>write\<close> (at its end it would block), and \<open>taken\<close> is what it took. \<open>serde_json\<close> is a
  parameter.
\<close>

section \<open>The connection\<close>

record ipc_client =
  read_buf :: bytes
  scanned :: nat
  subscriber :: bool
  spent :: bool
  is_capture :: bool
  out_bytes :: bytes
  out_pos :: nat
  wants_flush :: bool
  socket :: "write_result list"
  taken :: bytes

definition MAX_REQUEST_LEN :: nat where "MAX_REQUEST_LEN = 256 * 1024 * 1024"

definition SUBSCRIBER_BACKLOG :: nat where "SUBSCRIBER_BACKLOG = 1024 * 1024"

abbreviation newline :: u8 where "newline \<equiv> 10"

definition new_client :: "write_result list \<Rightarrow> ipc_client" where
  "new_client sock = \<lparr> read_buf = [], scanned = 0, subscriber = False, spent = False, is_capture = False,
     out_bytes = [], out_pos = 0, wants_flush = False, socket = sock, taken = [] \<rparr>"

section \<open>Writing\<close>

text \<open>
  \<open>flush_out\<close>: \<open>None\<close> is an I/O error. A \<open>write\<close> takes at most what it is offered.
\<close>

fun client_flush_loop :: "write_result list \<Rightarrow> ipc_client \<Rightarrow> bool option \<times> ipc_client" where
  "client_flush_loop [] c =
    (if out_pos c < length (out_bytes c) then (Some False, c\<lparr> socket := [] \<rparr>)
     else (Some True, c\<lparr> out_bytes := [], out_pos := 0, socket := [] \<rparr>))"
| "client_flush_loop (w # ws) c =
    (if \<not> out_pos c < length (out_bytes c)
     then (Some True, c\<lparr> out_bytes := [], out_pos := 0, socket := w # ws \<rparr>)
     else (case w of
         Wrote k \<Rightarrow>
           if k = 0 then (None, c\<lparr> socket := ws \<rparr>)
           else (let n = min k (length (out_bytes c) - out_pos c) in
             client_flush_loop ws (c\<lparr> taken := taken c @ take n (drop (out_pos c) (out_bytes c)),
                                     out_pos := out_pos c + n \<rparr>))
       | WriteWouldBlock \<Rightarrow> (Some False, c\<lparr> socket := ws \<rparr>)
       | WriteInterrupted \<Rightarrow> client_flush_loop ws c
       | WriteFailed \<Rightarrow> (None, c\<lparr> socket := ws \<rparr>)))"

definition client_flush_out :: "ipc_client \<Rightarrow> bool option \<times> ipc_client" where
  "client_flush_out c = client_flush_loop (socket c) c"

definition backlog_len :: "ipc_client \<Rightarrow> nat" where
  "backlog_len c = length (out_bytes c) - out_pos c"

definition has_backlog :: "ipc_client \<Rightarrow> bool" where
  "has_backlog c \<longleftrightarrow> out_pos c < length (out_bytes c)"

text \<open>Whether each of these returned \<open>Ok\<close>, and the connection.\<close>

definition send_line :: "bytes \<Rightarrow> ipc_client \<Rightarrow> bool \<times> ipc_client" where
  "send_line line c = (case client_flush_out (c\<lparr> out_bytes := out_bytes c @ line @ [newline] \<rparr>) of
     (None, c') \<Rightarrow> (False, c')
   | (Some done, c') \<Rightarrow> (True, if \<not> done \<and> \<not> wants_flush c' then c'\<lparr> wants_flush := True \<rparr> else c'))"

definition send_subscribed :: "bytes \<Rightarrow> ipc_client \<Rightarrow> bool \<times> ipc_client" where
  "send_subscribed line c = (case send_line line c of
     (False, c') \<Rightarrow> (False, c')
   | (True, c') \<Rightarrow>
       if SUBSCRIBER_BACKLOG < backlog_len c' then (False, c'\<lparr> out_bytes := [], out_pos := 0 \<rparr>)
       else (True, c'))"

definition write_response :: "bytes \<Rightarrow> ipc_client \<Rightarrow> bool \<times> ipc_client" where
  "write_response line c = (case send_line line c of
     (False, c') \<Rightarrow> (False, c')
   | (True, c') \<Rightarrow> (True, c'\<lparr> spent := True \<rparr>))"

fun queue_each :: "server_message list \<Rightarrow> bytes \<Rightarrow> bool \<times> bytes" where
  "queue_each [] out = (True, out)"
| "queue_each (m # ms) out = (case write_framed encode_server out m of
     Inl e \<Rightarrow> (False, out)
   | Inr out' \<Rightarrow> queue_each ms out')"

definition queue_frames :: "server_message list \<Rightarrow> ipc_client \<Rightarrow> bool \<times> ipc_client" where
  "queue_frames msgs c = (case queue_each msgs (out_bytes c) of
     (False, out) \<Rightarrow> (False, c\<lparr> out_bytes := out \<rparr>)
   | (True, out) \<Rightarrow> (case client_flush_out (c\<lparr> out_bytes := out \<rparr>) of (r, c') \<Rightarrow> (r \<noteq> None, c')))"

section \<open>Reading requests\<close>

text \<open>\<open>trim_end_matches(['\<bslash>n', '\<bslash>r'])\<close>.\<close>

definition trim_end :: "bytes \<Rightarrow> bytes" where
  "trim_end line = rev (dropWhile (\<lambda>b. b = newline \<or> b = 13) (rev line))"

text \<open>What \<open>handle_readable\<close> finds next: to wait for more, a reason to answer with an error and hang up, a request.\<close>

datatype 'r pulled = Wait | TooLong | NotUtf8 | BadJson | Extra | Request 'r

definition pull_line :: "ipc_client \<Rightarrow> bytes option \<times> ipc_client" where
  "pull_line c = (case position (\<lambda>b. b = newline) (drop (scanned c) (read_buf c)) of
     None \<Rightarrow> (None, c\<lparr> scanned := length (read_buf c) \<rparr>)
   | Some nl \<Rightarrow> (Some (take (Suc (scanned c + nl)) (read_buf c)),
                  c\<lparr> read_buf := drop (Suc (scanned c + nl)) (read_buf c), scanned := 0 \<rparr>))"

lemma pull_line_shorter:
  assumes "pull_line c = (Some line, c')"
  shows "length (read_buf c') < length (read_buf c)"
proof -
  from assms obtain nl where "position (\<lambda>b. b = newline) (drop (scanned c) (read_buf c)) = Some nl"
    and "c' = c\<lparr> read_buf := drop (Suc (scanned c + nl)) (read_buf c), scanned := 0 \<rparr>"
    by (auto simp: pull_line_def split: option.splits)
  with position_SomeD [of "\<lambda>b. b = newline" "drop (scanned c) (read_buf c)" nl] show ?thesis by auto
qed

function pull :: "(bytes \<Rightarrow> 'r option) \<Rightarrow> ipc_client \<Rightarrow> 'r pulled \<times> ipc_client" where
  "pull parse c = (case pull_line c of
     (None, c') \<Rightarrow> (if length (read_buf c') \<le> MAX_REQUEST_LEN then Wait else TooLong, c')
   | (Some line, c') \<Rightarrow>
       if \<not> valid_utf8 line then (NotUtf8, c')
       else if trim_end line = [] then pull parse c'
       else (case parse (trim_end line) of
           None \<Rightarrow> (BadJson, c')
         | Some r \<Rightarrow> (if spent c' then Extra else Request r, c')))"
  by pat_completeness auto
termination
  by (relation "measure (\<lambda>(parse, c). length (read_buf c))") (auto dest: pull_line_shorter [OF sym])

declare pull.simps [simp del]

text \<open>
  \<open>handle_readable\<close> up to the dispatch of a request: \<open>None\<close> when there is nothing to do (keep the
  connection, or drop it), and whether the connection is dropped when there is no request.
\<close>

definition handle_readable ::
    "(bytes \<Rightarrow> 'r option) \<Rightarrow> ('r pulled \<Rightarrow> bytes) \<Rightarrow> ipc_client \<Rightarrow> read_result \<Rightarrow> ('r option \<times> bool) \<times> ipc_client" where
  "handle_readable parse complaint c got = (case got of
     ReadEof \<Rightarrow> ((None, True), c)
   | ReadWouldBlock \<Rightarrow> ((None, False), c)
   | ReadInterrupted \<Rightarrow> ((None, True), c)
   | ReadFailed \<Rightarrow> ((None, True), c)
   | Got bs \<Rightarrow> (case pull parse (c\<lparr> read_buf := read_buf c @ bs \<rparr>) of
         (Wait, c') \<Rightarrow> ((None, False), c')
       | (Extra, c') \<Rightarrow> ((None, True), c')
       | (Request r, c') \<Rightarrow> ((Some r, False), c')
       | (p, c') \<Rightarrow> ((None, True), snd (write_response (complaint p) c'))))"

section \<open>What goes out is what was queued\<close>

text \<open>Everything queued on the connection so far: what the socket took and what still waits.\<close>

definition stream :: "ipc_client \<Rightarrow> bytes" where
  "stream c = taken c @ drop (out_pos c) (out_bytes c)"

definition out_ok :: "ipc_client \<Rightarrow> bool" where
  "out_ok c \<longleftrightarrow> out_pos c \<le> length (out_bytes c)"

text \<open>The fields a write leaves alone.\<close>

definition same_input :: "ipc_client \<Rightarrow> ipc_client \<Rightarrow> bool" where
  "same_input c c' \<longleftrightarrow> read_buf c' = read_buf c \<and> scanned c' = scanned c \<and> subscriber c' = subscriber c \<and>
     is_capture c' = is_capture c"

lemma same_input_refl [simp]: "same_input c c"
  by (simp add: same_input_def)

lemma same_input_trans: "same_input c c' \<Longrightarrow> same_input c' c'' \<Longrightarrow> same_input c c''"
  by (simp add: same_input_def)

lemma flush_loop_stream:
  "client_flush_loop ws c = (r, c') \<Longrightarrow> out_ok c \<Longrightarrow>
   stream c' = stream c \<and> out_ok c' \<and> same_input c c' \<and> spent c' = spent c \<and>
   wants_flush c' = wants_flush c \<and> (r = Some True \<longrightarrow> out_bytes c' = [])"
proof (induction ws c rule: client_flush_loop.induct)
  case (1 c)
  then show ?case by (auto simp: stream_def out_ok_def same_input_def split: if_splits)
next
  case (2 w ws c)
  show ?case
  proof (cases "out_pos c < length (out_bytes c)")
    case False
    with 2(3,4) show ?thesis by (auto simp: stream_def out_ok_def same_input_def)
  next
    case True
    show ?thesis
    proof (cases w)
      case (Wrote k)
      let ?n = "min k (length (out_bytes c) - out_pos c)"
      let ?d = "c\<lparr> taken := taken c @ take ?n (drop (out_pos c) (out_bytes c)), out_pos := out_pos c + ?n \<rparr>"
      show ?thesis
      proof (cases "k = 0")
        case True
        with \<open>out_pos c < length (out_bytes c)\<close> Wrote 2(3,4) show ?thesis
          by (auto simp: stream_def out_ok_def same_input_def)
      next
        case False
        have s: "stream ?d = stream c"
          by (simp add: stream_def add.commute [of "out_pos c"] append_take_drop_id flip: drop_drop)
        moreover have "out_ok ?d" using True by (simp add: out_ok_def)
        moreover have "client_flush_loop ws ?d = (r, c')" using True False Wrote 2(3) by (simp add: Let_def)
        ultimately show ?thesis
          using 2(1) [of k ?n] True False Wrote by (auto simp: same_input_def)
      qed
    next
      case WriteInterrupted
      with True 2 show ?thesis by (simp add: same_input_def)
    next
      case WriteWouldBlock
      with True 2(3,4) show ?thesis by (auto simp: stream_def out_ok_def same_input_def)
    next
      case WriteFailed
      with True 2(3,4) show ?thesis by (auto simp: stream_def out_ok_def same_input_def)
    qed
  qed
qed

lemma send_line_stream:
  assumes "send_line line c = (ok, c')" "out_ok c"
  shows "stream c' = stream c @ line @ [newline] \<and> out_ok c' \<and> same_input c c' \<and> spent c' = spent c"
proof -
  let ?q = "c\<lparr> out_bytes := out_bytes c @ line @ [newline] \<rparr>"
  obtain r d where d: "client_flush_out ?q = (r, d)" by fastforce
  from assms d have c': "c' = d \<or> c' = d\<lparr> wants_flush := True \<rparr>"
    by (auto simp: send_line_def split: option.splits)
  have q: "out_ok ?q" "stream ?q = stream c @ line @ [newline]" "same_input c ?q" "spent ?q = spent c"
    using assms(2) by (simp_all add: out_ok_def stream_def same_input_def)
  from flush_loop_stream [OF d [unfolded client_flush_out_def] q(1)]
  have f: "stream d = stream ?q" "out_ok d" "same_input ?q d" "spent d = spent ?q" by blast+
  have "stream c' = stream d" "out_ok c' = out_ok d" "same_input d c'" "spent c' = spent d"
    using c' by (auto simp: stream_def out_ok_def same_input_def)
  with q f show ?thesis by (metis same_input_trans)
qed

lemma send_subscribed_stream:
  assumes "send_subscribed line c = (ok, c')" "out_ok c"
  shows "out_ok c' \<and> same_input c c' \<and> spent c' = spent c \<and>
    (ok \<longrightarrow> stream c' = stream c @ line @ [newline] \<and> backlog_len c' \<le> SUBSCRIBER_BACKLOG)"
proof -
  obtain s d where d: "send_line line c = (s, d)" by fastforce
  from send_line_stream [OF d assms(2)]
  have f: "stream d = stream c @ line @ [newline]" "out_ok d" "same_input c d" "spent d = spent c" by blast+
  from assms(1) d consider "ok" "c' = d" "backlog_len d \<le> SUBSCRIBER_BACKLOG"
    | "\<not> ok" "c' = d" | "\<not> ok" "c' = d\<lparr> out_bytes := [], out_pos := 0 \<rparr>"
    by (auto simp: send_subscribed_def split: bool.splits if_splits)
  then show ?thesis using f by cases (simp_all add: out_ok_def same_input_def)
qed

lemma write_response_stream:
  assumes "write_response line c = (ok, c')" "out_ok c"
  shows "stream c' = stream c @ line @ [newline] \<and> out_ok c' \<and> same_input c c' \<and> (if ok then spent c' else spent c' = spent c)"
proof -
  obtain s d where d: "send_line line c = (s, d)" by fastforce
  from send_line_stream [OF d assms(2)]
  have f: "stream d = stream c @ line @ [newline]" "out_ok d" "same_input c d" "spent d = spent c" by blast+
  from assms(1) d consider "ok" "c' = d\<lparr> spent := True \<rparr>" | "\<not> ok" "c' = d"
    by (auto simp: write_response_def split: bool.splits)
  then show ?thesis using f by cases (simp_all add: out_ok_def same_input_def stream_def)
qed

section \<open>Requests do not depend on how they were cut\<close>

text \<open>The first thing in a stream of bytes, read as a whole: what it is, and the bytes after it.\<close>

function first_request :: "(bytes \<Rightarrow> 'r option) \<Rightarrow> bool \<Rightarrow> bytes \<Rightarrow> ('r pulled \<times> bytes) option" where
  "first_request parse answered s = (case position (\<lambda>b. b = newline) s of
     None \<Rightarrow> None
   | Some n \<Rightarrow> (let line = take (Suc n) s; rest = drop (Suc n) s in
       if \<not> valid_utf8 line then Some (NotUtf8, rest)
       else if trim_end line = [] then first_request parse answered rest
       else (case parse (trim_end line) of
           None \<Rightarrow> Some (BadJson, rest)
         | Some r \<Rightarrow> Some (if answered then Extra else Request r, rest))))"
  by pat_completeness auto
termination
  by (relation "measure (\<lambda>(parse, answered, s). length s)") (auto dest!: position_SomeD)

declare first_request.simps [simp del]

text \<open>Reads, one after the other, until one finds something: what, with the reads not made yet.\<close>

fun read_requests ::
    "(bytes \<Rightarrow> 'r option) \<Rightarrow> ipc_client \<Rightarrow> bytes list \<Rightarrow> 'r pulled \<times> ipc_client \<times> bytes list" where
  "read_requests parse c [] = (Wait, c, [])"
| "read_requests parse c (bs # bss) = (case pull parse (c\<lparr> read_buf := read_buf c @ bs \<rparr>) of
     (Wait, c') \<Rightarrow> read_requests parse c' bss
   | (p, c') \<Rightarrow> (p, c', bss))"

text \<open>No newline is in what was scanned.\<close>

definition scan_ok :: "ipc_client \<Rightarrow> bool" where
  "scan_ok c \<longleftrightarrow> scanned c \<le> length (read_buf c) \<and> newline \<notin> set (take (scanned c) (read_buf c))"

lemma position_over_append:
  "position p (xs @ ys) = (case position p xs of
     Some i \<Rightarrow> Some i
   | None \<Rightarrow> map_option ((+) (length xs)) (position p ys))"
proof (induction xs)
  case Nil
  show ?case by (cases "position p ys") simp_all
next
  case (Cons x xs)
  then show ?case by (cases "position p xs"; cases "position p ys") simp_all
qed

lemma position_skip:
  assumes "n \<le> length s" "\<forall>b\<in>set (take n s). \<not> p b"
  shows "position p s = map_option ((+) n) (position p (drop n s))"
  using position_over_append [of p "take n s" "drop n s"] assms position_None [of p "take n s"]
  by (simp add: min_absorb2)

lemma pull_line_position:
  assumes "scan_ok c"
  shows "pull_line c = (case position (\<lambda>b. b = newline) (read_buf c) of
     None \<Rightarrow> (None, c\<lparr> scanned := length (read_buf c) \<rparr>)
   | Some n \<Rightarrow> (Some (take (Suc n) (read_buf c)), c\<lparr> read_buf := drop (Suc n) (read_buf c), scanned := 0 \<rparr>))"
proof -
  have "\<forall>b\<in>set (take (scanned c) (read_buf c)). \<not> b = newline" using assms by (auto simp: scan_ok_def)
  from position_skip [OF _ this] assms show ?thesis
    by (cases "position (\<lambda>b. b = newline) (drop (scanned c) (read_buf c))")
       (simp_all add: pull_line_def scan_ok_def)
qed

text \<open>Once no newline is in sight the scan is over, and what comes later is looked at alone.\<close>

lemma pull_first_request:
  "pull parse c = (p, c') \<Longrightarrow> scan_ok c \<Longrightarrow>
   scan_ok c' \<and> spent c' = spent c \<and>
   (p = Wait \<or> p = TooLong \<longrightarrow>
      (\<forall>s. first_request parse (spent c) (read_buf c @ s) = first_request parse (spent c) (read_buf c' @ s)) \<and>
      newline \<notin> set (read_buf c') \<and> (p = Wait \<longleftrightarrow> length (read_buf c') \<le> MAX_REQUEST_LEN)) \<and>
   (p \<noteq> Wait \<and> p \<noteq> TooLong \<longrightarrow>
      (\<forall>s. first_request parse (spent c) (read_buf c @ s) = Some (p, read_buf c' @ s)))"
proof (induction parse c rule: pull.induct)
  case (1 parse c)
  note pl = pull_line_position [OF \<open>scan_ok c\<close>]
  show ?case
  proof (cases "position (\<lambda>b. b = newline) (read_buf c)")
    case None
    then have "newline \<notin> set (read_buf c)" by (auto simp: position_None)
    with 1(2,3) None show ?thesis
      by (auto simp: pull.simps [of parse c] pl scan_ok_def split: if_splits)
  next
    case (Some n)
    let ?line = "take (Suc n) (read_buf c)"
    let ?d = "c\<lparr> read_buf := drop (Suc n) (read_buf c), scanned := 0 \<rparr>"
    have pl: "pull_line c = (Some ?line, ?d)" using Some pl by simp
    have ok: "scan_ok ?d" by (simp add: scan_ok_def)
    have n: "n < length (read_buf c)" using position_SomeD [OF Some] by simp
    have fr: "first_request parse (spent c) (read_buf c @ s) =
       (if \<not> valid_utf8 ?line then Some (NotUtf8, read_buf ?d @ s)
        else if trim_end ?line = [] then first_request parse (spent c) (read_buf ?d @ s)
        else (case parse (trim_end ?line) of
           None \<Rightarrow> Some (BadJson, read_buf ?d @ s)
         | Some r \<Rightarrow> Some (if spent c then Extra else Request r, read_buf ?d @ s)))" for s
      using Some n by (subst first_request.simps) (simp add: position_over_append Let_def split: option.split)
    show ?thesis
    proof (cases "valid_utf8 ?line \<and> trim_end ?line = []")
      case True
      with 1(2) pl have "pull parse ?d = (p, c')" by (simp add: pull.simps [of parse c])
      with 1(1) [OF pl [symmetric] refl _ _ _ ok] True fr show ?thesis by simp
    next
      case False
      with 1(2) pl fr ok show ?thesis
        by (auto simp: pull.simps [of parse c] split: if_splits option.splits)
    qed
  qed
qed

lemma first_request_none: "newline \<notin> set s \<Longrightarrow> first_request parse answered s = None"
proof -
  assume "newline \<notin> set s"
  then have "position (\<lambda>b. b = newline) s = None" by (auto simp: position_None)
  then show ?thesis by (simp add: first_request.simps)
qed

text \<open>C22. However the bytes a client sends are cut into reads, the request found, or the
  reason to hang up, is the one of the whole byte stream read in one piece, with the same bytes left
  after it; when no read finds anything there is nothing in the stream. The only exception is a
  connection dropped because more than \<open>MAX_REQUEST_LEN\<close> bytes came without a newline, and then
  there really are that many. The cached position up to which the buffer was searched is never
  noticed.\<close>

theorem requests_do_not_depend_on_reads:
  assumes "scan_ok c" and "read_requests parse c bss = (p, c', rest)"
  shows "scan_ok c' \<and>
    (case p of
       Wait \<Rightarrow> rest = [] \<and> (newline \<notin> set (read_buf c) \<or> bss \<noteq> [] \<longrightarrow>
         first_request parse (spent c) (read_buf c @ concat bss) = None)
     | TooLong \<Rightarrow> newline \<notin> set (read_buf c') \<and> MAX_REQUEST_LEN < length (read_buf c')
     | _ \<Rightarrow> first_request parse (spent c) (read_buf c @ concat bss) = Some (p, read_buf c' @ concat rest))"
  using assms
proof (induction parse c bss rule: read_requests.induct)
  case (1 parse c)
  then show ?case by (auto simp: first_request_none)
next
  case (2 parse c bs bss)
  let ?d = "c\<lparr> read_buf := read_buf c @ bs \<rparr>"
  have ok: "scan_ok ?d" using 2(2) by (auto simp: scan_ok_def)
  obtain q d where q: "pull parse ?d = (q, d)" by fastforce
  note pf = pull_first_request [OF q ok]
  show ?case
  proof (cases "q = Wait")
    case True
    from pf True have d: "scan_ok d" "spent d = spent c" "newline \<notin> set (read_buf d)"
      "\<And>s. first_request parse (spent c) (read_buf c @ bs @ s) = first_request parse (spent c) (read_buf d @ s)"
      by auto
    from 2(3) q True have "read_requests parse d bss = (p, c', rest)" by simp
    from 2(1) [OF q [symmetric] True d(1) this] d show ?thesis by (cases p) auto
  next
    case False
    with 2(3) q have "p = q" "c' = d" "rest = bss" by (auto split: pulled.splits)
    with pf False show ?thesis by (cases q) auto
  qed
qed

definition parse_one :: "bytes \<Rightarrow> nat option" where
  "parse_one line = (if line = [65] then Some 1 else None)"

theorem requests_do_not_depend_on_reads_witness:
  "first_request parse_one False [10, 65, 13, 10, 66] = Some (Request 1, [66])"
proof -
  let ?c = "new_client []"
  have u: "valid_utf8 [10]" "valid_utf8 [65, 13, 10]" "trim_end [10] = []" "trim_end [65, 13, 10] = [65]"
    by (simp_all add: trim_end_def)
  have a: "pull parse_one (?c\<lparr> read_buf := [10, 65] \<rparr>) = (Wait, ?c\<lparr> read_buf := [65], scanned := 1 \<rparr>)"
    using u by (simp add: pull.simps [of parse_one] pull_line_def new_client_def MAX_REQUEST_LEN_def)
  have b: "pull parse_one (?c\<lparr> read_buf := [65, 13, 10], scanned := 1 \<rparr>) =
      (Request 1, ?c\<lparr> read_buf := [], scanned := 0 \<rparr>)"
    using u by (simp add: pull.simps [of parse_one] pull_line_def new_client_def parse_one_def)
  have "read_requests parse_one ?c [[10, 65], [13, 10], [66]] = (Request 1, ?c\<lparr> read_buf := [], scanned := 0 \<rparr>, [[66]])"
    using a b by (simp add: new_client_def)
  from requests_do_not_depend_on_reads [OF _ this] show ?thesis
    by (simp add: scan_ok_def new_client_def)
qed

end
