(* ===== verification/MachineAxis.thy ===== *)
theory MachineAxis
  imports Ipc "HOL-Library.Log_Nat"
begin

text \<open>
  The machine axis, the viewer-box half of remote desktop: the remote machines that registered
  with the window manager, the one in view, and where captured input goes (\<open>src/remote.rs\<close>, the
  captured-input arms of \<open>src/input.rs\<close>), with the control socket they hang on (\<open>emit_ipc\<close>,
  \<open>drop_ipc_client\<close>, the requests and the write-ready sources of \<open>src/ipc.rs\<close>) and the viewer's end of
  it (\<open>crates/shoestring-remote-client/src/wm.rs\<close>). What the end of the registered server's own connection
  does to the gates is \<open>drop_remote_server\<close> of \<open>Gates\<close>, and is not repeated here. An event that cannot be written drops its
  subscriber, which may take a machine off the axis, which is another event: the recursion is
  modelled with fuel, and shown to end. \<open>json\<close> stands for \<open>serde_json::to_string\<close>.
\<close>

section \<open>State\<close>

datatype ipc_event =
    EvViewChanged u8 "string option"
  | EvCaptured raw_input
  | EvRemoteClipboard clipboard_op
  | EvOther nat

record machine =
  client_id :: nat
  label :: string
  width :: u32
  height :: u32

text \<open>
  The window manager: connections by id (the order in which the code's map is walked is not
  specified, here it is the list's), those that only finish their reply, what is parked on a
  connection (the window picker, waits and probes, a drag), and the axis.
\<close>

datatype parked_kind = Picker | WaitOrProbe | Dragging

record wm =
  clients :: "(nat \<times> ipc_client) list"
  lingering :: "(nat \<times> ipc_client) list"
  next_id :: nat
  parked :: "(nat \<times> parked_kind) list"
  remote_clients :: "machine list"
  view_index :: u8
  remote_pointer :: "f64 \<times> f64"
  wm_locked :: bool

type_synonym emitter = "ipc_event \<Rightarrow> wm \<Rightarrow> wm option"

section \<open>The axis\<close>

definition view_after_removal :: "u8 \<Rightarrow> u8 \<Rightarrow> u8" where
  "view_after_removal view removed =
    (if view = removed then 0 else if removed < view then view - 1 else view)"

definition machine_at :: "wm \<Rightarrow> machine option" where
  "machine_at w = (let i = unat (view_index w) - 1 in
     if i < length (remote_clients w) then Some (remote_clients w ! i) else None)"

definition captured_client :: "wm \<Rightarrow> nat option" where
  "captured_client w = (if view_index w = 0 \<or> wm_locked w then None else map_option client_id (machine_at w))"

definition active_machine :: "wm \<Rightarrow> machine option" where
  "active_machine w = (if view_index w = 0 then None else machine_at w)"

definition active_machine_label :: "wm \<Rightarrow> string option" where
  "active_machine_label w = map_option label (active_machine w)"

definition machine_entries :: "wm \<Rightarrow> (u8 \<times> string) list" where
  "machine_entries w = map (\<lambda>(i, c). (word_of_nat i + 1, label c)) (enumerate 0 (remote_clients w))"

text \<open>The bits of \<open>w as f64 / 2.0\<close>, which is exact: \<open>w = 2\<^sup>k + r\<close> with \<open>r < 2\<^sup>k\<close> has exponent \<open>k\<close>.\<close>

definition half_f64 :: "u32 \<Rightarrow> f64" where
  "half_f64 w = (if w = 0 then 0 else
     let k = floorlog 2 (unat w) - 1 in
     word_of_nat ((1022 + k) * 2 ^ 52 + (unat w - 2 ^ k) * 2 ^ (52 - k)))"

definition set_view :: "emitter \<Rightarrow> u8 \<Rightarrow> wm \<Rightarrow> wm option" where
  "set_view emit index w =
    (let most = word_of_nat (length (remote_clients w)); target = min index most in
     if target = view_index w then Some w
     else
       (let w1 = w\<lparr> view_index := target \<rparr>;
            w2 = (case active_machine w1 of
                Some c \<Rightarrow> w1\<lparr> remote_pointer := (half_f64 (width c), half_f64 (height c)) \<rparr>
              | None \<Rightarrow> w1)
        in emit (EvViewChanged target (active_machine_label w2)) w2))"

definition focus_machine_relative :: "emitter \<Rightarrow> u8 \<Rightarrow> wm \<Rightarrow> wm option" where
  "focus_machine_relative emit delta w =
    (let most = sint (word_of_nat (length (remote_clients w)) :: 32 word);
         target = word_of_int (max 0 (min most (uint (view_index w) + sint delta)))
     in set_view emit target w)"

definition drop_remote_client :: "emitter \<Rightarrow> nat \<Rightarrow> wm \<Rightarrow> (bool \<times> wm) option" where
  "drop_remote_client emit i w =
    (case position (\<lambda>c. client_id c = i) (remote_clients w) of
       None \<Rightarrow> Some (False, w)
     | Some ix \<Rightarrow>
         (let w1 = w\<lparr> remote_clients := remove_at ix (remote_clients w) \<rparr>;
              new_view = view_after_removal (view_index w1) (word_of_nat ix + 1)
          in map_option (Pair True) (if new_view \<noteq> view_index w1 then set_view emit new_view w1 else Some w1)))"

section \<open>The control socket\<close>

definition push_event_to :: "(ipc_event \<Rightarrow> bytes) \<Rightarrow> nat \<Rightarrow> ipc_event \<Rightarrow> wm \<Rightarrow> wm" where
  "push_event_to json i ev w =
    w\<lparr> clients := map (\<lambda>(j, c). (j, if j = i then snd (send_line (json ev) c) else c)) (clients w) \<rparr>"

text \<open>The loop of \<open>emit_ipc\<close>: the connections, and those to drop.\<close>

fun push_all :: "bytes \<Rightarrow> (nat \<times> ipc_client) list \<Rightarrow> (nat \<times> ipc_client) list \<times> nat list" where
  "push_all line [] = ([], [])"
| "push_all line ((i, c) # cs) =
    (let (cs', to_drop) = push_all line cs in
     if \<not> subscriber c then ((i, c) # cs', to_drop)
     else (case send_subscribed line c of
         (True, c') \<Rightarrow> ((i, c') # cs', to_drop)
       | (False, c') \<Rightarrow> ((i, c') # cs', i # to_drop)))"

text \<open>Taking the connection out of the map; it lingers when the last reply is still going out.\<close>

definition remove_connection :: "nat \<Rightarrow> wm \<Rightarrow> wm" where
  "remove_connection i w =
    (case map_of (clients w) i of
       None \<Rightarrow> w
     | Some c \<Rightarrow>
         w\<lparr> clients := filter (\<lambda>(j, _). j \<noteq> i) (clients w),
            lingering := (if 0 < backlog_len c \<and> \<not> is_capture c
              then (i, c) # filter (\<lambda>(j, _). j \<noteq> i) (lingering w) else lingering w) \<rparr>)"

definition drop_ipc_client :: "emitter \<Rightarrow> nat \<Rightarrow> wm \<Rightarrow> wm option" where
  "drop_ipc_client emit i w =
    map_option snd (drop_remote_client emit i
      (remove_connection i (w\<lparr> parked := filter (\<lambda>(j, _). j \<noteq> i) (parked w) \<rparr>)))"

fun drop_each :: "emitter \<Rightarrow> nat list \<Rightarrow> wm \<Rightarrow> wm option" where
  "drop_each emit [] w = Some w"
| "drop_each emit (i # is) w = Option.bind (drop_ipc_client emit i w) (drop_each emit is)"

fun emit_fuel :: "nat \<Rightarrow> (ipc_event \<Rightarrow> bytes) \<Rightarrow> emitter" where
  "emit_fuel 0 json ev w = None"
| "emit_fuel (Suc k) json ev w =
    (let (cs, to_drop) = push_all (json ev) (clients w)
     in drop_each (emit_fuel k json) to_drop (w\<lparr> clients := cs \<rparr>))"

text \<open>One call within another drops at least one connection first.\<close>

definition emit_event :: "(ipc_event \<Rightarrow> bytes) \<Rightarrow> emitter" where
  "emit_event json ev w = emit_fuel (Suc (length (clients w))) json ev w"

definition accept_client :: "write_result list \<Rightarrow> wm \<Rightarrow> wm" where
  "accept_client sock w = w\<lparr> clients := clients w @ [(next_id w, new_client sock)], next_id := next_id w + 1 \<rparr>"

text \<open>Replying on a connection; a connection that is gone has its handle still, but no effect here.\<close>

definition reply :: "nat \<Rightarrow> bytes \<Rightarrow> wm \<Rightarrow> wm" where
  "reply i line w =
    w\<lparr> clients := map (\<lambda>(j, c). (j, if j = i then snd (write_response line c) else c)) (clients w) \<rparr>"

definition subscribe :: "nat \<Rightarrow> wm \<Rightarrow> wm" where
  "subscribe i w =
    w\<lparr> clients := map (\<lambda>(j, c). (j, if j = i then c\<lparr> subscriber := True \<rparr> else c)) (clients w) \<rparr>"

text \<open>The arms of \<open>dispatch_remote\<close>; \<open>json_reply\<close> encodes \<open>Response::RemoteClients\<close>. With whether the connection is to be dropped.\<close>

type_synonym reply_encoder = "(u8 \<times> string) list \<Rightarrow> u8 \<Rightarrow> bytes"

definition register_remote_client :: "reply_encoder \<Rightarrow> nat \<Rightarrow> string \<Rightarrow> u32 \<Rightarrow> u32 \<Rightarrow> wm \<Rightarrow> wm \<times> bool" where
  "register_remote_client json_reply i lbl wd ht w =
    (let w1 = w\<lparr> remote_clients := remote_clients w @ [\<lparr> client_id = i, label = lbl, width = wd, height = ht \<rparr>] \<rparr>;
         w2 = subscribe i w1
     in (reply i (json_reply (machine_entries w2) (view_index w2)) w2, False))"

definition remote_client_status :: "reply_encoder \<Rightarrow> nat \<Rightarrow> wm \<Rightarrow> wm \<times> bool" where
  "remote_client_status json_reply i w = (reply i (json_reply (machine_entries w) (view_index w)) w, True)"

definition request_set_view :: "emitter \<Rightarrow> reply_encoder \<Rightarrow> nat \<Rightarrow> u8 \<Rightarrow> wm \<Rightarrow> (wm \<times> bool) option" where
  "request_set_view emit json_reply i index w =
    map_option (\<lambda>w1. (reply i (json_reply (machine_entries w1) (view_index w1)) w1, True)) (set_view emit index w)"

text \<open>\<open>flush_ipc_client\<close>, from a write-ready source, and the timer of a connection that lingers for \<open>idle\<close> seconds.\<close>

definition set_client :: "nat \<Rightarrow> ipc_client \<Rightarrow> (nat \<times> ipc_client) list \<Rightarrow> (nat \<times> ipc_client) list" where
  "set_client i c' cs = map (\<lambda>(j, c). (j, if j = i then c' else c)) cs"

definition flush_ipc_client :: "emitter \<Rightarrow> nat \<Rightarrow> wm \<Rightarrow> wm option" where
  "flush_ipc_client emit i w = (case map_of (clients w) i of
     Some c \<Rightarrow> (case client_flush_out c of
         (Some False, c') \<Rightarrow> Some (w\<lparr> clients := set_client i c' (clients w) \<rparr>)
       | (Some True, c') \<Rightarrow> Some (w\<lparr> clients := set_client i (c'\<lparr> wants_flush := False \<rparr>) (clients w) \<rparr>)
       | (None, c') \<Rightarrow>
           drop_ipc_client emit i (w\<lparr> clients := set_client i (c'\<lparr> out_bytes := [], out_pos := 0 \<rparr>) (clients w) \<rparr>))
   | None \<Rightarrow> (case map_of (lingering w) i of
         None \<Rightarrow> Some w
       | Some c \<Rightarrow> (case client_flush_out c of
           (Some False, c') \<Rightarrow> Some (w\<lparr> lingering := set_client i c' (lingering w) \<rparr>)
         | _ \<Rightarrow> Some (w\<lparr> lingering := filter (\<lambda>(j, _). j \<noteq> i) (lingering w) \<rparr>))))"

definition LINGER_TIMEOUT :: nat where "LINGER_TIMEOUT = 30"

definition check_ipc_linger :: "nat \<Rightarrow> nat \<Rightarrow> wm \<Rightarrow> wm" where
  "check_ipc_linger idle i w =
    (if idle < LINGER_TIMEOUT then w else w\<lparr> lingering := filter (\<lambda>(j, _). j \<noteq> i) (lingering w) \<rparr>)"

section \<open>Captured input\<close>

datatype axis_action =
    FocusMachineRelative u8
  | RemoteBreakout
  | Screenshot
  | ClipboardPush
  | ClipboardPull
  | OtherAction nat

definition forward_captured :: "(ipc_event \<Rightarrow> bytes) \<Rightarrow> nat \<Rightarrow> raw_input \<Rightarrow> wm \<Rightarrow> wm" where
  "forward_captured json i event w = push_event_to json i (EvCaptured event) w"

definition forward_clipboard :: "(ipc_event \<Rightarrow> bytes) \<Rightarrow> clipboard_op \<Rightarrow> wm \<Rightarrow> wm" where
  "forward_clipboard json op w = (case captured_client w of
     None \<Rightarrow> w
   | Some i \<Rightarrow> push_event_to json i (EvRemoteClipboard op) w)"

text \<open>
  \<open>dispatch_action\<close> on what \<open>handle_captured_key\<close> keeps local; a screenshot starts another program.
\<close>

definition dispatch_axis_action :: "emitter \<Rightarrow> (ipc_event \<Rightarrow> bytes) \<Rightarrow> axis_action \<Rightarrow> wm \<Rightarrow> wm option" where
  "dispatch_axis_action emit json a w = (case a of
     FocusMachineRelative delta \<Rightarrow> focus_machine_relative emit delta w
   | RemoteBreakout \<Rightarrow> set_view emit 0 w
   | Screenshot \<Rightarrow> Some w
   | ClipboardPush \<Rightarrow> Some (forward_clipboard json Push w)
   | ClipboardPull \<Rightarrow> Some (forward_clipboard json Pull w)
   | OtherAction n \<Rightarrow> Some w)"

fun stays_local :: "axis_action option \<Rightarrow> bool" where
  "stays_local (Some (OtherAction n)) = False"
| "stays_local (Some a) = True"
| "stays_local None = False"

text \<open>\<open>bound\<close> is the action the key's symbol and modifiers are bound to; a key's evdev code is 8 less.\<close>

definition handle_captured_key ::
    "emitter \<Rightarrow> (ipc_event \<Rightarrow> bytes) \<Rightarrow> axis_action option \<Rightarrow> nat \<Rightarrow> u32 \<Rightarrow> bool \<Rightarrow> wm \<Rightarrow> wm option" where
  "handle_captured_key emit json bound target key pressed w =
    (if stays_local bound
     then (if pressed then dispatch_axis_action emit json (the bound) w else Some w)
     else Some (forward_captured json target (RawKey (if key < 8 then 0 else key - 8) pressed) w))"

datatype fate = ToPicker | ToRemote | ToLocal

text \<open>
  \<open>process_key\<close>, and the captured arms of the pointer handlers. \<open>move\<close> is the handler's float
  arithmetic: the pointer after the event, from the machine's size and the pointer before it.
\<close>

definition picker_pending :: "wm \<Rightarrow> bool" where
  "picker_pending w \<longleftrightarrow> Picker \<in> snd ` set (parked w)"

definition process_key ::
    "emitter \<Rightarrow> (ipc_event \<Rightarrow> bytes) \<Rightarrow> axis_action option \<Rightarrow> u32 \<Rightarrow> bool \<Rightarrow> wm \<Rightarrow> (fate \<times> wm) option" where
  "process_key emit json bound key pressed w =
    (if picker_pending w then Some (ToPicker, w)
     else (case captured_client w of
         Some target \<Rightarrow> map_option (Pair ToRemote) (handle_captured_key emit json bound target key pressed w)
       | None \<Rightarrow> Some (ToLocal, w)))"

definition process_button :: "(ipc_event \<Rightarrow> bytes) \<Rightarrow> u32 \<Rightarrow> bool \<Rightarrow> wm \<Rightarrow> fate \<times> wm" where
  "process_button json button pressed w = (case captured_client w of
     Some target \<Rightarrow> (ToRemote, forward_captured json target (RawButton button pressed) w)
   | None \<Rightarrow> (if picker_pending w then ToPicker else ToLocal, w))"

definition pointer_motion ::
    "(ipc_event \<Rightarrow> bytes) \<Rightarrow> (u32 \<times> u32 \<Rightarrow> f64 \<times> f64 \<Rightarrow> f64 \<times> f64) \<Rightarrow> wm \<Rightarrow> fate \<times> wm" where
  "pointer_motion json move w = (case captured_client w of
     Some target \<Rightarrow> (ToRemote, (case active_machine w of
         None \<Rightarrow> w
       | Some c \<Rightarrow> (let p = move (width c, height c) (remote_pointer w)
           in forward_captured json target (RawMotion (fst p) (snd p)) (w\<lparr> remote_pointer := p \<rparr>))))
   | None \<Rightarrow> (ToLocal, w))"

definition pointer_axis :: "(ipc_event \<Rightarrow> bytes) \<Rightarrow> f64 \<Rightarrow> f64 \<Rightarrow> (f64 \<times> f64) option \<Rightarrow> wm \<Rightarrow> fate \<times> wm" where
  "pointer_axis json horizontal vertical wheel w = (case captured_client w of
     Some target \<Rightarrow> (ToRemote, forward_captured json target (RawAxis horizontal vertical wheel) w)
   | None \<Rightarrow> (ToLocal, w))"

section \<open>The viewer's end of the socket\<close>

text \<open>\<open>Wm::register\<close>: the viewer's index is that of the last machine in the reply, for good.\<close>

definition registered_index :: "(u8 \<times> string) list \<Rightarrow> u8 option" where
  "registered_index machines = (if machines = [] then None else Some (fst (last machines)))"

text \<open>
  \<open>drain_events\<close>: whole lines are taken off the buffer; an empty line, one that is not UTF-8
  and one that is no event are skipped.
\<close>

function take_events :: "(bytes \<Rightarrow> ipc_event option) \<Rightarrow> bytes \<Rightarrow> ipc_event list \<times> bytes" where
  "take_events parse pend = (case position (\<lambda>b. b = newline) pend of
     None \<Rightarrow> ([], pend)
   | Some nl \<Rightarrow> (let trimmed = take nl pend; (evs, left) = take_events parse (drop (Suc nl) pend) in
       if trimmed = [] \<or> \<not> valid_utf8 trimmed then (evs, left)
       else (case parse trimmed of Some e \<Rightarrow> (e # evs, left) | None \<Rightarrow> (evs, left))))"
  by pat_completeness auto
termination
  by (relation "measure (\<lambda>(parse, pend). length pend)") (auto dest!: position_SomeD)

declare take_events.simps [simp del]

text \<open>The reads of one call; \<open>None\<close> when the socket is closed or fails.\<close>

fun read_available :: "bytes \<Rightarrow> read_result list \<Rightarrow> bytes option" where
  "read_available pend [] = Some pend"
| "read_available pend (r # rs) = (case r of
     ReadEof \<Rightarrow> None
   | Got bs \<Rightarrow> read_available (pend @ bs) rs
   | ReadWouldBlock \<Rightarrow> Some pend
   | ReadInterrupted \<Rightarrow> read_available pend rs
   | ReadFailed \<Rightarrow> None)"

definition drain_events ::
    "(bytes \<Rightarrow> ipc_event option) \<Rightarrow> bytes \<Rightarrow> read_result list \<Rightarrow> (ipc_event list \<times> bytes) option" where
  "drain_events parse pend rs = map_option (take_events parse) (read_available pend rs)"

fun notice_of :: "ipc_event \<Rightarrow> wm_notice" where
  "notice_of (EvViewChanged i l) = ViewChanged i"
| "notice_of (EvCaptured e) = CapturedInput e"
| "notice_of (EvRemoteClipboard op) = RemoteClipboard op"
| "notice_of (EvOther n) = OtherEvent"

text \<open>The viewer hears events, each with what its clipboard and its network socket give then.\<close>

fun hear ::
    "u8 \<Rightarrow> viewer \<times> net \<Rightarrow> (ipc_event \<times> (bytes option \<times> bytes) option \<times> write_result list) list \<Rightarrow> viewer \<times> net" where
  "hear my vn [] = vn"
| "hear my vn ((ev, clip, ws) # es) = hear my (handle_wm_event (fst vn) (snd vn) my clip ws (notice_of ev)) es"

section \<open>What the window manager does, step by step\<close>

text \<open>
  \<open>answered\<close>: whether every registration gets its reply. Besides the operations above, sockets
  change what they will take, requests park connections, other events are broadcast, other
  requests are answered (at once or later) on connections that do not listen to events, and the session is locked and unlocked.
\<close>

inductive wm_step :: "(ipc_event \<Rightarrow> bytes) \<Rightarrow> reply_encoder \<Rightarrow> bool \<Rightarrow> wm \<Rightarrow> wm \<Rightarrow> bool"
  for json jr answered where
  Accept: "wm_step json jr answered w (accept_client sock w)"
| Register: "map_of (clients w) i = Some c \<Longrightarrow> \<not> spent c \<Longrightarrow>
    (answered \<Longrightarrow> map_option spent (map_of (clients (fst (register_remote_client jr i l a b w))) i) = Some True) \<Longrightarrow>
    wm_step json jr answered w (fst (register_remote_client jr i l a b w))"
| SetView: "map_of (clients w) i = Some c \<Longrightarrow> \<not> spent c \<Longrightarrow>
    request_set_view (emit_event json) jr i index w = Some (w1, True) \<Longrightarrow>
    drop_ipc_client (emit_event json) i w1 = Some w2 \<Longrightarrow> wm_step json jr answered w w2"
| Status: "map_of (clients w) i = Some c \<Longrightarrow> \<not> spent c \<Longrightarrow>
    drop_ipc_client (emit_event json) i (fst (remote_client_status jr i w)) = Some w2 \<Longrightarrow>
    wm_step json jr answered w w2"
| Reply: "map_of (clients w) i = Some c \<Longrightarrow> \<not> (spent c \<and> subscriber c) \<Longrightarrow> wm_step json jr answered w (reply i line w)"
| Subscribe: "wm_step json jr answered w (subscribe i w)"
| Key: "process_key (emit_event json) json bound key pressed w = Some (f, w') \<Longrightarrow> wm_step json jr answered w w'"
| Button: "wm_step json jr answered w (snd (process_button json button pressed w))"
| Motion: "wm_step json jr answered w (snd (pointer_motion json move w))"
| Axis: "wm_step json jr answered w (snd (pointer_axis json h v wheel w))"
| Closed: "drop_ipc_client (emit_event json) i w = Some w' \<Longrightarrow> wm_step json jr answered w w'"
| Flush: "flush_ipc_client (emit_event json) i w = Some w' \<Longrightarrow> wm_step json jr answered w w'"
| Linger: "wm_step json jr answered w (check_ipc_linger idle i w)"
| Event: "emit_event json (EvOther n) w = Some w' \<Longrightarrow> wm_step json jr answered w w'"
| Socket: "wm_step json jr answered w
    (w\<lparr> clients := map (\<lambda>(j, c). (j, if j = i then c\<lparr> socket := ws \<rparr> else c)) (clients w) \<rparr>)"
| Park: "wm_step json jr answered w (w\<lparr> parked := (i, k) # parked w \<rparr>)"
| Lock: "wm_step json jr answered w (w\<lparr> wm_locked := b \<rparr>)"

inductive wm_run :: "(ipc_event \<Rightarrow> bytes) \<Rightarrow> reply_encoder \<Rightarrow> bool \<Rightarrow> wm \<Rightarrow> wm \<Rightarrow> bool"
  for json jr answered where
  Start: "wm_run json jr answered w w"
| Step: "wm_run json jr answered w w' \<Longrightarrow> wm_step json jr answered w' w'' \<Longrightarrow> wm_run json jr answered w w''"

section \<open>Invariants\<close>

abbreviation conn_ids :: "wm \<Rightarrow> nat set" where
  "conn_ids w \<equiv> fst ` set (clients w)"

definition conns_ok :: "wm \<Rightarrow> bool" where
  "conns_ok w \<longleftrightarrow> distinct (map fst (clients w)) \<and> (\<forall>(i, c)\<in>set (clients w). i < next_id w \<and> out_ok c)"

definition axis_ok :: "wm \<Rightarrow> bool" where
  "axis_ok w \<longleftrightarrow> unat (view_index w) \<le> length (remote_clients w)"

text \<open>Every machine's connection is there, and had its reply; no connection has two machines.\<close>

definition machines_live :: "wm \<Rightarrow> bool" where
  "machines_live w \<longleftrightarrow> distinct (map client_id (remote_clients w)) \<and>
     (\<forall>m\<in>set (remote_clients w). \<exists>c. map_of (clients w) (client_id m) = Some c \<and> spent c)"

definition lines :: "(ipc_event \<Rightarrow> bytes) \<Rightarrow> ipc_event list \<Rightarrow> bytes" where
  "lines json evs = concat (map (\<lambda>e. json e @ [newline]) evs)"

fun last_view :: "u8 \<Rightarrow> ipc_event list \<Rightarrow> u8" where
  "last_view v [] = v"
| "last_view v (EvViewChanged i l # evs) = last_view i evs"
| "last_view v (_ # evs) = last_view v evs"

lemma last_view_append [simp]: "last_view v (xs @ ys) = last_view (last_view v xs) ys"
  by (induction v xs rule: last_view.induct) simp_all

lemma lines_simps [simp]:
  "lines json [] = []" "lines json (e # evs) = json e @ [newline] @ lines json evs"
  "lines json (xs @ ys) = lines json xs @ lines json ys"
  by (simp_all add: lines_def)

text \<open>
  What a subscriber whose reply went out is told between two states: the events \<open>before\<close>, then
  events whose last word on the view is the view.
\<close>

definition told :: "(ipc_event \<Rightarrow> bytes) \<Rightarrow> ipc_event list \<Rightarrow> u8 \<Rightarrow> u8 \<Rightarrow> ipc_client \<Rightarrow> ipc_client \<Rightarrow> bool" where
  "told json before v v' c c' \<longleftrightarrow> (subscriber c \<longrightarrow> subscriber c') \<and> (spent c \<longrightarrow> spent c') \<and>
     (subscriber c \<and> spent c \<longrightarrow> (\<exists>evs. stream c' = stream c @ lines json (before @ evs) \<and> last_view v evs = v'))"

definition hears :: "(ipc_event \<Rightarrow> bytes) \<Rightarrow> ipc_event list \<Rightarrow> wm \<Rightarrow> wm \<Rightarrow> bool" where
  "hears json before w w' \<longleftrightarrow> next_id w \<le> next_id w' \<and>
     (\<forall>i c'. i < next_id w \<longrightarrow> map_of (clients w') i = Some c' \<longrightarrow>
        (\<exists>c. map_of (clients w) i = Some c \<and> told json before (view_index w) (view_index w') c c'))"

text \<open>What an operation that drops connections does to the axis.\<close>

definition shrinks :: "wm \<Rightarrow> wm \<Rightarrow> bool" where
  "shrinks w w' \<longleftrightarrow> conn_ids w' \<subseteq> conn_ids w \<and> next_id w' = next_id w \<and> wm_locked w' = wm_locked w \<and>
     set (remote_clients w') \<subseteq> set (remote_clients w) \<and>
     length (remote_clients w') \<le> length (remote_clients w) \<and>
     length (clients w') \<le> length (clients w)"

text \<open>The machine in view stays in view until its own connection is gone, and the view never moves away from local.\<close>

definition stays :: "wm \<Rightarrow> wm \<Rightarrow> bool" where
  "stays w w' \<longleftrightarrow> length (remote_clients w) \<le> 255 \<longrightarrow>
     view_index w' \<le> view_index w \<and>
     (\<forall>m. active_machine w = Some m \<longrightarrow>
        active_machine w' = Some m \<or> (view_index w' = 0 \<and> client_id m \<notin> conn_ids w'))"

lemma told_refl [simp]: "told json [] v v c c"
  by (simp add: told_def exI [of _ "[]"])

lemma told_trans: "told json before v v' c d \<Longrightarrow> told json [] v' v'' d e \<Longrightarrow> told json before v v'' c e"
proof -
  assume a: "told json before v v' c d" "told json [] v' v'' d e"
  show ?thesis
  proof (cases "subscriber c \<and> spent c")
    case True
    from a(1) True obtain xs where xs: "stream d = stream c @ lines json (before @ xs)" "last_view v xs = v'"
      "subscriber d" "spent d" by (auto simp: told_def)
    from a(2) xs obtain ys where ys: "stream e = stream d @ lines json ys" "last_view v' ys = v''"
      "subscriber e" "spent e" by (auto simp: told_def)
    have "stream e = stream c @ lines json (before @ xs @ ys)" "last_view v (xs @ ys) = v''"
      using xs ys by simp_all
    with ys show ?thesis unfolding told_def by blast
  next
    case False
    with a show ?thesis by (auto simp: told_def)
  qed
qed

lemma hearsD:
  "hears json before w w' \<Longrightarrow> i < next_id w \<Longrightarrow> map_of (clients w) i = Some c \<Longrightarrow>
   map_of (clients w') i = Some c' \<Longrightarrow> told json before (view_index w) (view_index w') c c'"
  unfolding hears_def by fastforce

lemma hears_refl [simp]: "hears json [] w w"
  by (simp add: hears_def)

lemma hears_trans:
  assumes "hears json before w w'" "hears json [] w' w''"
  shows "hears json before w w''"
  unfolding hears_def
proof (intro conjI allI impI)
  show "next_id w \<le> next_id w''" using assms by (simp add: hears_def)
  fix i e assume i: "i < next_id w" and e: "map_of (clients w'') i = Some e"
  have "i < next_id w'" using assms(1) i by (simp add: hears_def)
  with assms(2) e obtain d where d: "map_of (clients w') i = Some d"
    "told json [] (view_index w') (view_index w'') d e" by (auto simp: hears_def)
  with assms(1) i obtain c where "map_of (clients w) i = Some c"
    "told json before (view_index w) (view_index w') c d" by (auto simp: hears_def)
  with d told_trans show "\<exists>c. map_of (clients w) i = Some c \<and> told json before (view_index w) (view_index w'') c e"
    by blast
qed

lemma shrinks_refl [simp]: "shrinks w w"
  by (simp add: shrinks_def)

lemma shrinks_trans: "shrinks w w' \<Longrightarrow> shrinks w' w'' \<Longrightarrow> shrinks w w''"
  by (simp add: shrinks_def) (meson dual_order.trans)

lemma stays_refl [simp]: "stays w w"
  by (simp add: stays_def)

lemma stays_trans:
  assumes "stays w w'" "shrinks w w'" "stays w' w''" "shrinks w' w''"
  shows "stays w w''"
  unfolding stays_def
proof (intro impI conjI allI)
  assume n: "length (remote_clients w) \<le> 255"
  with assms have a: "view_index w' \<le> view_index w" "view_index w'' \<le> view_index w'"
    by (auto simp: stays_def shrinks_def)
  then show "view_index w'' \<le> view_index w" by simp
  fix m assume m: "active_machine w = Some m"
  with n assms(1) consider "active_machine w' = Some m" | "view_index w' = 0" "client_id m \<notin> conn_ids w'"
    by (auto simp: stays_def)
  then show "active_machine w'' = Some m \<or> (view_index w'' = 0 \<and> client_id m \<notin> conn_ids w'')"
  proof cases
    case 1
    with n assms show ?thesis by (auto simp: stays_def shrinks_def)
  next
    case 2
    with a assms(4) show ?thesis by (auto simp: shrinks_def)
  qed
qed

section \<open>Telling everybody ends\<close>

lemma unat_word_of_nat_le: "unat (word_of_nat n :: 'a::len word) \<le> n"
  by (simp add: unat_of_nat)

lemma push_all_fst [simp]: "map fst (fst (push_all line cs)) = map fst cs"
  by (induction cs) (auto simp: Let_def split: prod.splits bool.splits if_splits)

lemma push_all_length [simp]: "length (fst (push_all line cs)) = length cs"
  using push_all_fst [of line cs] by (metis length_map)

lemma push_all_ids [simp]: "fst ` set (fst (push_all line cs)) = fst ` set cs"
  using push_all_fst [of line cs] by (metis list.set_map)

lemma push_all_dropped: "set (snd (push_all line cs)) \<subseteq> fst ` set cs"
  by (induction cs) (auto simp: Let_def split: prod.splits bool.splits if_splits)

lemma map_of_filter_other: "map_of (filter (\<lambda>(j, _). j \<noteq> i) cs) j = (if j = i then None else map_of cs j)"
  by (induction cs) auto

text \<open>What each connection has after the push.\<close>

lemma push_all_map_of:
  "distinct (map fst cs) \<Longrightarrow>
   map_of (fst (push_all line cs)) i = map_option
     (\<lambda>c. if subscriber c then snd (send_subscribed line c) else c) (map_of cs i) \<and>
   (i \<in> set (snd (push_all line cs)) \<longleftrightarrow>
     (\<exists>c. map_of cs i = Some c \<and> subscriber c \<and> \<not> fst (send_subscribed line c)))"
proof (induction cs)
  case (Cons a cs)
  obtain j c where a: "a = (j, c)" by fastforce
  obtain cs' dr where p: "push_all line cs = (cs', dr)" by fastforce
  have j: "j \<notin> set dr" using push_all_dropped [of line cs] Cons.prems p by (auto simp: a)
  have n: "map_of cs j = None" using Cons.prems by (auto simp: a map_of_eq_None_iff)
  obtain ok c' where sc: "send_subscribed line c = (ok, c')" by fastforce
  show ?case using Cons.IH Cons.prems p sc j n by (cases ok) (auto simp: a Let_def)
qed simp

lemma remove_connection_clients: "clients (remove_connection i w) = filter (\<lambda>(j, _). j \<noteq> i) (clients w)"
proof (cases "map_of (clients w) i")
  case None
  then have "\<forall>x\<in>set (clients w). fst x \<noteq> i" by (auto simp: map_of_eq_None_iff)
  then have "filter (\<lambda>(j, _). j \<noteq> i) (clients w) = clients w" by (auto simp: filter_id_conv)
  with None show ?thesis by (simp add: remove_connection_def)
qed (simp add: remove_connection_def)

lemma remove_connection_simps [simp]:
  "next_id (remove_connection i w) = next_id w"
  "remote_clients (remove_connection i w) = remote_clients w"
  "view_index (remove_connection i w) = view_index w"
  "wm_locked (remove_connection i w) = wm_locked w"
  "remote_pointer (remove_connection i w) = remote_pointer w"
  by (simp_all add: remove_connection_def split: option.splits)

text \<open>An emitter that ends when fewer than \<open>n\<close> connections are there.\<close>

locale bounded_emitter =
  fixes emit :: emitter and n :: nat
  assumes emit_ends: "length (clients w) < n \<Longrightarrow> \<exists>w'. emit ev w = Some w' \<and> length (clients w') \<le> length (clients w)"
begin

lemma set_view_ends:
  "length (clients w) < n \<Longrightarrow> \<exists>w'. set_view emit index w = Some w' \<and> length (clients w') \<le> length (clients w)"
proof -
  assume len: "length (clients w) < n"
  show ?thesis
  proof (cases "min index (word_of_nat (length (remote_clients w))) = view_index w")
    case False
    let ?v = "min index (word_of_nat (length (remote_clients w)))"
    let ?w1 = "w\<lparr> view_index := ?v \<rparr>"
    let ?w2 = "case active_machine ?w1 of
        Some c \<Rightarrow> ?w1\<lparr> remote_pointer := (half_f64 (width c), half_f64 (height c)) \<rparr> | None \<Rightarrow> ?w1"
    have "clients ?w2 = clients w" by (simp split: option.splits)
    moreover have "set_view emit index w = emit (EvViewChanged ?v (active_machine_label ?w2)) ?w2"
      using False by (simp add: set_view_def Let_def)
    ultimately show ?thesis using emit_ends [of ?w2 "EvViewChanged ?v (active_machine_label ?w2)"] len by simp
  qed (simp add: set_view_def)
qed

lemma drop_remote_client_ends:
  "length (clients w) < n \<Longrightarrow>
   \<exists>b w'. drop_remote_client emit i w = Some (b, w') \<and> length (clients w') \<le> length (clients w)"
proof -
  assume len: "length (clients w) < n"
  show ?thesis
  proof (cases "position (\<lambda>c. client_id c = i) (remote_clients w)")
    case (Some ix)
    let ?w1 = "w\<lparr> remote_clients := remove_at ix (remote_clients w) \<rparr>"
    from set_view_ends [of ?w1 "view_after_removal (view_index w) (word_of_nat ix + 1)"] len Some
    show ?thesis by (auto simp: drop_remote_client_def Let_def)
  qed (auto simp: drop_remote_client_def)
qed

lemma drop_ipc_client_ends:
  assumes "length (filter (\<lambda>(j, _). j \<noteq> i) (clients w)) < n"
  shows "\<exists>w'. drop_ipc_client emit i w = Some w' \<and> length (clients w') \<le> length (filter (\<lambda>(j, _). j \<noteq> i) (clients w))"
proof -
  let ?w = "remove_connection i (w\<lparr> parked := filter (\<lambda>(j, _). j \<noteq> i) (parked w) \<rparr>)"
  have "clients ?w = filter (\<lambda>(j, _). j \<noteq> i) (clients w)" by (simp add: remove_connection_clients)
  with drop_remote_client_ends [of ?w i] assms show ?thesis by (auto simp: drop_ipc_client_def)
qed

lemma drop_each_ends:
  "length (clients w) < n \<Longrightarrow> \<exists>w'. drop_each emit is w = Some w' \<and> length (clients w') \<le> length (clients w)"
proof (induction "is" arbitrary: w)
  case (Cons i "is")
  have f: "length (filter (\<lambda>(j, _). j \<noteq> i) (clients w)) \<le> length (clients w)" by simp
  with Cons.prems drop_ipc_client_ends [of i w] obtain w1
    where w1: "drop_ipc_client emit i w = Some w1" "length (clients w1) \<le> length (clients w)" by fastforce
  with Cons.IH [of w1] Cons.prems show ?case by fastforce
qed simp

end

lemma bounded_emit_fuel: "bounded_emitter (emit_fuel k json) k"
proof (induction k)
  case 0
  show ?case by unfold_locales simp
next
  case (Suc k)
  show ?case
  proof
    fix w :: wm and ev
    assume len: "length (clients w) < Suc k"
    obtain cs dr where p: "push_all (json ev) (clients w) = (cs, dr)" by fastforce
    let ?w = "w\<lparr> clients := cs \<rparr>"
    have cs: "length cs = length (clients w)" "fst ` set cs = fst ` set (clients w)"
      using push_all_length [of "json ev" "clients w"] push_all_ids [of "json ev" "clients w"] p by simp_all
    show "\<exists>w'. emit_fuel (Suc k) json ev w = Some w' \<and> length (clients w') \<le> length (clients w)"
    proof (cases dr)
      case Nil
      with p cs show ?thesis by simp
    next
      case (Cons i "is")
      with push_all_dropped [of "json ev" "clients w"] p cs have "i \<in> fst ` set cs" by auto
      then have "length (filter (\<lambda>(j, _). j \<noteq> i) cs) < length cs"
        by (auto intro!: length_filter_less)
      then have f: "length (filter (\<lambda>(j, _). j \<noteq> i) (clients ?w)) < k" using len cs by simp
      from bounded_emitter.drop_ipc_client_ends [OF Suc.IH f]
      obtain w1 where w1: "drop_ipc_client (emit_fuel k json) i ?w = Some w1"
        and l: "length (clients w1) \<le> length (filter (\<lambda>(j, _). j \<noteq> i) (clients ?w))" by blast
      from l f have lk: "length (clients w1) < k" by linarith
      have lc: "length (clients w1) \<le> length cs"
        by (rule le_trans [OF l]) simp
      from bounded_emitter.drop_each_ends [OF Suc.IH lk, of "is"] w1 lc Cons p cs show ?thesis
        by fastforce
    qed
  qed
qed

section \<open>What telling everybody keeps\<close>

text \<open>All machines but those of connection \<open>i\<close> are live: the state in the middle of dropping \<open>i\<close>.\<close>

definition live_but :: "nat \<Rightarrow> wm \<Rightarrow> bool" where
  "live_but i w \<longleftrightarrow> distinct (map client_id (remote_clients w)) \<and>
     (\<forall>m\<in>set (remote_clients w). client_id m \<noteq> i \<longrightarrow> (\<exists>c. map_of (clients w) (client_id m) = Some c \<and> spent c))"

lemma active_machine_nth:
  "axis_ok w \<Longrightarrow> active_machine w =
    (if view_index w = 0 then None else Some (remote_clients w ! (unat (view_index w) - 1)))"
proof -
  assume "axis_ok w"
  then have v: "unat (view_index w) \<le> length (remote_clients w)" by (simp add: axis_ok_def)
  show ?thesis
  proof (cases "view_index w = 0")
    case False
    then have "0 < unat (view_index w)" by (simp add: unat_gt_0)
    with v have "unat (view_index w) - 1 < length (remote_clients w)" by linarith
    with False show ?thesis by (simp add: active_machine_def machine_at_def Let_def)
  qed (simp add: active_machine_def)
qed

lemma active_machine_cong:
  "view_index a = view_index b \<Longrightarrow> remote_clients a = remote_clients b \<Longrightarrow> active_machine a = active_machine b"
  by (simp add: active_machine_def machine_at_def Let_def)

lemma set_view_cases:
  assumes "set_view emit index w = Some w'"
  obtains "w' = w" "min index (word_of_nat (length (remote_clients w))) = view_index w"
  | w2 l where "min index (word_of_nat (length (remote_clients w))) \<noteq> view_index w"
      "emit (EvViewChanged (view_index w2) l) w2 = Some w'"
      "view_index w2 = min index (word_of_nat (length (remote_clients w)))"
      "clients w2 = clients w" "remote_clients w2 = remote_clients w" "next_id w2 = next_id w"
      "wm_locked w2 = wm_locked w" "active_machine w2 = active_machine (w\<lparr> view_index := view_index w2 \<rparr>)"
proof (cases "min index (word_of_nat (length (remote_clients w))) = view_index w")
  case True
  with assms that(1) show ?thesis by (simp add: set_view_def)
next
  case False
  let ?v = "min index (word_of_nat (length (remote_clients w)))"
  let ?w1 = "w\<lparr> view_index := ?v \<rparr>"
  let ?w2 = "case active_machine ?w1 of
      Some c \<Rightarrow> ?w1\<lparr> remote_pointer := (half_f64 (width c), half_f64 (height c)) \<rparr> | None \<Rightarrow> ?w1"
  have e: "emit (EvViewChanged ?v (active_machine_label ?w2)) ?w2 = Some w'"
    using assms False by (simp add: set_view_def Let_def)
  have eq: "view_index ?w2 = ?v" "clients ?w2 = clients w" "remote_clients ?w2 = remote_clients w"
    "next_id ?w2 = next_id w" "wm_locked ?w2 = wm_locked w"
    by (simp_all split: option.splits)
  have "active_machine ?w2 = active_machine (w\<lparr> view_index := view_index ?w2 \<rparr>)"
    by (rule active_machine_cong) (simp_all add: eq(3))
  with that(2) [of ?w2] False e eq show ?thesis by simp
qed

lemma axis_ok_set: "min index (word_of_nat (length (remote_clients w))) = view_index w \<Longrightarrow> axis_ok w"
  unfolding axis_ok_def
  by (metis min.cobounded2 order.trans unat_word_of_nat_le word_le_nat_alt)

lemma hears_same: "clients w' = clients w \<Longrightarrow> next_id w' = next_id w \<Longrightarrow> view_index w' = view_index w \<Longrightarrow> hears json [] w w'"
  by (simp add: hears_def)

lemma live_removed:
  assumes "live_but (client_id (remote_clients w ! ix)) w" "ix < length (remote_clients w)"
  shows "machines_live (w\<lparr> remote_clients := remove_at ix (remote_clients w) \<rparr>)"
proof -
  let ?ms = "remote_clients w"
  have d: "distinct (map client_id ?ms)" using assms by (simp add: live_but_def)
  then have "distinct (map client_id (remove_at ix ?ms))"
    using distinct_remove_at [of "map client_id ?ms" ix] by (simp add: remove_at_def take_map drop_map)
  moreover have "\<forall>m\<in>set (remove_at ix ?ms). client_id m \<noteq> client_id (?ms ! ix)"
  proof -
    have "distinct (map client_id (take ix ?ms @ ?ms ! ix # drop (Suc ix) ?ms))"
      using d split_at [OF assms(2)] by simp
    then show ?thesis by (auto simp: remove_at_def) (metis image_eqI)+
  qed
  ultimately show ?thesis using assms(1) set_remove_at_subset [of ix ?ms]
    by (auto simp: live_but_def machines_live_def)
qed

text \<open>The index arithmetic of \<open>view_after_removal\<close>: with at most 255 machines it does not wrap.\<close>

lemma view_after_removal_cases:
  fixes v :: u8
  assumes "unat v \<le> n" "ix < n"
  shows "unat (view_after_removal v (word_of_nat ix + 1)) \<le> unat v"
    and "n \<le> 255 \<Longrightarrow> unat v = Suc ix \<Longrightarrow> view_after_removal v (word_of_nat ix + 1) = 0"
    and "n \<le> 255 \<Longrightarrow> Suc ix < unat v \<Longrightarrow> unat (view_after_removal v (word_of_nat ix + 1)) = unat v - 1"
    and "n \<le> 255 \<Longrightarrow> unat v < Suc ix \<Longrightarrow> view_after_removal v (word_of_nat ix + 1) = v"
    and "view_after_removal v (word_of_nat ix + 1) = v \<Longrightarrow> unat v \<le> n - 1"
proof -
  have r: "unat (word_of_nat ix + 1 :: u8) = Suc ix" if "n \<le> 255"
    using assms(2) that by (simp add: unat_word_ariths unat_of_nat)
  have p: "unat (v - 1) = unat v - 1" if "x < v" for x
    using that by (metis unat_pred word_not_simps(1))
  show "unat (view_after_removal v (word_of_nat ix + 1)) \<le> unat v"
    by (simp add: view_after_removal_def p)
  show zero: "n \<le> 255 \<Longrightarrow> unat v = Suc ix \<Longrightarrow> view_after_removal v (word_of_nat ix + 1) = 0"
    using r by (simp add: view_after_removal_def word_unat_eq_iff)
  show less: "n \<le> 255 \<Longrightarrow> Suc ix < unat v \<Longrightarrow> unat (view_after_removal v (word_of_nat ix + 1)) = unat v - 1"
    using r p [of "word_of_nat ix + 1"] by (auto simp: view_after_removal_def word_less_nat_alt)
  show same: "n \<le> 255 \<Longrightarrow> unat v < Suc ix \<Longrightarrow> view_after_removal v (word_of_nat ix + 1) = v"
    using r by (auto simp: view_after_removal_def word_less_nat_alt)
  assume e: "view_after_removal v (word_of_nat ix + 1) = v"
  show "unat v \<le> n - 1"
  proof (cases "n \<le> 255")
    case True
    have "unat v \<noteq> n \<or> unat v < Suc ix"
    proof (rule ccontr)
      assume "\<not> (unat v \<noteq> n \<or> unat v < Suc ix)"
      then have v: "unat v = n" "Suc ix \<le> unat v" by auto
      then consider "unat v = Suc ix" | "Suc ix < unat v" by linarith
      then show False
      proof cases
        case 1
        with zero [OF True] e show False by simp
      next
        case 2
        with less [OF True] e show False by simp
      qed
    qed
    with assms show ?thesis by linarith
  next
    case False
    have "unat v < 256" using unsigned_less [of v, where 'a = nat] by simp
    with False show ?thesis by linarith
  qed
qed

text \<open>An emitter that keeps the invariants and tells every subscriber of the event, and then of the view.\<close>

locale listeners =
  fixes json :: "ipc_event \<Rightarrow> bytes" and emit :: emitter
  assumes emit_ok: "conns_ok w \<Longrightarrow> axis_ok w \<Longrightarrow> emit ev w = Some w' \<Longrightarrow>
    conns_ok w' \<and> axis_ok w' \<and> shrinks w w' \<and> stays w w' \<and> hears json [ev] w w' \<and>
    (machines_live w \<longrightarrow> machines_live w')"
begin

lemma set_view_ok:
  assumes "conns_ok w" "set_view emit index w = Some w'"
  shows "conns_ok w' \<and> axis_ok w' \<and> shrinks w w' \<and> hears json [] w w' \<and> (machines_live w \<longrightarrow> machines_live w')"
  using assms(2)
proof (cases rule: set_view_cases)
  case 1
  with assms(1) axis_ok_set show ?thesis by simp
next
  case (2 w2 l)
  have "conns_ok w2" "axis_ok w2" "machines_live w2 = machines_live w" "shrinks w w2"
    using assms(1) 2 axis_ok_set [of index w2] by (simp_all add: conns_ok_def machines_live_def shrinks_def)
  with emit_ok [OF _ _ 2(2)] have e: "conns_ok w'" "axis_ok w'" "shrinks w w'"
    "hears json [EvViewChanged (view_index w2) l] w2 w'" "machines_live w \<longrightarrow> machines_live w'"
    using shrinks_trans by blast+
  have "hears json [] w w'"
    unfolding hears_def
  proof (intro conjI allI impI)
    show "next_id w \<le> next_id w'" using e(4) 2 by (simp add: hears_def)
    fix i c' assume "i < next_id w" "map_of (clients w') i = Some c'"
    with e(4) 2 obtain c where c: "map_of (clients w) i = Some c"
      "told json [EvViewChanged (view_index w2) l] (view_index w2) (view_index w') c c'"
      by (auto simp: hears_def)
    then have "told json [] (view_index w) (view_index w') c c'"
      unfolding told_def by (metis append_Cons append_Nil last_view.simps(2))
    with c show "\<exists>c. map_of (clients w) i = Some c \<and> told json [] (view_index w) (view_index w') c c'" by blast
  qed
  with e show ?thesis by blast
qed

text \<open>Taking a machine off the axis leaves the machine in view in view.\<close>

lemma removal_stays:
  assumes "axis_ok w" "i \<notin> conn_ids w" "ix < length (remote_clients w)" "client_id (remote_clients w ! ix) = i"
    and w2: "view_index w2 = view_after_removal (view_index w) (word_of_nat ix + 1)"
      "clients w2 = clients w" "remote_clients w2 = remove_at ix (remote_clients w)"
      "axis_ok w2"
  shows "stays w w2"
  unfolding stays_def
proof (intro impI conjI allI)
  let ?ms = "remote_clients w"
  assume n: "length ?ms \<le> 255"
  have v: "unat (view_index w) \<le> length ?ms" using assms(1) by (simp add: axis_ok_def)
  note c = view_after_removal_cases [OF v assms(3)]
  show "view_index w2 \<le> view_index w" using c(1) w2(1) by (simp add: word_le_nat_alt)
  fix m assume "active_machine w = Some m"
  then have m: "view_index w \<noteq> 0" "m = ?ms ! (unat (view_index w) - 1)"
    using active_machine_nth [OF assms(1)] by (auto split: if_splits)
  then have pos: "0 < unat (view_index w)" by (simp add: unat_gt_0)
  consider "unat (view_index w) = Suc ix" | "Suc ix < unat (view_index w)" | "unat (view_index w) < Suc ix"
    by linarith
  then show "active_machine w2 = Some m \<or> (view_index w2 = 0 \<and> client_id m \<notin> conn_ids w2)"
  proof cases
    case 1
    with m assms c(2) [OF n] show ?thesis by simp
  next
    case 2
    with c(3) [OF n] w2 have i2: "unat (view_index w2) = unat (view_index w) - 1" by simp
    with 2 have "view_index w2 \<noteq> 0" by auto
    then have "active_machine w2 = Some (remove_at ix ?ms ! (unat (view_index w) - 1 - 1))"
      using active_machine_nth [OF w2(4)] i2 w2 by simp
    moreover have "remove_at ix ?ms ! (unat (view_index w) - 1 - 1) = ?ms ! (unat (view_index w) - 1)"
    proof -
      have "Suc (unat (view_index w) - 1 - 1) = unat (view_index w) - 1" using 2 by linarith
      moreover have "unat (view_index w) - 1 - 1 < length ?ms - 1" "\<not> unat (view_index w) - 1 - 1 < ix"
        using 2 v by linarith+
      ultimately show ?thesis using nth_remove_at [OF assms(3)] by simp
    qed
    ultimately show ?thesis using m by simp
  next
    case 3
    with c(4) [OF n] w2 have i2: "view_index w2 = view_index w" by simp
    then have "active_machine w2 = Some (remove_at ix ?ms ! (unat (view_index w) - 1))"
      using active_machine_nth [OF w2(4)] w2 m by simp
    moreover have "remove_at ix ?ms ! (unat (view_index w) - 1) = ?ms ! (unat (view_index w) - 1)"
    proof -
      have "unat (view_index w) - 1 < length ?ms - 1" "unat (view_index w) - 1 < ix"
        using 3 pos assms(3) by linarith+
      then show ?thesis using nth_remove_at [OF assms(3)] by simp
    qed
    ultimately show ?thesis using m by simp
  qed
qed

lemma drop_remote_client_ok:
  assumes "conns_ok w" "axis_ok w" "i \<notin> conn_ids w" "drop_remote_client emit i w = Some (b, w')"
  shows "conns_ok w' \<and> axis_ok w' \<and> shrinks w w' \<and> stays w w' \<and> hears json [] w w' \<and>
    (live_but i w \<longrightarrow> machines_live w')"
proof (cases "position (\<lambda>c. client_id c = i) (remote_clients w)")
  case None
  then have "\<forall>m\<in>set (remote_clients w). client_id m \<noteq> i" by (auto simp: position_None)
  with None assms show ?thesis by (auto simp: drop_remote_client_def live_but_def machines_live_def)
next
  case (Some ix)
  let ?ms = "remote_clients w"
  let ?w1 = "w\<lparr> remote_clients := remove_at ix ?ms \<rparr>"
  let ?new = "view_after_removal (view_index w) (word_of_nat ix + 1)"
  from position_SomeD [OF Some] have ix: "ix < length ?ms" "client_id (?ms ! ix) = i" by simp_all
  have w': "(if ?new \<noteq> view_index w then set_view emit ?new ?w1 else Some ?w1) = Some w'"
    using assms(4) Some by (auto simp: drop_remote_client_def Let_def split: if_splits)
  have v: "unat (view_index w) \<le> length ?ms" using assms(2) by (simp add: axis_ok_def)
  note c = view_after_removal_cases [OF v ix(1)]
  have w1: "conns_ok ?w1" "shrinks w ?w1" "hears json [] w ?w1" "live_but i w \<longrightarrow> machines_live ?w1"
    using assms(1) ix set_remove_at_subset [of ix ?ms] live_removed [of w ix]
    by (auto simp: conns_ok_def shrinks_def hears_same)
  show ?thesis
  proof (cases "?new = view_index w")
    case True
    then have "w' = ?w1" using w' by simp
    moreover have "axis_ok ?w1" using c(5) True ix by (simp add: axis_ok_def)
    moreover have "stays w ?w1"
      by (rule removal_stays [OF assms(2,3) ix]) (use True \<open>axis_ok ?w1\<close> in simp_all)
    ultimately show ?thesis using w1 by blast
  next
    case False
    with w' have sv: "set_view emit ?new ?w1 = Some w'" by simp
    from set_view_ok [OF w1(1) sv] have k: "conns_ok w'" "axis_ok w'" "shrinks ?w1 w'" "hears json [] ?w1 w'"
      "machines_live ?w1 \<longrightarrow> machines_live w'" by blast+
    have "stays w w'"
    proof (cases "length ?ms \<le> 255")
      case n: True
      then have most: "unat (word_of_nat (length ?ms - 1) :: u8) = length ?ms - 1" by (simp add: unat_of_nat)
      have "unat ?new \<le> length ?ms - 1" using c n v ix False
        by (cases "unat (view_index w)" "Suc ix" rule: linorder_cases) auto
      then have min: "min ?new (word_of_nat (length (remote_clients ?w1))) = ?new"
        using most ix by (simp add: min_def word_le_nat_alt)
      from sv show ?thesis
      proof (cases rule: set_view_cases)
        case 1
        with min False show ?thesis by simp
      next
        case (2 w2 l)
        have ok: "conns_ok w2" using w1(1) 2 by (simp add: conns_ok_def)
        have vok: "axis_ok w2" using 2 axis_ok_set [of ?new w2] by simp
        from emit_ok [OF ok vok 2(2)] have e: "stays w2 w'" "shrinks w2 w'" by blast+
        moreover have "stays w w2"
          by (rule removal_stays [OF assms(2,3) ix]) (use 2 min vok in simp_all)
        moreover have "shrinks w w2" using w1(2) 2 by (simp add: shrinks_def)
        ultimately show ?thesis using stays_trans by blast
      qed
    qed (simp add: stays_def)
    with k w1 show ?thesis using hears_trans shrinks_trans by blast
  qed
qed

text \<open>Dropping a connection.\<close>

lemma drop_ipc_client_ok:
  assumes "conns_ok w" "axis_ok w" "drop_ipc_client emit i w = Some w'"
  shows "conns_ok w' \<and> axis_ok w' \<and> shrinks w w' \<and> stays w w' \<and> hears json [] w w' \<and>
    i \<notin> conn_ids w' \<and> (machines_live w \<longrightarrow> machines_live w')"
proof -
  let ?w = "remove_connection i (w\<lparr> parked := filter (\<lambda>(j, _). j \<noteq> i) (parked w) \<rparr>)"
  have cl: "clients ?w = filter (\<lambda>(j, _). j \<noteq> i) (clients w)" by (simp add: remove_connection_clients)
  have mo: "map_of (clients ?w) j = (if j = i then None else map_of (clients w) j)" for j
    unfolding cl by (rule map_of_filter_other)
  have i: "i \<notin> conn_ids ?w" by (auto simp: cl)
  have "distinct (map fst (clients ?w))"
    using assms(1) by (auto simp: cl conns_ok_def intro: distinct_map_filter)
  then have w: "conns_ok ?w" using assms(1) by (auto simp: conns_ok_def cl)
  have v: "axis_ok ?w" using assms(2) by (simp add: axis_ok_def)
  have sh: "shrinks w ?w" by (auto simp: shrinks_def cl)
  have st: "stays w ?w"
    using active_machine_cong [of ?w w] by (simp add: stays_def)
  have he: "hears json [] w ?w" by (auto simp: hears_def mo split: if_splits)
  have li: "machines_live w \<Longrightarrow> live_but i ?w" by (auto simp: machines_live_def live_but_def mo)
  obtain b where "drop_remote_client emit i ?w = Some (b, w')"
    using assms(3) by (auto simp: drop_ipc_client_def)
  from drop_remote_client_ok [OF w v i this] sh st he li i show ?thesis
    using shrinks_trans [of w ?w w'] stays_trans [of w ?w w'] hears_trans [of json "[]" w ?w w']
    by (auto simp: shrinks_def [of ?w])
qed

lemma drop_each_ok:
  "conns_ok w \<Longrightarrow> axis_ok w \<Longrightarrow> drop_each emit is w = Some w' \<Longrightarrow>
   conns_ok w' \<and> axis_ok w' \<and> shrinks w w' \<and> stays w w' \<and> hears json [] w w' \<and>
   set is \<inter> conn_ids w' = {} \<and> (machines_live w \<longrightarrow> machines_live w')"
proof (induction "is" arbitrary: w)
  case (Cons i "is")
  from Cons.prems(3) obtain w1 where w1: "drop_ipc_client emit i w = Some w1" "drop_each emit is w1 = Some w'"
    by (auto simp: Option.bind_eq_Some_conv)
  note a = drop_ipc_client_ok [OF Cons.prems(1,2) w1(1)]
  with Cons.IH [OF _ _ w1(2)] show ?case
    using shrinks_trans [of w w1 w'] stays_trans [of w w1 w'] hears_trans [of json "[]" w w1 w']
    by (auto simp: shrinks_def [of w1])
qed simp

text \<open>An earlier machine's leaving lowers the view.\<close>

lemma earlier_machine_leaving:
  assumes "conns_ok w" "axis_ok w" "length (remote_clients w) \<le> 255" "drop_ipc_client emit i w = Some w'"
    and ix: "position (\<lambda>c. client_id c = i) (remote_clients w) = Some ix" "Suc ix < unat (view_index w)"
  shows "view_index w' < view_index w"
proof -
  let ?ms = "remote_clients w"
  let ?w = "remove_connection i (w\<lparr> parked := filter (\<lambda>(j, _). j \<noteq> i) (parked w) \<rparr>)"
  let ?w1 = "?w\<lparr> remote_clients := remove_at ix ?ms \<rparr>"
  let ?new = "view_after_removal (view_index w) (word_of_nat ix + 1)"
  from position_SomeD [OF ix(1)] have l: "ix < length ?ms" by simp
  have v: "unat (view_index w) \<le> length ?ms" using assms(2) by (simp add: axis_ok_def)
  have new: "unat ?new = unat (view_index w) - 1"
    using view_after_removal_cases(3) [OF v l assms(3) ix(2)] by simp
  then have ne: "?new \<noteq> view_index w" using ix(2) by auto
  from assms(4) ix(1) ne have sv: "set_view emit ?new ?w1 = Some w'"
    by (auto simp: drop_ipc_client_def drop_remote_client_def Let_def split: if_splits)
  have len: "length (remote_clients ?w1) = length ?ms - 1" using l by simp
  have "unat (word_of_nat (length (remote_clients ?w1)) :: u8) = length ?ms - 1"
    unfolding len using assms(3) by (simp only: unat_of_nat) simp
  moreover have "unat ?new \<le> length ?ms - 1" using new v by linarith
  ultimately have "?new \<le> word_of_nat (length (remote_clients ?w1))" by (simp only: word_le_nat_alt)
  then have min: "min ?new (word_of_nat (length (remote_clients ?w1))) = ?new" by (rule min_absorb1)
  from sv have "view_index w' \<le> ?new"
  proof (cases rule: set_view_cases)
    case 1
    with min ne show ?thesis by simp
  next
    case (2 w2 l)
    have "conns_ok ?w1"
      using assms(1) by (auto simp: conns_ok_def remove_connection_clients intro: distinct_map_filter)
    with 2 have "conns_ok w2" "axis_ok w2" using axis_ok_set [of ?new w2] by (simp_all add: conns_ok_def)
    from emit_ok [OF this 2(2)] have "stays w2 w'" by blast
    moreover have "length (remote_clients w2) \<le> 255" using 2 assms(3) l by simp
    ultimately show ?thesis using 2 min by (auto simp: stays_def)
  qed
  moreover have "?new < view_index w" using new ix(2) by (simp add: word_less_nat_alt)
  ultimately show ?thesis by (rule le_less_trans)
qed

end

lemma conns_ok_map_of: "conns_ok w \<Longrightarrow> map_of (clients w) i = Some c \<Longrightarrow> i < next_id w \<and> out_ok c"
  by (auto simp: conns_ok_def dest: map_of_SomeD)

lemma conn_ids_map_of: "i \<in> conn_ids w \<longleftrightarrow> map_of (clients w) i \<noteq> None"
  by (simp add: map_of_eq_None_iff)

lemma push_all_sends:
  assumes "conns_ok w" and p: "push_all line (clients w) = (cs, dr)"
  shows "map fst cs = map fst (clients w)" "length cs = length (clients w)" "fst ` set cs = conn_ids w"
    and "\<And>c. out_ok c \<Longrightarrow> out_ok (snd (send_subscribed line c)) \<and> same_input c (snd (send_subscribed line c)) \<and>
        spent (snd (send_subscribed line c)) = spent c \<and>
        (fst (send_subscribed line c) \<longrightarrow> stream (snd (send_subscribed line c)) = stream c @ line @ [newline])"
    and "conns_ok (w\<lparr> clients := cs \<rparr>)"
proof -
  show ids: "map fst cs = map fst (clients w)" "length cs = length (clients w)" "fst ` set cs = conn_ids w"
    using push_all_fst [of line "clients w"] push_all_length [of line "clients w"]
      push_all_ids [of line "clients w"] p by simp_all
  show sent: "out_ok (snd (send_subscribed line c)) \<and> same_input c (snd (send_subscribed line c)) \<and>
        spent (snd (send_subscribed line c)) = spent c \<and>
        (fst (send_subscribed line c) \<longrightarrow> stream (snd (send_subscribed line c)) = stream c @ line @ [newline])"
    if "out_ok c" for c
    using send_subscribed_stream [of line c _ _, OF surjective_pairing that] by blast
  have d: "distinct (map fst (clients w))" using assms by (simp add: conns_ok_def)
  have "out_ok c \<and> i < next_id w" if "map_of cs i = Some c" for i c
  proof -
    from that push_all_map_of [OF d, of line i] p obtain e where e: "map_of (clients w) i = Some e"
      "c = (if subscriber e then snd (send_subscribed line e) else e)"
      by (cases "map_of (clients w) i") simp_all
    with conns_ok_map_of [OF assms(1) e(1)] sent [of e] show ?thesis by simp
  qed
  then show "conns_ok (w\<lparr> clients := cs \<rparr>)" using d ids by (auto simp: conns_ok_def)
qed

lemma listeners_emit_fuel: "listeners json (emit_fuel k json)"
proof (induction k)
  case 0
  show ?case by unfold_locales simp
next
  case (Suc k)
  show ?case
  proof
    fix w w' :: wm and ev
    assume ok: "conns_ok w" "axis_ok w" and e: "emit_fuel (Suc k) json ev w = Some w'"
    obtain cs dr where p: "push_all (json ev) (clients w) = (cs, dr)" by fastforce
    let ?w = "w\<lparr> clients := cs \<rparr>"
    have d: "distinct (map fst (clients w))" using ok by (simp add: conns_ok_def)
    have mo: "map_of cs i = map_option (\<lambda>c. if subscriber c then snd (send_subscribed (json ev) c) else c)
        (map_of (clients w) i)"
      and dr: "i \<in> set dr \<longleftrightarrow> (\<exists>c. map_of (clients w) i = Some c \<and> subscriber c \<and> \<not> fst (send_subscribed (json ev) c))" for i
      using push_all_map_of [OF d, of "json ev" i] p by simp_all
    note ps = push_all_sends [OF ok(1) p]
    note ids = ps(1-3) and sent = ps(4) and w = ps(5)
    have v: "axis_ok ?w" using ok by (simp add: axis_ok_def)
    have sh: "shrinks w ?w" using ids by (simp add: shrinks_def)
    have st: "stays w ?w" using active_machine_cong [of ?w w] ids by (simp add: stays_def)
    have li: "machines_live ?w" if l: "machines_live w"
      unfolding machines_live_def
    proof (intro conjI ballI)
      show "distinct (map client_id (remote_clients ?w))" using l by (simp add: machines_live_def)
      fix m assume "m \<in> set (remote_clients ?w)"
      then obtain c where c: "map_of (clients w) (client_id m) = Some c" "spent c"
        using l by (auto simp: machines_live_def)
      with mo [of "client_id m"] sent [of c] conns_ok_map_of [OF ok(1) c(1)]
      show "\<exists>c. map_of (clients ?w) (client_id m) = Some c \<and> spent c" by simp
    qed
    have "drop_each (emit_fuel k json) dr ?w = Some w'" using e p by simp
    note a = listeners.drop_each_ok [OF Suc.IH w v this]
    have "hears json [ev] w w'"
      unfolding hears_def
    proof (intro conjI allI impI)
      show "next_id w \<le> next_id w'" using a by (simp add: shrinks_def)
      fix i c' assume i: "i < next_id w" "map_of (clients w') i = Some c'"
      from a have "hears json [] ?w w'" by blast
      with i obtain c1 where c1: "map_of cs i = Some c1" "told json [] (view_index w) (view_index w') c1 c'"
        unfolding hears_def by fastforce
      from i a have nd: "i \<notin> set dr" using conn_ids_map_of [of i w'] by auto
      from c1 mo [of i] obtain c where c: "map_of (clients w) i = Some c"
        "c1 = (if subscriber c then snd (send_subscribed (json ev) c) else c)" by auto
      have "told json [ev] (view_index w) (view_index w') c c'"
      proof (cases "subscriber c")
        case True
        with c nd dr sent conns_ok_map_of [OF ok(1) c(1)]
        have "stream c1 = stream c @ json ev @ [newline]" "subscriber c1 = subscriber c" "spent c1 = spent c"
          by (auto simp: same_input_def)
        with c1 True show ?thesis by (auto simp: told_def)
      next
        case False
        with c c1 show ?thesis by (auto simp: told_def)
      qed
      with c show "\<exists>c. map_of (clients w) i = Some c \<and> told json [ev] (view_index w) (view_index w') c c'" by blast
    qed
    with a sh st li show "conns_ok w' \<and> axis_ok w' \<and> shrinks w w' \<and> stays w w' \<and> hears json [ev] w w' \<and>
        (machines_live w \<longrightarrow> machines_live w')"
      using shrinks_trans [of w ?w w'] stays_trans [of w ?w w'] by blast
  qed
qed

interpretation telling: listeners json "emit_event json" for json
proof
  fix w w' :: wm and ev
  assume "conns_ok w" "axis_ok w" "emit_event json ev w = Some w'"
  then show "conns_ok w' \<and> axis_ok w' \<and> shrinks w w' \<and> stays w w' \<and> hears json [ev] w w' \<and>
      (machines_live w \<longrightarrow> machines_live w')"
    unfolding emit_event_def by (rule listeners.emit_ok [OF listeners_emit_fuel])
qed

section \<open>Every step\<close>

abbreviation updated :: "nat \<Rightarrow> (ipc_client \<Rightarrow> ipc_client) \<Rightarrow> (nat \<times> ipc_client) list \<Rightarrow> (nat \<times> ipc_client) list" where
  "updated i f cs \<equiv> map (\<lambda>(j, c). (j, if j = i then f c else c)) cs"

lemma map_of_updated: "map_of (updated i f cs) j = map_option (if j = i then f else (\<lambda>c. c)) (map_of cs j)"
  by (induction cs) (auto simp: option.map_ident)

lemma fst_updated [simp]: "map fst (updated i f cs) = map fst cs" "fst ` set (updated i f cs) = fst ` set cs"
  by (induction cs) auto

lemma update_keeps:
  assumes "conns_ok w" "axis_ok w" "clients w' = updated i f (clients w)" "next_id w' = next_id w"
    "view_index w' = view_index w" "remote_clients w' = remote_clients w"
    and "\<And>c. out_ok c \<Longrightarrow> out_ok (f c) \<and> (spent c \<longrightarrow> spent (f c))"
  shows "conns_ok w' \<and> axis_ok w' \<and> (machines_live w \<longrightarrow> machines_live w')"
proof (intro conjI impI)
  show "conns_ok w'" using assms(1,4,7) unfolding conns_ok_def assms(3) fst_updated by auto
  show "axis_ok w'" using assms(2,5,6) by (simp add: axis_ok_def)
  assume l: "machines_live w"
  show "machines_live w'"
    unfolding machines_live_def
  proof (intro conjI ballI)
    show "distinct (map client_id (remote_clients w'))" using l assms(6) by (simp add: machines_live_def)
    fix m assume "m \<in> set (remote_clients w')"
    then obtain c where c: "map_of (clients w) (client_id m) = Some c" "spent c"
      using l assms(6) by (auto simp: machines_live_def)
    with assms(3) assms(7) [of c] conns_ok_map_of [OF assms(1) c(1)]
    show "\<exists>c. map_of (clients w') (client_id m) = Some c \<and> spent c" by (auto simp: map_of_updated)
  qed
qed

lemma update_hears:
  assumes "conns_ok w" "clients w' = updated i f (clients w)" "next_id w' = next_id w" "view_index w' = view_index w"
    and "\<And>c. map_of (clients w) i = Some c \<Longrightarrow> out_ok c \<Longrightarrow> told json [] (view_index w) (view_index w) c (f c)"
  shows "hears json [] w w'"
  unfolding hears_def
proof (intro conjI allI impI)
  show "next_id w \<le> next_id w'" using assms by simp
  fix j c' assume "map_of (clients w') j = Some c'"
  then obtain c where c: "map_of (clients w) j = Some c" "c' = (if j = i then f c else c)"
    by (auto simp: assms(2) map_of_updated split: if_splits)
  with assms conns_ok_map_of [OF assms(1) c(1)]
  show "\<exists>c. map_of (clients w) j = Some c \<and> told json [] (view_index w) (view_index w') c c'" by auto
qed

text \<open>What happens to a connection that is dropped right after does not matter.\<close>

lemma hears_but_dropped:
  assumes "hears json [] w wa" "clients wb = updated i f (clients wa)" "next_id wb = next_id wa"
    "view_index wb = view_index wa" "hears json [] wb wc" "i \<notin> conn_ids wc"
  shows "hears json [] w wc"
  unfolding hears_def
proof (intro conjI allI impI)
  show "next_id w \<le> next_id wc" using assms by (simp add: hears_def)
  fix j e assume j: "j < next_id w" "map_of (clients wc) j = Some e"
  with assms have "j < next_id wb" by (simp add: hears_def)
  with assms(5) j obtain d where d: "map_of (clients wb) j = Some d"
    "told json [] (view_index wb) (view_index wc) d e" unfolding hears_def by blast
  have "j \<noteq> i" using j assms(6) conn_ids_map_of [of j wc] by auto
  with d assms have "map_of (clients wa) j = Some d" by (auto simp: map_of_updated)
  with assms(1) j obtain c where "map_of (clients w) j = Some c" "told json [] (view_index w) (view_index wa) c d"
    unfolding hears_def by blast
  with d assms(4) told_trans show "\<exists>c. map_of (clients w) j = Some c \<and> told json [] (view_index w) (view_index wc) c e"
    by metis
qed

lemma told_same:
  "stream c' = stream c \<Longrightarrow> (subscriber c \<longrightarrow> subscriber c') \<Longrightarrow> (spent c \<longrightarrow> spent c') \<Longrightarrow> told json [] v v c c'"
  by (auto simp: told_def intro!: exI [of _ "[]"])

lemma told_line: "out_ok c \<Longrightarrow> last_view v [ev] = v \<Longrightarrow> told json [] v v c (snd (send_line (json ev) c))"
  using send_line_stream [of "json ev" c "fst (send_line (json ev) c)" "snd (send_line (json ev) c)"]
  by (auto simp: told_def same_input_def intro!: exI [of _ "[ev]"])

lemma send_line_keeps: "out_ok c \<Longrightarrow> out_ok (snd (send_line line c)) \<and> (spent c \<longrightarrow> spent (snd (send_line line c)))"
  using send_line_stream [of line c "fst (send_line line c)" "snd (send_line line c)"] by simp

lemma write_response_keeps:
  "out_ok c \<Longrightarrow> out_ok (snd (write_response line c)) \<and> (spent c \<longrightarrow> spent (snd (write_response line c)))"
  using write_response_stream [of line c "fst (write_response line c)" "snd (write_response line c)"]
  by (simp split: if_splits)

lemma told_response:
  "out_ok c \<Longrightarrow> \<not> (spent c \<and> subscriber c) \<Longrightarrow> told json [] v v c (snd (write_response line c))"
  using write_response_stream [of line c "fst (write_response line c)" "snd (write_response line c)"]
  by (auto simp: told_def same_input_def split: if_splits)

text \<open>The invariants, and what subscribers are told, of one step; \<open>live\<close> when registrations get their replies.\<close>

definition good_step :: "(ipc_event \<Rightarrow> bytes) \<Rightarrow> bool \<Rightarrow> wm \<Rightarrow> wm \<Rightarrow> bool" where
  "good_step json live w w' \<longleftrightarrow> conns_ok w' \<and> axis_ok w' \<and> hears json [] w w' \<and>
     (live \<longrightarrow> machines_live w \<longrightarrow> machines_live w')"

lemma push_event_to_good:
  assumes "conns_ok w" "axis_ok w" "\<And>v. last_view v [ev] = v"
  shows "good_step json live w (push_event_to json i ev w)"
  using update_keeps [OF assms(1,2), of "push_event_to json i ev w" i "\<lambda>c. snd (send_line (json ev) c)"]
    update_hears [OF assms(1), of "push_event_to json i ev w" i "\<lambda>c. snd (send_line (json ev) c)"]
    send_line_keeps told_line assms(3)
  by (auto simp: push_event_to_def good_step_def)

lemma set_view_good:
  "conns_ok w \<Longrightarrow> set_view (emit_event json) index w = Some w' \<Longrightarrow> good_step json live w w'"
  using telling.set_view_ok unfolding good_step_def by blast

lemma drop_good:
  "conns_ok w \<Longrightarrow> axis_ok w \<Longrightarrow> drop_ipc_client (emit_event json) i w = Some w' \<Longrightarrow>
   good_step json live w w' \<and> i \<notin> conn_ids w'"
  using telling.drop_ipc_client_ok unfolding good_step_def by blast

lemma good_step_refl: "conns_ok w \<Longrightarrow> axis_ok w \<Longrightarrow> good_step json live w w"
  by (simp add: good_step_def)

lemma good_step_same:
  assumes "conns_ok w" "axis_ok w" "clients w' = clients w" "next_id w' = next_id w"
    "view_index w' = view_index w" "remote_clients w' = remote_clients w"
  shows "good_step json live w w'"
  using assms by (auto simp: good_step_def conns_ok_def axis_ok_def machines_live_def intro: hears_same)

text \<open>A connection changed and then dropped.\<close>

lemma update_drop_good:
  assumes "conns_ok w" "good_step json live w wa" "clients wb = updated i f (clients wa)" "next_id wb = next_id wa"
    "view_index wb = view_index wa" "remote_clients wb = remote_clients wa"
    "\<And>c. out_ok c \<Longrightarrow> out_ok (f c) \<and> (spent c \<longrightarrow> spent (f c))"
    "drop_ipc_client (emit_event json) i wb = Some wc"
  shows "good_step json live w wc"
proof -
  have wa: "conns_ok wa" "axis_ok wa" "hears json [] w wa" using assms(2) by (simp_all add: good_step_def)
  note u = update_keeps [OF wa(1,2) assms(3-7)]
  then have d: "good_step json live wb wc" "i \<notin> conn_ids wc" using drop_good assms(8) by blast+
  have "hears json [] w wc"
    using hears_but_dropped [OF wa(3) assms(3-5)] d by (simp add: good_step_def)
  with d u assms(2) show ?thesis by (auto simp: good_step_def)
qed

lemma accept_good:
  assumes "conns_ok w" "axis_ok w"
  shows "good_step json live w (accept_client sock w)"
proof -
  have n: "map_of (clients w) (next_id w) = None" using assms(1) conns_ok_map_of [of w "next_id w"] by (metis less_irrefl option.exhaust)
  then have mo: "map_of (clients (accept_client sock w)) i =
      (case map_of (clients w) i of Some c \<Rightarrow> Some c | None \<Rightarrow> if i = next_id w then Some (new_client sock) else None)" for i
    by (auto simp: accept_client_def map_add_def split: option.splits)
  have "next_id w \<notin> fst ` set (clients w)" using n by (simp add: map_of_eq_None_iff)
  with assms(1) have "conns_ok (accept_client sock w)"
    by (auto simp: conns_ok_def accept_client_def out_ok_def new_client_def)
  moreover have "hears json [] w (accept_client sock w)"
    by (auto simp: hears_def mo accept_client_def split: option.splits if_splits)
  moreover have "machines_live w \<Longrightarrow> machines_live (accept_client sock w)"
    unfolding machines_live_def mo by (fastforce simp: accept_client_def)
  ultimately show ?thesis using assms(2) by (simp add: good_step_def axis_ok_def accept_client_def)
qed

lemma register_clients:
  "clients (fst (register_remote_client jr i l a b w)) =
     updated i (\<lambda>c. snd (write_response (jr (machine_entries (w\<lparr> remote_clients := remote_clients w @
       [\<lparr> client_id = i, label = l, width = a, height = b \<rparr>] \<rparr>)) (view_index w)) (c\<lparr> subscriber := True \<rparr>)))
       (clients w)"
  "next_id (fst (register_remote_client jr i l a b w)) = next_id w"
  "view_index (fst (register_remote_client jr i l a b w)) = view_index w"
  "wm_locked (fst (register_remote_client jr i l a b w)) = wm_locked w"
  "remote_clients (fst (register_remote_client jr i l a b w)) =
     remote_clients w @ [\<lparr> client_id = i, label = l, width = a, height = b \<rparr>]"
  by (simp_all add: register_remote_client_def Let_def subscribe_def reply_def machine_entries_def comp_def split_def)

lemma told_registration:
  "out_ok c \<Longrightarrow> \<not> spent c \<Longrightarrow> told json [] v v c (snd (write_response line (c\<lparr> subscriber := True \<rparr>)))"
  using write_response_stream [of line "c\<lparr> subscriber := True \<rparr>" "fst (write_response line (c\<lparr> subscriber := True \<rparr>))"
      "snd (write_response line (c\<lparr> subscriber := True \<rparr>))"]
  by (auto simp: told_def same_input_def out_ok_def)

lemma register_good:
  assumes "conns_ok w" "axis_ok w" "map_of (clients w) i = Some c" "\<not> spent c"
    and w': "w' = fst (register_remote_client jr i l a b w)"
    and live: "live \<Longrightarrow> map_option spent (map_of (clients w') i) = Some True"
  shows "good_step json live w w'"
proof -
  let ?f = "\<lambda>c. snd (write_response (jr (machine_entries (w\<lparr> remote_clients := remote_clients w @
       [\<lparr> client_id = i, label = l, width = a, height = b \<rparr>] \<rparr>)) (view_index w)) (c\<lparr> subscriber := True \<rparr>))"
  let ?w = "w\<lparr> clients := updated i ?f (clients w) \<rparr>"
  note cl = register_clients [of jr i l a b w, folded w']
  have f: "out_ok (?f c) \<and> (spent c \<longrightarrow> spent (?f c))" if "out_ok c" for c
    using write_response_keeps [of "c\<lparr> subscriber := True \<rparr>"] that by (simp add: out_ok_def)
  have u: "conns_ok ?w" "machines_live w \<Longrightarrow> machines_live ?w"
    using update_keeps [OF assms(1,2), of ?w i ?f] f by auto
  have "hears json [] w w'"
    using update_hears [OF assms(1), of w' i ?f] cl told_registration assms(3,4) by auto
  moreover have "conns_ok w'" using u(1) cl by (simp add: conns_ok_def)
  moreover have "axis_ok w'" using assms(2) cl by (simp add: axis_ok_def)
  moreover have "machines_live w'" if "live" "machines_live w"
  proof -
    from that(2) have "i \<notin> client_id ` set (remote_clients w)"
      using assms(3,4) by (auto simp: machines_live_def)
    moreover from live [OF that(1)] obtain d where "map_of (clients w') i = Some d" "spent d" by auto
    moreover have "clients w' = clients ?w" using cl by simp
    ultimately show ?thesis using u(2) [OF that(2)] cl by (simp add: machines_live_def)
  qed
  ultimately show ?thesis by (simp add: good_step_def)
qed

lemma subscribe_good:
  assumes "conns_ok w" "axis_ok w"
  shows "good_step json live w (subscribe i w)"
  using update_keeps [OF assms, of "subscribe i w" i "\<lambda>c. c\<lparr> subscriber := True \<rparr>"]
    update_hears [OF assms(1), of "subscribe i w" i "\<lambda>c. c\<lparr> subscriber := True \<rparr>" json]
  by (auto simp: subscribe_def good_step_def out_ok_def told_same stream_def)

lemma socket_good:
  assumes "conns_ok w" "axis_ok w"
  shows "good_step json live w (w\<lparr> clients := updated i (\<lambda>c. c\<lparr> socket := ws \<rparr>) (clients w) \<rparr>)"
  using update_keeps [OF assms, of "w\<lparr> clients := updated i (\<lambda>c. c\<lparr> socket := ws \<rparr>) (clients w) \<rparr>" i "\<lambda>c. c\<lparr> socket := ws \<rparr>"]
    update_hears [OF assms(1), of "w\<lparr> clients := updated i (\<lambda>c. c\<lparr> socket := ws \<rparr>) (clients w) \<rparr>" i "\<lambda>c. c\<lparr> socket := ws \<rparr>" json]
  by (auto simp: good_step_def out_ok_def told_same stream_def)

lemma reply_good:
  assumes "conns_ok w" "axis_ok w" "map_of (clients w) i = Some c" "\<not> (spent c \<and> subscriber c)"
  shows "good_step json live w (reply i line w)"
  using update_keeps [OF assms(1,2), of "reply i line w" i "\<lambda>c. snd (write_response line c)"]
    update_hears [OF assms(1), of "reply i line w" i "\<lambda>c. snd (write_response line c)" json]
    write_response_keeps told_response assms(3,4)
  by (auto simp: reply_def good_step_def)

lemma flush_good:
  assumes "conns_ok w" "axis_ok w" "flush_ipc_client (emit_event json) i w = Some w'"
  shows "good_step json live w w'"
proof (cases "map_of (clients w) i")
  case None
  with assms show ?thesis
    by (auto simp: flush_ipc_client_def split: option.splits bool.splits prod.splits intro!: good_step_same)
next
  case (Some c)
  obtain r d where d: "client_flush_out c = (r, d)" by fastforce
  have c: "out_ok c" using conns_ok_map_of [OF assms(1) Some] by simp
  from flush_loop_stream [OF d [unfolded client_flush_out_def] c]
  have f: "stream d = stream c" "out_ok d" "same_input c d" "spent d = spent c" by blast+
  define g where "g = (\<lambda>e. if e = c then (case r of
      None \<Rightarrow> d\<lparr> out_bytes := [], out_pos := 0 \<rparr> | Some True \<Rightarrow> d\<lparr> wants_flush := False \<rparr> | Some False \<Rightarrow> d) else e)"
  have sc: "set_client i (g c) (clients w) = updated i g (clients w)"
    using assms(1) Some by (auto simp: set_client_def conns_ok_def dest!: map_of_SomeD) (metis eq_key_imp_eq_value)
  have keep: "out_ok e \<Longrightarrow> out_ok (g e) \<and> (spent e \<longrightarrow> spent (g e))" for e
    using f by (auto simp: g_def out_ok_def split: option.splits bool.splits)
  show ?thesis
  proof (cases r)
    case None
    then have gc: "g c = d\<lparr> out_bytes := [], out_pos := 0 \<rparr>" by (simp add: g_def)
    have dr: "drop_ipc_client (emit_event json) i (w\<lparr> clients := updated i g (clients w) \<rparr>) = Some w'"
      using assms(3) Some d None by (simp add: flush_ipc_client_def gc [symmetric] sc)
    show ?thesis
      by (rule update_drop_good [OF assms(1) good_step_refl [OF assms(1,2)] _ _ _ _ keep dr]) simp_all
  next
    case (Some b)
    then have gc: "g c = (if b then d\<lparr> wants_flush := False \<rparr> else d)" by (simp add: g_def)
    have w': "w' = w\<lparr> clients := updated i g (clients w) \<rparr>"
      using assms(3) \<open>map_of (clients w) i = Some c\<close> d Some
      by (cases b) (simp_all add: flush_ipc_client_def sc [symmetric] gc)
    have "told json [] (view_index w) (view_index w) c (g c)"
      using f gc by (intro told_same) (auto simp: same_input_def stream_def)
    then show ?thesis
      using update_keeps [OF assms(1,2), of w' i g] update_hears [OF assms(1), of w' i g json] keep w'
        \<open>map_of (clients w) i = Some c\<close>
      by (auto simp: good_step_def)
  qed
qed

lemma good_step_cong:
  assumes "good_step json live w wa" "clients w' = clients wa" "next_id w' = next_id wa"
    "view_index w' = view_index wa" "remote_clients w' = remote_clients wa"
  shows "good_step json live w w'"
  using assms by (auto simp: good_step_def conns_ok_def axis_ok_def machines_live_def hears_def)

lemma focus_good:
  "conns_ok w \<Longrightarrow> focus_machine_relative (emit_event json) delta w = Some w' \<Longrightarrow> good_step json live w w'"
  unfolding focus_machine_relative_def Let_def by (rule set_view_good)

lemma captured_key_good:
  assumes "conns_ok w" "axis_ok w" "handle_captured_key (emit_event json) json bound target key pressed w = Some w'"
  shows "good_step json live w w'"
proof (cases "stays_local bound")
  case False
  with assms push_event_to_good [OF assms(1,2)] show ?thesis
    by (auto simp: handle_captured_key_def forward_captured_def)
next
  case True
  then obtain a where a: "bound = Some a" by (cases bound) auto
  have h: "(if pressed then dispatch_axis_action (emit_event json) json a w else Some w) = Some w'"
    using assms(3) True a by (cases pressed) (simp_all add: handle_captured_key_def)
  show ?thesis
  proof (cases pressed)
    case False
    with h good_step_refl [OF assms(1,2)] show ?thesis by simp
  next
    case True
    with h have 2: "dispatch_axis_action (emit_event json) json a w = Some w'" by simp
    have clip: "good_step json live w (forward_clipboard json op w)" for op
      using push_event_to_good [OF assms(1,2)] good_step_refl [OF assms(1,2)]
      by (simp add: forward_clipboard_def split: option.split)
    show ?thesis
    proof (cases a)
      case (FocusMachineRelative delta)
      with 2 focus_good [OF assms(1)] show ?thesis by (simp add: dispatch_axis_action_def)
    next
      case RemoteBreakout
      with 2 set_view_good [OF assms(1)] show ?thesis by (simp add: dispatch_axis_action_def)
    qed (use 2 clip good_step_refl [OF assms(1,2)] in \<open>auto simp: dispatch_axis_action_def\<close>)
  qed
qed

lemma wm_step_good:
  assumes "wm_step json jr answered w w'" "conns_ok w" "axis_ok w"
  shows "good_step json answered w w'"
  using assms(1)
proof cases
  case (Accept sock)
  with accept_good [OF assms(2,3)] show ?thesis by simp
next
  case (Register i c l a b)
  show ?thesis by (rule register_good [OF assms(2,3) Register(2,3) Register(1)]) (use Register in simp)
next
  case (SetView i c index w1)
  from SetView(3) obtain wa where wa: "set_view (emit_event json) index w = Some wa"
    "w1 = reply i (jr (machine_entries wa) (view_index wa)) wa" by (auto simp: request_set_view_def)
  have "good_step json answered w wa" by (rule set_view_good [OF assms(2) wa(1)])
  then show ?thesis
    by (rule update_drop_good [where f = "\<lambda>c. snd (write_response (jr (machine_entries wa) (view_index wa)) c)",
            OF assms(2) _ _ _ _ _ write_response_keeps SetView(4)])
       (simp_all add: wa reply_def)
next
  case (Status i c)
  show ?thesis
    by (rule update_drop_good [where f = "\<lambda>c. snd (write_response (jr (machine_entries w) (view_index w)) c)",
            OF assms(2) good_step_refl [OF assms(2,3)] _ _ _ _ write_response_keeps Status(3)])
       (simp_all add: remote_client_status_def reply_def)
next
  case (Reply i c line)
  with reply_good [OF assms(2,3) Reply(2,3)] show ?thesis by simp
next
  case (Subscribe i)
  with subscribe_good [OF assms(2,3)] show ?thesis by simp
next
  case (Key bound key pressed f)
  with captured_key_good [OF assms(2,3)] good_step_refl [OF assms(2,3)] show ?thesis
    by (auto simp: process_key_def split: if_splits option.splits)
next
  case (Button button pressed)
  with push_event_to_good [OF assms(2,3)] good_step_refl [OF assms(2,3)] show ?thesis
    by (auto simp: process_button_def forward_captured_def split: option.splits)
next
  case (Motion move)
  have "good_step json answered w (forward_captured json t e (w\<lparr> remote_pointer := p \<rparr>))" for t e p
    using push_event_to_good [OF assms(2,3), of "EvCaptured e" json answered t]
    by (rule good_step_cong) (simp_all add: forward_captured_def push_event_to_def)
  with Motion good_step_refl [OF assms(2,3)] show ?thesis
    by (auto simp: pointer_motion_def Let_def split: option.splits)
next
  case (Axis h v wheel)
  with push_event_to_good [OF assms(2,3)] good_step_refl [OF assms(2,3)] show ?thesis
    by (auto simp: pointer_axis_def forward_captured_def split: option.splits)
next
  case (Closed i)
  with drop_good [OF assms(2,3)] show ?thesis by blast
next
  case (Flush i)
  with flush_good [OF assms(2,3)] show ?thesis by blast
next
  case (Linger idle i)
  then show ?thesis by (intro good_step_same [OF assms(2,3)]) (simp_all add: check_ipc_linger_def)
next
  case (Event n)
  note e = telling.emit_ok [OF assms(2,3) Event]
  have "hears json [] w w'"
    unfolding hears_def
  proof (intro conjI allI impI)
    show "next_id w \<le> next_id w'" using e by (simp add: hears_def)
    fix i c' assume "i < next_id w" "map_of (clients w') i = Some c'"
    with e obtain c where c: "map_of (clients w) i = Some c"
      "told json [EvOther n] (view_index w) (view_index w') c c'" unfolding hears_def by blast
    then have "told json [] (view_index w) (view_index w') c c'"
      unfolding told_def by (metis append_Cons append_Nil last_view.simps(5))
    with c show "\<exists>c. map_of (clients w) i = Some c \<and> told json [] (view_index w) (view_index w') c c'" by blast
  qed
  with e show ?thesis by (auto simp: good_step_def)
next
  case (Socket i ws)
  with socket_good [OF assms(2,3)] show ?thesis by simp
next
  case (Park i k)
  then show ?thesis by (intro good_step_same [OF assms(2,3)]) simp_all
next
  case (Lock b)
  then show ?thesis by (intro good_step_same [OF assms(2,3)]) simp_all
qed

lemma wm_run_good:
  "wm_run json jr answered w w' \<Longrightarrow> conns_ok w \<Longrightarrow> axis_ok w \<Longrightarrow> good_step json answered w w'"
proof (induction rule: wm_run.induct)
  case (Start w)
  then show ?case by (simp add: good_step_def)
next
  case (Step w w' w'')
  then have a: "good_step json answered w w'" by simp
  then have "good_step json answered w' w''"
    using wm_step_good [OF Step.hyps(2)] by (simp add: good_step_def)
  with a show ?case using hears_trans by (auto simp: good_step_def)
qed

text \<open>C23. Whatever happens to the window manager, a viewer that registered and
  stays connected is told of every change of the view, in order, and the last it was told is the view:
  what its connection carries from then on is a sequence of whole event lines, and the last
  \<open>ViewChanged\<close> among them (or the view when it registered, if there is none) names the current
  view. In particular captured input, clipboard requests and other events never split or reorder
  them, and the connections dropped on the way, with the events their leaving causes, do not either.\<close>

theorem viewers_know_the_view:
  assumes "conns_ok w" "axis_ok w" "wm_run json jr answered w w'"
    and "map_of (clients w) i = Some c" "subscriber c" "spent c" "map_of (clients w') i = Some c'"
  shows "\<exists>evs. stream c' = stream c @ lines json evs \<and> last_view (view_index w) evs = view_index w'"
proof -
  have "hears json [] w w'" using wm_run_good [OF assms(3,1,2)] by (simp add: good_step_def)
  moreover have "i < next_id w" using conns_ok_map_of [OF assms(1,4)] by simp
  ultimately have "told json [] (view_index w) (view_index w') c c'" using hearsD assms(4,7) by blast
  then show ?thesis using assms(5,6) unfolding told_def by simp
qed

text \<open>Whoever is to be dropped is gone at the end, and nobody comes back.\<close>

lemma failed_subscriber_gone:
  assumes "conns_ok w" "axis_ok w" "emit_event json ev w = Some w'"
    and "map_of (clients w) i = Some c" "subscriber c" "\<not> fst (send_subscribed (json ev) c)"
  shows "i \<notin> conn_ids w'"
proof -
  obtain cs dr where p: "push_all (json ev) (clients w) = (cs, dr)" by fastforce
  have d: "distinct (map fst (clients w))" using assms(1) by (simp add: conns_ok_def)
  have i: "i \<in> set dr" using push_all_map_of [OF d, of "json ev" i] p assms(4-6) by auto
  from assms(3) p have e: "drop_each (emit_fuel (length (clients w)) json) dr (w\<lparr> clients := cs \<rparr>) = Some w'"
    by (simp add: emit_event_def)
  have "axis_ok (w\<lparr> clients := cs \<rparr>)" using assms(2) by (simp add: axis_ok_def)
  from listeners.drop_each_ok [OF listeners_emit_fuel push_all_sends(5) [OF assms(1) p] this e] i
  show ?thesis by blast
qed

section \<open>The fuel does not matter\<close>

text \<open>An emitter that does what another does where that one ends.\<close>

locale emitter_extends =
  fixes emit emit' :: emitter
  assumes extends: "emit ev w = Some w' \<Longrightarrow> emit' ev w = Some w'"
begin

lemma set_view_extends: "set_view emit index w = Some w' \<Longrightarrow> set_view emit' index w = Some w'"
  using extends by (simp add: set_view_def Let_def split: if_splits)

lemma drop_remote_client_extends:
  "drop_remote_client emit i w = Some r \<Longrightarrow> drop_remote_client emit' i w = Some r"
  using set_view_extends by (auto simp: drop_remote_client_def Let_def split: option.splits if_splits)

lemma drop_ipc_client_extends: "drop_ipc_client emit i w = Some w' \<Longrightarrow> drop_ipc_client emit' i w = Some w'"
  using drop_remote_client_extends by (fastforce simp: drop_ipc_client_def)

lemma drop_each_extends: "drop_each emit is w = Some w' \<Longrightarrow> drop_each emit' is w = Some w'"
  by (induction "is" arbitrary: w) (auto simp: Option.bind_eq_Some_conv dest!: drop_ipc_client_extends)

end

lemma emit_fuel_Suc: "emitter_extends (emit_fuel k json) (emit_fuel (Suc k) json)"
proof (induction k)
  case 0
  show ?case by unfold_locales simp
next
  case (Suc k)
  show ?case
  proof
    fix ev and w w' :: wm
    assume e: "emit_fuel (Suc k) json ev w = Some w'"
    obtain cs dr where p: "push_all (json ev) (clients w) = (cs, dr)" by fastforce
    with e have "drop_each (emit_fuel k json) dr (w\<lparr> clients := cs \<rparr>) = Some w'" by simp
    from emitter_extends.drop_each_extends [OF Suc this] p
    show "emit_fuel (Suc (Suc k)) json ev w = Some w'" by (simp only: emit_fuel.simps(2) [of "Suc k"] p Let_def prod.case)
  qed
qed

lemma emit_fuel_more:
  assumes "k \<le> k'" "emit_fuel k json ev w = Some w'"
  shows "emit_fuel k' json ev w = Some w'"
  using assms by (induction k' rule: dec_induct)
     (simp_all del: emit_fuel.simps add: emitter_extends.extends [OF emit_fuel_Suc])

lemma emit_event_fuel:
  assumes "length (clients w) < k"
  shows "emit_fuel k json ev w = emit_event json ev w \<and> emit_event json ev w \<noteq> None"
proof -
  obtain w' where w': "emit_event json ev w = Some w'"
    using bounded_emitter.emit_ends [OF bounded_emit_fuel, of w "Suc (length (clients w))"]
    by (auto simp: emit_event_def)
  with emit_fuel_more [of "Suc (length (clients w))" k json ev w w'] assms show ?thesis
    by (simp add: emit_event_def)
qed

section \<open>Properties\<close>

text \<open>Broadcasting an event always ends, although a subscriber that cannot be
  written is dropped on the spot and its leaving may itself be broadcast, with more subscribers
  dropped: any recursion depth above the number of connections gives the same result. Afterwards
  every subscriber whose write failed is gone, nobody new is there, and every subscriber that is
  still connected got the event's line first, whatever was told after it.\<close>

theorem telling_everybody_ends:
  assumes "conns_ok w" "axis_ok w"
  shows "\<exists>w'. (\<forall>k > length (clients w). emit_fuel k json ev w = Some w') \<and> emit_event json ev w = Some w' \<and>
    conn_ids w' \<subseteq> conn_ids w \<and>
    (\<forall>i c. map_of (clients w) i = Some c \<and> subscriber c \<and> \<not> fst (send_subscribed (json ev) c) \<longrightarrow>
       i \<notin> conn_ids w') \<and>
    (\<forall>i c c'. map_of (clients w) i = Some c \<and> subscriber c \<and> spent c \<and> map_of (clients w') i = Some c' \<longrightarrow>
       (\<exists>more. stream c' = stream c @ json ev @ [newline] @ more))"
proof -
  obtain w' where w': "emit_event json ev w = Some w'"
    using emit_event_fuel [of w "Suc (length (clients w))" json ev] by auto
  have fuel: "\<forall>k > length (clients w). emit_fuel k json ev w = Some w'"
    using emit_event_fuel w' by metis
  note e = telling.emit_ok [OF assms w']
  have gone: "i \<notin> conn_ids w'"
    if "map_of (clients w) i = Some c" "subscriber c" "\<not> fst (send_subscribed (json ev) c)" for i c
    by (rule failed_subscriber_gone [OF assms w' that])
  have "\<exists>more. stream c' = stream c @ json ev @ [newline] @ more"
    if "map_of (clients w) i = Some c" "subscriber c" "spent c" "map_of (clients w') i = Some c'" for i c c'
  proof -
    have "i < next_id w" using conns_ok_map_of [OF assms(1) that(1)] by simp
    with hearsD e that have "told json [ev] (view_index w) (view_index w') c c'" by blast
    with that obtain evs where "stream c' = stream c @ lines json ([ev] @ evs)" unfolding told_def by blast
    then show ?thesis by simp
  qed
  with w' fuel gone e show ?thesis by (auto simp: shrinks_def)
qed

text \<open>The viewer shows itself exactly when the last view it was told is its own index.\<close>

lemma hear_active:
  "(view_active (fst vn) \<longleftrightarrow> v = my) \<Longrightarrow>
   view_active (fst (hear my vn es)) \<longleftrightarrow> last_view v (map fst es) = my"
proof (induction my vn es arbitrary: v rule: hear.induct)
  case (2 my vn ev clip ws es)
  let ?v = "last_view v [ev]"
  have "view_active (fst (handle_wm_event (fst vn) (snd vn) my clip ws (notice_of ev))) \<longleftrightarrow> ?v = my"
    using "2.prems" by (cases ev) (auto simp: handle_wm_event_def Let_def split: clipboard_op.splits option.splits if_splits)
  from "2.IH" [OF this] show ?case by (cases ev) simp_all
qed simp

lemma inactive_viewer_relays_nothing:
  "\<not> view_active v \<Longrightarrow> handle_wm_event v n my clip ws (CapturedInput e) = (v, n)"
  by (simp add: handle_wm_event_def)

text \<open>The lines of events are taken off as those events.\<close>

definition json_ok :: "(ipc_event \<Rightarrow> bytes) \<Rightarrow> (bytes \<Rightarrow> ipc_event option) \<Rightarrow> ipc_event \<Rightarrow> bool" where
  "json_ok json parse ev \<longleftrightarrow> newline \<notin> set (json ev) \<and> json ev \<noteq> [] \<and> valid_utf8 (json ev) \<and> parse (json ev) = Some ev"

lemma take_events_lines:
  "list_all (json_ok json parse) evs \<Longrightarrow> newline \<notin> set left \<Longrightarrow> take_events parse (lines json evs @ left) = (evs, left)"
proof (induction evs)
  case Nil
  then have "position (\<lambda>b. b = newline) left = None" by (auto simp: position_None)
  then show ?case by (simp add: take_events.simps)
next
  case (Cons e evs)
  then have "position (\<lambda>b. b = newline) (json e) = None" by (auto simp: position_None json_ok_def)
  then have p: "position (\<lambda>b. b = newline) (lines json (e # evs) @ left) = Some (length (json e))"
    by (simp add: position_over_append)
  from Cons show ?case by (subst take_events.simps, subst p) (simp add: json_ok_def Let_def)
qed

lemma read_available_append: "read_available pend (map Got bss) = Some (pend @ concat bss)"
  by (induction bss arbitrary: pend) simp_all

text \<open>A window manager as it starts.\<close>

definition wm_start :: wm where
  "wm_start = \<lparr> clients = [], lingering = [], next_id = 0, parked = [], remote_clients = [],
     view_index = 0, remote_pointer = (0, 0), wm_locked = False \<rparr>"

lemma wm_start_ok: "conns_ok wm_start" "axis_ok wm_start" "machines_live wm_start"
  by (simp_all add: wm_start_def conns_ok_def axis_ok_def machines_live_def)

text \<open>Capture mode never strands: in every state the window manager can get into,
  with any number of machines coming and going, a view other than local is a machine that is on
  the axis; and as long as every registration got its reply, the connection that captured input is
  sent to is one that is connected.\<close>

theorem capture_never_strands:
  assumes "wm_run json jr answered wm_start w"
  shows "(view_index w = 0 \<longleftrightarrow> active_machine w = None) \<and>
    (answered \<and> captured_client w = Some i \<longrightarrow> i \<in> conn_ids w)"
proof -
  have g: "axis_ok w" "answered \<longrightarrow> machines_live w"
    using wm_run_good [OF assms wm_start_ok(1,2)] wm_start_ok(3) by (auto simp: good_step_def)
  have "i \<in> conn_ids w" if "answered" "captured_client w = Some i"
  proof -
    from that(2) obtain m where "machine_at w = Some m" "client_id m = i"
      by (auto simp: captured_client_def split: if_splits)
    then have "m \<in> set (remote_clients w)" "client_id m = i"
      by (auto simp: machine_at_def Let_def split: if_splits)
    with g(2) that(1) have "map_of (clients w) i \<noteq> None" by (auto simp: machines_live_def)
    then show ?thesis using conn_ids_map_of by blast
  qed
  with g(1) active_machine_nth show ?thesis by auto
qed

text \<open>Whichever connection drops, and whatever other connections its leaving drops in
  turn, the machine in view stays in view while its own connection is there; when that is gone the
  view is the local machine. (With at most 255 machines; the axis counts in a byte.)\<close>

theorem machine_in_view_stays:
  assumes "conns_ok w" "axis_ok w" "length (remote_clients w) \<le> 255"
    and "active_machine w = Some m" "drop_ipc_client (emit_event json) i w = Some w'"
  shows "if client_id m \<in> conn_ids w' then active_machine w' = Some m
    else active_machine w' = Some m \<or> active_machine w' = None \<and> view_index w' = 0"
  using telling.drop_ipc_client_ok [OF assms(1,2,5)] assms(3,4)
  by (auto simp: stays_def active_machine_def)

text \<open>What the viewer makes of it is another matter: it keeps the index it was given when it
  registered. When a machine earlier on the axis leaves while this one is in view, the window manager
  still captures all input for this viewer, but tells it of a view that is not its index: the viewer
  hides itself and relays none of the input it is sent.\<close>

theorem earlier_leaving_blinds_viewer:
  assumes "conns_ok w" "axis_ok w" "length (remote_clients w) \<le> 255" "\<not> wm_locked w"
    and "active_machine w = Some m" "map_of (clients w) (client_id m) = Some c" "subscriber c" "spent c"
    and "position (\<lambda>c. client_id c = j) (remote_clients w) = Some ix" "Suc ix < unat (view_index w)"
    and "drop_ipc_client (emit_event json) j w = Some w'" "map_of (clients w') (client_id m) = Some c'"
  shows "captured_client w' = Some (client_id m) \<and>
    (\<exists>evs. stream c' = stream c @ lines json evs \<and>
      (\<forall>es v n. map fst es = evs \<and> view_active v \<longrightarrow>
         (\<forall>e clip ws. handle_wm_event (fst (hear (view_index w) (v, n) es)) (snd (hear (view_index w) (v, n) es))
            (view_index w) clip ws (CapturedInput e) = hear (view_index w) (v, n) es)))"
proof -
  note d = telling.drop_ipc_client_ok [OF assms(1,2,11)]
  have "client_id m \<in> conn_ids w'" using assms(12) conn_ids_map_of [of "client_id m" w'] by simp
  with d assms(3,5) have am: "active_machine w' = Some m" by (auto simp: stays_def)
  then have "view_index w' \<noteq> 0" "machine_at w' = Some m" by (auto simp: active_machine_def split: if_splits)
  with d assms(4) have "captured_client w' = Some (client_id m)" by (simp add: captured_client_def shrinks_def)
  moreover have low: "view_index w' \<noteq> view_index w"
    using telling.earlier_machine_leaving [OF assms(1,2,3,11,9,10)] by auto
  moreover obtain evs where evs: "stream c' = stream c @ lines json evs" "last_view (view_index w) evs = view_index w'"
  proof -
    have "client_id m < next_id w" using conns_ok_map_of [OF assms(1,6)] by simp
    with hearsD d assms(6,12) have "told json [] (view_index w) (view_index w') c c'" by blast
    with assms(7,8) that show ?thesis unfolding told_def by auto
  qed
  moreover have "handle_wm_event (fst (hear (view_index w) (v, n) es)) (snd (hear (view_index w) (v, n) es))
      (view_index w) clip ws (CapturedInput e) = hear (view_index w) (v, n) es"
    if "map fst es = evs" "view_active v" for es v n e clip ws
    using hear_active [of "(v, n)" "view_index w" "view_index w" es] that evs(2) low
    by (subst inactive_viewer_relays_nothing) auto
  ultimately show ?thesis by blast
qed

section \<open>Two machines\<close>

definition listening :: "write_result list \<Rightarrow> ipc_client" where
  "listening sock = (new_client sock)\<lparr> subscriber := True, spent := True \<rparr>"

definition two_machines :: wm where
  "two_machines = wm_start\<lparr> clients := [(0, listening []), (1, listening [])], next_id := 2,
     remote_clients := [\<lparr> client_id = 0, label = ''den'', width = 4, height = 2 \<rparr>,
       \<lparr> client_id = 1, label = ''attic'', width = 2, height = 2 \<rparr>],
     view_index := 2 \<rparr>"

definition json_demo :: "ipc_event \<Rightarrow> bytes" where
  "json_demo ev = (case ev of EvViewChanged i l \<Rightarrow> [118, i + 48] | _ \<Rightarrow> [111])"

definition told_client :: ipc_client where
  "told_client = (listening [])\<lparr> out_bytes := [118, 49, 10], wants_flush := True \<rparr>"

definition one_left :: wm where
  "one_left = wm_start\<lparr> clients := [(1, told_client)], next_id := 2,
     remote_clients := [\<lparr> client_id = 1, label = ''attic'', width = 2, height = 2 \<rparr>],
     view_index := 1, remote_pointer := (half_f64 2, half_f64 2) \<rparr>"

lemma push_demo: "send_subscribed (json_demo (EvViewChanged 1 l)) (listening []) = (True, told_client)"
  by (simp add: send_subscribed_def send_line_def client_flush_out_def json_demo_def listening_def new_client_def
      told_client_def backlog_len_def SUBSCRIBER_BACKLOG_def)

lemma two_machines_ok: "conns_ok two_machines" "axis_ok two_machines"
  by (simp_all add: two_machines_def wm_start_def conns_ok_def axis_ok_def listening_def new_client_def out_ok_def)

lemma den_leaves: "drop_ipc_client (emit_event json_demo) 0 two_machines = Some one_left"
proof -
  let ?w1 = "two_machines\<lparr> clients := [(1, listening [])], remote_clients := [\<lparr> client_id = 1, label = ''attic'', width = 2, height = 2 \<rparr>],
     view_index := 1, remote_pointer := (half_f64 2, half_f64 2) \<rparr>"
  have "emit_event json_demo (EvViewChanged 1 (Some ''attic'')) ?w1 = Some one_left"
    by (simp add: emit_event_def push_demo) (simp add: listening_def two_machines_def one_left_def push_demo [unfolded listening_def])
  then show ?thesis
    by (simp add: drop_ipc_client_def drop_remote_client_def set_view_def two_machines_def wm_start_def
        remove_connection_def listening_def new_client_def backlog_len_def remove_at_def view_after_removal_def
        active_machine_def machine_at_def active_machine_label_def)
qed

theorem telling_everybody_ends_witness:
  "\<exists>w'. emit_event json_demo (EvOther 0) (two_machines\<lparr> clients := [(0, listening [WriteFailed]), (1, listening [])] \<rparr>) = Some w' \<and>
    0 \<notin> conn_ids w'"
proof -
  let ?w = "two_machines\<lparr> clients := [(0, listening [WriteFailed]), (1, listening [])] \<rparr>"
  have "conns_ok ?w" "axis_ok ?w"
    by (simp_all add: two_machines_def wm_start_def conns_ok_def axis_ok_def listening_def new_client_def out_ok_def)
  note t = telling_everybody_ends [OF this, of json_demo "EvOther 0"]
  have "\<exists>w'. emit_event json_demo (EvOther 0) ?w = Some w' \<and>
      (\<forall>i c. map_of (clients ?w) i = Some c \<and> subscriber c \<and> \<not> fst (send_subscribed (json_demo (EvOther 0)) c) \<longrightarrow>
         i \<notin> conn_ids w')"
    using t by (elim exE conjE) (intro exI conjI, assumption+)
  then obtain w' where "emit_event json_demo (EvOther 0) ?w = Some w'"
    and gone: "\<forall>i c. map_of (clients ?w) i = Some c \<and> subscriber c \<and>
      \<not> fst (send_subscribed (json_demo (EvOther 0)) c) \<longrightarrow> i \<notin> conn_ids w'" by (elim exE conjE)
  moreover have "\<not> fst (send_subscribed (json_demo (EvOther 0)) (listening [WriteFailed]))"
    by (simp add: send_subscribed_def send_line_def client_flush_out_def json_demo_def listening_def new_client_def)
  moreover have "map_of (clients ?w) 0 = Some (listening [WriteFailed])" "subscriber (listening [WriteFailed])"
    by (simp_all add: two_machines_def listening_def)
  ultimately show ?thesis using gone [rule_format, of 0 "listening [WriteFailed]"] by (intro exI [of _ w'] conjI) simp_all
qed

lemma den_leaves_step: "wm_run json_demo jr answered two_machines one_left"
  by (rule wm_run.Step [OF wm_run.Start wm_step.Closed [OF den_leaves]])

theorem viewers_know_the_view_witness:
  "\<exists>evs. stream told_client = stream (listening []) @ lines json_demo evs \<and> last_view 2 evs = 1"
proof -
  have "map_of (clients two_machines) 1 = Some (listening [])" "subscriber (listening [])" "spent (listening [])"
    "map_of (clients one_left) 1 = Some told_client"
    by (simp_all add: two_machines_def one_left_def listening_def)
  from viewers_know_the_view [OF two_machines_ok den_leaves_step this]
  show ?thesis by (simp add: two_machines_def one_left_def)
qed

theorem capture_never_strands_witness:
  "active_machine (fst (register_remote_client (\<lambda>ms a. [49]) 0 ''den'' 4 2 (accept_client [] wm_start))) = None"
proof -
  let ?a = "accept_client [] wm_start"
  let ?r = "fst (register_remote_client (\<lambda>ms a. [49]) 0 ''den'' 4 2 ?a)"
  have c: "map_of (clients ?a) 0 = Some (new_client [])" by (simp add: accept_client_def wm_start_def)
  have "wm_run json_demo (\<lambda>ms a. [49]) True wm_start ?r"
  proof (rule wm_run.Step [OF wm_run.Step [OF wm_run.Start wm_step.Accept] wm_step.Register [OF c]])
    show "\<not> spent (new_client [])" by (simp add: new_client_def)
    show "map_option spent (map_of (clients ?r) 0) = Some True"
      by (simp add: register_clients map_of_updated c write_response_def send_line_def client_flush_out_def new_client_def)
  qed
  from conjunct1 [OF capture_never_strands [OF this, of 0]] register_clients(3) [of "\<lambda>ms a. [49]" 0 "''den''" 4 2 ?a]
  show ?thesis by (simp add: accept_client_def wm_start_def)
qed

theorem machine_in_view_stays_witness:
  "map_option label (active_machine (the (drop_ipc_client (emit_event json_demo) 0 two_machines))) = Some ''attic''"
proof -
  have "active_machine two_machines = Some \<lparr> client_id = 1, label = ''attic'', width = 2, height = 2 \<rparr>"
    by (simp add: two_machines_def active_machine_def machine_at_def Let_def)
  from machine_in_view_stays [OF two_machines_ok _ this den_leaves] show ?thesis
    by (simp add: den_leaves) (simp add: two_machines_def one_left_def)
qed

theorem earlier_leaving_blinds_viewer_witness:
  "captured_client one_left = Some 1 \<and> registered_index (machine_entries two_machines) = Some 2 \<and> view_index one_left = 1"
proof -
  have m: "active_machine two_machines = Some \<lparr> client_id = 1, label = ''attic'', width = 2, height = 2 \<rparr>"
    by (simp add: two_machines_def active_machine_def machine_at_def Let_def)
  have "captured_client one_left = Some (client_id \<lparr> client_id = 1, label = ''attic'', width = 2, height = 2 \<rparr>)"
    by (rule conjunct1 [OF earlier_leaving_blinds_viewer [OF two_machines_ok _ _ m _ _ _ _ _ den_leaves,
          where c = "listening []" and c' = told_client and ix = 0]])
       (simp_all add: two_machines_def one_left_def listening_def wm_start_def)
  moreover have "registered_index (machine_entries two_machines) = Some 2"
    by (simp add: registered_index_def machine_entries_def two_machines_def enumerate_eq_zip)
  ultimately show ?thesis by (simp add: one_left_def)
qed

text \<open>
  Why \<open>capture_never_strands\<close> asks for the replies: a registration whose reply cannot be written
  leaves the connection free to register again, and when it drops only the first of its machines
  leaves the axis. The other stays without a connection.
\<close>

lemma machine_outlives_connection:
  "\<exists>w. wm_run json jr False wm_start w \<and> clients w = [] \<and> map client_id (remote_clients w) = [0]"
proof -
  let ?m = "\<lparr> client_id = 0, label = ''den'', width = 4, height = 2 \<rparr>"
  define a where "a = accept_client [WriteFailed, WriteFailed] wm_start"
  define r where "r = fst (register_remote_client jr 0 ''den'' 4 2 a)"
  define q where "q = fst (register_remote_client jr 0 ''den'' 4 2 r)"
  have ca: "clients a = [(0, new_client [WriteFailed, WriteFailed])]" "remote_clients a = []" "view_index a = 0"
    by (simp_all add: a_def accept_client_def wm_start_def)
  have reg: "\<exists>d. clients (fst (register_remote_client jr 0 ''den'' 4 2 w)) = [(0, d)] \<and> \<not> spent d \<and> socket d = ws"
    if "clients w = [(0, c)]" "\<not> spent c" "socket c = WriteFailed # ws" "out_pos c = 0" for w c ws
    using that by (simp add: register_clients write_response_def send_line_def client_flush_out_def)
  obtain d where d: "clients r = [(0, d)]" "\<not> spent d"
    using reg [OF ca(1)] by (auto simp: r_def new_client_def)
  have q: "map fst (clients q) = [0]" "remote_clients q = [?m, ?m]" "view_index q = 0"
    using d ca by (simp_all add: q_def r_def register_clients)
  then obtain e where e: "clients q = [(0, e)]" by auto
  obtain w where w: "drop_ipc_client (emit_event json) 0 q = Some w" "clients w = []" "remote_clients w = [?m]"
  proof -
    have "\<exists>w. drop_ipc_client (emit_event json) 0 q = Some w \<and> clients w = [] \<and> remote_clients w = [?m]"
      using q e by (simp add: drop_ipc_client_def drop_remote_client_def remove_connection_def remove_at_def
          view_after_removal_def)
    with that show ?thesis by blast
  qed
  have "wm_step json jr False wm_start a" unfolding a_def by (rule wm_step.Accept)
  moreover have "wm_step json jr False a r" unfolding r_def
    by (rule wm_step.Register [of _ 0 "new_client [WriteFailed, WriteFailed]"]) (simp_all add: ca new_client_def)
  moreover have "wm_step json jr False r q" unfolding q_def
    by (rule wm_step.Register [of _ 0 d]) (simp_all add: d)
  moreover have "wm_step json jr False q w" by (rule wm_step.Closed [OF w(1)])
  ultimately have "wm_run json jr False wm_start w" by (meson wm_run.intros)
  with w show ?thesis by auto
qed

end
