(* ===== verification/SessionLock.thy ===== *)
theory SessionLock
  imports Prelude
begin

text \<open>
  The session lock (\<open>src/handlers/session_lock.rs\<close>), the keyboard focus it has to keep, and what
  starts it: the focus paths of \<open>src/state.rs\<close>, \<open>src/picker.rs\<close>, \<open>src/handlers/layer_shell.rs\<close>,
  \<open>src/handlers/xdg_shell.rs\<close> and \<open>src/ipc.rs\<close>, key handling and auto-repeat in \<open>src/input.rs\<close>,
  the lock command and the idle timer of \<open>src/idle_lock.rs\<close>. Instants are nanoseconds. The keyboard's
  focus is what the code last set; what smithay does with a focus change during a grab, xkb and
  rendering are left out. What is under the pointer, what a key is bound to, and whether a process
  starts are arguments.
\<close>

section \<open>State\<close>

datatype surface = AppSurface nat | LayerSurface nat | PopupSurface nat | LockSurface nat

record lock_state =
  since :: nat
  pending :: bool
  surfaces :: "(nat \<times> nat) list"
  saved_focus :: "surface option"

record lock_child =
  pid :: int
  command :: string
  child_locked :: bool

datatype action =
    FocusWorkspaceRelative int
  | MoveWindowToWorkspaceRelative int
  | ChangeVt u8
  | LockAction
  | AnyAction nat

text \<open>What the rest of the system sees.\<close>

datatype lock_effect =
    Confirmed
  | Rejected
  | Spawned string
  | LockFailed string "int option" "int option"
  | PickerReply nat
  | Forwarded surface u32 bool
  | Ran action

record seat =
  kb_focus :: "surface option"
  lock_session :: "lock_state option"
  lock_command :: string
  child :: "lock_child option"
  pending_picker :: "(nat \<times> surface option) option"
  key_repeat :: "(u32 \<times> action) option"
  last_user_activity :: nat
  idle_lock_secs :: nat
  lock_preview_secs :: nat
  idle_lock_timer :: "nat option"
  effects :: "lock_effect list"

definition nanos_of :: "nat \<Rightarrow> nat" where "nanos_of secs = secs * 1000000000"

definition tell :: "lock_effect \<Rightarrow> seat \<Rightarrow> seat" where
  "tell e s = s\<lparr> effects := effects s @ [e] \<rparr>"

definition is_locked :: "seat \<Rightarrow> bool" where
  "is_locked s \<longleftrightarrow> lock_session s \<noteq> None"

section \<open>The picker\<close>

text \<open>\<open>Err\<close> is \<open>None\<close>.\<close>

definition start_picker :: "nat \<Rightarrow> seat \<Rightarrow> seat option" where
  "start_picker client s =
    (if pending_picker s \<noteq> None then None
     else if is_locked s then None
     else Some (s\<lparr> kb_focus := None, pending_picker := Some (client, kb_focus s) \<rparr>))"

definition finish_picker :: "seat \<Rightarrow> seat" where
  "finish_picker s = (case pending_picker s of
     None \<Rightarrow> s
   | Some (client, saved) \<Rightarrow>
       (let s1 = s\<lparr> pending_picker := None \<rparr>;
            s2 = (if \<not> is_locked s1 then s1\<lparr> kb_focus := saved \<rparr> else s1)
        in tell (PickerReply client) s2))"

definition cancel_picker_if_owned_by :: "nat \<Rightarrow> seat \<Rightarrow> seat" where
  "cancel_picker_if_owned_by client s = (case pending_picker s of
     None \<Rightarrow> s
   | Some (owner, saved) \<Rightarrow>
       if owner \<noteq> client then s
       else (let s1 = s\<lparr> pending_picker := None \<rparr>
             in if \<not> is_locked s1 then s1\<lparr> kb_focus := saved \<rparr> else s1))"

definition picker_resolve_key :: "bool \<Rightarrow> bool \<Rightarrow> seat \<Rightarrow> seat" where
  "picker_resolve_key escape pressed s =
    (if pending_picker s = None then s else if pressed \<and> escape then finish_picker s else s)"

section \<open>The lock\<close>

text \<open>\<open>ptr\<close>: the output the pointer is on. The code's map has no order; here its first entry.\<close>

definition focus_lock_surface :: "nat option \<Rightarrow> seat \<Rightarrow> seat" where
  "focus_lock_surface ptr s = (case lock_session s of
     None \<Rightarrow> s
   | Some l \<Rightarrow>
       (let on_pointer = Option.bind ptr (map_of (surfaces l));
            surface = (case on_pointer of Some q \<Rightarrow> Some q
              | None \<Rightarrow> if surfaces l = [] then None else Some (snd (hd (surfaces l))))
        in case surface of
             None \<Rightarrow> s
           | Some q \<Rightarrow> if kb_focus s = Some (LockSurface q) then s else s\<lparr> kb_focus := Some (LockSurface q) \<rparr>))"

definition lock :: "nat \<Rightarrow> seat \<Rightarrow> seat" where
  "lock now s =
    (if lock_session s \<noteq> None then tell Rejected s
     else
       (let saved = kb_focus s;
            s1 = s\<lparr> kb_focus := None \<rparr>;
            s2 = finish_picker s1;
            s3 = s2\<lparr> child := map_option (\<lambda>c. c\<lparr> child_locked := True \<rparr>) (child s2) \<rparr>
        in s3\<lparr> lock_session := Some \<lparr> since = now, pending = True, surfaces = [], saved_focus = saved \<rparr> \<rparr>))"

definition unlock :: "seat \<Rightarrow> seat" where
  "unlock s = (case lock_session s of
     None \<Rightarrow> s
   | Some l \<Rightarrow>
       (let s1 = s\<lparr> lock_session := None \<rparr>
        in case saved_focus l of None \<Rightarrow> s1 | Some f \<Rightarrow> s1\<lparr> kb_focus := Some f \<rparr>))"

definition new_surface :: "nat option \<Rightarrow> nat option \<Rightarrow> nat \<Rightarrow> seat \<Rightarrow> seat" where
  "new_surface ptr output q s = (case output of
     None \<Rightarrow> s
   | Some oid \<Rightarrow>
       focus_lock_surface ptr (s\<lparr> lock_session :=
         map_option (\<lambda>l. l\<lparr> surfaces := (oid, q) # filter (\<lambda>(o', _). o' \<noteq> oid) (surfaces l) \<rparr>) (lock_session s) \<rparr>))"

definition maybe_confirm_lock :: "seat \<Rightarrow> seat" where
  "maybe_confirm_lock s = (case lock_session s of
     None \<Rightarrow> s
   | Some l \<Rightarrow>
       if \<not> pending l \<or> surfaces l = [] then s
       else tell Confirmed (s\<lparr> lock_session := Some (l\<lparr> pending := False \<rparr>) \<rparr>))"

definition lock_preview_active :: "nat \<Rightarrow> seat \<Rightarrow> bool" where
  "lock_preview_active now s = (case lock_session s of
     None \<Rightarrow> False
   | Some l \<Rightarrow> 0 < lock_preview_secs s \<and> since l < last_user_activity s \<and>
       now - last_user_activity s < nanos_of (lock_preview_secs s))"

definition lock_failed :: "string \<Rightarrow> int option \<Rightarrow> int option \<Rightarrow> seat \<Rightarrow> seat" where
  "lock_failed cmd code signal s = tell (LockFailed cmd code signal) s"

text \<open>Also returned: whether the child was the lock command.\<close>

definition note_lock_reaped :: "int \<Rightarrow> int option \<Rightarrow> int option \<Rightarrow> seat \<Rightarrow> bool \<times> seat" where
  "note_lock_reaped p code signal s = (case child s of
     None \<Rightarrow> (False, s)
   | Some c \<Rightarrow>
       if pid c \<noteq> p then (False, s)
       else (let s1 = s\<lparr> child := None \<rparr>
             in (True, if \<not> child_locked c \<and> \<not> is_locked s1 then lock_failed (command c) code signal s1 else s1)))"

text \<open>\<open>split_whitespace().next()\<close> finds a word when something is not a space; \<open>started\<close> is the child, if it starts.\<close>

definition is_space :: "char \<Rightarrow> bool" where
  "is_space c \<longleftrightarrow> of_char c \<in> {9 :: nat, 10, 11, 12, 13, 32}"

definition spawn_lock :: "int option \<Rightarrow> seat \<Rightarrow> seat" where
  "spawn_lock started s =
    (if is_locked s then s
     else if list_all is_space (lock_command s) then lock_failed (lock_command s) None None s
     else (case started of
         Some p \<Rightarrow> tell (Spawned (lock_command s))
           (s\<lparr> child := Some \<lparr> pid = p, command = lock_command s, child_locked = False \<rparr> \<rparr>)
       | None \<Rightarrow> lock_failed (lock_command s) None None s))"

section \<open>Everything that sets the keyboard focus\<close>

text \<open>
  \<open>focus_window\<close> and \<open>focus_window_no_raise\<close> (which differ in stacking only); a window without a
  surface of its own gets no focus. Then an exclusive layer's commit, a layer's end (\<open>pick\<close> is the
  window to go back to), a drag with the logo key, input for a window, and an xdg popup's grab.
\<close>

definition seat_focus_window :: "nat option \<Rightarrow> seat \<Rightarrow> seat" where
  "seat_focus_window window s =
    (if is_locked s then s else (case window of Some w \<Rightarrow> s\<lparr> kb_focus := Some (AppSurface w) \<rparr> | None \<Rightarrow> s))"

definition seat_clear_focus :: "seat \<Rightarrow> seat" where
  "seat_clear_focus s = (if is_locked s then s else s\<lparr> kb_focus := None \<rparr>)"

definition layer_commit :: "nat \<Rightarrow> bool \<Rightarrow> seat \<Rightarrow> seat" where
  "layer_commit q exclusive s =
    (if exclusive \<and> \<not> is_locked s \<and> kb_focus s \<noteq> Some (LayerSurface q)
     then s\<lparr> kb_focus := Some (LayerSurface q) \<rparr> else s)"

definition layer_destroyed :: "nat \<Rightarrow> nat option \<Rightarrow> seat \<Rightarrow> seat" where
  "layer_destroyed q pick s =
    (if kb_focus s = Some (LayerSurface q)
     then (case pick of Some w \<Rightarrow> seat_focus_window (Some w) s | None \<Rightarrow> seat_clear_focus s) else s)"

definition super_drag_press :: "nat option \<Rightarrow> seat \<Rightarrow> seat" where
  "super_drag_press window s =
    (if is_locked s then s else (case window of Some w \<Rightarrow> s\<lparr> kb_focus := Some (AppSurface w) \<rparr> | None \<Rightarrow> s))"

definition inject_input_to_window :: "bool \<Rightarrow> nat \<Rightarrow> seat \<Rightarrow> seat option" where
  "inject_input_to_window automation w s =
    (if \<not> automation then None else if is_locked s then None else Some (s\<lparr> kb_focus := Some (AppSurface w) \<rparr>))"

text \<open>\<open>granted\<close>: what the popup manager and a grab already there allow.\<close>

definition popup_grab :: "bool \<Rightarrow> nat \<Rightarrow> seat \<Rightarrow> seat" where
  "popup_grab granted q s = (if granted then s\<lparr> kb_focus := Some (PopupSurface q) \<rparr> else s)"

section \<open>Keys\<close>

definition is_repeatable :: "action \<Rightarrow> bool" where
  "is_repeatable a = (case a of
     FocusWorkspaceRelative d \<Rightarrow> True | MoveWindowToWorkspaceRelative d \<Rightarrow> True | _ \<Rightarrow> False)"

definition cancel_key_repeat :: "seat \<Rightarrow> seat" where
  "cancel_key_repeat s = s\<lparr> key_repeat := None \<rparr>"

text \<open>\<open>armed\<close>: whether the event loop takes the timer.\<close>

definition start_key_repeat :: "bool \<Rightarrow> u32 \<Rightarrow> action \<Rightarrow> seat \<Rightarrow> seat" where
  "start_key_repeat armed keycode a s =
    (let s1 = cancel_key_repeat s in if armed then s1\<lparr> key_repeat := Some (keycode, a) \<rparr> else s1)"

text \<open>Of the actions only locking is looked into.\<close>

definition dispatch_action :: "int option \<Rightarrow> action \<Rightarrow> seat \<Rightarrow> seat" where
  "dispatch_action started a s =
    (let s1 = tell (Ran a) s in case a of LockAction \<Rightarrow> spawn_lock started s1 | _ \<Rightarrow> s1)"

definition tick_key_repeat :: "int option \<Rightarrow> seat \<Rightarrow> seat" where
  "tick_key_repeat started s = (case key_repeat s of None \<Rightarrow> s | Some (keycode, a) \<Rightarrow> dispatch_action started a s)"

definition is_vt :: "action \<Rightarrow> bool" where
  "is_vt a = (case a of ChangeVt v \<Rightarrow> True | _ \<Rightarrow> False)"

text \<open>The filter of \<open>handle_keybinding\<close>: the action taken, or \<open>None\<close> to forward the key to the focus.\<close>

definition key_filter :: "bool \<Rightarrow> action option \<Rightarrow> bool \<Rightarrow> seat \<Rightarrow> action option" where
  "key_filter inhibited bound pressed s =
    (if \<not> pressed then None
     else if is_locked s then (case bound of Some a \<Rightarrow> if is_vt a then Some a else None | None \<Rightarrow> None)
     else if inhibited then (case bound of Some a \<Rightarrow> if is_vt a then Some a else None | None \<Rightarrow> None)
     else bound)"

definition handle_keybinding ::
    "bool \<Rightarrow> bool \<Rightarrow> int option \<Rightarrow> action option \<Rightarrow> u32 \<Rightarrow> bool \<Rightarrow> seat \<Rightarrow> seat" where
  "handle_keybinding inhibited armed started bound key pressed s =
    (case key_filter inhibited bound pressed s of
       None \<Rightarrow> (case kb_focus s of Some f \<Rightarrow> tell (Forwarded f key pressed) s | None \<Rightarrow> s)
     | Some a \<Rightarrow>
         (let s1 = dispatch_action started a s
          in if is_repeatable a then start_key_repeat armed key a s1 else cancel_key_repeat s1))"

text \<open>\<open>process_key\<close> when no remote machine is in view.\<close>

definition local_key ::
    "bool \<Rightarrow> bool \<Rightarrow> int option \<Rightarrow> bool \<Rightarrow> action option \<Rightarrow> u32 \<Rightarrow> bool \<Rightarrow> seat \<Rightarrow> seat" where
  "local_key inhibited armed started escape bound key pressed s =
    (let s1 = (case key_repeat s of
         Some (k, a) \<Rightarrow> if \<not> pressed \<and> k = key then cancel_key_repeat s else s
       | None \<Rightarrow> s)
     in if pending_picker s1 \<noteq> None then picker_resolve_key escape pressed s1
        else handle_keybinding inhibited armed started bound key pressed s1)"

section \<open>Locking when idle\<close>

definition note_user_activity :: "nat \<Rightarrow> seat \<Rightarrow> seat" where
  "note_user_activity now s = s\<lparr> last_user_activity := now \<rparr>"

definition sync_idle_lock :: "bool \<Rightarrow> nat \<Rightarrow> seat \<Rightarrow> seat" where
  "sync_idle_lock armed now s =
    (let s1 = s\<lparr> idle_lock_timer := None \<rparr> in
     if idle_lock_secs s = 0 then s1
     else if armed
       then s1\<lparr> idle_lock_timer := Some (now + (nanos_of (idle_lock_secs s) - (now - last_user_activity s))) \<rparr>
       else s1)"

text \<open>The timer fires at \<open>now\<close>; \<open>inhibited\<close>: a visible client inhibits idling.\<close>

definition idle_lock_tick :: "bool \<Rightarrow> int option \<Rightarrow> nat \<Rightarrow> seat \<Rightarrow> seat" where
  "idle_lock_tick inhibited started now s =
    (let period = nanos_of (idle_lock_secs s); idle = now - last_user_activity s in
     if idle < period then s\<lparr> idle_lock_timer := Some (now + (period - idle)) \<rparr>
     else
       (let s1 = (if is_locked s then s else if inhibited then s else spawn_lock started s)
        in s1\<lparr> idle_lock_timer := Some (now + period) \<rparr>))"

section \<open>Runs\<close>

datatype lock_op =
    Lock nat
  | Unlock
  | NewSurface "nat option" "nat option" nat
  | Commit
  | FocusWindow "nat option"
  | ClearFocus
  | LayerCommit nat bool
  | LayerGone nat "nat option"
  | SuperDrag "nat option"
  | ToWindow bool nat
  | Grab bool nat
  | StartPicker nat
  | FinishPicker
  | CancelPicker nat
  | Key bool bool "int option" bool "action option" u32 bool
  | Repeat "int option"
  | Spawn "int option"
  | Reaped int "int option" "int option"
  | Activity nat
  | IdleTick bool "int option" nat

fun lock_exec :: "seat \<Rightarrow> lock_op \<Rightarrow> seat" where
  "lock_exec s (Lock now) = lock now s"
| "lock_exec s Unlock = unlock s"
| "lock_exec s (NewSurface ptr output q) = new_surface ptr output q s"
| "lock_exec s Commit = maybe_confirm_lock s"
| "lock_exec s (FocusWindow w) = seat_focus_window w s"
| "lock_exec s ClearFocus = seat_clear_focus s"
| "lock_exec s (LayerCommit q exclusive) = layer_commit q exclusive s"
| "lock_exec s (LayerGone q pick) = layer_destroyed q pick s"
| "lock_exec s (SuperDrag w) = super_drag_press w s"
| "lock_exec s (ToWindow automation w) = (case inject_input_to_window automation w s of Some s' \<Rightarrow> s' | None \<Rightarrow> s)"
| "lock_exec s (Grab granted q) = popup_grab granted q s"
| "lock_exec s (StartPicker c) = (case start_picker c s of Some s' \<Rightarrow> s' | None \<Rightarrow> s)"
| "lock_exec s FinishPicker = finish_picker s"
| "lock_exec s (CancelPicker c) = cancel_picker_if_owned_by c s"
| "lock_exec s (Key inhibited armed started escape bound key pressed) =
    local_key inhibited armed started escape bound key pressed s"
| "lock_exec s (Repeat started) = tick_key_repeat started s"
| "lock_exec s (Spawn started) = spawn_lock started s"
| "lock_exec s (Reaped p code signal) = snd (note_lock_reaped p code signal s)"
| "lock_exec s (Activity now) = note_user_activity now s"
| "lock_exec s (IdleTick inhibited started now) = idle_lock_tick inhibited started now s"

definition seat_start :: "string \<Rightarrow> seat" where
  "seat_start cmd = \<lparr> kb_focus = None, lock_session = None, lock_command = cmd, child = None,
     pending_picker = None, key_repeat = None, last_user_activity = 0, idle_lock_secs = 0,
     lock_preview_secs = 0, idle_lock_timer = None, effects = [] \<rparr>"

lemmas focus_defs = seat_focus_window_def seat_clear_focus_def layer_commit_def layer_destroyed_def
  super_drag_press_def inject_input_to_window_def popup_grab_def start_picker_def finish_picker_def
  cancel_picker_if_owned_by_def

lemma tell_simps [simp]:
  "kb_focus (tell e s) = kb_focus s" "lock_session (tell e s) = lock_session s"
  "pending_picker (tell e s) = pending_picker s" "child (tell e s) = child s"
  "key_repeat (tell e s) = key_repeat s" "effects (tell e s) = effects s @ [e]"
  "lock_command (tell e s) = lock_command s" "is_locked (tell e s) = is_locked s"
  "idle_lock_secs (tell e s) = idle_lock_secs s" "last_user_activity (tell e s) = last_user_activity s"
  "idle_lock_timer (tell e s) = idle_lock_timer s"
  by (simp_all add: tell_def is_locked_def)

section \<open>The lock keeps the keyboard\<close>

text \<open>While locked no picker is armed, and the focus is nobody's, a lock surface's or one of \<open>lent\<close>.\<close>

definition lock_inv :: "surface set \<Rightarrow> seat \<Rightarrow> bool" where
  "lock_inv lent s = (case lock_session s of
     None \<Rightarrow> True
   | Some l \<Rightarrow> pending_picker s = None \<and>
       kb_focus s \<in> insert None (Some ` (lent \<union> LockSurface ` snd ` set (surfaces l))))"

text \<open>
  Who else the code lends the keyboard to while locked: the surface a picker armed at the moment of
  the lock gives the focus back to, until the next lock surface comes; and popups granted a grab
  during the lock, again until the next lock surface comes.
\<close>

definition lend :: "seat \<Rightarrow> surface set \<Rightarrow> lock_op \<Rightarrow> surface set" where
  "lend s lent op = (case op of
     Lock now \<Rightarrow>
       if is_locked s then lent
       else (case pending_picker s of Some (c, Some f) \<Rightarrow> {f} | _ \<Rightarrow> {})
   | Grab granted q \<Rightarrow> if granted \<and> is_locked s then insert (PopupSurface q) lent else lent
   | NewSurface ptr output q \<Rightarrow> if output = None then lent else {}
   | _ \<Rightarrow> lent)"

fun lending :: "seat \<times> surface set \<Rightarrow> lock_op \<Rightarrow> seat \<times> surface set" where
  "lending (s, lent) op = (lock_exec s op, lend s lent op)"

text \<open>What keeps it at nobody: no picker armed when the lock begins, no popup grab during it.\<close>

fun undisturbed :: "seat \<Rightarrow> lock_op \<Rightarrow> bool" where
  "undisturbed s (Lock now) = (pending_picker s = None)"
| "undisturbed s (Grab granted q) = (granted \<longrightarrow> \<not> is_locked s)"
| "undisturbed s op = True"

lemma undisturbed_lends_nobody: "undisturbed s op \<Longrightarrow> lend s {} op = {}"
  by (cases op) (auto simp: lend_def)

text \<open>An operation that only adds effects, arms timers or runs the lock command.\<close>

definition keeps_lock :: "seat \<Rightarrow> seat \<Rightarrow> bool" where
  "keeps_lock s s' \<longleftrightarrow> lock_session s' = lock_session s \<and> kb_focus s' = kb_focus s \<and> pending_picker s' = pending_picker s"

lemma keeps_lock_inv: "keeps_lock s s' \<Longrightarrow> lock_inv lent s' = lock_inv lent s"
  unfolding keeps_lock_def lock_inv_def by (elim conjE) (simp only:)

lemma keeps_lock_trans: "keeps_lock s s' \<Longrightarrow> keeps_lock s' s'' \<Longrightarrow> keeps_lock s s''"
  by (simp add: keeps_lock_def)

lemma keeps_lock_intros [simp]:
  "keeps_lock s s" "keeps_lock s (tell e s)" "keeps_lock s (s\<lparr> child := c \<rparr>)"
  "keeps_lock s (s\<lparr> key_repeat := k \<rparr>)" "keeps_lock s (s\<lparr> last_user_activity := t \<rparr>)"
  "keeps_lock s (s\<lparr> idle_lock_timer := d \<rparr>)"
  by (simp_all add: keeps_lock_def)

lemma spawn_lock_keeps: "keeps_lock s (spawn_lock started s)"
  by (simp add: spawn_lock_def lock_failed_def keeps_lock_def split: option.split)

lemma dispatch_keeps: "keeps_lock s (dispatch_action started a s)"
  using keeps_lock_trans [OF keeps_lock_intros(2) spawn_lock_keeps]
  by (simp add: dispatch_action_def Let_def split: action.split)

lemma repeat_keeps: "keeps_lock s (start_key_repeat armed k a s)" "keeps_lock s (cancel_key_repeat s)"
  by (simp_all add: start_key_repeat_def cancel_key_repeat_def keeps_lock_def Let_def)

lemma keybinding_keeps: "keeps_lock s (handle_keybinding inhibited armed started bound key pressed s)"
  using keeps_lock_trans [OF dispatch_keeps repeat_keeps(1)] keeps_lock_trans [OF dispatch_keeps repeat_keeps(2)]
  by (simp add: handle_keybinding_def Let_def split: option.split)

lemma idle_tick_keeps: "keeps_lock s (idle_lock_tick inhibited started now s)"
  using spawn_lock_keeps [of s started] by (simp add: idle_lock_tick_def Let_def keeps_lock_def)

lemma unlocked_inv: "\<not> is_locked s \<Longrightarrow> lock_inv lent s"
  by (simp add: lock_inv_def is_locked_def)

text \<open>Operations that are refused while locked, and leave an unlocked seat unlocked.\<close>

lemma guarded_inv:
  assumes "lock_inv lent s" "is_locked s \<Longrightarrow> s' = s" "\<not> is_locked s \<Longrightarrow> \<not> is_locked s'"
  shows "lock_inv lent s'"
  using assms unlocked_inv by (cases "is_locked s") auto

lemma picker_inv:
  "lock_inv lent s \<Longrightarrow> lock_inv lent (finish_picker s)"
  "lock_inv lent s \<Longrightarrow> lock_inv lent (cancel_picker_if_owned_by c s)"
  by (auto simp: lock_inv_def focus_defs is_locked_def Let_def split: option.splits surface.splits)

lemma local_key_inv:
  assumes "lock_inv lent s"
  shows "lock_inv lent (local_key inhibited armed started escape bound key pressed s)"
proof -
  define s1 where "s1 = (case key_repeat s of
      Some (k, a) \<Rightarrow> if \<not> pressed \<and> k = key then cancel_key_repeat s else s | None \<Rightarrow> s)"
  have "keeps_lock s s1" by (simp add: s1_def repeat_keeps split: option.split)
  then have "lock_inv lent s1" using assms keeps_lock_inv by simp
  then have "lock_inv lent (picker_resolve_key escape pressed s1)"
    "lock_inv lent (handle_keybinding inhibited armed started bound key pressed s1)"
    using picker_inv(1) keeps_lock_inv [OF keybinding_keeps] by (simp_all add: picker_resolve_key_def)
  then show ?thesis by (simp add: local_key_def s1_def [symmetric])
qed

lemma lock_step_inv:
  assumes "lock_inv lent s"
  shows "lock_inv (lend s lent op) (lock_exec s op)"
proof (cases op)
  case (Lock now)
  with assms show ?thesis by (auto simp: lock_def lock_inv_def lend_def is_locked_def finish_picker_def Let_def split: option.splits)
next
  case Unlock
  show ?thesis
    by (rule unlocked_inv) (simp add: Unlock unlock_def is_locked_def Let_def split: option.split)
next
  case (NewSurface ptr oid q)
  with assms(1) show ?thesis
    by (auto simp: new_surface_def focus_lock_surface_def lock_inv_def lend_def Let_def image_iff
        dest: map_of_SomeD split: option.splits surface.splits bind_splits)
next
  case Commit
  with assms(1) show ?thesis
    by (auto simp: maybe_confirm_lock_def lock_inv_def lend_def split: option.splits surface.splits)
next
  case (Key inhibited armed started escape bound key pressed)
  with local_key_inv [OF assms(1)] show ?thesis by (simp add: lend_def)
next
  case (Repeat started)
  with assms(1) keeps_lock_inv [OF dispatch_keeps] show ?thesis
    by (simp add: tick_key_repeat_def lend_def split: option.split)
next
  case (Spawn started)
  with assms(1) keeps_lock_inv [OF spawn_lock_keeps] show ?thesis by (simp add: lend_def)
next
  case (Reaped p code signal)
  have "keeps_lock s (snd (note_lock_reaped p code signal s))"
    by (simp add: note_lock_reaped_def lock_failed_def keeps_lock_def Let_def split: option.split)
  with Reaped assms(1) keeps_lock_inv show ?thesis by (simp add: lend_def)
next
  case (Activity now)
  with assms(1) keeps_lock_inv [OF keeps_lock_intros(5)] show ?thesis by (simp add: note_user_activity_def lend_def)
next
  case (IdleTick inhibited started now)
  with assms(1) keeps_lock_inv [OF idle_tick_keeps] show ?thesis by (simp add: lend_def)
next
  case FinishPicker
  with picker_inv(1) [OF assms(1)] show ?thesis by (simp add: lend_def)
next
  case (CancelPicker c)
  with picker_inv(2) [OF assms(1)] show ?thesis by (simp add: lend_def)
next
  case (Grab granted q)
  with assms show ?thesis
    by (auto simp: lend_def lock_inv_def popup_grab_def is_locked_def split: option.splits)
qed (simp only: lend_def lock_op.case; rule guarded_inv [OF assms(1)];
  auto simp: focus_defs is_locked_def Let_def split: option.splits if_splits)+

interpretation locking: stepper lending "\<lambda>(s, lent). lock_inv lent s" "\<lambda>_ _. True"
  by unfold_locales (auto simp: lock_step_inv)

lemma locking_any: "locking.admissible_run x ops"
  by (induction ops arbitrary: x) auto

lemma undisturbed_run:
  "\<forall>k < length ops. undisturbed (foldl lock_exec s (take k ops)) (ops ! k) \<Longrightarrow>
   foldl lending (s, {}) ops = (foldl lock_exec s ops, {})"
proof (induction ops rule: rev_induct)
  case (snoc op ops)
  have "\<forall>k < length ops. undisturbed (foldl lock_exec s (take k ops)) (ops ! k)"
    using snoc.prems by (auto simp: nth_append dest: spec split: if_splits)
  moreover have "undisturbed (foldl lock_exec s ops) op" using snoc.prems by (auto dest: spec [of _ "length ops"])
  ultimately show ?case using snoc.IH by (simp add: undisturbed_lends_nobody)
qed simp

lemma locked_key:
  assumes "lock_inv lent s" "lock_session s = Some l"
  shows "kb_focus (local_key inhibited armed started escape bound key pressed s) = kb_focus s \<and>
    is_locked (local_key inhibited armed started escape bound key pressed s) \<and>
    effects (local_key inhibited armed started escape bound key pressed s) = effects s @
      (case bound of
         Some (ChangeVt v) \<Rightarrow> if pressed then [Ran (ChangeVt v)]
           else (case kb_focus s of Some f \<Rightarrow> [Forwarded f key pressed] | None \<Rightarrow> [])
       | _ \<Rightarrow> (case kb_focus s of Some f \<Rightarrow> [Forwarded f key pressed] | None \<Rightarrow> []))"
proof -
  define s1 where "s1 = (case key_repeat s of
      Some (k, a) \<Rightarrow> if \<not> pressed \<and> k = key then cancel_key_repeat s else s | None \<Rightarrow> s)"
  have s1: "lock_session s1 = Some l" "pending_picker s1 = None" "kb_focus s1 = kb_focus s" "effects s1 = effects s"
    using assms by (auto simp: s1_def cancel_key_repeat_def lock_inv_def split: option.splits)
  then have "local_key inhibited armed started escape bound key pressed s =
      handle_keybinding inhibited armed started bound key pressed s1"
    by (simp add: local_key_def s1_def [symmetric])
  then show ?thesis
    using s1 by (auto simp: handle_keybinding_def key_filter_def is_locked_def is_vt_def dispatch_action_def
        is_repeatable_def cancel_key_repeat_def Let_def split: option.splits action.splits)
qed


definition ls_ops :: "lock_op list" where
  "ls_ops = [FocusWindow (Some 7), Lock 5, FocusWindow (Some 8), NewSurface None (Some 0) 3, Commit, ToWindow True 9]"


text \<open>When a window picker is armed at the moment of the lock, it is not so: the
  lock first takes the focus away and then resolves the picker, which, the session not being marked
  locked yet, gives the focus back to the window that had it before the picker. Until the first lock
  surface comes every key typed goes to that window, and when the session is unlocked the focus
  is not given back to it.\<close>

theorem picker_armed_at_lock_leaks_keys:
  assumes "kb_focus s = Some (AppSurface w)" "start_picker c s = Some s1"
    and "\<And>v. bound \<noteq> Some (ChangeVt v)"
  shows "is_locked (lock now s1) \<and> kb_focus (lock now s1) = Some (AppSurface w) \<and>
    effects (local_key inhibited armed started escape bound key True (lock now s1)) =
      effects (lock now s1) @ [Forwarded (AppSurface w) key True] \<and>
    kb_focus (unlock (new_surface ptr (Some oid) q (lock now s1))) = Some (LockSurface q)"
proof -
  from assms(1,2) have s1: "s1 = s\<lparr> kb_focus := None, pending_picker := Some (c, Some (AppSurface w)) \<rparr>"
    "pending_picker s = None" "lock_session s = None"
    by (auto simp: start_picker_def is_locked_def simp del: not_None_eq split_paired_Ex split_paired_All split: if_splits)
  let ?l = "lock now s1"
  have l: "lock_session ?l = Some \<lparr> since = now, pending = True, surfaces = [], saved_focus = None \<rparr>"
    "kb_focus ?l = Some (AppSurface w)" "pending_picker ?l = None"
    using s1 by (simp_all add: lock_def finish_picker_def is_locked_def Let_def)
  have "effects (local_key inhibited armed started escape bound key True ?l) = effects ?l @ [Forwarded (AppSurface w) key True]"
    using l assms(3) by (auto simp: local_key_def handle_keybinding_def key_filter_def is_locked_def is_vt_def
        split: option.splits action.splits)
  moreover have "kb_focus (unlock (new_surface ptr (Some oid) q ?l)) = Some (LockSurface q)"
    using l by (auto simp: new_surface_def focus_lock_surface_def unlock_def Let_def split: option.splits bind_splits if_splits)
  ultimately show ?thesis using l by (simp add: is_locked_def)
qed

theorem picker_armed_at_lock_leaks_keys_witness:
  "kb_focus (lock 5 (the (start_picker 2 (seat_focus_window (Some 7) (seat_start ''lock''))))) = Some (AppSurface 7)"
proof -
  let ?s = "seat_focus_window (Some 7) (seat_start ''lock'')"
  have "kb_focus ?s = Some (AppSurface 7)" by (simp add: focus_defs is_locked_def seat_start_def)
  moreover have "start_picker 2 ?s = Some (the (start_picker 2 ?s))"
    by (simp add: focus_defs is_locked_def seat_start_def)
  ultimately show ?thesis using picker_armed_at_lock_leaks_keys [of ?s 7 2 "the (start_picker 2 ?s)" None 5] by simp
qed

section \<open>A lock that fails is reported\<close>

text \<open>Only workspace steps repeat.\<close>

definition repeat_ok :: "seat \<Rightarrow> bool" where
  "repeat_ok s \<longleftrightarrow> (\<forall>k a. key_repeat s = Some (k, a) \<longrightarrow> a \<noteq> LockAction)"

text \<open>Nothing starts another lock command, and child \<open>p\<close> has not ended yet.\<close>

fun no_other_locker :: "int \<Rightarrow> lock_op \<Rightarrow> bool" where
  "no_other_locker p (Spawn started) = False"
| "no_other_locker p (Reaped q code signal) = (q \<noteq> p)"
| "no_other_locker p (Key inhibited armed started escape bound key pressed) = (bound \<noteq> Some LockAction)"
| "no_other_locker p (IdleTick inhibited started now) = inhibited"
| "no_other_locker p op = True"

text \<open>The state while child \<open>p\<close> runs \<open>cmd\<close>: \<open>b\<close> is whether some client locked since it started.\<close>

definition waiting_for :: "int \<Rightarrow> string \<Rightarrow> bool \<Rightarrow> seat \<Rightarrow> bool" where
  "waiting_for p cmd b s \<longleftrightarrow> child s = Some \<lparr> pid = p, command = cmd, child_locked = b \<rparr> \<and>
     (is_locked s \<longrightarrow> b) \<and> repeat_ok s"

lemma waiting_same:
  "waiting_for p cmd b s \<Longrightarrow> child s' = child s \<Longrightarrow> is_locked s' = is_locked s \<Longrightarrow>
   (key_repeat s' = key_repeat s \<or> repeat_ok s') \<Longrightarrow> waiting_for p cmd b s'"
  by (auto simp: waiting_for_def repeat_ok_def)

lemma dispatch_waiting:
  assumes "waiting_for p cmd b s" "a \<noteq> LockAction"
  shows "waiting_for p cmd b (dispatch_action started a s)"
  by (rule waiting_same [OF assms(1)]) (use assms(2) in \<open>auto simp: dispatch_action_def Let_def split: action.split\<close>)

lemma keybinding_waiting:
  assumes w: "waiting_for p cmd b s" and "bound \<noteq> Some LockAction"
  shows "waiting_for p cmd b (handle_keybinding inhibited armed started bound key pressed s)"
proof (cases "key_filter inhibited bound pressed s")
  case None
  show ?thesis
    by (rule waiting_same [OF w]) (auto simp: handle_keybinding_def None split: option.split)
next
  case (Some a)
  then have "bound = Some a" by (auto simp: key_filter_def split: if_splits option.splits)
  then have a: "a \<noteq> LockAction" using assms(2) by auto
  note d = dispatch_waiting [OF w a, of started]
  have "waiting_for p cmd b (start_key_repeat armed key a (dispatch_action started a s))"
    by (rule waiting_same [OF d]) (use a in \<open>auto simp: start_key_repeat_def cancel_key_repeat_def is_locked_def repeat_ok_def Let_def\<close>)
  moreover have "waiting_for p cmd b (cancel_key_repeat (dispatch_action started a s))"
    by (rule waiting_same [OF d]) (auto simp: cancel_key_repeat_def is_locked_def repeat_ok_def)
  ultimately show ?thesis by (simp add: handle_keybinding_def Some Let_def)
qed

lemma picker_waiting:
  assumes w: "waiting_for p cmd b s"
  shows "waiting_for p cmd b (finish_picker s)" "waiting_for p cmd b (cancel_picker_if_owned_by c s)"
  by (rule waiting_same [OF w]; auto simp: focus_defs is_locked_def Let_def split: option.splits)+

lemma local_key_waiting:
  assumes w: "waiting_for p cmd b s" and "bound \<noteq> Some LockAction"
  shows "waiting_for p cmd b (local_key inhibited armed started escape bound key pressed s)"
proof -
  define s1 where "s1 = (case key_repeat s of
      Some (k, a) \<Rightarrow> if \<not> pressed \<and> k = key then cancel_key_repeat s else s | None \<Rightarrow> s)"
  have "waiting_for p cmd b s1"
    by (rule waiting_same [OF w])
       (auto simp: s1_def cancel_key_repeat_def is_locked_def repeat_ok_def split: option.splits)
  with picker_waiting(1) keybinding_waiting [OF _ assms(2)]
  have "waiting_for p cmd b (picker_resolve_key escape pressed s1)"
    "waiting_for p cmd b (handle_keybinding inhibited armed started bound key pressed s1)"
    by (simp_all add: picker_resolve_key_def)
  then show ?thesis by (simp add: local_key_def s1_def [symmetric])
qed

lemma lock_waiting: "waiting_for p cmd b s \<Longrightarrow> waiting_for p cmd True (lock now s)"
  by (auto simp: lock_def waiting_for_def finish_picker_def repeat_ok_def is_locked_def Let_def split: option.splits)

lemma exec_waiting:
  assumes w: "waiting_for p cmd b s" and op: "no_other_locker p op"
  shows "waiting_for p cmd (b \<or> (\<exists>now. op = Lock now)) (lock_exec s op)"
proof (cases op)
  case (Lock now)
  with lock_waiting [OF w] show ?thesis by simp
next
  case Unlock
  have "child (unlock s) = child s" "\<not> is_locked (unlock s)" "key_repeat (unlock s) = key_repeat s"
    by (auto simp: unlock_def is_locked_def Let_def split: option.split)
  with w Unlock show ?thesis by (simp add: waiting_for_def repeat_ok_def)
next
  case (Key inhibited armed started escape bound key pressed)
  with local_key_waiting [OF w] op show ?thesis by simp
next
  case (Repeat started)
  show ?thesis
  proof (cases "key_repeat s")
    case None
    with Repeat w show ?thesis by (simp add: tick_key_repeat_def)
  next
    case (Some ka)
    obtain k a where ka: "ka = (k, a)" by fastforce
    with w Some have "a \<noteq> LockAction" by (auto simp: waiting_for_def repeat_ok_def)
    with Repeat Some ka dispatch_waiting [OF w] show ?thesis by (simp add: tick_key_repeat_def)
  qed
next
  case (Reaped q code signal)
  with w op show ?thesis by (simp add: note_lock_reaped_def waiting_for_def)
next
  case (IdleTick inhibited started now)
  have "waiting_for p cmd b (idle_lock_tick True started now s)"
    by (rule waiting_same [OF w]) (auto simp: idle_lock_tick_def is_locked_def Let_def)
  with IdleTick op show ?thesis by simp
next
  case FinishPicker
  with picker_waiting(1) [OF w] show ?thesis by simp
next
  case (CancelPicker c)
  with picker_waiting(2) [OF w] show ?thesis by simp
next
  case (NewSurface ptr oid q)
  have "waiting_for p cmd b (new_surface ptr oid q s)"
    by (rule waiting_same [OF w])
       (auto simp: new_surface_def focus_lock_surface_def is_locked_def Let_def split: option.splits)
  with NewSurface show ?thesis by simp
next
  case Commit
  have "waiting_for p cmd b (maybe_confirm_lock s)"
    by (rule waiting_same [OF w]) (auto simp: maybe_confirm_lock_def is_locked_def split: option.splits)
  with Commit show ?thesis by simp
next
  case (Spawn started)
  with op show ?thesis by simp
qed (simp; rule waiting_same [OF w]; auto simp: focus_defs note_user_activity_def is_locked_def Let_def
      split: option.splits if_splits)+

lemma run_waiting:
  "waiting_for p cmd b s \<Longrightarrow> list_all (no_other_locker p) ops \<Longrightarrow>
   waiting_for p cmd (b \<or> (\<exists>now. Lock now \<in> set ops)) (foldl lock_exec s ops)"
proof (induction ops arbitrary: s b)
  case (Cons op ops)
  from exec_waiting [OF Cons.prems(1)] Cons.prems(2)
  have "waiting_for p cmd (b \<or> (\<exists>now. op = Lock now)) (lock_exec s op)" by simp
  from Cons.IH [OF this] Cons.prems(2) show ?case by (simp add: disj_assoc ex_disj_distrib eq_commute [of _ op])
qed simp

text \<open>A lock that does not happen is reported, and one that happened is not. When the
  lock command was started on an unlocked session and ends, whatever happened in between, its
  failure is told exactly when no client locked the session since; and a command that cannot be
  started at all is told at once. (Not covered: a second lock command started meanwhile, which
  replaces the first in the window manager's memory.)\<close>

theorem failed_lock_is_told:
  assumes "\<not> is_locked s" "repeat_ok s" "\<not> list_all is_space (lock_command s)"
    and "list_all (no_other_locker p) ops" "s' = foldl lock_exec (spawn_lock (Some p) s) ops"
  shows "effects (snd (note_lock_reaped p code signal s')) = effects s' @
      (if \<exists>now. Lock now \<in> set ops then [] else [LockFailed (lock_command s) code signal]) \<and>
    effects (spawn_lock None s) = effects s @ [LockFailed (lock_command s) None None]"
proof -
  have "waiting_for p (lock_command s) False (spawn_lock (Some p) s)"
    using assms(1-3) by (auto simp: spawn_lock_def waiting_for_def repeat_ok_def is_locked_def tell_def)
  from run_waiting [OF this assms(4)] have w: "waiting_for p (lock_command s) (\<exists>now. Lock now \<in> set ops) s'"
    unfolding assms(5) by simp
  have "effects (snd (note_lock_reaped p code signal s')) = effects s' @
      (if \<exists>now. Lock now \<in> set ops then [] else [LockFailed (lock_command s) code signal])"
    using w by (auto simp: note_lock_reaped_def waiting_for_def lock_failed_def is_locked_def tell_def Let_def)
  with assms(1,3) show ?thesis by (simp add: spawn_lock_def lock_failed_def)
qed

theorem failed_lock_is_told_witness:
  "effects (snd (note_lock_reaped 7 (Some 1) None (spawn_lock (Some 7) (seat_start ''lock'')))) =
     [Spawned ''lock'', LockFailed ''lock'' (Some 1) None]"
proof -
  have "\<not> is_locked (seat_start ''lock'')" "repeat_ok (seat_start ''lock'')"
    "\<not> list_all is_space (lock_command (seat_start ''lock''))"
    by (simp_all add: seat_start_def is_locked_def repeat_ok_def is_space_def)
  from failed_lock_is_told [OF this, of 7 "[]" _ "Some 1" None]
  show ?thesis by (simp add: spawn_lock_def seat_start_def is_locked_def is_space_def)
qed

section \<open>Locking when idle is punctual\<close>

definition period_of :: "seat \<Rightarrow> nat" where "period_of s = nanos_of (idle_lock_secs s)"

text \<open>The timer is armed, for no later than a period from now.\<close>

definition idle_armed :: "nat \<Rightarrow> seat \<Rightarrow> bool" where
  "idle_armed now s \<longleftrightarrow> last_user_activity s \<le> now \<and>
     (\<exists>d. idle_lock_timer s = Some d \<and> now \<le> d \<and> d \<le> now + period_of s)"

lemma sync_arms:
  "0 < idle_lock_secs s \<Longrightarrow> last_user_activity s \<le> now \<Longrightarrow> idle_armed now (sync_idle_lock True now s)"
  by (auto simp: sync_idle_lock_def idle_armed_def period_of_def)

lemma activity_keeps_armed:
  "idle_armed now s \<Longrightarrow> idle_lock_timer s = Some d \<Longrightarrow> now \<le> t \<Longrightarrow> t \<le> d \<Longrightarrow> idle_armed t (note_user_activity t s)"
  by (auto simp: idle_armed_def note_user_activity_def period_of_def)

lemma spawn_lock_idle [simp]:
  "idle_lock_secs (spawn_lock started s) = idle_lock_secs s" "last_user_activity (spawn_lock started s) = last_user_activity s"
  by (simp_all add: spawn_lock_def lock_failed_def tell_def split: option.split)

lemma tick_keeps_armed:
  "idle_armed now s \<Longrightarrow> idle_lock_timer s = Some d \<Longrightarrow> idle_armed d (idle_lock_tick inhibited started d s)"
  by (auto simp: idle_armed_def idle_lock_tick_def period_of_def Let_def)

text \<open>C14. The idle lock is punctual. Once armed, after the last input at time \<open>t\<close> the timer
  never acts before a whole period has passed without input; it re-arms itself at most once, for
  exactly \<open>t\<close> plus the period, and fires then: if the session is not locked and no visible client
  inhibits idling, the lock command is started at that instant. Input, and the timer's own firing,
  leave it armed no further than a period ahead, so this holds again after every input.\<close>

theorem idle_lock_is_punctual:
  assumes "idle_armed t0 s0" "idle_lock_timer s0 = Some d" "t0 \<le> t" "t \<le> d" "s = note_user_activity t s0"
    and "\<not> is_locked s" "0 < idle_lock_secs s"
  shows "idle_armed t s \<and>
    (\<forall>now inhibited started. t \<le> now \<and> now < t + period_of s \<longrightarrow>
       effects (idle_lock_tick inhibited started now s) = effects s \<and>
       idle_lock_timer (idle_lock_tick inhibited started now s) = Some (t + period_of s)) \<and>
    (\<forall>i n inhibited started.
       (d < t + period_of s \<longrightarrow> effects (idle_lock_tick inhibited started (t + period_of s)
            (idle_lock_tick i n d s)) = effects (if inhibited then s else spawn_lock started s)) \<and>
       (d = t + period_of s \<longrightarrow> effects (idle_lock_tick inhibited started d s) =
            effects (if inhibited then s else spawn_lock started s)) \<and>
       d \<le> t + period_of s)"
proof -
  have p: "period_of s = period_of s0" by (simp add: assms(5) note_user_activity_def period_of_def)
  have la: "last_user_activity s = t" "idle_lock_timer s = Some d"
    using assms(2) by (simp_all add: assms(5) note_user_activity_def)
  have d: "d \<le> t + period_of s" using assms(1,2,3) p by (auto simp: idle_armed_def)
  have early: "idle_lock_tick inhibited started now s = s\<lparr> idle_lock_timer := Some (t + period_of s) \<rparr>"
    if "t \<le> now" "now < t + period_of s" for now inhibited started
    using that la by (simp add: idle_lock_tick_def period_of_def Let_def)
  have late: "effects (idle_lock_tick inhibited started (t + period_of s) (s\<lparr> idle_lock_timer := x \<rparr>)) =
      effects (if inhibited then s else spawn_lock started s)" for inhibited started x
    using la assms(6) by (simp add: idle_lock_tick_def period_of_def is_locked_def spawn_lock_def lock_failed_def tell_def Let_def
        split: option.split)
  have "idle_armed t s" using activity_keeps_armed [OF assms(1-4)] assms(5) by simp
  moreover have "effects (idle_lock_tick inhibited started (t + period_of s) (idle_lock_tick i n d s)) =
      effects (if inhibited then s else spawn_lock started s)" if "d < t + period_of s" for i n inhibited started
    using early [OF assms(4) that] late by simp
  moreover have "effects (idle_lock_tick inhibited started d s) = effects (if inhibited then s else spawn_lock started s)"
    if "d = t + period_of s" for inhibited started
  proof -
    have "s\<lparr> idle_lock_timer := Some d \<rparr> = s" using la(2) by (cases s) simp
    with late [of inhibited started "Some d"] that show ?thesis by simp
  qed
  ultimately show ?thesis using early d by auto
qed

theorem idle_lock_is_punctual_witness:
  "let s0 = sync_idle_lock True 0 ((seat_start ''lock'')\<lparr> idle_lock_secs := 2 \<rparr>);
       s = note_user_activity 1000000000 s0
   in effects (idle_lock_tick False (Some 7) 3000000000 (idle_lock_tick False None 2000000000 s)) = [Spawned ''lock'']"
proof -
  let ?armed = "sync_idle_lock True 0 ((seat_start ''lock'')\<lparr> idle_lock_secs := 2 \<rparr>)"
  let ?s = "note_user_activity 1000000000 ?armed"
  have a: "idle_armed 0 ?armed" by (rule sync_arms) (simp_all add: seat_start_def)
  have d: "idle_lock_timer ?armed = Some 2000000000"
    by (simp add: sync_idle_lock_def seat_start_def nanos_of_def Let_def)
  have p: "period_of ?s = 2000000000"
    by (simp add: period_of_def note_user_activity_def sync_idle_lock_def seat_start_def nanos_of_def Let_def)
  have "effects (idle_lock_tick False (Some 7) (1000000000 + period_of ?s) (idle_lock_tick False None 2000000000 ?s)) =
      effects (if False then ?s else spawn_lock (Some 7) ?s)"
    using idle_lock_is_punctual [OF a d _ _ refl, of 1000000000]
    by (simp add: p) (simp add: seat_start_def note_user_activity_def sync_idle_lock_def is_locked_def Let_def)
  then show ?thesis
    by (simp add: p) (simp add: spawn_lock_def seat_start_def note_user_activity_def sync_idle_lock_def is_locked_def
        is_space_def tell_def Let_def)
qed

text \<open>A workspace bind that repeats goes on repeating after the session locks, as long as its key is held.\<close>

lemma repeat_runs_while_locked:
  assumes "key_repeat s = Some (k, FocusWorkspaceRelative d)" "\<not> is_locked s"
  shows "is_locked (lock now s) \<and>
    effects (tick_key_repeat None (lock now s)) = effects (lock now s) @ [Ran (FocusWorkspaceRelative d)]"
  using assms by (auto simp: lock_def finish_picker_def is_locked_def tick_key_repeat_def dispatch_action_def
      tell_def Let_def split: option.splits)

end
