(* ===== verification/Maze.thy ===== *)
theory Maze
  imports Prelude "HOL-Library.Multiset"
begin

text \<open>
  The lock screen's maze (\<open>crates/shoestring-lock/src/maze.rs\<close>): the random numbers, the depth-first
  carve and the depth-first solver. Cells are bit masks of the walls still standing. Coordinates are
  natural numbers below the \<open>u16\<close> dimensions, where the code's arithmetic does not overflow; an
  index out of range, where the code would panic, is \<open>None\<close>. Stacks have their top first.
\<close>

section \<open>Random numbers\<close>

definition rng_new :: "u64 \<Rightarrow> u64" where
  "rng_new seed = (if seed = 0 then 0x9E3779B97F4A7C15 else seed)"

definition next_u32 :: "u64 \<Rightarrow> u32 \<times> u64" where
  "next_u32 r =
    (let x = r;
         x = xor x (push_bit 13 x);
         x = xor x (drop_bit 7 x);
         x = xor x (push_bit 17 x)
     in (ucast (drop_bit 32 (x * 0x2545F4914F6CDD1D)), x))"

definition gen_range :: "u32 \<Rightarrow> u64 \<Rightarrow> u32 \<times> u64" where
  "gen_range n r = (if n = 0 then (0, r) else (let (v, r') = next_u32 r in (v mod n, r')))"

section \<open>The maze\<close>

type_synonym cell = "nat \<times> nat"

definition WALL_N :: u8 where "WALL_N = push_bit 0 1"
definition WALL_E :: u8 where "WALL_E = push_bit 1 1"
definition WALL_S :: u8 where "WALL_S = push_bit 2 1"
definition WALL_W :: u8 where "WALL_W = push_bit 3 1"

definition ALL_WALLS :: u8 where
  "ALL_WALLS = or WALL_N (or WALL_E (or WALL_S WALL_W))"

definition idx :: "nat \<Rightarrow> cell \<Rightarrow> nat" where
  "idx w p = snd p * w + fst p"

record maze =
  m_width :: u16
  m_height :: u16
  cells :: "u8 list"

definition walls :: "maze \<Rightarrow> cell \<Rightarrow> u8" where
  "walls m p = cells m ! idx (unat (m_width m)) p"

text \<open>The four neighbours in the code's order, with the wall out of the cell and the wall into it.\<close>

definition compass :: "nat \<Rightarrow> nat \<Rightarrow> cell \<Rightarrow> (cell \<times> u8 \<times> u8) list" where
  "compass w h p = (case p of (x, y) \<Rightarrow>
     (if 0 < y then [((x, y - 1), WALL_N, WALL_S)] else []) @
     (if x + 1 < w then [((x + 1, y), WALL_E, WALL_W)] else []) @
     (if y + 1 < h then [((x, y + 1), WALL_S, WALL_N)] else []) @
     (if 0 < x then [((x - 1, y), WALL_W, WALL_E)] else []))"

text \<open>Those not visited; \<open>None\<close> when an index is out of range.\<close>

definition unvisited :: "nat \<Rightarrow> nat \<Rightarrow> bool list \<Rightarrow> cell \<Rightarrow> (cell \<times> u8 \<times> u8) list option" where
  "unvisited w h visited p =
    (if list_all (\<lambda>(q, _). idx w q < length visited) (compass w h p)
     then Some (filter (\<lambda>(q, _). \<not> visited ! idx w q) (compass w h p)) else None)"

function carve ::
    "nat \<Rightarrow> nat \<Rightarrow> cell list \<Rightarrow> bool list \<Rightarrow> u8 list \<Rightarrow> u64 \<Rightarrow> (u8 list \<times> u64) option" where
  "carve w h [] visited cs r = Some (cs, r)"
| "carve w h (p # stack) visited cs r =
    (case unvisited w h visited p of
       None \<Rightarrow> None
     | Some ns \<Rightarrow>
         if ns = [] then carve w h stack visited cs r
         else
           (let (pick, r') = gen_range (word_of_nat (length ns)) r;
                (q, out_wall, in_wall) = ns ! unat pick;
                cur = idx w p; nxt = idx w q
            in if cur < length cs \<and> nxt < length cs \<and> nxt < length visited \<and> \<not> visited ! nxt
               then carve w h (q # p # stack) (visited[nxt := True])
                 ((cs[cur := and (cs ! cur) (not out_wall)])
                    [nxt := and ((cs[cur := and (cs ! cur) (not out_wall)]) ! nxt) (not in_wall)]) r'
               else None))"
  by pat_completeness auto

lemma length_filter_update:
  "n < length xs \<Longrightarrow> P (xs ! n) \<Longrightarrow> \<not> P v \<Longrightarrow> Suc (length (filter P (xs[n := v]))) = length (filter P xs)"
proof (induction xs arbitrary: n)
  case (Cons x xs)
  then show ?case by (cases n) auto
qed simp

lemma length_filter_update_same:
  "n < length xs \<Longrightarrow> \<not> P (xs ! n) \<Longrightarrow> \<not> P v \<Longrightarrow> length (filter P (xs[n := v])) = length (filter P xs)"
proof (induction xs arbitrary: n)
  case (Cons x xs)
  then show ?case by (cases n) auto
qed simp

termination carve
proof (relation "measure (\<lambda>(w, h, stack, visited, cs, r). 2 * length (filter Not visited) + length stack)", goal_cases)
  case (3 w h p stack visited cs r ns z pick r' z' q y out_wall in_wall cur nxt)
  then show ?case using length_filter_update [of nxt visited Not True] by simp
qed auto

declare carve.simps(2) [simp del]

definition generate_dfs :: "u16 \<Rightarrow> u16 \<Rightarrow> u64 \<Rightarrow> (maze \<times> u64) option" where
  "generate_dfs width height r =
    (if width = 0 \<or> height = 0 then None
     else
       (let w = unat width; h = unat height; n = w * h;
            (sx, r1) = gen_range (ucast width) r;
            (sy, r2) = gen_range (ucast height) r1;
            start = (unat sx, unat sy)
        in if idx w start < n
           then map_option (\<lambda>(cs, r'). (\<lparr> m_width = width, m_height = height, cells = cs \<rparr>, r'))
             (carve w h [start] ((replicate n False)[idx w start := True]) (replicate n ALL_WALLS) r2)
           else None))"

section \<open>The solver\<close>

datatype cell_state = Untouched | Live | Dead

datatype draw_event = EnteredLive cell | MarkedDead cell | Solved

record solver =
  s_width :: u16
  s_height :: u16
  stack :: "cell list"
  states :: "cell_state list"
  target :: cell
  smart :: bool
  finished :: bool

definition solver_new :: "maze \<Rightarrow> cell \<Rightarrow> cell \<Rightarrow> bool \<Rightarrow> solver" where
  "solver_new m start goal sm =
    \<lparr> s_width = m_width m, s_height = m_height m, stack = [start],
      states = (replicate (unat (m_width m) * unat (m_height m)) Untouched)[idx (unat (m_width m)) start := Live],
      target = goal, smart = sm, finished = False \<rparr>"

definition distance :: "cell \<Rightarrow> cell \<Rightarrow> nat" where
  "distance a b = (if fst a \<le> fst b then fst b - fst a else fst a - fst b) +
     (if snd a \<le> snd b then snd b - snd a else snd a - snd b)"

text \<open>The bubbling of candidate \<open>i\<close> leftwards past strictly farther ones; the list is kept reversed.\<close>

fun bubble :: "(cell \<Rightarrow> nat) \<Rightarrow> cell \<Rightarrow> cell list \<Rightarrow> cell list" where
  "bubble d c [] = [c]"
| "bubble d c (b # bs) = (if d c < d b then b # bubble d c bs else c # b # bs)"

definition closer_first :: "cell \<Rightarrow> cell list \<Rightarrow> cell list" where
  "closer_first goal cs = rev (foldl (\<lambda>bs c. bubble (\<lambda>p. distance p goal) c bs) [] cs)"

definition open_neighbours :: "maze \<Rightarrow> nat \<Rightarrow> nat \<Rightarrow> cell \<Rightarrow> cell list" where
  "open_neighbours m w h p = map fst (filter (\<lambda>(q, out_wall, _). and (walls m p) out_wall = 0) (compass w h p))"

text \<open>The first candidate that is untouched; the outer \<open>None\<close> is an index out of range.\<close>

fun first_untouched :: "nat \<Rightarrow> cell_state list \<Rightarrow> cell list \<Rightarrow> cell option option" where
  "first_untouched w st [] = Some None"
| "first_untouched w st (q # qs) =
    (if idx w q < length st
     then (if st ! idx w q = Untouched then Some (Some q) else first_untouched w st qs) else None)"

text \<open>One step: the event, and the solver. Leaving the stack empty is what \<open>last()?\<close> meets.\<close>

definition solver_step :: "maze \<Rightarrow> solver \<Rightarrow> (draw_event option \<times> solver) option" where
  "solver_step m s =
    (if finished s then Some (None, s)
     else (case stack s of
         [] \<Rightarrow> Some (None, s)
       | p # rest \<Rightarrow>
           if p = target s then Some (Some Solved, s\<lparr> finished := True \<rparr>)
           else if idx (unat (m_width m)) p < length (cells m) then
             (let w = unat (s_width s); cand = open_neighbours m w (unat (s_height s)) p;
                  cand = (if smart s then closer_first (target s) cand else cand)
              in (case first_untouched w (states s) cand of
                    None \<Rightarrow> None
                  | Some (Some q) \<Rightarrow>
                      Some (Some (EnteredLive q), s\<lparr> states := (states s)[idx w q := Live], stack := q # p # rest \<rparr>)
                  | Some None \<Rightarrow>
                      if idx w p < length (states s)
                      then Some (Some (MarkedDead p),
                        s\<lparr> stack := rest, states := (states s)[idx w p := Dead],
                           finished := (if rest = [] then True else finished s) \<rparr>)
                      else None))
           else None))"

text \<open>Ticking until nothing more happens, \<open>n\<close> ticks at most.\<close>

fun solver_run :: "nat \<Rightarrow> maze \<Rightarrow> solver \<Rightarrow> (draw_event list \<times> solver) option" where
  "solver_run 0 m s = Some ([], s)"
| "solver_run (Suc k) m s = (case solver_step m s of
     None \<Rightarrow> None
   | Some (None, s') \<Rightarrow> Some ([], s')
   | Some (Some e, s') \<Rightarrow> map_option (\<lambda>(es, s''). (e # es, s'')) (solver_run k m s'))"


section \<open>The grid and the walls\<close>

definition grid :: "nat \<Rightarrow> nat \<Rightarrow> cell set" where
  "grid w h = {..<w} \<times> {..<h}"

definition passages :: "nat \<Rightarrow> nat \<Rightarrow> u8 list \<Rightarrow> (cell \<times> cell) set" where
  "passages w h cs = {(p, q). p \<in> grid w h \<and>
     (\<exists>o' i. (q, o', i) \<in> set (compass w h p) \<and> and (cs ! idx w p) o' = 0)}"

lemma finite_grid [simp]: "finite (grid w h)"
  and card_grid [simp]: "card (grid w h) = w * h"
  and mem_grid: "(x, y) \<in> grid w h \<longleftrightarrow> x < w \<and> y < h"
  by (simp_all add: grid_def card_cartesian_product)

lemma idx_less: "p \<in> grid w h \<Longrightarrow> idx w p < w * h"
proof -
  assume "p \<in> grid w h"
  then have "fst p < w" "snd p < h" by (auto simp: grid_def)
  then have "idx w p < Suc (snd p) * w" by (simp add: idx_def)
  also have "\<dots> \<le> h * w" using \<open>snd p < h\<close> by (intro mult_le_mono1) simp
  finally show ?thesis by (simp add: mult.commute)
qed

lemma idx_inj: "p \<in> grid w h \<Longrightarrow> q \<in> grid w h \<Longrightarrow> idx w p = idx w q \<longleftrightarrow> p = q"
proof -
  have *: "idx w p mod w = fst p \<and> idx w p div w = snd p" if "p \<in> grid w h" for p
    using that by (auto simp: idx_def grid_def)
  show "p \<in> grid w h \<Longrightarrow> q \<in> grid w h \<Longrightarrow> idx w p = idx w q \<longleftrightarrow> p = q"
    using * [of p] * [of q] by (metis prod_eq_iff)
qed

definition wall_bit :: "nat \<Rightarrow> u8" where
  "wall_bit k = push_bit k 1"

lemma walls_are_bits: "WALL_N = wall_bit 0" "WALL_E = wall_bit 1" "WALL_S = wall_bit 2" "WALL_W = wall_bit 3"
  by (simp_all add: WALL_N_def WALL_E_def WALL_S_def WALL_W_def wall_bit_def)

lemma and_wall_bit: "k < 8 \<Longrightarrow> and (c :: u8) (wall_bit k) = 0 \<longleftrightarrow> \<not> bit c k"
  by (simp add: wall_bit_def push_bit_of_1 and_exp_eq_0_iff_not_bit)

lemma bit_clear_wall: "j < 8 \<Longrightarrow> bit (and (c :: u8) (not (wall_bit k))) j \<longleftrightarrow> bit c j \<and> j \<noteq> k"
  by (auto simp: wall_bit_def bit_simps)

lemma bit_all_walls: "bit ALL_WALLS k \<longleftrightarrow> k < 4"
proof -
  have "ALL_WALLS = mask 4"
    by (simp add: ALL_WALLS_def WALL_N_def WALL_E_def WALL_S_def WALL_W_def mask_eq_exp_minus_1)
  then show ?thesis unfolding \<open>ALL_WALLS = mask 4\<close> bit_mask_iff by auto
qed

text \<open>The neighbours again, by the number of the wall between.\<close>

definition across :: "nat \<Rightarrow> nat \<Rightarrow> nat \<Rightarrow> cell \<Rightarrow> cell \<Rightarrow> bool" where
  "across w h k p q \<longleftrightarrow> p \<in> grid w h \<and> q \<in> grid w h \<and>
     (k = 0 \<and> fst q = fst p \<and> Suc (snd q) = snd p \<or>
      k = 1 \<and> fst q = Suc (fst p) \<and> snd q = snd p \<or>
      k = 2 \<and> fst q = fst p \<and> snd q = Suc (snd p) \<or>
      k = 3 \<and> Suc (fst q) = fst p \<and> snd q = snd p)"

definition opposite :: "nat \<Rightarrow> nat" where
  "opposite k = (k + 2) mod 4"

lemma opposite_simps: "opposite 0 = 2" "opposite 1 = 3" "opposite (Suc 0) = 3"
  "opposite 2 = 0" "opposite 3 = 1"
  by (simp_all add: opposite_def)

lemma less_4_cases: "(k :: nat) < 4 \<longleftrightarrow> k = 0 \<or> k = 1 \<or> k = 2 \<or> k = 3"
  by auto

lemma across_less: "across w h k p q \<Longrightarrow> k < 4"
  by (auto simp: across_def)

lemma across_grid: "across w h k p q \<Longrightarrow> p \<in> grid w h" "across w h k p q \<Longrightarrow> q \<in> grid w h"
  by (auto simp: across_def)

lemma across_opposite: "across w h k p q \<Longrightarrow> across w h (opposite k) q p"
  by (auto simp: across_def opposite_def)

lemma across_functional: "across w h k p q \<Longrightarrow> across w h k p q' \<Longrightarrow> q = q'"
  by (auto simp: across_def prod_eq_iff)

lemma across_unique: "across w h k p q \<Longrightarrow> across w h k' p q \<Longrightarrow> k = k'"
  by (auto simp: across_def)

lemma across_irrefl: "\<not> across w h k p p"
  by (auto simp: across_def)

lemma mem_compass:
  assumes "p \<in> grid w h"
  shows "(q, o', i) \<in> set (compass w h p) \<longleftrightarrow>
    (\<exists>k. across w h k p q \<and> o' = wall_bit k \<and> i = wall_bit (opposite k))"
proof
  assume "(q, o', i) \<in> set (compass w h p)"
  then consider "0 < snd p" "q = (fst p, snd p - 1)" "o' = WALL_N" "i = WALL_S"
    | "fst p + 1 < w" "q = (fst p + 1, snd p)" "o' = WALL_E" "i = WALL_W"
    | "snd p + 1 < h" "q = (fst p, snd p + 1)" "o' = WALL_S" "i = WALL_N"
    | "0 < fst p" "q = (fst p - 1, snd p)" "o' = WALL_W" "i = WALL_E"
    by (auto simp: compass_def split: prod.splits if_splits)
  then show "\<exists>k. across w h k p q \<and> o' = wall_bit k \<and> i = wall_bit (opposite k)"
  proof cases
    case 1
    then show ?thesis using assms
      by (intro exI [of _ 0]) (auto simp: across_def opposite_simps walls_are_bits mem_grid grid_def)
  next
    case 2
    then show ?thesis using assms
      by (intro exI [of _ 1]) (auto simp: across_def opposite_simps walls_are_bits mem_grid grid_def)
  next
    case 3
    then show ?thesis using assms
      by (intro exI [of _ 2])
        (auto simp: across_def opposite_simps walls_are_bits mem_grid grid_def)
  next
    case 4
    then show ?thesis using assms
      by (intro exI [of _ 3])
        (auto simp: across_def opposite_simps walls_are_bits mem_grid grid_def)
  qed
next
  assume "\<exists>k. across w h k p q \<and> o' = wall_bit k \<and> i = wall_bit (opposite k)"
  then obtain k where *: "across w h k p q" and o: "o' = wall_bit k" "i = wall_bit (opposite k)" by blast
  from across_less [OF *] consider "k = 0" | "k = 1" | "k = 2" | "k = 3" by (auto simp: less_4_cases)
  then show "(q, o', i) \<in> set (compass w h p)"
    using * unfolding o
    by cases (auto simp: across_def opposite_simps walls_are_bits compass_def grid_def
        split: prod.splits)
qed

lemma compass_nonempty_length: "length (compass w h p) \<le> 4"
  by (simp add: compass_def split: prod.split)

lemma mem_passages: "(p, q) \<in> passages w h cs \<longleftrightarrow> (\<exists>k. across w h k p q \<and> \<not> bit (cs ! idx w p) k)"
proof (cases "p \<in> grid w h")
  case True
  have "across w h k p q \<Longrightarrow> and (cs ! idx w p) (wall_bit k) = 0 \<longleftrightarrow> \<not> bit (cs ! idx w p) k" for k
    by (frule across_less) (simp add: and_wall_bit)
  with True show ?thesis by (auto simp: passages_def mem_compass)
next
  case False
  then show ?thesis by (auto simp: passages_def dest: across_grid)
qed

lemma passages_in_grid: "passages w h cs \<subseteq> grid w h \<times> grid w h"
  by (auto simp: mem_passages dest: across_grid)

lemma finite_passages [simp]: "finite (passages w h cs)"
  by (rule finite_subset [OF passages_in_grid]) simp


section \<open>Paths, and graphs with no two\<close>

definition path_in :: "('a \<times> 'a) set \<Rightarrow> 'a list \<Rightarrow> bool" where
  "path_in E xs \<longleftrightarrow> successively (\<lambda>p q. (p, q) \<in> E) xs"

definition simple_path :: "('a \<times> 'a) set \<Rightarrow> 'a \<Rightarrow> 'a \<Rightarrow> 'a list \<Rightarrow> bool" where
  "simple_path E a b xs \<longleftrightarrow> xs \<noteq> [] \<and> hd xs = a \<and> last xs = b \<and> distinct xs \<and> path_in E xs"

definition unique_paths :: "('a \<times> 'a) set \<Rightarrow> bool" where
  "unique_paths E \<longleftrightarrow> (\<forall>a b xs ys. simple_path E a b xs \<longrightarrow> simple_path E a b ys \<longrightarrow> xs = ys)"

lemma path_in_simps [simp]:
  "path_in E []" "path_in E [p]"
  "path_in E (p # q # xs) \<longleftrightarrow> (p, q) \<in> E \<and> path_in E (q # xs)"
  by (simp_all add: path_in_def)

lemma path_in_append:
  "path_in E (xs @ ys) \<longleftrightarrow> path_in E xs \<and> path_in E ys \<and> (xs \<noteq> [] \<longrightarrow> ys \<noteq> [] \<longrightarrow> (last xs, hd ys) \<in> E)"
  by (auto simp: path_in_def successively_append_iff)

lemma path_in_Cons: "path_in E (x # xs) \<longleftrightarrow> path_in E xs \<and> (xs \<noteq> [] \<longrightarrow> (x, hd xs) \<in> E)"
  by (cases xs) auto

lemma path_in_mono: "path_in E xs \<Longrightarrow> E \<subseteq> F \<Longrightarrow> path_in F xs"
  by (induction xs) (auto simp: path_in_Cons)

lemma path_avoiding:
  "path_in (insert (p, q) (insert (q, p) E)) xs \<Longrightarrow> q \<notin> set xs \<Longrightarrow> path_in E xs"
  by (induction xs) (auto simp: path_in_Cons)

text \<open>A new leaf \<open>q\<close>, hung on \<open>p\<close>: a simple path meets it only at an end.\<close>

lemma path_through_leaf:
  assumes path: "path_in (insert (p, q) (insert (q, p) E)) xs" and "distinct xs" and "q \<in> set xs"
    and E: "E \<subseteq> V \<times> V" and q: "q \<notin> V"
  obtains "xs = [q]"
    | ys where "xs = q # ys" "ys \<noteq> []" "hd ys = p" "q \<notin> set ys" "path_in E ys"
    | ys where "xs = ys @ [q]" "ys \<noteq> []" "last ys = p" "q \<notin> set ys" "path_in E ys"
proof -
  obtain us vs where xs: "xs = us @ q # vs" using \<open>q \<in> set xs\<close> by (meson split_list)
  with \<open>distinct xs\<close> have *: "q \<notin> set us" "q \<notin> set vs" "set us \<inter> set vs = {}" by auto
  have us: "us \<noteq> [] \<Longrightarrow> last us = p" and vs: "vs \<noteq> [] \<Longrightarrow> hd vs = p"
    using path E q * unfolding xs path_in_append by (auto simp: path_in_Cons dest: last_in_set)
  have "path_in (insert (p, q) (insert (q, p) E)) us" "path_in (insert (p, q) (insert (q, p) E)) vs"
    using path unfolding xs path_in_append path_in_Cons by blast+
  then have in_E: "path_in E us" "path_in E vs" using *(1,2) by (blast intro: path_avoiding)+
  show thesis
  proof (cases "us = []")
    case True
    then show thesis using that(1) that(2) [of vs] vs * in_E xs by (cases "vs = []") auto
  next
    case False
    then have "p \<in> set us" using us last_in_set by force
    with vs *(3) have "vs = []" by (metis disjoint_iff hd_in_set)
    then show thesis using that(3) [of us] False us * in_E xs by auto
  qed
qed

lemma unique_paths_leaf:
  assumes u: "unique_paths E" and E: "E \<subseteq> V \<times> V" and q: "q \<notin> V"
  shows "unique_paths (insert (p, q) (insert (q, p) E))" (is "unique_paths ?E")
  unfolding unique_paths_def
proof (intro allI impI)
  fix a b xs ys
  assume xs: "simple_path ?E a b xs" and ys: "simple_path ?E a b ys"
  have leaf: "zs = [q] \<and> a = q \<and> b = q \<or> (\<exists>vs. zs = q # vs \<and> a = q \<and> b \<noteq> q \<and> simple_path E p b vs)
      \<or> (\<exists>vs. zs = vs @ [q] \<and> a \<noteq> q \<and> b = q \<and> simple_path E a p vs)"
    if zs: "simple_path ?E a b zs" and "q \<in> set zs" for zs
  proof -
    have "path_in ?E zs" "distinct zs" "hd zs = a" "last zs = b"
      using zs by (auto simp: simple_path_def)
    show ?thesis
    proof (cases rule: path_through_leaf [OF \<open>path_in ?E zs\<close> \<open>distinct zs\<close> \<open>q \<in> set zs\<close> E q])
      case (2 vs)
      then show ?thesis using \<open>hd zs = a\<close> \<open>last zs = b\<close> \<open>distinct zs\<close> last_in_set [of vs]
        by (auto simp: simple_path_def)
    next
      case (3 vs)
      then show ?thesis using \<open>hd zs = a\<close> \<open>last zs = b\<close> \<open>distinct zs\<close> hd_in_set [of vs]
        by (auto simp: simple_path_def)
    qed (use \<open>hd zs = a\<close> \<open>last zs = b\<close> in simp)
  qed
  have off: "simple_path E a b zs" if "simple_path ?E a b zs" "q \<notin> set zs" for zs
    using that path_avoiding [of p q E zs] by (simp add: simple_path_def)
  have ends: "q = a \<or> q = b" if "simple_path ?E a b zs" "q \<in> set zs" for zs
    using leaf [OF that] by blast
  have on: "a \<in> set zs \<and> b \<in> set zs" if "simple_path ?E a b zs" for zs
    using that unfolding simple_path_def by (metis hd_in_set last_in_set)
  have same: "q \<in> set xs \<longleftrightarrow> q \<in> set ys"
    using ends [OF xs] ends [OF ys] on [OF xs] on [OF ys] by blast
  show "xs = ys"
  proof (cases "q \<in> set xs")
    case False
    with same off [OF xs] off [OF ys] u show ?thesis unfolding unique_paths_def by blast
  next
    case True
    with same have "q \<in> set ys" by simp
    have same: "us = vs" if "simple_path E c d us" "simple_path E c d vs" for c d us vs
      using u that unfolding unique_paths_def by blast
    from leaf [OF xs True] leaf [OF ys \<open>q \<in> set ys\<close>] show ?thesis
      by (elim disjE exE conjE) (simp_all, (metis same)+)
  qed
qed

lemma simple_path_exists:
  assumes "(a, b) \<in> E\<^sup>*"
  shows "\<exists>xs. simple_path E a b xs"
  using assms
proof (induction rule: rtrancl_induct)
  case base
  have "simple_path E a a [a]" by (simp add: simple_path_def)
  then show ?case by blast
next
  case (step b c)
  then obtain xs where xs: "simple_path E a b xs" by blast
  show ?case
  proof (cases "c \<in> set xs")
    case False
    with xs step have "simple_path E a c (xs @ [c])"
      by (auto simp: simple_path_def path_in_append)
    then show ?thesis by blast
  next
    case True
    then obtain us vs where "xs = us @ c # vs" by (meson split_list)
    with xs have "simple_path E a c (us @ [c])"
      by (auto simp: simple_path_def path_in_append hd_append)
    then show ?thesis by blast
  qed
qed


lemma simple_path_reaches: "simple_path E a b xs \<Longrightarrow> (a, b) \<in> E\<^sup>*"
proof (induction xs arbitrary: a)
  case (Cons x xs)
  show ?case
  proof (cases xs)
    case Nil
    with Cons.prems show ?thesis by (auto simp: simple_path_def)
  next
    case (Cons y ys)
    with Cons.prems Cons.IH [of y] have "(y, b) \<in> E\<^sup>*" "(a, y) \<in> E" by (auto simp: simple_path_def)
    then show ?thesis by (simp add: converse_rtrancl_into_rtrancl)
  qed
qed (simp add: simple_path_def)

section \<open>The carve\<close>

lemma walk_the_line:
  fixes P :: "nat \<Rightarrow> bool"
  assumes "P a" "a < n" and up: "\<And>x. Suc x < n \<Longrightarrow> P x \<Longrightarrow> P (Suc x)"
    and down: "\<And>x. Suc x < n \<Longrightarrow> P (Suc x) \<Longrightarrow> P x" and "b < n"
  shows "P b"
proof (cases "a \<le> b")
  case True
  then show ?thesis using \<open>b < n\<close>
    by (induction rule: dec_induct) (use \<open>P a\<close> up in auto)
next
  case False
  then have "b \<le> a" by simp
  then show ?thesis
    by (induction rule: inc_induct) (use \<open>P a\<close> \<open>a < n\<close> down in auto)
qed

lemma grid_is_connected:
  assumes S: "S \<subseteq> grid w h" "p \<in> S" and closed: "\<And>k p q. p \<in> S \<Longrightarrow> across w h k p q \<Longrightarrow> q \<in> S"
  shows "S = grid w h"
proof -
  obtain x y where p: "p = (x, y)" "x < w" "y < h" "(x, y) \<in> S"
    using S by (cases p) (auto simp: grid_def)
  have row: "(x', y) \<in> S" if "x' < w" for x'
    by (rule walk_the_line [where P = "\<lambda>x. (x, y) \<in> S" and a = x and n = w])
      (use p that in \<open>auto intro: closed [of "(a, y)" 1 "(Suc a, y)" for a]
         closed [of "(Suc a, y)" 3 "(a, y)" for a] simp: across_def mem_grid\<close>)
  have "(x', y') \<in> S" if "x' < w" "y' < h" for x' y'
    by (rule walk_the_line [where P = "\<lambda>y. (x', y) \<in> S" and a = y and n = h])
      (use p that row in \<open>auto intro: closed [of "(x', a)" 2 "(x', Suc a)" for a]
         closed [of "(x', Suc a)" 0 "(x', a)" for a] simp: across_def mem_grid\<close>)
  with S show ?thesis by (auto simp: grid_def)
qed

definition knock :: "nat \<Rightarrow> cell \<Rightarrow> cell \<Rightarrow> nat \<Rightarrow> u8 list \<Rightarrow> u8 list" where
  "knock w p q k cs =
    (let cs' = cs[idx w p := and (cs ! idx w p) (not (wall_bit k))]
     in cs'[idx w q := and (cs' ! idx w q) (not (wall_bit (opposite k)))])"

definition outer_walls :: "nat \<Rightarrow> nat \<Rightarrow> u8 list \<Rightarrow> bool" where
  "outer_walls w h cs \<longleftrightarrow>
    (\<forall>p \<in> grid w h. \<forall>k < 4. (\<nexists>q. across w h k p q) \<longrightarrow> bit (cs ! idx w p) k)"

lemma length_knock [simp]: "length (knock w p q k cs) = length cs"
  by (simp add: knock_def Let_def)

lemma bit_knock:
  assumes a: "across w h k p q" and len: "length cs = w * h" and r: "r \<in> grid w h" and j: "j < 4"
  shows "bit (knock w p q k cs ! idx w r) j \<longleftrightarrow>
    bit (cs ! idx w r) j \<and> \<not> (r = p \<and> j = k) \<and> \<not> (r = q \<and> j = opposite k)"
proof -
  have grid: "p \<in> grid w h" "q \<in> grid w h" using across_grid [OF a] by auto
  have "p \<noteq> q" using a across_irrefl by blast
  then have ne: "idx w p \<noteq> idx w q" using grid idx_inj by blast
  have l: "idx w p < length cs" "idx w q < length cs" using grid len by (simp_all add: idx_less)
  consider "r = p" | "r = q" | "r \<noteq> p" "r \<noteq> q" by blast
  then show ?thesis
  proof cases
    case 1
    with ne l j \<open>p \<noteq> q\<close> show ?thesis by (simp add: knock_def Let_def bit_clear_wall)
  next
    case 2
    with ne l j \<open>p \<noteq> q\<close> show ?thesis by (simp add: knock_def Let_def bit_clear_wall)
  next
    case 3
    then have "idx w r \<noteq> idx w p" "idx w r \<noteq> idx w q" using r grid idx_inj by blast+
    with 3 show ?thesis by (simp add: knock_def Let_def)
  qed
qed

lemma passages_knock:
  assumes "across w h k p q" "length cs = w * h"
  shows "passages w h (knock w p q k cs) = insert (p, q) (insert (q, p) (passages w h cs))"
proof -
  have only: "across w h k p y \<longleftrightarrow> y = q" "across w h (opposite k) q y \<longleftrightarrow> y = p" for y
    using assms(1) across_opposite [OF assms(1)] across_functional by blast+
  have "(x, y) \<in> passages w h (knock w p q k cs) \<longleftrightarrow>
      (x, y) \<in> insert (p, q) (insert (q, p) (passages w h cs))" for x y
  proof -
    have "(x, y) \<in> passages w h (knock w p q k cs) \<longleftrightarrow>
        (\<exists>j. across w h j x y \<and> (\<not> bit (cs ! idx w x) j \<or> x = p \<and> j = k \<or> x = q \<and> j = opposite k))"
      unfolding mem_passages by (metis across_grid(1) across_less assms bit_knock)
    also have "\<dots> \<longleftrightarrow> (x, y) \<in> passages w h cs \<or> x = p \<and> across w h k p y \<or> x = q \<and> across w h (opposite k) q y"
      unfolding mem_passages by blast
    also have "\<dots> \<longleftrightarrow> (x, y) \<in> insert (p, q) (insert (q, p) (passages w h cs))"
      unfolding only by auto
    finally show ?thesis .
  qed
  then show ?thesis by auto
qed

lemma outer_walls_knock:
  assumes "across w h k p q" "length cs = w * h" "outer_walls w h cs"
  shows "outer_walls w h (knock w p q k cs)"
  using assms across_opposite [OF assms(1)] unfolding outer_walls_def
  by (simp add: bit_knock [OF assms(1,2)] del: split_paired_All split_paired_Ex) blast


definition seen :: "nat \<Rightarrow> nat \<Rightarrow> bool list \<Rightarrow> cell set" where
  "seen w h visited = {p \<in> grid w h. visited ! idx w p}"

definition explored :: "nat \<Rightarrow> nat \<Rightarrow> cell set \<Rightarrow> cell set \<Rightarrow> bool" where
  "explored w h V front \<longleftrightarrow> (\<forall>p \<in> V - front. \<forall>k q. across w h k p q \<longrightarrow> q \<in> V)"

definition carved :: "nat \<Rightarrow> nat \<Rightarrow> cell \<Rightarrow> cell list \<Rightarrow> bool list \<Rightarrow> u8 list \<Rightarrow> bool" where
  "carved w h s stk visited cs \<longleftrightarrow>
     length visited = w * h \<and> length cs = w * h \<and> set stk \<subseteq> seen w h visited \<and> s \<in> seen w h visited \<and>
     passages w h cs \<subseteq> seen w h visited \<times> seen w h visited \<and> sym (passages w h cs) \<and>
     (\<forall>p \<in> seen w h visited. (s, p) \<in> (passages w h cs)\<^sup>*) \<and>
     card (passages w h cs) + 2 = 2 * card (seen w h visited) \<and> unique_paths (passages w h cs) \<and>
     outer_walls w h cs \<and>
     explored w h (seen w h visited) (set stk)"

definition perfect_maze :: "nat \<Rightarrow> nat \<Rightarrow> u8 list \<Rightarrow> bool" where
  "perfect_maze w h cs \<longleftrightarrow> length cs = w * h \<and> sym (passages w h cs) \<and> outer_walls w h cs \<and>
     card (passages w h cs) = 2 * (w * h - 1) \<and>
     (\<forall>a \<in> grid w h. \<forall>b \<in> grid w h. \<exists>!xs. simple_path (passages w h cs) a b xs)"

lemma seen_update:
  assumes "q \<in> grid w h" "length visited = w * h"
  shows "seen w h (visited[idx w q := True]) = insert q (seen w h visited)"
  using assms by (auto simp: seen_def nth_list_update idx_less idx_inj)

lemma unvisited_eq:
  assumes "length visited = w * h" "p \<in> grid w h"
  shows "\<exists>ns. unvisited w h visited p = Some ns \<and> length ns \<le> 4 \<and>
    (\<forall>q o' i. (q, o', i) \<in> set ns \<longleftrightarrow>
      (\<exists>k. across w h k p q \<and> o' = wall_bit k \<and> i = wall_bit (opposite k)) \<and> q \<notin> seen w h visited)"
proof -
  have in_grid: "q \<in> grid w h" if "(q, o', i) \<in> set (compass w h p)" for q o' i
    using that mem_compass [OF assms(2)] across_grid(2) by metis
  then have "list_all (\<lambda>(q, _). idx w q < length visited) (compass w h p)"
    using idx_less assms(1) by (auto simp: list_all_iff simp del: split_paired_All)
  then have "unvisited w h visited p = Some (filter (\<lambda>(q, _). \<not> visited ! idx w q) (compass w h p))"
    by (simp add: unvisited_def)
  moreover have "length (filter (\<lambda>(q, _). \<not> visited ! idx w q) (compass w h p)) \<le> 4"
    using compass_nonempty_length [of w h p] length_filter_le [of _ "compass w h p"] le_trans by blast
  moreover have "(q, o', i) \<in> set (filter (\<lambda>(q, _). \<not> visited ! idx w q) (compass w h p)) \<longleftrightarrow>
      (\<exists>k. across w h k p q \<and> o' = wall_bit k \<and> i = wall_bit (opposite k)) \<and> q \<notin> seen w h visited" for q o' i
    using in_grid [of q o' i] mem_compass [OF assms(2), of q o' i] across_grid(2)
    by (auto simp: seen_def simp del: split_paired_All)
  ultimately show ?thesis by blast
qed

lemma gen_range_less:
  assumes "n \<noteq> 0"
  shows "unat (fst (gen_range n r)) < unat n"
  using assms by (simp add: gen_range_def split_beta unat_mod unat_gt_0)

lemma card_passages_knock:
  assumes "across w h k p q" "length cs = w * h" "passages w h cs \<subseteq> V \<times> V" "q \<notin> V"
  shows "card (passages w h (knock w p q k cs)) = card (passages w h cs) + 2"
proof -
  have "p \<noteq> q" using assms(1) across_irrefl by blast
  then have "(q, p) \<notin> passages w h cs" "(p, q) \<notin> insert (q, p) (passages w h cs)" using assms by auto
  then show ?thesis by (simp add: passages_knock [OF assms(1,2)])
qed

lemma carved_pop:
  assumes "carved w h s (p # stk) visited cs" and "\<And>k q. across w h k p q \<Longrightarrow> q \<in> seen w h visited"
  shows "carved w h s stk visited cs"
proof -
  have "explored w h (seen w h visited) (set stk)"
    using assms unfolding carved_def explored_def by (metis DiffD1 DiffD2 DiffI insert_iff list.simps(15))
  then show ?thesis using assms(1) by (simp add: carved_def)
qed

lemma carved_push:
  assumes c: "carved w h s (p # stk) visited cs" and a: "across w h k p q" and q: "q \<notin> seen w h visited"
  shows "carved w h s (q # p # stk) (visited[idx w q := True]) (knock w p q k cs)"
proof -
  let ?V = "seen w h visited" and ?E = "passages w h cs"
  have len: "length visited = w * h" "length cs = w * h" and p: "p \<in> ?V" and E: "?E \<subseteq> ?V \<times> ?V"
    using c by (auto simp: carved_def)
  have V: "seen w h (visited[idx w q := True]) = insert q ?V" using across_grid(2) [OF a] len by (simp add: seen_update)
  have E': "passages w h (knock w p q k cs) = insert (p, q) (insert (q, p) ?E)" (is "_ = ?E'")
    using a len by (simp add: passages_knock)
  have "sym ?E'" using c by (auto simp: carved_def sym_def)
  moreover have "(s, x) \<in> ?E'\<^sup>*" if "x \<in> insert q ?V" for x
  proof -
    have old: "(s, x) \<in> ?E'\<^sup>*" if "x \<in> ?V" for x
      using c that rtrancl_mono [of ?E ?E'] unfolding carved_def by blast
    show ?thesis
    proof (cases "x = q")
      case True
      with old [OF p] show ?thesis by (simp add: rtrancl_into_rtrancl)
    next
      case False
      with that old show ?thesis by blast
    qed
  qed
  moreover have "card ?E' + 2 = 2 * card (insert q ?V)"
    using c q card_passages_knock [OF a len(2) E q] by (simp add: carved_def E' seen_def)
  moreover have "unique_paths ?E'"
    using c q by (intro unique_paths_leaf [where V = ?V]) (auto simp: carved_def)
  moreover have "outer_walls w h (knock w p q k cs)"
    using c a by (intro outer_walls_knock) (auto simp: carved_def)
  moreover have "explored w h (insert q ?V) (set (q # p # stk))"
    using c unfolding carved_def explored_def by (metis DiffD1 DiffD2 DiffI insert_iff list.simps(15))
  moreover have "?E' \<subseteq> insert q ?V \<times> insert q ?V" using p E by auto
  moreover have "set (q # p # stk) \<subseteq> insert q ?V" "s \<in> insert q ?V" using c by (auto simp: carved_def)
  ultimately show ?thesis
    using len unfolding carved_def E' V by simp
qed


lemma carved_done:
  assumes c: "carved w h s [] visited cs"
  shows "perfect_maze w h cs"
proof -
  let ?V = "seen w h visited" and ?E = "passages w h cs"
  have V: "?V = grid w h"
  proof (rule grid_is_connected)
    show "?V \<subseteq> grid w h" by (auto simp: seen_def)
    show "s \<in> ?V" using c by (simp add: carved_def)
    show "q \<in> ?V" if "p \<in> ?V" "across w h k p q" for k p q
      using c that unfolding carved_def explored_def by (simp del: split_paired_All)
  qed
  have "\<exists>!xs. simple_path ?E a b xs" if "a \<in> grid w h" "b \<in> grid w h" for a b
  proof -
    have "(s, a) \<in> ?E\<^sup>*" "(s, b) \<in> ?E\<^sup>*" "sym ?E" using c that unfolding carved_def V by simp_all
    then have "(a, b) \<in> ?E\<^sup>*" by (meson rtrancl_trans sym_rtrancl symE)
    from simple_path_exists [OF this] obtain xs where "simple_path ?E a b xs" ..
    moreover have "unique_paths ?E" using c by (simp add: carved_def)
    ultimately show ?thesis unfolding unique_paths_def by blast
  qed
  then show ?thesis using c V by (auto simp: carved_def perfect_maze_def)
qed

lemma carve_pops: "unvisited w h visited p = Some [] \<Longrightarrow> carve w h (p # stk) visited cs r = carve w h stk visited cs r"
  by (subst carve.simps(2)) simp

lemma carve_pushes:
  assumes "unvisited w h visited p = Some ns" "ns \<noteq> []" "gen_range (word_of_nat (length ns)) r = (pick, r')"
    and "ns ! unat pick = (q, wall_bit k, wall_bit (opposite k))"
    and "idx w p < length cs" "idx w q < length cs" "idx w q < length visited" "\<not> visited ! idx w q"
  shows "carve w h (p # stk) visited cs r = carve w h (q # p # stk) (visited[idx w q := True]) (knock w p q k cs) r'"
  by (subst carve.simps(2)) (simp add: assms knock_def Let_def)

lemma carve_perfect:
  "carved w h s stk visited cs \<Longrightarrow>
    \<exists>cs' r'. carve w h stk visited cs r = Some (cs', r') \<and> perfect_maze w h cs'"
proof (induction "2 * length (filter Not visited) + length stk" arbitrary: stk visited cs r rule: less_induct)
  case less
  show ?case
  proof (cases stk)
    case Nil
    with less.prems show ?thesis by (simp add: carved_done)
  next
    case (Cons p st)
    note c = less.prems [unfolded Cons]
    have len: "length visited = w * h" "length cs = w * h" and p: "p \<in> grid w h"
      using c by (auto simp: carved_def seen_def)
    obtain ns where ns: "unvisited w h visited p = Some ns" "length ns \<le> 4"
      and mem: "\<And>q o' i. (q, o', i) \<in> set ns \<longleftrightarrow>
        (\<exists>k. across w h k p q \<and> o' = wall_bit k \<and> i = wall_bit (opposite k)) \<and> q \<notin> seen w h visited"
      using unvisited_eq [OF len(1) p] by blast
    show ?thesis
    proof (cases "ns = []")
      case True
      then have "q \<in> seen w h visited" if "across w h k p q" for k q using mem [of q] that by auto
      from less.hyps [OF _ carved_pop [OF c this]] show ?thesis using True ns(1) Cons by (simp add: carve_pops)
    next
      case False
      obtain pick r' where pr: "gen_range (word_of_nat (length ns)) r = (pick, r')" by fastforce
      have small: "unat (word_of_nat (length ns) :: u32) = length ns"
        using ns(2) by (simp add: unat_of_nat take_bit_nat_eq_self_iff)
      with False have "(word_of_nat (length ns) :: u32) \<noteq> 0" by (metis length_0_conv unat_0)
      from gen_range_less [OF this, of r] have "unat pick < length ns" by (simp add: small pr)
      then have in_ns: "ns ! unat pick \<in> set ns" by simp
      then obtain q k where q: "ns ! unat pick = (q, wall_bit k, wall_bit (opposite k))"
        and k: "across w h k p q" "q \<notin> seen w h visited"
        using mem by (metis prod_cases3)
      have qg: "q \<in> grid w h" using k(1) by (rule across_grid)
      have "\<not> visited ! idx w q" using k(2) qg by (simp add: seen_def)
      moreover have "idx w p < length cs" "idx w q < length cs" "idx w q < length visited"
        using p qg len by (simp_all add: idx_less)
      moreover have "2 * length (filter Not (visited[idx w q := True])) + length (q # p # st)
          < 2 * length (filter Not visited) + length stk"
        using length_filter_update [of "idx w q" visited Not True] \<open>idx w q < length visited\<close>
          \<open>\<not> visited ! idx w q\<close> Cons by simp
      ultimately show ?thesis
        using less.hyps [OF _ carved_push [OF c k]] Cons by (simp add: carve_pushes [OF ns(1) False pr q])
    qed
  qed
qed

lemma carved_start:
  assumes "s \<in> grid w h"
  shows "carved w h s [s] ((replicate (w * h) False)[idx w s := True]) (replicate (w * h) ALL_WALLS)"
proof -
  have "seen w h (replicate (w * h) False) = {}" by (auto simp: seen_def idx_less)
  then have V: "seen w h ((replicate (w * h) False)[idx w s := True]) = {s}"
    using assms by (simp add: seen_update)
  have E: "passages w h (replicate (w * h) ALL_WALLS) = {}"
    using idx_less across_grid(1) across_less by (auto simp: mem_passages bit_all_walls)
  have "path_in {} xs \<longleftrightarrow> length xs \<le> 1" for xs :: "cell list"
    by (cases xs rule: remdups_adj.cases) auto
  then have "xs = [a]" if "simple_path {} a b xs" for a b :: cell and xs
    using that by (cases xs) (auto simp: simple_path_def)
  then have u: "unique_paths ({} :: (cell \<times> cell) set)" unfolding unique_paths_def by blast
  have "outer_walls w h (replicate (w * h) ALL_WALLS)"
    by (auto simp: outer_walls_def bit_all_walls idx_less simp del: split_paired_All split_paired_Ex)
  with V E u show ?thesis by (simp add: carved_def explored_def)
qed


lemma generate_dfs_perfect:
  assumes "width \<noteq> 0" "height \<noteq> 0"
  shows "\<exists>m r'. generate_dfs width height r = Some (m, r') \<and> m_width m = width \<and> m_height m = height \<and>
    perfect_maze (unat width) (unat height) (cells m)"
proof -
  obtain sx r1 sy r2 where g: "gen_range (ucast width) r = (sx, r1)" "gen_range (ucast height) r1 = (sy, r2)"
    by (metis surj_pair)
  have u: "unat (ucast x :: u32) = unat x" for x :: u16
    using unsigned_less [of x, where 'a = nat] by (simp add: unsigned_ucast_eq take_bit_nat_eq_self_iff)
  then have "(ucast x :: u32) \<noteq> 0" if "x \<noteq> 0" for x :: u16
    using that by (metis unsigned_eq_0_iff)
  note u = u this
  have "unat sx < unat width" "unat sy < unat height"
    using gen_range_less [of "ucast width" r] gen_range_less [of "ucast height" r1] assms g u by simp_all
  then have s: "(unat sx, unat sy) \<in> grid (unat width) (unat height)" by (simp add: mem_grid)
  from carve_perfect [OF carved_start [OF s], of r2] idx_less [OF s]
  show ?thesis using assms by (auto simp: generate_dfs_def g Let_def)
qed

text \<open>C15. The carve never panics on a grid with cells, and what it leaves is a perfect maze: between
  any two cells exactly one path, both sides of a passage agreeing, one passage fewer than cells, and
  the outer walls standing.\<close>

theorem generated_maze_is_perfect:
  assumes "width \<noteq> 0" "height \<noteq> 0"
  shows "\<exists>m r'. generate_dfs width height r = Some (m, r') \<and> m_width m = width \<and> m_height m = height \<and>
    perfect_maze (unat width) (unat height) (cells m)"
  using assms by (rule generate_dfs_perfect)

lemma generated_maze_is_perfect_witness:
  "\<exists>m r'. generate_dfs 3 2 42 = Some (m, r') \<and> m_width m = 3 \<and> m_height m = 2 \<and>
    perfect_maze (unat (3 :: u16)) (unat (2 :: u16)) (cells m)"
  by (rule generated_maze_is_perfect) simp_all

section \<open>The solver finds the way out\<close>

definition passable :: "maze \<Rightarrow> (cell \<times> cell) set" where
  "passable m = passages (unat (m_width m)) (unat (m_height m)) (cells m)"

definition field :: "maze \<Rightarrow> cell set" where
  "field m = grid (unat (m_width m)) (unat (m_height m))"

definition at_cell :: "maze \<Rightarrow> solver \<Rightarrow> cell \<Rightarrow> cell_state" where
  "at_cell m s p = states s ! idx (unat (m_width m)) p"

lemma mset_bubble: "mset (bubble d c bs) = add_mset c (mset bs)"
  by (induction bs) auto

lemma mset_closer_first: "mset (closer_first goal cs) = mset cs"
proof -
  have "mset (foldl (\<lambda>bs c. bubble d c bs) bs cs) = mset bs + mset cs" for d bs
    by (induction cs arbitrary: bs) (auto simp: mset_bubble)
  then show ?thesis by (simp add: closer_first_def)
qed

lemma set_closer_first [simp]: "set (closer_first goal cs) = set cs"
  using mset_closer_first mset_eq_setD by blast

lemma sorted_bubble:
  "sorted (map d (rev bs)) \<Longrightarrow> sorted (map d (rev (bubble d c bs)))"
proof (induction bs)
  case (Cons b bs)
  have "set (bubble d c bs) = insert c (set bs)" by (metis mset_bubble set_mset_add_mset_insert set_mset_mset)
  then show ?case using Cons by (force simp: sorted_append)
qed simp

lemma filter_bubble:
  "filter (\<lambda>x. d x = k) (rev (bubble d c bs)) = filter (\<lambda>x. d x = k) (rev bs @ [c])"
  by (induction bs) auto


text \<open>The bubbling is a stable sort by the distance to the target.\<close>

lemma closer_first_sorts: "closer_first goal cs = sort_key (\<lambda>p. distance p goal) cs"
proof -
  let ?d = "\<lambda>p. distance p goal"
  have "sorted (map ?d (rev bs)) \<Longrightarrow> sorted (map ?d (rev (foldl (\<lambda>bs c. bubble ?d c bs) bs cs)))" for bs
    by (induction cs arbitrary: bs) (auto simp: sorted_bubble)
  moreover have "filter (\<lambda>x. ?d x = k) (rev (foldl (\<lambda>bs c. bubble ?d c bs) bs cs)) =
      filter (\<lambda>x. ?d x = k) (rev bs @ cs)" for bs k
    by (induction cs arbitrary: bs) (auto simp: filter_bubble)
  ultimately have "sorted (map ?d (closer_first goal cs))"
    and "\<And>k. filter (\<lambda>x. k = ?d x) (closer_first goal cs) = filter (\<lambda>x. k = ?d x) cs"
    by (simp_all add: closer_first_def eq_commute [of _ "?d _"])
  then show ?thesis by (intro properties_for_sort_key [symmetric] mset_closer_first) blast+
qed

definition solving :: "maze \<Rightarrow> cell \<Rightarrow> cell \<Rightarrow> solver \<Rightarrow> bool" where
  "solving m start goal s \<longleftrightarrow>
     s_width s = m_width m \<and> s_height s = m_height m \<and> target s = goal \<and> \<not> finished s \<and>
     length (states s) = unat (m_width m) * unat (m_height m) \<and>
     simple_path (passable m) start (hd (stack s)) (rev (stack s)) \<and>
     set (stack s) = {p \<in> field m. at_cell m s p = Live} \<and> goal \<in> field m \<and> at_cell m s goal \<noteq> Dead \<and>
     (\<forall>p q. at_cell m s p = Dead \<longrightarrow> (p, q) \<in> passable m \<longrightarrow> at_cell m s q \<noteq> Untouched)"

definition energy :: "solver \<Rightarrow> nat" where
  "energy s = 2 * length (filter (\<lambda>c. c = Untouched) (states s)) + length (stack s)"

lemma set_open_neighbours:
  assumes "p \<in> field m"
  shows "set (open_neighbours m (unat (m_width m)) (unat (m_height m)) p) = {q. (p, q) \<in> passable m}"
  using assms by (force simp: open_neighbours_def passable_def passages_def field_def walls_def)

lemma first_untouched_eq:
  assumes "\<And>q. q \<in> set qs \<Longrightarrow> idx w q < length st"
  shows "first_untouched w st qs = Some (List.find (\<lambda>q. st ! idx w q = Untouched) qs)"
  using assms by (induction qs) auto

lemma passable_field: "(p, q) \<in> passable m \<Longrightarrow> p \<in> field m" "(p, q) \<in> passable m \<Longrightarrow> q \<in> field m"
  using passages_in_grid by (auto simp: passable_def field_def)

lemma idx_field: "p \<in> field m \<Longrightarrow> idx (unat (m_width m)) p < unat (m_width m) * unat (m_height m)"
  by (simp add: field_def idx_less)

lemma at_cell_update:
  assumes "p \<in> field m" "q \<in> field m" "length (states s) = unat (m_width m) * unat (m_height m)"
    "states s' = (states s)[idx (unat (m_width m)) p := c]"
  shows "at_cell m s' q = (if q = p then c else at_cell m s q)"
  using assms by (auto simp: at_cell_def idx_field nth_list_update idx_inj [where h = "unat (m_height m)"] field_def)

text \<open>What a step is, in terms of the cells.\<close>

lemma solver_step_eq:
  assumes s: "solving m start goal s" and len: "length (cells m) = unat (m_width m) * unat (m_height m)"
    and st: "stack s = p # rest" and "p \<noteq> goal"
  obtains (enter) q where "(p, q) \<in> passable m" "at_cell m s q = Untouched"
      "solver_step m s = Some (Some (EnteredLive q),
        s\<lparr> states := (states s)[idx (unat (m_width m)) q := Live], stack := q # p # rest \<rparr>)"
    | (leave) "\<And>q. (p, q) \<in> passable m \<Longrightarrow> at_cell m s q \<noteq> Untouched"
      "solver_step m s = Some (Some (MarkedDead p),
        s\<lparr> stack := rest, states := (states s)[idx (unat (m_width m)) p := Dead], finished := (rest = []) \<rparr>)"
proof -
  let ?w = "unat (m_width m)" and ?h = "unat (m_height m)"
  let ?cand = "open_neighbours m ?w ?h p"
  define cs where "cs = (if smart s then closer_first goal ?cand else ?cand)"
  have p: "p \<in> field m" using s st by (auto simp: solving_def)
  have cs: "set cs = {q. (p, q) \<in> passable m}" using set_open_neighbours [OF p] by (simp add: cs_def)
  have f: "s_width s = m_width m" "s_height s = m_height m" "target s = goal" "\<not> finished s"
    "length (states s) = ?w * ?h" using s by (simp_all add: solving_def)
  have found: "first_untouched ?w (states s) cs = Some (List.find (\<lambda>q. states s ! idx ?w q = Untouched) cs)"
    using cs passable_field(2) idx_field f by (intro first_untouched_eq) auto
  have "solver_step m s = (case first_untouched ?w (states s) cs of
      None \<Rightarrow> None
    | Some (Some q) \<Rightarrow>
        Some (Some (EnteredLive q), s\<lparr> states := (states s)[idx ?w q := Live], stack := q # p # rest \<rparr>)
    | Some None \<Rightarrow> Some (Some (MarkedDead p),
        s\<lparr> stack := rest, states := (states s)[idx ?w p := Dead], finished := (rest = []) \<rparr>))"
    using f st \<open>p \<noteq> goal\<close> len idx_field [OF p]
    by (auto simp: solver_step_def Let_def cs_def split: option.split)
  note * = this [unfolded found option.case]
  show thesis
  proof (cases "List.find (\<lambda>q. states s ! idx ?w q = Untouched) cs")
    case None
    have "\<And>q. (p, q) \<in> passable m \<Longrightarrow> at_cell m s q \<noteq> Untouched"
      using None cs by (auto simp: find_None_iff at_cell_def)
    moreover from * None have "solver_step m s = Some (Some (MarkedDead p),
        s\<lparr> stack := rest, states := (states s)[idx ?w p := Dead], finished := (rest = []) \<rparr>)"
      by (simp only: option.case)
    ultimately show thesis by (rule leave)
  next
    case (Some q)
    then have "q \<in> set cs" "states s ! idx ?w q = Untouched" by (auto simp: find_Some_iff)
    then show thesis using enter [of q] cs * Some by (simp add: at_cell_def)
  qed
qed


lemma solving_enter:
  assumes s: "solving m start goal s" and st: "stack s = p # rest"
    and q: "(p, q) \<in> passable m" "at_cell m s q = Untouched"
    and s': "s' = s\<lparr> states := (states s)[idx (unat (m_width m)) q := Live], stack := q # p # rest \<rparr>"
  shows "solving m start goal s'" "energy s' < energy s"
proof -
  have len: "length (states s) = unat (m_width m) * unat (m_height m)" using s by (simp add: solving_def)
  have qf: "q \<in> field m" using q(1) by (rule passable_field)
  have live: "set (stack s) = {p \<in> field m. at_cell m s p = Live}" using s by (simp add: solving_def)
  have upd: "at_cell m s' r = (if r = q then Live else at_cell m s r)" if "r \<in> field m" for r
    by (rule at_cell_update [OF qf that len]) (simp add: s')
  have "q \<notin> set (stack s)" using live q(2) by auto
  then have path: "simple_path (passable m) start q (rev (q # p # rest))"
    using s st q(1) by (auto simp: solving_def simple_path_def path_in_append hd_append)
  have live': "set (q # p # rest) = {p \<in> field m. at_cell m s' p = Live}"
    using live upd qf unfolding st by auto
  have goal: "goal \<in> field m" "at_cell m s' goal \<noteq> Dead"
    using s upd by (auto simp: solving_def)
  have "at_cell m s' y \<noteq> Untouched" if "at_cell m s' x = Dead" "(x, y) \<in> passable m" for x y
    using that passable_field [OF that(2)] upd s unfolding solving_def by (metis cell_state.distinct(1,3,5))
  with path live' goal s show "solving m start goal s'" by (simp add: solving_def s')
  show "energy s' < energy s"
    using length_filter_update [of "idx (unat (m_width m)) q" "states s" "\<lambda>c. c = Untouched" Live] q(2) st
      idx_field [OF qf] len
    by (simp add: energy_def s' at_cell_def)
qed

lemma solving_leave:
  assumes s: "solving m start goal s" and st: "stack s = p # rest" and "p \<noteq> goal"
    and dead: "\<And>q. (p, q) \<in> passable m \<Longrightarrow> at_cell m s q \<noteq> Untouched"
    and conn: "(start, goal) \<in> (passable m)\<^sup>*"
    and s': "s' = s\<lparr> stack := rest, states := (states s)[idx (unat (m_width m)) p := Dead], finished := (rest = []) \<rparr>"
  shows "solving m start goal s'" "energy s' < energy s"
proof -
  have len: "length (states s) = unat (m_width m) * unat (m_height m)" using s by (simp add: solving_def)
  have live: "set (stack s) = {p \<in> field m. at_cell m s p = Live}" and "distinct (stack s)"
    using s by (auto simp: solving_def simple_path_def)
  have pf: "p \<in> field m" "at_cell m s p = Live" using live st by auto
  have upd: "at_cell m s' r = (if r = p then Dead else at_cell m s r)" if "r \<in> field m" for r
    by (rule at_cell_update [OF pf(1) that len]) (simp add: s')
  have rest: "set rest = set (stack s) - {p}" using st \<open>distinct (stack s)\<close> by auto
  have live': "set rest = {p \<in> field m. at_cell m s' p = Live}"
    using upd unfolding rest live by (auto split: if_splits)
  have goal: "goal \<in> field m" "at_cell m s' goal \<noteq> Dead"
    using s upd \<open>p \<noteq> goal\<close> by (auto simp: solving_def)
  have closed: "at_cell m s' y \<noteq> Untouched" if "at_cell m s' x = Dead" "(x, y) \<in> passable m" for x y
    using that passable_field [OF that(2)] upd s dead unfolding solving_def by (metis cell_state.distinct(3))
  have "rest \<noteq> []"
  proof
    assume "rest = []"
    then have "start = p" using s st by (simp add: solving_def simple_path_def)
    have "at_cell m s' x = Dead" if "(start, x) \<in> (passable m)\<^sup>*" for x
      using that
    proof (induction rule: rtrancl_induct)
      case base
      then show ?case using upd [OF pf(1)] \<open>start = p\<close> by simp
    next
      case (step x y)
      then have "at_cell m s' y \<noteq> Live" using live' \<open>rest = []\<close> passable_field(2) by fastforce
      with closed [OF step.IH step.hyps(2)] show ?case using cell_state.exhaust by blast
    qed
    with conn goal(2) show False by blast
  qed
  then have "simple_path (passable m) start (hd rest) (rev rest)"
    using s st by (auto simp: solving_def simple_path_def path_in_append last_rev)
  with live' goal closed s \<open>rest \<noteq> []\<close> show "solving m start goal s'" by (simp add: solving_def s')
  have "length (filter (\<lambda>c. c = Untouched) (states s')) = length (filter (\<lambda>c. c = Untouched) (states s))"
    using pf(2) idx_field [OF pf(1)] len by (simp add: s' at_cell_def length_filter_update_same)
  then show "energy s' < energy s" using st by (simp add: energy_def s')
qed


lemma solving_new:
  assumes "start \<in> field m" "goal \<in> field m"
  shows "solving m start goal (solver_new m start goal sm)"
proof -
  have "at_cell m (solver_new m start goal sm) p = (if p = start then Live else Untouched)" if "p \<in> field m" for p
    using that assms(1) by (auto simp: at_cell_def solver_new_def nth_list_update idx_field idx_inj field_def)
  then show ?thesis
    using assms passable_field by (auto simp: solving_def solver_new_def simple_path_def split: if_splits)
qed

lemma perfect_maze_connected:
  assumes "perfect_maze (unat (m_width m)) (unat (m_height m)) (cells m)" "start \<in> field m" "goal \<in> field m"
  shows "(start, goal) \<in> (passable m)\<^sup>*"
proof -
  have "\<exists>!xs. simple_path (passable m) start goal xs"
    using assms unfolding perfect_maze_def passable_def field_def by blast
  then obtain xs where "simple_path (passable m) start goal xs" by (elim ex1E)
  then show ?thesis by (rule simple_path_reaches)
qed

text \<open>One step of a solver under way: it either reports the target or goes on with less ahead of it,
  and the cell it reports is the only one that changed.\<close>

lemma solver_progress:
  assumes s: "solving m start goal s" and len: "length (cells m) = unat (m_width m) * unat (m_height m)"
    and conn: "(start, goal) \<in> (passable m)\<^sup>*"
  obtains (solved) rest where "stack s = goal # rest" "solver_step m s = Some (Some Solved, s\<lparr> finished := True \<rparr>)"
    | (goes_on) p e s' where "solver_step m s = Some (Some e, s')" "e = EnteredLive p \<or> e = MarkedDead p"
      "solving m start goal s'" "energy s' < energy s"
      "\<And>q. q \<in> field m \<Longrightarrow> q \<noteq> p \<Longrightarrow> at_cell m s' q = at_cell m s q"
proof -
  have f: "target s = goal" "\<not> finished s" and path: "simple_path (passable m) start (hd (stack s)) (rev (stack s))"
    and l: "length (states s) = unat (m_width m) * unat (m_height m)"
    using s by (simp_all add: solving_def)
  then obtain p rest where st: "stack s = p # rest" by (cases "stack s") (auto simp: simple_path_def)
  have pf: "p \<in> field m" using s st by (auto simp: solving_def)
  show thesis
  proof (cases "p = goal")
    case True
    with f st show thesis by (intro solved) (simp_all add: solver_step_def)
  next
    case False
    from s len st False show thesis
    proof (cases rule: solver_step_eq)
      case (enter q)
      with solving_enter [OF s st enter(1,2) refl] show thesis
        using at_cell_update [OF passable_field(2) [OF enter(1)] _ l] by (intro goes_on [OF enter(3), of q]) auto
    next
      case leave
      with solving_leave [OF s st False leave(1) conn refl] show thesis
        using at_cell_update [OF pf _ l] by (intro goes_on [OF leave(2), of p]) auto
    qed
  qed
qed

lemma solver_run_reaches:
  assumes len: "length (cells m) = unat (m_width m) * unat (m_height m)"
    and conn: "(start, goal) \<in> (passable m)\<^sup>*"
  shows "solving m start goal s \<Longrightarrow> energy s \<le> n \<Longrightarrow>
    \<exists>es s'. solver_run n m s = Some (es @ [Solved], s') \<and> Solved \<notin> set es \<and>
      finished s' \<and> simple_path (passable m) start goal (rev (stack s')) \<and>
      set (stack s') = {p \<in> field m. at_cell m s' p = Live}"
proof (induction n arbitrary: s)
  case 0
  then show ?case by (simp add: energy_def solving_def simple_path_def)
next
  case (Suc n)
  from Suc.prems(1) len conn show ?case
  proof (cases rule: solver_progress)
    case (solved rest)
    let ?s = "s\<lparr> finished := True \<rparr>"
    have "solver_run (Suc n) m s = Some ([Solved], ?s)"
      using solved by (cases n) (simp_all add: solver_step_def [of m ?s])
    moreover have "at_cell m ?s = at_cell m s" by (simp add: at_cell_def fun_eq_iff)
    ultimately show ?thesis
      using Suc.prems(1) solved(1) by (intro exI [of _ "[]"] exI [of _ ?s]) (simp add: solving_def)
  next
    case (goes_on p e s')
    have "energy s' \<le> n" using goes_on(4) Suc.prems(2) by simp
    from Suc.IH [OF goes_on(3) this] goes_on(1,2) show ?thesis
      by (elim exE conjE, intro exI [of _ "e # _"]) auto
  qed
qed

lemma solver_ends_solved:
  assumes "perfect_maze (unat (m_width m)) (unat (m_height m)) (cells m)"
    and "start \<in> field m" and "goal \<in> field m"
    and "2 * (unat (m_width m) * unat (m_height m)) \<le> n"
  shows "\<exists>es s'. solver_run n m (solver_new m start goal sm) = Some (es @ [Solved], s') \<and> Solved \<notin> set es \<and>
    finished s' \<and> simple_path (passable m) start goal (rev (stack s')) \<and>
    set (stack s') = {p \<in> field m. at_cell m s' p = Live}"
proof -
  let ?w = "unat (m_width m)" and ?h = "unat (m_height m)" and ?s = "solver_new m start goal sm"
  have len: "length (cells m) = ?w * ?h" using assms(1) by (simp add: perfect_maze_def)
  have conn: "(start, goal) \<in> (passable m)\<^sup>*" using assms(1-3) by (rule perfect_maze_connected)
  have "solving m start goal ?s" using assms(2,3) by (rule solving_new)
  moreover have "energy ?s \<le> n"
    using length_filter_update [of "idx ?w start" "replicate (?w * ?h) Untouched" "\<lambda>c. c = Untouched" Live]
      idx_field [OF assms(2)] assms(4) by (simp add: energy_def solver_new_def)
  ultimately show ?thesis using solver_run_reaches [OF len conn] by blast
qed

text \<open>C16. On a carved maze the solver, whichever order it tries the neighbours in, reports the target
  within two steps for each cell and only once, never reads outside its arrays, and the live cells it
  leaves on the screen are the one path from start to target.\<close>

theorem solver_finds_the_way_out:
  assumes "perfect_maze (unat (m_width m)) (unat (m_height m)) (cells m)"
    and "start \<in> field m" and "goal \<in> field m"
    and "2 * (unat (m_width m) * unat (m_height m)) \<le> n"
  shows "\<exists>es s'. solver_run n m (solver_new m start goal sm) = Some (es @ [Solved], s') \<and> Solved \<notin> set es \<and>
    finished s' \<and> simple_path (passable m) start goal (rev (stack s')) \<and>
    set (stack s') = {p \<in> field m. at_cell m s' p = Live}"
  using assms by (rule solver_ends_solved)

lemma solver_finds_the_way_out_witness:
  "\<exists>m r' es s'. generate_dfs 3 2 42 = Some (m, r') \<and>
    solver_run 12 m (solver_new m (0, 0) (2, 1) True) = Some (es @ [Solved], s') \<and> Solved \<notin> set es \<and>
    finished s' \<and> simple_path (passable m) (0, 0) (2, 1) (rev (stack s')) \<and>
    set (stack s') = {p \<in> field m. at_cell m s' p = Live}"
proof -
  obtain m r' where m: "generate_dfs 3 2 42 = Some (m, r')" "m_width m = 3" "m_height m = 2"
    "perfect_maze (unat (m_width m)) (unat (m_height m)) (cells m)"
    using generate_dfs_perfect [of 3 2 42] by auto
  have "(0, 0) \<in> field m" "(2, 1) \<in> field m" "2 * (unat (m_width m) * unat (m_height m)) \<le> 12"
    by (simp_all add: field_def mem_grid m(2,3))
  from solver_finds_the_way_out [OF m(4) this, of True] m(1) show ?thesis by blast
qed

end
