(* ===== verification/Strings.thy ===== *)
theory Strings
  imports Prelude
begin

text \<open>
  Rust's \<open>String\<close> as the list of its characters' code points, with what the programs use of the
  standard library on it: encoding, trimming, splitting at white space, stripping prefixes, and reading
  and printing numbers.
\<close>

type_synonym chars = "u32 list"

definition literal :: "string \<Rightarrow> chars" where
  "literal s = map (\<lambda>c. of_char c) s"

lemma literal_simps [simp]: "literal [] = []" "literal (c # s) = of_char c # literal s"
  "literal (s @ t) = literal s @ literal t"
  by (simp_all add: literal_def)

section \<open>Encoding\<close>

definition utf8_char :: "u32 \<Rightarrow> bytes" where
  "utf8_char c =
    (if c < 0x80 then [ucast c]
     else if c < 0x800 then [or 0xC0 (ucast (drop_bit 6 c)), or 0x80 (ucast (and c 0x3F))]
     else if c < 0x10000 then
       [or 0xE0 (ucast (drop_bit 12 c)), or 0x80 (ucast (and (drop_bit 6 c) 0x3F)), or 0x80 (ucast (and c 0x3F))]
     else
       [or 0xF0 (ucast (drop_bit 18 c)), or 0x80 (ucast (and (drop_bit 12 c) 0x3F)),
        or 0x80 (ucast (and (drop_bit 6 c) 0x3F)), or 0x80 (ucast (and c 0x3F))])"

definition into_bytes :: "chars \<Rightarrow> bytes" where
  "into_bytes s = concat (map utf8_char s)"

section \<open>Classes of characters\<close>

definition is_control :: "u32 \<Rightarrow> bool" where
  "is_control c \<longleftrightarrow> c < 0x20 \<or> 0x7F \<le> c \<and> c < 0xA0"

text \<open>The characters with the Unicode property \<open>White_Space\<close>.\<close>

definition is_whitespace :: "u32 \<Rightarrow> bool" where
  "is_whitespace c \<longleftrightarrow> 9 \<le> c \<and> c \<le> 13 \<or> c = 0x20 \<or> c = 0x85 \<or> c = 0xA0 \<or> c = 0x1680 \<or>
     0x2000 \<le> c \<and> c \<le> 0x200A \<or> c = 0x2028 \<or> c = 0x2029 \<or> c = 0x202F \<or> c = 0x205F \<or> c = 0x3000"

section \<open>Cutting\<close>

definition trim :: "chars \<Rightarrow> chars" where
  "trim s = rev (dropWhile is_whitespace (rev (dropWhile is_whitespace s)))"

fun strip_prefix :: "chars \<Rightarrow> chars \<Rightarrow> chars option" where
  "strip_prefix [] s = Some s"
| "strip_prefix (p # ps) [] = None"
| "strip_prefix (p # ps) (c # s) = (if p = c then strip_prefix ps s else None)"

lemma strip_prefix_append [simp]: "strip_prefix p (p @ s) = Some s"
  by (induction p) auto

lemma strip_prefix_Some: "strip_prefix p s = Some r \<longleftrightarrow> s = p @ r"
  by (induction p s rule: strip_prefix.induct) auto

text \<open>\<open>split(sep)\<close>: one piece more than there are separators.\<close>

fun split_on :: "u32 \<Rightarrow> chars \<Rightarrow> chars list" where
  "split_on sep [] = [[]]"
| "split_on sep (c # s) =
    (if c = sep then [] # split_on sep s
     else (case split_on sep s of [] \<Rightarrow> [[c]] | p # ps \<Rightarrow> (c # p) # ps))"

lemma split_on_not_Nil [simp]: "split_on sep s \<noteq> []"
  by (induction s) (auto split: list.split)

lemma split_on_pieces: "p \<in> set (split_on sep s) \<Longrightarrow> sep \<notin> set p"
  by (induction s arbitrary: p) (auto split: list.splits if_splits)

lemma concat_split_on: "concat (split_on sep s) = filter (\<lambda>c. c \<noteq> sep) s"
proof (induction s)
  case (Cons c s)
  then show ?case by (cases "split_on sep s") auto
qed simp

text \<open>\<open>split_whitespace\<close>: the maximal runs of other characters.\<close>

function split_whitespace :: "chars \<Rightarrow> chars list" where
  "split_whitespace s =
    (case dropWhile is_whitespace s of
       [] \<Rightarrow> []
     | c # cs \<Rightarrow> (c # takeWhile (\<lambda>c. \<not> is_whitespace c) cs) # split_whitespace (dropWhile (\<lambda>c. \<not> is_whitespace c) cs))"
  by pat_completeness auto
termination
proof (relation "measure length")
  fix s c cs
  assume "dropWhile is_whitespace s = c # cs"
  then have "length (c # cs) \<le> length s" by (metis length_dropWhile_le)
  then show "(dropWhile (\<lambda>c. \<not> is_whitespace c) cs, s) \<in> measure length"
    using length_dropWhile_le [of "\<lambda>c. \<not> is_whitespace c" cs] by simp
qed simp

declare split_whitespace.simps [simp del]

lemma split_whitespace_step:
  "dropWhile is_whitespace s = [] \<Longrightarrow> split_whitespace s = []"
  "dropWhile is_whitespace s = c # cs \<Longrightarrow> split_whitespace s =
    (c # takeWhile (\<lambda>c. \<not> is_whitespace c) cs) # split_whitespace (dropWhile (\<lambda>c. \<not> is_whitespace c) cs)"
  by (subst split_whitespace.simps, simp only: list.case)+

lemma first_of_word: "dropWhile is_whitespace s = c # cs \<Longrightarrow> \<not> is_whitespace c"
  by (metis hd_dropWhile list.distinct(1) list.sel(1))

lemma words_not_Nil: "w \<in> set (split_whitespace s) \<Longrightarrow> w \<noteq> []"
proof (induction s rule: split_whitespace.induct)
  case (1 s)
  then show ?case by (cases "dropWhile is_whitespace s") (auto simp: split_whitespace_step)
qed

lemma words_no_space: "w \<in> set (split_whitespace s) \<Longrightarrow> c \<in> set w \<Longrightarrow> \<not> is_whitespace c"
proof (induction s rule: split_whitespace.induct)
  case (1 s)
  then show ?case
    by (cases "dropWhile is_whitespace s") (auto simp: split_whitespace_step dest: set_takeWhileD first_of_word)
qed

lemma filter_dropWhile_whitespace:
  "filter (\<lambda>c. \<not> is_whitespace c) (dropWhile is_whitespace s) = filter (\<lambda>c. \<not> is_whitespace c) s"
  by (induction s) auto

lemma concat_split_whitespace: "concat (split_whitespace s) = filter (\<lambda>c. \<not> is_whitespace c) s"
proof (induction s rule: split_whitespace.induct)
  case (1 s)
  show ?case
  proof (cases "dropWhile is_whitespace s")
    case Nil
    then show ?thesis using filter_dropWhile_whitespace [of s] by (simp add: split_whitespace_step)
  next
    case (Cons c cs)
    have "filter (\<lambda>c. \<not> is_whitespace c) cs = takeWhile (\<lambda>c. \<not> is_whitespace c) cs @
        filter (\<lambda>c. \<not> is_whitespace c) (dropWhile (\<lambda>c. \<not> is_whitespace c) cs)"
      by (metis (no_types, lifting) filter_append filter_True set_takeWhileD takeWhile_dropWhile_id)
    then show ?thesis using 1 [OF Cons] filter_dropWhile_whitespace [of s] first_of_word [OF Cons] Cons
      by (simp add: split_whitespace_step)
  qed
qed

section \<open>Numbers\<close>

fun digits :: "nat \<Rightarrow> string" where
  "digits n = (if n < 10 then [char_of (48 + n)] else digits (n div 10) @ [char_of (48 + n mod 10)])"

declare digits.simps [simp del]

definition decimal :: "int \<Rightarrow> string" where
  "decimal i = (if i < 0 then ''-'' @ digits (nat (- i)) else digits (nat i))"

text \<open>\<open>char::to_digit\<close> for a radix of at most 36.\<close>

definition to_digit :: "nat \<Rightarrow> u32 \<Rightarrow> nat option" where
  "to_digit radix c =
    (let d = (if 48 \<le> c \<and> c \<le> 57 then unat c - 48
              else if 97 \<le> c \<and> c \<le> 122 then unat c - 87
              else if 65 \<le> c \<and> c \<le> 90 then unat c - 55 else radix)
     in if d < radix then Some d else None)"

text \<open>\<open>uN::from_str_radix\<close> with values below \<open>bound\<close>: at least one digit, after at most one plus sign.\<close>

fun parse_digits :: "nat \<Rightarrow> nat \<Rightarrow> nat \<Rightarrow> chars \<Rightarrow> nat option" where
  "parse_digits bound radix acc [] = Some acc"
| "parse_digits bound radix acc (c # s) =
    (case to_digit radix c of
       None \<Rightarrow> None
     | Some d \<Rightarrow> if acc * radix + d < bound then parse_digits bound radix (acc * radix + d) s else None)"

definition from_str_radix :: "nat \<Rightarrow> nat \<Rightarrow> chars \<Rightarrow> nat option" where
  "from_str_radix bound radix s =
    (let s' = (case s of c # cs \<Rightarrow> if c = 43 then cs else s | [] \<Rightarrow> s)
     in if s' = [] then None else parse_digits bound radix 0 s')"

lemma parse_digits_less: "parse_digits bound radix acc s = Some n \<Longrightarrow> acc < bound \<Longrightarrow> n < bound"
  by (induction s arbitrary: acc) (auto split: option.splits if_splits)

lemma from_str_radix_less: "from_str_radix bound radix s = Some n \<Longrightarrow> 0 < bound \<Longrightarrow> n < bound"
  by (auto simp: from_str_radix_def Let_def parse_digits_less split: if_splits)

end
