(* ===== verification/Locker.thy ===== *)
theory Locker
  imports Maze Strings "HOL-Library.Signed_Division"
begin

text \<open>
  The lock screen program (\<open>crates/shoestring-lock/src/main.rs\<close> and \<open>pam.rs\<close>): the screen saver's
  phases over the maze, the password prompt, the check through PAM and the conversation PAM holds with
  it. Instants are milliseconds. PAM, xkb and the clock are arguments. Memory that C functions allocate is a heap of
  blocks, so that what is freed, and what it held then, can be told.
\<close>

section \<open>The screen saver\<close>

definition STEPS_PER_FRAME :: nat where "STEPS_PER_FRAME = 3"
definition PRE_SOLVE_DELAY :: nat where "PRE_SOLVE_DELAY = 800"
definition POST_SOLVE_DELAY :: nat where "POST_SOLVE_DELAY = 1800"
definition PROMPT_TIMEOUT :: nat where "PROMPT_TIMEOUT = 8000"
definition TARGET_CELL_PX :: u32 where "TARGET_CELL_PX = 24"
definition MIN_CELL_PX :: u32 where "MIN_CELL_PX = 12"
definition MIN_CELLS :: u16 where "MIN_CELLS = 12"

datatype phase = PreSolve nat | Solving | PostSolve nat

datatype change = NoChange | Cells "cell list" | All

record animation =
  cell_px :: u32
  offset :: "int \<times> int"
  the_maze :: maze
  the_solver :: solver
  the_phase :: phase
  rng :: u64

definition pick_cell_size :: "u32 \<Rightarrow> u32 \<Rightarrow> u32" where
  "pick_cell_size surface_w surface_h =
    (let max_by_w = max (surface_w div ucast MIN_CELLS) MIN_CELL_PX;
         max_by_h = max (surface_h div ucast MIN_CELLS) MIN_CELL_PX
     in max (min (min TARGET_CELL_PX max_by_w) max_by_h) MIN_CELL_PX)"

definition columns :: "u32 \<Rightarrow> u32 \<Rightarrow> u16" where
  "columns surface cell = ucast (max (surface div cell) (ucast MIN_CELLS))"

text \<open>From a seed of the clock, at instant \<open>now\<close>; \<open>None\<close> is a panic.\<close>

definition animation_new :: "u32 \<Rightarrow> u32 \<Rightarrow> u64 \<Rightarrow> nat \<Rightarrow> animation option" where
  "animation_new surface_w surface_h seed now =
    (let cell = pick_cell_size surface_w surface_h;
         cols = columns surface_w cell; rows = columns surface_h cell;
         off = ((sint surface_w - uint cols * uint cell) sdiv 2, (sint surface_h - uint rows * uint cell) sdiv 2)
     in (case generate_dfs cols rows (rng_new seed) of
           None \<Rightarrow> None
         | Some (m, r) \<Rightarrow> Some \<lparr> cell_px = cell, offset = off, the_maze = m,
             the_solver = solver_new m (0, 0) (unat (cols - 1), unat (rows - 1)) True,
             the_phase = PreSolve (now + PRE_SOLVE_DELAY), rng = r \<rparr>))"

definition regenerate :: "nat \<Rightarrow> animation \<Rightarrow> animation option" where
  "regenerate now a =
    (let cols = m_width (the_maze a); rows = m_height (the_maze a)
     in (case generate_dfs cols rows (rng a) of
           None \<Rightarrow> None
         | Some (m, r) \<Rightarrow> Some (a\<lparr> the_maze := m,
             the_solver := solver_new m (0, 0) (unat (cols - 1), unat (rows - 1)) True,
             the_phase := PreSolve (now + PRE_SOLVE_DELAY), rng := r \<rparr>)))"

text \<open>The loop of one frame: \<open>k\<close> steps left, the cells changed so far, last first.\<close>

fun solve_steps :: "nat \<Rightarrow> nat \<Rightarrow> cell list \<Rightarrow> animation \<Rightarrow> (cell list \<times> animation) option" where
  "solve_steps 0 now cs a = Some (cs, a)"
| "solve_steps (Suc k) now cs a =
    (case solver_step (the_maze a) (the_solver a) of
       None \<Rightarrow> None
     | Some (ev, s) \<Rightarrow>
         (let cs' = (case ev of Some (EnteredLive p) \<Rightarrow> p # cs | Some (MarkedDead p) \<Rightarrow> p # cs | _ \<Rightarrow> cs);
              a' = a\<lparr> the_solver := s \<rparr>
          in if finished s then Some (cs', a'\<lparr> the_phase := PostSolve (now + POST_SOLVE_DELAY) \<rparr>)
             else solve_steps k now cs' a'))"

text \<open>\<open>later\<close> is the clock as \<open>regenerate\<close> reads it.\<close>

definition tick :: "nat \<Rightarrow> nat \<Rightarrow> animation \<Rightarrow> (change \<times> animation) option" where
  "tick now later a = (case the_phase a of
     PreSolve until \<Rightarrow> Some (NoChange, if until \<le> now then a\<lparr> the_phase := Solving \<rparr> else a)
   | Solving \<Rightarrow>
       map_option (\<lambda>(cs, a'). (if cs = [] then NoChange else Cells (rev cs), a'))
         (solve_steps STEPS_PER_FRAME now [] a)
   | PostSolve until \<Rightarrow>
       if until \<le> now then map_option (Pair All) (regenerate later a) else Some (NoChange, a))"


subsection \<open>It never stops\<close>

definition goal_of :: "maze \<Rightarrow> cell" where
  "goal_of m = (unat (m_width m - 1), unat (m_height m - 1))"

definition anim_ok :: "animation \<Rightarrow> bool" where
  "anim_ok a \<longleftrightarrow> m_width (the_maze a) \<noteq> 0 \<and> m_height (the_maze a) \<noteq> 0 \<and>
     perfect_maze (unat (m_width (the_maze a))) (unat (m_height (the_maze a))) (cells (the_maze a)) \<and>
     (case the_phase a of PostSolve _ \<Rightarrow> True | _ \<Rightarrow> solving (the_maze a) (0, 0) (goal_of (the_maze a)) (the_solver a))"

lemma corners:
  assumes "m_width m \<noteq> 0" "m_height m \<noteq> 0"
  shows "(0, 0) \<in> field m" "goal_of m \<in> field m"
  using assms by (simp_all add: field_def mem_grid goal_of_def unat_pred unat_gt_0)

lemma anim_ok_fresh:
  assumes "generate_dfs w h r = Some (m, r')" "w \<noteq> 0" "h \<noteq> 0" "the_maze a = m"
    "the_solver a = solver_new m (0, 0) (unat (w - 1), unat (h - 1)) True" "the_phase a = PreSolve t"
  shows "anim_ok a"
proof -
  have m: "m_width m = w" "m_height m = h" "perfect_maze (unat w) (unat h) (cells m)"
    using generate_dfs_perfect [OF assms(2,3), of r] assms(1) by auto
  then have "solving m (0, 0) (goal_of m) (the_solver a)"
    unfolding assms(5) using corners [of m] assms(2,3) solving_new by (simp add: goal_of_def)
  then show ?thesis using m assms by (simp add: anim_ok_def)
qed

lemma regenerate_ok:
  assumes "anim_ok a"
  shows "\<exists>a'. regenerate now a = Some a' \<and> anim_ok a' \<and> the_phase a' = PreSolve (now + PRE_SOLVE_DELAY)"
proof -
  have dims: "m_width (the_maze a) \<noteq> 0" "m_height (the_maze a) \<noteq> 0" using assms by (auto simp: anim_ok_def)
  then obtain m r' where g: "generate_dfs (m_width (the_maze a)) (m_height (the_maze a)) (rng a) = Some (m, r')"
    using generate_dfs_perfect by blast
  show ?thesis using anim_ok_fresh [OF g dims] by (simp add: regenerate_def g)
qed

definition untouched_but :: "animation \<Rightarrow> animation \<Rightarrow> cell set \<Rightarrow> bool" where
  "untouched_but a a' ps \<longleftrightarrow> the_maze a' = the_maze a \<and>
     (\<forall>q \<in> field (the_maze a) - ps. at_cell (the_maze a) (the_solver a') q = at_cell (the_maze a) (the_solver a) q)"

lemma anim_connected:
  assumes "anim_ok a"
  shows "length (cells (the_maze a)) = unat (m_width (the_maze a)) * unat (m_height (the_maze a))"
    "((0, 0), goal_of (the_maze a)) \<in> (passable (the_maze a))\<^sup>*"
  using assms perfect_maze_connected [of "the_maze a"] corners [of "the_maze a"]
  by (auto simp: anim_ok_def perfect_maze_def)

lemma solve_steps_ok:
  assumes "anim_ok a" "the_phase a = Solving"
  shows "\<exists>cs' a'. solve_steps k now cs a = Some (cs', a') \<and> anim_ok a' \<and> set cs \<subseteq> set cs' \<and>
    untouched_but a a' (set cs') \<and>
    (the_phase a' = PostSolve (now + POST_SOLVE_DELAY) \<or>
     the_phase a' = Solving \<and> (k \<noteq> 0 \<longrightarrow> energy (the_solver a') < energy (the_solver a)))"
  using assms
proof (induction k arbitrary: cs a)
  case 0
  then show ?case by (auto simp: untouched_but_def)
next
  case (Suc k)
  let ?m = "the_maze a"
  have "solving ?m (0, 0) (goal_of ?m) (the_solver a)" using Suc.prems by (simp add: anim_ok_def)
  from this anim_connected [OF Suc.prems(1)] show ?case
  proof (cases rule: solver_progress)
    case (solved rest)
    then show ?thesis using Suc.prems
      by (simp add: anim_ok_def untouched_but_def at_cell_def)
  next
    case (goes_on p e s')
    have "\<not> finished s'" using goes_on(3) by (simp add: solving_def)
    let ?a = "a\<lparr> the_solver := s' \<rparr>"
    have "anim_ok ?a" "the_phase ?a = Solving" using Suc.prems goes_on(3) by (simp_all add: anim_ok_def)
    from Suc.IH [OF this, of "p # cs"] obtain cs' a' where
      a': "solve_steps k now (p # cs) ?a = Some (cs', a')" "anim_ok a'" "set (p # cs) \<subseteq> set cs'"
      "untouched_but ?a a' (set cs')"
      "the_phase a' = PostSolve (now + POST_SOLVE_DELAY) \<or>
       the_phase a' = Solving \<and> (k \<noteq> 0 \<longrightarrow> energy (the_solver a') < energy s')" by auto
    have "solve_steps (Suc k) now cs a = Some (cs', a')"
      using goes_on(1,2) \<open>\<not> finished s'\<close> a'(1) by auto
    moreover have "untouched_but a a' (set cs')"
      using a'(3,4) goes_on(5) by (auto simp: untouched_but_def simp del: split_paired_All)
    moreover have "the_phase a' = Solving \<Longrightarrow> energy (the_solver a') < energy (the_solver a)"
      using a'(1,5) goes_on(4) by (cases "k = 0") auto
    ultimately show ?thesis using a' by (intro exI [of _ cs'] exI [of _ a']) auto
  qed
qed

definition painted :: "change \<Rightarrow> cell set" where
  "painted c = (case c of NoChange \<Rightarrow> {} | Cells ps \<Rightarrow> set ps | All \<Rightarrow> UNIV)"

lemma tick_ok:
  assumes "anim_ok a"
  shows "\<exists>c a'. tick now later a = Some (c, a') \<and> anim_ok a' \<and> (c \<noteq> All \<longrightarrow> untouched_but a a' (painted c)) \<and>
    (case the_phase a of
       PreSolve t \<Rightarrow> the_phase a' = (if t \<le> now then Solving else PreSolve t)
     | Solving \<Rightarrow> the_phase a' = PostSolve (now + POST_SOLVE_DELAY) \<or>
         the_phase a' = Solving \<and> energy (the_solver a') < energy (the_solver a)
     | PostSolve t \<Rightarrow> the_phase a' = (if t \<le> now then PreSolve (later + PRE_SOLVE_DELAY) else PostSolve t))"
proof (cases "the_phase a")
  case (PreSolve t)
  with assms show ?thesis by (simp add: tick_def untouched_but_def anim_ok_def)
next
  case Solving
  obtain cs' a' where a': "solve_steps STEPS_PER_FRAME now [] a = Some (cs', a')" "anim_ok a'"
    "untouched_but a a' (set cs')"
    "the_phase a' = PostSolve (now + POST_SOLVE_DELAY) \<or>
     the_phase a' = Solving \<and> energy (the_solver a') < energy (the_solver a)"
    using solve_steps_ok [OF assms Solving, of STEPS_PER_FRAME now "[]"] by (auto simp: STEPS_PER_FRAME_def)
  let ?c = "if cs' = [] then NoChange else Cells (rev cs')"
  have "tick now later a = Some (?c, a')" by (simp add: tick_def Solving a'(1))
  moreover have "painted ?c = set cs'" by (simp add: painted_def)
  ultimately show ?thesis using a'(2-4) Solving by (intro exI [of _ ?c] exI [of _ a']) simp
next
  case (PostSolve t)
  with assms regenerate_ok [OF assms, of later] show ?thesis
    by (auto simp: tick_def untouched_but_def)
qed


primrec ticks :: "(nat \<times> nat) list \<Rightarrow> animation \<Rightarrow> (change list \<times> animation) option" where
  "ticks [] a = Some ([], a)"
| "ticks (t # ts) a = (case tick (fst t) (snd t) a of
     None \<Rightarrow> None
   | Some (c, a') \<Rightarrow> map_option (\<lambda>(cs, a''). (c # cs, a'')) (ticks ts a'))"

lemma ticks_ok: "anim_ok a \<Longrightarrow> \<exists>cs a'. ticks ts a = Some (cs, a') \<and> anim_ok a' \<and> length cs = length ts"
proof (induction ts arbitrary: a)
  case (Cons t ts)
  obtain c a1 where "tick (fst t) (snd t) a = Some (c, a1)" "anim_ok a1"
    using tick_ok [OF Cons.prems, of "fst t" "snd t"] by auto
  with Cons.IH [of a1] show ?case by auto
qed simp

lemma solving_ends:
  "anim_ok a \<Longrightarrow> the_phase a = Solving \<Longrightarrow> energy (the_solver a) \<le> length ts \<Longrightarrow>
    \<exists>n \<le> length ts. \<exists>cs a'. ticks (take n ts) a = Some (cs, a') \<and> anim_ok a' \<and>
      (\<exists>t. the_phase a' = PostSolve t)"
proof (induction ts arbitrary: a)
  case Nil
  then show ?case by (simp add: energy_def anim_ok_def solving_def simple_path_def)
next
  case (Cons t ts)
  obtain c a1 where t: "tick (fst t) (snd t) a = Some (c, a1)" "anim_ok a1"
    and *: "the_phase a1 = PostSolve (fst t + POST_SOLVE_DELAY) \<or>
      the_phase a1 = Solving \<and> energy (the_solver a1) < energy (the_solver a)"
    using tick_ok [OF Cons.prems(1), of "fst t" "snd t"] Cons.prems(2) by auto
  from * show ?case
  proof
    assume "the_phase a1 = PostSolve (fst t + POST_SOLVE_DELAY)"
    with t show ?thesis by (intro exI [of _ 1]) simp
  next
    assume a1: "the_phase a1 = Solving \<and> energy (the_solver a1) < energy (the_solver a)"
    with Cons.prems(3) have "energy (the_solver a1) \<le> length ts" by simp
    from Cons.IH [OF t(2) _ this] a1 obtain n cs a' where
      "n \<le> length ts" "ticks (take n ts) a1 = Some (cs, a')" "anim_ok a'" "\<exists>t. the_phase a' = PostSolve t" by auto
    with t show ?thesis by (intro exI [of _ "Suc n"]) auto
  qed
qed

text \<open>On a surface of up to 786,431 pixels each way the grid's dimensions fit, so nothing panics.\<close>

lemma pick_cell_size_bounds: "MIN_CELL_PX \<le> pick_cell_size w h" "pick_cell_size w h \<le> TARGET_CELL_PX"
  by (auto simp: pick_cell_size_def Let_def MIN_CELL_PX_def TARGET_CELL_PX_def max_def min_def)

lemma columns_bounds:
  assumes "unat surface < 786432" "MIN_CELL_PX \<le> c"
  shows "unat (columns surface c) = max (unat surface div unat c) 12"
proof -
  have "12 \<le> unat c" using assms(2) by (simp add: MIN_CELL_PX_def word_le_nat_alt)
  then have "unat surface div unat c \<le> unat surface div 12" by (intro div_le_mono2) simp_all
  then have "unat (surface div c) < 65536" using assms(1) by (simp add: unat_div)
  moreover have m: "unat (max a b) = max (unat a) (unat b)" for a b :: u32
    by (simp add: max_def word_le_nat_alt)
  ultimately show ?thesis
    by (simp add: columns_def MIN_CELLS_def unsigned_ucast_eq unat_div m take_bit_nat_eq_self_iff)
qed

lemma animation_new_ok:
  assumes "unat w < 786432" "unat h < 786432"
  shows "\<exists>a. animation_new w h seed now = Some a \<and> anim_ok a \<and> the_phase a = PreSolve (now + PRE_SOLVE_DELAY)"
proof -
  let ?c = "pick_cell_size w h"
  have "columns w ?c \<noteq> 0" "columns h ?c \<noteq> 0"
    using columns_bounds [OF assms(1) pick_cell_size_bounds(1), of w h]
      columns_bounds [OF assms(2) pick_cell_size_bounds(1), of w h] unsigned_0 by fastforce+
  with generate_dfs_perfect [OF this, of "rng_new seed"] show ?thesis
    by (auto simp: animation_new_def Let_def intro!: anim_ok_fresh)
qed

text \<open>The screen saver never panics, at whatever instants its frames fall, and however long it runs.\<close>

theorem screen_saver_keeps_running:
  assumes "unat w < 786432" "unat h < 786432"
  shows "\<exists>a cs a'. animation_new w h seed now = Some a \<and> ticks ts a = Some (cs, a') \<and> length cs = length ts"
  using animation_new_ok [OF assms, of seed now] ticks_ok by blast

lemma screen_saver_keeps_running_witness:
  "\<exists>a cs a'. animation_new 1920 1080 7 0 = Some a \<and> ticks [(0, 0), (900, 900), (933, 933)] a = Some (cs, a') \<and>
    length cs = length [(0 :: nat, 0 :: nat), (900, 900), (933, 933)]"
  by (rule screen_saver_keeps_running) simp_all

section \<open>The heap\<close>

datatype block = Bytes bytes | Replies "nat option list"

record heap =
  blocks :: "nat \<rightharpoonup> block"
  fresh :: nat
  freed :: "block list"

text \<open>Whether an allocation succeeds is up to \<open>ok\<close>; addresses are never used twice.\<close>

definition malloc :: "(nat \<Rightarrow> bool) \<Rightarrow> block \<Rightarrow> heap \<Rightarrow> nat option \<times> heap" where
  "malloc ok b h =
    (if ok (fresh h) then (Some (fresh h), h\<lparr> blocks := (blocks h)(fresh h \<mapsto> b), fresh := Suc (fresh h) \<rparr>)
     else (None, h\<lparr> fresh := Suc (fresh h) \<rparr>))"

definition free :: "nat \<Rightarrow> heap \<Rightarrow> heap" where
  "free p h = (case blocks h p of
     Some b \<Rightarrow> h\<lparr> blocks := (blocks h)(p := None), freed := b # freed h \<rparr> | None \<Rightarrow> h)"

definition strlen :: "bytes \<Rightarrow> nat" where
  "strlen bs = length (takeWhile (\<lambda>b. b \<noteq> 0) bs)"

definition wipe :: "nat \<Rightarrow> bytes \<Rightarrow> bytes" where
  "wipe n bs = replicate (min n (length bs)) 0 @ drop n bs"

section \<open>The conversation with PAM\<close>

definition PAM_SUCCESS :: int where "PAM_SUCCESS = 0"
definition PAM_BUF_ERR :: int where "PAM_BUF_ERR = 5"
definition PAM_PROMPT_ECHO_OFF :: int where "PAM_PROMPT_ECHO_OFF = 1"
definition PAM_PROMPT_ECHO_ON :: int where "PAM_PROMPT_ECHO_ON = 2"
definition PAM_ERROR_MSG :: int where "PAM_ERROR_MSG = 3"
definition PAM_TEXT_INFO :: int where "PAM_TEXT_INFO = 4"
definition PAM_MAX_NUM_MSG :: int where "PAM_MAX_NUM_MSG = 32"

text \<open>A message is its style, the text plays no part; a null pointer is \<open>None\<close>.\<close>

definition c_copy :: "(nat \<Rightarrow> bool) \<Rightarrow> bytes \<Rightarrow> heap \<Rightarrow> nat option \<times> heap" where
  "c_copy ok bs h = malloc ok (Bytes (bs @ [0])) h"

definition wipe_and_free :: "nat \<Rightarrow> heap \<Rightarrow> heap" where
  "wipe_and_free p h = (case blocks h p of
     Some (Bytes bs) \<Rightarrow> free p (h\<lparr> blocks := (blocks h)(p \<mapsto> Bytes (wipe (strlen bs) bs)) \<rparr>)
   | _ \<Rightarrow> free p h)"

primrec free_strings :: "nat option list \<Rightarrow> heap \<Rightarrow> heap" where
  "free_strings [] h = h"
| "free_strings (r # rs) h = free_strings rs (case r of Some p \<Rightarrow> wipe_and_free p h | None \<Rightarrow> h)"

definition free_replies :: "nat \<Rightarrow> heap \<Rightarrow> heap" where
  "free_replies reps h = (case blocks h reps of
     Some (Replies rs) \<Rightarrow> free reps (free_strings rs h) | _ \<Rightarrow> h)"

text \<open>The loop, from message \<open>i\<close> on: the return code and the heap.\<close>

fun answer :: "(nat \<Rightarrow> bool) \<Rightarrow> int \<Rightarrow> bytes \<Rightarrow> nat \<Rightarrow> nat \<Rightarrow> int option list \<Rightarrow> heap \<Rightarrow> int \<times> heap" where
  "answer ok conv_err pw reps i [] h = (PAM_SUCCESS, h)"
| "answer ok conv_err pw reps i (m # ms) h =
    (case m of
       None \<Rightarrow> (conv_err, free_replies reps h)
     | Some style \<Rightarrow>
         if style = PAM_PROMPT_ECHO_OFF then
           (case c_copy ok pw h of
              (None, h') \<Rightarrow> (PAM_BUF_ERR, free_replies reps h')
            | (Some p, h') \<Rightarrow>
                answer ok conv_err pw reps (Suc i) ms
                  (case blocks h' reps of
                     Some (Replies rs) \<Rightarrow> h'\<lparr> blocks := (blocks h')(reps \<mapsto> Replies (rs[i := Some p])) \<rparr>
                   | _ \<Rightarrow> h'))
         else if style = PAM_ERROR_MSG then answer ok conv_err pw reps (Suc i) ms h
         else if style = PAM_TEXT_INFO then answer ok conv_err pw reps (Suc i) ms h
         else if style = PAM_PROMPT_ECHO_ON then (conv_err, free_replies reps h)
         else (conv_err, free_replies reps h))"

text \<open>The code, the replies handed over, and the heap. \<open>msgs\<close> is the array behind \<open>msg\<close>.\<close>

definition converse ::
    "(nat \<Rightarrow> bool) \<Rightarrow> int \<Rightarrow> bytes option \<Rightarrow> int \<Rightarrow> int option list option \<Rightarrow> bool \<Rightarrow> heap \<Rightarrow>
      int \<times> nat option \<times> heap" where
  "converse ok conv_err appdata num_msg msgs resp h =
    (case msgs of
       None \<Rightarrow> (conv_err, None, h)
     | Some ms \<Rightarrow>
         if num_msg \<le> 0 \<or> num_msg > PAM_MAX_NUM_MSG \<or> \<not> resp then (conv_err, None, h)
         else (case appdata of
             None \<Rightarrow> (conv_err, None, h)
           | Some pw \<Rightarrow>
               (case malloc ok (Replies (replicate (nat num_msg) None)) h of
                  (None, h') \<Rightarrow> (PAM_BUF_ERR, None, h')
                | (Some reps, h') \<Rightarrow>
                    (case answer ok conv_err pw reps 0 (take (nat num_msg) ms) h' of
                       (rc, h'') \<Rightarrow> (rc, if rc = PAM_SUCCESS then Some reps else None, h'')))))"


section \<open>Checking the password\<close>

text \<open>PAM's functions: \<open>pam_start\<close> returns its code and whether there is a handle, the others a code.
  \<open>pam_authenticate\<close> may hold any conversation, given as its answers: a code and the reply strings.\<close>

type_synonym conversation = "int \<Rightarrow> int option list option \<Rightarrow> bool \<Rightarrow> int \<times> bytes option list"

record pam_library =
  pam_start :: "bytes \<Rightarrow> bytes \<Rightarrow> int \<times> bool"
  pam_authenticate :: "conversation \<Rightarrow> int"
  pam_acct_mgmt :: int
  pam_strerror :: "int \<Rightarrow> chars option"

datatype pam_error = NulInPassword | NulInName | StartError chars | AuthError chars | AccountError chars

definition pam_code :: "int \<Rightarrow> chars" where
  "pam_code rc = literal (''PAM error '' @ decimal rc)"

definition strerror :: "pam_library \<Rightarrow> int \<Rightarrow> chars" where
  "strerror p rc = (case pam_strerror p rc of None \<Rightarrow> pam_code rc | Some s \<Rightarrow> s)"

definition show_pam_error :: "pam_error \<Rightarrow> chars" where
  "show_pam_error e = (case e of
     NulInPassword \<Rightarrow> literal ''password contains NUL''
   | NulInName \<Rightarrow> literal ''service or user name contains NUL''
   | StartError m \<Rightarrow> literal ''pam_start: '' @ m
   | AuthError m \<Rightarrow> literal ''pam_authenticate: '' @ m
   | AccountError m \<Rightarrow> literal ''pam_acct_mgmt: '' @ m)"

text \<open>The verdict, and the status \<open>pam_end\<close> is given when the transaction is dropped.\<close>

definition verify ::
    "pam_library \<Rightarrow> (bytes \<Rightarrow> conversation) \<Rightarrow> chars \<Rightarrow> chars \<Rightarrow> bytes \<Rightarrow> (pam_error + unit) \<times> int option" where
  "verify p conv service user password =
    (if 0 \<in> set password then (Inl NulInPassword, None)
     else if 0 \<in> set (into_bytes service) then (Inl NulInName, None)
     else if 0 \<in> set (into_bytes user) then (Inl NulInName, None)
     else (case pam_start p (into_bytes service) (into_bytes user) of
         (rc, handle) \<Rightarrow>
           if \<not> handle then (Inl (StartError (pam_code rc)), None)
           else if rc \<noteq> PAM_SUCCESS then (Inl (StartError (strerror p rc)), Some rc)
           else (let st = pam_authenticate p (conv password)
                 in if st \<noteq> PAM_SUCCESS then (Inl (AuthError (strerror p st)), Some st)
                    else (let st = pam_acct_mgmt p
                          in if st \<noteq> PAM_SUCCESS then (Inl (AccountError (strerror p st)), Some st)
                             else (Inr (), Some st)))))"

section \<open>The prompt\<close>

datatype keysym = KeyReturn | KeyKPEnter | KeyBackSpace | KeyEscape | KeyOther

record 'x xkb =
  update_mask :: "'x \<Rightarrow> nat \<times> nat \<times> nat \<times> nat \<Rightarrow> 'x"
  key_get_one_sym :: "'x \<Rightarrow> u32 \<Rightarrow> keysym"
  key_get_utf8 :: "'x \<Rightarrow> u32 \<Rightarrow> chars"

record 'x locker =
  lock_held :: bool
  locked :: bool
  done_with :: bool
  xkb_state :: "'x option"
  password :: chars
  status :: chars
  prompt_visible :: bool
  prompt_deadline :: nat
  pam_service :: chars
  unlocks :: "bytes list"

text \<open>\<open>done_with\<close> is the code's \<open>finished\<close>; \<open>unlocks\<close> records each \<open>unlock_and_destroy\<close> with the
  password that led to it. Instants are the clock as each place reads it.\<close>

definition locker_start :: "chars \<Rightarrow> nat \<Rightarrow> 'x locker" where
  "locker_start service now = \<lparr> lock_held = True, locked = False, done_with = False, xkb_state = None,
     password = [], status = [], prompt_visible = False, prompt_deadline = now, pam_service = service,
     unlocks = [] \<rparr>"

definition wake_prompt :: "nat \<Rightarrow> 'x locker \<Rightarrow> 'x locker" where
  "wake_prompt now s = s\<lparr> prompt_visible := True, prompt_deadline := now + PROMPT_TIMEOUT \<rparr>"

definition hide_prompt :: "'x locker \<Rightarrow> 'x locker" where
  "hide_prompt s = s\<lparr> prompt_visible := False, password := [], status := [] \<rparr>"

definition verify_password :: "pam_library \<Rightarrow> (bytes \<Rightarrow> conversation) \<Rightarrow> chars option \<Rightarrow> 'x locker \<Rightarrow> 'x locker" where
  "verify_password p conv user s = (case user of
     None \<Rightarrow> s\<lparr> status := literal ''no $USER set'' \<rparr>
   | Some u \<Rightarrow>
       (let pw = into_bytes (password s);
            s1 = s\<lparr> password := [], status := literal ''verifying'' @ [0x2026] \<rparr>
        in (case fst (verify p conv (pam_service s1) u pw) of
              Inr _ \<Rightarrow>
                (let s2 = (if lock_held s1 then s1\<lparr> lock_held := False, unlocks := pw # unlocks s1 \<rparr> else s1)
                 in s2\<lparr> done_with := True \<rparr>)
            | Inl NulInPassword \<Rightarrow> s1\<lparr> status := show_pam_error NulInPassword \<rparr>
            | Inl NulInName \<Rightarrow> s1\<lparr> status := show_pam_error NulInName \<rparr>
            | Inl (StartError m) \<Rightarrow> s1\<lparr> status := literal ''pam init failed: '' @ show_pam_error (StartError m) \<rparr>
            | Inl (AuthError m) \<Rightarrow> s1\<lparr> status := literal ''authentication failed'' \<rparr>
            | Inl (AccountError m) \<Rightarrow> s1\<lparr> status := literal ''account disabled'' \<rparr>)))"

text \<open>The environment of a run: PAM, the conversation, \<open>$USER\<close> and xkb.\<close>

record 'x env =
  library :: pam_library
  talk :: "bytes \<Rightarrow> conversation"
  user :: "chars option"
  keyboard :: "'x xkb"

text \<open>What a pressed key does to a prompt that is up: the state, and whether Return was pressed.\<close>

definition typed_key :: "nat \<Rightarrow> keysym \<Rightarrow> chars \<Rightarrow> 'x locker \<Rightarrow> 'x locker \<times> bool" where
  "typed_key now ks utf8 s = (case ks of
     KeyReturn \<Rightarrow> (s, True)
   | KeyKPEnter \<Rightarrow> (s, True)
   | KeyBackSpace \<Rightarrow>
       ((if password s \<noteq> [] then wake_prompt now (s\<lparr> password := butlast (password s) \<rparr>) else s), False)
   | KeyEscape \<Rightarrow> (hide_prompt s, False)
   | KeyOther \<Rightarrow>
       ((if utf8 \<noteq> [] \<and> \<not> list_all is_control utf8
         then wake_prompt now (s\<lparr> password := password s @ utf8 \<rparr>) else s), False))"

definition key_event :: "'x env \<Rightarrow> nat \<Rightarrow> u32 \<Rightarrow> bool \<Rightarrow> 'x locker \<Rightarrow> 'x locker" where
  "key_event env now key pressed s =
    (if \<not> pressed then s
     else if \<not> prompt_visible s then wake_prompt now s
     else (let code = key + 8;
               (s1, submit) = (case xkb_state s of
                  None \<Rightarrow> (s, False)
                | Some xs \<Rightarrow> typed_key now (key_get_one_sym (keyboard env) xs code) (key_get_utf8 (keyboard env) xs code) s)
           in if submit then
                (let s2 = verify_password (library env) (talk env) (user env) s1
                 in if \<not> done_with s2 then wake_prompt now s2 else s2)
              else s1))"

text \<open>A keymap arrives as what compiling it gave, if its format was known. The frame's check of the
  deadline is part of the loop; events that arrive together are all dispatched, even when one of them
  ends the loop.\<close>

datatype 'x happening =
    Keymap bool "'x option"
  | Modifiers "nat \<times> nat \<times> nat \<times> nat"
  | Key u32 bool
  | Locked
  | LockFinished
  | Frame

definition keymap_event :: "bool \<Rightarrow> 'x option \<Rightarrow> 'x locker \<Rightarrow> 'x locker" where
  "keymap_event known km s =
    (if \<not> known then s else (case km of Some xs \<Rightarrow> s\<lparr> xkb_state := Some xs \<rparr> | None \<Rightarrow> s))"

definition modifiers_event :: "'x env \<Rightarrow> nat \<times> nat \<times> nat \<times> nat \<Rightarrow> 'x locker \<Rightarrow> 'x locker" where
  "modifiers_event env m s = s\<lparr> xkb_state := map_option (\<lambda>xs. update_mask (keyboard env) xs m) (xkb_state s) \<rparr>"

definition lock_event :: "bool \<Rightarrow> 'x locker \<Rightarrow> 'x locker" where
  "lock_event confirmed s = (if confirmed then s\<lparr> locked := True \<rparr> else s\<lparr> lock_held := False, done_with := True \<rparr>)"

definition frame_check :: "nat \<Rightarrow> 'x locker \<Rightarrow> 'x locker" where
  "frame_check now s = (if prompt_visible s \<and> prompt_deadline s \<le> now then hide_prompt s else s)"

definition locker_step :: "'x env \<Rightarrow> 'x locker \<Rightarrow> nat \<times> 'x happening \<Rightarrow> 'x locker" where
  "locker_step env s e = (case e of (now, h) \<Rightarrow>
     (case h of
         Keymap known km \<Rightarrow> keymap_event known km s
       | Modifiers m \<Rightarrow> modifiers_event env m s
       | Key key pressed \<Rightarrow> key_event env now key pressed s
       | Locked \<Rightarrow> lock_event True s
       | LockFinished \<Rightarrow> lock_event False s
       | Frame \<Rightarrow> frame_check now s))"

lemmas locker_step_defs = locker_step_def keymap_event_def modifiers_event_def lock_event_def frame_check_def

definition locker_exec :: "'x env \<Rightarrow> 'x locker \<Rightarrow> (nat \<times> 'x happening) list \<Rightarrow> 'x locker" where
  "locker_exec env s es = foldl (locker_step env) s es"

subsection \<open>What unlocks\<close>

definition accepted :: "'x env \<Rightarrow> chars \<Rightarrow> bytes \<Rightarrow> bool" where
  "accepted env service pw \<longleftrightarrow> 0 \<notin> set pw \<and>
     (\<exists>u. user env = Some u \<and> pam_start (library env) (into_bytes service) (into_bytes u) = (PAM_SUCCESS, True)) \<and>
     pam_authenticate (library env) (talk env pw) = PAM_SUCCESS \<and> pam_acct_mgmt (library env) = PAM_SUCCESS"

definition locker_inv :: "'x env \<Rightarrow> chars \<Rightarrow> 'x locker \<Rightarrow> bool" where
  "locker_inv env service s \<longleftrightarrow> pam_service s = service \<and> (lock_held s \<longleftrightarrow> \<not> done_with s) \<and>
     (lock_held s \<longrightarrow> unlocks s = []) \<and> (\<not> prompt_visible s \<longrightarrow> password s = [] \<and> status s = []) \<and>
     (unlocks s = [] \<or> (\<exists>pw. unlocks s = [pw] \<and> accepted env service pw))"

lemma verify_accepts:
  "fst (verify p conv service u pw) = Inr () \<longleftrightarrow> 0 \<notin> set pw \<and> 0 \<notin> set (into_bytes service) \<and>
    0 \<notin> set (into_bytes u) \<and> pam_start p (into_bytes service) (into_bytes u) = (PAM_SUCCESS, True) \<and>
    pam_authenticate p (conv pw) = PAM_SUCCESS \<and> pam_acct_mgmt p = PAM_SUCCESS"
  by (auto simp: verify_def Let_def split: prod.splits if_splits)

text \<open>PAM is ended exactly when it was started, with the code of its last call.\<close>

lemma verify_ends_what_it_started:
  "snd (verify p conv service u pw) \<noteq> None \<longleftrightarrow> 0 \<notin> set pw \<and> 0 \<notin> set (into_bytes service) \<and>
    0 \<notin> set (into_bytes u) \<and> snd (pam_start p (into_bytes service) (into_bytes u))"
  by (auto simp: verify_def Let_def split: prod.splits if_splits)

lemma verify_end_status:
  "snd (verify p conv service u pw) = Some st \<Longrightarrow> fst (verify p conv service u pw) = Inr () \<longleftrightarrow> st = PAM_SUCCESS"
  by (auto simp: verify_def Let_def split: prod.splits if_splits)

lemma verify_password_inv:
  assumes "locker_inv env service s" "prompt_visible s"
  shows "locker_inv env service (verify_password (library env) (talk env) (user env) s)"
    "prompt_visible (verify_password (library env) (talk env) (user env) s)"
proof -
  have "locker_inv env service (verify_password (library env) (talk env) (user env) s) \<and>
    prompt_visible (verify_password (library env) (talk env) (user env) s)"
  proof (cases "user env")
    case None
    with assms show ?thesis by (simp add: verify_password_def locker_inv_def)
  next
    case (Some u)
    define v where "v = fst (verify (library env) (talk env) service u (into_bytes (password s)))"
    have acc: "v = Inr () \<Longrightarrow> accepted env service (into_bytes (password s))"
      using Some by (auto simp: v_def verify_accepts accepted_def)
    have srv: "pam_service s = service" using assms(1) by (simp add: locker_inv_def)
    show ?thesis
    proof (cases v)
      case (Inl e)
      with Some srv assms show ?thesis
        by (cases e) (simp_all add: verify_password_def Let_def locker_inv_def flip: v_def)
    next
      case (Inr x)
      then have "v = Inr ()" by simp
      with Some srv assms acc show ?thesis
        by (cases "lock_held s") (simp_all add: verify_password_def Let_def locker_inv_def flip: v_def)
    qed
  qed
  then show "locker_inv env service (verify_password (library env) (talk env) (user env) s)"
    "prompt_visible (verify_password (library env) (talk env) (user env) s)" by simp_all
qed

lemma wake_inv: "locker_inv env service s \<Longrightarrow> locker_inv env service (wake_prompt now s)"
  by (simp add: locker_inv_def wake_prompt_def)

lemma hide_inv: "locker_inv env service s \<Longrightarrow> locker_inv env service (hide_prompt s)"
  by (auto simp: locker_inv_def hide_prompt_def)

lemma typed_inv:
  assumes "locker_inv env service s" "prompt_visible s" "typed_key now ks utf8 s = (s', submit)"
  shows "locker_inv env service s'" "submit \<Longrightarrow> prompt_visible s'"
  using assms by (auto simp: typed_key_def locker_inv_def wake_prompt_def hide_prompt_def split: keysym.splits if_splits)

lemma key_event_inv:
  assumes "locker_inv env service s"
  shows "locker_inv env service (key_event env now key pressed s)"
proof (cases "pressed \<and> prompt_visible s \<and> xkb_state s \<noteq> None")
  case True
  then obtain xs where xs: "xkb_state s = Some xs" by auto
  obtain s1 submit where t: "typed_key now (key_get_one_sym (keyboard env) xs (key + 8))
    (key_get_utf8 (keyboard env) xs (key + 8)) s = (s1, submit)" by fastforce
  have "locker_inv env service s1" "submit \<Longrightarrow> prompt_visible s1"
    using typed_inv [OF assms _ t] True by auto
  then show ?thesis using True xs t verify_password_inv [of env service s1]
    by (auto simp: key_event_def Let_def wake_inv)
next
  case False
  with assms show ?thesis by (auto simp: key_event_def wake_inv)
qed

lemma locker_step_inv: "locker_inv env service s \<Longrightarrow> locker_inv env service (locker_step env s e)"
  by (auto simp: locker_step_defs key_event_inv hide_inv split: happening.split option.split prod.split)
    (auto simp: locker_inv_def)

interpretation locker: stepper "locker_step env" "locker_inv env service" "\<lambda>_ _. True" for env service
  by unfold_locales (rule locker_step_inv)

lemma locker_run_inv: "locker_inv env service (locker_exec env (locker_start service t0) es)"
proof -
  have "locker.admissible_run env s es" for s by (induction es arbitrary: s) auto
  then show ?thesis unfolding locker_exec_def
    by (intro locker.run_inv) (simp_all add: locker_inv_def locker_start_def)
qed


definition gave_up :: "'x locker \<Rightarrow> bool" where
  "gave_up s \<longleftrightarrow> done_with s \<and> unlocks s = []"

lemma verify_gave_up:
  assumes "gave_up (verify_password p c u s)" "lock_held s \<longleftrightarrow> \<not> done_with s"
  shows "gave_up s"
proof (cases u)
  case None
  with assms show ?thesis by (simp add: gave_up_def verify_password_def)
next
  case (Some u')
  define v where "v = fst (verify p c (pam_service s) u' (into_bytes (password s)))"
  show ?thesis
  proof (cases v)
    case (Inl e)
    with Some assms show ?thesis by (cases e) (simp_all add: gave_up_def verify_password_def Let_def flip: v_def)
  next
    case (Inr x)
    with Some assms show ?thesis
      by (cases "lock_held s") (simp_all add: gave_up_def verify_password_def Let_def flip: v_def)
  qed
qed

lemma key_event_gave_up:
  assumes "gave_up (key_event env now key pressed s)" "lock_held s \<longleftrightarrow> \<not> done_with s"
  shows "gave_up s"
proof (cases "pressed \<and> prompt_visible s \<and> xkb_state s \<noteq> None")
  case True
  then obtain xs where xs: "xkb_state s = Some xs" by auto
  obtain s1 submit where t: "typed_key now (key_get_one_sym (keyboard env) xs (key + 8))
    (key_get_utf8 (keyboard env) xs (key + 8)) s = (s1, submit)" by fastforce
  then have s1: "done_with s1 = done_with s" "unlocks s1 = unlocks s" "lock_held s1 = lock_held s"
    by (auto simp: typed_key_def wake_prompt_def hide_prompt_def split: keysym.splits if_splits)
  have w: "gave_up (wake_prompt now s2) = gave_up s2" for s2 :: "'a locker" by (simp add: gave_up_def wake_prompt_def)
  have "gave_up s1"
    using assms True xs t verify_gave_up [of "library env" "talk env" "user env" s1] s1
    by (auto simp: key_event_def Let_def w split: if_splits)
  then show ?thesis by (simp add: gave_up_def s1)
next
  case False
  with assms show ?thesis by (auto simp: key_event_def gave_up_def wake_prompt_def split: if_splits)
qed

lemma done_why:
  "gave_up (locker_exec env s es) \<Longrightarrow> locker_inv env service s \<Longrightarrow> gave_up s \<or> (\<exists>t. (t, LockFinished) \<in> set es)"
proof (induction es arbitrary: s)
  case (Cons e es)
  obtain now h where e: "e = (now, h)" by (cases e)
  have lk: "lock_held s \<longleftrightarrow> \<not> done_with s" using Cons.prems(2) by (simp add: locker_inv_def)
  have "gave_up (locker_step env s e) \<Longrightarrow> gave_up s \<or> h = LockFinished"
    using key_event_gave_up [OF _ lk, of env now] unfolding e
    by (cases h) (auto simp: locker_step_defs gave_up_def hide_prompt_def split: option.splits if_splits)
  with Cons.IH [of "locker_step env s e"] Cons.prems(1) locker_step_inv [OF Cons.prems(2), of e] show ?case
    unfolding e by (auto simp: locker_exec_def)
qed (simp add: locker_exec_def)

text \<open>C17. However the keys, keymaps, frames and events of the compositor interleave, the locker gives
  the lock up at most once, and only with a password, without NUL bytes, for which PAM started for the
  locker's service and the user, authenticated and accepted the account; and it leaves without unlocking
  only when the compositor finished the lock.\<close>

theorem unlocks_only_when_pam_accepts:
  "let s = locker_exec env (locker_start service t0) es in
    (unlocks s = [] \<or> (\<exists>pw. unlocks s = [pw] \<and> accepted env service pw)) \<and>
    (lock_held s \<longleftrightarrow> \<not> done_with s) \<and> (prompt_visible s \<or> password s = []) \<and>
    (lock_held s \<or> unlocks s \<noteq> [] \<or> (\<exists>t. (t, LockFinished) \<in> set es))"
proof -
  let ?s = "locker_exec env (locker_start service t0) es"
  have inv: "locker_inv env service ?s" by (rule locker_run_inv)
  have start: "locker_inv env service (locker_start service t0)"
    using locker_run_inv [of env service t0 "[]"] by (simp add: locker_exec_def)
  from done_why [OF _ start, of es] have "done_with ?s \<and> unlocks ?s = [] \<longrightarrow> (\<exists>t. (t, LockFinished) \<in> set es)"
    by (simp add: locker_start_def gave_up_def)
  with inv show ?thesis by (auto simp: locker_inv_def Let_def)
qed

definition demo_env :: "unit env" where
  "demo_env = \<lparr> library = \<lparr> pam_start = (\<lambda>_ _. (0, True)),
       pam_authenticate = (\<lambda>c. if snd (c 1 (Some [Some PAM_PROMPT_ECHO_OFF]) True) = [Some [0x61]] then 0 else 7),
       pam_acct_mgmt = 0, pam_strerror = (\<lambda>_. None) \<rparr>,
     talk = (\<lambda>pw n ms ok. (0, [Some pw])), user = Some [0x75],
     keyboard = \<lparr> update_mask = (\<lambda>x _. x),
       key_get_one_sym = (\<lambda>_ k. if k = 36 then KeyReturn else KeyOther), key_get_utf8 = (\<lambda>_ k. [0x61]) \<rparr> \<rparr>"

lemma unlocks_only_when_pam_accepts_witness:
  "unlocks (locker_exec demo_env (locker_start [0x6C] 0)
      [(0, Keymap True (Some ())), (1, Key 30 True), (2, Key 30 True), (3, Key 28 True)]) = [[0x61]] \<and>
    accepted demo_env [0x6C] [0x61]"
proof -
  have *: "unlocks (locker_exec demo_env (locker_start [0x6C] 0)
      [(0, Keymap True (Some ())), (1, Key 30 True), (2, Key 30 True), (3, Key 28 True)]) = [[0x61]]"
    by (simp add: locker_exec_def locker_step_defs locker_start_def key_event_def wake_prompt_def typed_key_def
        verify_password_def verify_def demo_env_def into_bytes_def utf8_char_def is_control_def PAM_SUCCESS_def)
  with unlocks_only_when_pam_accepts [of demo_env "[0x6C]" 0
      "[(0, Keymap True (Some ())), (1, Key 30 True), (2, Key 30 True), (3, Key 28 True)]"]
  show ?thesis by (simp add: Let_def)
qed

subsection \<open>What is forgotten\<close>

definition prompt_by :: "nat \<Rightarrow> 'x locker \<Rightarrow> bool" where
  "prompt_by T s \<longleftrightarrow> (\<not> prompt_visible s \<longrightarrow> password s = [] \<and> status s = []) \<and> (prompt_visible s \<longrightarrow> prompt_deadline s \<le> T)"

lemma typed_by:
  assumes "prompt_by (now + PROMPT_TIMEOUT) s" "prompt_visible s" "typed_key now ks utf8 s = (s', submit)"
  shows "prompt_by (now + PROMPT_TIMEOUT) s'" "submit \<Longrightarrow> prompt_visible s'"
  using assms by (auto simp: typed_key_def prompt_by_def wake_prompt_def hide_prompt_def split: keysym.splits if_splits)

lemma verify_by:
  "prompt_visible s \<Longrightarrow> prompt_by T s \<Longrightarrow>
    prompt_by T (verify_password p c u s) \<and> prompt_visible (verify_password p c u s)"
  by (auto simp: verify_password_def prompt_by_def Let_def split: option.split sum.split pam_error.split)

lemma key_event_by:
  assumes "prompt_by (T + PROMPT_TIMEOUT) s" "pressed \<longrightarrow> now \<le> T"
  shows "prompt_by (T + PROMPT_TIMEOUT) (key_event env now key pressed s)"
proof -
  have wake: "prompt_by (T + PROMPT_TIMEOUT) (wake_prompt now s1)" if "now \<le> T" for s1 :: "'a locker"
    using that by (simp add: prompt_by_def wake_prompt_def)
  have typed: "prompt_by (T + PROMPT_TIMEOUT) s1 \<and> (submit \<longrightarrow> prompt_visible s1)"
    if "typed_key now ks utf s = (s1, submit)" "prompt_visible s" "now \<le> T" for ks utf s1 submit
    using that assms(1) by (auto simp: typed_key_def prompt_by_def wake_prompt_def hide_prompt_def split: keysym.splits if_splits)
  show ?thesis
  proof (cases "pressed \<and> prompt_visible s \<and> xkb_state s \<noteq> None")
    case True
    then obtain xs where xs: "xkb_state s = Some xs" by auto
    obtain s1 submit where t: "typed_key now (key_get_one_sym (keyboard env) xs (key + 8))
      (key_get_utf8 (keyboard env) xs (key + 8)) s = (s1, submit)" by fastforce
    show ?thesis using typed [OF t] True xs t assms wake verify_by [of s1 "T + PROMPT_TIMEOUT"]
      by (auto simp: key_event_def Let_def)
  next
    case False
    with assms wake show ?thesis by (auto simp: key_event_def)
  qed
qed

lemma locker_exec_by:
  assumes "prompt_by (T + PROMPT_TIMEOUT) s" "\<And>t k. (t, Key k True) \<in> set es \<Longrightarrow> t \<le> T"
  shows "prompt_by (T + PROMPT_TIMEOUT) (locker_exec env s es)"
  using assms
proof (induction es arbitrary: s)
  case (Cons e es)
  obtain now h where e: "e = (now, h)" by (cases e)
  have "prompt_by (T + PROMPT_TIMEOUT) (locker_step env s e)"
  proof (cases h)
    case (Key k b)
    then show ?thesis using Cons.prems key_event_by [of T s b now env k] unfolding e by (auto simp: locker_step_defs)
  qed (use Cons.prems(1) in \<open>auto simp: e locker_step_defs prompt_by_def hide_prompt_def split: option.split\<close>)
  moreover have "t \<le> T" if "(t, Key k True) \<in> set es" for t k
    using Cons.prems(2) [of t k] that by simp
  ultimately have "prompt_by (T + PROMPT_TIMEOUT) (locker_exec env (locker_step env s e) es)"
    by (rule Cons.IH)
  then show ?case by (simp add: locker_exec_def)
qed (simp add: locker_exec_def)

text \<open>C18. A half-typed password is kept for no longer than eight seconds after the last key: whatever
  came before, the first frame after that finds it gone and the prompt hidden.\<close>

theorem half_typed_password_is_dropped:
  assumes "\<And>t k. (t, Key k True) \<in> set es \<Longrightarrow> t \<le> T" and "T + PROMPT_TIMEOUT \<le> now"
  shows "password (locker_exec env (locker_start service t0) (es @ [(now, Frame)])) = [] \<and>
    \<not> prompt_visible (locker_exec env (locker_start service t0) (es @ [(now, Frame)]))"
proof -
  have "prompt_by (T + PROMPT_TIMEOUT) (locker_exec env (locker_start service t0) es)"
    by (rule locker_exec_by) (use assms in \<open>auto simp: prompt_by_def locker_start_def\<close>)
  then show ?thesis using assms(2)
    by (auto simp: locker_exec_def locker_step_defs prompt_by_def hide_prompt_def)
qed

lemma half_typed_password_is_dropped_witness:
  "password (locker_exec demo_env (locker_start [0x6C] 0)
      ([(0, Keymap True (Some ())), (1, Key 30 True), (2, Key 30 True)] @ [(8002, Frame)])) = []"
proof -
  let ?es = "[(0 :: nat, Keymap True (Some ())), (1, Key 30 True), (2, Key 30 True)]"
  have "t \<le> 2" if "(t, Key k True) \<in> set ?es" for t k
    using that by auto
  from half_typed_password_is_dropped [of ?es 2 8002 demo_env "[0x6C]" 0, OF this]
  show ?thesis by (simp add: PROMPT_TIMEOUT_def)
qed

subsection \<open>What the conversation leaves behind\<close>

definition zeroed :: "block \<Rightarrow> bool" where
  "zeroed b = (case b of Bytes bs \<Rightarrow> set bs \<subseteq> {0} | Replies _ \<Rightarrow> True)"

text \<open>The heap while answering: that of before, the array, and a copy of the password for each reply.\<close>

definition holding :: "(nat \<rightharpoonup> block) \<Rightarrow> bytes \<Rightarrow> nat \<Rightarrow> nat option list \<Rightarrow> heap \<Rightarrow> bool" where
  "holding base pw reps rs h \<longleftrightarrow>
     blocks h = (\<lambda>q. if q = reps then Some (Replies rs) else if Some q \<in> set rs then Some (Bytes (pw @ [0])) else base q) \<and>
     base reps = None \<and> (\<forall>q. Some q \<in> set rs \<longrightarrow> base q = None \<and> q \<noteq> reps \<and> q < fresh h) \<and>
     (\<forall>q \<ge> fresh h. base q = None) \<and> reps < fresh h \<and> distinct (filter (\<lambda>r. r \<noteq> None) rs)"

lemma wiped_copy:
  assumes "0 \<notin> set pw"
  shows "wipe (strlen (pw @ [0])) (pw @ [0]) = replicate (Suc (length pw)) 0"
proof -
  have "takeWhile (\<lambda>b. b \<noteq> 0) (pw @ [0]) = pw" using assms by (induction pw) auto
  then show ?thesis by (simp add: wipe_def strlen_def replicate_append_same)
qed

lemma free_strings_spec:
  assumes "0 \<notin> set pw" "distinct (filter (\<lambda>r. r \<noteq> None) rs)"
    "\<And>q. Some q \<in> set rs \<Longrightarrow> blocks h q = Some (Bytes (pw @ [0]))"
  shows "blocks (free_strings rs h) = (\<lambda>q. if Some q \<in> set rs then None else blocks h q) \<and>
    (\<exists>zs. freed (free_strings rs h) = zs @ freed h \<and> list_all zeroed zs) \<and> fresh (free_strings rs h) = fresh h"
  using assms(2,3)
proof (induction rs arbitrary: h)
  case (Cons r rs)
  show ?case
  proof (cases r)
    case None
    with Cons show ?thesis by simp
  next
    case (Some p)
    let ?h = "wipe_and_free p h"
    have p: "blocks h p = Some (Bytes (pw @ [0]))" "Some p \<notin> set rs" using Cons.prems Some by auto
    have h: "blocks ?h = (blocks h)(p := None)" "freed ?h = Bytes (replicate (Suc (length pw)) 0) # freed h"
      "fresh ?h = fresh h"
      using p(1) wiped_copy [OF assms(1)] by (simp_all add: wipe_and_free_def free_def)
    have "blocks ?h q = Some (Bytes (pw @ [0]))" if "Some q \<in> set rs" for q
      using that Cons.prems(2) [of q] p(2) by (auto simp: h)
    with Cons.IH [of ?h] Cons.prems(1) Some
    obtain zs where zs: "freed (free_strings rs ?h) = zs @ freed ?h" "list_all zeroed zs"
      "blocks (free_strings rs ?h) = (\<lambda>q. if Some q \<in> set rs then None else blocks ?h q)"
      "fresh (free_strings rs ?h) = fresh ?h" by auto
    have "list_all zeroed (zs @ [Bytes (replicate (Suc (length pw)) 0)])"
      using zs(2) by (auto simp: zeroed_def)
    then have "\<exists>zs. freed (free_strings rs ?h) = zs @ freed h \<and> list_all zeroed zs"
      using zs(1) h(2) by (intro exI [of _ "zs @ [Bytes (replicate (Suc (length pw)) 0)]"]) simp
    then show ?thesis using zs(3,4) h Some by (auto simp: fun_eq_iff)
  qed
qed simp

text \<open>Giving up puts the heap back as it was, and nothing freed still held a byte of the password.\<close>

lemma free_replies_spec:
  assumes "0 \<notin> set pw" "holding base pw reps rs h"
  shows "blocks (free_replies reps h) = base \<and> (\<exists>zs. freed (free_replies reps h) = zs @ freed h \<and> list_all zeroed zs)"
proof -
  note hd = assms(2) [unfolded holding_def]
  have "blocks h reps = Some (Replies rs)" using hd by simp
  then have f: "free_replies reps h = free reps (free_strings rs h)" by (simp add: free_replies_def)
  have b: "\<And>q. Some q \<in> set rs \<Longrightarrow> blocks h q = Some (Bytes (pw @ [0]))" using hd by auto
  have "distinct (filter (\<lambda>r. r \<noteq> None) rs)" using hd by blast
  from free_strings_spec [OF assms(1) this b] obtain zs where
    zs: "blocks (free_strings rs h) = (\<lambda>q. if Some q \<in> set rs then None else blocks h q)"
      "freed (free_strings rs h) = zs @ freed h" "list_all zeroed zs" by auto
  have r: "blocks (free_strings rs h) reps = Some (Replies rs)" using zs(1) hd by auto
  have "list_all zeroed (Replies rs # zs)" using zs(3) by (simp add: zeroed_def)
  moreover have "freed (free_replies reps h) = (Replies rs # zs) @ freed h" using r zs(2) by (simp add: f free_def)
  moreover have "blocks (free_replies reps h) = base"
    using hd r by (auto simp: f free_def zs(1) fun_eq_iff)
  ultimately show ?thesis by blast
qed


lemma holding_copy:
  assumes h: "holding base pw reps rs h" and c: "c_copy ok pw h = (r, h')" and i: "i < length rs" "rs ! i = None"
  shows "r = None \<Longrightarrow> holding base pw reps rs h'"
    and "r = Some p \<Longrightarrow> blocks h' reps = Some (Replies rs) \<and>
      holding base pw reps (rs[i := Some p]) (h'\<lparr> blocks := (blocks h')(reps \<mapsto> Replies (rs[i := Some p])) \<rparr>)"
    and "freed h' = freed h"
proof -
  note hd = h [unfolded holding_def]
  show "r = None \<Longrightarrow> holding base pw reps rs h'"
    using c hd by (auto simp: c_copy_def malloc_def holding_def split: if_splits)
  show "freed h' = freed h" using c by (auto simp: c_copy_def malloc_def split: if_splits)
  assume "r = Some p"
  then have p: "p = fresh h" and h': "h' = h\<lparr> blocks := (blocks h)(p \<mapsto> Bytes (pw @ [0])), fresh := Suc p \<rparr>"
    using c by (auto simp: c_copy_def malloc_def split: if_splits)
  have "Some p \<notin> set rs" "p \<noteq> reps" using hd p by auto
  obtain us vs where rs: "rs = us @ None # vs" "length us = i" using i by (metis id_take_nth_drop length_take less_imp_le min.absorb2)
  then have upd: "rs[i := Some p] = us @ Some p # vs" by (simp add: rs(1) flip: rs(2))
  have "set (rs[i := Some p]) - {None} = insert (Some p) (set rs - {None})" unfolding upd unfolding rs(1) by auto
  then have mem: "Some q \<in> set (rs[i := Some p]) \<longleftrightarrow> q = p \<or> Some q \<in> set rs" for q by blast
  have "distinct (filter (\<lambda>r. r \<noteq> None) (rs[i := Some p]))"
    using hd \<open>Some p \<notin> set rs\<close> unfolding upd unfolding rs(1) by auto
  then show "blocks h' reps = Some (Replies rs) \<and>
      holding base pw reps (rs[i := Some p]) (h'\<lparr> blocks := (blocks h')(reps \<mapsto> Replies (rs[i := Some p])) \<rparr>)"
    using hd \<open>p \<noteq> reps\<close> p unfolding holding_def mem by (auto simp: h' fun_eq_iff)
qed

text \<open>The styles that are answered, those that get the password, and the replies to \<open>ms\<close>.\<close>

definition answerable :: "int option \<Rightarrow> bool" where
  "answerable m \<longleftrightarrow> m \<in> Some ` {PAM_PROMPT_ECHO_OFF, PAM_ERROR_MSG, PAM_TEXT_INFO}"

definition answers :: "int option list \<Rightarrow> nat option list \<Rightarrow> bool" where
  "answers ms rs \<longleftrightarrow> list_all2 (\<lambda>m r. answerable m \<and> (r \<noteq> None \<longleftrightarrow> m = Some PAM_PROMPT_ECHO_OFF)) ms rs"

lemma answer_spec:
  assumes pw: "0 \<notin> set pw" and err: "conv_err \<noteq> PAM_SUCCESS"
  shows "holding base pw reps rs h \<Longrightarrow> rs = done_rs @ replicate (length ms) None \<Longrightarrow> length done_rs = i \<Longrightarrow>
    answer ok conv_err pw reps i ms h = (rc, h') \<Longrightarrow>
    (\<exists>zs. freed h' = zs @ freed h \<and> list_all zeroed zs) \<and>
    (if rc = PAM_SUCCESS
     then \<exists>new_rs. holding base pw reps (done_rs @ new_rs) h' \<and> answers ms new_rs
     else blocks h' = base)"
proof (induction ms arbitrary: i done_rs rs h)
  case Nil
  then show ?case by (auto simp: answers_def)
next
  case (Cons m ms)
  have fail: ?case if "holding base pw reps rs h1" "freed h1 = freed h" "(rc, h') = (e, free_replies reps h1)"
      "e \<noteq> PAM_SUCCESS" for h1 e
    using that free_replies_spec [OF pw that(1)] by auto
  have go: ?case if "holding base pw reps (done_rs @ r # replicate (length ms) None) h1" "freed h1 = freed h"
      "answer ok conv_err pw reps (Suc i) ms h1 = (rc, h')" "answerable m" "r \<noteq> None \<longleftrightarrow> m = Some PAM_PROMPT_ECHO_OFF"
    for r h1
  proof -
    have l: "done_rs @ r # replicate (length ms) None = (done_rs @ [r]) @ replicate (length ms) None"
      "length (done_rs @ [r]) = Suc i" using Cons.prems(3) by simp_all
    have "\<exists>new_rs. holding base pw reps (done_rs @ new_rs) h' \<and> answers (m # ms) new_rs"
      if "holding base pw reps ((done_rs @ [r]) @ new_rs) h'" "answers ms new_rs" for new_rs
      using that \<open>answerable m\<close> \<open>r \<noteq> None \<longleftrightarrow> m = Some PAM_PROMPT_ECHO_OFF\<close>
      by (intro exI [of _ "r # new_rs"]) (simp add: answers_def)
    with Cons.IH [OF that(1) l that(3)] that(2) show ?thesis by (auto split: if_splits)
  qed
  have hold: "holding base pw reps (done_rs @ None # replicate (length ms) None) h"
    using Cons.prems(1,2) by simp
  show ?case
  proof (cases m)
    case None
    with Cons.prems err show ?thesis by (intro fail [of h conv_err]) auto
  next
    case (Some style)
    consider "style = PAM_PROMPT_ECHO_OFF" | "style = PAM_ERROR_MSG \<or> style = PAM_TEXT_INFO"
      | "style \<noteq> PAM_PROMPT_ECHO_OFF" "style \<noteq> PAM_ERROR_MSG" "style \<noteq> PAM_TEXT_INFO" by blast
    then show ?thesis
    proof cases
      case 1
      obtain r h1 where c: "c_copy ok pw h = (r, h1)" by fastforce
      have i: "i < length rs" "rs ! i = None" "rs[i := Some p] = done_rs @ Some p # replicate (length ms) None" for p
        using Cons.prems(2,3) by (auto simp: nth_append list_update_append)
      note cc = holding_copy [OF Cons.prems(1) c i(1,2)]
      show ?thesis
      proof (cases r)
        case None
        with 1 Some c Cons.prems(4) cc show ?thesis by (intro fail [of h1 PAM_BUF_ERR]) (auto simp: PAM_BUF_ERR_def PAM_SUCCESS_def)
      next
        case (Some p)
        let ?h = "h1\<lparr> blocks := (blocks h1)(reps \<mapsto> Replies (rs[i := Some p])) \<rparr>"
        have "answer ok conv_err pw reps (Suc i) ms ?h = (rc, h')"
          using Cons.prems(4) \<open>m = Some style\<close> 1 c Some cc(2) [OF Some] by simp
        then show ?thesis using cc(2) [OF Some] cc(3) \<open>m = Some style\<close> 1
          by (intro go [of "Some p" ?h]) (auto simp: i(3) answerable_def)
      qed
    next
      case 2
      then have "answer ok conv_err pw reps (Suc i) ms h = (rc, h')" "m \<noteq> Some PAM_PROMPT_ECHO_OFF" "answerable m"
        using Cons.prems(4) Some
        by (auto simp: PAM_PROMPT_ECHO_OFF_def PAM_ERROR_MSG_def PAM_TEXT_INFO_def answerable_def)
      with hold show ?thesis by (intro go [of None h]) auto
    next
      case 3
      with Cons.prems Some err show ?thesis by (intro fail [of h conv_err]) auto
    qed
  qed
qed

text \<open>The conversation either answers, with a copy of the password for exactly the prompts that do
  not echo, or it fails, and then hands out nothing and leaves every block as it found it; and whatever
  was freed on the way, not one byte of the password was left in it.\<close>

theorem conversation_leaks_nothing:
  assumes "0 \<notin> set pw" and "conv_err \<noteq> PAM_SUCCESS" and "int (length ms) = n"
    and "\<And>q. q \<ge> fresh h \<Longrightarrow> blocks h q = None"
    and "converse ok conv_err (Some pw) n (Some ms) True h = (rc, out, h')"
  shows "(\<exists>zs. freed h' = zs @ freed h \<and> list_all zeroed zs) \<and>
    (if rc = PAM_SUCCESS
     then \<exists>reps rs. out = Some reps \<and> holding (blocks h) pw reps rs h' \<and> answers ms rs
     else out = None \<and> blocks h' = blocks h)"
proof (cases "n \<le> 0 \<or> n > PAM_MAX_NUM_MSG")
  case True
  with assms(2,5) show ?thesis by (auto simp: converse_def)
next
  case False
  show ?thesis
  proof (cases "ok (fresh h)")
    case no: False
    with False assms(5) show ?thesis by (auto simp: converse_def malloc_def PAM_BUF_ERR_def PAM_SUCCESS_def)
  next
    case True
    let ?rs = "replicate (length ms) None"
    let ?h = "h\<lparr> blocks := (blocks h)(fresh h \<mapsto> Replies ?rs), fresh := Suc (fresh h) \<rparr>"
    obtain rc' h'' where a: "answer ok conv_err pw (fresh h) 0 ms ?h = (rc', h'')" by fastforce
    have "nat n = length ms" using assms(3) by simp
    with True False assms(5) a have r: "rc = rc'" "h' = h''" "out = (if rc = PAM_SUCCESS then Some (fresh h) else None)"
      by (auto simp: converse_def malloc_def)
    have "holding (blocks h) pw (fresh h) ?rs ?h"
      using assms(4) by (auto simp: holding_def fun_eq_iff)
    from answer_spec [OF assms(1,2) this, of "[]" ms 0 ok rc' h''] a r
    show ?thesis by (auto split: if_splits)
  qed
qed

lemma conversation_leaks_nothing_witness:
  "let h = \<lparr> blocks = Map.empty, fresh = 0, freed = [] \<rparr>;
       (rc, out, h') = converse (\<lambda>_. True) 19 (Some [0x61]) 2 (Some [Some 1, Some 2]) True h
   in rc = 19 \<and> out = None \<and> blocks h' = Map.empty \<and> list_all zeroed (freed h')"
proof -
  let ?h = "\<lparr> blocks = Map.empty, fresh = 0, freed = [] \<rparr>"
  obtain rc out h' where c: "converse (\<lambda>_. True) 19 (Some [0x61]) 2 (Some [Some 1, Some 2]) True ?h = (rc, out, h')"
    by (metis prod_cases3)
  have "rc = 19" using c by (auto simp: converse_def malloc_def c_copy_def PAM_MAX_NUM_MSG_def
    PAM_PROMPT_ECHO_OFF_def PAM_ERROR_MSG_def PAM_TEXT_INFO_def PAM_PROMPT_ECHO_ON_def split: prod.splits)
  with conversation_leaks_nothing [of "[0x61]" 19 "[Some 1, Some 2]" 2 ?h "\<lambda>_. True" rc out h'] c show ?thesis
    by (auto simp: PAM_SUCCESS_def Let_def)
qed

end
