(* ===== verification/Notify.thy ===== *)
theory Notify
  imports Complex_Main Strings
begin

text \<open>
  The notification daemon (\<open>crates/shoestring-notify\<close>): its settings (\<open>config.rs\<close>), the wrapping and
  measuring of what it shows (\<open>render.rs\<close>), the queue with its identities and expiry (\<open>state.rs\<close>), the
  D-Bus calls (\<open>dbus_iface.rs\<close>), and the surfaces with the loop that keeps them in step
  (\<open>wayland.rs\<close>, \<open>main.rs\<close>). Glyph advances are arguments, taken as exact; pixel sums stay below
  \<open>2 ^ 32\<close>. Instants are nanoseconds. What TOML and D-Bus make of their bytes is an argument, and
  messages can be sent.
\<close>

section \<open>Settings\<close>

datatype position = TopRight | TopLeft | BottomRight | BottomLeft

record config =
  corner :: position
  background :: u32
  foreground :: u32
  border :: u32
  default_timeout_ms :: u32
  max_width :: u32
  gap :: u32
  padding :: u32
  font_path :: "chars option"
  summary_size :: rat
  body_size :: rat

text \<open>A size read from the file: not a number or infinite is \<open>None\<close>.\<close>

record raw_config =
  raw_position :: "chars option"
  raw_background :: "chars option"
  raw_foreground :: "chars option"
  raw_border :: "chars option"
  raw_timeout :: "u32 option"
  raw_max_width :: "u32 option"
  raw_gap :: "u32 option"
  raw_padding :: "u32 option"
  raw_font :: "chars option"
  raw_summary_size :: "rat option option"
  raw_body_size :: "rat option option"

definition default_config :: config where
  "default_config = \<lparr> corner = TopRight, background = 0xFF222222, foreground = 0xFFFFFFFF, border = 0xFF557788,
     default_timeout_ms = 5000, max_width = 400, gap = 8, padding = 12, font_path = None,
     summary_size = 15, body_size = 13 \<rparr>"

datatype config_error =
    UnknownPosition | NotHex | BadDigits | ZeroWidth | ZeroGap | BadSummarySize | BadBodySize

definition parse_color :: "chars \<Rightarrow> config_error + u32" where
  "parse_color s =
    (let raw = trim s;
         hex = (case strip_prefix [35] raw of Some h \<Rightarrow> h
           | None \<Rightarrow> (case strip_prefix [48, 120] raw of Some h \<Rightarrow> h
             | None \<Rightarrow> (case strip_prefix [48, 88] raw of Some h \<Rightarrow> h | None \<Rightarrow> raw)))
     in (case from_str_radix (2 ^ 32) 16 hex of
           None \<Rightarrow> Inl NotHex
         | Some v \<Rightarrow>
             (let n = word_of_nat v :: u32
              in if length (into_bytes hex) = 3 then
                   (let r = and (drop_bit 8 n) 0xF * 0x11; g = and (drop_bit 4 n) 0xF * 0x11; b = and n 0xF * 0x11
                    in Inr (or 0xFF000000 (or (push_bit 16 r) (or (push_bit 8 g) b))))
                 else if length (into_bytes hex) = 6 then Inr (or 0xFF000000 (and n 0x00FFFFFF))
                 else if length (into_bytes hex) = 8 then Inr n
                 else Inl BadDigits)))"

definition parse_position :: "chars \<Rightarrow> config_error + position" where
  "parse_position s =
    (if s = literal ''top-right'' then Inr TopRight
     else if s = literal ''top-left'' then Inr TopLeft
     else if s = literal ''bottom-right'' then Inr BottomRight
     else if s = literal ''bottom-left'' then Inr BottomLeft
     else Inl UnknownPosition)"

text \<open>One optional field: absent leaves the setting, present is checked and stored.\<close>

definition field :: "'a option \<Rightarrow> ('a \<Rightarrow> config_error + 'b) \<Rightarrow> ('b \<Rightarrow> config \<Rightarrow> config) \<Rightarrow> config \<Rightarrow> config_error + config" where
  "field v check put c = (case v of None \<Rightarrow> Inr c | Some x \<Rightarrow> bind_res (check x) (\<lambda>y. Inr (put y c)))"

definition positive :: "config_error \<Rightarrow> u32 \<Rightarrow> config_error + u32" where
  "positive e n = (if n = 0 then Inl e else Inr n)"

definition text_size :: "config_error \<Rightarrow> rat option \<Rightarrow> config_error + rat" where
  "text_size e s = (case s of Some x \<Rightarrow> if 0 < x then Inr x else Inl e | None \<Rightarrow> Inl e)"

definition from_raw :: "raw_config \<Rightarrow> config_error + config" where
  "from_raw n =
    bind_res (field (raw_position n) parse_position (\<lambda>x c. c\<lparr> corner := x \<rparr>) default_config) (\<lambda>c.
    bind_res (field (raw_background n) parse_color (\<lambda>x c. c\<lparr> background := x \<rparr>) c) (\<lambda>c.
    bind_res (field (raw_foreground n) parse_color (\<lambda>x c. c\<lparr> foreground := x \<rparr>) c) (\<lambda>c.
    bind_res (field (raw_border n) parse_color (\<lambda>x c. c\<lparr> border := x \<rparr>) c) (\<lambda>c.
    bind_res (field (raw_timeout n) Inr (\<lambda>x c. c\<lparr> default_timeout_ms := x \<rparr>) c) (\<lambda>c.
    bind_res (field (raw_max_width n) (positive ZeroWidth) (\<lambda>x c. c\<lparr> max_width := x \<rparr>) c) (\<lambda>c.
    bind_res (field (raw_gap n) (positive ZeroGap) (\<lambda>x c. c\<lparr> gap := x \<rparr>) c) (\<lambda>c.
    bind_res (field (raw_padding n) Inr (\<lambda>x c. c\<lparr> padding := x \<rparr>) c) (\<lambda>c.
    bind_res (field (raw_font n) Inr (\<lambda>x c. c\<lparr> font_path := Some x \<rparr>) c) (\<lambda>c.
    bind_res (field (raw_summary_size n) (text_size BadSummarySize) (\<lambda>x c. c\<lparr> summary_size := x \<rparr>) c) (\<lambda>c.
    field (raw_body_size n) (text_size BadBodySize) (\<lambda>x c. c\<lparr> body_size := x \<rparr>) c))))))))))"

section \<open>Laying out\<close>

text \<open>A font at a size: each character's advance, and the height of a line.\<close>

record font =
  advance :: "u32 \<Rightarrow> rat"
  new_line_size :: "rat option"

definition line_height :: "font \<Rightarrow> rat \<Rightarrow> nat" where
  "line_height f size_px = (case new_line_size f of Some l \<Rightarrow> nat \<lceil>l\<rceil> | None \<Rightarrow> nat \<lceil>size_px * (5 / 4)\<rceil>)"

definition measure_text :: "font \<Rightarrow> chars \<Rightarrow> nat" where
  "measure_text f s = nat \<lceil>sum_list (map (advance f) s)\<rceil>"

definition char_width :: "font \<Rightarrow> u32 \<Rightarrow> nat" where
  "char_width f c = nat \<lceil>advance f c\<rceil>"

fun clip_from :: "font \<Rightarrow> nat \<Rightarrow> nat \<Rightarrow> nat \<Rightarrow> chars \<Rightarrow> chars" where
  "clip_from f max_w ellipsis_w acc [] = []"
| "clip_from f max_w ellipsis_w acc (c # s) =
    (if max_w < acc + char_width f c + ellipsis_w then []
     else c # clip_from f max_w ellipsis_w (acc + char_width f c) s)"

definition clip_single_line :: "font \<Rightarrow> chars \<Rightarrow> nat \<Rightarrow> chars" where
  "clip_single_line f s max_w =
    (if measure_text f s \<le> max_w then s
     else (let ellipsis = literal ''..'' in clip_from f max_w (measure_text f ellipsis) 0 s @ ellipsis))"

fun force_break :: "font \<Rightarrow> nat \<Rightarrow> chars \<Rightarrow> nat \<Rightarrow> chars \<Rightarrow> chars list" where
  "force_break f max_w buf buf_w [] = (if buf = [] then [] else [buf])"
| "force_break f max_w buf buf_w (c # s) =
    (if max_w < buf_w + char_width f c \<and> buf \<noteq> []
     then buf # force_break f max_w [c] (char_width f c) s
     else force_break f max_w (buf @ [c]) (buf_w + char_width f c) s)"

fun fill_lines :: "font \<Rightarrow> nat \<Rightarrow> chars \<Rightarrow> nat \<Rightarrow> chars list \<Rightarrow> chars list" where
  "fill_lines f max_w current current_w [] = (if current = [] then [] else [current])"
| "fill_lines f max_w current current_w (word # words) =
    (let word_w = measure_text f word
     in if max_w < word_w then
          (if current = [] then [] else [current]) @ force_break f max_w [] 0 word @
            fill_lines f max_w [] (if current = [] then current_w else 0) words
        else
          (let needed = (if current = [] then word_w else measure_text f [32] + word_w)
           in if max_w < current_w + needed then current # fill_lines f max_w word word_w words
              else fill_lines f max_w (current @ (if current = [] then [] else [32]) @ word)
                (current_w + needed) words))"

definition wrap :: "font \<Rightarrow> chars \<Rightarrow> nat \<Rightarrow> chars list" where
  "wrap f s max_w =
    (if s = [] then []
     else concat (map (\<lambda>p. if p = [] then [[]] else fill_lines f max_w [] 0 (split_whitespace p)) (split_on 10 s)))"

record text_layout =
  layout_width :: nat
  layout_height :: nat
  summary_line :: chars
  body_lines :: "chars list"

definition layout :: "font \<Rightarrow> font \<Rightarrow> config \<Rightarrow> chars \<Rightarrow> chars \<Rightarrow> text_layout" where
  "layout sf bf c summary body =
    (let pad = unat (padding c); inner_w = unat (max_width c) - pad * 2;
         line = clip_single_line sf summary inner_w; ls = wrap bf body inner_w;
         summary_h = line_height sf (summary_size c); body_h = line_height bf (body_size c);
         body_block_h = (if ls = [] then 0 else body_h * length ls);
         gap_h = (if ls = [] then 0 else body_h div 2);
         height = pad + summary_h + gap_h + body_block_h + pad
     in \<lparr> layout_width = unat (max_width c), layout_height = max height (pad * 2 + summary_h),
          summary_line = line, body_lines = ls \<rparr>)"


section \<open>The queue\<close>

datatype urgency = Low | Normal | Critical

definition urgency_from_byte :: "u8 \<Rightarrow> urgency" where
  "urgency_from_byte b = (if b = 0 then Low else if b = 2 then Critical else Normal)"

datatype close_reason = Expired | DismissedByUser | ClosedByCall

record notification =
  nid :: u32
  app_name :: chars
  app_icon :: chars
  summary :: chars
  body :: chars
  urgency :: urgency
  image_path :: "chars option"
  expires_at :: "nat option"
  revision :: u64

record notify_args =
  arg_app_name :: chars
  replaces_id :: u32
  arg_app_icon :: chars
  arg_summary :: chars
  arg_body :: chars
  arg_urgency :: urgency
  arg_image_path :: "chars option"
  expire_timeout :: "32 word"

record queue =
  items :: "notification list"
  next_id :: u32

definition queue_new :: queue where
  "queue_new = \<lparr> items = [], next_id = 1 \<rparr>"

definition MILLISECOND :: nat where "MILLISECOND = 1000000"

text \<open>\<open>expire_timeout\<close> is an \<open>i32\<close>, carried as its bits.\<close>

definition compute_expiry :: "urgency \<Rightarrow> u32 \<Rightarrow> u32 \<Rightarrow> nat \<Rightarrow> nat option" where
  "compute_expiry u expire default_ms now =
    (if u = Critical then None
     else if expire = 0 then None
     else (let ms = (if sint expire < 0 then default_ms else expire)
           in Some (now + unat ms * MILLISECOND)))"

definition notify_queue :: "notify_args \<Rightarrow> u32 \<Rightarrow> nat \<Rightarrow> queue \<Rightarrow> u32 \<times> queue" where
  "notify_queue args default_ms now q =
    (let expires = compute_expiry (arg_urgency args) (expire_timeout args) default_ms now;
         fresh = (let ident = next_id q;
                      n = (if next_id q = - 1 then 1 else next_id q + 1);
                      n = (if n = 0 then 1 else n)
                  in (ident, q\<lparr> next_id := n, items := items q @
                       [\<lparr> nid = ident, app_name = arg_app_name args, app_icon = arg_app_icon args,
                          summary = arg_summary args, body = arg_body args, urgency = arg_urgency args,
                          image_path = arg_image_path args, expires_at = expires, revision = 0 \<rparr>] \<rparr>))
     in if replaces_id args \<noteq> 0 then
          (case position (\<lambda>n. nid n = replaces_id args) (items q) of
             Some i \<Rightarrow>
               (let slot = items q ! i
                in (nid slot, q\<lparr> items := (items q)[i := slot\<lparr> app_name := arg_app_name args,
                     app_icon := arg_app_icon args, summary := arg_summary args, body := arg_body args,
                     urgency := arg_urgency args, image_path := arg_image_path args, expires_at := expires,
                     revision := revision slot + 1 \<rparr>] \<rparr>))
           | None \<Rightarrow> fresh)
        else fresh)"

definition get_notification :: "u32 \<Rightarrow> queue \<Rightarrow> notification option" where
  "get_notification i q = List.find (\<lambda>n. nid n = i) (items q)"

definition close_notification_id :: "u32 \<Rightarrow> queue \<Rightarrow> bool \<times> queue" where
  "close_notification_id i q = (case position (\<lambda>n. nid n = i) (items q) of
     Some k \<Rightarrow> (True, q\<lparr> items := remove_at k (items q) \<rparr>) | None \<Rightarrow> (False, q))"

definition next_expiry :: "queue \<Rightarrow> nat option" where
  "next_expiry q = (let ts = List.map_filter expires_at (items q) in if ts = [] then None else Some (Min (set ts)))"

definition is_due :: "nat \<Rightarrow> notification \<Rightarrow> bool" where
  "is_due now n = (case expires_at n of Some t \<Rightarrow> t \<le> now | None \<Rightarrow> False)"

definition drain_expired :: "nat \<Rightarrow> queue \<Rightarrow> u32 list \<times> queue" where
  "drain_expired now q =
    (map nid (filter (is_due now) (items q)), q\<lparr> items := filter (\<lambda>n. \<not> is_due now n) (items q) \<rparr>)"

section \<open>D-Bus\<close>

datatype hint = HintByte u8 | HintString chars | HintOther

text \<open>The arguments of a call as unmarshalled: those of \<open>Notify\<close> (the first five, the timeout and the
  hints), the id of \<open>CloseNotification\<close>, or the text of the error.\<close>

record raw_notify =
  raw_app_name :: chars
  raw_replaces :: u32
  raw_app_icon :: chars
  raw_summary :: chars
  raw_body :: chars
  hints :: "chars \<rightharpoonup> hint"
  raw_expire :: u32

definition parse_notify :: "chars + raw_notify \<Rightarrow> chars + notify_args" where
  "parse_notify raw = bind_res raw (\<lambda>r.
    Inr \<lparr> arg_app_name = raw_app_name r, replaces_id = raw_replaces r, arg_app_icon = raw_app_icon r,
      arg_summary = raw_summary r, arg_body = raw_body r,
      arg_urgency = (case hints r (literal ''urgency'') of Some (HintByte b) \<Rightarrow> urgency_from_byte b | _ \<Rightarrow> Normal),
      arg_image_path = (case hints r (literal ''image-path'') of Some (HintString s) \<Rightarrow> Some s | _ \<Rightarrow> None),
      expire_timeout = raw_expire r \<rparr>)"

record dbus_call =
  is_call :: bool
  object :: "chars option"
  member :: "chars option"
  interface :: "chars option"
  notify_body :: "chars + raw_notify"
  close_body :: "chars + u32"

datatype dbus_reply =
    Capabilities | ServerInformation | Introspection | NotifyReply u32 | Empty
  | InvalidArgs chars | UnknownObject | UnknownMethod

type_synonym signal = "u32 \<times> close_reason"

definition OBJECT_PATH :: chars where "OBJECT_PATH = literal ''/org/freedesktop/Notifications''"
definition INTERFACE :: chars where "INTERFACE = literal ''org.freedesktop.Notifications''"
definition INTROSPECTABLE_INTERFACE :: chars where
  "INTROSPECTABLE_INTERFACE = literal ''org.freedesktop.DBus.Introspectable''"

definition dbus_notify :: "dbus_call \<Rightarrow> u32 \<Rightarrow> nat \<Rightarrow> queue \<Rightarrow> dbus_reply \<times> signal list \<times> queue" where
  "dbus_notify call default_ms now q = (case parse_notify (notify_body call) of
     Inl e \<Rightarrow> (InvalidArgs e, [], q)
   | Inr args \<Rightarrow> (let (i, q') = notify_queue args default_ms now q in (NotifyReply i, [], q')))"

definition dbus_close :: "dbus_call \<Rightarrow> queue \<Rightarrow> dbus_reply \<times> signal list \<times> queue" where
  "dbus_close call q = (case close_body call of
     Inl e \<Rightarrow> (InvalidArgs e, [], q)
   | Inr i \<Rightarrow> (let (removed, q') = close_notification_id i q
              in (Empty, if removed then [(i, ClosedByCall)] else [], q')))"

definition dispatch :: "dbus_call \<Rightarrow> u32 \<Rightarrow> nat \<Rightarrow> queue \<Rightarrow> dbus_reply option \<times> signal list \<times> queue" where
  "dispatch call default_ms now q =
    (if \<not> is_call call then (None, [], q)
     else (case object call of
         None \<Rightarrow> (None, [], q)
       | Some obj \<Rightarrow>
           if obj \<noteq> OBJECT_PATH then (Some UnknownObject, [], q)
           else (case member call of
               None \<Rightarrow> (None, [], q)
             | Some m \<Rightarrow>
                 (let ours = interface call \<in> {Some INTERFACE, None};
                      intro = interface call \<in> {Some INTROSPECTABLE_INTERFACE, None}
                  in if ours \<and> m = literal ''GetCapabilities'' then (Some Capabilities, [], q)
                     else if ours \<and> m = literal ''GetServerInformation'' then (Some ServerInformation, [], q)
                     else if ours \<and> m = literal ''Notify'' then
                       (case dbus_notify call default_ms now q of (r, sg, q') \<Rightarrow> (Some r, sg, q'))
                     else if ours \<and> m = literal ''CloseNotification'' then
                       (case dbus_close call q of (r, sg, q') \<Rightarrow> (Some r, sg, q'))
                     else if intro \<and> m = literal ''Introspect'' then (Some Introspection, [], q)
                     else (Some UnknownMethod, [], q)))))"

section \<open>Surfaces\<close>

record notify_surface =
  wl_surface :: nat
  requested_size :: "nat \<times> nat"
  configured :: bool
  drawn_revision :: "u64 option"
  stack_offset :: nat

text \<open>\<open>sent\<close> is what went out on the bus, \<open>margins\<close> each margin a surface was given, both oldest first;
  \<open>painted\<close> the picture in the buffer last attached to each surface: the layout drawn into it, and
  the colour of the stripe that marks a critical notification.\<close>

record picture =
  drawn :: text_layout
  stripe :: "u32 option"

record daemon =
  cfg :: config
  the_queue :: queue
  surfaces :: "u32 \<rightharpoonup> notify_surface"
  surface_id_to_notif :: "nat \<rightharpoonup> u32"
  next_object :: nat
  has_pointer :: bool
  pointer_focus :: "u32 option"
  stack_dirty :: bool
  sent :: "signal list"
  margins :: "(nat \<times> int \<times> int \<times> int \<times> int) list"
  painted :: "nat \<rightharpoonup> picture"

definition daemon_new :: "config \<Rightarrow> daemon" where
  "daemon_new c = \<lparr> cfg = c, the_queue = queue_new, surfaces = Map.empty, surface_id_to_notif = Map.empty,
     next_object = 0, has_pointer = False, pointer_focus = None, stack_dirty = False, sent = [], margins = [],
     painted = Map.empty \<rparr>"

definition margin_for :: "position \<Rightarrow> nat \<Rightarrow> nat \<Rightarrow> int \<times> int \<times> int \<times> int" where
  "margin_for p offset edge =
    (let s = int offset; g = int edge
     in (case p of TopRight \<Rightarrow> (s, g, 0, 0) | TopLeft \<Rightarrow> (s, 0, 0, g)
         | BottomRight \<Rightarrow> (0, g, s, 0) | BottomLeft \<Rightarrow> (0, 0, s, g)))"

text \<open>\<open>size_of\<close> is \<open>layout\<close> with the daemon's font and settings.\<close>

definition size_of :: "(rat \<Rightarrow> font) \<Rightarrow> config \<Rightarrow> notification \<Rightarrow> nat \<times> nat" where
  "size_of fonts c n =
    (let l = layout (fonts (summary_size c)) (fonts (body_size c)) c (summary n) (body n)
     in (layout_width l, layout_height l))"

definition create_surface_for :: "(rat \<Rightarrow> font) \<Rightarrow> u32 \<Rightarrow> daemon \<Rightarrow> daemon" where
  "create_surface_for fonts i d = (case get_notification i (the_queue d) of
     None \<Rightarrow> d
   | Some n \<Rightarrow>
       (let obj = next_object d; g = unat (gap (cfg d))
        in d\<lparr> next_object := Suc obj, margins := margins d @ [(obj, margin_for (corner (cfg d)) g g)],
             surface_id_to_notif := (surface_id_to_notif d)(obj \<mapsto> i),
             surfaces := (surfaces d)(i \<mapsto> \<lparr> wl_surface = obj, requested_size = size_of fonts (cfg d) n,
               configured = False, drawn_revision = None, stack_offset = g \<rparr>) \<rparr>))"

definition destroy_surface :: "u32 \<Rightarrow> daemon \<Rightarrow> daemon" where
  "destroy_surface i d = (case surfaces d i of
     None \<Rightarrow> d
   | Some s \<Rightarrow> d\<lparr> surfaces := (surfaces d)(i := None),
       surface_id_to_notif := (surface_id_to_notif d)(wl_surface s := None),
       pointer_focus := (if pointer_focus d = Some i then None else pointer_focus d) \<rparr>)"

fun restack_from :: "nat \<Rightarrow> notification list \<Rightarrow> daemon \<Rightarrow> daemon" where
  "restack_from offset [] d = d"
| "restack_from offset (n # ns) d = (case surfaces d (nid n) of
     None \<Rightarrow> restack_from offset ns d
   | Some s \<Rightarrow>
       restack_from (offset + (snd (requested_size s) + unat (gap (cfg d)))) ns
         (if stack_offset s \<noteq> offset
          then d\<lparr> surfaces := (surfaces d)(nid n \<mapsto> s\<lparr> stack_offset := offset \<rparr>),
                 margins := margins d @ [(wl_surface s, margin_for (corner (cfg d)) offset (unat (gap (cfg d))))] \<rparr>
          else d))"

definition restack :: "daemon \<Rightarrow> daemon" where
  "restack d = restack_from (unat (gap (cfg d))) (items (the_queue d)) d"

text \<open>
  Painting commits a buffer with what the notification says now, of the size it has now. It fails, and
  then changes nothing, when the notification or the surface is gone or there is no memory to draw
  in (\<open>mapped\<close>: the temporary file is made, written and mapped).
\<close>

definition picture_of :: "(rat \<Rightarrow> font) \<Rightarrow> config \<Rightarrow> notification \<Rightarrow> picture" where
  "picture_of fonts c n = \<lparr> drawn = layout (fonts (summary_size c)) (fonts (body_size c)) c (summary n) (body n),
     stripe = (if urgency n = Critical then Some (border c) else None) \<rparr>"

definition paint :: "(rat \<Rightarrow> font) \<Rightarrow> bool \<Rightarrow> u32 \<Rightarrow> daemon \<Rightarrow> daemon option" where
  "paint fonts mapped i d = (case get_notification i (the_queue d) of
     None \<Rightarrow> None
   | Some n \<Rightarrow>
       if \<not> mapped then None
       else (case surfaces d i of
           None \<Rightarrow> None
         | Some s \<Rightarrow> Some (d\<lparr> surfaces := (surfaces d)(i \<mapsto> s\<lparr> drawn_revision := Some (revision n) \<rparr>),
             painted := (painted d)(wl_surface s \<mapsto> picture_of fonts (cfg d) n) \<rparr>)))"

definition needs_paint :: "u32 \<Rightarrow> daemon \<Rightarrow> bool" where
  "needs_paint i d = (case (surfaces d i, get_notification i (the_queue d)) of
     (Some s, Some n) \<Rightarrow> configured s \<and> (case drawn_revision s of None \<Rightarrow> True | Some r \<Rightarrow> r < revision n)
   | _ \<Rightarrow> False)"

text \<open>
  The keys of the map in the order \<open>order\<close> gives them, as the code's hash map has one of its own;
  \<open>failing\<close> are those whose painting fails, which is only logged.
\<close>

definition paint_one :: "(rat \<Rightarrow> font) \<Rightarrow> u32 set \<Rightarrow> u32 \<Rightarrow> daemon \<Rightarrow> daemon" where
  "paint_one fonts failing i d =
    (if needs_paint i d then (case paint fonts (i \<notin> failing) i d of Some d' \<Rightarrow> d' | None \<Rightarrow> d) else d)"

definition paint_if_needed :: "(rat \<Rightarrow> font) \<Rightarrow> u32 set \<Rightarrow> u32 list \<Rightarrow> daemon \<Rightarrow> daemon" where
  "paint_if_needed fonts failing order d = fold (paint_one fonts failing) order d"

definition create_missing :: "(rat \<Rightarrow> font) \<Rightarrow> u32 list \<Rightarrow> daemon \<times> bool \<Rightarrow> daemon \<times> bool" where
  "create_missing fonts ids = fold (\<lambda>i (d, r). if surfaces d i \<noteq> None then (d, r) else (create_surface_for fonts i d, True)) ids"

definition sync_surfaces :: "(rat \<Rightarrow> font) \<Rightarrow> (u32 set \<Rightarrow> u32 list) \<Rightarrow> u32 set \<Rightarrow> daemon \<Rightarrow> daemon" where
  "sync_surfaces fonts order failing d =
    (let ids = map nid (items (the_queue d));
         (d1, added) = create_missing fonts ids (d, False);
         stale = filter (\<lambda>i. i \<notin> set ids) (order (dom (surfaces d1)));
         d2 = fold destroy_surface stale d1;
         needs_restack = (added \<or> stale \<noteq> []);
         d3 = (if needs_restack \<or> stack_dirty d2 then (restack d2)\<lparr> stack_dirty := False \<rparr> else d2)
     in paint_if_needed fonts failing (order (dom (surfaces d3))) d3)"

definition dismiss :: "u32 \<Rightarrow> close_reason \<Rightarrow> daemon \<Rightarrow> daemon" where
  "dismiss i why d =
    (let (removed, q) = close_notification_id i (the_queue d)
     in if removed then d\<lparr> the_queue := q, sent := sent d @ [(i, why)] \<rparr> else d)"

definition BTN_LEFT :: u32 where "BTN_LEFT = 0x110"

text \<open>What the loop reacts to. \<open>now\<close> is the clock as the place that acts on it reads it; a pass over the
  surfaces comes with the notifications whose painting fails in it.\<close>

datatype occurrence =
    Call dbus_call nat
  | TimerFired nat
  | Configure u32
  | SurfaceClosed u32
  | Enter nat
  | Leave
  | ButtonPressed u32
  | Capability bool
  | Sync "u32 set"

definition handle_expirations :: "nat \<Rightarrow> daemon \<Rightarrow> daemon" where
  "handle_expirations now d =
    (let (ids, q) = drain_expired now (the_queue d)
     in d\<lparr> the_queue := q, sent := sent d @ map (\<lambda>i. (i, Expired)) ids \<rparr>)"

definition dispatch_call :: "dbus_call \<Rightarrow> nat \<Rightarrow> daemon \<Rightarrow> dbus_reply option \<times> daemon" where
  "dispatch_call call now d =
    (case dispatch call (default_timeout_ms (cfg d)) now (the_queue d) of
       (reply, sg, q) \<Rightarrow> (reply, d\<lparr> the_queue := q, sent := sent d @ sg \<rparr>))"

definition layer_event :: "u32 \<Rightarrow> bool \<Rightarrow> daemon \<Rightarrow> daemon" where
  "layer_event i gone d =
    (if gone then dismiss i DismissedByUser d
     else (case surfaces d i of
         Some s \<Rightarrow> d\<lparr> surfaces := (surfaces d)(i \<mapsto> s\<lparr> configured := True \<rparr>) \<rparr>
       | None \<Rightarrow> d))"

definition button_pressed :: "u32 \<Rightarrow> daemon \<Rightarrow> daemon" where
  "button_pressed button d =
    (if button \<noteq> BTN_LEFT then d
     else (case pointer_focus d of
         None \<Rightarrow> d
       | Some i \<Rightarrow> (dismiss i DismissedByUser d)\<lparr> stack_dirty := True \<rparr>))"

definition pointer_capability :: "bool \<Rightarrow> daemon \<Rightarrow> daemon" where
  "pointer_capability has d =
    (if has \<and> \<not> has_pointer d then d\<lparr> has_pointer := True \<rparr>
     else if \<not> has then (if has_pointer d then d\<lparr> has_pointer := False, pointer_focus := None \<rparr> else d)
     else d)"

definition daemon_step :: "(rat \<Rightarrow> font) \<Rightarrow> (u32 set \<Rightarrow> u32 list) \<Rightarrow> daemon \<Rightarrow> occurrence \<Rightarrow> daemon" where
  "daemon_step fonts order d e = (case e of
     Call call now \<Rightarrow> snd (dispatch_call call now d)
   | TimerFired now \<Rightarrow> handle_expirations now d
   | Configure i \<Rightarrow> layer_event i False d
   | SurfaceClosed i \<Rightarrow> layer_event i True d
   | Enter obj \<Rightarrow> d\<lparr> pointer_focus := surface_id_to_notif d obj \<rparr>
   | Leave \<Rightarrow> d\<lparr> pointer_focus := None \<rparr>
   | ButtonPressed b \<Rightarrow> button_pressed b d
   | Capability has \<Rightarrow> pointer_capability has d
   | Sync failing \<Rightarrow> sync_surfaces fonts order failing d)"

text \<open>What the timer is set to, from now on; \<open>None\<close> disarms it.\<close>

definition rearm_timerfd :: "nat option \<Rightarrow> nat \<Rightarrow> nat option" where
  "rearm_timerfd next now = (case next of
     None \<Rightarrow> None
   | Some t \<Rightarrow>
       (let d = (if now \<le> t then t - now else 1); d = (if d = 0 then 1 else d) in Some d))"


section \<open>No line is too long, and no character is lost\<close>

definition sane_font :: "font \<Rightarrow> bool" where
  "sane_font f \<longleftrightarrow> (\<forall>c. 0 \<le> advance f c)"

definition fits :: "font \<Rightarrow> nat \<Rightarrow> chars \<Rightarrow> bool" where
  "fits f m l \<longleftrightarrow> measure_text f l \<le> m \<or> length l = 1"

lemma nat_ceiling_add: "(0 :: rat) \<le> a \<Longrightarrow> 0 \<le> b \<Longrightarrow> nat \<lceil>a + b\<rceil> \<le> nat \<lceil>a\<rceil> + nat \<lceil>b\<rceil>"
proof -
  assume "0 \<le> a" "0 \<le> b"
  have "\<lceil>a + b\<rceil> \<le> \<lceil>a\<rceil> + \<lceil>b\<rceil>" by (simp add: ceiling_le_iff add_mono)
  moreover have "0 \<le> \<lceil>a\<rceil>" "0 \<le> \<lceil>b\<rceil>" using \<open>0 \<le> a\<close> \<open>0 \<le> b\<close> by (simp_all add: zero_le_ceiling)
  ultimately show ?thesis by linarith
qed

lemma sum_advance_nonneg: "sane_font f \<Longrightarrow> 0 \<le> sum_list (map (advance f) s)"
  by (rule sum_list_nonneg) (auto simp: sane_font_def)

lemma measure_append: "sane_font f \<Longrightarrow> measure_text f (s @ t) \<le> measure_text f s + measure_text f t"
  by (simp add: measure_text_def nat_ceiling_add sum_advance_nonneg)

lemma measure_simps [simp]: "measure_text f [] = 0" "measure_text f [c] = char_width f c"
  by (simp_all add: measure_text_def char_width_def)

lemma force_break_fits:
  assumes f: "sane_font f"
  shows "measure_text f buf \<le> w \<Longrightarrow> (buf = [] \<Longrightarrow> w = 0) \<Longrightarrow> w \<le> m \<or> length buf = 1 \<Longrightarrow>
    l \<in> set (force_break f m buf w s) \<Longrightarrow> fits f m l"
proof (induction s arbitrary: buf w)
  case Nil
  then show ?case by (auto simp: fits_def split: if_splits)
next
  case (Cons c s)
  have "fits f m buf" using Cons.prems(1,3) by (auto simp: fits_def)
  show ?case
  proof (cases "m < w + char_width f c \<and> buf \<noteq> []")
    case True
    with Cons.prems(4) Cons.IH [of "[c]" "char_width f c"] \<open>fits f m buf\<close> show ?thesis by auto
  next
    case False
    have "measure_text f (buf @ [c]) \<le> w + char_width f c"
      using measure_append [OF f, of buf "[c]"] Cons.prems(1) by simp
    moreover have "w + char_width f c \<le> m \<or> length (buf @ [c]) = 1" using False by auto
    moreover have "l \<in> set (force_break f m (buf @ [c]) (w + char_width f c) s)" using Cons.prems(4) False by auto
    ultimately show ?thesis using Cons.IH [of "buf @ [c]" "w + char_width f c"] by simp
  qed
qed

lemma force_break_concat: "concat (force_break f m buf w s) = buf @ s"
  by (induction s arbitrary: buf w) auto

lemma fill_lines_fits:
  assumes f: "sane_font f"
  shows "measure_text f cur \<le> w \<Longrightarrow> (cur = [] \<Longrightarrow> w = 0) \<Longrightarrow> w \<le> m \<Longrightarrow>
    l \<in> set (fill_lines f m cur w ws) \<Longrightarrow> fits f m l"
proof (induction ws arbitrary: cur w)
  case Nil
  then show ?case by (auto simp: fits_def split: if_splits)
next
  case (Cons word ws)
  have cur: "fits f m cur" using Cons.prems(1,3) by (simp add: fits_def)
  show ?case
  proof (cases "m < measure_text f word")
    case True
    then consider "l = cur" | "l \<in> set (force_break f m [] 0 word)" | "l \<in> set (fill_lines f m [] 0 ws)"
      using Cons.prems(2,4) by (auto simp: Let_def split: if_splits)
    then show ?thesis
      using cur force_break_fits [OF f, of "[]" 0 m l word] Cons.IH [of "[]" 0] by cases auto
  next
    case False
    let ?sep = "if cur = [] then [] else [32]"
    let ?needed = "if cur = [] then measure_text f word else measure_text f [32] + measure_text f word"
    have "measure_text f (?sep @ word) \<le> ?needed" using measure_append [OF f, of "[32]" word] by simp
    then have m: "measure_text f (cur @ ?sep @ word) \<le> w + ?needed"
      using measure_append [OF f, of cur "?sep @ word"] Cons.prems(1) by linarith
    show ?thesis
    proof (cases "m < w + ?needed")
      case True
      then have "l = cur \<or> l \<in> set (fill_lines f m word (measure_text f word) ws)"
        using Cons.prems(4) False by (auto simp: Let_def split: if_splits)
      then show ?thesis using cur Cons.IH [of word "measure_text f word"] False by auto
    next
      case fit: False
      then have "l \<in> set (fill_lines f m (cur @ ?sep @ word) (w + ?needed) ws)"
        using Cons.prems(4) False by (auto simp: Let_def split: if_splits)
      then show ?thesis
        by (intro Cons.IH [of "cur @ ?sep @ word" "w + ?needed"] m) (use fit Cons.prems(2) in \<open>auto split: if_splits\<close>)
    qed
  qed
qed

abbreviation letters :: "chars \<Rightarrow> chars" where
  "letters s \<equiv> filter (\<lambda>c. \<not> is_whitespace c) s"

lemma fill_lines_letters:
  "letters (concat (fill_lines f m cur w ws)) = letters cur @ letters (concat ws)"
proof (induction ws arbitrary: cur w)
  case (Cons word ws)
  have "\<not> \<not> is_whitespace 32" by (simp add: is_whitespace_def)
  then show ?case using Cons.IH by (auto simp: Let_def force_break_concat)
qed auto

text \<open>However the body of a notification is wrapped, no line is wider than the text column, unless a
  single character alone is, and apart from white space every character of the body is shown, in order.\<close>

theorem wrapping_fits_and_keeps_text:
  assumes "sane_font f"
  shows "list_all (fits f m) (wrap f s m) \<and> letters (concat (wrap f s m)) = letters s"
proof
  have "fits f m []" by (simp add: fits_def)
  then show "list_all (fits f m) (wrap f s m)"
    using fill_lines_fits [OF assms, of "[]" 0 m] by (auto simp: wrap_def list_all_iff split: if_splits)
  let ?g = "\<lambda>p. if p = [] then [[]] else fill_lines f m [] 0 (split_whitespace p)"
  have g: "letters (concat (?g p)) = letters p" for p
    by (simp add: fill_lines_letters concat_split_whitespace)
  have "letters (concat (concat (map ?g ps))) = letters (concat ps)" for ps
    by (induction ps) (simp_all add: g)
  then have "letters (concat (concat (map ?g (split_on 10 s)))) = letters (filter (\<lambda>c. c \<noteq> 10) s)"
    by (simp only: concat_split_on)
  also have "\<dots> = letters s" by (induction s) (auto simp: is_whitespace_def)
  finally show "letters (concat (wrap f s m)) = letters s" by (simp add: wrap_def)
qed

lemma wrapping_fits_and_keeps_text_witness:
  "list_all (fits \<lparr> advance = (\<lambda>_. 7 / 2), new_line_size = None \<rparr> 30)
      (wrap \<lparr> advance = (\<lambda>_. 7 / 2), new_line_size = None \<rparr> (literal ''hello wide world'') 30) \<and>
    letters (concat (wrap \<lparr> advance = (\<lambda>_. 7 / 2), new_line_size = None \<rparr> (literal ''hello wide world'') 30)) =
      letters (literal ''hello wide world'')"
  by (rule wrapping_fits_and_keeps_text) (simp add: sane_font_def)

lemma clip_from_fits:
  assumes f: "sane_font f"
  shows "acc + e \<le> m \<Longrightarrow> acc + measure_text f (clip_from f m e acc s) + e \<le> m"
proof (induction s arbitrary: acc)
  case (Cons c s)
  show ?case
  proof (cases "m < acc + char_width f c + e")
    case True
    with Cons.prems show ?thesis by simp
  next
    case False
    have "measure_text f (c # clip_from f m e (acc + char_width f c) s)
        \<le> char_width f c + measure_text f (clip_from f m e (acc + char_width f c) s)"
      using measure_append [OF f, of "[c]"] by simp
    with Cons.IH [of "acc + char_width f c"] False show ?thesis by simp
  qed
qed simp

lemma summary_fits:
  assumes "sane_font f" "measure_text f (literal ''..'') \<le> m"
  shows "measure_text f (clip_single_line f s m) \<le> m"
  using assms clip_from_fits [OF assms(1), of 0 "measure_text f (literal ''..'')" m s]
    measure_append [OF assms(1), of "clip_from f m (measure_text f (literal ''..'')) 0 s" "literal ''..''"]
  by (simp add: clip_single_line_def Let_def)


section \<open>Every notification is closed once\<close>

definition live_ids :: "daemon \<Rightarrow> u32 list" where
  "live_ids d = map nid (items (the_queue d))"

definition ids_ok :: "daemon \<Rightarrow> bool" where
  "ids_ok d \<longleftrightarrow> distinct (live_ids d @ map fst (sent d)) \<and>
     set (live_ids d) \<union> set (map fst (sent d)) = {0 <..< next_id (the_queue d)} \<and> next_id (the_queue d) \<noteq> 0"

lemma less_word_add_1: "(x :: u32) \<noteq> - 1 \<Longrightarrow> y < x + 1 \<longleftrightarrow> y < x \<or> y = x"
  by (simp add: word_less_nat_alt unat_Suc less_Suc_eq word_unat_eq_iff)

lemma word_interval_Suc: "(x :: u32) \<noteq> - 1 \<Longrightarrow> x \<noteq> 0 \<Longrightarrow> {0 <..< x + 1} = insert x {0 <..< x}"
  by (auto simp: less_word_add_1 word_neq_0_conv)

lemma filter_neq_id: "i \<notin> set xs \<Longrightarrow> filter (\<lambda>j. j \<noteq> i) xs = xs"
  by (induction xs) auto

lemma notify_queue_ids:
  assumes "notify_queue args def now q = (i, q')" "next_id q \<noteq> - 1" "next_id q \<noteq> 0"
  shows "i \<in> set (map nid (items q)) \<and> map nid (items q') = map nid (items q) \<and> next_id q' = next_id q \<or>
    i = next_id q \<and> map nid (items q') = map nid (items q) @ [i] \<and> next_id q' = next_id q + 1 \<and>
      nid ` set (items q') = insert i (nid ` set (items q))"
proof -
  have n: "next_id q + 1 \<noteq> 0" using assms(2) by (metis add.commute add_eq_0_iff)
  show ?thesis
  proof (cases "if replaces_id args \<noteq> 0 then position (\<lambda>n. nid n = replaces_id args) (items q) else None")
    case None
    with assms n show ?thesis by (auto simp: notify_queue_def Let_def split: if_splits)
  next
    case (Some k)
    then have k: "replaces_id args \<noteq> 0" "position (\<lambda>n. nid n = replaces_id args) (items q) = Some k"
      by (auto split: if_splits)
    have "k < length (items q)" using position_SomeD [OF k(2)] by simp
    moreover have "map nid ((items q)[k := x]) = map nid (items q)" if "nid x = nid (items q ! k)" for x
      using that by (simp add: map_update list_update_same_conv) (metis list_update_id nth_map calculation map_update)
    ultimately show ?thesis using assms k by (auto simp: notify_queue_def Let_def)
  qed
qed

lemma close_id_ids:
  assumes "close_notification_id i q = (r, q')" "distinct (map nid (items q))"
  shows "next_id q' = next_id q" "r \<Longrightarrow> i \<in> nid ` set (items q)" "\<not> r \<Longrightarrow> q' = q \<and> i \<notin> nid ` set (items q)"
    "r \<Longrightarrow> map nid (items q') = filter (\<lambda>j. j \<noteq> i) (map nid (items q))"
    "r \<Longrightarrow> nid ` set (items q') = nid ` set (items q) - {i}" "distinct (map nid (items q'))"
proof -
  have "next_id q' = next_id q \<and> (if r then i \<in> nid ` set (items q) \<and>
      map nid (items q') = filter (\<lambda>j. j \<noteq> i) (map nid (items q)) else q' = q \<and> i \<notin> nid ` set (items q))"
  proof (cases "position (\<lambda>n. nid n = i) (items q)")
    case None
    with assms show ?thesis by (auto simp: close_notification_id_def position_None)
  next
    case (Some k)
    then have k: "k < length (items q)" "nid (items q ! k) = i" using position_SomeD [OF Some] by auto
    have e: "items q = take k (items q) @ items q ! k # drop (Suc k) (items q)" using k(1) by (rule split_at)
    have m: "map nid (items q) = map nid (take k (items q)) @ i # map nid (drop (Suc k) (items q))"
      by (subst e) (simp add: k(2))
    have "map nid (remove_at k (items q)) = filter (\<lambda>j. j \<noteq> i) (map nid (items q))"
      using assms(2) filter_neq_id [of i "map nid (take k (items q))"] filter_neq_id [of i "map nid (drop (Suc k) (items q))"]
      unfolding m remove_at_def by (simp del: filter_map)
    with assms(1) Some k show ?thesis by (auto simp: close_notification_id_def)
  qed
  note * = this
  show "next_id q' = next_id q" "r \<Longrightarrow> i \<in> nid ` set (items q)" "\<not> r \<Longrightarrow> q' = q \<and> i \<notin> nid ` set (items q)"
    "r \<Longrightarrow> map nid (items q') = filter (\<lambda>j. j \<noteq> i) (map nid (items q))" using * by (auto split: if_splits)
  show "distinct (map nid (items q'))" using * assms(2) by (cases r) (auto simp del: filter_map)
  assume r
  with * have "set (map nid (items q')) = set (filter (\<lambda>j. j \<noteq> i) (map nid (items q)))" by (simp del: filter_map)
  then show "nid ` set (items q') = nid ` set (items q) - {i}" by auto
qed

lemma dismiss_ids: "ids_ok d \<Longrightarrow> ids_ok (dismiss i why d)"
proof -
  assume d: "ids_ok d"
  obtain r q' where c: "close_notification_id i (the_queue d) = (r, q')" by fastforce
  have "distinct (map nid (items (the_queue d)))" using d by (simp add: ids_ok_def live_ids_def)
  note cl = close_id_ids [OF c this]
  show "ids_ok (dismiss i why d)"
    using d cl by (cases r) (auto simp: dismiss_def c ids_ok_def live_ids_def)
qed

lemma expirations_ids: "ids_ok d \<Longrightarrow> ids_ok (handle_expirations now d)"
proof -
  assume d: "ids_ok d"
  let ?q = "items (the_queue d)"
  have "distinct (map nid ?q)" using d by (simp add: ids_ok_def live_ids_def)
  then have "distinct (map nid (filter (\<lambda>n. \<not> is_due now n) ?q) @ map nid (filter (is_due now) ?q))"
    by (auto simp: distinct_map_filter distinct_map inj_on_def)
  moreover have "set (map nid ?q) = set (map nid (filter (\<lambda>n. \<not> is_due now n) ?q)) \<union> set (map nid (filter (is_due now) ?q))"
    by auto
  ultimately show ?thesis using d
    unfolding handle_expirations_def drain_expired_def ids_ok_def live_ids_def
    by (auto simp: comp_def)
qed

lemma call_ids:
  assumes d: "ids_ok d" and n: "next_id (the_queue d) \<noteq> - 1"
  shows "ids_ok (snd (dispatch_call call now d)) \<and>
    unat (next_id (the_queue (snd (dispatch_call call now d)))) \<le> Suc (unat (next_id (the_queue d)))"
proof -
  obtain r sg q' where disp: "dispatch call (default_timeout_ms (cfg d)) now (the_queue d) = (r, sg, q')"
    by (metis prod_cases3)
  then consider "sg = []" "q' = the_queue d"
    | args i where "sg = []" "notify_queue args (default_timeout_ms (cfg d)) now (the_queue d) = (i, q')"
    | i rm where "close_notification_id i (the_queue d) = (rm, q')" "sg = (if rm then [(i, ClosedByCall)] else [])"
    by (auto simp: dispatch_def dbus_notify_def dbus_close_def Let_def split: option.splits sum.splits prod.splits if_splits)
  then show ?thesis
  proof cases
    case 1
    with disp d show ?thesis by (simp add: dispatch_call_def ids_ok_def live_ids_def)
  next
    case 2
    have "next_id (the_queue d) \<noteq> 0" using d by (simp add: ids_ok_def)
    from notify_queue_ids [OF 2(2) n this] show ?thesis
    proof
      assume *: "i \<in> set (map nid (items (the_queue d))) \<and> map nid (items q') = map nid (items (the_queue d)) \<and>
        next_id q' = next_id (the_queue d)"
      then have "nid ` set (items q') = nid ` set (items (the_queue d))" by (metis set_map)
      with * d 2(1) disp show ?thesis by (simp add: dispatch_call_def ids_ok_def live_ids_def)
    next
      assume *: "i = next_id (the_queue d) \<and> map nid (items q') = map nid (items (the_queue d)) @ [i] \<and>
        next_id q' = next_id (the_queue d) + 1 \<and> nid ` set (items q') = insert i (nid ` set (items (the_queue d)))"
      moreover have "next_id (the_queue d) + 1 \<noteq> 0" using n by (metis add.commute add_eq_0_iff)
      moreover have "i \<notin> nid ` set (items (the_queue d)) \<union> fst ` set (sent d)"
        using d * by (simp add: ids_ok_def live_ids_def)
      ultimately show ?thesis using d 2(1) disp word_interval_Suc [OF n] n
        by (simp add: dispatch_call_def ids_ok_def live_ids_def unat_Suc)
    qed
  next
    case 3
    have "distinct (map nid (items (the_queue d)))" using d by (simp add: ids_ok_def live_ids_def)
    note cl = close_id_ids [OF 3(1) this]
    show ?thesis using cl disp d 3(2)
      by (cases rm) (auto simp: dispatch_call_def ids_ok_def live_ids_def)
  qed
qed


text \<open>Keeping the surfaces in step touches neither the queue nor the bus.\<close>

definition same_queue :: "daemon \<Rightarrow> daemon \<Rightarrow> bool" where
  "same_queue d d' \<longleftrightarrow> the_queue d' = the_queue d \<and> sent d' = sent d \<and> cfg d' = cfg d"

lemma same_queue_refl [simp]: "same_queue d d"
  and same_queue_trans: "same_queue d d' \<Longrightarrow> same_queue d' d'' \<Longrightarrow> same_queue d d''"
  by (simp_all add: same_queue_def)

lemma create_same: "same_queue d (create_surface_for fonts i d)"
  by (auto simp: same_queue_def create_surface_for_def Let_def split: option.split)

lemma destroy_same: "same_queue d (destroy_surface i d)"
  by (auto simp: same_queue_def destroy_surface_def split: option.split)

lemma restack_from_same: "same_queue d (restack_from off ns d)"
proof (induction ns arbitrary: off d)
  case (Cons n ns)
  show ?case
  proof (cases "surfaces d (nid n)")
    case None
    with Cons show ?thesis by simp
  next
    case (Some s)
    define d' where "d' = (if stack_offset s \<noteq> off
      then d\<lparr> surfaces := (surfaces d)(nid n \<mapsto> s\<lparr> stack_offset := off \<rparr>),
        margins := margins d @ [(wl_surface s, margin_for (corner (cfg d)) off (unat (gap (cfg d))))] \<rparr> else d)"
    have "same_queue d d'" by (simp add: d'_def same_queue_def)
    moreover have "restack_from off (n # ns) d = restack_from (off + (snd (requested_size s) + unat (gap (cfg d)))) ns d'"
      by (simp add: Some d'_def)
    ultimately show ?thesis using Cons.IH [of d'] same_queue_trans by metis
  qed
qed simp

lemma paint_same: "same_queue d (paint_one fonts failing i d)"
  by (auto simp: same_queue_def paint_one_def paint_def split: option.split)

lemma fold_same: "(\<And>x d. same_queue d (f x d)) \<Longrightarrow> same_queue d (fold f xs d)"
  by (induction xs arbitrary: d) (auto intro: same_queue_trans)

lemma create_missing_same: "same_queue d (fst (create_missing fonts ids (d, r)))"
proof (induction ids arbitrary: d r)
  case (Cons i ids)
  then show ?case using create_same [of d fonts i] same_queue_trans by (fastforce simp: create_missing_def)
qed (simp add: create_missing_def)

lemma sync_same: "same_queue d (sync_surfaces fonts order failing d)"
proof -
  have p: "same_queue d' (paint_if_needed fonts failing ids d')" for ids d'
    unfolding paint_if_needed_def by (rule fold_same) (rule paint_same)
  have r: "same_queue d' ((restack d')\<lparr> stack_dirty := b \<rparr>)" for d' b
    using restack_from_same [of d'] by (simp add: restack_def same_queue_def)
  let ?ids = "map nid (items (the_queue d))"
  obtain d1 added where d1: "create_missing fonts ?ids (d, False) = (d1, added)" by fastforce
  then have s1: "same_queue d d1" using create_missing_same [of d fonts ?ids False] by simp
  define stale where "stale = filter (\<lambda>i. i \<notin> set ?ids) (order (dom (surfaces d1)))"
  define d2 where "d2 = fold destroy_surface stale d1"
  have s2: "same_queue d1 d2" unfolding d2_def by (rule fold_same) (rule destroy_same)
  define d3 where "d3 = (if (added \<or> stale \<noteq> []) \<or> stack_dirty d2 then (restack d2)\<lparr> stack_dirty := False \<rparr> else d2)"
  have s3: "same_queue d2 d3" using r by (simp add: d3_def)
  have "sync_surfaces fonts order failing d = paint_if_needed fonts failing (order (dom (surfaces d3))) d3"
    unfolding sync_surfaces_def Let_def d1 case_prod_conv d3_def d2_def stale_def ..
  then show ?thesis using s1 s2 s3 p same_queue_trans by metis
qed

lemma same_queue_ids: "same_queue d d' \<Longrightarrow> ids_ok d' = ids_ok d"
  by (simp add: same_queue_def ids_ok_def live_ids_def)

definition is_a_call :: "occurrence \<Rightarrow> bool" where
  "is_a_call e = (case e of Call _ _ \<Rightarrow> True | _ \<Rightarrow> False)"

lemma dismiss_next: "next_id (the_queue (dismiss i why d)) = next_id (the_queue d)"
  by (auto simp: dismiss_def close_notification_id_def split: option.split prod.split)

lemma daemon_step_ids:
  assumes d: "ids_ok d" and n: "is_a_call e \<Longrightarrow> next_id (the_queue d) \<noteq> - 1"
  shows "ids_ok (daemon_step fonts order d e)"
    and "unat (next_id (the_queue (daemon_step fonts order d e))) \<le>
      unat (next_id (the_queue d)) + (if is_a_call e then 1 else 0)"
proof -
  have "ids_ok (daemon_step fonts order d e) \<and>
    unat (next_id (the_queue (daemon_step fonts order d e))) \<le> unat (next_id (the_queue d)) + (if is_a_call e then 1 else 0)"
  proof (cases e)
    case (Call call now)
    with call_ids [OF d, of call now] n show ?thesis by (simp add: daemon_step_def is_a_call_def)
  next
    case (TimerFired now)
    with expirations_ids [OF d, of now] show ?thesis
      by (simp add: daemon_step_def is_a_call_def) (simp add: handle_expirations_def drain_expired_def)
  next
    case (Configure i)
    with d show ?thesis
      by (auto simp: daemon_step_def is_a_call_def layer_event_def ids_ok_def live_ids_def split: option.split)
  next
    case (SurfaceClosed i)
    with dismiss_ids [OF d] show ?thesis by (simp add: daemon_step_def is_a_call_def layer_event_def dismiss_next)
  next
    case (ButtonPressed b)
    have "ids_ok (d'\<lparr> stack_dirty := x \<rparr>) = ids_ok d'" for d' x by (simp add: ids_ok_def live_ids_def)
    with ButtonPressed d dismiss_ids [OF d] show ?thesis
      by (auto simp: daemon_step_def is_a_call_def button_pressed_def dismiss_next split: option.split)
  next
    case (Capability b)
    with d show ?thesis
      by (auto simp: daemon_step_def is_a_call_def pointer_capability_def ids_ok_def live_ids_def)
  next
    case (Sync failing)
    with d same_queue_ids [OF sync_same] sync_same [of d fonts order failing] show ?thesis
      by (simp add: daemon_step_def is_a_call_def same_queue_def)
  qed (use d in \<open>simp_all add: daemon_step_def is_a_call_def ids_ok_def live_ids_def\<close>)
  then show "ids_ok (daemon_step fonts order d e)"
    "unat (next_id (the_queue (daemon_step fonts order d e))) \<le>
      unat (next_id (the_queue d)) + (if is_a_call e then 1 else 0)" by blast+
qed

lemma unat_max_u32: "unat (- 1 :: u32) = 2 ^ 32 - 1"
  by (simp add: unsigned_minus_1_eq_mask mask_eq_exp_minus_1)

lemma daemon_run_ids:
  "ids_ok d \<Longrightarrow> unat (next_id (the_queue d)) + length (filter is_a_call es) < 2 ^ 32 \<Longrightarrow>
    ids_ok (foldl (daemon_step fonts order) d es)"
proof (induction es arbitrary: d)
  case (Cons e es)
  have "next_id (the_queue d) \<noteq> - 1" if "is_a_call e"
    using Cons.prems(2) that unat_max_u32 by auto
  note st = daemon_step_ids [OF Cons.prems(1) this, where e = e]
  have "unat (next_id (the_queue (daemon_step fonts order d e))) + length (filter is_a_call es) < 2 ^ 32"
    using st(2) [of fonts order] Cons.prems(2) by (auto split: if_splits)
  from Cons.IH [OF st(1) this] show ?case by simp
qed simp

text \<open>C19. As long as fewer than \<open>2 ^ 32 - 1\<close> calls arrive, whatever is called, clicked, closed by the
  compositor or expires, in whatever order: the ids handed out, from 1 on, are each either shown or
  reported closed, never both, and each is reported closed at most once.\<close>

theorem notifications_close_exactly_once:
  assumes "length (filter is_a_call es) < 2 ^ 32 - 1"
  shows "let d = foldl (daemon_step fonts order) (daemon_new c) es in
    distinct (live_ids d @ map fst (sent d)) \<and>
    set (live_ids d) \<union> set (map fst (sent d)) = {0 <..< next_id (the_queue d)}"
proof -
  have "{0 <..< (1 :: u32)} = {}" by (auto simp: word_less_nat_alt)
  then have "ids_ok (daemon_new c)" by (simp add: ids_ok_def daemon_new_def queue_new_def live_ids_def)
  from daemon_run_ids [OF this, of es fonts order] assms show ?thesis
    by (simp add: ids_ok_def Let_def daemon_new_def queue_new_def)
qed

definition plain_notify :: dbus_call where
  "plain_notify = \<lparr> is_call = True, object = Some OBJECT_PATH, member = Some (literal ''Notify''), interface = None,
     notify_body = Inr \<lparr> raw_app_name = [], raw_replaces = 0, raw_app_icon = [], raw_summary = [65], raw_body = [],
       hints = Map.empty, raw_expire = 10 \<rparr>, close_body = Inl [] \<rparr>"

lemma notifications_close_exactly_once_witness:
  "let d = foldl (daemon_step (\<lambda>_. \<lparr> advance = (\<lambda>_. 1), new_line_size = None \<rparr>) (\<lambda>_. [])) (daemon_new default_config)
      [Call plain_notify 0, Call plain_notify 0, TimerFired 10000000] in
    distinct (live_ids d @ map fst (sent d)) \<and>
    set (live_ids d) \<union> set (map fst (sent d)) = {0 <..< next_id (the_queue d)}"
  by (rule notifications_close_exactly_once) (simp add: is_a_call_def)

section \<open>Expiry\<close>

lemma next_expiry_None: "next_expiry q = None \<longleftrightarrow> (\<forall>n \<in> set (items q). expires_at n = None)"
  by (auto simp: next_expiry_def Let_def map_filter_def filter_empty_conv)

lemma next_expiry_Some:
  assumes "next_expiry q = Some t"
  shows "(\<exists>n \<in> set (items q). expires_at n = Some t) \<and> (\<forall>n \<in> set (items q). \<forall>t'. expires_at n = Some t' \<longrightarrow> t \<le> t')"
proof -
  let ?ts = "List.map_filter expires_at (items q)"
  have ne: "?ts \<noteq> []" and t: "t = Min (set ?ts)" using assms by (auto simp: next_expiry_def Let_def split: if_splits)
  have s: "set ?ts = {t. \<exists>n \<in> set (items q). expires_at n = Some t}" by (force simp: map_filter_def)
  have "t \<in> set ?ts" using ne t by simp
  moreover have "t \<le> t'" if "t' \<in> set ?ts" for t' using that t by simp
  ultimately show ?thesis unfolding s by blast
qed

text \<open>After each turn of the loop the timer is off exactly when nothing expires; otherwise it is set,
  never to zero which would disarm it, so that when it fires something is due, nothing was due before the
  earliest expiry, and closing what is due leaves only what is not.\<close>

theorem expiry_timer_is_right:
  "(rearm_timerfd (next_expiry q) now = None \<longleftrightarrow> list_all (\<lambda>n. expires_at n = None) (items q)) \<and>
   (rearm_timerfd (next_expiry q) now = None \<or>
    (\<exists>k. 0 < k \<and> rearm_timerfd (next_expiry q) now = Some k \<and>
      (\<forall>t. (fst (drain_expired t q) = []) = (t < the (next_expiry q))) \<and>
      the (next_expiry q) \<le> now + k \<and> (k = 1 \<or> now + k = the (next_expiry q)) \<and>
      filter (is_due (now + k)) (items (snd (drain_expired (now + k) q))) = []))"
proof (cases "next_expiry q")
  case None
  then have "\<forall>n \<in> set (items q). expires_at n = None" by (simp add: next_expiry_None)
  then show ?thesis by (simp add: rearm_timerfd_def None list_all_iff)
next
  case (Some t0)
  note n = next_expiry_Some [OF Some]
  have "(fst (drain_expired t q) = []) = (t < t0)" for t
    using n by (force simp: drain_expired_def filter_empty_conv is_due_def split: option.split)
  moreover have "filter (is_due (now + k)) (items (snd (drain_expired (now + k) q))) = []" for k
    by (simp add: drain_expired_def filter_empty_conv)
  ultimately show ?thesis using Some n by (auto simp: rearm_timerfd_def Let_def list_all_iff)
qed

text \<open>What is critical, or was sent with a timeout of zero, never expires.\<close>

lemma never_expires:
  "compute_expiry u e def now = None \<longleftrightarrow> u = Critical \<or> e = 0"
  by (simp add: compute_expiry_def Let_def)


section \<open>The stack on the screen\<close>

definition enumerates :: "(u32 set \<Rightarrow> u32 list) \<Rightarrow> bool" where
  "enumerates order \<longleftrightarrow> (\<forall>S. set (order S) = S)"

fun stacked_from :: "daemon \<Rightarrow> nat \<Rightarrow> notification list \<Rightarrow> bool" where
  "stacked_from d off [] = True"
| "stacked_from d off (n # ns) = (case surfaces d (nid n) of
     None \<Rightarrow> stacked_from d off ns
   | Some s \<Rightarrow> stack_offset s = off \<and> stacked_from d (off + (snd (requested_size s) + unat (gap (cfg d)))) ns)"

definition stacked :: "daemon \<Rightarrow> bool" where
  "stacked d \<longleftrightarrow> stacked_from d (unat (gap (cfg d))) (items (the_queue d))"

text \<open>What a surface is for the stack: whether it is there, how high it is and where.\<close>

definition slot :: "daemon \<Rightarrow> u32 \<Rightarrow> (nat \<times> nat) option" where
  "slot d i = map_option (\<lambda>s. (snd (requested_size s), stack_offset s)) (surfaces d i)"

lemma stacked_cong:
  assumes "\<And>n. n \<in> set ns \<Longrightarrow> slot d' (nid n) = slot d (nid n)" "cfg d' = cfg d"
  shows "stacked_from d' off ns = stacked_from d off ns"
  using assms(1)
proof (induction ns arbitrary: off)
  case (Cons n ns)
  then have n: "slot d' (nid n) = slot d (nid n)" by simp
  have ns: "stacked_from d' off ns = stacked_from d off ns" for off using Cons by simp
  show ?case using n assms(2) unfolding stacked_from.simps ns slot_def
    by (cases "surfaces d (nid n)"; cases "surfaces d' (nid n)") auto
qed simp

lemma stacked_skip:
  "stacked_from d off (filter (\<lambda>n. surfaces d (nid n) \<noteq> None) ns) = stacked_from d off ns"
  by (induction ns arbitrary: off) (auto split: option.split)

lemma stacked_nids:
  "map nid ns = map nid ms \<Longrightarrow> stacked_from d off ns = stacked_from d off ms"
proof (induction ns arbitrary: ms off)
  case (Cons n ns)
  then obtain m ms' where "ms = m # ms'" "nid m = nid n" "map nid ns = map nid ms'" by auto
  with Cons.IH show ?case by (auto split: option.split)
qed simp

lemma restack_from_frame:
  "i \<notin> nid ` set ns \<Longrightarrow> surfaces (restack_from off ns d) i = surfaces d i"
proof (induction ns arbitrary: off d)
  case (Cons n ns)
  then show ?case by (cases "surfaces d (nid n)") auto
qed simp

lemma restack_from_dom: "dom (surfaces (restack_from off ns d)) = dom (surfaces d)"
proof (induction ns arbitrary: off d)
  case (Cons n ns)
  then show ?case by (cases "surfaces d (nid n)") (auto simp: dom_def split: if_splits)
qed simp

lemma restack_from_stacked:
  "distinct (map nid ns) \<Longrightarrow> stacked_from (restack_from off ns d) off ns"
proof (induction ns arbitrary: off d)
  case (Cons n ns)
  show ?case
  proof (cases "surfaces d (nid n)")
    case None
    with Cons show ?thesis by (simp add: restack_from_frame)
  next
    case (Some s)
    define d' where "d' = (if stack_offset s \<noteq> off
      then d\<lparr> surfaces := (surfaces d)(nid n \<mapsto> s\<lparr> stack_offset := off \<rparr>),
        margins := margins d @ [(wl_surface s, margin_for (corner (cfg d)) off (unat (gap (cfg d))))] \<rparr> else d)"
    let ?r = "restack_from (off + (snd (requested_size s) + unat (gap (cfg d)))) ns d'"
    have r: "restack_from off (n # ns) d = ?r" by (simp add: Some d'_def)
    have "surfaces ?r (nid n) = surfaces d' (nid n)" using Cons.prems by (intro restack_from_frame) auto
    also have "\<dots> = Some (s\<lparr> stack_offset := off \<rparr>)" using Some by (auto simp: d'_def)
    finally have f: "surfaces ?r (nid n) = Some (s\<lparr> stack_offset := off \<rparr>)" .
    have "cfg ?r = cfg d" using restack_from_same [of d' _ ns] by (simp add: same_queue_def d'_def)
    with f Cons show ?thesis unfolding r by simp
  qed
qed simp

lemma create_slot:
  "j \<noteq> i \<Longrightarrow> slot (create_surface_for fonts i d) j = slot d j"
  "dom (surfaces (create_surface_for fonts i d)) \<subseteq> insert i (dom (surfaces d))"
  "i \<in> nid ` set (items (the_queue d)) \<Longrightarrow> i \<in> dom (surfaces (create_surface_for fonts i d))"
  "dom (surfaces d) \<subseteq> dom (surfaces (create_surface_for fonts i d))"
  "stack_dirty (create_surface_for fonts i d) = stack_dirty d"
  by (auto simp: create_surface_for_def slot_def Let_def get_notification_def find_None_iff split: option.splits)

lemma create_missing_spec:
  assumes "create_missing fonts ids (d, r) = (d1, added)" "set ids \<subseteq> nid ` set (items (the_queue d))"
  shows "dom (surfaces d1) = dom (surfaces d) \<union> set ids \<and> (added \<longleftrightarrow> r \<or> \<not> set ids \<subseteq> dom (surfaces d)) \<and>
    stack_dirty d1 = stack_dirty d \<and> (\<not> added \<longrightarrow> d1 = d)"
  using assms
proof (induction ids arbitrary: d r)
  case Nil
  then show ?case by (simp add: create_missing_def)
next
  case (Cons i ids)
  show ?case
  proof (cases "surfaces d i")
    case None
    let ?d = "create_surface_for fonts i d"
    have "the_queue ?d = the_queue d" using create_same [of d fonts i] by (simp add: same_queue_def)
    moreover have "create_missing fonts ids (?d, True) = (d1, added)"
      using Cons.prems(1) None by (simp add: create_missing_def)
    moreover have "dom (surfaces ?d) = insert i (dom (surfaces d))"
      using create_slot(2) [of fonts i d] create_slot(4) [of d fonts i] create_slot(3) [of i d fonts] Cons.prems(2) by auto
    ultimately show ?thesis
      using Cons.IH [of ?d True] Cons.prems(2) None create_slot(5) [of fonts i d] by auto
  next
    case (Some s)
    then have "create_missing fonts ids (d, r) = (d1, added)" "i \<in> dom (surfaces d)"
      using Cons.prems(1) by (auto simp: create_missing_def)
    then show ?thesis using Cons.IH [of d r] Cons.prems(2) by auto
  qed
qed

lemma destroy_spec:
  "dom (surfaces (fold destroy_surface is d)) = dom (surfaces d) - set is"
  "stack_dirty (fold destroy_surface is d) = stack_dirty d"
proof -
  have "dom (surfaces (destroy_surface i d)) = dom (surfaces d) - {i}" "stack_dirty (destroy_surface i d) = stack_dirty d" for i d
    by (auto simp: destroy_surface_def split: option.split)
  then show "dom (surfaces (fold destroy_surface is d)) = dom (surfaces d) - set is"
    "stack_dirty (fold destroy_surface is d) = stack_dirty d"
    by (induction "is" arbitrary: d) auto
qed

lemma paint_slot:
  "slot (paint_one fonts failing i d) j = slot d j"
  "dom (surfaces (paint_one fonts failing i d)) = dom (surfaces d)"
  "stack_dirty (paint_one fonts failing i d) = stack_dirty d"
  "i \<notin> failing \<Longrightarrow> \<not> needs_paint i (paint_one fonts failing i d)"
  "\<not> needs_paint j d \<Longrightarrow> \<not> needs_paint j (paint_one fonts failing i d)"
  by (auto simp: paint_one_def paint_def slot_def needs_paint_def split: option.splits)

lemma paint_all_spec:
  "slot (paint_if_needed fonts failing is d) j = slot d j" (is ?a)
  "dom (surfaces (paint_if_needed fonts failing is d)) = dom (surfaces d)" (is ?b)
  "stack_dirty (paint_if_needed fonts failing is d) = stack_dirty d" (is ?c)
  "i \<notin> failing \<Longrightarrow> i \<in> set is \<or> \<not> needs_paint i d \<Longrightarrow> \<not> needs_paint i (paint_if_needed fonts failing is d)"
  "\<forall>i \<in> set is. \<not> needs_paint i d \<Longrightarrow> paint_if_needed fonts failing is d = d"
proof -
  have "?a \<and> ?b \<and> ?c" by (induction "is" arbitrary: d) (simp_all add: paint_if_needed_def paint_slot)
  then show ?a ?b ?c by blast+
  show "i \<in> set is \<or> \<not> needs_paint i d \<Longrightarrow> \<not> needs_paint i (paint_if_needed fonts failing is d)"
    if "i \<notin> failing" using that
  proof (induction "is" arbitrary: d)
    case (Cons k "is")
    let ?d = "paint_one fonts failing k d"
    have "i \<in> set is \<or> \<not> needs_paint i ?d" using Cons.prems paint_slot(4,5) by auto
    from Cons.IH [OF this Cons.prems(2)] show ?case by (simp add: paint_if_needed_def)
  qed (simp add: paint_if_needed_def)
  show "\<forall>i \<in> set is. \<not> needs_paint i d \<Longrightarrow> paint_if_needed fonts failing is d = d"
    by (induction "is" arbitrary: d) (simp_all add: paint_if_needed_def paint_one_def)
qed


text \<open>One pass brings the surfaces in step, and a second pass finds nothing to do.\<close>

lemma sync_spec:
  assumes order: "enumerates order" and d': "d' = sync_surfaces fonts order failing d"
  shows "dom (surfaces d') = nid ` set (items (the_queue d))" and "\<not> stack_dirty d'"
    and "\<And>i. i \<notin> failing \<Longrightarrow> \<not> needs_paint i d'"
    and "distinct (live_ids d) \<Longrightarrow> stacked d' \<or> \<not> stack_dirty d \<and> dom (surfaces d) = nid ` set (items (the_queue d)) \<and>
      (\<forall>i. slot d' i = slot d i)"
proof -
  let ?ids = "map nid (items (the_queue d))"
  obtain d1 added where d1: "create_missing fonts ?ids (d, False) = (d1, added)" by fastforce
  have cm: "dom (surfaces d1) = dom (surfaces d) \<union> set ?ids" "added \<longleftrightarrow> \<not> set ?ids \<subseteq> dom (surfaces d)"
    "stack_dirty d1 = stack_dirty d" "\<not> added \<Longrightarrow> d1 = d"
    using create_missing_spec [OF d1] by auto
  define stale where "stale = filter (\<lambda>i. i \<notin> set ?ids) (order (dom (surfaces d1)))"
  define d2 where "d2 = fold destroy_surface stale d1"
  define d3 where "d3 = (if (added \<or> stale \<noteq> []) \<or> stack_dirty d2 then (restack d2)\<lparr> stack_dirty := False \<rparr> else d2)"
  have st: "set stale = dom (surfaces d) - set ?ids" using order cm(1) by (auto simp: stale_def enumerates_def)
  have ds: "dom (surfaces d2) = set ?ids" "stack_dirty d2 = stack_dirty d"
    using destroy_spec [of stale d1] st cm by (auto simp: d2_def)
  have q: "same_queue d d2" using create_missing_same [of d fonts ?ids False] fold_same [of destroy_surface, OF destroy_same]
    same_queue_trans by (metis d1 d2_def fst_conv)
  have d3: "dom (surfaces d3) = set ?ids" "\<not> stack_dirty d3"
    using ds restack_from_dom [of _ _ d2] by (auto simp: d3_def restack_def)
  have sy: "d' = paint_if_needed fonts failing (order (dom (surfaces d3))) d3"
    unfolding d' sync_surfaces_def Let_def d1 case_prod_conv d3_def d2_def stale_def ..
  show "dom (surfaces d') = nid ` set (items (the_queue d))" "\<not> stack_dirty d'"
    using d3 by (simp_all add: sy paint_all_spec)
  show "\<not> needs_paint i d'" if "i \<notin> failing" for i
  proof -
    have "i \<in> set (order (dom (surfaces d3))) \<or> \<not> needs_paint i d3"
      using order by (auto simp: enumerates_def needs_paint_def split: option.splits)
    with that show ?thesis unfolding sy by (intro paint_all_spec(4))
  qed
  have sl: "slot d' i = slot d3 i" for i by (simp add: sy paint_all_spec)
  have qd: "same_queue d d'" unfolding d' by (rule sync_same)
  show "stacked d' \<or> \<not> stack_dirty d \<and> dom (surfaces d) = nid ` set (items (the_queue d)) \<and> (\<forall>i. slot d' i = slot d i)"
    if "distinct (live_ids d)"
  proof (cases "(added \<or> stale \<noteq> []) \<or> stack_dirty d2")
    case True
    then have "surfaces d3 = surfaces (restack d2)" "the_queue d2 = the_queue d" "cfg d3 = cfg d"
      using q restack_from_same [of d2] by (auto simp: d3_def same_queue_def restack_def)
    moreover have "stacked_from (restack d2) (unat (gap (cfg d2))) (items (the_queue d2))"
      using that q unfolding restack_def by (intro restack_from_stacked) (simp add: live_ids_def same_queue_def)
    moreover have "cfg (restack d2) = cfg d" "cfg d2 = cfg d" "cfg d' = cfg d" "the_queue d' = the_queue d"
      using q qd restack_from_same [of d2] by (auto simp: same_queue_def restack_def)
    ultimately have "stacked d'"
      using stacked_cong [of "items (the_queue d)" d' "restack d2"] sl by (auto simp: stacked_def slot_def)
    then show ?thesis ..
  next
    case False
    then have "d1 = d" "stale = []" "d2 = d" "d3 = d" using cm(4) by (auto simp: d2_def d3_def)
    then show ?thesis using False cm(2) st sl by auto
  qed
qed

lemma sync_settled:
  assumes "enumerates order" "dom (surfaces d) = nid ` set (items (the_queue d))" "\<not> stack_dirty d"
    "\<And>i. \<not> needs_paint i d"
  shows "sync_surfaces fonts order failing d = d"
proof -
  let ?ids = "map nid (items (the_queue d))"
  obtain d1 added where d1: "create_missing fonts ?ids (d, False) = (d1, added)" by fastforce
  have "\<not> added" "d1 = d" using create_missing_spec [OF d1] assms(2) by auto
  moreover have "filter (\<lambda>i. i \<notin> set ?ids) (order (dom (surfaces d))) = []"
    using assms(1,2) by (auto simp: enumerates_def filter_empty_conv)
  ultimately have "sync_surfaces fonts order failing d = paint_if_needed fonts failing (order (dom (surfaces d))) d"
    using assms(3) by (simp add: sync_surfaces_def d1 Let_def del: set_map)
  then show ?thesis using assms(4) by (simp add: paint_all_spec(5))
qed

lemma enumerates_sorted: "enumerates sorted_list_of_set"
  by (simp add: enumerates_def)

section \<open>The stack through a run\<close>

definition stack_ok :: "daemon \<Rightarrow> bool" where
  "stack_ok d \<longleftrightarrow> dom (surfaces d) \<subseteq> {0 <..< next_id (the_queue d)} \<and>
     (dom (surfaces d) \<subseteq> set (live_ids d) \<longrightarrow> stacked d)"

lemma map_nid_filter: "map nid (filter (\<lambda>n. Q (nid n)) ns) = filter Q (map nid ns)"
  by (induction ns) auto

text \<open>A change of the queue that only drops notifications, or adds one with a fresh id.\<close>

lemma stack_ok_shrink:
  assumes ok: "stack_ok d" and d: "surfaces d' = surfaces d" "cfg d' = cfg d"
    "next_id (the_queue d') = next_id (the_queue d)"
    "map nid (items (the_queue d')) = filter P (map nid (items (the_queue d)))"
  shows "stack_ok d'"
proof -
  have "stacked d'" if sub: "dom (surfaces d) \<subseteq> set (live_ids d')"
  proof -
    have "dom (surfaces d) \<subseteq> set (live_ids d)" using sub d(4) by (auto simp: live_ids_def simp del: filter_map)
    with ok have st: "stacked d" by (simp add: stack_ok_def)
    let ?has = "\<lambda>n. surfaces d (nid n) \<noteq> None"
    have "P i" if "surfaces d i \<noteq> None" for i
      using sub that d(4) by (auto simp: live_ids_def simp del: filter_map)
    then have "filter (\<lambda>i. surfaces d i \<noteq> None) (filter P (map nid (items (the_queue d)))) =
        filter (\<lambda>i. surfaces d i \<noteq> None) (map nid (items (the_queue d)))"
      by (auto intro: filter_cong simp del: filter_map)
    then have "map nid (filter ?has (items (the_queue d'))) = map nid (filter ?has (items (the_queue d)))"
      unfolding map_nid_filter [where Q = "\<lambda>i. surfaces d i \<noteq> None"] d(4) .
    from stacked_nids [OF this, of d "unat (gap (cfg d))"] st
    have "stacked_from d (unat (gap (cfg d))) (items (the_queue d'))"
      unfolding stacked_def stacked_skip by simp
    then show ?thesis
      using stacked_cong [of "items (the_queue d')" d' d] d(1,2) by (simp add: stacked_def slot_def)
  qed
  with ok d show ?thesis by (simp add: stack_ok_def)
qed

lemma stacked_from_append:
  "(\<And>m. m \<in> set ms \<Longrightarrow> surfaces d (nid m) = None) \<Longrightarrow> stacked_from d off (ns @ ms) = stacked_from d off ns"
proof (induction ns arbitrary: off)
  case Nil
  then show ?case by (induction ms) auto
next
  case (Cons n ns)
  then show ?case by (auto split: option.split)
qed

lemma stack_ok_grow:
  assumes ok: "stack_ok d" and n: "next_id (the_queue d) \<noteq> - 1"
    and d: "surfaces d' = surfaces d" "cfg d' = cfg d" "next_id (the_queue d') = next_id (the_queue d) + 1"
    "map nid (items (the_queue d')) = map nid (items (the_queue d)) @ [next_id (the_queue d)]"
  shows "stack_ok d'"
proof -
  let ?k = "next_id (the_queue d)"
  have new: "surfaces d ?k = None" using ok by (auto simp: stack_ok_def)
  let ?q = "items (the_queue d')"
  have "?q \<noteq> []" using d(4) by auto
  then have q1: "?q = butlast ?q @ [last ?q]" by simp
  have "map nid (butlast ?q) @ [nid (last ?q)] = map nid (items (the_queue d)) @ [?k]"
    using d(4) q1 by (metis list.simps(8,9) map_append)
  then obtain ns m where q: "?q = ns @ [m]" "map nid ns = map nid (items (the_queue d))" "nid m = ?k"
    using q1 by blast
  have "stacked d'" if "dom (surfaces d) \<subseteq> set (live_ids d')"
  proof -
    have "set (live_ids d') = insert ?k (set (live_ids d))" using d(4) by (simp add: live_ids_def del: set_map)
    then have "dom (surfaces d) \<subseteq> set (live_ids d)" using that new by auto
    with ok have "stacked d" by (simp add: stack_ok_def)
    then have "stacked_from d (unat (gap (cfg d))) ns" using stacked_nids [OF q(2)] by (simp add: stacked_def)
    then have "stacked_from d (unat (gap (cfg d))) (ns @ [m])"
      using stacked_from_append [of "[m]" d _ ns] q(3) new by simp
    then show ?thesis
      using stacked_cong [of "items (the_queue d')" d' d] d(1,2) q(1) by (simp add: stacked_def slot_def)
  qed
  moreover have "dom (surfaces d) \<subseteq> {0 <..< ?k + 1}"
    using ok n by (auto simp: stack_ok_def less_word_add_1)
  ultimately show ?thesis using d by (simp add: stack_ok_def)
qed


lemma stack_ok_same_ids:
  assumes "stack_ok d" "\<And>i. slot d' i = slot d i" "cfg d' = cfg d" "next_id (the_queue d') = next_id (the_queue d)"
    "map nid (items (the_queue d')) = map nid (items (the_queue d))"
  shows "stack_ok d'"
proof -
  have dom: "dom (surfaces d') = dom (surfaces d)" using assms(2) by (auto simp: slot_def dom_def) (metis map_option_is_None not_None_eq)+
  have "stacked d' = stacked d"
    using stacked_cong [of "items (the_queue d')" d' d] stacked_nids [OF assms(5)] assms(2,3)
    by (simp add: stacked_def)
  with assms(1,4,5) dom show ?thesis by (simp add: stack_ok_def live_ids_def del: set_map)
qed

lemma dismiss_stack_ok: "ids_ok d \<Longrightarrow> stack_ok d \<Longrightarrow> stack_ok (dismiss i why d)"
proof -
  assume d: "ids_ok d" "stack_ok d"
  obtain r q' where c: "close_notification_id i (the_queue d) = (r, q')" by fastforce
  have "distinct (map nid (items (the_queue d)))" using d(1) by (simp add: ids_ok_def live_ids_def)
  note cl = close_id_ids [OF c this]
  show "stack_ok (dismiss i why d)"
  proof (cases r)
    case True
    show ?thesis
      by (rule stack_ok_shrink [OF d(2), where P = "\<lambda>j. j \<noteq> i"]) (use True cl in \<open>simp_all add: dismiss_def c del: filter_map\<close>)
  next
    case False
    with d show ?thesis by (simp add: dismiss_def c)
  qed
qed

lemma filter_by_id:
  assumes "distinct (map nid ns)"
  shows "map nid (filter Q ns) = filter (\<lambda>i. \<forall>n \<in> set ns. nid n = i \<longrightarrow> Q n) (map nid ns)"
  using assms
proof (induction ns)
  case (Cons n ns)
  define R where "R = (\<lambda>i. \<forall>m \<in> set (n # ns). nid m = i \<longrightarrow> Q m)"
  have "filter R (map nid ns) = filter (\<lambda>i. \<forall>m \<in> set ns. nid m = i \<longrightarrow> Q m) (map nid ns)"
    using Cons.prems by (intro filter_cong) (auto simp: R_def)
  moreover have "R (nid n) = Q n" using Cons.prems by (auto simp: R_def) (metis image_eqI)
  ultimately have "map nid (filter Q (n # ns)) = filter R (map nid (n # ns))"
    using Cons by (simp del: filter_map)
  then show ?case by (simp only: R_def)
qed simp

lemma expirations_stack_ok:
  assumes "ids_ok d" "stack_ok d"
  shows "stack_ok (handle_expirations now d)"
proof (rule stack_ok_shrink [OF assms(2)])
  have "distinct (map nid (items (the_queue d)))" using assms(1) by (simp add: ids_ok_def live_ids_def)
  from filter_by_id [OF this, of "\<lambda>n. \<not> is_due now n"]
  show "map nid (items (the_queue (handle_expirations now d))) =
      filter (\<lambda>i. \<forall>n \<in> set (items (the_queue d)). nid n = i \<longrightarrow> \<not> is_due now n) (map nid (items (the_queue d)))"
    by (simp add: handle_expirations_def drain_expired_def del: filter_map)
qed (simp_all add: handle_expirations_def drain_expired_def)

lemma call_stack_ok:
  assumes d: "ids_ok d" "stack_ok d" and n: "next_id (the_queue d) \<noteq> - 1"
  shows "stack_ok (snd (dispatch_call call now d))"
proof -
  obtain r sg q' where disp: "dispatch call (default_timeout_ms (cfg d)) now (the_queue d) = (r, sg, q')"
    by (metis prod_cases3)
  let ?d = "d\<lparr> the_queue := q', sent := sent d @ sg \<rparr>"
  have e: "snd (dispatch_call call now d) = ?d" by (simp add: dispatch_call_def disp)
  from disp consider "q' = the_queue d"
    | args i where "notify_queue args (default_timeout_ms (cfg d)) now (the_queue d) = (i, q')"
    | i rm where "close_notification_id i (the_queue d) = (rm, q')"
    by (auto simp: dispatch_def dbus_notify_def dbus_close_def Let_def split: option.splits sum.splits prod.splits if_splits)
  then have "stack_ok ?d"
  proof cases
    case 1
    show ?thesis by (rule stack_ok_same_ids [OF d(2)]) (simp_all add: 1 slot_def)
  next
    case 2
    have "next_id (the_queue d) \<noteq> 0" using d by (simp add: ids_ok_def)
    from notify_queue_ids [OF 2 n this] show ?thesis
    proof
      assume "i \<in> set (map nid (items (the_queue d))) \<and> map nid (items q') = map nid (items (the_queue d)) \<and>
        next_id q' = next_id (the_queue d)"
      then show ?thesis by (intro stack_ok_same_ids [OF d(2)]) (simp_all add: slot_def)
    qed (intro stack_ok_grow [OF d(2) n], simp_all)
  next
    case 3
    have "distinct (map nid (items (the_queue d)))" using d by (simp add: ids_ok_def live_ids_def)
    note cl = close_id_ids [OF 3 this]
    show ?thesis
    proof (cases rm)
      case True
      with cl show ?thesis by (intro stack_ok_shrink [OF d(2), where P = "\<lambda>j. j \<noteq> i"]) (simp_all del: filter_map)
    next
      case False
      with cl show ?thesis by (intro stack_ok_same_ids [OF d(2)]) (simp_all add: slot_def)
    qed
  qed
  then show ?thesis by (simp add: e)
qed

lemma sync_stack_ok:
  assumes "enumerates order" "ids_ok d" "stack_ok d"
  shows "stack_ok (sync_surfaces fonts order failing d)" "stacked (sync_surfaces fonts order failing d)"
proof -
  let ?d = "sync_surfaces fonts order failing d"
  note sp = sync_spec [OF assms(1) refl, where fonts = fonts and d = d and failing = failing]
  have q: "the_queue ?d = the_queue d" "cfg ?d = cfg d" using sync_same [of d fonts order failing] by (simp_all add: same_queue_def)
  have "distinct (live_ids d)" using assms(2) by (simp add: ids_ok_def)
  from sp(4) [OF this] show st: "stacked ?d"
  proof
    assume *: "\<not> stack_dirty d \<and> dom (surfaces d) = nid ` set (items (the_queue d)) \<and> (\<forall>i. slot ?d i = slot d i)"
    then have "stacked d" using assms(3) by (simp add: stack_ok_def live_ids_def)
    then show "stacked ?d" using stacked_cong [of "items (the_queue ?d)" ?d d] * q by (simp add: stacked_def)
  qed
  have "dom (surfaces ?d) \<subseteq> {0 <..< next_id (the_queue d)}"
    using sp(1) assms(2) by (auto simp: ids_ok_def live_ids_def)
  with st q show "stack_ok ?d" by (simp add: stack_ok_def)
qed

lemma daemon_step_stack_ok:
  assumes "enumerates order" and d: "ids_ok d" "stack_ok d" and n: "is_a_call e \<Longrightarrow> next_id (the_queue d) \<noteq> - 1"
  shows "stack_ok (daemon_step fonts order d e)"
proof (cases e)
  case (Call call now)
  with call_stack_ok [OF d] n show ?thesis by (simp add: daemon_step_def is_a_call_def)
next
  case (TimerFired now)
  with expirations_stack_ok [OF d] show ?thesis by (simp add: daemon_step_def)
next
  case (Configure i)
  have "stack_ok (layer_event i False d)"
    by (rule stack_ok_same_ids [OF d(2)]) (auto simp: layer_event_def slot_def split: option.split)
  with Configure show ?thesis by (simp add: daemon_step_def)
next
  case (SurfaceClosed i)
  with dismiss_stack_ok [OF d] show ?thesis by (simp add: daemon_step_def layer_event_def)
next
  case (ButtonPressed b)
  have "stack_ok (d'\<lparr> stack_dirty := x \<rparr>)" if "stack_ok d'" for d' x
    by (rule stack_ok_same_ids [OF that]) (simp_all add: slot_def)
  with ButtonPressed d dismiss_stack_ok [OF d] show ?thesis
    by (auto simp: daemon_step_def button_pressed_def split: option.split)
next
  case (Capability b)
  have "stack_ok (pointer_capability b d)"
    by (rule stack_ok_same_ids [OF d(2)]) (simp_all add: pointer_capability_def slot_def)
  with Capability show ?thesis by (simp add: daemon_step_def)
next
  case (Sync failing)
  with sync_stack_ok [OF assms(1) d] show ?thesis by (simp add: daemon_step_def)
next
  case (Enter obj)
  show ?thesis unfolding Enter by (rule stack_ok_same_ids [OF d(2)]) (simp_all add: daemon_step_def slot_def)
next
  case Leave
  show ?thesis unfolding Leave by (rule stack_ok_same_ids [OF d(2)]) (simp_all add: daemon_step_def slot_def)
qed

lemma daemon_run_stack_ok:
  assumes "enumerates order"
  shows "ids_ok d \<Longrightarrow> stack_ok d \<Longrightarrow> unat (next_id (the_queue d)) + length (filter is_a_call es) < 2 ^ 32 \<Longrightarrow>
    stack_ok (foldl (daemon_step fonts order) d es) \<and> ids_ok (foldl (daemon_step fonts order) d es)"
proof (induction es arbitrary: d)
  case (Cons e es)
  have n: "next_id (the_queue d) \<noteq> - 1" if "is_a_call e"
    using Cons.prems(3) that unat_max_u32 by auto
  note st = daemon_step_ids [OF Cons.prems(1) n, where e = e]
  have "unat (next_id (the_queue (daemon_step fonts order d e))) + length (filter is_a_call es) < 2 ^ 32"
    using st(2) [of fonts order] Cons.prems(3) by (auto split: if_splits)
  from Cons.IH [OF st(1) daemon_step_stack_ok [OF assms Cons.prems(1,2) n] this] show ?case by simp
qed simp

text \<open>In a stack nothing overlaps: each surface starts past the end of those before it, with a gap.\<close>

lemma stacked_from_bound:
  "stacked_from d off ns \<Longrightarrow> m \<in> set ns \<Longrightarrow> surfaces d (nid m) = Some s \<Longrightarrow> off \<le> stack_offset s"
proof (induction ns arbitrary: off)
  case (Cons n ns)
  then show ?case by (cases "surfaces d (nid n)") (auto dest: add_leD1)
qed simp

lemma stacked_apart:
  assumes "stacked_from d off ns" "i < j" "j < length ns"
    "surfaces d (nid (ns ! i)) = Some s" "surfaces d (nid (ns ! j)) = Some t"
  shows "stack_offset s + snd (requested_size s) + unat (gap (cfg d)) \<le> stack_offset t"
  using assms
proof (induction ns arbitrary: off i j)
  case (Cons n ns)
  obtain j' where j: "j = Suc j'" using Cons.prems(2) by (cases j) auto
  show ?case
  proof (cases i)
    case 0
    with Cons.prems j show ?thesis
      using stacked_from_bound [of d _ ns "ns ! j'" t] by (auto simp: add.assoc)
  next
    case (Suc i')
    obtain off' where "stacked_from d off' ns" using Cons.prems(1) by (cases "surfaces d (nid n)") auto
    from Cons.IH [OF this, of i' j'] Cons.prems Suc j show ?thesis by simp
  qed
qed simp

section \<open>What the surfaces show\<close>

abbreviation height_of :: "(rat \<Rightarrow> font) \<Rightarrow> config \<Rightarrow> notification \<Rightarrow> nat" where
  "height_of fonts c n \<equiv> layout_height (drawn (picture_of fonts c n))"

text \<open>
  A surface next to its notification: nothing has been drawn yet, or a picture of a revision up to
  the notification's, and then of what the notification says if it is its revision. With \<open>lev\<close> also: the
  surface was made as high as the notification is now, and whatever was drawn is as high.
\<close>

definition tracked :: "bool \<Rightarrow> (rat \<Rightarrow> font) \<Rightarrow> daemon \<Rightarrow> notification \<Rightarrow> notify_surface \<Rightarrow> bool" where
  "tracked lev fonts d n s \<longleftrightarrow>
    (case drawn_revision s of
       None \<Rightarrow> painted d (wl_surface s) = None
     | Some r \<Rightarrow> r \<le> revision n \<and> (\<exists>p. painted d (wl_surface s) = Some p \<and>
         (r = revision n \<longrightarrow> p = picture_of fonts (cfg d) n))) \<and>
    (lev \<longrightarrow> snd (requested_size s) = height_of fonts (cfg d) n \<and>
       (\<forall>p. painted d (wl_surface s) = Some p \<longrightarrow> layout_height (drawn p) = height_of fonts (cfg d) n))"

definition objects_ok :: "daemon \<Rightarrow> bool" where
  "objects_ok d \<longleftrightarrow> (\<forall>obj \<in> dom (painted d). obj < next_object d) \<and>
     (\<forall>i s. surfaces d i = Some s \<longrightarrow> wl_surface s < next_object d \<and>
        (\<forall>j t. surfaces d j = Some t \<longrightarrow> wl_surface t = wl_surface s \<longrightarrow> j = i))"

definition painted_ok :: "bool \<Rightarrow> (rat \<Rightarrow> font) \<Rightarrow> daemon \<Rightarrow> bool" where
  "painted_ok lev fonts d \<longleftrightarrow> objects_ok d \<and>
     (\<forall>n \<in> set (items (the_queue d)). \<forall>s. surfaces d (nid n) = Some s \<longrightarrow> tracked lev fonts d n s)"

definition core :: "notify_surface \<Rightarrow> nat \<times> (nat \<times> nat) \<times> u64 option" where
  "core s = (wl_surface s, requested_size s, drawn_revision s)"

lemma tracked_cong:
  "core t = core s \<Longrightarrow> painted d' (wl_surface s) = painted d (wl_surface s) \<Longrightarrow> cfg d' = cfg d \<Longrightarrow>
   tracked lev fonts d' n t = tracked lev fonts d n s"
  by (auto simp: tracked_def core_def split: option.split)

lemma painted_ok_same:
  assumes ok: "painted_ok lev fonts d" and c: "\<And>i. map_option core (surfaces d' i) = map_option core (surfaces d i)"
    and d: "painted d' = painted d" "next_object d' = next_object d" "cfg d' = cfg d"
    and q: "set (items (the_queue d')) \<subseteq> set (items (the_queue d))"
  shows "painted_ok lev fonts d'"
proof -
  have s: "\<exists>t. surfaces d i = Some t \<and> core t = core s" if "surfaces d' i = Some s" for i s
    using c [of i] that by (cases "surfaces d i") auto
  have "objects_ok d" using ok by (simp add: painted_ok_def)
  then have "objects_ok d'" unfolding objects_ok_def d by (metis s core_def prod.inject)
  moreover have "tracked lev fonts d' n s"
    if n: "n \<in> set (items (the_queue d'))" and sn: "surfaces d' (nid n) = Some s" for n s
  proof -
    from s [OF sn] obtain t where t: "surfaces d (nid n) = Some t" "core t = core s" by blast
    with ok n q have "tracked lev fonts d n t" by (auto simp: painted_ok_def)
    with tracked_cong [of s t d' d] t(2) d show ?thesis by simp
  qed
  ultimately show ?thesis by (simp add: painted_ok_def)
qed

lemma get_notification_live:
  assumes "distinct (live_ids d)" "n \<in> set (items (the_queue d))"
  shows "get_notification (nid n) (the_queue d) = Some n"
proof -
  have "\<exists>m. get_notification (nid n) (the_queue d) = Some m"
    using assms(2) by (cases "get_notification (nid n) (the_queue d)") (auto simp: get_notification_def find_None_iff)
  then obtain m where m: "get_notification (nid n) (the_queue d) = Some m" by blast
  then have "m \<in> set (items (the_queue d))" "nid m = nid n"
    by (auto simp: get_notification_def find_Some_iff)
  with assms have "m = n" by (auto simp: live_ids_def distinct_map dest: inj_onD)
  with m show ?thesis by simp
qed

lemma create_painted:
  assumes "painted_ok lev fonts d" "distinct (live_ids d)"
  shows "painted_ok lev fonts (create_surface_for fonts i d)"
proof (cases "get_notification i (the_queue d)")
  case None
  with assms show ?thesis by (simp add: create_surface_for_def)
next
  case (Some m)
  define d' where "d' = create_surface_for fonts i d"
  define new where "new = \<lparr> wl_surface = next_object d, requested_size = size_of fonts (cfg d) m, configured = False,
    drawn_revision = None, stack_offset = unat (gap (cfg d)) \<rparr>"
  have d': "surfaces d' = (surfaces d)(i \<mapsto> new)" "painted d' = painted d" "cfg d' = cfg d"
    "next_object d' = Suc (next_object d)" "the_queue d' = the_queue d"
    using Some by (simp_all add: d'_def new_def create_surface_for_def Let_def)
  have ob: "objects_ok d" using assms(1) by (simp add: painted_ok_def)
  have fresh: "painted d (next_object d) = None" using ob by (auto simp: objects_ok_def)
  have lt: "wl_surface t < next_object d" if "surfaces d j = Some t" for j t using ob that by (auto simp: objects_ok_def)
  have "objects_ok d'" using ob lt
    by (auto simp: objects_ok_def d' new_def less_Suc_eq split: if_splits dest: lt)
  moreover have "tracked lev fonts d' n s"
    if n: "n \<in> set (items (the_queue d))" "surfaces d' (nid n) = Some s" for n s
  proof (cases "nid n = i")
    case True
    then have "m = n" using get_notification_live [OF assms(2) n(1)] Some by simp
    moreover have "s = new" using n(2) True d' by simp
    ultimately show ?thesis using fresh by (simp add: tracked_def d' new_def size_of_def picture_of_def Let_def)
  next
    case False
    then have "tracked lev fonts d n s" using n d' assms(1) by (simp add: painted_ok_def)
    then show ?thesis using tracked_cong [of s s d' d] d' by simp
  qed
  ultimately show ?thesis unfolding d'_def [symmetric] by (simp add: painted_ok_def d')
qed

lemma destroy_painted:
  assumes "painted_ok lev fonts d"
  shows "painted_ok lev fonts (destroy_surface i d)"
proof -
  have "objects_ok (destroy_surface i d)" using assms
    by (auto simp: painted_ok_def objects_ok_def destroy_surface_def split: option.splits)
  moreover have "painted (destroy_surface i d) = painted d" "same_queue d (destroy_surface i d)"
    using destroy_same by (auto simp: destroy_surface_def split: option.split)
  moreover have "surfaces d j = Some s" if "surfaces (destroy_surface i d) j = Some s" for j s
    using that by (auto simp: destroy_surface_def split: option.splits if_splits)
  ultimately show ?thesis using assms tracked_cong [of _ _ "destroy_surface i d" d]
    by (simp add: painted_ok_def same_queue_def)
qed

lemma paint_one_painted:
  assumes "painted_ok lev fonts d" "distinct (live_ids d)"
  shows "painted_ok lev fonts (paint_one fonts failing i d)"
proof (cases "needs_paint i d \<and> i \<notin> failing")
  case False
  then have "paint_one fonts failing i d = d" by (auto simp: paint_one_def paint_def split: option.split)
  with assms show ?thesis by simp
next
  case True
  then obtain s m where s: "surfaces d i = Some s" "get_notification i (the_queue d) = Some m"
    by (auto simp: needs_paint_def split: option.splits)
  let ?d = "d\<lparr> surfaces := (surfaces d)(i \<mapsto> s\<lparr> drawn_revision := Some (revision m) \<rparr>),
    painted := (painted d)(wl_surface s \<mapsto> picture_of fonts (cfg d) m) \<rparr>"
  have p: "paint_one fonts failing i d = ?d" using True s by (simp add: paint_one_def paint_def)
  have ob: "objects_ok d" using assms(1) by (simp add: painted_ok_def)
  have "objects_ok ?d"
  proof -
    have *: "\<exists>t'. surfaces d j = Some t' \<and> wl_surface t' = wl_surface t" if "surfaces ?d j = Some t" for j t
      using that s(1) by (cases "j = i") auto
    have "dom (painted ?d) = insert (wl_surface s) (dom (painted d))" "next_object ?d = next_object d" by auto
    moreover have "wl_surface s < next_object d" using ob s(1) by (simp add: objects_ok_def)
    moreover have "j = i'" if "surfaces ?d j = Some t" "surfaces ?d i' = Some t'" "wl_surface t = wl_surface t'" for j i' t t'
      using * [OF that(1)] * [OF that(2)] that(3) ob unfolding objects_ok_def by metis
    ultimately show ?thesis using ob * unfolding objects_ok_def by (metis insert_iff)
  qed
  moreover have "tracked lev fonts ?d n t"
    if n: "n \<in> set (items (the_queue d))" "surfaces ?d (nid n) = Some t" for n t
  proof (cases "nid n = i")
    case True
    then have m: "m = n" using get_notification_live [OF assms(2) n(1)] s(2) by simp
    have "tracked lev fonts d n s" using assms(1) n(1) True s(1) by (auto simp: painted_ok_def)
    moreover have "t = s\<lparr> drawn_revision := Some (revision n) \<rparr>" using n(2) True m by simp
    ultimately show ?thesis by (simp add: tracked_def m)
  next
    case False
    then have t: "surfaces d (nid n) = Some t" using n(2) by simp
    then have "wl_surface t \<noteq> wl_surface s" using ob s(1) False by (auto simp: objects_ok_def)
    moreover have "tracked lev fonts d n t" using assms(1) n(1) t by (auto simp: painted_ok_def)
    ultimately show ?thesis using tracked_cong [of t t ?d d] by simp
  qed
  ultimately show ?thesis unfolding p by (simp add: painted_ok_def)
qed

lemma restack_from_core:
  "map_option core (surfaces (restack_from off ns d) i) = map_option core (surfaces d i) \<and>
   painted (restack_from off ns d) = painted d \<and> next_object (restack_from off ns d) = next_object d"
proof (induction ns arbitrary: off d)
  case (Cons n ns)
  then show ?case by (cases "surfaces d (nid n)") (auto simp: core_def)
qed simp

lemma fold_painted:
  assumes "\<And>x d. painted_ok lev fonts d \<Longrightarrow> distinct (live_ids d) \<Longrightarrow> painted_ok lev fonts (f x d)"
    and "\<And>x d. same_queue d (f x d)"
  shows "painted_ok lev fonts d \<Longrightarrow> distinct (live_ids d) \<Longrightarrow> painted_ok lev fonts (fold f xs d)"
proof (induction xs arbitrary: d)
  case (Cons x xs)
  have "distinct (live_ids (f x d))" using Cons.prems(2) assms(2) [of d x] by (simp add: same_queue_def live_ids_def)
  then show ?case using Cons.IH assms(1) Cons.prems by simp
qed simp

lemma create_missing_painted:
  "painted_ok lev fonts d \<Longrightarrow> distinct (live_ids d) \<Longrightarrow> painted_ok lev fonts (fst (create_missing fonts ids (d, r)))"
proof (induction ids arbitrary: d r)
  case (Cons i ids)
  have "distinct (live_ids (create_surface_for fonts i d))"
    using Cons.prems(2) create_same [of d fonts i] by (simp add: same_queue_def live_ids_def)
  then show ?case
    using Cons.IH [of d r] Cons.IH [of "create_surface_for fonts i d" True] Cons.prems create_painted [OF Cons.prems, of i]
    by (auto simp: create_missing_def)
qed (simp add: create_missing_def)

lemma sync_painted:
  assumes "painted_ok lev fonts d" "distinct (live_ids d)"
  shows "painted_ok lev fonts (sync_surfaces fonts order failing d)"
proof -
  let ?ids = "map nid (items (the_queue d))"
  obtain d1 added where d1: "create_missing fonts ?ids (d, False) = (d1, added)" by fastforce
  have p1: "painted_ok lev fonts d1" "same_queue d d1"
    using create_missing_painted [OF assms, of ?ids False] create_missing_same [of d fonts ?ids False] d1 by simp_all
  define stale where "stale = filter (\<lambda>i. i \<notin> set ?ids) (order (dom (surfaces d1)))"
  define d2 where "d2 = fold destroy_surface stale d1"
  have l1: "distinct (live_ids d1)" using p1(2) assms(2) by (simp add: same_queue_def live_ids_def)
  have p2: "painted_ok lev fonts d2" unfolding d2_def by (rule fold_painted [OF destroy_painted destroy_same p1(1) l1])
  have s2: "same_queue d1 d2" unfolding d2_def by (rule fold_same) (rule destroy_same)
  define d3 where "d3 = (if (added \<or> stale \<noteq> []) \<or> stack_dirty d2 then (restack d2)\<lparr> stack_dirty := False \<rparr> else d2)"
  have r: "same_queue d2 (restack d2)" unfolding restack_def by (rule restack_from_same)
  have "painted_ok lev fonts ((restack d2)\<lparr> stack_dirty := False \<rparr>)"
    by (rule painted_ok_same [OF p2]) (use r in \<open>simp_all add: restack_def restack_from_core same_queue_def\<close>)
  with p2 have p3: "painted_ok lev fonts d3" by (simp add: d3_def)
  have "same_queue d2 d3" using r by (simp add: d3_def same_queue_def)
  then have l3: "distinct (live_ids d3)" using s2 l1 by (simp add: same_queue_def live_ids_def)
  have "sync_surfaces fonts order failing d = paint_if_needed fonts failing (order (dom (surfaces d3))) d3"
    unfolding sync_surfaces_def Let_def d1 case_prod_conv d3_def d2_def stale_def ..
  then show ?thesis
    unfolding paint_if_needed_def by (simp only: fold_painted [OF paint_one_painted paint_same p3 l3])
qed


lemma notify_queue_items:
  assumes "notify_queue args def now q = (i, q')" "n' \<in> set (items q')"
  shows "n' \<in> set (items q) \<or> nid n' = next_id q \<and> revision n' = 0 \<or>
    (\<exists>n \<in> set (items q). nid n' = nid n \<and> revision n' = revision n + 1)"
proof (cases "if replaces_id args \<noteq> 0 then position (\<lambda>n. nid n = replaces_id args) (items q) else None")
  case None
  with assms show ?thesis by (auto simp: notify_queue_def Let_def split: if_splits)
next
  case (Some k)
  then have k: "replaces_id args \<noteq> 0" "position (\<lambda>n. nid n = replaces_id args) (items q) = Some k"
    by (auto split: if_splits)
  have m: "items q ! k \<in> set (items q)" using position_SomeD [OF k(2)] by simp
  obtain x where "items q' = (items q)[k := x]" "nid x = nid (items q ! k)" "revision x = revision (items q ! k) + 1"
    using assms(1) k by (auto simp: notify_queue_def Let_def)
  with assms(2) m show ?thesis using set_update_subset_insert [of "items q" k x] by auto
qed

lemma close_items: "close_notification_id i q = (r, q') \<Longrightarrow> set (items q') \<subseteq> set (items q)"
  by (auto simp: close_notification_id_def remove_at_def dest: in_set_takeD in_set_dropD split: option.splits)

lemma dispatch_queue:
  assumes "dispatch call def now q = (rep, sg, q')"
  shows "set (items q') \<subseteq> set (items q) \<or> (\<exists>args i. notify_queue args def now q = (i, q'))"
proof -
  from assms have "q' = q \<or> (\<exists>args i. notify_queue args def now q = (i, q')) \<or>
      (\<exists>i r. close_notification_id i q = (r, q'))"
    by (auto simp: dispatch_def dbus_notify_def dbus_close_def Let_def split: option.splits sum.splits prod.splits if_splits)
  then show ?thesis using close_items by blast
qed

text \<open>A step that changes no height of a notification it replaces.\<close>

definition same_heights :: "(rat \<Rightarrow> font) \<Rightarrow> daemon \<Rightarrow> daemon \<Rightarrow> bool" where
  "same_heights fonts d d' \<longleftrightarrow> (\<forall>n \<in> set (items (the_queue d)). \<forall>n' \<in> set (items (the_queue d')).
     nid n' = nid n \<longrightarrow> height_of fonts (cfg d) n' = height_of fonts (cfg d) n)"

definition revisions_below :: "nat \<Rightarrow> daemon \<Rightarrow> bool" where
  "revisions_below k d \<longleftrightarrow> (\<forall>n \<in> set (items (the_queue d)). unat (revision n) < k)"

lemma tracked_replaced:
  assumes t: "tracked lev fonts d n s" and lt: "revision n < revision n'"
    and lv: "lev \<Longrightarrow> height_of fonts (cfg d) n' = height_of fonts (cfg d) n"
    and d: "cfg d' = cfg d" "painted d' = painted d"
  shows "tracked lev fonts d' n' s"
proof -
  have r: "r \<le> revision n' \<and> r \<noteq> revision n'" if "r \<le> revision n" for r using that lt by auto
  have c: "case drawn_revision s of None \<Rightarrow> painted d (wl_surface s) = None
     | Some r \<Rightarrow> r \<le> revision n \<and> (\<exists>p. painted d (wl_surface s) = Some p \<and> (r = revision n \<longrightarrow> p = picture_of fonts (cfg d) n))"
    and h: "lev \<Longrightarrow> snd (requested_size s) = height_of fonts (cfg d) n \<and>
       (\<forall>p. painted d (wl_surface s) = Some p \<longrightarrow> layout_height (drawn p) = height_of fonts (cfg d) n)"
    using t unfolding tracked_def by blast+
  have "case drawn_revision s of None \<Rightarrow> painted d (wl_surface s) = None
     | Some r \<Rightarrow> r \<le> revision n' \<and> (\<exists>p. painted d (wl_surface s) = Some p \<and> (r = revision n' \<longrightarrow> p = picture_of fonts (cfg d) n'))"
    using c r by (cases "drawn_revision s") (simp, simp, blast)
  with h show ?thesis unfolding tracked_def d by (simp only: lv simp_thms cong: imp_cong)
qed

lemma call_painted:
  assumes ok: "painted_ok lev fonts d" "stack_ok d" and r: "revisions_below (2 ^ 64 - 1) d"
    and l: "lev \<Longrightarrow> same_heights fonts d (snd (dispatch_call call now d))"
  shows "painted_ok lev fonts (snd (dispatch_call call now d))"
proof -
  obtain rep sg q' where disp: "dispatch call (default_timeout_ms (cfg d)) now (the_queue d) = (rep, sg, q')"
    by (metis prod_cases3)
  let ?d = "d\<lparr> the_queue := q', sent := sent d @ sg \<rparr>"
  have e: "snd (dispatch_call call now d) = ?d" by (simp add: dispatch_call_def disp)
  from disp consider "set (items q') \<subseteq> set (items (the_queue d))"
    | args i where "notify_queue args (default_timeout_ms (cfg d)) now (the_queue d) = (i, q')"
    using dispatch_queue by blast
  then show ?thesis
  proof cases
    case 1
    show ?thesis unfolding e by (rule painted_ok_same [OF ok(1)]) (simp_all add: 1)
  next
    case 2
    have "tracked lev fonts ?d n' s" if n': "n' \<in> set (items q')" "surfaces d (nid n') = Some s" for n' s
    proof -
      consider "n' \<in> set (items (the_queue d))" | "nid n' = next_id (the_queue d)"
        | n where "n \<in> set (items (the_queue d))" "nid n' = nid n" "revision n' = revision n + 1"
        using notify_queue_items [OF 2 n'(1)] by blast
      then show ?thesis
      proof cases
        case 1
        with ok(1) n'(2) show ?thesis using tracked_cong [of s s ?d d] by (simp add: painted_ok_def)
      next
        case 2
        with ok(2) n'(2) show ?thesis by (auto simp: stack_ok_def)
      next
        case (3 n)
        then have t: "tracked lev fonts d n s" using ok(1) n'(2) by (simp add: painted_ok_def)
        have "unat (revision n) < 2 ^ 64 - 1" using r 3(1) by (simp add: revisions_below_def)
        then have lt: "revision n < revision n'" using 3(3) by (simp add: word_less_nat_alt unat_word_ariths)
        have lv: "lev \<Longrightarrow> height_of fonts (cfg d) n' = height_of fonts (cfg d) n"
          using l 3(1,2) n'(1) by (simp add: e same_heights_def)
        show ?thesis by (rule tracked_replaced [OF t lt lv]) simp_all
      qed
    qed
    moreover have "objects_ok ?d" using ok(1) by (simp add: painted_ok_def objects_ok_def)
    ultimately show ?thesis unfolding e by (simp add: painted_ok_def)
  qed
qed

lemma dismiss_painted:
  assumes "painted_ok lev fonts d"
  shows "painted_ok lev fonts (dismiss i why d)"
proof (rule painted_ok_same [OF assms])
  show "set (items (the_queue (dismiss i why d))) \<subseteq> set (items (the_queue d))"
    by (auto simp: dismiss_def dest: close_items split: prod.split)
qed (auto simp: dismiss_def split: prod.split)

lemma daemon_step_painted:
  assumes ok: "painted_ok lev fonts d" "ids_ok d" "stack_ok d" "revisions_below (2 ^ 64 - 1) d"
    and l: "lev \<Longrightarrow> same_heights fonts d (daemon_step fonts order d e)"
  shows "painted_ok lev fonts (daemon_step fonts order d e)"
proof (cases e)
  case (Call call now)
  with call_painted [OF ok(1,3,4)] l show ?thesis by (simp add: daemon_step_def)
next
  case (TimerFired now)
  show ?thesis unfolding TimerFired
    by (rule painted_ok_same [OF ok(1)]) (auto simp: daemon_step_def handle_expirations_def drain_expired_def)
next
  case (Configure i)
  show ?thesis unfolding Configure
    by (rule painted_ok_same [OF ok(1)]) (auto simp: daemon_step_def layer_event_def core_def split: option.split)
next
  case (SurfaceClosed i)
  with dismiss_painted [OF ok(1)] show ?thesis by (simp add: daemon_step_def layer_event_def)
next
  case (ButtonPressed b)
  have "painted_ok lev fonts (d'\<lparr> stack_dirty := x \<rparr>)" if "painted_ok lev fonts d'" for d' x
    by (rule painted_ok_same [OF that]) simp_all
  with ButtonPressed ok(1) dismiss_painted [OF ok(1)] show ?thesis
    by (auto simp: daemon_step_def button_pressed_def split: option.split)
next
  case (Sync failing)
  have "distinct (live_ids d)" using ok(2) by (simp add: ids_ok_def)
  with Sync sync_painted [OF ok(1)] show ?thesis by (simp add: daemon_step_def)
qed (rule painted_ok_same [OF ok(1)]; simp add: daemon_step_def pointer_capability_def)+

lemma daemon_step_items:
  assumes "\<not> is_a_call e"
  shows "set (items (the_queue (daemon_step fonts order d e))) \<subseteq> set (items (the_queue d))"
  using assms sync_same [of d fonts order]
  by (cases e) (auto simp: daemon_step_def is_a_call_def handle_expirations_def drain_expired_def layer_event_def
      button_pressed_def pointer_capability_def same_queue_def dismiss_def
      dest: close_items split: option.splits prod.splits if_splits)

lemma daemon_step_revisions:
  assumes "revisions_below k d" "0 < k" "k < 2 ^ 64"
  shows "revisions_below (k + (if is_a_call e then 1 else 0)) (daemon_step fonts order d e)"
proof (cases e)
  case (Call call now)
  obtain rep sg q' where disp: "dispatch call (default_timeout_ms (cfg d)) now (the_queue d) = (rep, sg, q')"
    by (metis prod_cases3)
  then consider "set (items q') \<subseteq> set (items (the_queue d))"
    | args i where "notify_queue args (default_timeout_ms (cfg d)) now (the_queue d) = (i, q')"
    using dispatch_queue by blast
  then have "unat (revision n') < Suc k" if "n' \<in> set (items q')" for n'
  proof cases
    case 1
    with that assms(1) show ?thesis by (auto simp: revisions_below_def less_Suc_eq)
  next
    case 2
    have nx: "unat (revision n + 1) < Suc k" if "n \<in> set (items (the_queue d))" for n
      using that assms(1) unat_plus_if' [of "revision n" 1] by (auto simp: revisions_below_def split: if_splits)
    from notify_queue_items [OF 2 that] show ?thesis
    proof (elim disjE bexE)
      assume "n' \<in> set (items (the_queue d))"
      with assms(1) show ?thesis by (auto simp: revisions_below_def less_Suc_eq)
    next
      fix n assume "n \<in> set (items (the_queue d))" "nid n' = nid n \<and> revision n' = revision n + 1"
      with nx [of n] show ?thesis by simp
    qed simp
  qed
  then show ?thesis by (simp add: Call daemon_step_def dispatch_call_def disp is_a_call_def revisions_below_def)
qed (use assms(1) daemon_step_items [of e fonts order d] in \<open>auto simp: is_a_call_def revisions_below_def\<close>)

text \<open>No replacement of a run changes the height of what it replaces.\<close>

fun level_run :: "(rat \<Rightarrow> font) \<Rightarrow> (u32 set \<Rightarrow> u32 list) \<Rightarrow> daemon \<Rightarrow> occurrence list \<Rightarrow> bool" where
  "level_run fonts order d [] = True"
| "level_run fonts order d (e # es) =
    (same_heights fonts d (daemon_step fonts order d e) \<and> level_run fonts order (daemon_step fonts order d e) es)"

lemma daemon_run_painted:
  assumes "enumerates order"
  shows "painted_ok lev fonts d \<Longrightarrow> ids_ok d \<Longrightarrow> stack_ok d \<Longrightarrow> revisions_below k d \<Longrightarrow> 0 < k \<Longrightarrow>
    unat (next_id (the_queue d)) + length (filter is_a_call es) < 2 ^ 32 \<Longrightarrow>
    k + length (filter is_a_call es) < 2 ^ 32 \<Longrightarrow> (lev \<Longrightarrow> level_run fonts order d es) \<Longrightarrow>
    painted_ok lev fonts (foldl (daemon_step fonts order) d es)"
proof (induction es arbitrary: d k)
  case (Cons e es)
  let ?d = "daemon_step fonts order d e"
  have n: "next_id (the_queue d) \<noteq> - 1" if "is_a_call e" using Cons.prems(6) that unat_max_u32 by auto
  note st = daemon_step_ids [OF Cons.prems(2) n, where e = e]
  have nx: "unat (next_id (the_queue ?d)) + length (filter is_a_call es) < 2 ^ 32"
    using st(2) [of fonts order] Cons.prems(6) by (auto split: if_splits)
  have so: "stack_ok ?d" by (rule daemon_step_stack_ok [OF assms Cons.prems(2,3) n])
  have "revisions_below (2 ^ 64 - 1) d" using Cons.prems(4,7) by (fastforce simp: revisions_below_def)
  then have p: "painted_ok lev fonts ?d"
    by (rule daemon_step_painted [OF Cons.prems(1-3)]) (use Cons.prems(8) in simp)
  have "revisions_below (k + (if is_a_call e then 1 else 0)) ?d"
    by (rule daemon_step_revisions [OF Cons.prems(4,5)]) (use Cons.prems(7) in simp)
  from Cons.IH [OF p st(1) so this _ nx] Cons.prems(5,7,8) show ?case by (simp split: if_splits)
qed simp

lemma daemon_start_painted:
  assumes "enumerates order" "length (filter is_a_call es) < 2 ^ 32 - 1" "lev \<Longrightarrow> level_run fonts order (daemon_new c) es"
  shows "painted_ok lev fonts (foldl (daemon_step fonts order) (daemon_new c) es)"
proof -
  have "{0 <..< (1 :: u32)} = {}" by (auto simp: word_less_nat_alt)
  then have "ids_ok (daemon_new c)" "stack_ok (daemon_new c)" "painted_ok lev fonts (daemon_new c)"
    "revisions_below 1 (daemon_new c)"
    by (simp_all add: ids_ok_def stack_ok_def stacked_def painted_ok_def objects_ok_def revisions_below_def
        daemon_new_def queue_new_def live_ids_def)
  from daemon_run_painted [OF assms(1) this(3,1,2,4)] assms(2,3) show ?thesis
    by (simp add: daemon_new_def queue_new_def)
qed



lemmas run_defs = plain_notify_def daemon_step_def dispatch_call_def dispatch_def
  dbus_notify_def parse_notify_def notify_queue_def daemon_new_def queue_new_def OBJECT_PATH_def
  sync_surfaces_def create_missing_def create_surface_for_def get_notification_def restack_def
  paint_if_needed_def paint_one_def needs_paint_def paint_def layer_event_def position.simps Let_def
  urgency_from_byte_def


text \<open>Painting attaches a buffer of the notification's height now, but leaves the size the surface asked for
  and with it where the next toast is: a replacement that became taller reaches into it.\<close>

lemma painted_size_is_not_requested:
  assumes "surfaces d i = Some s" "get_notification i (the_queue d) = Some n"
  shows "\<exists>d' s'. paint fonts True i d = Some d' \<and> surfaces d' i = Some s' \<and> requested_size s' = requested_size s \<and>
    stack_offset s' = stack_offset s \<and> painted d' (wl_surface s') = Some (picture_of fonts (cfg d) n)"
  using assms by (simp add: paint_def)

text \<open>C21. The screen shows the queue. After any run with fewer than \<open>2 ^ 32 - 1\<close> calls, a pass leaves
  one surface for each live notification and none besides, and what each configured surface shows, unless
  painting it failed in that pass, is what its notification says now: its text laid out, in the
  revision the last replacement gave it, with the stripe if it is critical. A pass in which
  nothing fails leaves nothing for a further pass to do.\<close>

theorem sync_is_idempotent:
  assumes "enumerates order" and "length (filter is_a_call es) < 2 ^ 32 - 1"
    and "d = foldl (daemon_step fonts order) (daemon_new c) (es @ [Sync failing])"
  shows "dom (surfaces d) = set (live_ids d) \<and>
    (\<forall>n s. n \<in> set (items (the_queue d)) \<and> surfaces d (nid n) = Some s \<and> configured s \<and> nid n \<notin> failing \<longrightarrow>
       painted d (wl_surface s) = Some (picture_of fonts (cfg d) n)) \<and>
    (failing = {} \<longrightarrow> sync_surfaces fonts order failing' d = d)"
proof -
  let ?d0 = "foldl (daemon_step fonts order) (daemon_new c) es"
  have d: "d = sync_surfaces fonts order failing ?d0" by (simp add: assms(3) daemon_step_def)
  have q: "the_queue d = the_queue ?d0" using sync_same [of ?d0 fonts order failing] by (simp add: d same_queue_def)
  note sp = sync_spec [OF assms(1) d]
  have "length (filter is_a_call (es @ [Sync failing])) < 2 ^ 32 - 1" using assms(2) by (simp add: is_a_call_def)
  from daemon_start_painted [OF assms(1) this, of False fonts c] have p: "painted_ok False fonts d" by (simp add: assms(3))
  have "{0 <..< (1 :: u32)} = {}" by (auto simp: word_less_nat_alt)
  then have "ids_ok (daemon_new c)" by (simp add: ids_ok_def daemon_new_def queue_new_def live_ids_def)
  from daemon_run_ids [OF this, of es fonts order] assms(2) have "distinct (live_ids d)"
    using q by (simp add: daemon_new_def queue_new_def ids_ok_def live_ids_def)
  note live = get_notification_live [OF this]
  have "painted d (wl_surface s) = Some (picture_of fonts (cfg d) n)"
    if n: "n \<in> set (items (the_queue d))" "surfaces d (nid n) = Some s" "configured s" "nid n \<notin> failing" for n s
  proof -
    have "tracked False fonts d n s" using p n(1,2) by (simp add: painted_ok_def)
    moreover have "\<not> needs_paint (nid n) d" by (rule sp(3) [OF n(4)])
    then obtain r where "drawn_revision s = Some r" "\<not> r < revision n"
      using n live [OF n(1)] by (auto simp: needs_paint_def split: option.splits)
    ultimately show ?thesis by (auto simp: tracked_def)
  qed
  moreover have "sync_surfaces fonts order failing' d = d" if "failing = {}"
    by (rule sync_settled [OF assms(1)]) (use sp(1-3) q that in auto)
  ultimately show ?thesis using sp(1) q by (simp add: live_ids_def)
qed

text \<open>The witness: a notification is shown, replaced, and shown again in its next revision.\<close>

definition replacing_notify :: dbus_call where
  "replacing_notify = plain_notify\<lparr> notify_body := Inr \<lparr> raw_app_name = [], raw_replaces = 1, raw_app_icon = [],
     raw_summary = [66], raw_body = [67], hints = Map.empty, raw_expire = 10 \<rparr> \<rparr>"

definition replacing_run :: "occurrence list" where
  "replacing_run = [Call plain_notify 0, Sync {}, Configure 1, Sync {}, Call replacing_notify 0]"

theorem sync_is_idempotent_witness:
  "let f = (\<lambda>_ :: rat. \<lparr> advance = (\<lambda>_. 1), new_line_size = None \<rparr>);
       d = foldl (daemon_step f sorted_list_of_set) (daemon_new default_config) (replacing_run @ [Sync {}])
   in \<exists>n s. items (the_queue d) = [n] \<and> summary n = [66] \<and> body n = [67] \<and> revision n = 1 \<and>
        surfaces d 1 = Some s \<and> painted d (wl_surface s) = Some (picture_of f default_config n)"
proof -
  let ?f = "\<lambda>_ :: rat. \<lparr> advance = (\<lambda>_. 1), new_line_size = None \<rparr>"
  let ?d = "foldl (daemon_step ?f sorted_list_of_set) (daemon_new default_config) (replacing_run @ [Sync {}])"
  have "\<exists>n s. items (the_queue ?d) = [n] \<and> nid n = 1 \<and> summary n = [66] \<and> body n = [67] \<and> revision n = 1 \<and>
      surfaces ?d 1 = Some s \<and> configured s \<and> cfg ?d = default_config"
    by (simp add: replacing_run_def replacing_notify_def run_defs)
  moreover have "length (filter is_a_call replacing_run) < 2 ^ 32 - 1"
    by (simp add: replacing_run_def is_a_call_def)
  note sync_is_idempotent [OF enumerates_sorted this refl, of ?f default_config "{}"]
  ultimately show ?thesis by (fastforce simp: Let_def)
qed

section \<open>Settings that can be relied on\<close>

lemma field_keeps:
  assumes "field v check put c = Inr c'" "P c" "\<And>x y c. check x = Inr y \<Longrightarrow> P c \<Longrightarrow> P (put y c)"
  shows "P c'"
  using assms by (auto simp: field_def bind_res_eq_Inr split: option.splits)

text \<open>Whatever the file says, settings that load leave room to draw and to stack.\<close>

lemma loaded_settings_are_usable:
  assumes "from_raw n = Inr c"
  shows "max_width c \<noteq> 0 \<and> gap c \<noteq> 0 \<and> 0 < summary_size c \<and> 0 < body_size c"
proof -
  let ?P = "\<lambda>c. max_width c \<noteq> 0 \<and> gap c \<noteq> 0 \<and> 0 < summary_size c \<and> 0 < body_size c"
  have "?P default_config" by (simp add: default_config_def)
  with assms show ?thesis unfolding from_raw_def bind_res_eq_Inr
    by (elim exE conjE)
      (rule field_keeps [where P = ?P], assumption, (rule field_keeps [where P = ?P], assumption)+,
        auto simp: positive_def text_size_def split: if_splits option.splits)
qed

lemma absent_settings_are_defaults:
  "from_raw \<lparr> raw_position = None, raw_background = None, raw_foreground = None, raw_border = None, raw_timeout = None,
     raw_max_width = None, raw_gap = None, raw_padding = None, raw_font = None, raw_summary_size = None,
     raw_body_size = None \<rparr> = Inr default_config"
  by (simp add: from_raw_def field_def)

text \<open>Three and six digits are opaque.\<close>

lemma short_colours_are_opaque:
  assumes "parse_color s = Inr c" "c \<noteq> or 0xFF000000 c"
  shows "\<exists>hex. length (into_bytes hex) = 8 \<and> from_str_radix (2 ^ 32) 16 hex = Some (unat c)"
  using assms
  by (auto simp: parse_color_def Let_def unat_of_nat split: option.splits if_splits simp flip: or.assoc)
    (frule from_str_radix_less, simp, auto)+

end
