(* ===== verification/Config.thy ===== *)
theory Config
  imports Complex_Main Strings
begin

text \<open>
  The settings (\<open>crates/shoestring-config\<close>), the binding table compiled from them (\<open>src/binds.rs\<close>)
  and their reloading (\<open>src/config_watcher.rs\<close>). Reading TOML, XKB's table of key names, the regular
  expressions and the environment are arguments. Floating-point settings are bit patterns; colour
  channels are the exact quotients.
\<close>

section \<open>Strings cut by bytes\<close>

text \<open>\<open>s.split_at(n)\<close> with a byte offset: \<open>None\<close> is the panic past the end or inside a character.\<close>

fun split_at_byte :: "nat \<Rightarrow> chars \<Rightarrow> (chars \<times> chars) option" where
  "split_at_byte n s =
    (if n = 0 then Some ([], s)
     else case s of
       [] \<Rightarrow> None
     | c # cs \<Rightarrow>
         (if n < length (utf8_char c) then None
          else map_option (\<lambda>(l, r). (c # l, r)) (split_at_byte (n - length (utf8_char c)) cs)))"

declare split_at_byte.simps [simp del]

text \<open>\<open>&s[a..b]\<close> for \<open>a \<le> b\<close>.\<close>

definition byte_slice :: "nat \<Rightarrow> nat \<Rightarrow> chars \<Rightarrow> chars option" where
  "byte_slice a b s = Option.bind (split_at_byte a s) (\<lambda>(_, r). map_option fst (split_at_byte (b - a) r))"

definition ascii :: "chars \<Rightarrow> bool" where
  "ascii s \<longleftrightarrow> list_all (\<lambda>c. c < 0x80) s"

lemma split_at_byte_ascii: "ascii s \<Longrightarrow> n \<le> length s \<Longrightarrow> split_at_byte n s = Some (take n s, drop n s)"
proof (induction s arbitrary: n)
  case Nil
  then show ?case by (simp add: split_at_byte.simps)
next
  case (Cons c s)
  then show ?case by (cases n) (simp_all add: split_at_byte.simps [of _ "c # s"] split_at_byte.simps [of 0] ascii_def utf8_char_def)
qed

lemma byte_slice_ascii: "ascii s \<Longrightarrow> a \<le> b \<Longrightarrow> b \<le> length s \<Longrightarrow> byte_slice a b s = Some (take (b - a) (drop a s))"
  by (simp add: byte_slice_def split_at_byte_ascii, subst split_at_byte_ascii)
     (auto simp: ascii_def list_all_iff dest: in_set_dropD)

lemma length_into_bytes_ascii: "ascii s \<Longrightarrow> length (into_bytes s) = length s"
  by (induction s) (auto simp: into_bytes_def ascii_def utf8_char_def)

fun contains :: "chars \<Rightarrow> chars \<Rightarrow> bool" where
  "contains needle [] \<longleftrightarrow> needle = []"
| "contains needle (c # s) \<longleftrightarrow> strip_prefix needle (c # s) \<noteq> None \<or> contains needle s"

lemma contains_iff: "contains needle s \<longleftrightarrow> (\<exists>l r. s = l @ needle @ r)"
proof (induction s)
  case (Cons c s)
  show ?case
  proof
    assume "contains needle (c # s)"
    then consider r where "strip_prefix needle (c # s) = Some r" | "contains needle s" by auto
    then show "\<exists>l r. c # s = l @ needle @ r"
    proof cases
      case 1
      then show ?thesis by (intro exI [of _ "[]"] exI [of _ r]) (simp add: strip_prefix_Some)
    next
      case 2
      with Cons obtain l r where "s = l @ needle @ r" by auto
      then show ?thesis by (intro exI [of _ "c # l"] exI [of _ r]) simp
    qed
  next
    assume "\<exists>l r. c # s = l @ needle @ r"
    then obtain l r where eq: "c # s = l @ needle @ r" by auto
    show "contains needle (c # s)"
    proof (cases l)
      case Nil
      with eq have "strip_prefix needle (c # s) = Some r" by (simp add: strip_prefix_Some)
      then show ?thesis by simp
    next
      case (Cons x xs)
      with eq have "s = xs @ needle @ r" by simp
      with Cons.IH show ?thesis by auto
    qed
  qed
qed simp

definition to_ascii_lowercase :: "chars \<Rightarrow> chars" where
  "to_ascii_lowercase s = map (\<lambda>c. if 65 \<le> c \<and> c \<le> 90 then c + 32 else c) s"

section \<open>Colours\<close>

type_synonym rgba = "rat \<times> rat \<times> rat \<times> rat"

text \<open>\<open>None\<close> is a panic, \<open>Some None\<close> a string that is not a colour.\<close>

definition colour_byte :: "chars \<Rightarrow> nat \<Rightarrow> nat option option" where
  "colour_byte h i = map_option (from_str_radix 256 16) (byte_slice (i * 2) (i * 2 + 2) h)"

definition try_byte :: "nat option option \<Rightarrow> (nat \<Rightarrow> 'a option option) \<Rightarrow> 'a option option" where
  "try_byte b f = (case b of None \<Rightarrow> None | Some None \<Rightarrow> Some None | Some (Some n) \<Rightarrow> f n)"

lemma try_byte_simps [simp]:
  "try_byte None f = None" "try_byte (Some None) f = Some None" "try_byte (Some (Some n)) f = f n"
  by (simp_all add: try_byte_def)

definition parse_hex_rgba :: "chars \<Rightarrow> rgba option option" where
  "parse_hex_rgba s =
    (let h = (case strip_prefix (literal ''#'') s of Some r \<Rightarrow> r | None \<Rightarrow> s);
         len = length (into_bytes h)
     in if len \<noteq> 6 \<and> len \<noteq> 8 then Some None
        else
          try_byte (colour_byte h 0) (\<lambda>r.
          try_byte (colour_byte h 1) (\<lambda>g.
          try_byte (colour_byte h 2) (\<lambda>b.
          try_byte (if len = 8 then colour_byte h 3 else Some (Some 0xff)) (\<lambda>a.
          Some (Some (of_nat r / 255, of_nat g / 255, of_nat b / 255, of_nat a / 255)))))))"

text \<open>\<open>parse_hex_rgba(..).unwrap_or_else(|| parse_hex_rgba(default).unwrap())\<close>.\<close>

definition rgba_or :: "chars \<Rightarrow> chars \<Rightarrow> rgba option" where
  "rgba_or s dflt = (case parse_hex_rgba s of
     None \<Rightarrow> None
   | Some (Some c) \<Rightarrow> Some c
   | Some None \<Rightarrow> (case parse_hex_rgba dflt of Some (Some c) \<Rightarrow> Some c | _ \<Rightarrow> None))"

text \<open>\<open>wallpaper.rs\<close>: a channel back to its byte.\<close>

definition channel_u8 :: "rat \<Rightarrow> nat" where
  "channel_u8 x = nat \<lfloor>max 0 (min 1 x) * 255 + 1 / 2\<rfloor>"

definition color_u8 :: "rgba \<Rightarrow> nat \<times> nat \<times> nat \<times> nat" where
  "color_u8 c = (case c of (r, g, b, a) \<Rightarrow> (channel_u8 r, channel_u8 g, channel_u8 b, channel_u8 a))"

section \<open>Sections of the file\<close>

datatype output_transform = Normal | Rot90 | Rot180 | Rot270 | Flipped | Flipped90 | Flipped180 | Flipped270

datatype background_mode = Fill | Fit | Center | Stretch | Tile

record background_override =
  ov_color :: "chars option"
  ov_image :: "chars option"
  ov_mode :: "background_mode option"

record output_config =
  out_scale :: "f64 option"
  out_position :: "(int \<times> int) option"
  adaptive_sync :: "bool option"
  out_transform :: "output_transform option"
  out_background :: "background_override option"

datatype headless_renderer = Auto | Gles | Llvmpipe | Pixman

definition renderer_from_str :: "chars \<Rightarrow> chars + headless_renderer" where
  "renderer_from_str s =
    (if s = literal ''auto'' then Inr Auto
     else if s = literal ''gles'' then Inr Gles
     else if s = literal ''llvmpipe'' then Inr Llvmpipe
     else if s = literal ''pixman'' then Inr Pixman
     else Inl s)"

record headless =
  idle_suspend :: bool
  renderer :: headless_renderer

definition headless_default :: headless where
  "headless_default = \<lparr> idle_suspend = False, renderer = Auto \<rparr>"

record portal =
  screencast_output :: "chars option"
  screencast_chooser :: chars
  screencast_dmabuf :: bool

definition portal_default :: portal where
  "portal_default = \<lparr> screencast_output = None, screencast_chooser = literal ''region'', screencast_dmabuf = False \<rparr>"

record diagnostics =
  diag_enabled :: bool
  sample_interval_ms :: u64
  fd_warn_fraction :: f64
  overlay_font_size :: u32
  overlay_fg_color :: chars
  overlay_bg_color :: chars

definition default_overlay_fg :: chars where "default_overlay_fg = literal ''#e0e0e0''"
definition default_overlay_bg :: chars where "default_overlay_bg = literal ''#1c1f26e0''"

definition diagnostics_default :: diagnostics where
  "diagnostics_default = \<lparr> diag_enabled = True, sample_interval_ms = 1000,
     fd_warn_fraction = 0x3FE8000000000000, overlay_font_size = 0x41700000,
     overlay_fg_color = default_overlay_fg, overlay_bg_color = default_overlay_bg \<rparr>"

definition overlay_fg_rgba :: "diagnostics \<Rightarrow> rgba option" where
  "overlay_fg_rgba d = rgba_or (overlay_fg_color d) default_overlay_fg"

definition overlay_bg_rgba :: "diagnostics \<Rightarrow> rgba option" where
  "overlay_bg_rgba d = rgba_or (overlay_bg_color d) default_overlay_bg"

record decorations =
  border_width :: u32
  focused_color :: chars
  unfocused_color :: chars

definition default_focused_border :: chars where "default_focused_border = literal ''#5e81ac''"
definition default_unfocused_border :: chars where "default_unfocused_border = literal ''#4c566a''"

definition decorations_default :: decorations where
  "decorations_default = \<lparr> border_width = 0, focused_color = default_focused_border,
     unfocused_color = default_unfocused_border \<rparr>"

definition focused_rgba :: "decorations \<Rightarrow> rgba option" where
  "focused_rgba d = rgba_or (focused_color d) default_focused_border"

definition unfocused_rgba :: "decorations \<Rightarrow> rgba option" where
  "unfocused_rgba d = rgba_or (unfocused_color d) default_unfocused_border"

definition colour_error :: "chars \<Rightarrow> string \<Rightarrow> string list option" where
  "colour_error s name = map_option (\<lambda>c. if c = None then [name] else []) (parse_hex_rgba s)"

definition decorations_color_errors :: "decorations \<Rightarrow> string list option" where
  "decorations_color_errors d =
    Option.bind (colour_error (focused_color d) ''decorations.focused_color'') (\<lambda>e1.
    map_option (\<lambda>e2. e1 @ e2) (colour_error (unfocused_color d) ''decorations.unfocused_color''))"

record background =
  bg_color :: chars
  bg_image :: "chars option"
  bg_mode :: background_mode

definition default_background_color :: chars where "default_background_color = literal ''#1a1a1a''"

definition background_default :: background where
  "background_default = \<lparr> bg_color = default_background_color, bg_image = None, bg_mode = Fill \<rparr>"

definition background_rgba :: "background \<Rightarrow> rgba option" where
  "background_rgba b = rgba_or (bg_color b) default_background_color"

definition background_color_errors :: "background \<Rightarrow> string list option" where
  "background_color_errors b = colour_error (bg_color b) ''background.color''"

section \<open>Paths\<close>

definition is_name_char :: "u32 \<Rightarrow> bool" where
  "is_name_char c \<longleftrightarrow> 48 \<le> c \<and> c \<le> 57 \<or> 65 \<le> c \<and> c \<le> 90 \<or> 97 \<le> c \<and> c \<le> 122 \<or> c = 95"

text \<open>\<open>find('}')\<close>: what is before it and what is after it.\<close>

fun cut_brace :: "chars \<Rightarrow> (chars \<times> chars) option" where
  "cut_brace [] = None"
| "cut_brace (c # s) = (if c = 125 then Some ([], s) else map_option (\<lambda>(l, r). (c # l, r)) (cut_brace s))"

lemma cut_brace_shorter: "cut_brace s = Some (l, r) \<Longrightarrow> length r < length s"
  by (induction s arbitrary: l r) (auto split: if_splits intro: less_SucI)

lemma cut_brace_append: "cut_brace s = Some (l, r) \<longleftrightarrow> s = l @ 125 # r \<and> 125 \<notin> set l"
  by (induction s arbitrary: l r) (auto split: if_splits simp: Cons_eq_append_conv)

lemma cut_brace_None: "cut_brace s = None \<longleftrightarrow> 125 \<notin> set s"
  by (induction s) auto

text \<open>The name a reference starts with, and the rest: \<open>None\<close> when the dollar stands for itself.\<close>

definition reference :: "chars \<Rightarrow> (chars \<times> chars) option" where
  "reference s =
    (case s of
       [] \<Rightarrow> None
     | c # cs \<Rightarrow>
         (if c = 123 then cut_brace cs
          else if takeWhile is_name_char s = [] then None
          else Some (takeWhile is_name_char s, dropWhile is_name_char s)))"

lemma reference_shorter: "reference s = Some (n, r) \<Longrightarrow> length r < length s"
proof -
  assume a: "reference s = Some (n, r)"
  show ?thesis
  proof (cases s)
    case (Cons c cs)
    have "length (dropWhile is_name_char cs) \<le> length cs" by (rule length_dropWhile_le)
    with a Cons show ?thesis by (auto simp: reference_def split: if_splits dest!: cut_brace_shorter)
  qed (use a in \<open>simp add: reference_def\<close>)
qed

function expand_vars :: "(chars \<Rightarrow> chars option) \<Rightarrow> chars \<Rightarrow> chars" where
  "expand_vars env [] = []"
| "expand_vars env (c # s) =
    (if c = 36 then
       (case reference s of
          None \<Rightarrow> c # expand_vars env s
        | Some (name, rest) \<Rightarrow> (case env name of Some v \<Rightarrow> v | None \<Rightarrow> []) @ expand_vars env rest)
     else c # expand_vars env s)"
  by pat_completeness auto
termination
  by (relation "measure (\<lambda>(_, s). length s)") (auto dest: reference_shorter)

definition expand_path :: "(chars \<Rightarrow> chars option) \<Rightarrow> chars \<Rightarrow> chars" where
  "expand_path env s =
    (case strip_prefix (literal ''~/'') s of
       Some rest \<Rightarrow> (case env (literal ''HOME'') of Some h \<Rightarrow> h @ literal ''/'' | None \<Rightarrow> []) @ expand_vars env rest
     | None \<Rightarrow> expand_vars env s)"

definition image_path :: "(chars \<Rightarrow> chars option) \<Rightarrow> background \<Rightarrow> chars option" where
  "image_path env b = map_option (expand_path env) (bg_image b)"

section \<open>Settings and their defaults\<close>

datatype tap_button_map = LeftRightMiddle | LeftMiddleRight
datatype scroll_method = NoScroll | TwoFinger | Edge | OnButtonDown
datatype click_method = ButtonAreas | Clickfinger
datatype accel_profile = Adaptive | Flat

record input_settings =
  tap_to_click :: "bool option"
  tap_button_map :: "tap_button_map option"
  tap_and_drag :: "bool option"
  drag_lock :: "bool option"
  natural_scroll :: "bool option"
  scroll_method :: "scroll_method option"
  scroll_button :: "u32 option"
  click_method :: "click_method option"
  accel_speed :: "f64 option"
  accel_profile :: "accel_profile option"
  disable_while_typing :: "bool option"
  left_handed :: "bool option"
  middle_emulation :: "bool option"

definition input_default :: input_settings where
  "input_default = \<lparr> tap_to_click = None, tap_button_map = None, tap_and_drag = None, drag_lock = None,
     natural_scroll = None, scroll_method = None, scroll_button = None, click_method = None,
     accel_speed = None, accel_profile = None, disable_while_typing = None, left_handed = None,
     middle_emulation = None \<rparr>"

record debug_flags =
  disable_direct_scanout :: bool
  disable_overlay_planes :: bool
  disable_cursor_plane :: bool
  protocol_trace :: bool

definition debug_default :: debug_flags where
  "debug_default = \<lparr> disable_direct_scanout = False, disable_overlay_planes = False,
     disable_cursor_plane = False, protocol_trace = False \<rparr>"

record workspace_settings =
  ws_count :: u8
  ws_names :: "(chars \<times> chars) list"

definition workspaces_default :: workspace_settings where
  "workspaces_default = \<lparr> ws_count = 16, ws_names = [] \<rparr>"

datatype focus_mode = ClickToFocus | FollowsMouse | Sloppy

record general =
  focus_mode :: focus_mode
  repeat_delay :: int
  repeat_rate :: int
  desktop_scroll_notches :: u32
  output_scale :: f64
  lock_command :: chars
  lock_preview_secs :: u64
  autostart :: "chars list"
  automation_enabled :: bool
  screen_capture_enabled :: bool
  idle_notifications_enabled :: bool
  idle_lock_secs :: u64
  xkb_layout :: chars
  xkb_variant :: chars
  xkb_options :: "chars option"
  xkb_rules :: chars
  xkb_model :: chars

definition general_default :: general where
  "general_default = \<lparr> focus_mode = ClickToFocus, repeat_delay = 600, repeat_rate = 25,
     desktop_scroll_notches = 1, output_scale = 0x3FF0000000000000, lock_command = literal ''shoestring-lock'',
     lock_preview_secs = 8, autostart = [literal ''shoestring-bar'', literal ''shoestring-mediad''],
     automation_enabled = False, screen_capture_enabled = False, idle_notifications_enabled = False,
     idle_lock_secs = 0, xkb_layout = [], xkb_variant = [], xkb_options = None, xkb_rules = [], xkb_model = [] \<rparr>"

section \<open>Actions and bindings\<close>

datatype wm_action =
    Spawn chars "chars list" | Quit | PowerOff | Reboot | Suspend | ReloadConfig
  | ActTileLeft | ActTileRight | Maximize | ArrangeGrid | ArrangeSpiral | ArrangeBsp
  | Minimize | Unminimize | Close | CycleWindows | Raise | Lower | ToggleSticky | ToggleAlwaysOnTop
  | FocusWorkspace u8 | FocusWorkspaceRelative int | MoveWindowToWorkspace u8 | MoveWindowToWorkspaceRelative int
  | FocusMachineRelative int | RemoteBreakout | Screenshot | ClipboardPush | ClipboardPull | ChangeVt u8
  | InjectKey chars | InjectText chars | InjectClick chars | Lock | CycleLayout
  | ToggleAudioMute | ToggleMicMute | ToggleDiagnostics

record binding =
  mods :: "chars list"
  key :: chars
  act :: wm_action

definition bind :: "string list \<Rightarrow> string \<Rightarrow> wm_action \<Rightarrow> binding" where
  "bind ms k a = \<lparr> mods = map literal ms, key = literal k, act = a \<rparr>"

definition fixed_bindings :: "binding list" where
  "fixed_bindings =
    [bind [''Super''] ''Return'' (Spawn (literal ''alacritty'') []),
     bind [''Super'', ''Shift''] ''q'' Quit,
     bind [''Super''] ''p'' (Spawn (literal ''shoestring-menu'') []),
     bind [''Super''] ''b'' (Spawn (literal ''shoestring-menu'') [literal ''--mode'', literal ''bookmarks'']),
     bind [''Super''] ''Tab'' (Spawn (literal ''shoestring-menu'') [literal ''--mode'', literal ''windows'']),
     bind [''Super''] ''e'' ActTileLeft,
     bind [''Super''] ''w'' ActTileRight,
     bind [''Super''] ''m'' Maximize,
     bind [''Super''] ''g'' ArrangeGrid,
     bind [''Super'', ''Shift''] ''g'' ArrangeSpiral,
     bind [''Super'', ''Ctrl''] ''g'' ArrangeBsp,
     bind [''Super''] ''d'' Minimize,
     bind [''Super'', ''Shift''] ''d'' Unminimize,
     bind [''Super''] ''x'' Close,
     bind [''Alt''] ''Tab'' CycleWindows,
     bind [''Super''] ''Down'' CycleWindows,
     bind [''Super''] ''Up'' Raise,
     bind [''Super'', ''Shift''] ''Up'' Lower,
     bind [''Super''] ''s'' ToggleSticky,
     bind [''Super''] ''a'' ToggleAlwaysOnTop,
     bind [''Super'', ''Shift''] ''l'' Lock,
     bind [''Super''] ''space'' CycleLayout,
     bind [''Super''] ''h'' (FocusWorkspaceRelative (- 1)),
     bind [''Super''] ''l'' (FocusWorkspaceRelative 1),
     bind [''Super'', ''Ctrl''] ''h'' (MoveWindowToWorkspaceRelative (- 1)),
     bind [''Super'', ''Ctrl''] ''l'' (MoveWindowToWorkspaceRelative 1),
     bind [''Super''] ''k'' (FocusMachineRelative (- 1)),
     bind [''Super''] ''j'' (FocusMachineRelative 1),
     bind [''Super''] ''Escape'' RemoteBreakout,
     bind [''Super'', ''Shift''] ''c'' ClipboardPush,
     bind [''Super'', ''Shift''] ''v'' ClipboardPull,
     bind [] ''Print'' Screenshot]"

definition number_bindings :: "binding list" where
  "number_bindings = concat (map (\<lambda>n.
     [bind [''Super''] [char_of (48 + n)] (FocusWorkspace (of_nat n)),
      bind [''Super'', ''Shift''] [char_of (48 + n)] (MoveWindowToWorkspace (of_nat n))]) [1..<10])"

definition vt_bindings :: "binding list" where
  "vt_bindings = map (\<lambda>n. bind [''Ctrl'', ''Alt''] (''F'' @ decimal (int n)) (ChangeVt (of_nat n))) [1..<13]"

definition media_bindings :: "binding list" where
  "media_bindings = map (\<lambda>(k, command). bind [] k (Spawn (literal command) []))
    [(''XF86AudioRaiseVolume'', ''shoestring-volume-up''),
     (''XF86AudioLowerVolume'', ''shoestring-volume-down''),
     (''XF86AudioMute'', ''shoestring-volume-mute''),
     (''XF86AudioMicMute'', ''shoestring-mic-mute''),
     (''XF86MonBrightnessUp'', ''shoestring-brightness-up''),
     (''XF86MonBrightnessDown'', ''shoestring-brightness-down'')]"

definition default_bindings :: "binding list" where
  "default_bindings = fixed_bindings @ [bind [''Super''] ''F3'' ToggleDiagnostics] @
     number_bindings @ vt_bindings @ media_bindings"

section \<open>Window rules\<close>

record window_match =
  want_app_id :: "chars option"
  title_contains :: "chars option"
  app_id_regex :: "chars option"
  title_regex :: "chars option"

datatype rule_layout = RuleFloating | RuleTiledLeft | RuleTiledRight | RuleMaximized

record window_actions =
  to_workspace :: "nat option"
  to_position :: "(int \<times> int) option"
  to_size :: "(int \<times> int) option"
  make_sticky :: "bool option"
  make_always_on_top :: "bool option"
  to_output :: "chars option"
  to_layout :: "rule_layout option"

record window_rule =
  matcher :: window_match
  actions :: window_actions

text \<open>\<open>Regex::new\<close>: an error, or the test of a string.\<close>

type_synonym 'e regex_lib = "chars \<Rightarrow> 'e + (chars \<Rightarrow> bool)"

definition regex_matches :: "'e regex_lib \<Rightarrow> chars \<Rightarrow> chars \<Rightarrow> bool" where
  "regex_matches regex pat s = (case regex pat of Inl _ \<Rightarrow> False | Inr f \<Rightarrow> f s)"

definition rule_matches :: "'e regex_lib \<Rightarrow> window_match \<Rightarrow> chars \<Rightarrow> chars \<Rightarrow> bool" where
  "rule_matches regex m app_id title =
    (if (case want_app_id m of Some want \<Rightarrow> want \<noteq> app_id | None \<Rightarrow> False) then False
     else if (case title_contains m of Some needle \<Rightarrow> \<not> contains needle title | None \<Rightarrow> False) then False
     else if (case app_id_regex m of Some pat \<Rightarrow> \<not> regex_matches regex pat app_id | None \<Rightarrow> False) then False
     else if (case title_regex m of Some pat \<Rightarrow> \<not> regex_matches regex pat title | None \<Rightarrow> False) then False
     else True)"

section \<open>The whole file\<close>

record config =
  general :: general
  workspaces :: workspace_settings
  bindings :: "binding list"
  window_rules :: "window_rule list"
  outputs :: "chars \<rightharpoonup> output_config"
  diagnostics :: diagnostics
  input :: input_settings
  map_to_output :: "chars option"
  portal :: portal
  decorations :: decorations
  global_background :: background
  data_control :: bool
  headless :: headless
  debug :: debug_flags

definition with_default_bindings :: config where
  "with_default_bindings = \<lparr> general = general_default, workspaces = workspaces_default,
     bindings = default_bindings, window_rules = [], outputs = Map.empty, diagnostics = diagnostics_default,
     input = input_default, map_to_output = None, portal = portal_default, decorations = decorations_default,
     global_background = background_default, data_control = False, headless = headless_default,
     debug = debug_default \<rparr>"

definition background_for :: "config \<Rightarrow> chars \<Rightarrow> background" where
  "background_for c output_name =
    (case Option.bind (outputs c output_name) out_background of
       None \<Rightarrow> global_background c
     | Some ov \<Rightarrow>
         (let base = global_background c
          in \<lparr> bg_color = (case ov_color ov of Some x \<Rightarrow> x | None \<Rightarrow> bg_color base),
               bg_image = (case ov_image ov of Some x \<Rightarrow> Some x | None \<Rightarrow> bg_image base),
               bg_mode = (case ov_mode ov of Some x \<Rightarrow> x | None \<Rightarrow> bg_mode base) \<rparr>))"

datatype regex_field = AppIdRegex | TitleRegex

definition field_errors :: "'e regex_lib \<Rightarrow> nat \<Rightarrow> regex_field \<Rightarrow> chars option \<Rightarrow> (nat \<times> regex_field \<times> chars \<times> 'e) list" where
  "field_errors regex i f pat = (case pat of
     None \<Rightarrow> [] | Some p \<Rightarrow> (case regex p of Inl e \<Rightarrow> [(i, f, p, e)] | Inr _ \<Rightarrow> []))"

definition window_rule_regex_errors :: "'e regex_lib \<Rightarrow> config \<Rightarrow> (nat \<times> regex_field \<times> chars \<times> 'e) list" where
  "window_rule_regex_errors regex c =
    concat (map (\<lambda>(i, rule). field_errors regex i AppIdRegex (app_id_regex (matcher rule)) @
                  field_errors regex i TitleRegex (title_regex (matcher rule)))
      (enumerate 0 (window_rules c)))"

section \<open>Finding and loading the file\<close>

text \<open>Paths are the lists of their components; \<open>read\<close> is the file's content, \<open>toml\<close> the parser.\<close>

type_synonym path = "chars list"

datatype ('io, 'toml) load_error = IoError 'io | TomlError 'toml

definition default_config_path :: "(chars \<Rightarrow> path option) \<Rightarrow> path option" where
  "default_config_path var_os =
    map_option (\<lambda>base. base @ [literal ''shoestring-wm'', literal ''config.toml''])
      (case var_os (literal ''XDG_CONFIG_HOME'') of
         Some p \<Rightarrow> Some p
       | None \<Rightarrow> map_option (\<lambda>h. h @ [literal ''.config'']) (var_os (literal ''HOME'')))"

definition load_from ::
    "(path \<Rightarrow> 'io + 's) \<Rightarrow> ('s \<Rightarrow> 'toml + config) \<Rightarrow> path \<Rightarrow> ('io, 'toml) load_error + config" where
  "load_from read toml p = (case read p of
     Inl e \<Rightarrow> Inl (IoError e)
   | Inr s \<Rightarrow> (case toml s of Inl e \<Rightarrow> Inl (TomlError e) | Inr c \<Rightarrow> Inr c))"

definition load_or_default ::
    "(chars \<Rightarrow> path option) \<Rightarrow> (path \<Rightarrow> bool) \<Rightarrow> (path \<Rightarrow> 'e + config) \<Rightarrow> path option \<Rightarrow>
       'e + config \<times> path option" where
  "load_or_default var_os exists load given =
    (case (case given of Some p \<Rightarrow> Some p | None \<Rightarrow> default_config_path var_os) of
       Some p \<Rightarrow> if exists p then bind_res (load p) (\<lambda>c. Inr (c, Some p)) else Inr (with_default_bindings, None)
     | None \<Rightarrow> Inr (with_default_bindings, None))"

section \<open>The binding table\<close>

type_synonym modmask = u8

definition CTRL :: modmask where "CTRL = 1"
definition ALT :: modmask where "ALT = 2"
definition SHIFT :: modmask where "SHIFT = 4"
definition LOGO :: modmask where "LOGO = 8"

record modifiers_state =
  ctrl :: bool
  alt :: bool
  shift :: bool
  logo :: bool

definition modmask_from_state :: "modifiers_state \<Rightarrow> modmask" where
  "modmask_from_state st =
    (let m0 = 0;
         m1 = (if ctrl st then or m0 CTRL else m0);
         m2 = (if alt st then or m1 ALT else m1);
         m3 = (if shift st then or m2 SHIFT else m2)
     in if logo st then or m3 LOGO else m3)"

definition parse_name :: "chars \<Rightarrow> modmask option" where
  "parse_name name =
    (let n = to_ascii_lowercase name
     in if n = literal ''super'' \<or> n = literal ''logo'' \<or> n = literal ''mod4'' \<or> n = literal ''win'' then Some LOGO
        else if n = literal ''ctrl'' \<or> n = literal ''control'' then Some CTRL
        else if n = literal ''alt'' \<or> n = literal ''mod1'' then Some ALT
        else if n = literal ''shift'' then Some SHIFT
        else None)"

record compiled_bind =
  bind_mods :: modmask
  keysym :: u32
  bind_action :: wm_action

datatype bind_error = UnknownModifier chars chars | UnknownKeysym chars

fun parse_mods :: "modmask \<Rightarrow> chars list \<Rightarrow> chars + modmask" where
  "parse_mods m [] = Inr m"
| "parse_mods m (name # names) = (case parse_name name of None \<Rightarrow> Inl name | Some x \<Rightarrow> parse_mods (or m x) names)"

text \<open>\<open>keysym_of\<close> is \<open>xkb::keysym_from_name\<close> without regard to case; zero is \<open>NoSymbol\<close>.\<close>

definition compile_one :: "(chars \<Rightarrow> u32) \<Rightarrow> binding \<Rightarrow> bind_error + compiled_bind" where
  "compile_one keysym_of b =
    (case parse_mods 0 (mods b) of
       Inl name \<Rightarrow> Inl (UnknownModifier name (key b))
     | Inr m \<Rightarrow>
         (let k = keysym_of (key b)
          in if k = 0 then Inl (UnknownKeysym (key b))
             else Inr \<lparr> bind_mods = m, keysym = k, bind_action = act b \<rparr>))"

definition compile_bindings :: "(chars \<Rightarrow> u32) \<Rightarrow> binding list \<Rightarrow> compiled_bind list \<times> bind_error list" where
  "compile_bindings keysym_of bs =
    foldl (\<lambda>(binds, warnings) b. case compile_one keysym_of b of
        Inr cb \<Rightarrow> (binds @ [cb], warnings)
      | Inl why \<Rightarrow> (binds, warnings @ [why])) ([], []) bs"

definition lookup_bind :: "compiled_bind list \<Rightarrow> modmask \<Rightarrow> u32 \<Rightarrow> wm_action option" where
  "lookup_bind binds m k =
    map_option bind_action (List.find (\<lambda>b. bind_mods b = m \<and> keysym b = k) binds)"

section \<open>Reloading\<close>

record xkb_settings =
  kb_rules :: chars
  kb_model :: chars
  kb_layout :: chars
  kb_variant :: chars
  kb_options :: "chars option"

definition xkb_of :: "general \<Rightarrow> xkb_settings" where
  "xkb_of g = \<lparr> kb_rules = xkb_rules g, kb_model = xkb_model g, kb_layout = xkb_layout g, kb_variant = xkb_variant g,
     kb_options = xkb_options g \<rparr>"

datatype reload_effect =
    WallpaperInvalidated
  | InputReapplied input_settings
  | KeymapSet xkb_settings
  | IdleLockSynced u64
  | ConfigReloadedSent

record live_config =
  live :: config
  table :: "compiled_bind list"
  config_path :: "path option"
  keymap :: xkb_settings
  pending_reload :: "nat option"
  effects :: "reload_effect list"

text \<open>What the reloading uses of the libraries; \<open>set_keymap\<close> says whether XKB accepts the names.\<close>

record config_env =
  keysym_from_name :: "chars \<Rightarrow> u32"
  set_keymap :: "xkb_settings \<Rightarrow> bool"
  on_tty :: bool

definition xkb_changed :: "general \<Rightarrow> general \<Rightarrow> bool" where
  "xkb_changed a b \<longleftrightarrow> xkb_layout a \<noteq> xkb_layout b \<or> xkb_variant a \<noteq> xkb_variant b \<or>
     xkb_options a \<noteq> xkb_options b \<or> xkb_rules a \<noteq> xkb_rules b \<or> xkb_model a \<noteq> xkb_model b"

definition reapply_input_config :: "config_env \<Rightarrow> live_config \<Rightarrow> live_config" where
  "reapply_input_config env w =
    (if on_tty env then w\<lparr> effects := effects w @ [InputReapplied (input (live w))] \<rparr> else w)"

definition reapply_xkb_config :: "config_env \<Rightarrow> live_config \<Rightarrow> live_config" where
  "reapply_xkb_config env w =
    (let x = xkb_of (general (live w))
     in if set_keymap env x then w\<lparr> keymap := x, effects := effects w @ [KeymapSet x] \<rparr> else w)"

text \<open>What \<open>new_inner\<close> starts with: names XKB refuses leave its default keymap.\<close>

definition default_keymap :: xkb_settings where
  "default_keymap = \<lparr> kb_rules = [], kb_model = [], kb_layout = [], kb_variant = [], kb_options = None \<rparr>"

definition live_config_new :: "config_env \<Rightarrow> config \<Rightarrow> path option \<Rightarrow> live_config" where
  "live_config_new env c p =
    (let x = xkb_of (general c)
     in \<lparr> live = c, table = fst (compile_bindings (keysym_from_name env) (bindings c)), config_path = p,
          keymap = (if set_keymap env x then x else default_keymap),
          pending_reload = None, effects = [] \<rparr>)"

text \<open>\<open>load\<close> is what reading the file gives this time; \<open>Inl None\<close> is the error that no file is in use.\<close>

definition reload_config_from_disk ::
    "config_env \<Rightarrow> (path \<Rightarrow> 'e + config) \<Rightarrow> live_config \<Rightarrow> live_config \<times> ('e option + unit)" where
  "reload_config_from_disk env load w =
    (case config_path w of
       None \<Rightarrow> (w, Inl None)
     | Some p \<Rightarrow>
         (case load p of
            Inl e \<Rightarrow> (w, Inl (Some e))
          | Inr c \<Rightarrow>
              (let tbl = fst (compile_bindings (keysym_from_name env) (bindings c));
                   changed = xkb_changed (general (live w)) (general c);
                   w1 = w\<lparr> live := c, table := tbl, effects := effects w @ [WallpaperInvalidated] \<rparr>;
                   w2 = reapply_input_config env w1;
                   w3 = (if changed then reapply_xkb_config env w2 else w2)
               in (w3\<lparr> effects := effects w3 @ [IdleLockSynced (idle_lock_secs (general c)), ConfigReloadedSent] \<rparr>,
                   Inr ()))))"

text \<open>Milliseconds. A new event replaces the timer; inserting the timer may fail.\<close>

definition DEBOUNCE :: nat where "DEBOUNCE = 150"

definition debounce_config_reload :: "nat \<Rightarrow> bool \<Rightarrow> live_config \<Rightarrow> live_config" where
  "debounce_config_reload now inserted w =
    (let w1 = w\<lparr> pending_reload := None \<rparr>
     in if inserted then w1\<lparr> pending_reload := Some (now + DEBOUNCE) \<rparr> else w1)"

datatype event_kind = Modified | Created | Removed | Accessed | OtherKind

text \<open>The callback of the watcher: does this event reach the loop?\<close>

definition forwards :: "chars \<Rightarrow> ('x + event_kind \<times> path list) \<Rightarrow> bool" where
  "forwards file_name res =
    (case res of
       Inl _ \<Rightarrow> False
     | Inr (kind, paths) \<Rightarrow>
         (if kind \<noteq> Modified \<and> kind \<noteq> Created \<and> kind \<noteq> Removed then False
          else list_ex (\<lambda>p. p \<noteq> [] \<and> last p = file_name) paths))"

text \<open>
  A change of the file reaches the loop, a turn of the loop, a request to reload; the last two with what
  reading the file would give then.
\<close>

datatype 'e config_event =
    FileChanged bool
  | LoopAt "path \<Rightarrow> 'e + config"
  | ReloadRequested "path \<Rightarrow> 'e + config"

definition config_step :: "config_env \<Rightarrow> live_config \<Rightarrow> nat \<times> 'e config_event \<Rightarrow> live_config" where
  "config_step env w ev =
    (case ev of
       (now, FileChanged inserted) \<Rightarrow> debounce_config_reload now inserted w
     | (now, LoopAt load) \<Rightarrow>
         (case pending_reload w of
            Some t \<Rightarrow>
              if t \<le> now then fst (reload_config_from_disk env load (w\<lparr> pending_reload := None \<rparr>)) else w
          | None \<Rightarrow> w)
     | (now, ReloadRequested load) \<Rightarrow> fst (reload_config_from_disk env load w))"

section \<open>Bindings\<close>

lemma literal_inj [simp]: "literal s = literal t \<longleftrightarrow> s = t"
proof
  assume "literal s = literal t"
  moreover have "inj (of_char :: char \<Rightarrow> u32)"
  proof (rule injI)
    fix c d :: char
    assume "(of_char c :: u32) = of_char d"
    then have "unat (word_of_nat (of_char c) :: u32) = unat (word_of_nat (of_char d) :: u32)"
      by (simp only: of_nat_of_char)
    moreover have "(of_char c :: nat) < 2 ^ 32" for c :: char by (rule less_le_trans [OF nat_of_char_less_256]) simp
    ultimately have "(of_char c :: nat) = of_char d"
      by (simp add: unat_of_nat take_bit_nat_eq_self del: of_nat_of_char)
    then show "c = d" by simp
  qed
  ultimately show "s = t" by (simp add: literal_def inj_map_eq_map)
qed simp

lemma compile_bindings_eq:
  "compile_bindings ks bs =
    (concat (map (\<lambda>b. case compile_one ks b of Inr cb \<Rightarrow> [cb] | Inl _ \<Rightarrow> []) bs),
     concat (map (\<lambda>b. case compile_one ks b of Inr _ \<Rightarrow> [] | Inl why \<Rightarrow> [why]) bs))"
proof -
  have "foldl (\<lambda>(binds, warnings) b. case compile_one ks b of
        Inr cb \<Rightarrow> (binds @ [cb], warnings) | Inl why \<Rightarrow> (binds, warnings @ [why])) (xs, ys) bs =
    (xs @ concat (map (\<lambda>b. case compile_one ks b of Inr cb \<Rightarrow> [cb] | Inl _ \<Rightarrow> []) bs),
     ys @ concat (map (\<lambda>b. case compile_one ks b of Inr _ \<Rightarrow> [] | Inl why \<Rightarrow> [why]) bs))" for xs ys
    by (induction bs arbitrary: xs ys) (auto split: sum.splits)
  then show ?thesis by (simp add: compile_bindings_def)
qed

text \<open>What a binding of the file stands for: its modifiers and key, when both are known.\<close>

definition chord :: "(chars \<Rightarrow> u32) \<Rightarrow> binding \<Rightarrow> (modmask \<times> u32) option" where
  "chord ks b = (case parse_mods 0 (mods b) of
     Inl _ \<Rightarrow> None | Inr m \<Rightarrow> if ks (key b) = 0 then None else Some (m, ks (key b)))"

lemma compile_one_chord:
  "compile_one ks b = (case chord ks b of
     Some (m, k) \<Rightarrow> Inr \<lparr> bind_mods = m, keysym = k, bind_action = act b \<rparr>
   | None \<Rightarrow> Inl (case parse_mods 0 (mods b) of Inl n \<Rightarrow> UnknownModifier n (key b) | Inr _ \<Rightarrow> UnknownKeysym (key b)))"
  by (simp add: compile_one_def chord_def Let_def split: sum.split)

lemma lookup_first:
  "lookup_bind (fst (compile_bindings ks bs)) m k = map_option act (List.find (\<lambda>b. chord ks b = Some (m, k)) bs)"
  unfolding compile_bindings_eq lookup_bind_def fst_conv
proof (induction bs)
  case (Cons b bs)
  show ?case
  proof (cases "chord ks b")
    case None
    with Cons show ?thesis by (simp add: compile_one_chord find_append)
  next
    case (Some p)
    then show ?thesis using Cons by (cases p) (auto simp: compile_one_chord find_append)
  qed
qed simp

lemma compile_counts:
  "length (fst (compile_bindings ks bs)) + length (snd (compile_bindings ks bs)) = length bs"
  unfolding compile_bindings_eq fst_conv snd_conv by (induction bs) (auto split: sum.splits)

lemma parse_name_simps:
  "parse_name (literal ''Super'') = Some LOGO" "parse_name (literal ''Shift'') = Some SHIFT"
  "parse_name (literal ''Ctrl'') = Some CTRL" "parse_name (literal ''Alt'') = Some ALT"
  by (simp_all add: parse_name_def to_ascii_lowercase_def Let_def)

lemma parse_mods_simps:
  "parse_mods 0 [] = Inr 0"
  "parse_mods 0 [literal ''Super''] = Inr 8"
  "parse_mods 0 [literal ''Super'', literal ''Shift''] = Inr 12"
  "parse_mods 0 [literal ''Super'', literal ''Ctrl''] = Inr 9"
  "parse_mods 0 [literal ''Ctrl'', literal ''Alt''] = Inr 3"
  "parse_mods 0 [literal ''Alt''] = Inr 2"
  by (simp_all only: parse_mods.simps parse_name_simps option.case) (simp_all add: LOGO_def SHIFT_def CTRL_def ALT_def)

text \<open>The chords of the default bindings, spelled as the source spells them.\<close>

definition spelled :: "(nat \<times> string) list" where
  "spelled =
    [(8, ''Return''), (12, ''q''), (8, ''p''), (8, ''b''), (8, ''Tab''), (8, ''e''), (8, ''w''), (8, ''m''),
     (8, ''g''), (12, ''g''), (9, ''g''), (8, ''d''), (12, ''d''), (8, ''x''), (2, ''Tab''), (8, ''Down''),
     (8, ''Up''), (12, ''Up''), (8, ''s''), (8, ''a''), (12, ''l''), (8, ''space''), (8, ''h''), (8, ''l''),
     (9, ''h''), (9, ''l''), (8, ''k''), (8, ''j''), (8, ''Escape''), (12, ''c''), (12, ''v''), (0, ''Print''),
     (8, ''F3''),
     (8, ''1''), (12, ''1''), (8, ''2''), (12, ''2''), (8, ''3''), (12, ''3''), (8, ''4''), (12, ''4''),
     (8, ''5''), (12, ''5''), (8, ''6''), (12, ''6''), (8, ''7''), (12, ''7''), (8, ''8''), (12, ''8''),
     (8, ''9''), (12, ''9''),
     (3, ''F1''), (3, ''F2''), (3, ''F3''), (3, ''F4''), (3, ''F5''), (3, ''F6''), (3, ''F7''), (3, ''F8''),
     (3, ''F9''), (3, ''F10''), (3, ''F11''), (3, ''F12''),
     (0, ''XF86AudioRaiseVolume''), (0, ''XF86AudioLowerVolume''), (0, ''XF86AudioMute''),
     (0, ''XF86AudioMicMute''), (0, ''XF86MonBrightnessUp''), (0, ''XF86MonBrightnessDown'')]"

lemma upt_small: "[1..<10] = [1, 2, 3, 4, 5, 6, 7, 8, 9 :: nat]"
  "[1..<13] = [1, 2, 3, 4, 5, 6, 7, 8, 9, 10, 11, 12 :: nat]"
  by (simp_all add: upt_rec)

lemma spelled_fixed: "map (\<lambda>b. (parse_mods 0 (mods b), key b)) fixed_bindings =
    map (\<lambda>(m, k). (Inr (word_of_nat m), literal k)) (take 32 spelled)"
  unfolding fixed_bindings_def spelled_def bind_def
  by (simp del: literal_simps parse_mods.simps add: parse_mods_simps)

lemma spelled_numbers: "map (\<lambda>b. (parse_mods 0 (mods b), key b)) ([bind [''Super''] ''F3'' ToggleDiagnostics] @ number_bindings) =
    map (\<lambda>(m, k). (Inr (word_of_nat m), literal k)) (take 19 (drop 32 spelled))"
  unfolding number_bindings_def spelled_def bind_def upt_small
  by (simp del: literal_simps parse_mods.simps add: parse_mods_simps char_of_def bit_Suc_0_iff)

lemma spelled_vt_media: "map (\<lambda>b. (parse_mods 0 (mods b), key b)) (vt_bindings @ media_bindings) =
    map (\<lambda>(m, k). (Inr (word_of_nat m), literal k)) (drop 51 spelled)"
  unfolding vt_bindings_def media_bindings_def spelled_def bind_def upt_small decimal_def
  by (simp del: literal_simps parse_mods.simps add: parse_mods_simps digits.simps char_of_def bit_Suc_0_iff)

lemma distinct_spelled: "distinct spelled"
  by (simp add: spelled_def)

lemma spelled_default: "map (\<lambda>b. (parse_mods 0 (mods b), key b)) default_bindings =
    map (\<lambda>(m, k). (Inr (word_of_nat m), literal k)) spelled"
proof -
  have s: "spelled = take 32 spelled @ take 19 (drop 32 spelled) @ drop 51 spelled"
    using append_take_drop_id [of 19 "drop 32 spelled"] by simp
  show ?thesis unfolding default_bindings_def map_append
    by (subst s, unfold map_append spelled_fixed [symmetric] spelled_numbers [symmetric]
        spelled_vt_media [symmetric] append_assoc, rule refl)
qed

lemma find_unique:
  assumes "x \<in> set xs" "p x" "\<And>y. y \<in> set xs \<Longrightarrow> p y \<Longrightarrow> y = x"
  shows "List.find p xs = Some x"
proof (cases "List.find p xs")
  case None
  with assms(1,2) show ?thesis by (metis find_None_iff)
next
  case (Some y)
  then have "y \<in> set xs \<and> p y" by (metis find_Some_iff nth_mem)
  with assms(3) Some show ?thesis by simp
qed

lemma spelled_masks: "list_all (\<lambda>(m, _). m < 256) spelled"
  by (simp add: spelled_def)

lemma default_distinct: "distinct (map (\<lambda>b. (parse_mods 0 (mods b), key b)) default_bindings)"
proof -
  have "inj_on (\<lambda>(m, k). (Inr (word_of_nat m) :: chars + modmask, literal k)) (set spelled)"
  proof (rule inj_onI, clarsimp)
    fix m m' :: nat and k
    assume "(m, k) \<in> set spelled" "(m', k) \<in> set spelled" and eq: "(word_of_nat m :: modmask) = word_of_nat m'"
    with spelled_masks have "m < 256" "m' < 256" by (auto simp: list_all_iff)
    with eq show "m = m'" by (simp add: word_of_nat_eq_iff take_bit_nat_eq_self)
  qed
  then show ?thesis unfolding spelled_default by (simp add: distinct_map distinct_spelled)
qed

lemma default_mods: "b \<in> set default_bindings \<Longrightarrow> \<exists>m. parse_mods 0 (mods b) = Inr m"
proof -
  assume "b \<in> set default_bindings"
  then have "(parse_mods 0 (mods b), key b) \<in> set (map (\<lambda>b. (parse_mods 0 (mods b), key b)) default_bindings)"
    by auto
  then show ?thesis unfolding spelled_default by auto
qed

text \<open>When XKB knows the names of the keys, and as different keys, every binding of the default file
  is kept without a warning and answers its own chord: none hides another.\<close>

theorem default_bindings_all_fire:
  assumes "inj_on ks (key ` set default_bindings)" and "0 \<notin> ks ` key ` set default_bindings"
  shows "snd (compile_bindings ks default_bindings) = [] \<and>
    list_all (\<lambda>b. case chord ks b of
        Some (m, k) \<Rightarrow> lookup_bind (fst (compile_bindings ks default_bindings)) m k = Some (act b)
      | None \<Rightarrow> False) default_bindings"
proof -
  have found: "\<exists>m. chord ks b = Some (m, ks (key b)) \<and>
      lookup_bind (fst (compile_bindings ks default_bindings)) m (ks (key b)) = Some (act b)"
    if b: "b \<in> set default_bindings" for b
  proof -
    obtain m where m: "parse_mods 0 (mods b) = Inr m" using default_mods [OF b] by auto
    have k: "ks (key b) \<noteq> 0" using assms(2) b by (metis image_eqI)
    have c: "chord ks b = Some (m, ks (key b))" by (simp add: chord_def m k)
    have "List.find (\<lambda>b. chord ks b = Some (m, ks (key b'))) default_bindings = Some b" if "b' = b" for b'
    proof (rule find_unique)
      fix y
      assume y: "y \<in> set default_bindings" "chord ks y = Some (m, ks (key b'))"
      then have "parse_mods 0 (mods y) = Inr m" "ks (key y) = ks (key b)"
        using that by (auto simp: chord_def split: sum.splits if_splits)
      moreover from this assms(1) y(1) b have "key y = key b" by (auto dest: inj_onD)
      moreover have "inj_on (\<lambda>b. (parse_mods 0 (mods b), key b)) (set default_bindings)"
        using default_distinct by (simp add: distinct_map)
      ultimately show "y = b" using inj_onD [of "\<lambda>b. (parse_mods 0 (mods b), key b)" _ y b] b y(1) m by simp
    qed (use b c that in auto)
    with c show ?thesis by (simp add: lookup_first)
  qed
  have "snd (compile_bindings ks default_bindings) = []"
    unfolding compile_bindings_eq snd_conv
    by (auto simp: compile_one_chord dest!: found)
  moreover have "list_all (\<lambda>b. case chord ks b of
        Some (m, k) \<Rightarrow> lookup_bind (fst (compile_bindings ks default_bindings)) m k = Some (act b)
      | None \<Rightarrow> False) default_bindings"
    unfolding list_all_iff by (auto dest!: found)
  ultimately show ?thesis by blast
qed

definition sample_keysym :: "chars \<Rightarrow> u32" where
  "sample_keysym s = (case position (\<lambda>k. literal k = s) (map snd spelled) of
     Some i \<Rightarrow> word_of_nat (Suc i) | None \<Rightarrow> 0)"

lemma sample_keysym_ok: "inj_on sample_keysym (key ` set default_bindings) \<and>
    0 \<notin> sample_keysym ` key ` set default_bindings"
proof -
  have known: "\<exists>i<69. position (\<lambda>k. literal k = s) (map snd spelled) = Some i \<and> literal (map snd spelled ! i) = s"
    if "s \<in> key ` set default_bindings" for s
  proof -
    have "s \<in> set (map (literal \<circ> snd) spelled)"
    proof -
      from that have "s \<in> set (map snd (map (\<lambda>b. (parse_mods 0 (mods b), key b)) default_bindings))" by auto
      then show ?thesis unfolding spelled_default by force
    qed
    then have "position (\<lambda>k. literal k = s) (map snd spelled) \<noteq> None" by (auto simp: position_None)
    then obtain i where i: "position (\<lambda>k. literal k = s) (map snd spelled) = Some i" by blast
    have "length spelled = 69" by (simp add: spelled_def)
    with i position_SomeD [OF i] show ?thesis by auto
  qed
  have w: "(word_of_nat (Suc i) :: u32) = word_of_nat (Suc j) \<longleftrightarrow> i = j" if "i < 69" "j < 69" for i j
    using that by (simp add: word_of_nat_eq_iff take_bit_nat_eq_self del: of_nat_Suc)
  have z: "(word_of_nat (Suc i) :: u32) \<noteq> 0" if "i < 69" for i
    using that by (simp add: word_of_nat_eq_0_iff dvd_imp_le del: of_nat_Suc) (auto dest: dvd_imp_le)
  show ?thesis
  proof
    show "inj_on sample_keysym (key ` set default_bindings)"
    proof (rule inj_onI)
      fix s t
      assume s: "s \<in> key ` set default_bindings" and t: "t \<in> key ` set default_bindings"
        and eq: "sample_keysym s = sample_keysym t"
      obtain i where i: "i < 69" "position (\<lambda>k. literal k = s) (map snd spelled) = Some i" "literal (map snd spelled ! i) = s"
        using known [OF s] by blast
      obtain j where j: "j < 69" "position (\<lambda>k. literal k = t) (map snd spelled) = Some j" "literal (map snd spelled ! j) = t"
        using known [OF t] by blast
      from eq i(2) j(2) have "i = j" using w [OF i(1) j(1)] by (simp add: sample_keysym_def del: of_nat_Suc)
      with i(3) j(3) show "s = t" by simp
    qed
    show "0 \<notin> sample_keysym ` key ` set default_bindings"
    proof
      assume "0 \<in> sample_keysym ` key ` set default_bindings"
      then obtain s where s: "s \<in> key ` set default_bindings" "sample_keysym s = 0"
        by (metis imageE)
      with known [OF s(1)] z show False by (auto simp: sample_keysym_def simp del: of_nat_Suc)
    qed
  qed
qed

lemma default_bindings_all_fire_witness: "snd (compile_bindings sample_keysym default_bindings) = []"
  using default_bindings_all_fire [of sample_keysym] sample_keysym_ok by blast

text \<open>Looking a chord up in the compiled table finds the first binding of the file that spells it,
  whatever bindings with unknown modifiers or keys are around it; each of those is one warning.\<close>

theorem lookup_is_first_spelling:
  "lookup_bind (fst (compile_bindings ks bs)) m k = map_option act (List.find (\<lambda>b. chord ks b = Some (m, k)) bs) \<and>
   length (snd (compile_bindings ks bs)) = length (filter (\<lambda>b. chord ks b = None) bs)"
proof -
  have "length (snd (compile_bindings ks bs)) = length (filter (\<lambda>b. chord ks b = None) bs)"
    unfolding compile_bindings_eq snd_conv by (induction bs) (auto simp: compile_one_chord)
  then show ?thesis by (simp add: lookup_first)
qed

lemma parse_name_low: "parse_name n = Some m \<Longrightarrow> and m 0xF = m"
  by (auto simp: parse_name_def Let_def LOGO_def CTRL_def ALT_def SHIFT_def split: if_splits)

lemma parse_mods_low: "parse_mods m names = Inr m' \<Longrightarrow> and m 0xF = m \<Longrightarrow> and m' 0xF = m'"
proof (induction m names rule: parse_mods.induct)
  case (2 m name names)
  then show ?case by (auto split: option.splits simp: bit.conj_disj_distrib2 dest: parse_name_low)
qed simp

lemma bit_of_low: "and m 0xF = (m :: modmask) \<Longrightarrow> bit m n \<Longrightarrow> n < 4"
proof -
  assume a: "and m 0xF = m" and b: "bit m n"
  then have "bit (and m (mask 4)) n" by (simp add: mask_eq_exp_minus_1)
  then show "n < 4" by (simp add: bit_and_iff bit_mask_iff)
qed

lemma low_is_pressed: "and m 0xF = m \<Longrightarrow>
    modmask_from_state \<lparr> ctrl = bit m 0, alt = bit m 1, shift = bit m 2, logo = bit m 3 \<rparr> = m"
proof (rule bit_word_eqI)
  fix n
  assume m: "and m 0xF = m" and "n < LENGTH(8)"
  have l: "bit m n \<Longrightarrow> n < 4" by (rule bit_of_low [OF m])
  have "bit (1 :: u8) n \<longleftrightarrow> n = 0" "bit (2 :: u8) n \<longleftrightarrow> n = 1" "bit (4 :: u8) n \<longleftrightarrow> n = 2" "bit (8 :: u8) n \<longleftrightarrow> n = 3"
    using bit_exp_iff [where 'a = u8, of 1 n] bit_exp_iff [where 'a = u8, of 2 n] bit_exp_iff [where 'a = u8, of 3 n]
    by (auto simp: bit_1_iff)
  moreover have "n = 0 \<or> n = 1 \<or> n = 2 \<or> n = 3 \<or> 4 \<le> n" by linarith
  ultimately show "bit (modmask_from_state \<lparr> ctrl = bit m 0, alt = bit m 1, shift = bit m 2, logo = bit m 3 \<rparr>) n = bit m n"
    using l by (auto simp: modmask_from_state_def Let_def CTRL_def ALT_def SHIFT_def LOGO_def bit_or_iff)
qed

definition pressable :: "compiled_bind \<Rightarrow> bool" where
  "pressable cb \<longleftrightarrow> keysym cb \<noteq> 0 \<and> bind_mods cb \<in> range modmask_from_state"

lemma compiled_pressable: "list_all pressable (fst (compile_bindings ks bs))"
proof -
  have "pressable cb" if cb: "compile_one ks b = Inr cb" for b cb
  proof -
    obtain m where m: "parse_mods 0 (mods b) = Inr m" "ks (key b) \<noteq> 0"
        "cb = \<lparr> bind_mods = m, keysym = ks (key b), bind_action = act b \<rparr>"
      using cb by (cases "parse_mods 0 (mods b)") (auto simp: compile_one_def Let_def split: if_splits)
    have "and m 0xF = m" by (rule parse_mods_low [OF m(1)]) simp
    from low_is_pressed [OF this] have "m \<in> range modmask_from_state" by (metis rangeI)
    with m show ?thesis by (simp add: pressable_def)
  qed
  then show ?thesis unfolding compile_bindings_eq fst_conv list_all_iff by (auto split: sum.splits)
qed

section \<open>The settings in force\<close>

text \<open>The configuration a step takes: it comes to reading, and the file can be read and parsed.\<close>

definition read_config :: "(path \<Rightarrow> 'e + config) \<Rightarrow> live_config \<Rightarrow> config option" where
  "read_config load w = (case config_path w of
     None \<Rightarrow> None
   | Some p \<Rightarrow> (case load p of Inl e \<Rightarrow> None | Inr c \<Rightarrow> Some c))"

definition taken_by :: "live_config \<Rightarrow> nat \<times> 'e config_event \<Rightarrow> config option" where
  "taken_by w ev = (case ev of
     (now, FileChanged inserted) \<Rightarrow> None
   | (now, LoopAt load) \<Rightarrow>
       (case pending_reload w of Some t \<Rightarrow> if t \<le> now then read_config load w else None | None \<Rightarrow> None)
   | (now, ReloadRequested load) \<Rightarrow> read_config load w)"

text \<open>Those of a run, oldest first.\<close>

fun taken :: "config_env \<Rightarrow> live_config \<Rightarrow> (nat \<times> 'e config_event) list \<Rightarrow> config list" where
  "taken env w [] = []"
| "taken env w (ev # evs) =
    (case taken_by w ev of None \<Rightarrow> [] | Some c \<Rightarrow> [c]) @ taken env (config_step env w ev) evs"

text \<open>The keymap of the last of some configurations whose names XKB accepts.\<close>

definition accepted_keymap :: "config_env \<Rightarrow> xkb_settings \<Rightarrow> config list \<Rightarrow> xkb_settings" where
  "accepted_keymap env = foldl (\<lambda>k c. if set_keymap env (xkb_of (general c)) then xkb_of (general c) else k)"

definition in_force :: "config_env \<Rightarrow> live_config \<Rightarrow> bool" where
  "in_force env w \<longleftrightarrow>
     table w = fst (compile_bindings (keysym_from_name env) (bindings (live w))) \<and>
     (set_keymap env (xkb_of (general (live w))) \<longrightarrow> keymap w = xkb_of (general (live w)))"

lemma xkb_changed_iff: "xkb_changed a b \<longleftrightarrow> xkb_of a \<noteq> xkb_of b"
  by (auto simp: xkb_changed_def xkb_of_def)

lemma reapply_simps [simp]:
  "live (reapply_input_config env w) = live w" "table (reapply_input_config env w) = table w"
  "keymap (reapply_input_config env w) = keymap w" "config_path (reapply_input_config env w) = config_path w"
  "pending_reload (reapply_input_config env w) = pending_reload w"
  "live (reapply_xkb_config env w) = live w" "table (reapply_xkb_config env w) = table w"
  "config_path (reapply_xkb_config env w) = config_path w"
  "pending_reload (reapply_xkb_config env w) = pending_reload w"
  "keymap (reapply_xkb_config env w) =
     (if set_keymap env (xkb_of (general (live w))) then xkb_of (general (live w)) else keymap w)"
  by (simp_all add: reapply_input_config_def reapply_xkb_config_def Let_def)

lemma reload_simps:
  "config_path w = Some p \<Longrightarrow> load p = Inr c \<Longrightarrow> live (fst (reload_config_from_disk env load w)) = c"
  "pending_reload (fst (reload_config_from_disk env load w)) = pending_reload w"
  "config_path (fst (reload_config_from_disk env load w)) = config_path w"
  by (simp_all add: reload_config_from_disk_def Let_def split: option.split sum.split)

lemma in_force_reload: "in_force env w \<Longrightarrow> in_force env (fst (reload_config_from_disk env load w))"
  by (auto simp: in_force_def reload_config_from_disk_def Let_def xkb_changed_iff split: option.splits sum.splits)

lemma in_force_step: "in_force env w \<Longrightarrow> in_force env (config_step env w ev)"
proof -
  assume w: "in_force env w"
  have p: "in_force env (w\<lparr> pending_reload := x \<rparr>)" for x using w by (simp add: in_force_def)
  show ?thesis
    using w p [of None] p in_force_reload [OF w] in_force_reload [OF p [of None]]
    by (cases ev) (auto simp: config_step_def debounce_config_reload_def Let_def split: config_event.split option.split)
qed

interpretation settings: stepper "config_step env" "in_force env" "\<lambda>_ _. True" for env
  by unfold_locales (rule in_force_step)

lemma always_admissible: "stepper.admissible_run (config_step env) (\<lambda>_ _. True) w evs"
  by (induction evs arbitrary: w) simp_all

lemma in_force_start: "in_force env (live_config_new env c p)"
  by (simp add: in_force_def live_config_new_def Let_def)

lemma in_force_run: "in_force env (foldl (config_step env) (live_config_new env c p) evs)"
  by (rule settings.run_inv [OF in_force_start always_admissible])

lemma reload_takes:
  "in_force env w \<Longrightarrow> case read_config load w of
     None \<Rightarrow> fst (reload_config_from_disk env load w) = w
   | Some c \<Rightarrow> live (fst (reload_config_from_disk env load w)) = c \<and>
       keymap (fst (reload_config_from_disk env load w)) =
         (if set_keymap env (xkb_of (general c)) then xkb_of (general c) else keymap w)"
  by (auto simp: in_force_def read_config_def reload_config_from_disk_def Let_def xkb_changed_iff
      split: option.split sum.split)

lemma step_takes:
  assumes "in_force env w"
  shows "live (config_step env w ev) = (case taken_by w ev of None \<Rightarrow> live w | Some c \<Rightarrow> c) \<and>
    keymap (config_step env w ev) = accepted_keymap env (keymap w) (case taken_by w ev of None \<Rightarrow> [] | Some c \<Rightarrow> [c])"
proof -
  let ?w = "w\<lparr> pending_reload := None \<rparr>"
  have w: "in_force env ?w" "read_config load ?w = read_config load w" for load :: "path \<Rightarrow> 'b + config"
    using assms by (simp_all add: in_force_def read_config_def)
  obtain now e where ev: "ev = (now, e)" by fastforce
  show ?thesis
  proof (cases e)
    case (FileChanged b)
    then show ?thesis
      by (simp add: ev taken_by_def config_step_def debounce_config_reload_def accepted_keymap_def Let_def)
  next
    case (LoopAt load)
    with reload_takes [OF w(1), of load] w(2) [of load] show ?thesis
      by (cases "pending_reload w"; cases "read_config load w")
        (auto simp: ev taken_by_def config_step_def accepted_keymap_def)
  next
    case (ReloadRequested load)
    with reload_takes [OF assms, of load] show ?thesis
      by (cases "read_config load w") (auto simp: ev taken_by_def config_step_def accepted_keymap_def)
  qed
qed

lemma run_takes:
  "in_force env w \<Longrightarrow>
   live (foldl (config_step env) w evs) = last (live w # taken env w evs) \<and>
   keymap (foldl (config_step env) w evs) = accepted_keymap env (keymap w) (taken env w evs)"
proof (induction evs arbitrary: w)
  case (Cons ev evs)
  from Cons.IH [OF in_force_step [OF Cons.prems], of ev] step_takes [OF Cons.prems, of ev]
  show ?case by (cases "taken_by w ev") (simp_all add: accepted_keymap_def)
qed (simp add: accepted_keymap_def)

text \<open>C24. Whatever the file says each time it is read, however often it changes, and whichever reloads
  fail: the settings in force are those of the last reading that succeeded (at first those of the
  start), the bindings that answer keys are compiled from them, and the keymap is that of the
  last of these configurations whose names XKB accepted.\<close>

theorem settings_stay_in_force:
  "let w0 = live_config_new env c p; w = foldl (config_step env) w0 evs; cs = c # taken env w0 evs
   in live w = last cs \<and>
      table w = fst (compile_bindings (keysym_from_name env) (bindings (last cs))) \<and>
      keymap w = accepted_keymap env default_keymap cs"
proof -
  have "live (live_config_new env c p) = c"
    "keymap (live_config_new env c p) = accepted_keymap env default_keymap [c]"
    by (simp_all add: live_config_new_def accepted_keymap_def Let_def)
  with run_takes [OF in_force_start, of env c p evs] in_force_run [of env c p evs]
  show ?thesis by (simp add: in_force_def Let_def accepted_keymap_def)
qed

text \<open>C25. Every binding of the table is well formed at any time: its key is a real one and its modifiers
  are a set some state of the keyboard has, so it can be pressed.\<close>

theorem every_binding_can_be_pressed:
  "list_all pressable (table (foldl (config_step env) (live_config_new env c p) evs))"
proof -
  have "table (foldl (config_step env) (live_config_new env c p) evs) =
      fst (compile_bindings (keysym_from_name env)
        (bindings (live (foldl (config_step env) (live_config_new env c p) evs))))"
    using in_force_run [of env c p evs] unfolding in_force_def by (rule conjunct1)
  then show ?thesis by (simp only: compiled_pressable)
qed

section \<open>Quiet before a reload\<close>

text \<open>Changes of the file, each before the wait after the one before is over, and turns of the loop.\<close>

fun burst :: "nat \<Rightarrow> (nat \<times> 'e config_event) list \<Rightarrow> bool" where
  "burst t [] = True"
| "burst t ((now, FileChanged inserted) # es) = (inserted \<and> now < t + DEBOUNCE \<and> burst now es)"
| "burst t ((now, LoopAt load) # es) = (now < t + DEBOUNCE \<and> burst t es)"
| "burst t ((now, ReloadRequested load) # es) = False"

fun last_change :: "nat \<Rightarrow> (nat \<times> 'e config_event) list \<Rightarrow> nat" where
  "last_change t [] = t"
| "last_change t ((now, FileChanged inserted) # es) = last_change now es"
| "last_change t ((now, LoopAt load) # es) = last_change t es"
| "last_change t ((now, ReloadRequested load) # es) = last_change t es"

lemma burst_waits:
  "burst t es \<Longrightarrow> pending_reload w = Some (t + DEBOUNCE) \<Longrightarrow>
     foldl (config_step env) w es = w\<lparr> pending_reload := Some (last_change t es + DEBOUNCE) \<rparr>"
proof (induction t es arbitrary: w rule: burst.induct)
  case (2 t now inserted es)
  then show ?case by (simp add: config_step_def debounce_config_reload_def)
next
  case (3 t now load es)
  then show ?case by (simp add: config_step_def)
qed simp_all

definition reloads_sent :: "live_config \<Rightarrow> nat" where
  "reloads_sent w = length (filter (\<lambda>e. e = ConfigReloadedSent) (effects w))"

lemma reloads_sent_reload:
  "config_path w = Some p \<Longrightarrow> load p = Inr c \<Longrightarrow>
     reloads_sent (fst (reload_config_from_disk env load w)) = Suc (reloads_sent w)"
  by (simp add: reload_config_from_disk_def reloads_sent_def Let_def reapply_input_config_def reapply_xkb_config_def)

text \<open>C26. A burst of changes to the file is one reload: none while the changes keep coming, and one at the
  first turn of the loop that finds the last change old enough; it takes what the file says at that turn.\<close>

theorem a_burst_is_one_reload:
  assumes "config_path w = Some p" and "load p = Inr c" and "burst t es"
    and "last_change t es + DEBOUNCE \<le> now"
  shows "let before = foldl (config_step env) w ((t, FileChanged True) # es); after = config_step env before (now, LoopAt load)
    in live before = live w \<and> effects before = effects w \<and>
       live after = c \<and> reloads_sent after = Suc (reloads_sent w) \<and> pending_reload after = None"
proof -
  define w1 where "w1 = w\<lparr> pending_reload := Some (t + DEBOUNCE) \<rparr>"
  have before: "foldl (config_step env) w ((t, FileChanged True) # es) =
      w1\<lparr> pending_reload := Some (last_change t es + DEBOUNCE) \<rparr>"
    using burst_waits [OF assms(3), of w1 env]
    by (simp add: w1_def config_step_def [of _ _ "(t, FileChanged True)"] debounce_config_reload_def)
  have after: "config_step env (w1\<lparr> pending_reload := Some (last_change t es + DEBOUNCE) \<rparr>) (now, LoopAt load) =
      fst (reload_config_from_disk env load (w1\<lparr> pending_reload := None \<rparr>))"
    using assms(4) by (simp add: config_step_def)
  have path: "config_path (w1\<lparr> pending_reload := None \<rparr>) = Some p" using assms(1) by (simp add: w1_def)
  show ?thesis unfolding Let_def before after
    using reload_simps(1) [where load = load and c = c, OF path assms(2)] reload_simps(2) [of env load "w1\<lparr> pending_reload := None \<rparr>"]
      reloads_sent_reload [where load = load and c = c, OF path assms(2)]
    by (simp add: w1_def reloads_sent_def)
qed

definition sample_env :: config_env where
  "sample_env = \<lparr> keysym_from_name = sample_keysym, set_keymap = (\<lambda>_. True), on_tty = True \<rparr>"

lemma a_burst_is_one_reload_witness:
  "let before = foldl (config_step sample_env) (live_config_new sample_env with_default_bindings (Some [literal ''c'']))
       [(0, FileChanged True), (100, FileChanged True), (120, LoopAt (\<lambda>_. Inl ())), (200, FileChanged True)];
     after = config_step sample_env before (360, LoopAt (\<lambda>_. Inr (with_default_bindings\<lparr> data_control := True \<rparr>) :: unit + config))
   in data_control (live after) \<and> reloads_sent after = 1"
  using a_burst_is_one_reload
    [where env = sample_env and w = "live_config_new sample_env with_default_bindings (Some [literal ''c''])"
       and load = "\<lambda>_. Inr (with_default_bindings\<lparr> data_control := True \<rparr>) :: unit + config" and p = "[literal ''c'']" and c = "with_default_bindings\<lparr> data_control := True \<rparr>" and t = 0 and now = 360
       and es = "[(100, FileChanged True), (120, LoopAt (\<lambda>_. Inl ())), (200, FileChanged True)]"]
  by (simp add: live_config_new_def sample_env_def Let_def DEBOUNCE_def reloads_sent_def del: foldl_Cons literal_simps)

section \<open>Colours and paths\<close>

definition hex_digit :: "nat \<Rightarrow> u32" where
  "hex_digit n = word_of_nat (if n < 10 then 48 + n else 87 + n)"

definition hex_byte :: "u8 \<Rightarrow> chars" where
  "hex_byte b = [hex_digit (unat b div 16), hex_digit (unat b mod 16)]"

lemma unat_u8: "unat (b :: u8) < 256"
  using unsigned_less [of b, where 'a = nat] by simp

lemma hex_digits_all: "list_all (\<lambda>n. to_digit 16 (hex_digit n) = Some n \<and> hex_digit n < 0x80 \<and>
    hex_digit n \<noteq> 35 \<and> hex_digit n \<noteq> 43) [0..<16]"
  by (simp add: upt_rec hex_digit_def to_digit_def)

lemma hex_digit_facts: "n < 16 \<Longrightarrow> to_digit 16 (hex_digit n) = Some n \<and> hex_digit n < 0x80 \<and>
    hex_digit n \<noteq> 35 \<and> hex_digit n \<noteq> 43"
  using hex_digits_all by (simp add: list_all_iff)

lemma hex_byte_parse: "from_str_radix 256 16 (hex_byte b) = Some (unat b)"
proof -
  have "unat b < 256" by (rule unat_u8)
  then have "unat b div 16 < 16" "unat b mod 16 < 16" "unat b div 16 * 16 + unat b mod 16 = unat b" by auto
  with \<open>unat b < 256\<close> hex_digit_facts [of "unat b div 16"] hex_digit_facts [of "unat b mod 16"]
  show ?thesis by (simp add: from_str_radix_def hex_byte_def)
qed

lemma hex_byte_ascii: "ascii (hex_byte b)" "length (hex_byte b) = 2"
  using hex_digit_facts [of "unat b div 16"] hex_digit_facts [of "unat b mod 16"] unat_u8 [of b]
  by (simp_all add: ascii_def hex_byte_def less_mult_imp_div_less)

lemma ascii_simps [simp]: "ascii (s @ t) \<longleftrightarrow> ascii s \<and> ascii t" "ascii []"
  "ascii (c # s) \<longleftrightarrow> c < 0x80 \<and> ascii s"
  by (simp_all add: ascii_def)

lemma channel_u8_byte: "n < 256 \<Longrightarrow> channel_u8 (of_nat n / 255) = n"
proof -
  assume n: "n < 256"
  then have "(of_nat n :: rat) \<le> of_nat 255" by (simp only: of_nat_le_iff)
  then have "max 0 (min 1 (of_nat n / 255)) = (of_nat n / 255 :: rat)" by simp
  moreover have "\<lfloor>of_nat n / 255 * 255 + 1 / 2 :: rat\<rfloor> = int n" by (rule floor_unique) auto
  ultimately show ?thesis by (simp add: channel_u8_def)
qed

lemma channel_u8_word: "channel_u8 (unsigned (x :: u8) / 255) = unat x"
  using channel_u8_byte [OF unat_u8 [of x]] by simp

text \<open>A colour written as eight hexadecimal digits reaches the renderer as exactly those four bytes.\<close>

theorem colour_bytes_round_trip:
  "map_option (map_option color_u8) (parse_hex_rgba (literal ''#'' @ hex_byte r @ hex_byte g @ hex_byte b @ hex_byte a)) =
     Some (Some (unat r, unat g, unat b, unat a))"
proof -
  let ?h = "hex_byte r @ hex_byte g @ hex_byte b @ hex_byte a"
  have asc: "ascii ?h" and len: "length ?h = 8" using hex_byte_ascii by simp_all
  have bytes: "colour_byte ?h 0 = Some (Some (unat r))" "colour_byte ?h 1 = Some (Some (unat g))"
      "colour_byte ?h 2 = Some (Some (unat b))" "colour_byte ?h 3 = Some (Some (unat a))"
    using hex_byte_ascii(2)
    by (simp_all add: colour_byte_def byte_slice_ascii [OF asc] hex_byte_parse)
  show ?thesis
    using bytes len unfolding parse_hex_rgba_def strip_prefix_append option.case Let_def length_into_bytes_ascii [OF asc]
    by (simp add: color_u8_def channel_u8_word)
qed

lemma ascii_colour_no_panic: "ascii s \<Longrightarrow> parse_hex_rgba s \<noteq> None"
proof -
  assume s: "ascii s"
  define h where "h = (case strip_prefix (literal ''#'') s of Some r \<Rightarrow> r | None \<Rightarrow> s)"
  have h: "ascii h" using s by (auto simp: h_def strip_prefix_Some split: option.split)
  have "colour_byte h i \<noteq> None" if "i * 2 + 2 \<le> length h" for i
    using byte_slice_ascii [OF h, of "i * 2" "i * 2 + 2"] that by (simp add: colour_byte_def)
  then have "length h = 6 \<or> length h = 8 \<Longrightarrow> colour_byte h 0 \<noteq> None \<and> colour_byte h 1 \<noteq> None \<and> colour_byte h 2 \<noteq> None"
    and "length h = 8 \<Longrightarrow> colour_byte h 3 \<noteq> None"
    by auto
  then show ?thesis
    unfolding parse_hex_rgba_def Let_def h_def [symmetric] length_into_bytes_ascii [OF h]
    by (auto simp: try_byte_def split: option.split)
qed

lemma default_border_parses: "parse_hex_rgba default_focused_border = Some (Some (94 / 255, 129 / 255, 172 / 255, 1))"
  by (simp add: default_focused_border_def parse_hex_rgba_def Let_def into_bytes_def utf8_char_def
      colour_byte_def byte_slice_def split_at_byte.simps from_str_radix_def to_digit_def)

text \<open>A border colour of ASCII characters always gives a colour, the default one when it is no colour; one
  whose cut falls inside a character ends the program instead.\<close>

theorem ascii_colours_fall_back:
  assumes "ascii (focused_color d)"
  shows "focused_rgba d = (case parse_hex_rgba (focused_color d) of
      Some (Some c) \<Rightarrow> Some c | _ \<Rightarrow> Some (94 / 255, 129 / 255, 172 / 255, 1)) \<and>
    focused_rgba (d\<lparr> focused_color := literal ''#a'' @ 0xE9 # literal ''bcd'' \<rparr>) = None"
proof -
  have "parse_hex_rgba (literal ''#a'' @ 0xE9 # literal ''bcd'') = None"
    by (simp add: parse_hex_rgba_def Let_def into_bytes_def utf8_char_def colour_byte_def byte_slice_def
        split_at_byte.simps)
  then show ?thesis using ascii_colour_no_panic [OF assms]
    by (auto simp: focused_rgba_def rgba_or_def default_border_parses split: option.split)
qed

lemma ascii_colours_fall_back_witness:
  "focused_rgba (decorations_default\<lparr> focused_color := literal ''red'' \<rparr>) = Some (94 / 255, 129 / 255, 172 / 255, 1)"
  using ascii_colours_fall_back [of "decorations_default\<lparr> focused_color := literal ''red'' \<rparr>"]
  by (simp add: parse_hex_rgba_def Let_def into_bytes_def utf8_char_def)

lemma expand_vars_plain: "36 \<notin> set s \<Longrightarrow> expand_vars env (s @ r) = s @ expand_vars env r"
  by (induction s) auto

lemma references_are_replaced:
  "36 \<notin> set l \<Longrightarrow> 125 \<notin> set name \<Longrightarrow>
     expand_vars env (l @ literal ''${'' @ name @ literal ''}'' @ r) =
       l @ (case env name of Some v \<Rightarrow> v | None \<Rightarrow> []) @ expand_vars env r"
proof -
  assume "36 \<notin> set l" and n: "125 \<notin> set name"
  moreover have "reference (123 # name @ 125 # r) = Some (name, r)"
    using n by (simp add: reference_def cut_brace_append)
  ultimately show ?thesis by (simp add: expand_vars_plain)
qed

lemma open_reference_is_text: "125 \<notin> set r \<Longrightarrow> 36 \<notin> set r \<Longrightarrow> expand_vars env (36 # 123 # r) = 36 # 123 # r"
  using expand_vars_plain [of r env "[]"] by (simp add: reference_def cut_brace_None [THEN iffD2])

lemma lone_tilde_is_text: "expand_path env (literal ''~'') = literal ''~''"
  by (simp add: expand_path_def)

lemma home_is_not_rescanned:
  "env (literal ''HOME'') = Some h \<Longrightarrow> 36 \<notin> set s \<Longrightarrow> expand_path env (literal ''~/'' @ s) = h @ literal ''/'' @ s"
  using expand_vars_plain [of s env "[]"] by (simp add: expand_path_def)

lemma rule_matches_iff:
  "rule_matches regex m app_id title \<longleftrightarrow>
     pred_option (\<lambda>w. w = app_id) (want_app_id m) \<and> pred_option (\<lambda>n. contains n title) (title_contains m) \<and>
     pred_option (\<lambda>p. regex_matches regex p app_id) (app_id_regex m) \<and>
     pred_option (\<lambda>p. regex_matches regex p title) (title_regex m)"
  by (simp add: rule_matches_def split: option.split)

text \<open>A reported pattern never lets its rule apply.\<close>

lemma reported_rules_never_match:
  "(i, f, p, e) \<in> set (window_rule_regex_errors regex c) \<Longrightarrow>
     i < length (window_rules c) \<and> \<not> rule_matches regex (matcher (window_rules c ! i)) app_id title"
  by (auto simp: window_rule_regex_errors_def field_errors_def rule_matches_def regex_matches_def in_set_enumerate_eq
      split: option.splits sum.splits if_splits) metis+

lemma background_override_wins:
  "outputs c n = Some oc \<Longrightarrow> out_background oc = Some ov \<Longrightarrow> ov_color ov = Some x \<Longrightarrow> bg_color (background_for c n) = x"
  "outputs c n = None \<Longrightarrow> background_for c n = global_background c"
  by (simp_all add: background_for_def Let_def)

text \<open>A file that cannot be read or parsed is an error, never the defaults; one that is missing is.\<close>

lemma missing_file_is_defaults:
  "load_or_default var_os exists ld (Some p) =
     (if exists p then (case ld p of Inl e \<Rightarrow> Inl e | Inr c \<Rightarrow> Inr (c, Some p)) else Inr (with_default_bindings, None))"
  by (simp add: load_or_default_def bind_res_def split: sum.split)

end
