(* ===== verification/WindowRules.thy ===== *)
theory WindowRules
  imports Config Workspaces
begin

text \<open>
  Placing new windows: \<open>src/window_rules.rs\<close>, the map requests of \<open>src/handlers/xdg_shell.rs\<close> and
  \<open>src/xwayland.rs\<close>, the commit handler of \<open>src/handlers/compositor.rs\<close>, and from \<open>src/state.rs\<close> the
  centring of new windows and the always-on-top set. The desktop is that of Workspaces; what else the
  code uses of Smithay is a record of operations on the same state. The rules are those of Config.
\<close>

section \<open>State\<close>

record ('s, 'w, 'o) rule_lib =
  api :: "('s, 'w, 'o) desk_api"
  out_name :: "'o \<Rightarrow> chars"
  app_and_title :: "'s \<Rightarrow> 'w \<Rightarrow> (chars \<times> chars) option"
  set_z_index :: "'s \<Rightarrow> 'w \<Rightarrow> bool \<Rightarrow> 's"
  request_size :: "'s \<Rightarrow> 'w \<Rightarrow> point \<Rightarrow> 's"
  x11_configure :: "'s \<Rightarrow> 'w \<Rightarrow> rectangle \<Rightarrow> 's"

text \<open>\<open>centering\<close> is \<open>pending_initial_center\<close>; \<open>on_top_told\<close> are the broadcasts about \<open>on_top\<close>.\<close>

record ('s, 'w) ruled =
  desk :: "('s, 'w) desktop"
  on_top :: "'w set"
  rules_applied :: "'w set"
  centering :: "'w set"
  on_top_told :: "('w \<times> bool) list"

definition map_desk :: "(('s, 'w) desktop \<Rightarrow> ('s, 'w) desktop) \<Rightarrow> ('s, 'w) ruled \<Rightarrow> ('s, 'w) ruled" where
  "map_desk f rd = rd\<lparr> desk := f (desk rd) \<rparr>"

section \<open>Always on top\<close>

definition set_always_on_top :: "('s, 'w, 'o) rule_lib \<Rightarrow> ('s, 'w) ruled \<Rightarrow> 'w \<Rightarrow> bool \<Rightarrow> ('s, 'w) ruled" where
  "set_always_on_top lib rd w on =
    (if (w \<in> on_top rd) = on then rd
     else
       (let s1 = set_z_index lib (space (desk rd)) w on;
            s2 = (if element_location (api lib) s1 w \<noteq> None then raise_element (api lib) s1 w else s1);
            rd1 = rd\<lparr> on_top := (if on then insert w (on_top rd) else on_top rd - {w}),
                      desk := (desk rd)\<lparr> space := s2 \<rparr> \<rparr>
        in if w \<in> set (foreign (desk rd)) then rd1\<lparr> on_top_told := on_top_told rd @ [(w, on)] \<rparr> else rd1))"

definition toggle_always_on_top_focused :: "('s, 'w, 'o) rule_lib \<Rightarrow> ('s, 'w) ruled \<Rightarrow> ('s, 'w) ruled" where
  "toggle_always_on_top_focused lib rd = (case focused_window (api lib) (desk rd) of
     None \<Rightarrow> rd | Some w \<Rightarrow> set_always_on_top lib rd w (w \<notin> on_top rd))"

section \<open>Centring\<close>

definition sync_x11_location :: "('s, 'w, 'o) rule_lib \<Rightarrow> 's \<Rightarrow> 'w \<Rightarrow> point \<Rightarrow> 's" where
  "sync_x11_location lib s w l = (case kind_of_surface (api lib) s w of
     X11Window \<Rightarrow> x11_configure lib s w (rect_at l (geometry_size (api lib) s w)) | _ \<Rightarrow> s)"

text \<open>The middle of an output's usable area for a window of a size.\<close>

definition centre_in :: "('s, 'w, 'o) desk_api \<Rightarrow> 's \<Rightarrow> 'o \<Rightarrow> point \<Rightarrow> point option" where
  "centre_in a s out sz = map_option (\<lambda>geo.
     let zone = non_exclusive_zone a s out
     in (loc_x geo + loc_x zone + max 0 (size_w zone - fst sz) div 2,
         loc_y geo + loc_y zone + max 0 (size_h zone - snd sz) div 2)) (output_geometry a s out)"

definition output_center_for :: "('s, 'w, 'o) rule_lib \<Rightarrow> 's \<Rightarrow> chars \<Rightarrow> 'w \<Rightarrow> point option" where
  "output_center_for lib s name w =
    Option.bind (List.find (\<lambda>out. out_name lib out = name) (space_outputs (api lib) s))
      (\<lambda>out. centre_in (api lib) s out (geometry_size (api lib) s w))"

definition place :: "('s, 'w, 'o) rule_lib \<Rightarrow> 'w \<Rightarrow> point \<Rightarrow> bool \<Rightarrow> bool \<Rightarrow> ('s, 'w) ruled \<Rightarrow> ('s, 'w) ruled" where
  "place lib w l remap sync rd =
    (let s0 = space (desk rd);
         s1 = (if remap then map_element (api lib) s0 w l else s0);
         s2 = (if remap \<and> sync then sync_x11_location lib s1 w l else s1)
     in rd\<lparr> desk := (desk rd)\<lparr> space := s2, manager := record_location (manager (desk rd)) w l \<rparr>,
            centering := centering rd - {w} \<rparr>)"

text \<open>The output under a window's corner, else the first.\<close>

definition output_at_corner :: "('s, 'w, 'o) desk_api \<Rightarrow> 's \<Rightarrow> 'w \<Rightarrow> 'o option" where
  "output_at_corner a s w =
    (case Option.bind (element_location a s w) (\<lambda>l. List.find
        (\<lambda>out. case output_geometry a s out of Some g \<Rightarrow> rect_contains g l | None \<Rightarrow> False) (space_outputs a s)) of
       Some out \<Rightarrow> Some out
     | None \<Rightarrow> (case space_outputs a s of [] \<Rightarrow> None | out # _ \<Rightarrow> Some out))"

definition try_recenter_pending :: "('s, 'w, 'o) rule_lib \<Rightarrow> 'w \<Rightarrow> ('s, 'w) ruled \<Rightarrow> ('s, 'w) ruled" where
  "try_recenter_pending lib w rd =
    (if w \<notin> centering rd then rd
     else
       (let s = space (desk rd); sz = geometry_size (api lib) s w in
        if fst sz \<le> 0 \<or> snd sz \<le> 0 then rd
        else
          (case Option.bind (output_at_corner (api lib) s w) (\<lambda>out. centre_in (api lib) s out sz) of
             None \<Rightarrow> rd
           | Some l \<Rightarrow> place lib w l True True rd)))"

definition center_for_new_window :: "('s, 'w, 'o) desk_api \<Rightarrow> 's \<Rightarrow> 'w \<Rightarrow> point" where
  "center_for_new_window a s w =
    (case space_outputs a s of
       [] \<Rightarrow> (0, 0)
     | out # _ \<Rightarrow> (case output_geometry a s out of
          None \<Rightarrow> (0, 0)
        | Some g \<Rightarrow> (let sz = geometry_size a s w
                    in (max (loc_x g + (size_w g - fst sz) sdiv 2) (loc_x g),
                        max (loc_y g + (size_h g - snd sz) sdiv 2) (loc_y g)))))"

section \<open>Applying a rule\<close>

definition rule_sticky :: "window_actions \<Rightarrow> 'w \<Rightarrow> ('s, 'w) ruled \<Rightarrow> ('s, 'w) ruled" where
  "rule_sticky a w rd = (case make_sticky a of None \<Rightarrow> rd | Some on \<Rightarrow> map_desk (\<lambda>d. set_sticky d w on) rd)"

definition rule_on_top :: "('s, 'w, 'o) rule_lib \<Rightarrow> window_actions \<Rightarrow> 'w \<Rightarrow> ('s, 'w) ruled \<Rightarrow> ('s, 'w) ruled" where
  "rule_on_top lib a w rd = (case make_always_on_top a of None \<Rightarrow> rd | Some on \<Rightarrow> set_always_on_top lib rd w on)"

definition rule_workspace :: "('s, 'w, 'o) rule_lib \<Rightarrow> window_actions \<Rightarrow> 'w \<Rightarrow> ('s, 'w) ruled \<Rightarrow> ('s, 'w) ruled" where
  "rule_workspace lib a w rd =
    (case to_workspace a of
       None \<Rightarrow> rd
     | Some idx \<Rightarrow>
         (case from_one_based (manager (desk rd)) idx of
            Some target \<Rightarrow> map_desk (\<lambda>d. move_window_to_workspace (api lib) d w target) rd
          | None \<Rightarrow> rd))"

definition rule_output :: "('s, 'w, 'o) rule_lib \<Rightarrow> window_actions \<Rightarrow> 'w \<Rightarrow> bool \<Rightarrow> ('s, 'w) ruled \<Rightarrow> ('s, 'w) ruled" where
  "rule_output lib a w still_mapped rd =
    (case Option.bind (to_output a) (\<lambda>name. output_center_for lib (space (desk rd)) name w) of
       None \<Rightarrow> rd
     | Some l \<Rightarrow> place lib w l still_mapped True rd)"

definition rule_position :: "('s, 'w, 'o) rule_lib \<Rightarrow> window_actions \<Rightarrow> 'w \<Rightarrow> bool \<Rightarrow> ('s, 'w) ruled \<Rightarrow> ('s, 'w) ruled" where
  "rule_position lib a w still_mapped rd =
    (case to_position a of None \<Rightarrow> rd | Some l \<Rightarrow> place lib w l still_mapped False rd)"

definition rule_size :: "('s, 'w, 'o) rule_lib \<Rightarrow> window_actions \<Rightarrow> 'w \<Rightarrow> ('s, 'w) ruled \<Rightarrow> ('s, 'w) ruled" where
  "rule_size lib a w rd =
    (case to_size a of
       None \<Rightarrow> rd
     | Some (x, y) \<Rightarrow>
         (if 0 < x \<and> 0 < y then map_desk (\<lambda>d. d\<lparr> space := request_size lib (space d) w (x, y) \<rparr>) rd else rd))"

definition target_layout :: "rule_layout \<Rightarrow> layout_state option" where
  "target_layout l = (case l of
     RuleFloating \<Rightarrow> None
   | RuleTiledLeft \<Rightarrow> Some TiledLeft
   | RuleTiledRight \<Rightarrow> Some TiledRight
   | RuleMaximized \<Rightarrow> Some Maximized)"

definition rule_tiling :: "('s, 'w, 'o) rule_lib \<Rightarrow> window_actions \<Rightarrow> 'w \<Rightarrow> bool \<Rightarrow> ('s, 'w) ruled \<Rightarrow> ('s, 'w) ruled" where
  "rule_tiling lib a w still_mapped rd =
    (case Option.bind (to_layout a) target_layout of
       None \<Rightarrow> rd
     | Some target \<Rightarrow>
         (if still_mapped
          then map_desk (\<lambda>d. case set_layout (space_api.truncate (api lib)) (space d) (layouts d) w target of
                 (s, lm) \<Rightarrow> d\<lparr> space := s, layouts := lm \<rparr>) rd
          else rd))"

definition perform_actions :: "('s, 'w, 'o) rule_lib \<Rightarrow> window_actions \<Rightarrow> 'w \<Rightarrow> ('s, 'w) ruled \<Rightarrow> ('s, 'w) ruled" where
  "perform_actions lib a w rd =
    (let rd1 = rule_workspace lib a w (rule_on_top lib a w (rule_sticky a w rd));
         still_mapped = w \<in> set (space_elements (api lib) (space (desk rd1)))
     in rule_tiling lib a w still_mapped (rule_size lib a w
          (rule_position lib a w still_mapped (rule_output lib a w still_mapped rd1))))"

definition matching_rule :: "'e regex_lib \<Rightarrow> window_rule list \<Rightarrow> chars \<Rightarrow> chars \<Rightarrow> window_rule option" where
  "matching_rule regex rs app_id title = List.find (\<lambda>r. rule_matches regex (matcher r) app_id title) rs"

definition try_apply_window_rules ::
    "('s, 'w, 'o) rule_lib \<Rightarrow> 'e regex_lib \<Rightarrow> window_rule list \<Rightarrow> 'w \<Rightarrow> ('s, 'w) ruled \<Rightarrow> ('s, 'w) ruled" where
  "try_apply_window_rules lib regex rs w rd =
    (if w \<in> rules_applied rd then rd
     else
       (let rd1 = rd\<lparr> rules_applied := insert w (rules_applied rd) \<rparr> in
        if rs = [] then rd1
        else case app_and_title lib (space (desk rd1)) w of
          None \<Rightarrow> rd1
        | Some (app_id, title) \<Rightarrow>
            (case matching_rule regex rs app_id title of
               None \<Rightarrow> rd1
             | Some r \<Rightarrow> perform_actions lib (actions r) w rd1)))"

section \<open>Mapping, committing, closing\<close>

definition map_xdg :: "('s, 'w, 'o) rule_lib \<Rightarrow> 'w \<Rightarrow> ('s, 'w) ruled \<Rightarrow> ('s, 'w) ruled" where
  "map_xdg lib w rd =
    (let rd1 = map_desk (\<lambda>d. new_toplevel (api lib) d w (center_for_new_window (api lib) (space d) w)) rd
     in rd1\<lparr> centering := insert w (centering rd1) \<rparr>)"

definition commit :: "('s, 'w, 'o) rule_lib \<Rightarrow> 'e regex_lib \<Rightarrow> window_rule list \<Rightarrow> 'w \<Rightarrow> ('s, 'w) ruled \<Rightarrow> ('s, 'w) ruled" where
  "commit lib regex rs w rd =
    (if w \<in> set (space_elements (api lib) (space (desk rd)))
     then try_recenter_pending lib w (try_apply_window_rules lib regex rs w rd)
     else rd)"

text \<open>\<open>map_window_request\<close>, the pointer being at \<open>at_pointer\<close>; \<open>bbox\<close> is what the client is told.\<close>

definition map_x11 ::
    "('s, 'w, 'o) rule_lib \<Rightarrow> 'e regex_lib \<Rightarrow> window_rule list \<Rightarrow> ('s \<Rightarrow> 'w \<Rightarrow> rectangle) \<Rightarrow> point \<Rightarrow> 'w \<Rightarrow>
       ('s, 'w) ruled \<Rightarrow> ('s, 'w) ruled" where
  "map_x11 lib regex rs bbox at_pointer w rd =
    (let d = desk rd;
         act = active (manager d);
         s1 = map_element (api lib) (space d) w at_pointer;
         d1 = emit (WindowOpened w (one_based act))
                (d\<lparr> space := x11_configure lib s1 w (bbox s1 w), manager := assign (manager d) w act at_pointer,
                    foreign := w # foreign d \<rparr>);
         rd1 = try_apply_window_rules lib regex rs w
                 (rd\<lparr> desk := d1, centering := insert w (centering rd) \<rparr>)
     in map_desk (\<lambda>d. focus_window (api lib) d w) rd1)"

definition close_window :: "('s, 'w, 'o) rule_lib \<Rightarrow> 'w \<Rightarrow> ('s, 'w) ruled \<Rightarrow> ('s, 'w) ruled" where
  "close_window lib w rd =
    (if \<not> find_window (api lib) (desk rd) w then rd
     else rd\<lparr> desk := toplevel_destroyed (api lib) (desk rd) w, rules_applied := rules_applied rd - {w},
              on_top := on_top rd - {w}, centering := centering rd - {w} \<rparr>)"

section \<open>What the space does\<close>

text \<open>Beside the laws of the desktop: only mapping moves a window.\<close>

definition rule_laws :: "('s, 'w, 'o) rule_lib \<Rightarrow> bool" where
  "rule_laws lib \<longleftrightarrow> desk_laws (api lib) \<and>
     (\<forall>s w x. element_location (api lib) (set_z_index lib s w x) = element_location (api lib) s) \<and>
     (\<forall>s w x. element_location (api lib) (request_size lib s w x) = element_location (api lib) s) \<and>
     (\<forall>s w x. element_location (api lib) (x11_configure lib s w x) = element_location (api lib) s) \<and>
     (\<forall>s w x. element_location (api lib) (send_configure (api lib) s w x) = element_location (api lib) s)"

lemma rule_lawsD:
  assumes "rule_laws lib"
  shows "desk_laws (api lib)"
    and "element_location (api lib) (set_z_index lib s w b) = element_location (api lib) s"
    and "element_location (api lib) (request_size lib s w p) = element_location (api lib) s"
    and "element_location (api lib) (x11_configure lib s w r) = element_location (api lib) s"
    and "element_location (api lib) (send_configure (api lib) s w c) = element_location (api lib) s"
  using assms unfolding rule_laws_def by blast+

lemma truncate_simps [simp]:
  "element_location (space_api.truncate a) = element_location a"
  "map_element (space_api.truncate a) = map_element a"
  "send_configure (space_api.truncate a) = send_configure a"
  by (simp_all add: space_api.truncate_def)

lemma truncate_laws: "rule_laws lib \<Longrightarrow> space_laws (space_api.truncate (api lib))"
  by (simp add: space_laws_def rule_lawsD desk_lawsD [OF rule_lawsD(1)])

lemma sync_location [simp]:
  "rule_laws lib \<Longrightarrow> element_location (api lib) (sync_x11_location lib s w l) = element_location (api lib) s"
  by (simp add: sync_x11_location_def rule_lawsD split: surface_kind.split)

text \<open>A change of the space that moves nothing, and a placing of a mapped window, keep the desktop in order.\<close>

lemma desk_ok_moves_nothing:
  "element_location a s = element_location a (space d) \<Longrightarrow> desk_ok a d \<Longrightarrow> desk_ok a (d\<lparr> space := s \<rparr>)"
  by (simp add: desk_ok_def window_ok_def mapped_def)

lemma desk_ok_replaced:
  assumes "mapped a d w" "\<And>v. element_location a s v = (if v = w then Some l else element_location a (space d) v)"
    "desk_ok a d"
  shows "desk_ok a (d\<lparr> space := s \<rparr>)"
proof -
  have "mapped a (d\<lparr> space := s \<rparr>) v = mapped a d v" for v
    using assms(1,2) by (simp add: mapped_def del: not_None_eq)
  with assms(3) show ?thesis by (simp add: desk_ok_def window_ok_def)
qed

lemma desk_ok_record_location: "desk_ok a d \<Longrightarrow> desk_ok a (d\<lparr> manager := record_location (manager d) w l \<rparr>)"
  by (auto simp: desk_ok_def window_ok_def mapped_def ws_ok_simps)

section \<open>Rules keep the desktop in order\<close>

lemma on_top_desk:
  assumes "rule_laws lib"
  shows "desk_ok (api lib) (desk rd) \<Longrightarrow> desk_ok (api lib) (desk (set_always_on_top lib rd w on))"
    and "element_location (api lib) (space (desk (set_always_on_top lib rd w on))) =
      element_location (api lib) (space (desk rd))"
    and "manager (desk (set_always_on_top lib rd w on)) = manager (desk rd)"
    and "centering (set_always_on_top lib rd w on) = centering rd"
    and "rules_applied (set_always_on_top lib rd w on) = rules_applied rd"
  by (auto simp: set_always_on_top_def Let_def rule_lawsD [OF assms] desk_lawsD [OF rule_lawsD(1) [OF assms]] fun_eq_iff
      intro: desk_ok_moves_nothing)

lemma place_location:
  assumes "rule_laws lib"
  shows "element_location (api lib) (space (desk (place lib w l remap sync rd))) v =
    (if remap \<and> v = w then Some l else element_location (api lib) (space (desk rd)) v)"
  by (simp add: place_def Let_def assms desk_lawsD [OF rule_lawsD(1) [OF assms]])

lemma place_simps [simp]:
  "centering (place lib w l remap sync rd) = centering rd - {w}"
  "manager (desk (place lib w l remap sync rd)) = record_location (manager (desk rd)) w l"
  "rules_applied (place lib w l remap sync rd) = rules_applied rd"
  "layouts (desk (place lib w l remap sync rd)) = layouts (desk rd)"
  by (simp_all add: place_def Let_def)

lemma place_desk_ok:
  assumes "rule_laws lib" "desk_ok (api lib) (desk rd)" "remap \<Longrightarrow> mapped (api lib) (desk rd) w"
  shows "desk_ok (api lib) (desk (place lib w l remap sync rd))"
proof -
  define s where "s = space (desk (place lib w l remap sync rd))"
  have "desk (place lib w l remap sync rd) =
      (desk rd\<lparr> space := s \<rparr>)\<lparr> manager := record_location (manager (desk rd\<lparr> space := s \<rparr>)) w l \<rparr>"
    by (simp add: s_def place_def Let_def)
  moreover have "desk_ok (api lib) (desk rd\<lparr> space := s \<rparr>)"
  proof (cases remap)
    case True
    then show ?thesis using place_location [OF assms(1), of w l remap sync rd] assms
      by (intro desk_ok_replaced [of _ _ w _ l]) (simp_all add: s_def)
  next
    case False
    then show ?thesis using place_location [OF assms(1), of w l remap sync rd] assms(2)
      by (intro desk_ok_moves_nothing) (simp_all add: s_def fun_eq_iff)
  qed
  ultimately show ?thesis using desk_ok_record_location by metis
qed

lemma set_layout_frame:
  assumes "rule_laws lib" "set_layout (space_api.truncate (api lib)) s lm w target = (s', lm')"
  shows "minimized lm' = minimized lm \<and>
    (element_location (api lib) s' = element_location (api lib) s \<or>
     (\<exists>l. \<forall>v. element_location (api lib) s' v = (if v = w then Some l else element_location (api lib) s v)))"
  using assms(2) location_apply_geometry [OF truncate_laws [OF assms(1)], unfolded truncate_simps]
  by (auto simp: set_layout_def Let_def put_meta_def split: option.splits if_splits)

lemma desk_ok_layouts:
  "minimized lm = minimized (layouts d) \<Longrightarrow> desk_ok a d \<Longrightarrow> desk_ok a (d\<lparr> layouts := lm \<rparr>)"
  by (simp add: desk_ok_def window_ok_def mapped_def is_minimized_def)

lemma tiling_desk_ok:
  assumes "rule_laws lib" "desk_ok (api lib) (desk rd)" "still_mapped \<Longrightarrow> mapped (api lib) (desk rd) w"
  shows "desk_ok (api lib) (desk (rule_tiling lib a w still_mapped rd))"
proof (cases "Option.bind (to_layout a) target_layout")
  case (Some target)
  obtain s lm where r: "set_layout (space_api.truncate (api lib)) (space (desk rd)) (layouts (desk rd)) w target = (s, lm)"
    by (cases "set_layout (space_api.truncate (api lib)) (space (desk rd)) (layouts (desk rd)) w target")
  note f = set_layout_frame [OF assms(1) r]
  show ?thesis
  proof (cases still_mapped)
    case True
    have "desk_ok (api lib) (desk rd\<lparr> space := s \<rparr>)"
      using f assms(2) assms(3) [OF True] by (elim conjE disjE exE) (auto intro: desk_ok_moves_nothing desk_ok_replaced)
    then have "desk_ok (api lib) ((desk rd\<lparr> space := s \<rparr>)\<lparr> layouts := lm \<rparr>)"
      using f by (intro desk_ok_layouts) simp_all
    with Some True r show ?thesis by (simp add: rule_tiling_def map_desk_def)
  qed (use Some assms(2) in \<open>simp add: rule_tiling_def\<close>)
qed (use assms(2) in \<open>simp add: rule_tiling_def\<close>)

lemma from_one_based_less: "from_one_based m i = Some t \<Longrightarrow> t < count m"
  by (auto simp: from_one_based_def split: if_splits)

lemma rule_stages_desk_ok:
  assumes laws: "rule_laws lib" and ok: "desk_ok (api lib) (desk rd)"
  shows "desk_ok (api lib) (desk (rule_on_top lib a w rd))"
    and "desk_ok (api lib) (desk (rule_workspace lib a w rd))"
    and "desk_ok (api lib) (desk (rule_size lib a w rd))"
  using ok desk_ok_move [OF rule_lawsD(1) [OF laws] ok from_one_based_less]
  by (auto simp: rule_on_top_def on_top_desk [OF laws] rule_workspace_def rule_size_def map_desk_def
      rule_lawsD [OF laws] intro!: desk_ok_moves_nothing split: option.split)

lemma sticky_desk_ok:
  assumes "desk_ok (api lib) (desk rd)" "mapped (api lib) (desk rd) w" "alive (desk rd) w"
  shows "desk_ok (api lib) (desk (rule_sticky a w rd))"
proof -
  have "workspace_of (manager (desk rd)) w = Some (active (manager (desk rd)))"
    using assms by (simp add: desk_ok_def window_ok_def)
  then show ?thesis using assms(1)
    by (auto simp: rule_sticky_def map_desk_def intro!: desk_ok_sticky split: option.split)
qed

text \<open>Placing by name or by place needs the window mapped only when it maps it.\<close>

lemma placing_desk_ok:
  assumes laws: "rule_laws lib" and ok: "desk_ok (api lib) (desk rd)"
    and m: "still_mapped \<Longrightarrow> mapped (api lib) (desk rd) w"
  shows "desk_ok (api lib) (desk (rule_output lib a w still_mapped rd))"
    and "desk_ok (api lib) (desk (rule_position lib a w still_mapped rd))"
    and "still_mapped \<Longrightarrow> mapped (api lib) (desk (rule_output lib a w still_mapped rd)) w"
    and "still_mapped \<Longrightarrow> mapped (api lib) (desk (rule_position lib a w still_mapped rd)) w"
  using place_desk_ok [OF laws ok m] ok m
  by (auto simp: rule_output_def rule_position_def mapped_def place_location [OF laws] split: option.split)

lemma size_mapped [simp]:
  "rule_laws lib \<Longrightarrow> mapped (api lib) (desk (rule_size lib a w rd)) v = mapped (api lib) (desk rd) v"
  by (simp add: rule_size_def mapped_def map_desk_def rule_lawsD split: option.split prod.split)

lemma perform_desk_ok:
  assumes laws: "rule_laws lib" and ok: "desk_ok (api lib) (desk rd)"
    and m: "mapped (api lib) (desk rd) w" and al: "alive (desk rd) w"
  shows "desk_ok (api lib) (desk (perform_actions lib a w rd))"
proof -
  define rd1 where "rd1 = rule_workspace lib a w (rule_on_top lib a w (rule_sticky a w rd))"
  define sm where "sm \<longleftrightarrow> w \<in> set (space_elements (api lib) (space (desk rd1)))"
  have ok1: "desk_ok (api lib) (desk rd1)"
    unfolding rd1_def using rule_stages_desk_ok [OF laws] sticky_desk_ok [OF ok m al] by blast
  have m1: "sm \<Longrightarrow> mapped (api lib) (desk rd1) w"
    by (simp add: sm_def mapped_def desk_lawsD(4) [OF rule_lawsD(1) [OF laws]])
  note o2 = placing_desk_ok [OF laws ok1 m1]
  note o3 = placing_desk_ok [OF laws o2(1) o2(3)]
  have "desk_ok (api lib) (desk (rule_tiling lib a w sm (rule_size lib a w
          (rule_position lib a w sm (rule_output lib a w sm rd1)))))"
    by (rule tiling_desk_ok [OF laws]) (simp_all add: rule_stages_desk_ok [OF laws] o3 laws)
  then show ?thesis by (simp add: perform_actions_def rd1_def [symmetric] sm_def [symmetric] Let_def)
qed

lemma desk_mark [simp]: "desk (rd\<lparr> rules_applied := x \<rparr>) = desk rd" "desk (rd\<lparr> centering := x \<rparr>) = desk rd"
  by simp_all

lemma try_apply_desk_ok:
  assumes laws: "rule_laws lib" and ok: "desk_ok (api lib) (desk rd)"
    and m: "mapped (api lib) (desk rd) w" and al: "alive (desk rd) w"
  shows "desk_ok (api lib) (desk (try_apply_window_rules lib regex rs w rd))"
  using perform_desk_ok [OF laws, of "rd\<lparr> rules_applied := insert w (rules_applied rd) \<rparr>" w] assms
  by (auto simp: try_apply_window_rules_def Let_def split: option.split prod.split)

text \<open>Once the rules are applied, the flag of the window alone decides what a commit does.\<close>

lemma applied_stays:
  "rules_applied (map_desk f rd) = rules_applied rd" "centering (map_desk f rd) = centering rd"
  "rules_applied (rule_sticky a w rd) = rules_applied rd" "centering (rule_sticky a w rd) = centering rd"
  "rules_applied (rule_on_top lib a w rd) = rules_applied rd" "centering (rule_on_top lib a w rd) = centering rd"
  "rules_applied (rule_workspace lib a w rd) = rules_applied rd" "centering (rule_workspace lib a w rd) = centering rd"
  "rules_applied (rule_output lib a w sm rd) = rules_applied rd"
  "rules_applied (rule_position lib a w sm rd) = rules_applied rd"
  "rules_applied (rule_size lib a w rd) = rules_applied rd" "centering (rule_size lib a w rd) = centering rd"
  "rules_applied (rule_tiling lib a w sm rd) = rules_applied rd" "centering (rule_tiling lib a w sm rd) = centering rd"
  by (auto simp: map_desk_def rule_sticky_def rule_on_top_def rule_workspace_def rule_output_def rule_position_def
      rule_size_def rule_tiling_def set_always_on_top_def Let_def split: option.split prod.split)

lemma perform_applied: "rules_applied (perform_actions lib a w rd) = rules_applied rd"
  by (simp add: perform_actions_def Let_def applied_stays)

lemma rules_fire_once: "w \<in> rules_applied (try_apply_window_rules lib regex rs w rd)"
  "try_apply_window_rules lib regex rs' w (try_apply_window_rules lib regex rs w rd) = try_apply_window_rules lib regex rs w rd"
proof -
  show a: "w \<in> rules_applied (try_apply_window_rules lib regex rs w rd)"
    by (auto simp: try_apply_window_rules_def Let_def perform_applied split: option.split)
  show "try_apply_window_rules lib regex rs' w (try_apply_window_rules lib regex rs w rd) =
      try_apply_window_rules lib regex rs w rd"
    using a by (subst try_apply_window_rules_def) simp
qed

lemma recenter_desk_ok:
  assumes "rule_laws lib" "desk_ok (api lib) (desk rd)" "mapped (api lib) (desk rd) w"
  shows "desk_ok (api lib) (desk (try_recenter_pending lib w rd))"
  using assms by (auto simp: try_recenter_pending_def Let_def intro!: place_desk_ok split: option.split)

text \<open>A rule that leaves the window where it is leaves it mapped.\<close>

lemma staying_mapped:
  fixes w :: 'w and rd :: "('s, 'w) ruled"
  assumes laws: "rule_laws lib" and "to_workspace a = None"
  defines "rd1 \<equiv> rule_workspace lib a w (rule_on_top lib a w (rule_sticky a w rd))"
  shows "element_location (api lib) (space (desk rd1)) = element_location (api lib) (space (desk rd))"
  using assms(2)
  by (simp add: rd1_def rule_workspace_def rule_on_top_def on_top_desk [OF laws] rule_sticky_def map_desk_def set_sticky_def
      emit_for_def emit_def split: option.split)

lemma try_apply_match:
  assumes "w \<notin> rules_applied rd" "app_and_title lib (space (desk rd)) w = Some (app_id, title)"
    "matching_rule regex rs app_id title = Some r"
  shows "try_apply_window_rules lib regex rs w rd =
    perform_actions lib (actions r) w (rd\<lparr> rules_applied := insert w (rules_applied rd) \<rparr>)"
  using assms by (auto simp: try_apply_window_rules_def Let_def matching_rule_def)

lemma perform_in_place:
  fixes w :: 'w and rd :: "('s, 'w) ruled"
  assumes laws: "rule_laws lib" and "to_workspace a = None" "mapped (api lib) (desk rd) w"
  defines "rd1 \<equiv> rule_workspace lib a w (rule_on_top lib a w (rule_sticky a w rd))"
  shows "perform_actions lib a w rd = rule_tiling lib a w True (rule_size lib a w
      (rule_position lib a w True (rule_output lib a w True rd1)))"
    and "element_location (api lib) (space (desk rd1)) = element_location (api lib) (space (desk rd))"
    and "centering rd1 = centering rd"
proof -
  show e: "element_location (api lib) (space (desk rd1)) = element_location (api lib) (space (desk rd))"
    unfolding rd1_def by (rule staying_mapped [OF laws assms(2)])
  then have "w \<in> set (space_elements (api lib) (space (desk rd1)))"
    using assms(3) by (simp add: desk_lawsD(4) [OF rule_lawsD(1) [OF laws]] mapped_def)
  then show "perform_actions lib a w rd = rule_tiling lib a w True (rule_size lib a w
      (rule_position lib a w True (rule_output lib a w True rd1)))"
    by (simp add: perform_actions_def rd1_def Let_def)
  show "centering rd1 = centering rd" by (simp add: rd1_def applied_stays)
qed

section \<open>Properties\<close>



text \<open>A rule that only chooses a layout is undone: it leaves the window waiting to be centred, and the first
  commit with a size puts it in the middle of the usable area while its layout still says tiled.\<close>

theorem layout_rule_is_recentred:
  assumes laws: "rule_laws lib" and w: "mapped (api lib) (desk rd) w" "w \<notin> rules_applied rd" "w \<in> centering rd"
    and m: "app_and_title lib (space (desk rd)) w = Some (app_id, title)" "matching_rule regex rs app_id title = Some r"
    and a: "to_workspace (actions r) = None" "to_position (actions r) = None" "to_output (actions r) = None"
    and c: "output_at_corner (api lib) s w = Some out" "centre_in (api lib) s out (geometry_size (api lib) s w) = Some l"
      "0 < fst (geometry_size (api lib) s w)" "0 < snd (geometry_size (api lib) s w)"
    and s: "s = space (desk (try_apply_window_rules lib regex rs w rd))"
  shows "let rd' = commit lib regex rs w rd
    in element_location (api lib) (space (desk rd')) w = Some l \<and>
       layouts (desk rd') = layouts (desk (try_apply_window_rules lib regex rs w rd))"
proof -
  define rd0 where "rd0 = rd\<lparr> rules_applied := insert w (rules_applied rd) \<rparr>"
  have w0: "mapped (api lib) (desk rd0) w" "w \<in> centering rd0" using w by (simp_all add: rd0_def)
  note p = perform_in_place [OF laws a(1) w0(1)]
  define rd' where "rd' = perform_actions lib (actions r) w rd0"
  have tr: "try_apply_window_rules lib regex rs w rd = rd'"
    unfolding rd'_def rd0_def by (rule try_apply_match [OF w(2) m])
  have cen: "w \<in> centering rd'"
    using a w0(2) by (simp add: rd'_def p(1) applied_stays rule_position_def rule_output_def)
  have "w \<in> set (space_elements (api lib) (space (desk rd)))"
    using w(1) by (simp add: desk_lawsD(4) [OF rule_lawsD(1) [OF laws]] mapped_def)
  then have "commit lib regex rs w rd = place lib w l True True rd'"
    using c s cen by (simp add: commit_def tr try_recenter_pending_def Let_def)
  then show ?thesis by (simp add: Let_def tr place_location [OF laws])
qed

lemma locked_stays:
  assumes "rule_laws lib"
  shows "locked (desk (rule_workspace lib a w rd)) = locked (desk rd)"
    and "locked (desk (rule_on_top lib a w rd)) = locked (desk rd)"
    and "locked (desk (rule_output lib a w sm rd)) = locked (desk rd)"
    and "locked (desk (rule_position lib a w sm rd)) = locked (desk rd)"
    and "locked (desk (rule_size lib a w rd)) = locked (desk rd)"
    and "locked (desk (rule_tiling lib a w sm rd)) = locked (desk rd)"
proof -
  have "locked (move_window_to_workspace (api lib) d w t) = locked d" for d :: "('a, 'b) desktop" and t
    using same_refocus [OF rule_lawsD(1) [OF assms]]
    by (auto simp: move_window_to_workspace_def Let_def same_desk_def emit_for_def emit_def)
  then show "locked (desk (rule_workspace lib a w rd)) = locked (desk rd)"
    by (simp add: rule_workspace_def map_desk_def split: option.split)
qed (auto simp: rule_on_top_def set_always_on_top_def rule_output_def rule_position_def rule_size_def rule_tiling_def
  place_def map_desk_def Let_def split: option.split prod.split)

text \<open>Moving a window to another workspace unmaps it, and what follows in the rule leaves it unmapped.\<close>

lemma moved_away:
  assumes laws: "rule_laws lib" and "t \<noteq> active (manager d)" "w \<notin> sticky d"
  shows "element_location (api lib) (space (move_window_to_workspace (api lib) d w t)) w = None"
proof -
  note dl = rule_lawsD(1) [OF laws]
  define d1 where "d1 = emit_for w (WindowMovedToWorkspace w (one_based t))
    (d\<lparr> manager := remove_from_active_focus (record_focus (reassign (save_location (api lib) (space d) (manager d) w) w t) t w)
          (active (manager d)) w, space := unmap_elem (api lib) (space d) w \<rparr>)"
  have "element_location (api lib) (space d1) w = None"
    by (simp add: d1_def emit_for_def emit_def desk_lawsD [OF dl])
  moreover have "element_location (api lib) (space (refocus (api lib) d1 ws)) = element_location (api lib) (space d1)" for ws
    using same_refocus [OF dl, of d1 ws] by (simp add: same_desk_def)
  ultimately show ?thesis
    using assms(2,3) by (simp add: move_window_to_workspace_def Let_def d1_def [symmetric])
qed

lemma unmapped_stays:
  assumes "rule_laws lib"
  shows "element_location (api lib) (space (desk (rule_tiling lib a w False (rule_size lib a w
      (rule_position lib a w False (rule_output lib a w False rd)))))) = element_location (api lib) (space (desk rd))"
  by (auto simp: rule_tiling_def rule_size_def rule_position_def rule_output_def map_desk_def fun_eq_iff
      place_location [OF assms] rule_lawsD [OF assms] split: option.split prod.split)

text \<open>C29. An X11 window that a rule sends to another workspace as it maps is given the keyboard although it is
  then shown nowhere: what is typed next goes to a window that cannot be seen.\<close>

theorem x11_rule_focuses_hidden_window:
  assumes laws: "rule_laws lib" and w: "w \<notin> rules_applied rd" "w \<notin> sticky (desk rd)" "\<not> locked (desk rd)"
    and m: "\<And>s. app_and_title lib s w = Some (app_id, title)" "matching_rule regex rs app_id title = Some r"
    and a: "make_sticky (actions r) = None" "to_workspace (actions r) = Some idx"
      "from_one_based (manager (desk rd)) idx = Some target" "target \<noteq> active (manager (desk rd))"
  shows "let rd' = map_x11 lib regex rs bbox at_pointer w rd
    in kb_focus (desk rd') = Some w \<and> element_location (api lib) (space (desk rd')) w = None"
proof -
  define d1 where "d1 = emit (WindowOpened w (one_based (active (manager (desk rd)))))
    ((desk rd)\<lparr> space := x11_configure lib (map_element (api lib) (space (desk rd)) w at_pointer) w
          (bbox (map_element (api lib) (space (desk rd)) w at_pointer) w),
        manager := assign (manager (desk rd)) w (active (manager (desk rd))) at_pointer, foreign := w # foreign (desk rd) \<rparr>)"
  define rd0 where "rd0 = rd\<lparr> desk := d1, centering := insert w (centering rd), rules_applied := insert w (rules_applied rd) \<rparr>"
  define rd2 where "rd2 = rule_on_top lib (actions r) w rd0"
  define rd3 where "rd3 = rule_workspace lib (actions r) w rd2"
  have d1: "\<not> locked d1" "w \<notin> sticky d1" "active (manager d1) = active (manager (desk rd))"
      "count (manager d1) = count (manager (desk rd))"
    using w by (simp_all add: d1_def emit_def assign_def)
  have rd2: "manager (desk rd2) = manager d1" "\<not> locked (desk rd2)" "w \<notin> sticky (desk rd2)"
    using d1 by (auto simp: rd2_def rule_on_top_def on_top_desk [OF laws] locked_stays [OF laws] rd0_def set_always_on_top_def
        Let_def split: option.split)
  have "from_one_based (manager (desk rd2)) idx = Some target"
    using a(3) d1(4) rd2(1) by (simp add: from_one_based_def split: if_splits)
  then have rd3: "rd3 = map_desk (\<lambda>d. move_window_to_workspace (api lib) d w target) rd2"
    using a(2) by (simp add: rd3_def rule_workspace_def)
  have gone: "element_location (api lib) (space (desk rd3)) w = None"
    unfolding rd3 map_desk_def using moved_away [OF laws, of target "desk rd2" w] a(4) rd2 d1(3) by simp
  then have "w \<notin> set (space_elements (api lib) (space (desk rd3)))"
    by (simp add: desk_lawsD(4) [OF rule_lawsD(1) [OF laws]])
  then have pf: "perform_actions lib (actions r) w rd0 = rule_tiling lib (actions r) w False (rule_size lib (actions r) w
      (rule_position lib (actions r) w False (rule_output lib (actions r) w False rd3)))"
    using a(1) by (simp add: perform_actions_def Let_def rule_sticky_def rd2_def rd3_def)
  define rd4 where "rd4 = perform_actions lib (actions r) w rd0"
  have "w \<notin> rules_applied (rd\<lparr> desk := d1, centering := insert w (centering rd) \<rparr>)" using w(1) by simp
  then have tr: "try_apply_window_rules lib regex rs w (rd\<lparr> desk := d1, centering := insert w (centering rd) \<rparr>) = rd4"
    using try_apply_match [OF _ m(1) m(2)] by (simp add: rd4_def rd0_def)
  have fin: "element_location (api lib) (space (desk rd4)) w = None" "\<not> locked (desk rd4)"
    using gone rd2(2) unfolding rd4_def pf unmapped_stays [OF laws]
    by (simp_all add: locked_stays [OF laws] rd3_def)
  have "map_x11 lib regex rs bbox at_pointer w rd = map_desk (\<lambda>d. focus_window (api lib) d w) rd4"
    by (simp add: map_x11_def Let_def d1_def [symmetric] tr)
  then show ?thesis using fin
    by (simp add: map_desk_def focus_window_def emit_def desk_lawsD [OF rule_lawsD(1) [OF laws]])
qed

section \<open>A small desktop\<close>

text \<open>One output of 100 by 80; the space is the mapped windows, and a client takes the size it is told.\<close>

definition small_api :: "((nat \<times> point) list \<times> point, nat, unit) desk_api" where
  "small_api = \<lparr> element_location = (\<lambda>s. map_of (fst s)), geometry_size = (\<lambda>s _. snd s), space_outputs = (\<lambda>_. [()]),
     output_geometry = (\<lambda>_ _. Some (rect_at (0, 0) (100, 80))), non_exclusive_zone = (\<lambda>_ _. rect_at (0, 0) (100, 80)),
     kind_of_surface = (\<lambda>_ _. XdgToplevel), map_element = (\<lambda>s w l. ((w, l) # filter (\<lambda>(v, _). v \<noteq> w) (fst s), snd s)),
     send_configure = (\<lambda>s _ c. case c of XdgConfigure sz _ _ \<Rightarrow> (fst s, sz) | _ \<Rightarrow> s),
     space_elements = (\<lambda>s. map fst (fst s)), outputs_for_element = (\<lambda>_ _. [()]),
     unmap_elem = (\<lambda>s w. (filter (\<lambda>(v, _). v \<noteq> w) (fst s), snd s)), raise_element = (\<lambda>s _. s) \<rparr>"

definition small_lib :: "((nat \<times> point) list \<times> point, nat, unit) rule_lib" where
  "small_lib = \<lparr> api = small_api, out_name = (\<lambda>_. literal ''DP-1''), app_and_title = (\<lambda>_ _. Some (literal ''app'', [])),
     set_z_index = (\<lambda>s _ _. s), request_size = (\<lambda>s _ _. s), x11_configure = (\<lambda>s _ _. s) \<rparr>"

lemma small_laws: "rule_laws small_lib"
  by (simp add: rule_laws_def desk_laws_def small_lib_def small_api_def map_of_filter_neq map_of_eq_None_iff fun_eq_iff
      split: configure.split)

definition any_actions :: window_actions where
  "any_actions = \<lparr> to_workspace = None, to_position = None, to_size = None, make_sticky = None,
     make_always_on_top = None, to_output = None, to_layout = None \<rparr>"

definition any_match :: window_match where
  "any_match = \<lparr> want_app_id = None, title_contains = None, app_id_regex = None, title_regex = None \<rparr>"

definition rule_for :: "window_actions \<Rightarrow> window_rule" where
  "rule_for a = \<lparr> matcher = any_match, actions = a \<rparr>"

definition no_regex :: "unit regex_lib" where
  "no_regex = (\<lambda>_. Inl ())"

lemma matching_any: "matching_rule no_regex [rule_for a] app_id title = Some (rule_for a)"
  by (simp add: matching_rule_def rule_for_def rule_matches_def any_match_def)

definition small_desk :: "((nat \<times> point) list \<times> point, nat) ruled" where
  "small_desk = \<lparr> desk = desktop_start ([(7, (3, 4))], (0, 0)) (assign (build_workspace_manager 3 []) 7 0 (3, 4)) (\<lambda>_. True),
     on_top = {}, rules_applied = {}, centering = {7}, on_top_told = [] \<rparr>"

lemma small_desk_simps [simp]:
  "rules_applied small_desk = {}" "centering small_desk = {7}" "on_top small_desk = {}"
  "space (desk small_desk) = ([(7, (3, 4))], (0, 0))" "sticky (desk small_desk) = {}" "locked (desk small_desk) = False"
  "layouts (desk small_desk) = layout_manager_default" "alive (desk small_desk) = (\<lambda>_. True)"
  "manager (desk small_desk) = assign (build_workspace_manager 3 []) 7 0 (3, 4)"
  by (simp_all add: small_desk_def desktop_start_def)

lemma small_mapped: "mapped (api small_lib) (desk small_desk) 7"
  by (simp add: mapped_def small_lib_def small_api_def)

lemma small_lib_simps [simp]: "api small_lib = small_api" "app_and_title small_lib s w = Some (literal ''app'', [])"
  by (simp_all add: small_lib_def)

lemma any_actions_simps [simp]: "actions (rule_for a) = a" "to_workspace any_actions = None" "to_position any_actions = None"
  "to_layout any_actions = None" "to_output any_actions = None" "make_sticky any_actions = None"
  "to_size any_actions = None" "make_always_on_top any_actions = None"
  by (simp_all add: rule_for_def any_actions_def)


text \<open>The rule tiles to the left half, whose corner is the origin; the commit leaves the window 25 to the right.\<close>

lemma small_tiled:
  "try_apply_window_rules small_lib no_regex [rule_for (any_actions\<lparr> to_layout := Some RuleTiledLeft \<rparr>)] 7 small_desk =
     small_desk\<lparr> rules_applied := {7}, desk := (desk small_desk)\<lparr> space := ([(7, (0, 0))], (50, 80)),
       layouts := put_meta layout_manager_default 7
         \<lparr> layout = TiledLeft, saved_rect = Some (rect_at (3, 4) (0, 0)), pre_fullscreen = None \<rparr> \<rparr> \<rparr>"
proof -
  have o: "output_under (space_api.truncate small_api) ([(7, (3, 4))], (0, 0)) 7 = Some ()"
    by (simp add: output_under_def space_api.truncate_def small_api_def Let_def)
  have u: "usable_rect_for (space_api.truncate small_api) ([(7, (3, 4))], (0, 0)) 7 = Some (rect_at (0, 0) (100, 80))"
    unfolding usable_rect_for_def o
    by (simp add: space_api.truncate_def small_api_def rect_at_def rect_size_def)
  have l: "set_layout (space_api.truncate small_api) ([(7, (3, 4))], (0, 0)) layout_manager_default 7 TiledLeft =
      (([(7, (0, 0))], (50, 80)), put_meta layout_manager_default 7
         \<lparr> layout = TiledLeft, saved_rect = Some (rect_at (3, 4) (0, 0)), pre_fullscreen = None \<rparr>)"
    unfolding set_layout_def u
    by (simp add: Let_def tiled_rect_def entry_def layout_manager_default_def meta_default_def apply_geometry_def
        space_api.truncate_def small_api_def current_rect_def rect_at_def rect_size_def rect_loc_def signed_divide_int_def)
  show ?thesis
    by (simp add: try_apply_window_rules_def Let_def matching_any perform_actions_def rule_sticky_def rule_on_top_def
        rule_workspace_def rule_output_def rule_position_def rule_size_def rule_tiling_def target_layout_def map_desk_def l)
       (simp add: small_api_def l)
qed

lemma layout_rule_is_recentred_witness:
  "let rd = commit small_lib no_regex [rule_for (any_actions\<lparr> to_layout := Some RuleTiledLeft \<rparr>)] 7 small_desk
   in element_location small_api (space (desk rd)) 7 = Some (25, 0) \<and> layout_state_of (layouts (desk rd)) 7 = TiledLeft"
proof -
  let ?s = "([(7, (0, 0))], (50, 80)) :: (nat \<times> point) list \<times> point"
  have g: "geometry_size small_api ?s 7 = (50, 80)" by (simp add: small_api_def)
  have c: "centre_in small_api ?s () (50, 80) = Some (25, 0)"
    by (simp add: centre_in_def small_api_def rect_at_def)
  have o: "output_at_corner small_api ?s 7 = Some ()" by (simp add: output_at_corner_def small_api_def)
  let ?rs = "[rule_for (any_actions\<lparr> to_layout := Some RuleTiledLeft \<rparr>)]"
  have t: "space (desk (try_apply_window_rules small_lib no_regex ?rs 7 small_desk)) = ?s" by (simp add: small_tiled)
  have "let rd' = commit small_lib no_regex ?rs 7 small_desk
    in element_location (api small_lib) (space (desk rd')) 7 = Some (25, 0) \<and>
       layouts (desk rd') = layouts (desk (try_apply_window_rules small_lib no_regex ?rs 7 small_desk))"
    by (rule layout_rule_is_recentred [OF small_laws small_mapped _ _ small_lib_simps(2) matching_any, where s = ?s])
       (simp_all add: c o g t)
  then show ?thesis by (simp add: Let_def small_tiled layout_state_of_def put_meta_def)
qed

lemma x11_rule_focuses_hidden_window_witness:
  "let rd = map_x11 small_lib no_regex [rule_for (any_actions\<lparr> to_workspace := Some 2 \<rparr>)]
      (\<lambda>_ _. rect_at (0, 0) (0, 0)) (1, 1) 9 small_desk
   in kb_focus (desk rd) = Some 9 \<and> element_location small_api (space (desk rd)) 9 = None"
  using x11_rule_focuses_hidden_window [OF small_laws _ _ _ _ matching_any, of 9 small_desk "literal ''app''" "[]"
      "any_actions\<lparr> to_workspace := Some 2 \<rparr>" 2 1]
  by (simp add: Let_def from_one_based_def build_workspace_manager_def manager_new_def assign_def MAX_WORKSPACE_COUNT_def)

lemma small_ok: "desk_ok small_api (desk small_desk)"
proof -
  have "desk_ok small_api (desktop_start ([], (0, 0)) (build_workspace_manager 3 []) (\<lambda>_. True))"
    by (rule desk_ok_start) (simp add: small_api_def fun_eq_iff)
  then have "ws_ok (build_workspace_manager 3 [] :: nat workspace_manager)"
    by (simp add: desk_ok_def desktop_start_def)
  moreover have "windows (build_workspace_manager 3 [] :: nat workspace_manager) = []"
    "active (build_workspace_manager 3 [] :: nat workspace_manager) = 0"
    "count (build_workspace_manager 3 [] :: nat workspace_manager) = 3"
    by (simp_all add: build_workspace_manager_def manager_new_def MAX_WORKSPACE_COUNT_def)
  ultimately show ?thesis
    by (simp add: desk_ok_def window_ok_def mapped_def small_api_def ws_ok_simps layout_manager_default_def
        is_minimized_def workspace_of_def [of "build_workspace_manager 3 []"])
qed


end
