(* ===== verification/Grabs.thy ===== *)
theory Grabs
  imports WindowRules
begin

text \<open>
  Dragging windows with the pointer: \<open>src/grabs/move_grab.rs\<close> with its edge gesture and timer,
  \<open>src/grabs/resize_grab.rs\<close> with the commits that follow a resize, and where \<open>src/input.rs\<close> starts
  them. The desktop is that of Workspaces. Pointer coordinates are exact rationals, times milliseconds;
  what Smithay's handle passes on to clients is not modelled.
\<close>

type_synonym rpoint = "rat \<times> rat"

text \<open>\<open>f64::round\<close>, halves away from zero, and \<open>as i32\<close>, towards zero.\<close>

definition round_away :: "rat \<Rightarrow> int" where
  "round_away x = (if 0 \<le> x then \<lfloor>x + 1 / 2\<rfloor> else \<lceil>x - 1 / 2\<rceil>)"

definition towards_zero :: "rat \<Rightarrow> int" where
  "towards_zero x = (if 0 \<le> x then \<lfloor>x\<rfloor> else \<lceil>x\<rceil>)"

lemma round_away_int [simp]: "round_away (of_int i) = i"
proof -
  have "\<lfloor>of_int i + 1 / 2 :: rat\<rfloor> = i" by (rule floor_unique) auto
  moreover have "\<lceil>of_int i - 1 / 2 :: rat\<rceil> = i" by (rule ceiling_unique) auto
  ultimately show ?thesis by (simp add: round_away_def)
qed

section \<open>Moving\<close>

definition EDGE_REARM_MARGIN :: rat where "EDGE_REARM_MARGIN = 16"
definition EDGE_REPEAT_INTERVAL :: nat where "EDGE_REPEAT_INTERVAL = 800"

record 'w move_grab =
  window :: 'w
  start_at :: rpoint
  initial_location :: point
  last_pointer_x :: rat
  edge_disarmed :: bool

definition move_grab_new :: "rpoint \<Rightarrow> 'w \<Rightarrow> point \<Rightarrow> 'w move_grab" where
  "move_grab_new p w l = \<lparr> window = w, start_at = p, initial_location = l, last_pointer_x = fst p, edge_disarmed = False \<rparr>"

record ('s, 'w) drag_world =
  dt :: "('s, 'w) desktop"
  pointer_at :: rpoint
  grab :: "'w move_grab option"
  edge_drag_window :: "'w option"
  edge_repeat :: "nat option"

definition union_rect :: "rectangle \<Rightarrow> rectangle \<Rightarrow> rectangle" where
  "union_rect a b =
    (let x0 = min (loc_x a) (loc_x b); y0 = min (loc_y a) (loc_y b);
         x1 = max (loc_x a + size_w a) (loc_x b + size_w b); y1 = max (loc_y a + size_h a) (loc_y b + size_h b)
     in rect_at (x0, y0) (x1 - x0, y1 - y0))"

definition desktop_bounds :: "('s, 'w, 'o) desk_api \<Rightarrow> 's \<Rightarrow> rectangle option" where
  "desktop_bounds a s = (case List.map_filter (output_geometry a s) (space_outputs a s) of
     [] \<Rightarrow> None | r # rs \<Rightarrow> Some (foldl union_rect r rs))"

definition arm_edge_repeat_timer :: "nat \<Rightarrow> ('s, 'w) drag_world \<Rightarrow> ('s, 'w) drag_world" where
  "arm_edge_repeat_timer now st = st\<lparr> edge_repeat := Some (now + EDGE_REPEAT_INTERVAL) \<rparr>"

definition dragged_to :: "'w move_grab \<Rightarrow> rpoint \<Rightarrow> point" where
  "dragged_to g p =
    (round_away (of_int (fst (initial_location g)) + (fst p - fst (start_at g))),
     round_away (of_int (snd (initial_location g)) + (snd p - snd (start_at g))))"

text \<open>Which way a motion crosses the edge: one, minus one, or none.\<close>

definition edge_crossed :: "rectangle \<Rightarrow> rat \<Rightarrow> rat \<Rightarrow> int option" where
  "edge_crossed b prev cur =
    (let left = of_int (loc_x b); right = of_int (loc_x b + size_w b)
     in if right \<le> cur \<and> prev < right then Some 1
        else if cur \<le> left \<and> left < prev then Some (- 1)
        else None)"

definition rearmed :: "rectangle \<Rightarrow> rat \<Rightarrow> bool \<Rightarrow> bool" where
  "rearmed b cur disarmed \<longleftrightarrow> disarmed \<and>
     \<not> (cur < of_int (loc_x b + size_w b) - EDGE_REARM_MARGIN \<and> of_int (loc_x b) + EDGE_REARM_MARGIN < cur)"

definition move_motion :: "('s, 'w, 'o) rule_lib \<Rightarrow> nat \<Rightarrow> rpoint \<Rightarrow> 'w move_grab \<Rightarrow> ('s, 'w) drag_world \<Rightarrow> ('s, 'w) drag_world" where
  "move_motion lib now p g st =
    (let w = window g;
         l = dragged_to g p;
         d1 = (dt st)\<lparr> space := sync_x11_location lib (map_element (api lib) (space (dt st)) w l) w l \<rparr>;
         g1 = g\<lparr> last_pointer_x := fst p \<rparr>;
         st1 = st\<lparr> dt := d1, pointer_at := p, grab := Some g1 \<rparr>
     in case desktop_bounds (api lib) (space d1) of
          None \<Rightarrow> st1
        | Some b \<Rightarrow>
            (let g2 = g1\<lparr> edge_disarmed := rearmed b (fst p) (edge_disarmed g1) \<rparr>;
                 st2 = st1\<lparr> grab := Some g2 \<rparr>
             in if edge_disarmed g2 then st2
                else case edge_crossed b (last_pointer_x g) (fst p) of
                  None \<Rightarrow> st2
                | Some dir \<Rightarrow>
                    (let act = active (manager d1); target = shifted (manager d1) act dir
                     in if target = act then st2
                        else
                          (let d2 = move_window_to_workspace_following (api lib) d1 w target;
                               l' = (case element_location (api lib) (space d2) w of Some l' \<Rightarrow> l' | None \<Rightarrow> initial_location g2)
                           in arm_edge_repeat_timer now
                                (st2\<lparr> dt := d2, grab := Some (g2\<lparr> initial_location := l', start_at := p, edge_disarmed := True \<rparr>) \<rparr>)))))"

text \<open>The timer has fired and its token is gone.\<close>

definition try_edge_repeat_shift :: "('s, 'w, 'o) rule_lib \<Rightarrow> nat \<Rightarrow> ('s, 'w) drag_world \<Rightarrow> ('s, 'w) drag_world" where
  "try_edge_repeat_shift lib now st =
    (case edge_drag_window st of
       None \<Rightarrow> st
     | Some w \<Rightarrow>
         (case desktop_bounds (api lib) (space (dt st)) of
            None \<Rightarrow> st
          | Some b \<Rightarrow>
              (let x = fst (pointer_at st);
                   dir = (if of_int (loc_x b + size_w b) \<le> x then Some 1 else if x \<le> of_int (loc_x b) then Some (- 1) else None)
               in case dir of
                    None \<Rightarrow> st
                  | Some k \<Rightarrow>
                      (let act = active (manager (dt st)); target = shifted (manager (dt st)) act k
                       in if target = act then st
                          else arm_edge_repeat_timer now
                                 (st\<lparr> dt := move_window_to_workspace_following (api lib) (dt st) w target \<rparr>)))))"

definition end_edge_drag :: "('s, 'w) drag_world \<Rightarrow> ('s, 'w) drag_world" where
  "end_edge_drag st = st\<lparr> edge_drag_window := None, edge_repeat := None \<rparr>"

text \<open>\<open>start_super_drag\<close> with the left button.\<close>

definition start_move :: "('s, 'w, 'o) rule_lib \<Rightarrow> 'w \<Rightarrow> ('s, 'w) drag_world \<Rightarrow> ('s, 'w) drag_world" where
  "start_move lib w st =
    (let d1 = (dt st)\<lparr> space := raise_element (api lib) (space (dt st)) w, kb_focus := Some w \<rparr>
     in case element_location (api lib) (space d1) w of
          None \<Rightarrow> st\<lparr> dt := d1 \<rparr>
        | Some l \<Rightarrow> st\<lparr> dt := d1, edge_drag_window := Some w, grab := Some (move_grab_new (pointer_at st) w l) \<rparr>)"

datatype 'w drag_event = StartMove 'w | PointerTo rpoint | TimerTurn | LeftReleased

definition drag_step :: "('s, 'w, 'o) rule_lib \<Rightarrow> ('s, 'w) drag_world \<Rightarrow> nat \<times> 'w drag_event \<Rightarrow> ('s, 'w) drag_world" where
  "drag_step lib st ev =
    (case ev of
       (now, StartMove w) \<Rightarrow> start_move lib w st
     | (now, PointerTo p) \<Rightarrow>
         (case grab st of None \<Rightarrow> st\<lparr> pointer_at := p \<rparr> | Some g \<Rightarrow> move_motion lib now p g st)
     | (now, TimerTurn) \<Rightarrow>
         (case edge_repeat st of
            Some t \<Rightarrow> if t \<le> now then try_edge_repeat_shift lib now (st\<lparr> edge_repeat := None \<rparr>) else st
          | None \<Rightarrow> st)
     | (now, LeftReleased) \<Rightarrow>
         (case grab st of None \<Rightarrow> st | Some g \<Rightarrow> end_edge_drag (st\<lparr> grab := None \<rparr>)))"

section \<open>Resizing\<close>

record edges =
  edge_top :: bool
  edge_bottom :: bool
  edge_left :: bool
  edge_right :: bool

definition edges_for_pointer :: "rectangle \<Rightarrow> rpoint \<Rightarrow> edges" where
  "edges_for_pointer r p =
    (let rel_x = fst p - of_int (loc_x r); rel_y = snd p - of_int (loc_y r);
         w = of_int (max (size_w r) 1) :: rat; h = of_int (max (size_h r) 1) :: rat;
         e = \<lparr> edge_top = rel_y < h / 3, edge_bottom = \<not> rel_y < h / 3 \<and> h * 2 / 3 < rel_y,
               edge_left = rel_x < w / 3, edge_right = \<not> rel_x < w / 3 \<and> w * 2 / 3 < rel_x \<rparr>
     in if \<not> edge_top e \<and> \<not> edge_bottom e \<and> \<not> edge_left e \<and> \<not> edge_right e
        then \<lparr> edge_top = False, edge_bottom = True, edge_left = False, edge_right = True \<rparr> else e)"

record 'w resize_grab =
  resized :: 'w
  resize_edges :: edges
  resize_start :: rpoint
  initial_rect :: rectangle
  last_window_size :: point

definition i32_max :: int where "i32_max = 2 ^ 31 - 1"

text \<open>\<open>Ord::clamp\<close> panics when the bounds are the wrong way round.\<close>

definition clamp_int :: "int \<Rightarrow> int \<Rightarrow> int \<Rightarrow> int option" where
  "clamp_int x lo hi = (if hi < lo then None else Some (max lo (min x hi)))"

definition resized_length :: "bool \<Rightarrow> bool \<Rightarrow> int \<Rightarrow> rat \<Rightarrow> int" where
  "resized_length low high len delta =
    (if low \<or> high then towards_zero (of_int len + (if low then - delta else delta)) else len)"

text \<open>The size a motion asks for, with the client's smallest and largest size; \<open>None\<close> is a panic.\<close>

definition resize_to :: "'w resize_grab \<Rightarrow> rpoint \<Rightarrow> point \<Rightarrow> point \<Rightarrow> point option" where
  "resize_to g p min_size max_size =
    (let e = resize_edges g;
         new_w = resized_length (edge_left e) (edge_right e) (size_w (initial_rect g)) (fst p - fst (resize_start g));
         new_h = resized_length (edge_top e) (edge_bottom e) (size_h (initial_rect g)) (snd p - snd (resize_start g));
         max_w = (if fst max_size = 0 then i32_max else fst max_size);
         max_h = (if snd max_size = 0 then i32_max else snd max_size)
     in Option.bind (clamp_int new_w (max (fst min_size) 1) max_w) (\<lambda>w.
        map_option (\<lambda>h. (w, h)) (clamp_int new_h (max (snd min_size) 1) max_h)))"

datatype resize_state = Idle | Resizing edges rectangle | WaitingForLastCommit edges rectangle

datatype resize_told = ResizeConfigure bool point | ResizeX11 rectangle

definition resize_start_grab :: "surface_kind \<Rightarrow> rpoint \<Rightarrow> 'w \<Rightarrow> edges \<Rightarrow> rectangle \<Rightarrow> resize_state \<Rightarrow> 'w resize_grab \<times> resize_state" where
  "resize_start_grab kind p w e r rs =
    (\<lparr> resized = w, resize_edges = e, resize_start = p, initial_rect = r, last_window_size = rect_size r \<rparr>,
     if kind = XdgToplevel then Resizing e r else rs)"

definition resize_motion :: "surface_kind \<Rightarrow> rpoint \<Rightarrow> point \<Rightarrow> point \<Rightarrow> 'w resize_grab \<Rightarrow> ('w resize_grab \<times> resize_told list) option" where
  "resize_motion kind p min_size max_size g =
    map_option (\<lambda>sz. (g\<lparr> last_window_size := sz \<rparr>,
        (case kind of XdgToplevel \<Rightarrow> [ResizeConfigure True sz] | X11Window \<Rightarrow> [ResizeX11 (rect_at (rect_loc (initial_rect g)) sz)]
         | OtherSurface \<Rightarrow> [])))
      (resize_to g p (if kind = XdgToplevel then min_size else (0, 0)) (if kind = XdgToplevel then max_size else (0, 0)))"

definition resize_release :: "surface_kind \<Rightarrow> 'w resize_grab \<Rightarrow> resize_state \<Rightarrow> resize_state \<times> resize_told list" where
  "resize_release kind g rs =
    (if kind = XdgToplevel
     then (WaitingForLastCommit (resize_edges g) (initial_rect g), [ResizeConfigure False (last_window_size g)])
     else (rs, []))"

definition resize_commit :: "resize_state \<Rightarrow> resize_state \<times> (edges \<times> rectangle) option" where
  "resize_commit rs = (case rs of
     Resizing e r \<Rightarrow> (rs, Some (e, r)) | WaitingForLastCommit e r \<Rightarrow> (Idle, Some (e, r)) | Idle \<Rightarrow> (Idle, None))"

text \<open>Where the window goes when its client commits a size: \<open>None\<close> leaves it.\<close>

definition commit_location :: "point \<Rightarrow> point \<Rightarrow> (edges \<times> rectangle) option \<Rightarrow> point option" where
  "commit_location l sz er = (case er of
     None \<Rightarrow> None
   | Some (e, r) \<Rightarrow>
       (if edge_top e \<or> edge_left e
        then Some (if edge_left e then loc_x r + (size_w r - fst sz) else fst l,
                   if edge_top e then loc_y r + (size_h r - snd sz) else snd l)
        else None))"

definition resize_handle_commit :: "('s, 'w, 'o) desk_api \<Rightarrow> 's \<Rightarrow> 'w \<Rightarrow> resize_state \<Rightarrow> 's \<times> resize_state" where
  "resize_handle_commit a s w rs =
    (case element_location a s w of
       None \<Rightarrow> (s, rs)
     | Some l \<Rightarrow>
         (let (rs', er) = resize_commit rs
          in case commit_location l (geometry_size a s w) er of
               None \<Rightarrow> (s, rs') | Some l' \<Rightarrow> (map_element a s w l', rs')))"

section \<open>The window follows the pointer\<close>

lemma following_keeps_place:
  assumes laws: "desk_laws a" and ok: "desk_ok a d" and al: "alive d w"
    and l: "element_location a (space d) w = Some l" and t: "target < count (manager d)" "target \<noteq> active (manager d)"
  shows "element_location a (space (move_window_to_workspace_following a d w target)) w = Some l"
    and "alive (move_window_to_workspace_following a d w target) = alive d"
proof -
  have wok: "window_ok a d w" using ok al by (simp add: desk_ok_def)
  with l have ws: "workspace_of (manager d) w = Some (active (manager d))" "\<not> is_minimized (layouts d) w"
    by (auto simp: window_ok_def mapped_def)
  define m2 where "m2 = remove_from_active_focus (record_focus (reassign (save_location a (space d) (manager d) w) w target) target w)
    (active (manager d)) w"
  define d1 where "d1 = clear_focus (emit_for w (WindowMovedToWorkspace w (one_based target)) (d\<lparr> manager := m2 \<rparr>))"
  have f: "move_window_to_workspace_following a d w target = focus_workspace_id a d1 target"
    using t by (simp add: move_window_to_workspace_following_def Let_def d1_def m2_def)
  have d1: "space d1 = space d" "manager d1 = m2" "sticky d1 = sticky d" "alive d1 = alive d" "layouts d1 = layouts d"
    by (auto simp: d1_def clear_focus_def emit_for_def emit_def)
  have m2: "active m2 = active (manager d)" "workspace_of m2 w = Some target" "saved_location_of m2 w = Some l"
    using ws(1) l tracked_saved [of "manager d" w] by (auto simp: m2_def save_location_def)
  have cnt: "count m2 = count (manager d)"
    by (simp add: m2_def remove_from_active_focus_def record_focus_def reassign_def save_location_def record_location_def split: option.split)
  have wsok: "ws_ok m2" using ok t(1) l by (simp add: m2_def desk_ok_def save_location_def ws_ok_simps record_location_def)
      (auto simp: record_location_def [symmetric] intro!: ws_ok_simps)
  have e: "target < count (manager d1)" "active (manager d1) \<noteq> target" "ws_ok (manager d1)"
    using t m2 cnt wsok by (auto simp: d1)
  note eff = focus_workspace_effect [OF laws e(3,1,2)]
  show "alive (move_window_to_workspace_following a d w target) = alive d" unfolding f eff(6) by (rule d1(4))
  show "element_location a (space (move_window_to_workspace_following a d w target)) w = Some l"
    unfolding f eff(11) eff(10) eff(9) using al l ws m2 by (simp add: d1)
qed

definition follows :: "('s, 'w, 'o) rule_lib \<Rightarrow> ('s, 'w) drag_world \<Rightarrow> bool" where
  "follows lib st \<longleftrightarrow> rule_laws lib \<and> desk_ok (api lib) (dt st) \<and>
     (case grab st of
        None \<Rightarrow> edge_repeat st = None \<and> edge_drag_window st = None
      | Some g \<Rightarrow> alive (dt st) (window g) \<and> edge_drag_window st = Some (window g) \<and>
          element_location (api lib) (space (dt st)) (window g) = Some (dragged_to g (pointer_at st)))"

text \<open>What may happen while dragging: one drag at a time, of a live window.\<close>

definition drag_admissible :: "('s, 'w) drag_world \<Rightarrow> nat \<times> 'w drag_event \<Rightarrow> bool" where
  "drag_admissible st ev = (case snd ev of StartMove w \<Rightarrow> grab st = None \<and> alive (dt st) w | _ \<Rightarrow> True)"

lemma shifted_less: "0 < count m \<Longrightarrow> shifted m ws k < count m"
  by (auto simp: shifted_def)

lemma active_less: "desk_ok a d \<Longrightarrow> active (manager d) < count (manager d)"
  by (simp add: desk_ok_def ws_ok_def)

lemma shift_follows:
  assumes laws: "rule_laws lib" and ok: "desk_ok (api lib) d" and al: "alive d w"
    and l: "element_location (api lib) (space d) w = Some l" and ne: "shifted (manager d) (active (manager d)) k \<noteq> active (manager d)"
  defines "d' \<equiv> move_window_to_workspace_following (api lib) d w (shifted (manager d) (active (manager d)) k)"
  shows "desk_ok (api lib) d'" "alive d' w" "element_location (api lib) (space d') w = Some l"
proof -
  have t: "shifted (manager d) (active (manager d)) k < count (manager d)"
    using active_less [OF ok] by (intro shifted_less) simp
  note dl = rule_lawsD(1) [OF laws]
  show "desk_ok (api lib) d'" unfolding d'_def by (rule desk_ok_move_following [OF dl ok t])
  show "alive d' w" "element_location (api lib) (space d') w = Some l"
    unfolding d'_def using following_keeps_place [OF dl ok al l t ne] al by simp_all
qed

lemma follows_motion:
  assumes f: "follows lib st" and g: "grab st = Some g"
  shows "follows lib (move_motion lib now p g st)"
proof -
  have laws: "rule_laws lib" and ok: "desk_ok (api lib) (dt st)" and al: "alive (dt st) (window g)"
      and ed: "edge_drag_window st = Some (window g)"
      and loc: "element_location (api lib) (space (dt st)) (window g) = Some (dragged_to g (pointer_at st))"
    using f g by (simp_all add: follows_def)
  define l where "l = dragged_to g p"
  define d1 where "d1 = (dt st)\<lparr> space := sync_x11_location lib (map_element (api lib) (space (dt st)) (window g) l) (window g) l \<rparr>"
  have loc1: "element_location (api lib) (space d1) v =
      (if v = window g then Some l else element_location (api lib) (space (dt st)) v)" for v
    by (simp add: d1_def laws desk_lawsD [OF rule_lawsD(1) [OF laws]])
  have ok1: "desk_ok (api lib) d1" unfolding d1_def
    by (rule desk_ok_replaced [OF _ _ ok, of "window g" _ l]) (use loc loc1 in \<open>simp_all add: mapped_def d1_def\<close>)
  have al1: "alive d1 (window g)" using al by (simp add: d1_def)
  have keeps: "dragged_to (g\<lparr> last_pointer_x := x, edge_disarmed := b \<rparr>) p = l" "dragged_to (g\<lparr> last_pointer_x := x \<rparr>) p = l" for x b
    by (simp_all add: dragged_to_def l_def)
  have anchored: "dragged_to (g'\<lparr> initial_location := q, start_at := p, edge_disarmed := b \<rparr>) p = q" for g' :: "'b move_grab" and q b
    by (simp add: dragged_to_def)
  show ?thesis
    unfolding move_motion_def Let_def l_def [symmetric] d1_def [symmetric]
    using shift_follows [OF laws ok1 al1 loc1 [of "window g", simplified]] ok1 al1 loc1 ed
    by (auto simp: follows_def laws keeps anchored arm_edge_repeat_timer_def split: option.split)
qed

lemma follows_timer:
  assumes f: "follows lib st"
  shows "follows lib (try_edge_repeat_shift lib now (st\<lparr> edge_repeat := None \<rparr>))"
proof (cases "grab st")
  case None
  with f show ?thesis by (simp add: follows_def try_edge_repeat_shift_def)
next
  case (Some g)
  have laws: "rule_laws lib" and ok: "desk_ok (api lib) (dt st)" and al: "alive (dt st) (window g)"
      and ed: "edge_drag_window st = Some (window g)"
      and loc: "element_location (api lib) (space (dt st)) (window g) = Some (dragged_to g (pointer_at st))"
    using f Some by (simp_all add: follows_def)
  show ?thesis using shift_follows [OF laws ok al loc] f Some ed
    by (auto simp: try_edge_repeat_shift_def follows_def Let_def arm_edge_repeat_timer_def split: option.split)
qed

lemma follows_start:
  assumes f: "follows lib st" and g: "grab st = None" "alive (dt st) w"
  shows "follows lib (start_move lib w st)"
proof -
  have laws: "rule_laws lib" and ok: "desk_ok (api lib) (dt st)" using f by (simp_all add: follows_def)
  have e: "element_location (api lib) (raise_element (api lib) (space (dt st)) w) = element_location (api lib) (space (dt st))"
    by (simp add: fun_eq_iff desk_lawsD [OF rule_lawsD(1) [OF laws]])
  have "desk_ok (api lib) ((dt st)\<lparr> space := raise_element (api lib) (space (dt st)) w \<rparr>)"
    by (rule desk_ok_moves_nothing [OF _ ok]) (simp add: e)
  then have "desk_ok (api lib) ((dt st)\<lparr> space := raise_element (api lib) (space (dt st)) w, kb_focus := Some w \<rparr>)"
    by (simp add: desk_ok_ignores)
  with f g show ?thesis
    by (auto simp: start_move_def Let_def follows_def e move_grab_new_def dragged_to_def split: option.split)
qed

lemma follows_step:
  assumes f: "follows lib st" and a: "drag_admissible st ev"
  shows "follows lib (drag_step lib st ev)"
proof (cases ev)
  case (Pair now e)
  show ?thesis
  proof (cases e)
    case (StartMove w)
    then show ?thesis using follows_start [OF f] a by (simp add: Pair drag_step_def drag_admissible_def)
  next
    case (PointerTo p)
    then show ?thesis using follows_motion [OF f] f
      by (cases "grab st") (simp_all add: Pair drag_step_def follows_def)
  next
    case TimerTurn
    then show ?thesis using follows_timer [OF f] f by (cases "edge_repeat st") (simp_all add: Pair drag_step_def)
  next
    case LeftReleased
    then show ?thesis using f
      by (cases "grab st") (simp_all add: Pair drag_step_def follows_def end_edge_drag_def)
  qed
qed

interpretation dragging: stepper "drag_step lib" "follows lib" drag_admissible for lib
  by unfold_locales (rule follows_step)

section \<open>Properties\<close>

text \<open>C30. Whatever the pointer, the edge timer and the button do, the dragged window stays where the pointer
  pulls it: displaced from where it was taken by exactly what the pointer has moved, also across changes of
  workspace, and the desktop stays in order; without a drag no edge timer is left running.\<close>

theorem window_follows_pointer:
  assumes "rule_laws lib" and "desk_ok (api lib) (dt st)"
    and "grab st = None" and "edge_repeat st = None" and "edge_drag_window st = None"
    and "stepper.admissible_run (drag_step lib) drag_admissible st evs"
  shows "let st' = foldl (drag_step lib) st evs in desk_ok (api lib) (dt st') \<and>
    (case grab st' of
       None \<Rightarrow> edge_repeat st' = None
     | Some g \<Rightarrow> element_location (api lib) (space (dt st')) (window g) =
         Some (round_away (of_int (fst (initial_location g)) + (fst (pointer_at st') - fst (start_at g))),
               round_away (of_int (snd (initial_location g)) + (snd (pointer_at st') - snd (start_at g)))))"
proof -
  have "follows lib st" using assms(1-5) by (simp add: follows_def)
  from dragging.run_inv [OF this assms(6)] show ?thesis
    by (simp add: follows_def dragged_to_def Let_def split: option.splits)
qed

lemma small_dragged: "grab (foldl (drag_step small_lib) \<lparr> dt = desk small_desk, pointer_at = (5, 5), grab = None,
      edge_drag_window = None, edge_repeat = None \<rparr> [(0, StartMove 7), (1, PointerTo (25, 15 / 2))]) =
    Some \<lparr> window = 7, start_at = (5, 5), initial_location = (3, 4), last_pointer_x = 25, edge_disarmed = False \<rparr>"
  by (simp add: drag_step_def start_move_def Let_def move_grab_new_def move_motion_def edge_crossed_def rearmed_def
      small_api_def desktop_bounds_def rect_at_def map_filter_simps)

theorem window_follows_pointer_witness:
  "let st' = foldl (drag_step small_lib) \<lparr> dt = desk small_desk, pointer_at = (5, 5), grab = None,
      edge_drag_window = None, edge_repeat = None \<rparr> [(0, StartMove 7), (1, PointerTo (25, 15 / 2))]
   in element_location small_api (space (dt st')) 7 =
     Some (round_away (3 + (fst (pointer_at st') - 5)), round_away (4 + (snd (pointer_at st') - 5)))"
  using window_follows_pointer [OF small_laws, of "\<lparr> dt = desk small_desk, pointer_at = (5, 5), grab = None,
      edge_drag_window = None, edge_repeat = None \<rparr>" "[(0, StartMove 7), (1, PointerTo (25, 15 / 2))]"]
    small_dragged small_ok
  by (simp add: Let_def drag_admissible_def del: foldl_Cons)

text \<open>C31. While a window is resized by its left or top edge, each commit leaves the opposite edge where it was
  when the resize began, whatever size the client chose; a window resized by the other edges is not moved,
  and after the commit that follows the release nothing is.\<close>

theorem opposite_edge_stays:
  assumes "desk_laws a" and "element_location a s w = Some l"
    and "resize_handle_commit a s w rs = (s', rs')" and "rs = Resizing e r \<or> rs = WaitingForLastCommit e r"
  shows "(case element_location a s' w of None \<Rightarrow> False | Some (x, y) \<Rightarrow>
      (if edge_left e then x + fst (geometry_size a s w) = loc_x r + size_w r else x = fst l) \<and>
      (if edge_top e then y + snd (geometry_size a s w) = loc_y r + size_h r else y = snd l)) \<and>
    rs' = (if rs = Resizing e r then rs else Idle) \<and> fst (resize_handle_commit a s'' w Idle) = s''"
proof -
  have c: "resize_commit rs = (if rs = Resizing e r then rs else Idle, Some (e, r))"
    using assms(4) by (auto simp: resize_commit_def)
  have idle: "fst (resize_handle_commit a s'' w Idle) = s''"
    by (simp add: resize_handle_commit_def resize_commit_def commit_location_def split: option.split)
  obtain x y where l: "l = (x, y)" by (cases l)
  show ?thesis using assms(2,3) idle unfolding l
    by (cases "edge_left e"; cases "edge_top e")
       (simp_all add: resize_handle_commit_def [of a s w rs] c commit_location_def, auto simp: desk_lawsD [OF assms(1)])
qed

theorem opposite_edge_stays_witness:
  "let e = \<lparr> edge_top = False, edge_bottom = False, edge_left = True, edge_right = False \<rparr>
   in element_location small_api (fst (resize_handle_commit small_api ([(7, (0, 0))], (50, 80)) 7
        (Resizing e (rect_at (10, 20) (30, 40))))) 7 = Some (- 10, 0)"
proof -
  let ?e = "\<lparr> edge_top = False, edge_bottom = False, edge_left = True, edge_right = False \<rparr>"
  let ?s = "([(7, (0, 0))], (50, 80)) :: (nat \<times> point) list \<times> point"
  obtain s' rs' where r: "resize_handle_commit small_api ?s 7 (Resizing ?e (rect_at (10, 20) (30, 40))) = (s', rs')"
    by (cases "resize_handle_commit small_api ?s 7 (Resizing ?e (rect_at (10, 20) (30, 40)))")
  have "desk_laws small_api" using rule_lawsD(1) [OF small_laws] by simp
  moreover have "element_location small_api ?s 7 = Some (0, 0)" "geometry_size small_api ?s 7 = (50, 80)"
    by (simp_all add: small_api_def)
  ultimately show ?thesis
    using opposite_edge_stays [OF _ _ r disjI1 [OF refl], of "(0, 0)" undefined] r
    by (cases "element_location small_api s' 7") (auto simp: rect_at_def)
qed

text \<open>The size asked for stays within what the client allows; limits the wrong way round are a panic.\<close>

lemma clamp_int_limits: "clamp_int x lo hi = Some v \<Longrightarrow> lo \<le> v \<and> v \<le> hi"
  by (auto simp: clamp_int_def split: if_splits)

lemma resize_within_limits:
  assumes "resize_to g p min_size max_size = Some (w, h)"
  shows "max (fst min_size) 1 \<le> w \<and> max (snd min_size) 1 \<le> h \<and>
    (fst max_size \<noteq> 0 \<longrightarrow> w \<le> fst max_size) \<and> (snd max_size \<noteq> 0 \<longrightarrow> h \<le> snd max_size)"
  using assms by (auto simp: resize_to_def Let_def bind_eq_Some_conv dest!: clamp_int_limits)

lemma resize_panics:
  "fst max_size \<noteq> 0 \<Longrightarrow> fst max_size < max (fst min_size) 1 \<Longrightarrow> resize_to g p min_size max_size = None"
  by (simp add: resize_to_def Let_def clamp_int_def)

lemma grabbed_edges:
  "\<not> (edge_left (edges_for_pointer r p) \<and> edge_right (edges_for_pointer r p)) \<and>
   \<not> (edge_top (edges_for_pointer r p) \<and> edge_bottom (edges_for_pointer r p)) \<and>
   (edge_left (edges_for_pointer r p) \<or> edge_right (edges_for_pointer r p) \<or>
    edge_top (edges_for_pointer r p) \<or> edge_bottom (edges_for_pointer r p))"
  by (simp add: edges_for_pointer_def Let_def)

text \<open>After a shift the motion handler shifts again only once the pointer has been back inside by the margin.\<close>

lemma parked_pointer_does_not_cascade:
  assumes "edge_disarmed g" "desktop_bounds (api lib) (space (dt (move_motion lib now p g st))) = Some b"
    and "\<not> (fst p < of_int (loc_x b + size_w b) - 16 \<and> of_int (loc_x b) + 16 < fst p)"
    and same: "desktop_bounds (api lib) (sync_x11_location lib (map_element (api lib) (space (dt st)) (window g) (dragged_to g p))
        (window g) (dragged_to g p)) = Some b"
  shows "manager (dt (move_motion lib now p g st)) = manager (dt st) \<and>
    map_option edge_disarmed (grab (move_motion lib now p g st)) = Some True"
  using assms by (simp add: move_motion_def Let_def rearmed_def EDGE_REARM_MARGIN_def)

text \<open>A window minimized while it is being dragged is put back on the screen by the next motion and stays
  in the list of minimized windows.\<close>

theorem drag_brings_back_minimized:
  assumes "rule_laws lib" and "grab st = Some g" and "is_minimized (layouts (dt st)) (window g)"
    and "edge_crossed b (last_pointer_x g) (fst p) = None" and "space_outputs (api lib) = (\<lambda>_. [out])"
    and "output_geometry (api lib) = (\<lambda>_ _. Some b)"
  shows "let st' = drag_step lib st (now, PointerTo p)
    in is_minimized (layouts (dt st')) (window g) \<and> element_location (api lib) (space (dt st')) (window g) = Some (dragged_to g p)"
proof -
  define l where "l = dragged_to g p"
  define d1 where "d1 = (dt st)\<lparr> space := sync_x11_location lib (map_element (api lib) (space (dt st)) (window g) l) (window g) l \<rparr>"
  have b: "desktop_bounds (api lib) (space d1) = Some b"
    using assms(5,6) by (simp add: desktop_bounds_def map_filter_simps)
  have "dt (move_motion lib now p g st) = d1"
    unfolding move_motion_def Let_def l_def [symmetric] d1_def [symmetric] b
    using assms(4) by simp
  then show ?thesis using assms(1-3)
    by (simp add: drag_step_def Let_def d1_def l_def desk_lawsD [OF rule_lawsD(1) [OF assms(1)]])
qed

theorem drag_brings_back_minimized_witness:
  "let d = minimize_window small_api (desk small_desk) 7;
     st' = drag_step small_lib \<lparr> dt = d, pointer_at = (5, 5), grab = Some (move_grab_new (5, 5) 7 (3, 4)),
       edge_drag_window = Some 7, edge_repeat = None \<rparr> (1, PointerTo (25, 5))
   in element_location small_api (space d) 7 = None \<and> is_minimized (layouts (dt st')) 7 \<and>
      element_location small_api (space (dt st')) 7 = Some (23, 4)"
proof -
  define d where "d = minimize_window small_api (desk small_desk) 7"
  have d: "element_location small_api (space d) 7 = None" "is_minimized (layouts d) 7"
    by (simp_all add: d_def minimize_window_def Let_def is_minimized_def layout_manager_default_def small_api_def
        focused_window_def push_minimized_def clear_focus_def emit_def split: option.split)
  let ?g = "move_grab_new (5, 5) (7 :: nat) (3, 4)"
  let ?st = "\<lparr> dt = d, pointer_at = (5, 5), grab = Some ?g, edge_drag_window = Some 7, edge_repeat = None \<rparr>"
  have o: "space_outputs (api small_lib) = (\<lambda>_. [()])" "output_geometry (api small_lib) = (\<lambda>_ _. Some (rect_at (0, 0) (100, 80)))"
    by (simp_all add: small_api_def)
  have g: "window ?g = 7" "edge_crossed (rect_at (0, 0) (100, 80)) (last_pointer_x ?g) (fst (25, 5)) = None"
    by (simp_all add: move_grab_new_def edge_crossed_def rect_at_def)
  have t: "dragged_to ?g (25, 5) = (23, 4)"
    using round_away_int [of 23] round_away_int [of 4] by (simp add: dragged_to_def move_grab_new_def)
  have "grab ?st = Some ?g" "is_minimized (layouts (dt ?st)) (window ?g)" using d g by simp_all
  from drag_brings_back_minimized [OF small_laws this g(2) o, of 1] d
  show ?thesis unfolding d_def [symmetric] g(1) t Let_def by simp
qed

end
