(* ===== verification/Clipboard.thy ===== *)
theory Clipboard
  imports Strings
begin

text \<open>
  The clipboard broker: \<open>src/clipboard.rs\<close>, the selection hooks of \<open>src/handlers/mod.rs\<close>, the bridge
  to X11 of \<open>src/xwayland.rs\<close> and the requests of \<open>src/ipc.rs\<close> that reach it. Who has a selection is
  smithay's and is a parameter (\<open>selections\<close>), with what the code relies on in \<open>selections_ok\<close>. A
  pipe is known by a number, what can be read from it comes with each wake-up, and everything that leaves the window
  manager (replies, closed connections, bytes for a paster, news for X11) is appended to \<open>sent\<close>.
\<close>

section \<open>Types of data\<close>

definition utf8_plain :: chars where "utf8_plain = literal ''text/plain;charset=utf-8''"

definition TEXT_MIMES :: "chars list" where
  "TEXT_MIMES = [utf8_plain, literal ''text/plain'', literal ''UTF8_STRING'', literal ''STRING'', literal ''TEXT'']"

definition pick_text_mime :: "chars list \<Rightarrow> chars option" where
  "pick_text_mime available = find (\<lambda>m. m \<in> set available) TEXT_MIMES"

definition offered_mimes :: "chars \<Rightarrow> chars list" where
  "offered_mimes mime =
    (if take 5 mime = literal ''text/'' \<or> mime \<in> set TEXT_MIMES then TEXT_MIMES else [mime])"

section \<open>State\<close>

datatype selection_target = Clipboard_sel | Primary_sel

datatype selection_origin = Remote | Xwayland

record clipboard_read =
  client_id :: nat
  mime :: chars
  buf :: bytes
  token :: "nat option"

record clipboard_broker =
  clipboard_cache :: "chars \<rightharpoonup> bytes"
  primary_cache :: "chars \<rightharpoonup> bytes"
  clipboard_mimes :: "chars list"
  primary_mimes :: "chars list"
  pending_reads :: "u64 \<rightharpoonup> clipboard_read"
  next_read_id :: u64

datatype clipboard_response = Clipboard_is "chars option" bytes | Failed chars | Done | Automation_off

datatype sending =
  Replied nat clipboard_response
| Dropped nat
| Owner_asked selection_target chars nat
| Pasted nat bytes
| X11_told selection_target "chars list option"
| X11_asked selection_target chars nat

text \<open>The parameter: who has the selections of the seat, as smithay keeps it.\<close>

record 's selections =
  set_selection :: "selection_target \<Rightarrow> chars list \<Rightarrow> selection_origin \<Rightarrow> 's \<Rightarrow> 's"
  clear_selection :: "selection_target \<Rightarrow> 's \<Rightarrow> 's"
  client_takes :: "selection_target \<Rightarrow> chars list option \<Rightarrow> 's \<Rightarrow> 's"
  selection_userdata :: "'s \<Rightarrow> selection_target \<Rightarrow> selection_origin option"
  client_serves :: "'s \<Rightarrow> selection_target \<Rightarrow> chars \<Rightarrow> bool"

text \<open>
  Taking a selection replaces whose it is, for that target alone; only a selection the window
  manager set has user data, and of such a one no client can be asked (\<open>ServerSideSelection\<close>).
\<close>

definition selections_ok :: "'s selections \<Rightarrow> bool" where
  "selections_ok lib \<longleftrightarrow>
    (\<forall>s t t' ms orig. selection_userdata lib (set_selection lib t ms orig s) t' =
       (if t' = t then Some orig else selection_userdata lib s t')) \<and>
    (\<forall>s t t'. selection_userdata lib (clear_selection lib t s) t' =
       (if t' = t then None else selection_userdata lib s t')) \<and>
    (\<forall>s t t' ms. selection_userdata lib (client_takes lib t ms s) t' =
       (if t' = t then None else selection_userdata lib s t')) \<and>
    (\<forall>s t m. selection_userdata lib s t \<noteq> None \<longrightarrow> \<not> client_serves lib s t m)"

record 's clipboard_wm =
  broker :: clipboard_broker
  seat :: 's
  xwm :: bool
  automation_enabled :: bool
  sent :: "sending list"

definition empty_broker :: clipboard_broker where
  "empty_broker = \<lparr> clipboard_cache = Map.empty, primary_cache = Map.empty, clipboard_mimes = [],
     primary_mimes = [], pending_reads = Map.empty, next_read_id = 0 \<rparr>"

definition send :: "sending list \<Rightarrow> 's clipboard_wm \<Rightarrow> 's clipboard_wm" where
  "send xs w = w\<lparr> sent := sent w @ xs \<rparr>"

definition cache_of :: "selection_target \<Rightarrow> clipboard_broker \<Rightarrow> chars \<rightharpoonup> bytes" where
  "cache_of t b = (case t of Clipboard_sel \<Rightarrow> clipboard_cache b | Primary_sel \<Rightarrow> primary_cache b)"

definition mimes_of :: "selection_target \<Rightarrow> clipboard_broker \<Rightarrow> chars list" where
  "mimes_of t b = (case t of Clipboard_sel \<Rightarrow> clipboard_mimes b | Primary_sel \<Rightarrow> primary_mimes b)"

definition put_selection :: "selection_target \<Rightarrow> chars list \<Rightarrow> (chars \<rightharpoonup> bytes) \<Rightarrow> clipboard_broker \<Rightarrow> clipboard_broker" where
  "put_selection t ms cache b = (case t of
     Clipboard_sel \<Rightarrow> b\<lparr> clipboard_mimes := ms, clipboard_cache := cache \<rparr>
   | Primary_sel \<Rightarrow> b\<lparr> primary_mimes := ms, primary_cache := cache \<rparr>)"

definition target_of :: "bool \<Rightarrow> selection_target" where
  "target_of primary = (if primary then Primary_sel else Clipboard_sel)"

section \<open>Reading the selection for a request\<close>

definition finalize_clipboard_read :: "u64 \<Rightarrow> 's clipboard_wm \<Rightarrow> 's clipboard_wm" where
  "finalize_clipboard_read r w = (case pending_reads (broker w) r of
     None \<Rightarrow> w
   | Some p \<Rightarrow> send [Replied (client_id p) (Clipboard_is (Some (mime p)) (buf p)), Dropped (client_id p)]
       (w\<lparr> broker := (broker w)\<lparr> pending_reads := (pending_reads (broker w))(r := None) \<rparr> \<rparr>))"

text \<open>
  Whether the reply went out at once, and the state. \<open>pipe\<close> is the new pipe or why there is none;
  \<open>source\<close> is the token of the event source, or \<open>None\<close> when it could not be added.
\<close>

definition handle_get_clipboard ::
  "'s selections \<Rightarrow> chars + nat \<Rightarrow> nat option \<Rightarrow> nat \<Rightarrow> bool \<Rightarrow> 's clipboard_wm \<Rightarrow> bool \<times> 's clipboard_wm" where
  "handle_get_clipboard lib pipe source cid primary w =
    (let t = target_of primary; b = broker w in
     case pick_text_mime (mimes_of t b) of
       None \<Rightarrow> (True, send [Replied cid (Clipboard_is None [])] w)
     | Some m \<Rightarrow>
         (case cache_of t b m of
            Some bs \<Rightarrow> (True, send [Replied cid (Clipboard_is (Some m) bs)] w)
          | None \<Rightarrow>
              (case pipe of
                 Inl e \<Rightarrow> (True, send [Replied cid (Failed (literal ''clipboard: pipe failed: '' @ e))] w)
               | Inr fd \<Rightarrow>
                   if \<not> client_serves lib (seat w) t m
                   then (True, send [Replied cid (Clipboard_is None [])] w)
                   else
                     (let r = next_read_id b;
                          p = \<lparr> client_id = cid, mime = m, buf = [], token = source \<rparr>;
                          w1 = send [Owner_asked t m fd]
                            (w\<lparr> broker := b\<lparr> next_read_id := r + 1, pending_reads := (pending_reads b)(r \<mapsto> p) \<rparr> \<rparr>)
                      in case source of Some _ \<Rightarrow> (False, w1) | None \<Rightarrow> (True, finalize_clipboard_read r w1)))))"

text \<open>What the pipe gives when it is readable; at the end of the list it would block.\<close>

datatype pipe_read = Chunk bytes | End_of_file | Would_block | Read_failed

fun read_ready :: "u64 \<Rightarrow> pipe_read list \<Rightarrow> 's clipboard_wm \<Rightarrow> 's clipboard_wm" where
  "read_ready r [] w = w"
| "read_ready r (Chunk bs # rs) w = (case pending_reads (broker w) r of
     None \<Rightarrow> read_ready r rs w
   | Some p \<Rightarrow> read_ready r rs
       (w\<lparr> broker := (broker w)\<lparr> pending_reads := (pending_reads (broker w))(r \<mapsto> p\<lparr> buf := buf p @ bs \<rparr>) \<rparr> \<rparr>))"
| "read_ready r (End_of_file # rs) w = finalize_clipboard_read r w"
| "read_ready r (Would_block # rs) w = w"
| "read_ready r (Read_failed # rs) w = finalize_clipboard_read r w"

section \<open>Owning the selection\<close>

definition handle_set_clipboard ::
  "'s selections \<Rightarrow> bool \<Rightarrow> chars \<Rightarrow> bytes \<Rightarrow> 's clipboard_wm \<Rightarrow> 's clipboard_wm" where
  "handle_set_clipboard lib primary m bs w =
    (let ms = offered_mimes m;
         cache = foldl (\<lambda>c x. c(x \<mapsto> bs)) Map.empty ms;
         t = target_of primary;
         w1 = w\<lparr> broker := put_selection t ms cache (broker w), seat := set_selection lib t ms Remote (seat w) \<rparr>
     in if xwm w1 then send [X11_told t (Some ms)] w1 else w1)"

definition note_new_selection :: "selection_target \<Rightarrow> chars list \<Rightarrow> 's clipboard_wm \<Rightarrow> 's clipboard_wm" where
  "note_new_selection t ms w = w\<lparr> broker := put_selection t ms Map.empty (broker w) \<rparr>"

text \<open>Dropping the descriptor without a byte is end of file for the paster, which is what \<open>Pasted fd []\<close> says.\<close>

definition serve_clipboard_selection :: "selection_target \<Rightarrow> chars \<Rightarrow> nat \<Rightarrow> 's clipboard_wm \<Rightarrow> 's clipboard_wm" where
  "serve_clipboard_selection t m fd w = (case cache_of t (broker w) m of
     Some bs \<Rightarrow> send [Pasted fd bs] w
   | None \<Rightarrow> send [Pasted fd []] w)"

section \<open>The hooks of Wayland and X11\<close>

text \<open>\<open>SelectionHandler::new_selection\<close>, after smithay has noted the client as the owner.\<close>

definition client_selects :: "'s selections \<Rightarrow> selection_target \<Rightarrow> chars list option \<Rightarrow> 's clipboard_wm \<Rightarrow> 's clipboard_wm" where
  "client_selects lib t source w =
    (let w1 = note_new_selection t (case source of None \<Rightarrow> [] | Some ms \<Rightarrow> ms)
                (w\<lparr> seat := client_takes lib t source (seat w) \<rparr>)
     in if xwm w1 then send [X11_told t source] w1 else w1)"

text \<open>\<open>SelectionHandler::send_selection\<close>: smithay calls it for a selection with user data and hands that over.\<close>

definition client_pastes :: "'s selections \<Rightarrow> selection_target \<Rightarrow> chars \<Rightarrow> nat \<Rightarrow> 's clipboard_wm \<Rightarrow> 's clipboard_wm" where
  "client_pastes lib t m fd w = (case selection_userdata lib (seat w) t of
     None \<Rightarrow> w
   | Some Remote \<Rightarrow> serve_clipboard_selection t m fd w
   | Some Xwayland \<Rightarrow> if xwm w then send [X11_asked t m fd] w else send [Pasted fd []] w)"

definition x11_pastes :: "'s selections \<Rightarrow> selection_target \<Rightarrow> chars \<Rightarrow> nat \<Rightarrow> 's clipboard_wm \<Rightarrow> 's clipboard_wm" where
  "x11_pastes lib t m fd w =
    (if selection_userdata lib (seat w) t = Some Remote then serve_clipboard_selection t m fd w
     else if client_serves lib (seat w) t m then send [Owner_asked t m fd] w
     else send [Pasted fd []] w)"

definition x11_selects :: "'s selections \<Rightarrow> selection_target \<Rightarrow> chars list \<Rightarrow> 's clipboard_wm \<Rightarrow> 's clipboard_wm" where
  "x11_selects lib t ms w =
    (let w1 = note_new_selection t ms w in w1\<lparr> seat := set_selection lib t ms Xwayland (seat w1) \<rparr>)"

definition x11_clears :: "'s selections \<Rightarrow> selection_target \<Rightarrow> 's clipboard_wm \<Rightarrow> 's clipboard_wm" where
  "x11_clears lib t w =
    (if selection_userdata lib (seat w) t = Some Xwayland then w\<lparr> seat := clear_selection lib t (seat w) \<rparr> else w)"

section \<open>The requests\<close>

definition get_request ::
  "'s selections \<Rightarrow> chars + nat \<Rightarrow> nat option \<Rightarrow> nat \<Rightarrow> bool \<Rightarrow> 's clipboard_wm \<Rightarrow> bool \<times> 's clipboard_wm" where
  "get_request lib pipe source cid primary w =
    (if \<not> automation_enabled w then (True, send [Replied cid Automation_off] w)
     else handle_get_clipboard lib pipe source cid primary w)"

definition set_request :: "'s selections \<Rightarrow> nat \<Rightarrow> bool \<Rightarrow> chars \<Rightarrow> bytes \<Rightarrow> 's clipboard_wm \<Rightarrow> bool \<times> 's clipboard_wm" where
  "set_request lib cid primary m bs w =
    (if \<not> automation_enabled w then (True, send [Replied cid Automation_off] w)
     else (True, send [Replied cid Done] (handle_set_clipboard lib primary m bs w)))"

text \<open>\<open>inject\<close> is what pressing the paste chord answers: \<open>None\<close> for success.\<close>

definition paste_request :: "'s selections \<Rightarrow> chars option \<Rightarrow> nat \<Rightarrow> chars option \<Rightarrow> 's clipboard_wm \<Rightarrow> bool \<times> 's clipboard_wm" where
  "paste_request lib inject cid pasted w =
    (if \<not> automation_enabled w then (True, send [Replied cid Automation_off] w)
     else
       (let w1 = (case pasted of None \<Rightarrow> w
                  | Some s \<Rightarrow> handle_set_clipboard lib False utf8_plain (into_bytes s) w)
        in (True, send [Replied cid (case inject of None \<Rightarrow> Done | Some e \<Rightarrow> Failed e)] w1)))"

text \<open>A request that was answered at once has its connection dropped by the caller.\<close>

definition finish_request :: "nat \<Rightarrow> bool \<times> 's clipboard_wm \<Rightarrow> 's clipboard_wm" where
  "finish_request cid = (\<lambda>(inline, w). if inline then send [Dropped cid] w else w)"

section \<open>Everything that happens to the broker\<close>

datatype clipboard_event =
  Get_clipboard "chars + nat" "nat option" nat bool
| Set_clipboard nat bool chars bytes
| Paste_text "chars option" nat "chars option"
| Readable u64 "pipe_read list"
| Client_selects selection_target "chars list option"
| Client_pastes selection_target chars nat
| X11_selects selection_target "chars list"
| X11_clears selection_target
| X11_pastes selection_target chars nat
| X11_running bool
| Automation bool

fun clipboard_step :: "'s selections \<Rightarrow> 's clipboard_wm \<Rightarrow> clipboard_event \<Rightarrow> 's clipboard_wm" where
  "clipboard_step lib w (Get_clipboard pipe source cid primary) = finish_request cid (get_request lib pipe source cid primary w)"
| "clipboard_step lib w (Set_clipboard cid primary m bs) = finish_request cid (set_request lib cid primary m bs w)"
| "clipboard_step lib w (Paste_text inject cid s) = finish_request cid (paste_request lib inject cid s w)"
| "clipboard_step lib w (Readable r rs) = read_ready r rs w"
| "clipboard_step lib w (Client_selects t source) = client_selects lib t source w"
| "clipboard_step lib w (Client_pastes t m fd) = client_pastes lib t m fd w"
| "clipboard_step lib w (X11_selects t ms) = x11_selects lib t ms w"
| "clipboard_step lib w (X11_clears t) = x11_clears lib t w"
| "clipboard_step lib w (X11_pastes t m fd) = x11_pastes lib t m fd w"
| "clipboard_step lib w (X11_running b) = w\<lparr> xwm := b \<rparr>"
| "clipboard_step lib w (Automation b) = w\<lparr> automation_enabled := b \<rparr>"

section \<open>What is offered is what is served\<close>

lemmas clipboard_defs = get_request_def set_request_def paste_request_def handle_get_clipboard_def
  handle_set_clipboard_def client_selects_def client_pastes_def x11_selects_def x11_clears_def x11_pastes_def
  note_new_selection_def serve_clipboard_selection_def finish_request_def send_def Let_def

lemma put_selection_simps [simp]:
  "cache_of t' (put_selection t ms c b) = (if t' = t then c else cache_of t' b)"
  "mimes_of t' (put_selection t ms c b) = (if t' = t then ms else mimes_of t' b)"
  "pending_reads (put_selection t ms c b) = pending_reads b"
  "next_read_id (put_selection t ms c b) = next_read_id b"
  by (cases t; cases t'; simp add: put_selection_def cache_of_def mimes_of_def)+

lemma reads_keep_selections [simp]:
  "cache_of t (b\<lparr> pending_reads := p \<rparr>) = cache_of t b"
  "mimes_of t (b\<lparr> pending_reads := p \<rparr>) = mimes_of t b"
  "cache_of t (b\<lparr> next_read_id := i \<rparr>) = cache_of t b"
  "mimes_of t (b\<lparr> next_read_id := i \<rparr>) = mimes_of t b"
  by (cases t; simp add: cache_of_def mimes_of_def)+

lemma filled_cache: "foldl (\<lambda>c x. c(x \<mapsto> bs)) c0 ms = (\<lambda>x. if x \<in> set ms then Some bs else c0 x)"
  by (induction ms arbitrary: c0) auto

lemma filled_empty: "foldl (\<lambda>c x. c(x \<mapsto> bs)) Map.empty ms = (\<lambda>x. if x \<in> set ms then Some bs else None)"
  by (simp add: filled_cache)

text \<open>The selections alone: whose they are, what they offer and what is cached of them.\<close>

definition selection_view :: "'s selections \<Rightarrow> 's clipboard_wm \<Rightarrow> selection_target \<Rightarrow>
    selection_origin option \<times> chars list \<times> (chars \<rightharpoonup> bytes)" where
  "selection_view lib w t = (selection_userdata lib (seat w) t, mimes_of t (broker w), cache_of t (broker w))"

lemma finalize_view [simp]: "selection_view lib (finalize_clipboard_read r w) = selection_view lib w"
  by (rule ext) (simp add: selection_view_def finalize_clipboard_read_def send_def split: option.split)

lemma read_ready_view [simp]: "selection_view lib (read_ready r rs w) = selection_view lib w"
  by (induction r rs w rule: read_ready.induct)
    (simp_all add: selection_view_def fun_eq_iff split: option.split del: fun_upd_apply)

lemma get_view [simp]: "selection_view lib (snd (handle_get_clipboard lib pipe source cid primary w)) = selection_view lib w"
  by (rule ext)
    (simp add: handle_get_clipboard_def Let_def send_def selection_view_def finalize_clipboard_read_def
      split: option.split sum.split)

text \<open>Whether an event takes a selection.\<close>

fun takes :: "selection_target \<Rightarrow> clipboard_event \<Rightarrow> bool" where
  "takes t (Set_clipboard cid primary m bs) = (target_of primary = t)"
| "takes t (Paste_text inject cid s) = (s \<noteq> None \<and> t = Clipboard_sel)"
| "takes t (Client_selects t' source) = (t' = t)"
| "takes t (X11_selects t' ms) = (t' = t)"
| "takes t e = False"

lemma finish_view [simp]: "selection_view lib (finish_request cid r) = selection_view lib (snd r)"
  by (cases r) (simp add: finish_request_def send_def selection_view_def fun_eq_iff)

lemma send_view [simp]: "selection_view lib (send xs w) = selection_view lib w"
  by (simp add: send_def selection_view_def fun_eq_iff)

lemma switches_view [simp]:
  "selection_view lib (w\<lparr> xwm := b \<rparr>) = selection_view lib w"
  "selection_view lib (w\<lparr> automation_enabled := b \<rparr>) = selection_view lib w"
  by (simp_all add: selection_view_def fun_eq_iff)

lemma set_view:
  assumes "selections_ok lib"
  shows "selection_view lib (handle_set_clipboard lib primary m bs w) =
    (selection_view lib w)(target_of primary := (Some Remote, offered_mimes m,
       (\<lambda>x. if x \<in> set (offered_mimes m) then Some bs else None)))"
  using assms
  by (simp add: handle_set_clipboard_def selection_view_def selections_ok_def filled_empty Let_def fun_eq_iff send_def)

lemma client_selects_view:
  assumes "selections_ok lib"
  shows "selection_view lib (client_selects lib t source w) =
    (selection_view lib w)(t := (None, (case source of None \<Rightarrow> [] | Some ms \<Rightarrow> ms), Map.empty))"
  using assms
  by (simp add: client_selects_def note_new_selection_def selection_view_def selections_ok_def Let_def fun_eq_iff send_def)

lemma x11_selects_view:
  assumes "selections_ok lib"
  shows "selection_view lib (x11_selects lib t ms w) = (selection_view lib w)(t := (Some Xwayland, ms, Map.empty))"
  using assms
  by (simp add: x11_selects_def note_new_selection_def selection_view_def selections_ok_def Let_def fun_eq_iff)

lemma x11_clears_view:
  assumes "selections_ok lib"
  shows "selection_view lib (x11_clears lib t w) =
    (case selection_view lib w t of (who, ms, c) \<Rightarrow>
       if who = Some Xwayland then (selection_view lib w)(t := (None, ms, c)) else selection_view lib w)"
  using assms by (simp add: x11_clears_def selection_view_def selections_ok_def fun_eq_iff)

lemma pastes_view [simp]:
  "selection_view lib (client_pastes lib t m fd w) = selection_view lib w"
  "selection_view lib (x11_pastes lib t m fd w) = selection_view lib w"
  by (auto simp: client_pastes_def x11_pastes_def serve_clipboard_selection_def
      split: option.splits selection_origin.splits)

text \<open>
  A selection set over the socket is cached whole, under each type it is offered as; of any
  other selection nothing is cached.
\<close>

definition entry_ok :: "selection_origin option \<times> chars list \<times> (chars \<rightharpoonup> bytes) \<Rightarrow> bool" where
  "entry_ok = (\<lambda>(who, ms, c). case who of
     Some Remote \<Rightarrow> \<exists>m bs. ms = offered_mimes m \<and> c = (\<lambda>x. if x \<in> set ms then Some bs else None)
   | _ \<Rightarrow> c = Map.empty)"

definition broker_ok :: "'s selections \<Rightarrow> 's clipboard_wm \<Rightarrow> bool" where
  "broker_ok lib w \<longleftrightarrow> (\<forall>t. entry_ok (selection_view lib w t))"

lemma entry_ok_simps [simp]:
  "entry_ok (None, ms, c) \<longleftrightarrow> c = Map.empty"
  "entry_ok (Some Xwayland, ms, c) \<longleftrightarrow> c = Map.empty"
  "entry_ok (Some Remote, offered_mimes m, (\<lambda>x. if x \<in> set (offered_mimes m) then Some bs else None))"
  by (auto simp: entry_ok_def)

lemma step_view:
  assumes "selections_ok lib" "\<not> takes t e"
  shows "selection_view lib (clipboard_step lib w e) t = selection_view lib w t \<or>
    (\<exists>ms c. selection_view lib w t = (Some Xwayland, ms, c) \<and> selection_view lib (clipboard_step lib w e) t = (None, ms, c))"
proof (cases e)
  case (Get_clipboard pipe source cid primary)
  then show ?thesis by (simp add: get_request_def)
next
  case (Paste_text inject cid s)
  with assms show ?thesis
    by (auto simp: paste_request_def set_view target_of_def split: option.split)
next
  case (X11_clears t')
  obtain who ms c where v: "selection_view lib w t' = (who, ms, c)" by (cases "selection_view lib w t'") auto
  with X11_clears show ?thesis by (cases "t' = t") (auto simp: x11_clears_view [OF assms(1)])
qed (use assms in \<open>auto simp: set_request_def set_view client_selects_view x11_selects_view\<close>)

lemma step_broker_ok:
  assumes lib: "selections_ok lib" and ok: "broker_ok lib w"
  shows "broker_ok lib (clipboard_step lib w e)"
  unfolding broker_ok_def
proof
  fix t
  have t: "entry_ok (selection_view lib w t)" using ok by (simp add: broker_ok_def)
  show "entry_ok (selection_view lib (clipboard_step lib w e) t)"
  proof (cases "takes t e")
    case False
    from step_view [OF lib this, of w] t show ?thesis by auto
  next
    case True
    with t show ?thesis
      by (cases e) (auto simp: set_request_def paste_request_def set_view [OF lib] client_selects_view [OF lib]
          x11_selects_view [OF lib] target_of_def)
  qed
qed

interpretation clipboard: stepper "clipboard_step lib" "\<lambda>w. selections_ok lib \<and> broker_ok lib w" "\<lambda>_ _. True" for lib
  by unfold_locales (auto intro: step_broker_ok)

lemma reachable_broker_ok:
  assumes "selections_ok lib" "broker_ok lib w"
  shows "broker_ok lib (foldl (clipboard_step lib) w es)"
proof -
  have "stepper.admissible_run (clipboard_step lib) (\<lambda>_ _. True) w es" for w
    by (induction es arbitrary: w) (auto simp: stepper.admissible_run.simps [OF clipboard.stepper_axioms])
  with clipboard.run_inv [of lib w es] assms show ?thesis by blast
qed

lemma run_keeps_view:
  assumes "selections_ok lib" "list_all (\<lambda>e. \<not> takes t e) es" "selection_view lib w t = (Some Remote, ms, c)"
  shows "selection_view lib (foldl (clipboard_step lib) w es) t = (Some Remote, ms, c)"
  using assms(2,3)
proof (induction es arbitrary: w)
  case (Cons e es)
  from step_view [OF assms(1), of t e w] Cons.prems
  have "selection_view lib (clipboard_step lib w e) t = (Some Remote, ms, c)" by auto
  with Cons show ?case by simp
qed simp

lemma run_keeps_x11_view:
  assumes "selections_ok lib" "list_all (\<lambda>e. \<not> takes t e \<and> e \<noteq> X11_clears t) es"
    "selection_view lib w t = (Some Xwayland, ms, c)"
  shows "selection_view lib (foldl (clipboard_step lib) w es) t = (Some Xwayland, ms, c)"
  using assms(2,3)
proof (induction es arbitrary: w)
  case (Cons e es)
  have "selection_view lib (clipboard_step lib w e) t = (Some Xwayland, ms, c)"
  proof (cases e)
    case (X11_clears t')
    with Cons.prems show ?thesis
      by (cases "selection_view lib w t'") (auto simp: x11_clears_view [OF assms(1)])
  qed (use Cons.prems in \<open>auto simp: get_request_def set_request_def paste_request_def set_view [OF assms(1)]
      client_selects_view [OF assms(1)] x11_selects_view [OF assms(1)] target_of_def split: option.splits\<close>)
  with Cons show ?case by simp
qed simp

lemma pick_TEXT_MIMES [simp]: "pick_text_mime TEXT_MIMES = Some utf8_plain"
  by (simp add: pick_text_mime_def TEXT_MIMES_def)

lemma utf8_plain_in [simp]: "utf8_plain \<in> set TEXT_MIMES"
  by (simp add: TEXT_MIMES_def)

lemma pick_offered: "pick_text_mime (offered_mimes m) = (if offered_mimes m = TEXT_MIMES then Some utf8_plain else None)"
proof (cases "take 5 m = literal ''text/'' \<or> m \<in> set TEXT_MIMES")
  case False
  then have "offered_mimes m = [m]" "[m] \<noteq> TEXT_MIMES" by (auto simp: offered_mimes_def TEXT_MIMES_def)
  moreover have "pick_text_mime [m] = None" using False by (auto simp: pick_text_mime_def find_None_iff)
  ultimately show ?thesis by simp
qed (simp add: offered_mimes_def)

lemma get_from_view:
  assumes "selection_view lib w (target_of primary) = (who, ms, c)" "automation_enabled w"
  shows "pick_text_mime ms = None \<Longrightarrow> sent (clipboard_step lib w (Get_clipboard pipe source cid primary)) =
      sent w @ [Replied cid (Clipboard_is None []), Dropped cid]"
    and "pick_text_mime ms = Some m \<Longrightarrow> c m = Some bs \<Longrightarrow>
      sent (clipboard_step lib w (Get_clipboard pipe source cid primary)) =
      sent w @ [Replied cid (Clipboard_is (Some m) bs), Dropped cid]"
    and "pick_text_mime ms = Some m \<Longrightarrow> c m = None \<Longrightarrow> pipe = Inr fd \<Longrightarrow> who \<noteq> None \<Longrightarrow> selections_ok lib \<Longrightarrow>
      sent (clipboard_step lib w (Get_clipboard pipe source cid primary)) =
      sent w @ [Replied cid (Clipboard_is None []), Dropped cid]"
  using assms
  by (auto simp: get_request_def handle_get_clipboard_def selection_view_def finish_request_def send_def Let_def selections_ok_def)

lemma paste_from_view:
  assumes "selection_view lib w t = (Some Remote, ms, c)"
  shows "sent (clipboard_step lib w (Client_pastes t m fd)) = sent w @ [Pasted fd (case c m of Some bs \<Rightarrow> bs | None \<Rightarrow> [])]"
    and "sent (clipboard_step lib w (X11_pastes t m fd)) = sent w @ [Pasted fd (case c m of Some bs \<Rightarrow> bs | None \<Rightarrow> [])]"
  using assms
  by (auto simp: client_pastes_def x11_pastes_def serve_clipboard_selection_def selection_view_def send_def split: option.split)

lemma set_request_view:
  assumes "selections_ok lib" "automation_enabled w"
  shows "selection_view lib (clipboard_step lib w (Set_clipboard cid primary m bs)) (target_of primary) =
    (Some Remote, offered_mimes m, (\<lambda>x. if x \<in> set (offered_mimes m) then Some bs else None))"
  using assms by (simp add: set_request_def set_view)

text \<open>C32. Text put on the clipboard over the socket is what is read back from it and what every paster of
  Wayland or X11 gets under each type on offer, whatever happens in between, until the selection is taken
  by somebody else; data that is not text is pasted but cannot be read back.\<close>

theorem what_is_set_is_pasted:
  fixes lib :: "'s selections" and w w' :: "'s clipboard_wm"
  assumes lib: "selections_ok lib" and on: "automation_enabled w" "automation_enabled w'"
    and undisturbed: "list_all (\<lambda>e. \<not> takes (target_of primary) e) es"
    and w': "w' = foldl (clipboard_step lib) (clipboard_step lib w (Set_clipboard cid primary m bs)) es"
  shows "sent (clipboard_step lib w' (Get_clipboard pipe source cid' primary)) = sent w' @
      [Replied cid' (if offered_mimes m = TEXT_MIMES then Clipboard_is (Some utf8_plain) bs else Clipboard_is None []),
       Dropped cid'] \<and>
    (\<forall>x \<in> set (offered_mimes m).
      sent (clipboard_step lib w' (Client_pastes (target_of primary) x fd)) = sent w' @ [Pasted fd bs] \<and>
      sent (clipboard_step lib w' (X11_pastes (target_of primary) x fd)) = sent w' @ [Pasted fd bs])"
proof -
  note v = run_keeps_view [OF lib undisturbed set_request_view [OF lib on(1)], of cid m bs, folded w']
  have "\<forall>x \<in> set (offered_mimes m).
      sent (clipboard_step lib w' (Client_pastes (target_of primary) x fd)) = sent w' @ [Pasted fd bs] \<and>
      sent (clipboard_step lib w' (X11_pastes (target_of primary) x fd)) = sent w' @ [Pasted fd bs]"
    by (auto simp: paste_from_view [OF v] simp del: clipboard_step.simps)
  with get_from_view(1,2) [OF v on(2)] show ?thesis
    by (simp add: pick_offered del: clipboard_step.simps)
qed

text \<open>A seat on which the last to take a selection has it.\<close>

definition small_selections :: "(selection_target \<Rightarrow> selection_origin option \<times> chars list) selections" where
  "small_selections = \<lparr> set_selection = (\<lambda>t ms orig s. s(t := (Some orig, ms))),
     clear_selection = (\<lambda>t s. s(t := (None, []))),
     client_takes = (\<lambda>t source s. s(t := (None, case source of None \<Rightarrow> [] | Some ms \<Rightarrow> ms))),
     selection_userdata = (\<lambda>s t. fst (s t)),
     client_serves = (\<lambda>s t m. fst (s t) = None \<and> m \<in> set (snd (s t))) \<rparr>"

definition small_wm :: "(selection_target \<Rightarrow> selection_origin option \<times> chars list) clipboard_wm" where
  "small_wm = \<lparr> broker = empty_broker, seat = (\<lambda>_. (None, [])), xwm = True, automation_enabled = True, sent = [] \<rparr>"

lemma small_selections_ok: "selections_ok small_selections"
  by (simp add: selections_ok_def small_selections_def)

definition hello :: bytes where "hello = [104, 101, 108, 108, 111]"

lemma offered_text: "offered_mimes (literal ''text/html'') = TEXT_MIMES"
  by (simp add: offered_mimes_def)

lemma what_is_set_is_pasted_witness:
  "let lib = small_selections;
       w' = foldl (clipboard_step lib) small_wm [Set_clipboard 1 False (literal ''text/html'') hello, X11_clears Clipboard_sel]
   in sent (clipboard_step lib w' (Get_clipboard (Inr 3) (Some 4) 2 False)) =
        sent w' @ [Replied 2 (Clipboard_is (Some utf8_plain) hello), Dropped 2] \<and>
      (\<forall>x \<in> set TEXT_MIMES. sent (clipboard_step lib w' (Client_pastes Clipboard_sel x 7)) = sent w' @ [Pasted 7 hello])"
  using what_is_set_is_pasted [OF small_selections_ok, of small_wm
      "foldl (clipboard_step small_selections) small_wm [Set_clipboard 1 False (literal ''text/html'') hello, X11_clears Clipboard_sel]"
      False "[X11_clears Clipboard_sel]" 1 "literal ''text/html''" hello "Inr 3" "Some 4" 2 7]
  by (simp add: small_wm_def offered_text target_of_def x11_clears_def set_request_def finish_request_def send_def
      handle_set_clipboard_def Let_def del: literal_simps)

text \<open>A selection set over the socket as HTML is pasted under the plain text types only: a paster that
  asks for the type it was set as gets nothing, although that type is what the data was sent with.\<close>

theorem html_is_not_pasted_as_html:
  fixes lib :: "'s selections" and w w' :: "'s clipboard_wm"
  assumes lib: "selections_ok lib" and on: "automation_enabled w"
    and m: "take 5 m = literal ''text/''" "m \<notin> set TEXT_MIMES"
    and undisturbed: "list_all (\<lambda>e. \<not> takes (target_of primary) e) es"
    and w': "w' = foldl (clipboard_step lib) (clipboard_step lib w (Set_clipboard cid primary m bs)) es"
  shows "sent (clipboard_step lib w' (Client_pastes (target_of primary) m fd)) = sent w' @ [Pasted fd []] \<and>
    sent (clipboard_step lib w' (X11_pastes (target_of primary) m fd)) = sent w' @ [Pasted fd []] \<and>
    sent (clipboard_step lib w' (Client_pastes (target_of primary) utf8_plain fd)) = sent w' @ [Pasted fd bs]"
proof -
  have "m \<notin> set (offered_mimes m)" "offered_mimes m = TEXT_MIMES" using m by (auto simp: offered_mimes_def)
  with run_keeps_view [OF lib undisturbed set_request_view [OF lib on], of cid m bs, folded w'] show ?thesis
    by (simp add: paste_from_view del: clipboard_step.simps)
qed

lemma html_is_not_pasted_as_html_witness:
  "let w = clipboard_step small_selections small_wm (Set_clipboard 1 False (literal ''text/html'') hello)
   in sent (clipboard_step small_selections w (Client_pastes Clipboard_sel (literal ''text/html'') 7)) = sent w @ [Pasted 7 []]"
  using html_is_not_pasted_as_html [OF small_selections_ok, of small_wm "literal ''text/html''" False "[]" _ 1 hello 7]
  by (simp add: small_wm_def target_of_def TEXT_MIMES_def utf8_plain_def Let_def del: clipboard_step.simps)

text \<open>While an X11 program has the selection, reading it over the socket answers that it is empty, even though
  a text type is on offer and a Wayland program that pastes it is served by that X11 program.\<close>

theorem x11_selection_reads_empty:
  fixes lib :: "'s selections" and w w' :: "'s clipboard_wm"
  assumes lib: "selections_ok lib" and on: "automation_enabled w'" "xwm w'"
    and readable: "pick_text_mime ms = Some m"
    and undisturbed: "list_all (\<lambda>e. \<not> takes (target_of primary) e \<and> e \<noteq> X11_clears (target_of primary)) es"
    and w': "w' = foldl (clipboard_step lib) (clipboard_step lib w (X11_selects (target_of primary) ms)) es"
  shows "sent (clipboard_step lib w' (Get_clipboard (Inr fd) source cid primary)) =
      sent w' @ [Replied cid (Clipboard_is None []), Dropped cid] \<and>
    sent (clipboard_step lib w' (Client_pastes (target_of primary) m fd)) =
      sent w' @ [X11_asked (target_of primary) m fd]"
proof -
  have "selection_view lib (clipboard_step lib w (X11_selects (target_of primary) ms)) (target_of primary) =
      (Some Xwayland, ms, Map.empty)" by (simp add: x11_selects_view [OF lib])
  note v = run_keeps_x11_view [OF lib undisturbed this, folded w']
  have "sent (clipboard_step lib w' (Client_pastes (target_of primary) m fd)) = sent w' @ [X11_asked (target_of primary) m fd]"
    using v on(2) by (simp add: client_pastes_def selection_view_def send_def)
  with get_from_view(3) [OF v on(1) readable] lib show ?thesis by (simp del: clipboard_step.simps)
qed

lemma x11_selection_reads_empty_witness:
  "let w = clipboard_step small_selections small_wm (X11_selects Clipboard_sel TEXT_MIMES)
   in sent (clipboard_step small_selections w (Get_clipboard (Inr 3) (Some 4) 2 False)) =
        sent w @ [Replied 2 (Clipboard_is None []), Dropped 2]"
  using x11_selection_reads_empty [OF small_selections_ok, of _ TEXT_MIMES utf8_plain False "[]" small_wm 3 "Some 4" 2]
  by (simp add: small_wm_def target_of_def x11_selects_def note_new_selection_def Let_def)

section \<open>Reads end in one answer\<close>

text \<open>The next \<open>n\<close> identifiers are not waited for.\<close>

abbreviation reads_free :: "nat \<Rightarrow> clipboard_broker \<Rightarrow> bool" where
  "reads_free n b \<equiv> ids_free n (next_read_id b) (dom (pending_reads b))"

text \<open>Replies sent to a client, its reads still waiting, and the requests it made.\<close>

fun reply_to :: "nat \<Rightarrow> sending \<Rightarrow> bool" where
  "reply_to cid (Replied c resp) = (c = cid)"
| "reply_to cid x = False"

definition replies :: "nat \<Rightarrow> 's clipboard_wm \<Rightarrow> nat" where
  "replies cid w = length (filter (reply_to cid) (sent w))"

definition waiting :: "nat \<Rightarrow> (u64 \<rightharpoonup> clipboard_read) \<Rightarrow> nat" where
  "waiting cid pending = card {r. \<exists>p. pending r = Some p \<and> client_id p = cid}"

fun asks :: "nat \<Rightarrow> clipboard_event \<Rightarrow> bool" where
  "asks cid (Get_clipboard pipe source c primary) = (c = cid)"
| "asks cid (Set_clipboard c primary m bs) = (c = cid)"
| "asks cid (Paste_text inject c s) = (c = cid)"
| "asks cid e = False"

lemma waiting_insert:
  assumes "pending r = None"
  shows "waiting cid (pending(r \<mapsto> p)) = waiting cid pending + (if client_id p = cid then 1 else 0)"
proof -
  let ?R = "{r. \<exists>p. pending r = Some p \<and> client_id p = cid}"
  have "r \<notin> ?R" using assms by simp
  moreover have "{r'. \<exists>p'. (pending(r \<mapsto> p)) r' = Some p' \<and> client_id p' = cid} =
      (if client_id p = cid then insert r ?R else ?R)" using assms by auto
  ultimately show ?thesis by (simp add: waiting_def)
qed

lemma waiting_remove:
  assumes "pending r = Some p"
  shows "waiting cid pending = waiting cid (pending(r := None)) + (if client_id p = cid then 1 else 0)"
  using waiting_insert [of "pending(r := None)" r cid p] assms by (simp add: map_upd_triv)

lemma waiting_update:
  assumes "pending r = Some p" "client_id p' = client_id p"
  shows "waiting cid (pending(r \<mapsto> p')) = waiting cid pending"
  using waiting_insert [of "pending(r := None)" r cid p'] waiting_remove [where pending = pending and r = r and p = p and cid = cid] assms by simp

lemma replies_send [simp]: "replies cid (send xs w) = replies cid w + length (filter (reply_to cid) xs)"
  by (simp add: replies_def send_def)

lemma broker_send [simp]: "broker (send xs w) = broker w"
  by (simp add: send_def)

lemma replies_update [simp]:
  "replies cid (w\<lparr> broker := b \<rparr>) = replies cid w" "replies cid (w\<lparr> seat := s \<rparr>) = replies cid w"
  "replies cid (w\<lparr> xwm := x \<rparr>) = replies cid w" "replies cid (w\<lparr> automation_enabled := x \<rparr>) = replies cid w"
  by (simp_all add: replies_def)

text \<open>What a client is owed: its replies and what it waits for.\<close>

definition account :: "nat \<Rightarrow> 's clipboard_wm \<Rightarrow> nat" where
  "account cid w = replies cid w + waiting cid (pending_reads (broker w))"

lemma account_send [simp]: "account cid (send xs w) = account cid w + length (filter (reply_to cid) xs)"
  by (simp add: account_def)

lemma finalize_account [simp]: "account cid (finalize_clipboard_read r w) = account cid w"
  by (cases "pending_reads (broker w) r")
    (auto simp: finalize_clipboard_read_def account_def waiting_remove [where pending = "pending_reads (broker w)" and r = r and cid = cid])

lemma finalize_ids: "reads_free n (broker w) \<Longrightarrow> reads_free n (broker (finalize_clipboard_read r w))"
  by (auto simp: finalize_clipboard_read_def elim: ids_free_subset split: option.split)

lemma account_update:
  "account cid (w\<lparr> broker := b\<lparr> pending_reads := pending \<rparr> \<rparr>) = replies cid w + waiting cid pending"
  by (simp add: account_def)

lemma read_ready_account [simp]: "account cid (read_ready r rs w) = account cid w"
proof (induction r rs w rule: read_ready.induct)
  case (2 r bs rs w)
  show ?case
  proof (cases "pending_reads (broker w) r")
    case (Some p)
    with 2(2) [OF Some] show ?thesis
      by (simp add: account_update waiting_update [where pending = "pending_reads (broker w)" and p = p] del: fun_upd_apply)
        (simp add: account_def)
  qed (use 2 in simp)
qed simp_all

lemma read_ready_ids: "reads_free n (broker w) \<Longrightarrow> reads_free n (broker (read_ready r rs w))"
proof (induction r rs w rule: read_ready.induct)
  case (2 r bs rs w)
  show ?case
  proof (cases "pending_reads (broker w) r")
    case (Some p)
    have "reads_free n ((broker w)\<lparr> pending_reads := (pending_reads (broker w))(r \<mapsto> p') \<rparr>)" for p'
      using 2(3) Some by (simp add: insert_absorb domI)
    with Some 2(2) [OF Some] show ?thesis by (simp del: fun_upd_apply)
  qed (use 2 in simp)
qed (simp_all add: finalize_ids)

lemma selections_keep_reads [simp]:
  "pending_reads (broker (handle_set_clipboard lib primary m bs w)) = pending_reads (broker w)"
  "next_read_id (broker (handle_set_clipboard lib primary m bs w)) = next_read_id (broker w)"
  "pending_reads (broker (client_selects lib t source w)) = pending_reads (broker w)"
  "next_read_id (broker (client_selects lib t source w)) = next_read_id (broker w)"
  "pending_reads (broker (x11_selects lib t ms w)) = pending_reads (broker w)"
  "next_read_id (broker (x11_selects lib t ms w)) = next_read_id (broker w)"
  "broker (x11_clears lib t w) = broker w"
  "broker (client_pastes lib t m fd w) = broker w"
  "broker (x11_pastes lib t m fd w) = broker w"
  by (auto simp: handle_set_clipboard_def client_selects_def x11_selects_def x11_clears_def client_pastes_def
      x11_pastes_def serve_clipboard_selection_def note_new_selection_def Let_def split: option.split selection_origin.split)

lemma selections_keep_replies [simp]:
  "replies cid (handle_set_clipboard lib primary m bs w) = replies cid w"
  "replies cid (client_selects lib t source w) = replies cid w"
  "replies cid (x11_selects lib t ms w) = replies cid w"
  "replies cid (x11_clears lib t w) = replies cid w"
  "replies cid (client_pastes lib t m fd w) = replies cid w"
  "replies cid (x11_pastes lib t m fd w) = replies cid w"
  by (auto simp: handle_set_clipboard_def client_selects_def x11_selects_def x11_clears_def client_pastes_def
      x11_pastes_def serve_clipboard_selection_def note_new_selection_def Let_def split: option.split selection_origin.split)

lemma get_account:
  assumes "reads_free (Suc n) (broker w)"
  shows "account c (snd (handle_get_clipboard lib pipe source cid primary w)) =
    account c w + (if c = cid then 1 else 0)"
    and "reads_free n (broker (snd (handle_get_clipboard lib pipe source cid primary w)))"
proof -
  have free: "pending_reads (broker w) (next_read_id (broker w)) = None"
    using ids_free_unused [OF assms] by auto
  have acc: "account c' (w\<lparr> broker := b\<lparr> next_read_id := i, pending_reads := (pending_reads (broker w))(next_read_id (broker w) \<mapsto> p) \<rparr> \<rparr>) =
      account c' w + (if client_id p = c' then 1 else 0)" for p b i c'
    by (simp add: account_def waiting_insert [where pending = "pending_reads (broker w)" and r = "next_read_id (broker w)", OF free])
  show "account c (snd (handle_get_clipboard lib pipe source cid primary w)) =
    account c w + (if c = cid then 1 else 0)"
    by (auto simp: handle_get_clipboard_def Let_def acc split: option.split sum.split)
  show "reads_free n (broker (snd (handle_get_clipboard lib pipe source cid primary w)))"
    using ids_free_less [OF assms] ids_free_next [OF assms subset_refl]
    by (auto simp: handle_get_clipboard_def Let_def intro!: finalize_ids split: option.split sum.split)
qed

lemma step_account:
  assumes "reads_free (Suc n) (broker w)"
  shows "account cid (clipboard_step lib w e) = account cid w + (if asks cid e then 1 else 0) \<and>
    reads_free n (broker (clipboard_step lib w e))"
proof (cases e)
  case (Get_clipboard pipe source c primary)
  with get_account(1) [OF assms, of cid lib pipe source c primary] get_account(2) [OF assms, of lib pipe source c primary]
    ids_free_less [OF assms] show ?thesis
    by (auto simp: get_request_def finish_request_def split: prod.split)
qed (use ids_free_less [OF assms] in
    \<open>auto simp: set_request_def paste_request_def finish_request_def account_def read_ready_ids
      read_ready_account [unfolded account_def] split: option.split\<close>)

text \<open>Every request made of the clipboard gets exactly one reply, sent or still waiting for the owner's
  pipe to end: whatever happens in whatever order, for up to two to the sixty-fourth events.\<close>

theorem each_request_is_answered_once:
  fixes lib :: "'s selections" and w w' :: "'s clipboard_wm"
  assumes fresh: "pending_reads (broker w) = Map.empty" "sent w = []" and few: "length es \<le> 2 ^ 64"
    and w': "w' = foldl (clipboard_step lib) w es"
  shows "replies cid w' + waiting cid (pending_reads (broker w')) = length (filter (asks cid) es)"
proof -
  have "reads_free (length es) (broker w) \<Longrightarrow> account cid (foldl (clipboard_step lib) w es) = account cid w + length (filter (asks cid) es)"
    for w :: "'s clipboard_wm"
  proof (induction es arbitrary: w)
    case (Cons e es)
    with step_account [of "length es" w cid lib e] show ?case by simp
  qed simp
  moreover have "reads_free (length es) (broker w)" using fresh few by (simp add: ids_free_empty)
  moreover have "account cid w = 0" using fresh by (simp add: account_def replies_def waiting_def)
  ultimately show ?thesis using w' by (simp add: account_def)
qed

lemma each_request_is_answered_once_witness:
  "let w = foldl (clipboard_step small_selections) small_wm
       [Client_selects Clipboard_sel (Some TEXT_MIMES), Get_clipboard (Inr 3) (Some 4) 1 False, Readable 0 [Chunk hello, End_of_file]]
   in replies 1 w + waiting 1 (pending_reads (broker w)) = 1"
  using each_request_is_answered_once [of small_wm
      "[Client_selects Clipboard_sel (Some TEXT_MIMES), Get_clipboard (Inr 3) (Some 4) 1 False, Readable 0 [Chunk hello, End_of_file]]"
      _ small_selections 1]
  by (simp add: small_wm_def empty_broker_def Let_def)

text \<open>What an event reads for a request, and that it does not end its pipe.\<close>

fun chunk :: "pipe_read \<Rightarrow> bytes" where
  "chunk (Chunk bs) = bs"
| "chunk x = []"

fun delivered :: "u64 \<Rightarrow> clipboard_event \<Rightarrow> bytes" where
  "delivered r (Readable r' rs) = (if r' = r then concat (map chunk (takeWhile (\<lambda>x. x \<noteq> Would_block) rs)) else [])"
| "delivered r e = []"

fun goes_on :: "u64 \<Rightarrow> clipboard_event \<Rightarrow> bool" where
  "goes_on r (Readable r' rs) = (r' = r \<longrightarrow> End_of_file \<notin> set rs \<and> Read_failed \<notin> set rs)"
| "goes_on r e = True"

lemma finalize_other: "r' \<noteq> r \<Longrightarrow> pending_reads (broker (finalize_clipboard_read r' w)) r = pending_reads (broker w) r"
  by (auto simp: finalize_clipboard_read_def split: option.split)

lemma read_ready_other: "r' \<noteq> r \<Longrightarrow> pending_reads (broker (read_ready r' rs w)) r = pending_reads (broker w) r"
  by (induction r' rs w rule: read_ready.induct) (auto simp: finalize_other split: option.split)

lemma read_ready_collects:
  assumes "pending_reads (broker w) r = Some p" "End_of_file \<notin> set rs" "Read_failed \<notin> set rs"
  shows "pending_reads (broker (read_ready r rs w)) r =
    Some (p\<lparr> buf := buf p @ concat (map chunk (takeWhile (\<lambda>x. x \<noteq> Would_block) rs)) \<rparr>)"
  using assms by (induction r rs w arbitrary: p rule: read_ready.induct) auto

lemma step_collects:
  assumes "pending_reads (broker w) r = Some p" "next_read_id (broker w) \<noteq> r" "goes_on r e"
  shows "pending_reads (broker (clipboard_step lib w e)) r = Some (p\<lparr> buf := buf p @ delivered r e \<rparr>)"
proof (cases e)
  case (Get_clipboard pipe source c primary)
  with assms show ?thesis
    by (auto simp: get_request_def finish_request_def handle_get_clipboard_def Let_def finalize_other split: prod.split option.split sum.split)
next
  case (Readable r' rs)
  with assms show ?thesis by (cases "r' = r") (auto simp: read_ready_collects read_ready_other)
qed (use assms in \<open>auto simp: set_request_def paste_request_def finish_request_def split: option.split\<close>)

lemma run_collects:
  assumes "pending_reads (broker w) r = Some p" "reads_free (length es) (broker w)" "list_all (goes_on r) es"
  shows "pending_reads (broker (foldl (clipboard_step lib) w es)) r =
    Some (p\<lparr> buf := buf p @ concat (map (delivered r) es) \<rparr>)"
  using assms
proof (induction es arbitrary: w p)
  case (Cons e es)
  have "next_read_id (broker w) \<noteq> r" using ids_free_unused [of "length es"] Cons.prems(1,2) by auto
  with step_collects [OF Cons.prems(1) this, of e lib] Cons.prems(3)
  have "pending_reads (broker (clipboard_step lib w e)) r = Some (p\<lparr> buf := buf p @ delivered r e \<rparr>)" by simp
  from Cons.IH [OF this] step_account [of "length es" w 0 lib e] Cons.prems show ?case by simp
qed simp

lemma read_ready_finishes:
  assumes "pending_reads (broker w) r = Some p"
  shows "sent (read_ready r (map Chunk cs @ End_of_file # rest) w) =
    sent w @ [Replied (client_id p) (Clipboard_is (Some (mime p)) (buf p @ concat cs)), Dropped (client_id p)]"
  using assms
proof (induction cs arbitrary: w p)
  case Nil
  then show ?case by (simp add: finalize_clipboard_read_def send_def)
next
  case (Cons c cs)
  then show ?case by (simp add: Cons.IH)
qed

text \<open>C33. A request for a selection a Wayland client owns is answered, when the owner closes its pipe, with all the
  bytes that were read from that pipe in order, under the best text type on offer, and the connection is dropped then;
  other requests, other reads and changes of the selection in between make no difference.\<close>

theorem owner_data_arrives:
  fixes lib :: "'s selections" and w w' :: "'s clipboard_wm"
  assumes lib: "selections_ok lib" and ok: "broker_ok lib w" "reads_free (Suc (length es)) (broker w)"
    and on: "automation_enabled w" and best: "pick_text_mime (mimes_of (target_of primary) (broker w)) = Some m"
    and owner: "client_serves lib (seat w) (target_of primary) m"
    and es: "list_all (goes_on (next_read_id (broker w))) es"
    and w': "w' = foldl (clipboard_step lib) (clipboard_step lib w (Get_clipboard (Inr fd) (Some tok) cid primary)) es"
  shows "sent (clipboard_step lib w' (Readable (next_read_id (broker w)) (map Chunk cs @ [End_of_file]))) = sent w' @
    [Replied cid (Clipboard_is (Some m) (concat (map (delivered (next_read_id (broker w))) es) @ concat cs)), Dropped cid]"
proof -
  let ?r = "next_read_id (broker w)" and ?w = "clipboard_step lib w (Get_clipboard (Inr fd) (Some tok) cid primary)"
  have "selection_userdata lib (seat w) (target_of primary) = None"
  proof (rule ccontr)
    assume "selection_userdata lib (seat w) (target_of primary) \<noteq> None"
    moreover have "\<forall>s t m. selection_userdata lib s t \<noteq> None \<longrightarrow> \<not> client_serves lib s t m"
      using lib unfolding selections_ok_def by blast
    ultimately show False using owner by blast
  qed
  with ok(1) have "cache_of (target_of primary) (broker w) m = None"
    by (auto simp: broker_ok_def selection_view_def dest: spec [of _ "target_of primary"])
  with on best owner have "pending_reads (broker ?w) ?r = Some \<lparr> client_id = cid, mime = m, buf = [], token = Some tok \<rparr>"
    by (simp add: get_request_def handle_get_clipboard_def finish_request_def Let_def)
  from run_collects [OF this conjunct2 [OF step_account [OF ok(2)]] es] w'
  have "pending_reads (broker w') ?r =
      Some \<lparr> client_id = cid, mime = m, buf = concat (map (delivered ?r) es), token = Some tok \<rparr>" by simp
  from read_ready_finishes [OF this, of cs "[]"] show ?thesis by simp
qed

lemma owner_data_arrives_witness:
  "let w = clipboard_step small_selections small_wm (Client_selects Clipboard_sel (Some TEXT_MIMES));
       w' = foldl (clipboard_step small_selections) w
         [Get_clipboard (Inr 3) (Some 4) 1 False, Readable 0 [Chunk [104], Would_block], Set_clipboard 2 False utf8_plain []]
   in sent (clipboard_step small_selections w' (Readable 0 [Chunk [105], End_of_file])) =
        sent w' @ [Replied 1 (Clipboard_is (Some utf8_plain) [104, 105]), Dropped 1]"
proof -
  let ?w = "clipboard_step small_selections small_wm (Client_selects Clipboard_sel (Some TEXT_MIMES))"
  have w: "broker ?w = empty_broker\<lparr> clipboard_mimes := TEXT_MIMES \<rparr>" "automation_enabled ?w"
      "seat ?w Clipboard_sel = (None, TEXT_MIMES)"
    by (simp_all add: small_wm_def client_selects_def note_new_selection_def put_selection_def Let_def
        small_selections_def empty_broker_def send_def)
  have serves: "client_serves small_selections s t m \<longleftrightarrow> fst (s t) = None \<and> m \<in> set (snd (s t))" for s t m
    by (simp add: small_selections_def)
  have ok: "broker_ok small_selections ?w"
    by (rule step_broker_ok [OF small_selections_ok])
      (auto simp: broker_ok_def selection_view_def small_wm_def small_selections_def empty_broker_def cache_of_def split: selection_target.split)
  show ?thesis
    using owner_data_arrives [OF small_selections_ok ok, of "[Readable 0 [Chunk [104], Would_block], Set_clipboard 2 False utf8_plain []]"
        False utf8_plain _ 3 4 1 "[[105]]"]
    by (simp add: w serves empty_broker_def ids_free_def mimes_of_def target_of_def Let_def
        del: clipboard_step.simps One_nat_def)
qed

end
