(* ===== verification/Children.thy ===== *)
theory Children
  imports Strings "HOL-Library.AList"
begin

text \<open>
  The processes the window manager starts on request: the reaper (\<open>src/child_reaper.rs\<close>), the
  pipes of their output (\<open>src/child_pipe.rs\<close>), commands (\<open>src/remote_command.rs\<close>) and
  screenshots (\<open>src/remote_screenshot.rs\<close>), with the two requests of \<open>src/ipc.rs\<close>. The operating system's answers
  (whether a program starts, what \<open>try_wait\<close> says, what a pipe gives, whether a source can be added
  to the event loop) come with the events. A \<open>HashMap\<close> of what is pending is an association list;
  \<open>lossy\<close> is \<open>String::from_utf8_lossy\<close>.
\<close>

section \<open>Reaping\<close>

datatype exit_status = Exited int | Signalled int

fun exit_code :: "exit_status \<Rightarrow> int option" where
  "exit_code (Exited c) = Some c"
| "exit_code (Signalled s) = None"

datatype wait_result = Has_exited exit_status | Still_running | Wait_failed

text \<open>The statuses found, and the children that stay tracked.\<close>

fun sweep :: "(int \<Rightarrow> wait_result) \<Rightarrow> int list \<Rightarrow> (int \<times> exit_status) list \<times> int list" where
  "sweep try_wait [] = ([], [])"
| "sweep try_wait (pid # pids) = (case sweep try_wait pids of (reaped, rest) \<Rightarrow>
     (case try_wait pid of
        Has_exited st \<Rightarrow> ((pid, st) # reaped, rest)
      | Still_running \<Rightarrow> (reaped, pid # rest)
      | Wait_failed \<Rightarrow> (reaped, rest)))"

definition track :: "int \<Rightarrow> int list \<Rightarrow> int list" where
  "track pid tracked = tracked @ [pid]"

text \<open>\<open>kill\<close>: whether the signal was sent; a child that was reaped is not signalled.\<close>

definition reaper_kill :: "int \<Rightarrow> int list \<Rightarrow> bool" where
  "reaper_kill pid tracked \<longleftrightarrow> pid \<in> set tracked"

section \<open>Pipes\<close>

definition READ_BUDGET :: nat where "READ_BUDGET = 64 * 1024"

datatype pipe_kind = Stdout | Stderr

datatype pipe_read = Chunk bytes | End_of_file | Would_block | Interrupted | Read_failed

datatype pipe_event = Pipe_data bytes | Pipe_closed

text \<open>One wake-up of a pipe's source: what it reports, from what the reads give. At the end of the list it would block.\<close>

fun pipe_wakeup :: "nat \<Rightarrow> pipe_read list \<Rightarrow> pipe_event list" where
  "pipe_wakeup n [] = []"
| "pipe_wakeup n (r # rs) =
    (if n < READ_BUDGET
     then (case r of
         End_of_file \<Rightarrow> [Pipe_closed]
       | Chunk bs \<Rightarrow> Pipe_data bs # pipe_wakeup (n + length bs) rs
       | Would_block \<Rightarrow> []
       | Interrupted \<Rightarrow> pipe_wakeup n rs
       | Read_failed \<Rightarrow> [Pipe_closed])
     else [])"

section \<open>What is pending\<close>

definition RUN_COMMAND_OUTPUT_CAP :: nat where "RUN_COMMAND_OUTPUT_CAP = 64 * 1024"

record pending_command =
  client_id :: nat
  pid :: int
  exit_status :: "exit_status option"
  stdout_buf :: bytes
  stderr_buf :: bytes
  stdout_open :: bool
  stderr_open :: bool
  truncated :: bool
  stdout_token :: "nat option"
  stderr_token :: "nat option"
  timer_token :: "nat option"
  grace_token :: "nat option"

record pending_screenshot =
  shot_client :: nat
  shot_pid :: int
  shot_status :: "exit_status option"
  shot_stdout :: bytes
  shot_stderr :: bytes
  shot_stdout_open :: bool
  shot_stderr_open :: bool
  shot_stdout_token :: "nat option"
  shot_stderr_token :: "nat option"
  dest :: chars

datatype child_response =
  Command_result int chars chars bool
| Command_started int
| Screenshot_at chars
| Error_is chars
| Automation_off

datatype sending =
  Replied nat child_response
| Dropped nat
| Killed_group int
| Lock_child int exit_status

record children_wm =
  tracked :: "int list"
  pending_commands :: "(u64 \<times> pending_command) list"
  next_command_id :: u64
  pending_screenshots :: "(u64 \<times> pending_screenshot) list"
  next_screenshot_id :: u64
  automation_enabled :: bool
  sent :: "sending list"

definition send :: "sending list \<Rightarrow> children_wm \<Rightarrow> children_wm" where
  "send xs w = w\<lparr> sent := sent w @ xs \<rparr>"

text \<open>\<open>get_mut\<close> and a change in place.\<close>

definition modify :: "'k \<Rightarrow> ('v \<Rightarrow> 'v) \<Rightarrow> ('k \<times> 'v) list \<Rightarrow> ('k \<times> 'v) list" where
  "modify k f xs = (case map_of xs k of None \<Rightarrow> xs | Some v \<Rightarrow> AList.update k (f v) xs)"

definition modify_command :: "u64 \<Rightarrow> (pending_command \<Rightarrow> pending_command) \<Rightarrow> children_wm \<Rightarrow> children_wm" where
  "modify_command r f w = w\<lparr> pending_commands := modify r f (pending_commands w) \<rparr>"

definition modify_screenshot :: "u64 \<Rightarrow> (pending_screenshot \<Rightarrow> pending_screenshot) \<Rightarrow> children_wm \<Rightarrow> children_wm" where
  "modify_screenshot r f w = w\<lparr> pending_screenshots := modify r f (pending_screenshots w) \<rparr>"

section \<open>Commands\<close>

definition finalize_remote_command :: "(bytes \<Rightarrow> chars) \<Rightarrow> u64 \<Rightarrow> children_wm \<Rightarrow> children_wm" where
  "finalize_remote_command lossy r w = (case map_of (pending_commands w) r of
     None \<Rightarrow> w
   | Some p \<Rightarrow>
       (let code = (case Option.bind (exit_status p) exit_code of Some c \<Rightarrow> c | None \<Rightarrow> - 1)
        in send [Replied (client_id p) (Command_result code (lossy (stdout_buf p)) (lossy (stderr_buf p)) (truncated p)),
                 Dropped (client_id p)]
             (w\<lparr> pending_commands := AList.delete r (pending_commands w) \<rparr>)))"

definition command_ready :: "pending_command \<Rightarrow> bool" where
  "command_ready p \<longleftrightarrow> \<not> stdout_open p \<and> \<not> stderr_open p \<and> exit_status p \<noteq> None"

definition maybe_finalize_remote_command :: "(bytes \<Rightarrow> chars) \<Rightarrow> u64 \<Rightarrow> children_wm \<Rightarrow> children_wm" where
  "maybe_finalize_remote_command lossy r w = (case map_of (pending_commands w) r of
     None \<Rightarrow> w
   | Some p \<Rightarrow> if command_ready p then finalize_remote_command lossy r w else w)"

definition close_pipe :: "pipe_kind \<Rightarrow> pending_command \<Rightarrow> pending_command" where
  "close_pipe k p = (case k of Stdout \<Rightarrow> p\<lparr> stdout_open := False \<rparr> | Stderr \<Rightarrow> p\<lparr> stderr_open := False \<rparr>)"

definition on_command_pipe_closed :: "(bytes \<Rightarrow> chars) \<Rightarrow> u64 \<Rightarrow> pipe_kind \<Rightarrow> children_wm \<Rightarrow> children_wm" where
  "on_command_pipe_closed lossy r k w =
    (if map_of (pending_commands w) r = None then w
     else maybe_finalize_remote_command lossy r (modify_command r (close_pipe k) w))"

definition append_output :: "pipe_kind \<Rightarrow> bytes \<Rightarrow> pending_command \<Rightarrow> pending_command" where
  "append_output k bs p =
    (let buf = (case k of Stdout \<Rightarrow> stdout_buf p | Stderr \<Rightarrow> stderr_buf p);
         room = RUN_COMMAND_OUTPUT_CAP - length buf;
         p1 = (if room < length bs then p\<lparr> truncated := True \<rparr> else p);
         buf1 = buf @ take (min (length bs) room) bs
     in case k of Stdout \<Rightarrow> p1\<lparr> stdout_buf := buf1 \<rparr> | Stderr \<Rightarrow> p1\<lparr> stderr_buf := buf1 \<rparr>)"

definition on_command_output :: "u64 \<Rightarrow> pipe_kind \<Rightarrow> bytes \<Rightarrow> children_wm \<Rightarrow> children_wm" where
  "on_command_output r k bs w = modify_command r (append_output k bs) w"

fun on_command_pipe :: "(bytes \<Rightarrow> chars) \<Rightarrow> u64 \<Rightarrow> pipe_kind \<Rightarrow> pipe_event \<Rightarrow> children_wm \<Rightarrow> children_wm" where
  "on_command_pipe lossy r k (Pipe_data bs) w = on_command_output r k bs w"
| "on_command_pipe lossy r k Pipe_closed w = on_command_pipe_closed lossy r k w"

definition on_command_timeout :: "u64 \<Rightarrow> children_wm \<Rightarrow> children_wm" where
  "on_command_timeout r w = (case map_of (pending_commands w) r of
     None \<Rightarrow> w
   | Some p \<Rightarrow> send [Killed_group (pid p)] (modify_command r (\<lambda>p. p\<lparr> timer_token := None \<rparr>) w))"

definition on_output_grace_over :: "(bytes \<Rightarrow> chars) \<Rightarrow> u64 \<Rightarrow> children_wm \<Rightarrow> children_wm" where
  "on_output_grace_over lossy r w = (case map_of (pending_commands w) r of
     None \<Rightarrow> w
   | Some p \<Rightarrow> finalize_remote_command lossy r
       (send [Killed_group (pid p)] (modify_command r (\<lambda>p. p\<lparr> grace_token := None \<rparr>) w)))"

text \<open>\<open>source\<close>: the token of the grace timer, or \<open>None\<close> when it could not be added.\<close>

definition arm_output_grace :: "nat option \<Rightarrow> u64 \<Rightarrow> children_wm \<Rightarrow> children_wm" where
  "arm_output_grace source r w = (case source of
     None \<Rightarrow> w
   | Some t \<Rightarrow> modify_command r (\<lambda>p. p\<lparr> grace_token := Some t \<rparr>) w)"

definition find_pid :: "('v \<Rightarrow> int) \<Rightarrow> int \<Rightarrow> (u64 \<times> 'v) list \<Rightarrow> u64 option" where
  "find_pid pid_of q xs = map_option fst (find (\<lambda>(r, p). pid_of p = q) xs)"

definition note_command_reaped ::
  "(bytes \<Rightarrow> chars) \<Rightarrow> nat option \<Rightarrow> int \<Rightarrow> exit_status \<Rightarrow> children_wm \<Rightarrow> bool \<times> children_wm" where
  "note_command_reaped lossy source q st w = (case find_pid pid q (pending_commands w) of
     None \<Rightarrow> (False, w)
   | Some r \<Rightarrow>
       (let w1 = maybe_finalize_remote_command lossy r (modify_command r (\<lambda>p. p\<lparr> exit_status := Some st \<rparr>) w)
        in (True, if map_of (pending_commands w1) r \<noteq> None then arm_output_grace source r w1 else w1)))"

text \<open>What starting a program came to: its pid, and the sources for its pipes and the time limit.\<close>

record spawn_result =
  started :: "chars + int"
  stdout_source :: "chars + nat"
  stderr_source :: "chars + nat"
  timer_source :: "chars + nat"

definition spawn_remote_command ::
  "spawn_result \<Rightarrow> nat \<Rightarrow> chars list \<Rightarrow> u32 option \<Rightarrow> children_wm \<Rightarrow> (chars + unit) \<times> children_wm" where
  "spawn_remote_command res cid argv timeout_ms w =
    (if argv = [] then (Inl (literal ''run_command: argv must be non-empty''), w)
     else case started res of
       Inl e \<Rightarrow> (Inl e, w)
     | Inr q \<Rightarrow>
         (let r = next_command_id w;
              p = \<lparr> client_id = cid, pid = q, exit_status = None, stdout_buf = [], stderr_buf = [], stdout_open = True,
                    stderr_open = True, truncated = False, stdout_token = None, stderr_token = None,
                    timer_token = None, grace_token = None \<rparr>;
              w1 = w\<lparr> tracked := track q (tracked w), next_command_id := r + 1,
                      pending_commands := AList.update r p (pending_commands w) \<rparr>
          in case stdout_source res of
               Inl e \<Rightarrow> (Inl e, w1)
             | Inr t1 \<Rightarrow>
                 (case stderr_source res of
                    Inl e \<Rightarrow> (Inl e, w1)
                  | Inr t2 \<Rightarrow>
                      (let w2 = modify_command r (\<lambda>p. p\<lparr> stdout_token := Some t1, stderr_token := Some t2 \<rparr>) w1
                       in case timeout_ms of
                            None \<Rightarrow> (Inr (), w2)
                          | Some ms \<Rightarrow>
                              (case timer_source res of
                                 Inl e \<Rightarrow> (Inl e, w2)
                               | Inr t3 \<Rightarrow> (Inr (), modify_command r (\<lambda>p. p\<lparr> timer_token := Some t3 \<rparr>) w2))))))"

definition spawn_detached_command :: "spawn_result \<Rightarrow> chars list \<Rightarrow> children_wm \<Rightarrow> (chars + int) \<times> children_wm" where
  "spawn_detached_command res argv w =
    (if argv = [] then (Inl (literal ''run_command: argv must be non-empty''), w)
     else case started res of
       Inl e \<Rightarrow> (Inl e, w)
     | Inr q \<Rightarrow> (Inr q, w\<lparr> tracked := track q (tracked w) \<rparr>))"

definition run_command_request ::
  "spawn_result \<Rightarrow> nat \<Rightarrow> chars list \<Rightarrow> u32 option \<Rightarrow> bool \<Rightarrow> children_wm \<Rightarrow> bool \<times> children_wm" where
  "run_command_request res cid argv timeout_ms detach w =
    (if \<not> automation_enabled w then (True, send [Replied cid Automation_off] w)
     else if argv = [] then (True, send [Replied cid (Error_is (literal ''run_command: argv must be non-empty''))] w)
     else if detach then (case spawn_detached_command res argv w of
         (Inr q, w1) \<Rightarrow> (True, send [Replied cid (Command_started q)] w1)
       | (Inl e, w1) \<Rightarrow> (True, send [Replied cid (Error_is (literal ''run_command spawn failed: '' @ e))] w1))
     else (case spawn_remote_command res cid argv timeout_ms w of
         (Inr _, w1) \<Rightarrow> (False, w1)
       | (Inl e, w1) \<Rightarrow> (True, send [Replied cid (Error_is (literal ''run_command spawn failed: '' @ e))] w1)))"

section \<open>Screenshots\<close>

definition shot_ready :: "pending_screenshot \<Rightarrow> bool" where
  "shot_ready p \<longleftrightarrow> \<not> shot_stdout_open p \<and> \<not> shot_stderr_open p \<and> shot_status p \<noteq> None"

text \<open>\<open>show_int\<close> prints an exit code.\<close>

definition shot_response :: "(bytes \<Rightarrow> chars) \<Rightarrow> (int \<Rightarrow> chars) \<Rightarrow> exit_status \<Rightarrow> pending_screenshot \<Rightarrow> child_response" where
  "shot_response lossy show_int st p =
    (if st = Exited 0 then Screenshot_at (dest p)
     else
       (let stderr = trim (lossy (shot_stderr p));
            code = (case exit_code st of Some c \<Rightarrow> show_int c | None \<Rightarrow> literal ''<signal>'')
        in Error_is (if stderr = [] then literal ''screenshot: child exited '' @ code
                     else literal ''screenshot: child exited '' @ code @ literal '': '' @ stderr)))"

definition maybe_finalize_remote_screenshot ::
  "(bytes \<Rightarrow> chars) \<Rightarrow> (int \<Rightarrow> chars) \<Rightarrow> u64 \<Rightarrow> children_wm \<Rightarrow> children_wm" where
  "maybe_finalize_remote_screenshot lossy show_int r w = (case map_of (pending_screenshots w) r of
     None \<Rightarrow> w
   | Some p \<Rightarrow>
       (case shot_status p of
          None \<Rightarrow> w
        | Some st \<Rightarrow>
            if shot_ready p
            then send [Replied (shot_client p) (shot_response lossy show_int st p), Dropped (shot_client p)]
                   (w\<lparr> pending_screenshots := AList.delete r (pending_screenshots w) \<rparr>)
            else w))"

definition close_shot_pipe :: "pipe_kind \<Rightarrow> pending_screenshot \<Rightarrow> pending_screenshot" where
  "close_shot_pipe k p =
    (case k of Stdout \<Rightarrow> p\<lparr> shot_stdout_open := False \<rparr> | Stderr \<Rightarrow> p\<lparr> shot_stderr_open := False \<rparr>)"

definition on_pipe_closed :: "(bytes \<Rightarrow> chars) \<Rightarrow> (int \<Rightarrow> chars) \<Rightarrow> u64 \<Rightarrow> pipe_kind \<Rightarrow> children_wm \<Rightarrow> children_wm" where
  "on_pipe_closed lossy show_int r k w =
    (if map_of (pending_screenshots w) r = None then w
     else maybe_finalize_remote_screenshot lossy show_int r (modify_screenshot r (close_shot_pipe k) w))"

definition append_shot :: "pipe_kind \<Rightarrow> bytes \<Rightarrow> pending_screenshot \<Rightarrow> pending_screenshot" where
  "append_shot k bs p =
    (case k of Stdout \<Rightarrow> p\<lparr> shot_stdout := shot_stdout p @ bs \<rparr> | Stderr \<Rightarrow> p\<lparr> shot_stderr := shot_stderr p @ bs \<rparr>)"

fun on_shot_pipe ::
  "(bytes \<Rightarrow> chars) \<Rightarrow> (int \<Rightarrow> chars) \<Rightarrow> u64 \<Rightarrow> pipe_kind \<Rightarrow> pipe_event \<Rightarrow> children_wm \<Rightarrow> children_wm" where
  "on_shot_pipe lossy show_int r k (Pipe_data bs) w = modify_screenshot r (append_shot k bs) w"
| "on_shot_pipe lossy show_int r k Pipe_closed w = on_pipe_closed lossy show_int r k w"

definition note_screenshot_reaped ::
  "(bytes \<Rightarrow> chars) \<Rightarrow> (int \<Rightarrow> chars) \<Rightarrow> int \<Rightarrow> exit_status \<Rightarrow> children_wm \<Rightarrow> bool \<times> children_wm" where
  "note_screenshot_reaped lossy show_int q st w = (case find_pid shot_pid q (pending_screenshots w) of
     None \<Rightarrow> (False, w)
   | Some r \<Rightarrow> (True, maybe_finalize_remote_screenshot lossy show_int r
                       (modify_screenshot r (\<lambda>p. p\<lparr> shot_status := Some st \<rparr>) w)))"

text \<open>The directory is made first, which can fail; \<open>auto_path\<close> is the path made of the time of day.\<close>

definition spawn_remote_screenshot ::
  "chars + unit \<Rightarrow> chars \<Rightarrow> spawn_result \<Rightarrow> nat \<Rightarrow> chars option \<Rightarrow> children_wm \<Rightarrow> (chars + unit) \<times> children_wm" where
  "spawn_remote_screenshot mkdir auto_path res cid path w =
    (case mkdir of
       Inl e \<Rightarrow> (Inl e, w)
     | Inr _ \<Rightarrow>
         (case started res of
            Inl e \<Rightarrow> (Inl e, w)
          | Inr q \<Rightarrow>
              (let r = next_screenshot_id w;
                   p = \<lparr> shot_client = cid, shot_pid = q, shot_status = None, shot_stdout = [], shot_stderr = [],
                         shot_stdout_open = True, shot_stderr_open = True, shot_stdout_token = None,
                         shot_stderr_token = None, dest = (case path of Some d \<Rightarrow> d | None \<Rightarrow> auto_path) \<rparr>;
                   w1 = w\<lparr> tracked := track q (tracked w), next_screenshot_id := r + 1,
                           pending_screenshots := AList.update r p (pending_screenshots w) \<rparr>
               in case stdout_source res of
                    Inl e \<Rightarrow> (Inl e, w1)
                  | Inr t1 \<Rightarrow>
                      (case stderr_source res of
                         Inl e \<Rightarrow> (Inl e, w1)
                       | Inr t2 \<Rightarrow> (Inr (), modify_screenshot r
                           (\<lambda>p. p\<lparr> shot_stdout_token := Some t1, shot_stderr_token := Some t2 \<rparr>) w1)))))"

text \<open>\<open>bad_region\<close>: a region was given and no output.\<close>

definition screenshot_request ::
  "chars + unit \<Rightarrow> chars \<Rightarrow> spawn_result \<Rightarrow> nat \<Rightarrow> bool \<Rightarrow> chars option \<Rightarrow> children_wm \<Rightarrow> bool \<times> children_wm" where
  "screenshot_request mkdir auto_path res cid bad_region path w =
    (if \<not> automation_enabled w then (True, send [Replied cid Automation_off] w)
     else if bad_region
     then (True, send [Replied cid (Error_is
            (literal ''screenshot: region requires output (coordinates are output-relative)''))] w)
     else (case spawn_remote_screenshot mkdir auto_path res cid path w of
         (Inr _, w1) \<Rightarrow> (False, w1)
       | (Inl e, w1) \<Rightarrow> (True, send [Replied cid (Error_is (literal ''screenshot spawn failed: '' @ e))] w1)))"

section \<open>Reaped children find who waits for them\<close>

definition note_child_reaped ::
  "(bytes \<Rightarrow> chars) \<Rightarrow> (int \<Rightarrow> chars) \<Rightarrow> nat option \<Rightarrow> children_wm \<Rightarrow> int \<times> exit_status \<Rightarrow> children_wm" where
  "note_child_reaped lossy show_int grace w = (\<lambda>(q, st).
     case note_screenshot_reaped lossy show_int q st w of
       (True, w1) \<Rightarrow> w1
     | (False, w1) \<Rightarrow>
         (case note_command_reaped lossy grace q st w1 of
            (True, w2) \<Rightarrow> w2
          | (False, w2) \<Rightarrow> send [Lock_child q st] w2))"

text \<open>The event source of the self-pipe.\<close>

definition on_sigchld ::
  "(bytes \<Rightarrow> chars) \<Rightarrow> (int \<Rightarrow> chars) \<Rightarrow> nat option \<Rightarrow> (int \<Rightarrow> wait_result) \<Rightarrow> children_wm \<Rightarrow> children_wm" where
  "on_sigchld lossy show_int grace try_wait w = (case sweep try_wait (tracked w) of
     (reaped, rest) \<Rightarrow> foldl (note_child_reaped lossy show_int grace) (w\<lparr> tracked := rest \<rparr>) reaped)"

section \<open>Everything that happens\<close>

text \<open>A request answered at once has its connection dropped by the caller.\<close>

definition finish_request :: "nat \<Rightarrow> bool \<times> children_wm \<Rightarrow> children_wm" where
  "finish_request cid = (\<lambda>(inline, w). if inline then send [Dropped cid] w else w)"

datatype child_event =
  Run_command spawn_result nat "chars list" "u32 option" bool
| Take_screenshot "chars + unit" chars spawn_result nat bool "chars option"
| Start_helper int
| Command_pipe u64 pipe_kind "pipe_read list"
| Screenshot_pipe u64 pipe_kind "pipe_read list"
| Child_signal "nat option" "int \<Rightarrow> wait_result"
| Time_limit u64
| Grace_over u64
| Automation bool

text \<open>A timer that is not on the event loop does not fire.\<close>

definition armed :: "(pending_command \<Rightarrow> nat option) \<Rightarrow> u64 \<Rightarrow> children_wm \<Rightarrow> bool" where
  "armed token r w = (case map_of (pending_commands w) r of None \<Rightarrow> False | Some p \<Rightarrow> token p \<noteq> None)"

fun child_step :: "(bytes \<Rightarrow> chars) \<Rightarrow> (int \<Rightarrow> chars) \<Rightarrow> children_wm \<Rightarrow> child_event \<Rightarrow> children_wm" where
  "child_step lossy sh w (Run_command res cid argv timeout_ms detach) =
     finish_request cid (run_command_request res cid argv timeout_ms detach w)"
| "child_step lossy sh w (Take_screenshot mkdir auto_path res cid bad_region path) =
     finish_request cid (screenshot_request mkdir auto_path res cid bad_region path w)"
| "child_step lossy sh w (Start_helper q) = w\<lparr> tracked := track q (tracked w) \<rparr>"
| "child_step lossy sh w (Command_pipe r k rs) = foldl (\<lambda>w ev. on_command_pipe lossy r k ev w) w (pipe_wakeup 0 rs)"
| "child_step lossy sh w (Screenshot_pipe r k rs) = foldl (\<lambda>w ev. on_shot_pipe lossy sh r k ev w) w (pipe_wakeup 0 rs)"
| "child_step lossy sh w (Child_signal grace try_wait) = on_sigchld lossy sh grace try_wait w"
| "child_step lossy sh w (Time_limit r) = (if armed timer_token r w then on_command_timeout r w else w)"
| "child_step lossy sh w (Grace_over r) = (if armed grace_token r w then on_output_grace_over lossy r w else w)"
| "child_step lossy sh w (Automation b) = w\<lparr> automation_enabled := b \<rparr>"

section \<open>Lists of what is pending\<close>

definition waiting_of :: "('v \<Rightarrow> nat) \<Rightarrow> nat \<Rightarrow> ('k \<times> 'v) list \<Rightarrow> nat" where
  "waiting_of client cid xs = length (filter (\<lambda>(k, v). client v = cid) xs)"

lemma update_new: "map_of xs k = None \<Longrightarrow> AList.update k v xs = xs @ [(k, v)]"
  by (induction xs) auto

lemma waiting_new [simp]:
  "map_of xs k = None \<Longrightarrow> waiting_of client cid (AList.update k v xs) =
    waiting_of client cid xs + (if client v = cid then 1 else 0)"
  by (simp add: update_new waiting_of_def)

lemma waiting_change:
  "map_of xs k = Some v \<Longrightarrow> client v' = client v \<Longrightarrow>
    waiting_of client cid (AList.update k v' xs) = waiting_of client cid xs"
  by (induction xs) (auto simp: waiting_of_def)

lemma waiting_modify [simp]:
  assumes "\<And>v. client (f v) = client v"
  shows "waiting_of client cid (modify k f xs) = waiting_of client cid xs"
  by (simp add: modify_def waiting_change assms split: option.split)

lemma keys_modify [simp]: "map fst (modify k f xs) = map fst xs"
proof -
  have "map_of xs k = Some v \<Longrightarrow> map fst (AList.update k v' xs) = map fst xs" for v v'
    by (induction xs) (auto simp: update_new split: if_splits)
  then show ?thesis by (simp add: modify_def split: option.split)
qed

lemma fst_modify [simp]: "fst ` set (modify k f xs) = fst ` set xs"
  by (metis keys_modify set_map)

lemma image_modify:
  assumes "\<And>v. g (k, f v) = g (k, v)"
  shows "g ` set (modify k f xs) \<subseteq> g ` set xs"
proof (cases "map_of xs k")
  case (Some v)
  have "set (AList.update k v' ys) \<subseteq> insert (k, v') (set ys)" for v' ys
    by (induction ys) auto
  then have "g ` set (AList.update k (f v) xs) \<subseteq> g ` insert (k, f v) (set xs)" by (rule image_mono)
  moreover have "g (k, f v) \<in> g ` set xs" using map_of_SomeD [OF Some] assms [of v] by force
  ultimately show ?thesis using Some by (simp add: modify_def insert_absorb)
qed (simp add: modify_def)

lemma map_of_modify: "map_of (modify k f xs) j = (if j = k then map_option f (map_of xs k) else map_of xs j)"
  by (auto simp: modify_def update_conv' split: option.split)

lemma delete_fresh: "k \<notin> fst ` set xs \<Longrightarrow> AList.delete k xs = xs"
  by (induction xs) auto

lemma waiting_delete:
  assumes "distinct (map fst xs)" "map_of xs k = Some v"
  shows "waiting_of client cid xs = waiting_of client cid (AList.delete k xs) + (if client v = cid then 1 else 0)"
  using assms by (induction xs) (auto simp: waiting_of_def delete_fresh split: if_splits)

lemma fst_delete: "fst ` set (AList.delete k xs) \<subseteq> fst ` set xs"
  by (auto simp: AList.delete_eq)

lemma image_delete: "g ` set (AList.delete k xs) \<subseteq> g ` set xs"
  by (auto simp: AList.delete_eq)

section \<open>One reply for each request\<close>

fun reply_to :: "nat \<Rightarrow> sending \<Rightarrow> bool" where
  "reply_to cid (Replied c resp) = (c = cid)"
| "reply_to cid x = False"

definition replies :: "nat \<Rightarrow> children_wm \<Rightarrow> nat" where
  "replies cid w = length (filter (reply_to cid) (sent w))"

text \<open>What a client is owed: its replies and what it waits for.\<close>

definition account :: "nat \<Rightarrow> children_wm \<Rightarrow> nat" where
  "account cid w = replies cid w + waiting_of client_id cid (pending_commands w) +
     waiting_of shot_client cid (pending_screenshots w)"

definition keys_ok :: "children_wm \<Rightarrow> bool" where
  "keys_ok w \<longleftrightarrow> distinct (map fst (pending_commands w)) \<and> distinct (map fst (pending_screenshots w))"

text \<open>The identifiers that are waited for, each with the child's pid.\<close>

definition who :: "children_wm \<Rightarrow> (u64 \<times> int) set" where
  "who w = (\<lambda>(r, p). (r, pid p)) ` set (pending_commands w)"

definition shot_who :: "children_wm \<Rightarrow> (u64 \<times> int) set" where
  "shot_who w = (\<lambda>(r, p). (r, shot_pid p)) ` set (pending_screenshots w)"

lemma fst_who: "fst ` set (pending_commands w) = fst ` who w" "fst ` set (pending_screenshots w) = fst ` shot_who w"
  by (force simp: who_def shot_who_def)+

text \<open>Nothing new is waited for, and everything given up is replied to.\<close>

definition settles :: "children_wm \<Rightarrow> children_wm \<Rightarrow> bool" where
  "settles w w' \<longleftrightarrow> set (sent w) \<subseteq> set (sent w') \<and> who w' \<subseteq> who w \<and> shot_who w' \<subseteq> shot_who w \<and>
     next_command_id w' = next_command_id w \<and> next_screenshot_id w' = next_screenshot_id w \<and>
     (keys_ok w \<longrightarrow> keys_ok w' \<and> (\<forall>cid. account cid w' = account cid w))"

lemma who_simps [simp]:
  "who (w\<lparr> tracked := x \<rparr>) = who w" "shot_who (w\<lparr> tracked := x \<rparr>) = shot_who w"
  "who (w\<lparr> sent := y \<rparr>) = who w" "shot_who (w\<lparr> sent := y \<rparr>) = shot_who w"
  "who (w\<lparr> automation_enabled := b \<rparr>) = who w" "shot_who (w\<lparr> automation_enabled := b \<rparr>) = shot_who w"
  by (simp_all add: who_def shot_who_def)

lemma settles_refl [simp]: "settles w w"
  by (simp add: settles_def)

lemma settles_trans: "settles w1 w2 \<Longrightarrow> settles w2 w3 \<Longrightarrow> settles w1 w3"
  unfolding settles_def by (metis (no_types, lifting) subset_trans)

lemma settles_foldl: "(\<And>x w. settles w (f w x)) \<Longrightarrow> settles w (foldl f w xs)"
  by (induction xs arbitrary: w) (auto intro: settles_trans)

lemma send_account [simp]: "account cid (send xs w) = account cid w + length (filter (reply_to cid) xs)"
  by (simp add: account_def replies_def send_def)

lemma send_simps [simp]:
  "pending_commands (send xs w) = pending_commands w" "pending_screenshots (send xs w) = pending_screenshots w"
  "next_command_id (send xs w) = next_command_id w" "next_screenshot_id (send xs w) = next_screenshot_id w"
  "tracked (send xs w) = tracked w" "automation_enabled (send xs w) = automation_enabled w"
  "keys_ok (send xs w) = keys_ok w" "sent (send xs w) = sent w @ xs" "who (send xs w) = who w" "shot_who (send xs w) = shot_who w"
  by (simp_all add: send_def keys_ok_def)

lemma settles_send: "filter (\<lambda>x. \<exists>c. reply_to c x) xs = [] \<Longrightarrow> settles w (send xs w)"
proof -
  assume "filter (\<lambda>x. \<exists>c. reply_to c x) xs = []"
  then have "filter (reply_to cid) xs = []" for cid by (auto simp: filter_empty_conv)
  then show ?thesis by (simp add: settles_def)
qed

lemma settles_modify_command:
  "(\<And>p. client_id (f p) = client_id p \<and> pid (f p) = pid p) \<Longrightarrow> settles w (modify_command r f w)"
  using image_modify [of "\<lambda>(r, p). (r, pid p)" r f "pending_commands w"]
  by (simp add: settles_def modify_command_def keys_ok_def account_def replies_def who_def shot_who_def)

lemma settles_modify_screenshot:
  "(\<And>p. shot_client (f p) = shot_client p \<and> shot_pid (f p) = shot_pid p) \<Longrightarrow> settles w (modify_screenshot r f w)"
  using image_modify [of "\<lambda>(r, p). (r, shot_pid p)" r f "pending_screenshots w"]
  by (simp add: settles_def modify_screenshot_def keys_ok_def account_def replies_def who_def shot_who_def)

lemma settles_finalize: "settles w (finalize_remote_command lossy r w)"
proof (cases "map_of (pending_commands w) r")
  case (Some p)
  show ?thesis
    using waiting_delete [OF _ Some, of client_id] image_delete [of "\<lambda>(r, p). (r, pid p)" r "pending_commands w"]
    by (auto simp: settles_def finalize_remote_command_def Some Let_def keys_ok_def account_def replies_def send_def
        distinct_delete who_def shot_who_def)
qed (simp add: finalize_remote_command_def)

lemma settles_finalize_shot: "settles w (maybe_finalize_remote_screenshot lossy sh r w)"
proof (cases "map_of (pending_screenshots w) r")
  case (Some p)
  show ?thesis
    using waiting_delete [OF _ Some, of shot_client] image_delete [of "\<lambda>(r, p). (r, shot_pid p)" r "pending_screenshots w"]
    by (auto simp: settles_def maybe_finalize_remote_screenshot_def Some Let_def keys_ok_def account_def replies_def
        send_def distinct_delete who_def shot_who_def split: option.split)
qed (simp add: maybe_finalize_remote_screenshot_def)

lemma settles_maybe_finalize: "settles w (maybe_finalize_remote_command lossy r w)"
  by (simp add: maybe_finalize_remote_command_def settles_finalize split: option.split)

lemma settles_command_pipe: "settles w (on_command_pipe lossy r k ev w)"
proof (cases ev)
  case (Pipe_data bs)
  then show ?thesis
    by (auto simp: on_command_output_def append_output_def Let_def intro!: settles_modify_command split: pipe_kind.split)
next
  case Pipe_closed
  then show ?thesis
    by (auto simp: on_command_pipe_closed_def close_pipe_def
        intro!: settles_trans [OF settles_modify_command settles_maybe_finalize] split: pipe_kind.split)
qed

lemma settles_shot_pipe: "settles w (on_shot_pipe lossy sh r k ev w)"
proof (cases ev)
  case (Pipe_data bs)
  then show ?thesis
    by (auto simp: append_shot_def intro!: settles_modify_screenshot split: pipe_kind.split)
next
  case Pipe_closed
  then show ?thesis
    by (auto simp: on_pipe_closed_def close_shot_pipe_def
        intro!: settles_trans [OF settles_modify_screenshot settles_finalize_shot] split: pipe_kind.split)
qed

lemma settles_arm: "settles w (arm_output_grace source r w)"
  by (auto simp: arm_output_grace_def intro!: settles_modify_command split: option.split)

lemma settles_command_reaped: "settles w (snd (note_command_reaped lossy source q st w))"
  by (auto simp: note_command_reaped_def Let_def split: option.split
      intro!: settles_trans [OF settles_trans [OF settles_modify_command settles_maybe_finalize] settles_arm]
        settles_trans [OF settles_modify_command settles_maybe_finalize])

lemma settles_shot_reaped: "settles w (snd (note_screenshot_reaped lossy sh q st w))"
  by (auto simp: note_screenshot_reaped_def split: option.split
      intro!: settles_trans [OF settles_modify_screenshot settles_finalize_shot])

lemma settles_child_reaped: "settles w (note_child_reaped lossy sh grace w x)"
proof -
  obtain q st where x: "x = (q, st)" by (cases x)
  obtain b1 w1 where 1: "note_screenshot_reaped lossy sh q st w = (b1, w1)" by fastforce
  obtain b2 w2 where 2: "note_command_reaped lossy grace q st w1 = (b2, w2)" by fastforce
  from settles_shot_reaped [of w lossy sh q st] settles_command_reaped [of w1 lossy grace q st] 1 2
  have "settles w w1" "settles w1 w2" by simp_all
  moreover have "settles w2 (send [Lock_child q st] w2)" by (rule settles_send) simp
  ultimately show ?thesis by (auto simp: note_child_reaped_def x 1 2 intro: settles_trans split: bool.split)
qed

lemma settles_sigchld: "settles w (on_sigchld lossy sh grace try_wait w)"
proof -
  have "settles w (w\<lparr> tracked := x \<rparr>)" for x by (simp add: settles_def keys_ok_def account_def replies_def)
  then show ?thesis
    by (auto simp: on_sigchld_def intro!: settles_trans [OF _ settles_foldl] settles_child_reaped split: prod.split)
qed

lemma settles_timeout: "settles w (on_command_timeout r w)"
  by (auto simp: on_command_timeout_def split: option.split
      intro!: settles_trans [OF settles_modify_command settles_send])

lemma settles_grace: "settles w (on_output_grace_over lossy r w)"
  by (auto simp: on_output_grace_over_def split: option.split
      intro!: settles_trans [OF settles_trans [OF settles_modify_command settles_send] settles_finalize])

text \<open>Requests, and whether the pipes and the timer of what they start could be watched.\<close>

fun asks :: "nat \<Rightarrow> child_event \<Rightarrow> bool" where
  "asks cid (Run_command res c argv timeout_ms detach) = (c = cid)"
| "asks cid (Take_screenshot mkdir auto_path res c bad_region path) = (c = cid)"
| "asks cid e = False"

definition watched :: "spawn_result \<Rightarrow> bool" where
  "watched res \<longleftrightarrow> is_ok (stdout_source res) \<and> is_ok (stderr_source res) \<and> is_ok (timer_source res)"

fun registers :: "child_event \<Rightarrow> bool" where
  "registers (Run_command res c argv timeout_ms detach) = watched res"
| "registers (Take_screenshot mkdir auto_path res c bad_region path) = watched res"
| "registers e = True"

definition in_use :: "nat \<Rightarrow> children_wm \<Rightarrow> bool" where
  "in_use n w \<longleftrightarrow> keys_ok w \<and> ids_free n (next_command_id w) (fst ` set (pending_commands w)) \<and>
     ids_free n (next_screenshot_id w) (fst ` set (pending_screenshots w))"

lemma settles_in_use: "settles w w' \<Longrightarrow> in_use n w \<Longrightarrow> in_use n w' \<and> account cid w' = account cid w"
  unfolding settles_def in_use_def fst_who by (auto elim!: ids_free_subset)

lemma in_use_less: "in_use (Suc n) w \<Longrightarrow> in_use n w"
  by (simp add: in_use_def ids_free_less)

lemma no_key: "k \<notin> fst ` set xs \<Longrightarrow> map_of xs k = None"
  by (simp add: map_of_eq_None_iff)

lemma spawn_command_account:
  assumes ok: "in_use (Suc n) w" and res: "watched res" and w': "spawn_remote_command res cid argv timeout_ms w = (r, w')"
  shows "in_use n w'" "account c w' = account c w + (if is_ok r \<and> c = cid then 1 else 0)"
proof -
  let ?i = "next_command_id w"
  have new: "?i \<notin> fst ` set (pending_commands w)" using ok ids_free_unused by (auto simp: in_use_def)
  note none = no_key [OF new]
  obtain t1 t2 t3 where t: "stdout_source res = Inr t1" "stderr_source res = Inr t2" "timer_source res = Inr t3"
    using res by (auto simp: watched_def is_ok_def split: sum.splits)
  define start where "start q = w\<lparr> tracked := track q (tracked w), next_command_id := ?i + 1,
      pending_commands := AList.update ?i \<lparr> client_id = cid, pid = q, exit_status = None, stdout_buf = [], stderr_buf = [],
        stdout_open = True, stderr_open = True, truncated = False, stdout_token = None, stderr_token = None,
        timer_token = None, grace_token = None \<rparr> (pending_commands w) \<rparr>" for q
  have acc: "account c (start q) = account c w + (if c = cid then 1 else 0)" for q
    by (simp add: start_def account_def replies_def none)
  have use: "in_use n (start q)" for q
    using ok ids_free_next [of n ?i "fst ` set (pending_commands w)" "fst ` set (pending_commands (start q))"] new
    by (auto simp: in_use_def start_def keys_ok_def update_new none ids_free_less)
  have "\<exists>q. (started res = Inr q \<and> argv \<noteq> [] \<and> is_ok r \<and> settles (start q) w') \<or> (w' = w \<and> \<not> is_ok r)"
    using w' t
    by (auto simp: spawn_remote_command_def Let_def start_def [symmetric] split: if_splits sum.splits option.splits
        intro!: settles_modify_command settles_trans [OF settles_modify_command settles_modify_command])
  then show "in_use n w'" "account c w' = account c w + (if is_ok r \<and> c = cid then 1 else 0)"
    using settles_in_use [OF _ use, of _ w' c] acc in_use_less [OF ok] by auto
qed

lemma spawn_screenshot_account:
  assumes ok: "in_use (Suc n) w" and res: "watched res" and w': "spawn_remote_screenshot mkdir auto_path res cid path w = (r, w')"
  shows "in_use n w'" "account c w' = account c w + (if is_ok r \<and> c = cid then 1 else 0)"
proof -
  let ?i = "next_screenshot_id w"
  have new: "?i \<notin> fst ` set (pending_screenshots w)" using ok ids_free_unused by (auto simp: in_use_def)
  note none = no_key [OF new]
  obtain t1 t2 where t: "stdout_source res = Inr t1" "stderr_source res = Inr t2"
    using res by (auto simp: watched_def is_ok_def split: sum.splits)
  define start where "start q = w\<lparr> tracked := track q (tracked w), next_screenshot_id := ?i + 1,
      pending_screenshots := AList.update ?i \<lparr> shot_client = cid, shot_pid = q, shot_status = None, shot_stdout = [],
        shot_stderr = [], shot_stdout_open = True, shot_stderr_open = True, shot_stdout_token = None,
        shot_stderr_token = None, dest = (case path of Some d \<Rightarrow> d | None \<Rightarrow> auto_path) \<rparr> (pending_screenshots w) \<rparr>" for q
  have acc: "account c (start q) = account c w + (if c = cid then 1 else 0)" for q
    by (simp add: start_def account_def replies_def none)
  have use: "in_use n (start q)" for q
    using ok ids_free_next [of n ?i "fst ` set (pending_screenshots w)" "fst ` set (pending_screenshots (start q))"] new
    by (auto simp: in_use_def start_def keys_ok_def update_new none ids_free_less)
  have "\<exists>q. (started res = Inr q \<and> is_ok r \<and> settles (start q) w') \<or> (w' = w \<and> \<not> is_ok r)"
    using w' t
    by (auto simp: spawn_remote_screenshot_def Let_def start_def [symmetric] split: sum.splits
        intro!: settles_modify_screenshot)
  then show "in_use n w'" "account c w' = account c w + (if is_ok r \<and> c = cid then 1 else 0)"
    using settles_in_use [OF _ use, of _ w' c] acc in_use_less [OF ok] by auto
qed

lemma in_use_send [simp]: "in_use n (send xs w) = in_use n w"
  by (simp add: in_use_def)

lemma in_use_tracked [simp]:
  "in_use n (w\<lparr> tracked := x \<rparr>) = in_use n w" "account cid (w\<lparr> tracked := x \<rparr>) = account cid w"
  "in_use n (w\<lparr> automation_enabled := b \<rparr>) = in_use n w" "account cid (w\<lparr> automation_enabled := b \<rparr>) = account cid w"
  by (simp_all add: in_use_def keys_ok_def account_def replies_def)

lemma run_command_account:
  assumes "in_use (Suc n) w" "watched res"
  shows "in_use n (finish_request cid (run_command_request res cid argv timeout_ms detach w)) \<and>
    account c (finish_request cid (run_command_request res cid argv timeout_ms detach w)) =
      account c w + (if cid = c then 1 else 0)"
proof (cases "automation_enabled w \<and> argv \<noteq> [] \<and> \<not> detach")
  case True
  obtain r w' where "spawn_remote_command res cid argv timeout_ms w = (r, w')" by fastforce
  with True spawn_command_account [OF assms this] show ?thesis
    by (auto simp: run_command_request_def finish_request_def split: sum.split)
qed (use in_use_less [OF assms(1)] in
    \<open>auto simp: run_command_request_def finish_request_def spawn_detached_command_def split: sum.split\<close>)

lemma screenshot_account:
  assumes "in_use (Suc n) w" "watched res"
  shows "in_use n (finish_request cid (screenshot_request mkdir auto_path res cid bad path w)) \<and>
    account c (finish_request cid (screenshot_request mkdir auto_path res cid bad path w)) =
      account c w + (if cid = c then 1 else 0)"
proof (cases "automation_enabled w \<and> \<not> bad")
  case True
  obtain r w' where "spawn_remote_screenshot mkdir auto_path res cid path w = (r, w')" by fastforce
  with True spawn_screenshot_account [OF assms this] show ?thesis
    by (auto simp: screenshot_request_def finish_request_def split: sum.split)
qed (use in_use_less [OF assms(1)] in \<open>auto simp: screenshot_request_def finish_request_def\<close>)

lemma child_step_account:
  assumes ok: "in_use (Suc n) w" and "registers e"
  shows "in_use n (child_step lossy sh w e) \<and>
    account c (child_step lossy sh w e) = account c w + (if asks c e then 1 else 0)"
proof (cases "\<exists>c. asks c e")
  case True
  with assms run_command_account [OF ok] screenshot_account [OF ok] show ?thesis by (cases e) auto
next
  case False
  moreover have "settles w (child_step lossy sh w e)"
    using False
    by (cases e) (auto intro!: settles_foldl settles_command_pipe settles_shot_pipe settles_sigchld settles_timeout settles_grace
        simp: settles_def [of _ "_\<lparr> tracked := _ \<rparr>"] settles_def [of _ "_\<lparr> automation_enabled := _ \<rparr>"] keys_ok_def)
  ultimately show ?thesis using settles_in_use in_use_less [OF ok] by auto
qed

text \<open>C34. Every command and screenshot that is asked for gets exactly one reply, sent or still to come,
  whatever exits, closes or times out in whatever order, as long as what was started could be watched.\<close>

theorem each_child_request_is_answered_once:
  assumes fresh: "pending_commands w = []" "pending_screenshots w = []" "sent w = []" and few: "length es \<le> 2 ^ 64"
    and watched: "list_all registers es" and w': "w' = foldl (child_step lossy sh) w es"
  shows "replies cid w' + waiting_of client_id cid (pending_commands w') +
      waiting_of shot_client cid (pending_screenshots w') = length (filter (asks cid) es)"
proof -
  have "in_use (length es) w \<Longrightarrow> list_all registers es \<Longrightarrow>
      account cid (foldl (child_step lossy sh) w es) = account cid w + length (filter (asks cid) es)" for w
  proof (induction es arbitrary: w)
    case (Cons e es)
    with child_step_account [of "length es" w e lossy sh cid] show ?case by simp
  qed simp
  moreover have "in_use (length es) w" using fresh few by (simp add: in_use_def keys_ok_def ids_free_empty)
  moreover have "account cid w = 0" using fresh by (simp add: account_def replies_def waiting_of_def)
  ultimately show ?thesis using watched w' by (simp add: account_def)
qed

section \<open>A command's output\<close>

text \<open>The bytes an event reads from a command's pipe.\<close>

fun data_of :: "pipe_event \<Rightarrow> bytes" where
  "data_of (Pipe_data bs) = bs"
| "data_of Pipe_closed = []"

fun read_from :: "u64 \<Rightarrow> pipe_kind \<Rightarrow> child_event \<Rightarrow> bytes" where
  "read_from r k (Command_pipe r' k' rs) = (if r' = r \<and> k' = k then concat (map data_of (pipe_wakeup 0 rs)) else [])"
| "read_from r k e = []"

definition output_of :: "u64 \<Rightarrow> pipe_kind \<Rightarrow> child_event list \<Rightarrow> bytes" where
  "output_of r k es = concat (map (read_from r k) es)"

text \<open>The statuses the system gave for a pid.\<close>

definition statuses :: "int \<Rightarrow> child_event list \<Rightarrow> exit_status set" where
  "statuses q es = {st. \<exists>grace try_wait. Child_signal grace try_wait \<in> set es \<and> try_wait q = Has_exited st}"

definition capped :: "bytes \<Rightarrow> bytes" where
  "capped bs = take RUN_COMMAND_OUTPUT_CAP bs"

definition result_of :: "(bytes \<Rightarrow> chars) \<Rightarrow> exit_status \<Rightarrow> bytes \<Rightarrow> bytes \<Rightarrow> child_response" where
  "result_of lossy st out err = Command_result (case exit_code st of Some c \<Rightarrow> c | None \<Rightarrow> - 1)
     (lossy (capped out)) (lossy (capped err))
     (RUN_COMMAND_OUTPUT_CAP < length out \<or> RUN_COMMAND_OUTPUT_CAP < length err)"

text \<open>A pending command that has kept \<open>out\<close> and \<open>err\<close>, and its reply.\<close>

definition keeps :: "nat \<Rightarrow> int \<Rightarrow> exit_status set \<Rightarrow> bytes \<Rightarrow> bytes \<Rightarrow> pending_command \<Rightarrow> bool" where
  "keeps cid q S out err p \<longleftrightarrow> client_id p = cid \<and> pid p = q \<and>
     stdout_buf p = capped out \<and> stderr_buf p = capped err \<and>
     truncated p = (RUN_COMMAND_OUTPUT_CAP < length out \<or> RUN_COMMAND_OUTPUT_CAP < length err) \<and>
     (\<forall>st. exit_status p = Some st \<longrightarrow> st \<in> S) \<and> (grace_token p \<noteq> None \<longrightarrow> exit_status p \<noteq> None)"

definition follows :: "u64 \<Rightarrow> nat \<Rightarrow> int \<Rightarrow> exit_status set \<Rightarrow> bytes \<Rightarrow> bytes \<Rightarrow> children_wm \<Rightarrow> bool" where
  "follows r cid q S out err w \<longleftrightarrow> (\<exists>p. map_of (pending_commands w) r = Some p \<and> keeps cid q S out err p)"

definition answered :: "(bytes \<Rightarrow> chars) \<Rightarrow> nat \<Rightarrow> exit_status set \<Rightarrow> bytes \<Rightarrow> bytes \<Rightarrow> children_wm \<Rightarrow> bool" where
  "answered lossy cid S out err w \<longleftrightarrow> (\<exists>st \<in> S. Replied cid (result_of lossy st out err) \<in> set (sent w))"

lemma map_command [simp]:
  "map_of (pending_commands (modify_command r' f w)) r =
    (if r = r' then map_option f (map_of (pending_commands w) r') else map_of (pending_commands w) r)"
  by (simp add: modify_command_def map_of_modify)

lemma map_finalize: "map_of (pending_commands (finalize_remote_command lossy r' w)) r =
    (if r = r' then None else map_of (pending_commands w) r)"
  by (auto simp: finalize_remote_command_def Let_def delete_conv' split: option.split)

lemma map_maybe: "map_of (pending_commands (maybe_finalize_remote_command lossy r' w)) r =
    (if r = r' then (case map_of (pending_commands w) r' of None \<Rightarrow> None | Some p \<Rightarrow> if command_ready p then None else Some p)
     else map_of (pending_commands w) r)"
  by (auto simp: maybe_finalize_remote_command_def map_finalize split: option.split)

lemma finalize_answers:
  assumes "map_of (pending_commands w) r = Some p" "keeps cid q S out err p" "exit_status p \<noteq> None"
  shows "answered lossy cid S out err (finalize_remote_command lossy r w)"
proof -
  obtain st where "exit_status p = Some st" "st \<in> S" using assms by (auto simp: keeps_def)
  with assms show ?thesis
    unfolding answered_def by (intro bexI [of _ st]) (auto simp: finalize_remote_command_def Let_def keeps_def result_of_def)
qed

lemma maybe_follows:
  assumes "map_of (pending_commands w) r = Some p" "keeps cid q S out err p"
  shows "follows r cid q S out err (maybe_finalize_remote_command lossy r w) \<or>
    answered lossy cid S out err (maybe_finalize_remote_command lossy r w)"
proof (cases "command_ready p")
  case True
  then have "answered lossy cid S out err (finalize_remote_command lossy r w)"
    by (intro finalize_answers [OF assms]) (simp add: command_ready_def)
  with True assms(1) show ?thesis by (simp add: maybe_finalize_remote_command_def)
next
  case False
  with assms show ?thesis by (auto simp: follows_def map_maybe)
qed

lemma append_keeps:
  assumes "keeps cid q S out err p"
  shows "keeps cid q S (out @ (if k = Stdout then bs else [])) (err @ (if k = Stderr then bs else [])) (append_output k bs p)"
  using assms by (cases k) (auto simp: keeps_def append_output_def capped_def Let_def min_def)

lemma wakeup_shape: "\<exists>ds cl. pipe_wakeup n rs = map Pipe_data ds @ (if cl then [Pipe_closed] else [])"
proof (induction n rs rule: pipe_wakeup.induct)
  case (2 n r rs)
  show ?case
  proof (cases "n < READ_BUDGET")
    case True
    show ?thesis
    proof (cases r)
      case (Chunk bs)
      then obtain ds cl where "pipe_wakeup (n + length bs) rs = map Pipe_data ds @ (if cl then [Pipe_closed] else [])"
        using 2(1) [OF True Chunk] by blast
      then have "pipe_wakeup n (r # rs) = map Pipe_data (bs # ds) @ (if cl then [Pipe_closed] else [])"
        using True Chunk by simp
      then show ?thesis by blast
    next
      case Interrupted
      with 2(2) [OF True Interrupted] True show ?thesis by simp
    qed (use True in \<open>auto intro: exI [of _ "[]"] exI [of _ False] exI [of _ True]\<close>)
  qed (auto intro: exI [of _ "[]"] exI [of _ False])
qed (auto intro: exI [of _ "[]"] exI [of _ False])

lemma data_follows:
  assumes "follows r cid q S out err w"
  shows "follows r cid q S (out @ (if k = Stdout then concat ds else [])) (err @ (if k = Stderr then concat ds else []))
    (foldl (\<lambda>w ev. on_command_pipe lossy r k ev w) w (map Pipe_data ds))"
  using assms
proof (induction ds arbitrary: w out err)
  case (Cons d ds)
  obtain p where p: "map_of (pending_commands w) r = Some p" "keeps cid q S out err p"
    using Cons.prems by (auto simp: follows_def)
  have "follows r cid q S (out @ (if k = Stdout then d else [])) (err @ (if k = Stderr then d else []))
      (on_command_output r k d w)"
    using p(1) append_keeps [OF p(2), of k d] by (simp add: follows_def on_command_output_def)
  from Cons.IH [OF this] show ?case by (cases k) simp_all
qed simp

lemma pipe_follows:
  assumes "follows r cid q S out err w"
  shows "let out' = out @ read_from r Stdout (Command_pipe r k rs); err' = err @ read_from r Stderr (Command_pipe r k rs);
      w' = child_step lossy sh w (Command_pipe r k rs)
    in follows r cid q S out' err' w' \<or> answered lossy cid S out' err' w'"
proof -
  obtain ds cl where ev: "pipe_wakeup 0 rs = map Pipe_data ds @ (if cl then [Pipe_closed] else [])"
    using wakeup_shape by blast
  have bytes: "concat (map data_of (pipe_wakeup 0 rs)) = concat ds" by (simp add: ev comp_def)
  let ?w = "foldl (\<lambda>w ev. on_command_pipe lossy r k ev w) w (map Pipe_data ds)"
  from data_follows [OF assms, of k ds lossy]
  have f: "follows r cid q S (out @ read_from r Stdout (Command_pipe r k rs)) (err @ read_from r Stderr (Command_pipe r k rs)) ?w"
    by (cases k) (simp_all add: bytes)
  then obtain p where p: "map_of (pending_commands ?w) r = Some p"
    "keeps cid q S (out @ read_from r Stdout (Command_pipe r k rs)) (err @ read_from r Stderr (Command_pipe r k rs)) p"
    by (auto simp: follows_def)
  let ?v = "modify_command r (close_pipe k) ?w"
  have "map_of (pending_commands ?v) r = Some (close_pipe k p)" using p(1) by simp
  moreover have "keeps cid q S (out @ read_from r Stdout (Command_pipe r k rs)) (err @ read_from r Stderr (Command_pipe r k rs)) (close_pipe k p)"
    using p(2) by (cases k) (auto simp: keeps_def close_pipe_def)
  ultimately show ?thesis
    using f p(1) maybe_follows [of ?v r "close_pipe k p"] by (cases cl) (simp_all add: ev on_command_pipe_closed_def Let_def)
qed

lemma answered_mono: "answered lossy cid S out err w \<Longrightarrow> set (sent w) \<subseteq> set (sent w') \<Longrightarrow> S \<subseteq> S' \<Longrightarrow> answered lossy cid S' out err w'"
  by (auto simp: answered_def)

lemma follows_more: "follows r cid q S out err w \<Longrightarrow> S \<subseteq> S' \<Longrightarrow> follows r cid q S' out err w"
  by (fastforce simp: follows_def keeps_def)

lemma shots_keep_commands [simp]:
  "pending_commands (modify_screenshot r f w) = pending_commands w"
  "pending_commands (maybe_finalize_remote_screenshot lossy sh r w) = pending_commands w"
  "pending_commands (snd (note_screenshot_reaped lossy sh q st w)) = pending_commands w"
  "pending_commands (on_shot_pipe lossy sh r k ev w) = pending_commands w"
proof -
  show 1: "pending_commands (modify_screenshot r f w) = pending_commands w" for r f w
    by (simp add: modify_screenshot_def)
  show 2: "pending_commands (maybe_finalize_remote_screenshot lossy sh r w) = pending_commands w" for w
    by (simp add: maybe_finalize_remote_screenshot_def split: option.split)
  show "pending_commands (snd (note_screenshot_reaped lossy sh q st w)) = pending_commands w"
    by (simp add: note_screenshot_reaped_def 1 maybe_finalize_remote_screenshot_def split: option.split)
  show "pending_commands (on_shot_pipe lossy sh r k ev w) = pending_commands w"
    by (cases ev) (simp_all add: 1 2 on_pipe_closed_def)
qed

lemma shot_pipe_keeps_commands [simp]:
  "pending_commands (foldl (\<lambda>w ev. on_shot_pipe lossy sh r k ev w) w evs) = pending_commands w"
  by (induction evs arbitrary: w) simp_all

lemma pipe_other:
  "r' \<noteq> r \<Longrightarrow> map_of (pending_commands (foldl (\<lambda>w ev. on_command_pipe lossy r' k ev w) w evs)) r = map_of (pending_commands w) r"
proof (induction evs arbitrary: w)
  case (Cons ev evs)
  then show ?case by (cases ev) (simp_all add: on_command_output_def on_command_pipe_closed_def map_maybe)
qed simp

lemma find_pid_Some:
  assumes "find_pid pid_of q ps = Some r"
  shows "(r, q) \<in> (\<lambda>(r, p). (r, pid_of p)) ` set ps"
  using assms by (auto simp: find_pid_def find_Some_iff) (metis (mono_tags, lifting) case_prod_conv fst_conv nth_mem pair_imageI)

lemma command_reaped_follows:
  assumes f: "follows r cid q S out err w" and keys: "keys_ok w" and st: "q' = q \<Longrightarrow> st \<in> S"
  shows "follows r cid q S out err (snd (note_command_reaped lossy grace q' st w)) \<or>
    answered lossy cid S out err (snd (note_command_reaped lossy grace q' st w))"
proof (cases "find_pid pid q' (pending_commands w)")
  case (Some r')
  obtain p where p: "map_of (pending_commands w) r = Some p" "keeps cid q S out err p"
    using f by (auto simp: follows_def)
  let ?u = "modify_command r' (\<lambda>p. p\<lparr> exit_status := Some st \<rparr>) w"
  let ?w = "maybe_finalize_remote_command lossy r' ?u"
  show ?thesis
  proof (cases "r' = r")
    case True
    from find_pid_Some [OF Some] obtain p1 where p1: "(r, p1) \<in> set (pending_commands w)" "pid p1 = q'" using True by auto
    then have "p1 = p" using keys p(1) by (simp add: keys_ok_def)
    with p1 have "pid p = q'" by simp
    then have k: "keeps cid q S out err (p\<lparr> exit_status := Some st \<rparr>)" using p(2) st by (auto simp: keeps_def)
    have m: "map_of (pending_commands ?u) r = Some (p\<lparr> exit_status := Some st \<rparr>)" using True p(1) by simp
    from maybe_follows [OF m k, of lossy] show ?thesis
    proof
      assume a: "answered lossy cid S out err (maybe_finalize_remote_command lossy r ?u)"
      moreover have "set (sent ?w) \<subseteq> set (sent (arm_output_grace grace r ?w))"
        using settles_arm [of ?w grace r] unfolding settles_def by blast
      ultimately have "answered lossy cid S out err (arm_output_grace grace r ?w)"
        using True answered_mono [of lossy cid S out err ?w] by blast
      with a show ?thesis using True Some by (simp add: note_command_reaped_def Let_def)
    next
      assume "follows r cid q S out err (maybe_finalize_remote_command lossy r ?u)"
      then obtain p' where p': "map_of (pending_commands ?w) r = Some p'" "keeps cid q S out err p'"
        using True by (auto simp: follows_def)
      have "p' = p\<lparr> exit_status := Some st \<rparr>" using p'(1) m True by (auto simp: map_maybe split: if_splits)
      with p' True Some k show ?thesis
        by (auto simp: note_command_reaped_def Let_def follows_def arm_output_grace_def keeps_def split: option.split)
    qed
  next
    case False
    with Some p show ?thesis
      by (auto simp: note_command_reaped_def Let_def follows_def arm_output_grace_def map_maybe split: option.split)
  qed
qed (use f in \<open>simp add: note_command_reaped_def\<close>)

lemma child_reaped_follows:
  assumes f: "follows r cid q S out err w" and keys: "keys_ok w" and st: "q' = q \<Longrightarrow> st \<in> S"
  shows "follows r cid q S out err (note_child_reaped lossy sh grace w (q', st)) \<or>
    answered lossy cid S out err (note_child_reaped lossy sh grace w (q', st))"
proof -
  obtain b1 w1 where 1: "note_screenshot_reaped lossy sh q' st w = (b1, w1)" by fastforce
  obtain b2 w2 where 2: "note_command_reaped lossy grace q' st w1 = (b2, w2)" by fastforce
  have f1: "follows r cid q S out err w1" using f shots_keep_commands(3) [of lossy sh q' st w] 1 by (simp add: follows_def)
  have "keys_ok w1" using settles_shot_reaped [of w lossy sh q' st] keys 1 by (simp add: settles_def)
  from command_reaped_follows [OF f1 this st, of q' lossy grace] 2
  have "follows r cid q S out err w2 \<or> answered lossy cid S out err w2" by simp
  moreover have "follows r cid q S out err w2 \<Longrightarrow> follows r cid q S out err (send [Lock_child q' st] w2)"
    by (simp add: follows_def)
  moreover have "answered lossy cid S out err w2 \<Longrightarrow> answered lossy cid S out err (send [Lock_child q' st] w2)"
    by (auto simp: answered_def)
  ultimately show ?thesis using f1 by (auto simp: note_child_reaped_def 1 2 split: bool.split)
qed

lemma sweep_reports: "(q, st) \<in> set (fst (sweep try_wait pids)) \<Longrightarrow> try_wait q = Has_exited st"
  by (induction pids) (auto split: prod.splits wait_result.splits)

lemma sigchld_follows:
  assumes f: "follows r cid q S out err w" and keys: "keys_ok w" and st: "\<And>st. try_wait q = Has_exited st \<Longrightarrow> st \<in> S"
  shows "follows r cid q S out err (on_sigchld lossy sh grace try_wait w) \<or>
    answered lossy cid S out err (on_sigchld lossy sh grace try_wait w)"
proof -
  obtain reaped rest where sw: "sweep try_wait (tracked w) = (reaped, rest)" by fastforce
  have "follows r cid q S out err w \<Longrightarrow> keys_ok w \<Longrightarrow> \<forall>(q', st) \<in> set xs. try_wait q' = Has_exited st \<Longrightarrow>
      follows r cid q S out err (foldl (note_child_reaped lossy sh grace) w xs) \<or>
      answered lossy cid S out err (foldl (note_child_reaped lossy sh grace) w xs)" for xs w
  proof (induction xs arbitrary: w)
    case (Cons x xs)
    obtain q' st' where x: "x = (q', st')" by (cases x)
    let ?w = "note_child_reaped lossy sh grace w x"
    have "q' = q \<Longrightarrow> st' \<in> S" using Cons.prems(3) x st by auto
    from child_reaped_follows [OF Cons.prems(1,2) this, of q' lossy sh grace] x
    have "follows r cid q S out err ?w \<or> answered lossy cid S out err ?w" by simp
    moreover have "keys_ok ?w" using settles_child_reaped Cons.prems(2) by (auto simp: settles_def)
    moreover have "set (sent ?w) \<subseteq> set (sent (foldl (note_child_reaped lossy sh grace) ?w xs))"
      using settles_foldl [of "note_child_reaped lossy sh grace" ?w xs] settles_child_reaped by (auto simp: settles_def)
    ultimately show ?case using Cons.IH [of ?w] Cons.prems(3) answered_mono [of lossy cid S out err ?w _ S] by auto
  qed simp
  moreover have "follows r cid q S out err (w\<lparr> tracked := rest \<rparr>)" "keys_ok (w\<lparr> tracked := rest \<rparr>)"
    using f keys by (simp_all add: follows_def keys_ok_def)
  moreover have "\<forall>(q', st) \<in> set reaped. try_wait q' = Has_exited st" using sweep_reports [of _ _ try_wait "tracked w"] sw by auto
  ultimately show ?thesis by (simp add: on_sigchld_def sw)
qed

lemma grows_spawn: "set (sent w) \<subseteq> set (sent (snd (spawn_remote_command res cid argv timeout_ms w)))"
    "set (sent w) \<subseteq> set (sent (snd (spawn_remote_screenshot mkdir auto_path res cid path w)))"
  by (auto simp: spawn_remote_command_def spawn_remote_screenshot_def modify_command_def modify_screenshot_def Let_def
      split: sum.split option.split)

lemma step_grows: "set (sent w) \<subseteq> set (sent (child_step lossy sh w e))"
proof (cases "\<exists>c. asks c e")
  case True
  then show ?thesis
  proof (cases e)
    case (Run_command res cid argv timeout_ms detach)
    then show ?thesis using grows_spawn(1) [of w res cid argv timeout_ms]
      by (cases "spawn_remote_command res cid argv timeout_ms w")
        (auto simp: run_command_request_def finish_request_def spawn_detached_command_def split: sum.splits)
  next
    case (Take_screenshot mkdir auto_path res cid bad path)
    then show ?thesis using grows_spawn(2) [of w mkdir auto_path res cid path]
      by (cases "spawn_remote_screenshot mkdir auto_path res cid path w")
        (auto simp: screenshot_request_def finish_request_def split: sum.splits)
  qed auto
next
  case False
  have "settles w (child_step lossy sh w e)"
    using False
    by (cases e) (auto intro!: settles_foldl settles_command_pipe settles_shot_pipe settles_sigchld settles_timeout settles_grace
        simp: settles_def [of _ "_\<lparr> tracked := _ \<rparr>"] settles_def [of _ "_\<lparr> automation_enabled := _ \<rparr>"] keys_ok_def)
  then show ?thesis by (simp add: settles_def)
qed

lemma request_keeps_others:
  assumes "next_command_id w \<noteq> r"
  shows "map_of (pending_commands (finish_request cid (run_command_request res cid argv timeout_ms detach w))) r =
      map_of (pending_commands w) r"
    and "pending_commands (finish_request cid (screenshot_request mkdir auto_path res cid bad path w)) = pending_commands w"
proof -
  have "map_of (pending_commands (snd (spawn_remote_command res cid argv timeout_ms w))) r = map_of (pending_commands w) r"
    using assms by (auto simp: spawn_remote_command_def Let_def update_conv' split: sum.split option.split)
  then show "map_of (pending_commands (finish_request cid (run_command_request res cid argv timeout_ms detach w))) r =
      map_of (pending_commands w) r"
    by (auto simp: run_command_request_def finish_request_def spawn_detached_command_def split: sum.split prod.split)
  have "pending_commands (snd (spawn_remote_screenshot mkdir auto_path res cid path w)) = pending_commands w"
    by (auto simp: spawn_remote_screenshot_def Let_def split: sum.split option.split)
  then show "pending_commands (finish_request cid (screenshot_request mkdir auto_path res cid bad path w)) = pending_commands w"
    by (auto simp: screenshot_request_def finish_request_def split: sum.split prod.split)
qed

lemma step_follows:
  assumes f: "follows r cid q S out err w" and use: "in_use (Suc n) w" and S: "S \<union> statuses q [e] \<subseteq> S'"
  shows "let out' = out @ read_from r Stdout e; err' = err @ read_from r Stderr e; w' = child_step lossy sh w e
    in follows r cid q S' out' err' w' \<or> answered lossy cid S' out' err' w'"
proof -
  have f': "follows r cid q S' out err w" using follows_more [OF f] S by simp
  have keys: "keys_ok w" using use by (simp add: in_use_def)
  have id: "next_command_id w \<noteq> r"
    using use ids_free_unused f by (force simp: in_use_def follows_def dest: map_of_SomeD)
  show ?thesis
  proof (cases e)
    case (Command_pipe r' k rs)
    show ?thesis
    proof (cases "r' = r")
      case True
      with pipe_follows [OF f', of k rs lossy sh] Command_pipe show ?thesis by simp
    next
      case False
      with f' pipe_other [OF False] Command_pipe show ?thesis by (simp add: follows_def)
    qed
  next
    case (Child_signal grace try_wait)
    have "st \<in> S'" if "try_wait q = Has_exited st" for st
      using that S Child_signal by (auto simp: statuses_def)
    from sigchld_follows [OF f' keys this] Child_signal show ?thesis by simp
  next
    case (Time_limit r')
    with f' show ?thesis
      by (auto simp: on_command_timeout_def follows_def keeps_def split: option.split)
  next
    case (Grace_over r')
    obtain p where p: "map_of (pending_commands w) r = Some p" "keeps cid q S' out err p" using f' by (auto simp: follows_def)
    show ?thesis
    proof (cases "r' = r \<and> armed grace_token r w")
      case True
      let ?u = "send [Killed_group (pid p)] (modify_command r (\<lambda>p. p\<lparr> grace_token := None \<rparr>) w)"
      have "exit_status p \<noteq> None" using True p by (auto simp: armed_def keeps_def)
      moreover have "map_of (pending_commands ?u) r = Some (p\<lparr> grace_token := None \<rparr>)" using p(1) by simp
      moreover have "keeps cid q S' out err (p\<lparr> grace_token := None \<rparr>)" using p(2) by (auto simp: keeps_def)
      ultimately have "answered lossy cid S' out err (finalize_remote_command lossy r ?u)"
        using finalize_answers [of ?u r "p\<lparr> grace_token := None \<rparr>" cid q S' out err lossy] by simp
      with True p(1) Grace_over show ?thesis by (simp add: on_output_grace_over_def)
    next
      case False
      with f' Grace_over show ?thesis
        by (auto simp: on_output_grace_over_def follows_def map_finalize split: option.split)
    qed
  qed (use f' request_keeps_others [OF id] in \<open>auto simp: follows_def\<close>)
qed

lemma in_use_run:
  "in_use (n + length es) w \<Longrightarrow> list_all registers es \<Longrightarrow> in_use n (foldl (child_step lossy sh) w es)"
proof (induction es arbitrary: w)
  case (Cons e es)
  with child_step_account [of "n + length es" w e lossy sh 0] show ?case by simp
qed simp

text \<open>C35. The reply to a command carries the first 64 KiB of what was read from each of its pipes until then, in
  order, says that it is cut exactly when more was read from one of them, and has an exit code the
  system reported for the command's own process; until it goes out the command keeps just that.\<close>

theorem command_output_is_kept:
  assumes on: "automation_enabled w" "argv \<noteq> []" "started res = Inr q" "watched res"
    and use: "in_use (Suc (length es)) w" and es: "list_all registers es"
    and r: "r = next_command_id w"
    and w': "w' = foldl (child_step lossy sh) (child_step lossy sh w (Run_command res cid argv timeout_ms False)) es"
  shows "follows r cid q (statuses q es) (output_of r Stdout es) (output_of r Stderr es) w' \<or>
    (\<exists>es1 es2. es = es1 @ es2 \<and> answered lossy cid (statuses q es1) (output_of r Stdout es1) (output_of r Stderr es1) w')"
proof -
  let ?w = "child_step lossy sh w (Run_command res cid argv timeout_ms False)"
  have none: "map_of (pending_commands w) r = None"
    using use ids_free_unused r by (auto simp: in_use_def intro!: no_key)
  obtain t1 t2 t3 where "stdout_source res = Inr t1" "stderr_source res = Inr t2" "timer_source res = Inr t3"
    using on(4) by (auto simp: watched_def is_ok_def split: sum.splits)
  then have start: "follows r cid q {} [] [] ?w"
    using on none
    by (auto simp: run_command_request_def spawn_remote_command_def finish_request_def follows_def keeps_def capped_def
        update_conv' Let_def r [symmetric] split: option.split)
  have use1: "in_use (length es) ?w" using child_step_account [OF use, of "Run_command res cid argv timeout_ms False"] on(4) by simp
  have "in_use (length es) ?w \<Longrightarrow> list_all registers es \<Longrightarrow>
      follows r cid q (statuses q es) (output_of r Stdout es) (output_of r Stderr es) (foldl (child_step lossy sh) ?w es) \<or>
      (\<exists>es1 es2. es = es1 @ es2 \<and> answered lossy cid (statuses q es1) (output_of r Stdout es1) (output_of r Stderr es1)
        (foldl (child_step lossy sh) ?w es))" for es
  proof (induction es rule: rev_induct)
    case Nil
    with start show ?case by (simp add: statuses_def output_of_def)
  next
    case (snoc e es)
    let ?v = "foldl (child_step lossy sh) ?w es"
    have v: "in_use 1 ?v" using in_use_run [of 1 es ?w] snoc.prems by simp
    have "in_use (length es) ?w" using snoc.prems(1) in_use_less by simp
    from snoc.IH [OF this] snoc.prems(2) consider
        (pending) "follows r cid q (statuses q es) (output_of r Stdout es) (output_of r Stderr es) ?v"
      | (replied) es1 es2 where "es = es1 @ es2"
          "answered lossy cid (statuses q es1) (output_of r Stdout es1) (output_of r Stderr es1) ?v" by auto
    then show ?case
    proof cases
      case pending
      have "statuses q es \<union> statuses q [e] \<subseteq> statuses q (es @ [e])" by (auto simp: statuses_def)
      from step_follows [OF pending v [unfolded One_nat_def] this, of lossy sh]
      have "follows r cid q (statuses q (es @ [e])) (output_of r Stdout (es @ [e])) (output_of r Stderr (es @ [e])) (child_step lossy sh ?v e) \<or>
        answered lossy cid (statuses q (es @ [e])) (output_of r Stdout (es @ [e])) (output_of r Stderr (es @ [e])) (child_step lossy sh ?v e)"
        by (simp add: output_of_def Let_def)
      then show ?thesis by (auto intro: exI [of _ "es @ [e]"])
    next
      case replied
      have "answered lossy cid (statuses q es1) (output_of r Stdout es1) (output_of r Stderr es1) (child_step lossy sh ?v e)"
        by (rule answered_mono [OF replied(2) step_grows]) simp
      with replied(1) show ?thesis by (intro disjI2 exI [of _ es1] exI [of _ "es2 @ [e]"]) simp
    qed
  qed
  with use1 es w' show ?thesis by simp
qed

section \<open>A command that exits is answered\<close>

definition result_sent :: "nat \<Rightarrow> children_wm \<Rightarrow> bool" where
  "result_sent cid w \<longleftrightarrow> (\<exists>c out err cut. Replied cid (Command_result c out err cut) \<in> set (sent w))"

definition pending_as :: "(pending_command \<Rightarrow> bool) \<Rightarrow> u64 \<Rightarrow> children_wm \<Rightarrow> bool" where
  "pending_as P r w \<longleftrightarrow> (\<exists>p. map_of (pending_commands w) r = Some p \<and> P p)"

text \<open>A property of a client's pending command that no event but its reply takes away.\<close>

definition lasting :: "nat \<Rightarrow> (pending_command \<Rightarrow> bool) \<Rightarrow> bool" where
  "lasting cid P \<longleftrightarrow> (\<forall>p. P p \<longrightarrow> client_id p = cid \<and> (\<forall>k. P (close_pipe k p)) \<and> (\<forall>k bs. P (append_output k bs p)) \<and>
     P (p\<lparr> timer_token := None \<rparr>) \<and> (\<forall>st. P (p\<lparr> exit_status := Some st \<rparr>)) \<and> (\<forall>t. P (p\<lparr> grace_token := Some t \<rparr>)))"

definition lasts :: "nat \<Rightarrow> (pending_command \<Rightarrow> bool) \<Rightarrow> u64 \<Rightarrow> children_wm \<Rightarrow> children_wm \<Rightarrow> bool" where
  "lasts cid P r w w' \<longleftrightarrow> (pending_as P r w \<longrightarrow> pending_as P r w' \<or> result_sent cid w')"

lemma result_sent_mono: "result_sent cid w \<Longrightarrow> set (sent w) \<subseteq> set (sent w') \<Longrightarrow> result_sent cid w'"
  unfolding result_sent_def by blast

lemma lasts_refl [simp]: "lasts cid P r w w"
  by (simp add: lasts_def)

lemma lasts_trans:
  "lasts cid P r w1 w2 \<Longrightarrow> lasts cid P r w2 w3 \<Longrightarrow> set (sent w2) \<subseteq> set (sent w3) \<Longrightarrow> lasts cid P r w1 w3"
  unfolding lasts_def by (blast dest: result_sent_mono)

lemma lasts_same: "pending_commands w' = pending_commands w \<Longrightarrow> lasts cid P r w w'"
  by (simp add: lasts_def pending_as_def)

lemma lasts_modify: "(\<And>p. P p \<Longrightarrow> P (f p)) \<Longrightarrow> lasts cid P r w (modify_command r' f w)"
  by (auto simp: lasts_def pending_as_def)

lemma finalize_sends: "map_of (pending_commands w) r = Some p \<Longrightarrow> result_sent (client_id p) (finalize_remote_command lossy r w)"
  by (auto simp: result_sent_def finalize_remote_command_def Let_def)

lemma lasts_finalize: "lasting cid P \<Longrightarrow> lasts cid P r w (finalize_remote_command lossy r' w)"
  by (cases "r' = r") (auto simp: lasts_def pending_as_def lasting_def map_finalize dest: finalize_sends)

lemma lasts_maybe: "lasting cid P \<Longrightarrow> lasts cid P r w (maybe_finalize_remote_command lossy r' w)"
  by (auto simp: maybe_finalize_remote_command_def intro: lasts_finalize split: option.split)

lemma settles_sent: "settles w w' \<Longrightarrow> set (sent w) \<subseteq> set (sent w')"
  by (simp add: settles_def)

lemma lasts_command_pipe:
  assumes "lasting cid P"
  shows "lasts cid P r w (on_command_pipe lossy r' k ev w)"
proof (cases ev)
  case (Pipe_data bs)
  with assms show ?thesis by (auto simp: on_command_output_def lasting_def intro!: lasts_modify)
next
  case Pipe_closed
  have "lasts cid P r w (modify_command r' (close_pipe k) w)" using assms by (auto simp: lasting_def intro!: lasts_modify)
  from lasts_trans [OF this lasts_maybe [OF assms] settles_sent [OF settles_maybe_finalize]] Pipe_closed show ?thesis
    by (simp add: on_command_pipe_closed_def)
qed

lemma lasts_foldl:
  assumes "\<And>x w. lasts cid P r w (f w x)" "\<And>x w. settles w (f w x)"
  shows "lasts cid P r w (foldl f w xs)"
proof (induction xs arbitrary: w)
  case (Cons x xs)
  from lasts_trans [OF assms(1) Cons.IH settles_sent [OF settles_foldl [OF assms(2)]]] show ?case by simp
qed simp

lemma lasts_arm: "lasting cid P \<Longrightarrow> lasts cid P r w (arm_output_grace source r' w)"
  by (auto simp: arm_output_grace_def lasting_def intro!: lasts_modify split: option.split)

lemma lasts_command_reaped:
  assumes "lasting cid P"
  shows "lasts cid P r w (snd (note_command_reaped lossy source q st w))"
proof (cases "find_pid pid q (pending_commands w)")
  case (Some r')
  let ?u = "modify_command r' (\<lambda>p. p\<lparr> exit_status := Some st \<rparr>) w"
  let ?w = "maybe_finalize_remote_command lossy r' ?u"
  have "lasts cid P r w ?u" using assms by (auto simp: lasting_def intro!: lasts_modify)
  then have 1: "lasts cid P r w ?w" by (rule lasts_trans [OF _ lasts_maybe [OF assms] settles_sent [OF settles_maybe_finalize]])
  have "lasts cid P r w (arm_output_grace source r' ?w)"
    by (rule lasts_trans [OF 1 lasts_arm [OF assms] settles_sent [OF settles_arm]])
  with 1 Some show ?thesis by (simp add: note_command_reaped_def Let_def)
qed (simp add: note_command_reaped_def)

lemma lasts_child_reaped:
  assumes "lasting cid P"
  shows "lasts cid P r w (note_child_reaped lossy sh grace w x)"
proof -
  obtain q st where x: "x = (q, st)" by (cases x)
  obtain b1 w1 where 1: "note_screenshot_reaped lossy sh q st w = (b1, w1)" by fastforce
  obtain b2 w2 where 2: "note_command_reaped lossy grace q st w1 = (b2, w2)" by fastforce
  have "lasts cid P r w w1" using shots_keep_commands(3) [of lossy sh q st w] 1 by (simp add: lasts_same)
  moreover have "lasts cid P r w1 w2" "set (sent w1) \<subseteq> set (sent w2)"
    using lasts_command_reaped [OF assms, of r w1 lossy grace q st] settles_sent [OF settles_command_reaped [of w1 lossy grace q st]] 2
    by simp_all
  ultimately have "lasts cid P r w w2" by (rule lasts_trans)
  moreover have "lasts cid P r w (send [Lock_child q st] w2)"
    by (rule lasts_trans [OF \<open>lasts cid P r w w2\<close>]) (auto intro: lasts_same)
  ultimately show ?thesis using \<open>lasts cid P r w w1\<close> by (auto simp: note_child_reaped_def x 1 2 split: bool.split)
qed

lemma lasts_sigchld:
  assumes "lasting cid P"
  shows "lasts cid P r w (on_sigchld lossy sh grace try_wait w)"
proof -
  have "lasts cid P r w (foldl (note_child_reaped lossy sh grace) (w\<lparr> tracked := rest \<rparr>) xs)" for rest xs
    by (rule lasts_trans [OF lasts_same lasts_foldl [OF lasts_child_reaped [OF assms] settles_child_reaped]
          settles_sent [OF settles_foldl [OF settles_child_reaped]]]) simp
  then show ?thesis by (simp add: on_sigchld_def split: prod.split)
qed

lemma lasts_step:
  assumes P: "lasting cid P" and use: "in_use (Suc n) w"
  shows "lasts cid P r w (child_step lossy sh w e)"
proof (cases e)
  case (Run_command res c argv timeout_ms detach)
  have "pending_as P r w \<Longrightarrow> next_command_id w \<noteq> r"
    using use ids_free_unused by (force simp: in_use_def pending_as_def dest: map_of_SomeD)
  then show ?thesis using Run_command by (auto simp: lasts_def pending_as_def request_keeps_others)
next
  case (Take_screenshot mkdir auto_path res c bad path)
  have "pending_commands (snd (screenshot_request mkdir auto_path res c bad path w)) = pending_commands w"
    by (auto simp: screenshot_request_def spawn_remote_screenshot_def Let_def split: sum.split prod.split)
  with Take_screenshot show ?thesis by (auto simp: finish_request_def intro!: lasts_same split: prod.split)
next
  case (Time_limit r')
  have "lasts cid P r w (on_command_timeout r' w)"
    using P by (auto simp: on_command_timeout_def lasts_def pending_as_def lasting_def split: option.split)
  with Time_limit show ?thesis by simp
next
  case (Grace_over r')
  have "lasts cid P r w (on_output_grace_over lossy r' w)"
  proof (cases "r' = r")
    case True
    have "result_sent cid (on_output_grace_over lossy r w)" if "map_of (pending_commands w) r = Some p" "P p" for p
      using finalize_sends [of "send [Killed_group (pid p)] (modify_command r (\<lambda>p. p\<lparr> grace_token := None \<rparr>) w)" r
          "p\<lparr> grace_token := None \<rparr>" lossy] that P by (simp add: on_output_grace_over_def lasting_def)
    with True show ?thesis by (auto simp: lasts_def pending_as_def)
  next
    case False
    then show ?thesis by (auto simp: on_output_grace_over_def lasts_def pending_as_def map_finalize split: option.split)
  qed
  with Grace_over show ?thesis by simp
next
  case (Command_pipe r' k rs)
  then show ?thesis by (simp add: lasts_foldl lasts_command_pipe [OF P] settles_command_pipe)
qed (use P in \<open>auto intro!: lasts_same lasts_sigchld\<close>)

lemma lasts_run:
  assumes "lasting cid P" "in_use (length es) w" "list_all registers es"
  shows "lasts cid P r w (foldl (child_step lossy sh) w es)"
  using assms(2,3)
proof (induction es arbitrary: w)
  case (Cons e es)
  have sent: "set (sent v) \<subseteq> set (sent (foldl (child_step lossy sh) v xs))" for v xs
    using step_grows by (induction xs arbitrary: v) (simp_all, blast)
  have "lasts cid P r w (child_step lossy sh w e)" using lasts_step [OF assms(1)] Cons.prems by simp
  moreover have "lasts cid P r (child_step lossy sh w e) (foldl (child_step lossy sh) (child_step lossy sh w e) es)"
    using Cons child_step_account [of "length es" w e lossy sh 0] by simp
  ultimately show ?case using lasts_trans [OF _ _ sent] by simp
qed simp

lemma settles_owners: "settles w w' \<Longrightarrow> who w' \<subseteq> who w \<and> shot_who w' \<subseteq> shot_who w"
  by (simp add: settles_def)

lemma reaped_arms:
  assumes p: "pending_as (\<lambda>p. client_id p = cid \<and> pid p = q) r w"
    and only: "\<forall>(r', q') \<in> who w. q' = q \<longrightarrow> r' = r" "\<forall>(r', q') \<in> shot_who w. q' \<noteq> q"
  shows "pending_as (\<lambda>p. client_id p = cid \<and> grace_token p \<noteq> None) r (note_child_reaped lossy sh (Some t) w (q, st)) \<or>
    result_sent cid (note_child_reaped lossy sh (Some t) w (q, st))"
proof -
  obtain p where p: "map_of (pending_commands w) r = Some p" "client_id p = cid" "pid p = q"
    using p by (auto simp: pending_as_def)
  have shots: "note_screenshot_reaped lossy sh q st w = (False, w)"
  proof (cases "find_pid shot_pid q (pending_screenshots w)")
    case (Some r')
    from find_pid_Some [OF this] only(2) show ?thesis by (auto simp: shot_who_def)
  qed (simp add: note_screenshot_reaped_def)
  have "find_pid pid q (pending_commands w) \<noteq> None"
    using map_of_SomeD [OF p(1)] p(3) by (auto simp: find_pid_def find_None_iff)
  then obtain r' where r': "find_pid pid q (pending_commands w) = Some r'" by blast
  have "(r', q) \<in> who w" using find_pid_Some [OF r'] by (simp add: who_def)
  with only(1) have [simp]: "r' = r" by auto
  let ?u = "modify_command r (\<lambda>p. p\<lparr> exit_status := Some st \<rparr>) w"
  have m: "map_of (pending_commands ?u) r = Some (p\<lparr> exit_status := Some st \<rparr>)" using p(1) by simp
  show ?thesis
  proof (cases "command_ready (p\<lparr> exit_status := Some st \<rparr>)")
    case True
    have "maybe_finalize_remote_command lossy r ?u = finalize_remote_command lossy r ?u"
      unfolding maybe_finalize_remote_command_def m using True by simp
    then have "result_sent cid (note_child_reaped lossy sh (Some t) w (q, st))"
      using finalize_sends [OF m, of lossy] p(2) r'
      by (simp add: note_child_reaped_def shots note_command_reaped_def Let_def map_finalize)
    then show ?thesis ..
  next
    case False
    have "maybe_finalize_remote_command lossy r ?u = ?u" unfolding maybe_finalize_remote_command_def m using False by simp
    then show ?thesis
      using p r' by (simp add: note_child_reaped_def shots note_command_reaped_def Let_def arm_output_grace_def pending_as_def)
  qed
qed

lemma lasting_graced: "lasting cid (\<lambda>p. client_id p = cid \<and> grace_token p \<noteq> None)"
  and lasting_pid: "lasting cid (\<lambda>p. client_id p = cid \<and> pid p = q)"
  by (auto simp: lasting_def close_pipe_def append_output_def Let_def split: pipe_kind.split)

lemma all_reaped_arm:
  assumes p: "pending_as (\<lambda>p. client_id p = cid \<and> pid p = q) r w" and q: "(q, st) \<in> set xs"
    and only: "\<forall>(r', q') \<in> who w. q' = q \<longrightarrow> r' = r" "\<forall>(r', q') \<in> shot_who w. q' \<noteq> q"
  shows "pending_as (\<lambda>p. client_id p = cid \<and> grace_token p \<noteq> None) r (foldl (note_child_reaped lossy sh (Some t)) w xs) \<or>
    result_sent cid (foldl (note_child_reaped lossy sh (Some t)) w xs)"
  using assms
proof (induction xs arbitrary: w)
  case (Cons x xs)
  let ?w = "note_child_reaped lossy sh (Some t) w x" and ?W = "\<lambda>w. foldl (note_child_reaped lossy sh (Some t)) w xs"
  have mono: "result_sent cid v \<Longrightarrow> result_sent cid (?W v)" for v
    by (rule result_sent_mono [OF _ settles_sent [OF settles_foldl [OF settles_child_reaped]]])
  have keep: "lasts cid (\<lambda>p. client_id p = cid \<and> grace_token p \<noteq> None) r v (?W v)" for v
    by (rule lasts_foldl [OF lasts_child_reaped [OF lasting_graced] settles_child_reaped])
  show ?case
  proof (cases "fst x = q")
    case True
    with reaped_arms [OF Cons.prems(1,3,4), of lossy sh t "snd x"] mono [of ?w]
      keep [of ?w]
    show ?thesis by (cases x) (auto simp: lasts_def)
  next
    case False
    have sub: "who ?w \<subseteq> who w" "shot_who ?w \<subseteq> shot_who w" using settles_owners [OF settles_child_reaped] by blast+
    have inq: "(q, st) \<in> set xs" using False Cons.prems(2) by auto
    have "\<forall>(r', q') \<in> who ?w. q' = q \<longrightarrow> r' = r" "\<forall>(r', q') \<in> shot_who ?w. q' \<noteq> q"
      using Cons.prems(3,4) sub by blast+
    moreover have "pending_as (\<lambda>p. client_id p = cid \<and> pid p = q) r ?w \<or> result_sent cid ?w"
      using Cons.prems(1) lasts_child_reaped [OF lasting_pid, of cid q r w lossy sh "Some t" x] by (simp add: lasts_def)
    ultimately show ?thesis using Cons.IH [of ?w] mono [of ?w] inq by auto
  qed
qed simp

lemma sweep_finds: "q \<in> set pids \<Longrightarrow> try_wait q = Has_exited st \<Longrightarrow> (q, st) \<in> set (fst (sweep try_wait pids))"
  by (induction pids) (auto split: prod.splits wait_result.splits)

text \<open>C36. Once the process of a command has exited, the command is answered at the latest when the grace period
  is over, whoever still holds its pipes and whatever else happens meanwhile.\<close>

theorem exited_command_is_answered:
  assumes pending: "map_of (pending_commands w) r = Some p"
    and only: "\<forall>(r', q') \<in> who w. q' = pid p \<longrightarrow> r' = r" "\<forall>(r', q') \<in> shot_who w. q' \<noteq> pid p"
    and exited: "pid p \<in> set (tracked w)" "try_wait (pid p) = Has_exited st"
    and use: "in_use (Suc (length es)) w" and es: "list_all registers es"
    and w': "w' = foldl (child_step lossy sh) (child_step lossy sh w (Child_signal (Some t) try_wait)) es"
  shows "result_sent (client_id p) (child_step lossy sh w' (Grace_over r))"
proof -
  let ?P = "\<lambda>p'. client_id p' = client_id p \<and> grace_token p' \<noteq> None"
  let ?w = "child_step lossy sh w (Child_signal (Some t) try_wait)"
  obtain reaped rest where sw: "sweep try_wait (tracked w) = (reaped, rest)" by fastforce
  have "(pid p, st) \<in> set reaped" using sweep_finds [where q = "pid p" and try_wait = try_wait, OF exited] sw by simp
  moreover have "pending_as (\<lambda>p'. client_id p' = client_id p \<and> pid p' = pid p) r (w\<lparr> tracked := rest \<rparr>)"
    using pending by (simp add: pending_as_def)
  ultimately have "pending_as ?P r ?w \<or> result_sent (client_id p) ?w"
    using all_reaped_arm [of "client_id p" "pid p" r "w\<lparr> tracked := rest \<rparr>" st reaped lossy sh t] only
    by (simp add: on_sigchld_def sw)
  moreover have "in_use (length es) ?w" using child_step_account [OF use, of "Child_signal (Some t) try_wait" lossy sh] by simp
  moreover have sent: "set (sent v) \<subseteq> set (sent (foldl (child_step lossy sh) v xs))" for v xs
    using step_grows by (induction xs arbitrary: v) (simp_all, blast)
  ultimately have "pending_as ?P r w' \<or> result_sent (client_id p) w'"
    using lasts_run [OF lasting_graced, of es ?w "client_id p" r lossy sh] es w' result_sent_mono [OF _ sent]
    by (auto simp: lasts_def)
  then show ?thesis
  proof
    assume "pending_as ?P r w'"
    then obtain p' where p': "map_of (pending_commands w') r = Some p'" "?P p'" by (auto simp: pending_as_def)
    then have "armed grace_token r w'" by (auto simp: armed_def)
    then show ?thesis
      using finalize_sends [of "send [Killed_group (pid p')] (modify_command r (\<lambda>p. p\<lparr> grace_token := None \<rparr>) w')" r
          "p'\<lparr> grace_token := None \<rparr>" lossy] p' by (simp add: on_output_grace_over_def)
  qed (rule result_sent_mono [OF _ step_grows])
qed

section \<open>Examples\<close>

definition no_children :: children_wm where
  "no_children = \<lparr> tracked = [], pending_commands = [], next_command_id = 0, pending_screenshots = [],
     next_screenshot_id = 0, automation_enabled = True, sent = [] \<rparr>"

definition spawned :: "int \<Rightarrow> spawn_result" where
  "spawned q = \<lparr> started = Inr q, stdout_source = Inr 1, stderr_source = Inr 2, timer_source = Inr 3 \<rparr>"

definition plain :: "bytes \<Rightarrow> chars" where "plain bs = map ucast bs"

definition blank :: "int \<Rightarrow> chars" where "blank n = []"

definition ls_events :: "child_event list" where
  "ls_events = [Command_pipe 0 Stdout [Chunk [104, 105], Interrupted, End_of_file],
     Child_signal (Some 9) (\<lambda>_. Has_exited (Exited 0)), Command_pipe 0 Stderr [End_of_file]]"

lemma no_children_in_use: "n \<le> 2 ^ 64 \<Longrightarrow> in_use n no_children"
  by (simp add: in_use_def no_children_def keys_ok_def ids_free_empty)

lemma each_child_request_is_answered_once_witness:
  "let w = foldl (child_step plain blank) no_children (Run_command (spawned 7) 1 [literal ''ls''] None False # ls_events)
   in replies 1 w + waiting_of client_id 1 (pending_commands w) + waiting_of shot_client 1 (pending_screenshots w) = 1"
  using each_child_request_is_answered_once [of no_children "Run_command (spawned 7) 1 [literal ''ls''] None False # ls_events"
      _ plain blank 1]
  by (simp add: no_children_def ls_events_def watched_def spawned_def Let_def)

lemma command_output_is_kept_witness:
  "let w = foldl (child_step plain blank) (child_step plain blank no_children (Run_command (spawned 7) 1 [literal ''ls''] None False)) ls_events
   in follows 0 1 7 (statuses 7 ls_events) [104, 105] [] w \<or>
      (\<exists>es1 es2. ls_events = es1 @ es2 \<and> answered plain 1 (statuses 7 es1) (output_of 0 Stdout es1) (output_of 0 Stderr es1) w)"
proof -
  have "output_of 0 Stdout ls_events = [104, 105]" "output_of 0 Stderr ls_events = []"
    by (simp_all add: output_of_def ls_events_def READ_BUDGET_def)
  moreover have "in_use (Suc (length ls_events)) no_children" by (rule no_children_in_use) (simp add: ls_events_def)
  ultimately show ?thesis
    using command_output_is_kept [of no_children "[literal ''ls'']" "spawned 7" 7 ls_events 0 _ plain blank 1 None]
    by (simp add: no_children_def watched_def spawned_def ls_events_def Let_def)
qed

lemma exited_command_is_answered_witness:
  "let w = child_step plain blank no_children (Run_command (spawned 7) 1 [literal ''ls''] None False);
       w' = child_step plain blank w (Child_signal (Some 9) (\<lambda>_. Has_exited (Exited 0)))
   in result_sent 1 (child_step plain blank w' (Grace_over 0))"
proof -
  let ?p = "\<lparr> client_id = 1, pid = 7, exit_status = None, stdout_buf = [], stderr_buf = [], stdout_open = True,
      stderr_open = True, truncated = False, stdout_token = Some 1, stderr_token = Some 2, timer_token = None,
      grace_token = None \<rparr>"
  let ?w = "child_step plain blank no_children (Run_command (spawned 7) 1 [literal ''ls''] None False)"
  have w: "pending_commands ?w = [(0, ?p)]" "pending_screenshots ?w = []" "tracked ?w = [7]"
    by (simp_all add: no_children_def spawned_def run_command_request_def spawn_remote_command_def finish_request_def
        modify_command_def modify_def track_def Let_def)
  have "in_use (Suc 0) ?w"
    using child_step_account [OF no_children_in_use [of "Suc (Suc 0)"], of "Run_command (spawned 7) 1 [literal ''ls''] None False"]
    by (simp add: watched_def spawned_def)
  then show ?thesis
    using exited_command_is_answered [of ?w 0 ?p "\<lambda>_. Has_exited (Exited 0)" "Exited 0" "[]" _ plain blank 9]
    by (simp add: w who_def shot_who_def Let_def del: child_step.simps literal_simps One_nat_def)
qed

section \<open>When a child cannot be watched\<close>

text \<open>C37. When a command is started but a pipe of it cannot be added to the event loop, the client is told that starting
  failed, and is told a second time, with a result, once the process has exited and the grace period is over.\<close>

theorem unwatched_command_is_answered_twice:
  assumes on: "automation_enabled w" "argv \<noteq> []" "started res = Inr q" "stdout_source res = Inl e"
    and clean: "pending_commands w = []" "pending_screenshots w = []" "tracked w = []"
    and exited: "try_wait q = Has_exited (Exited c)"
  shows "sent (foldl (child_step lossy sh) w
      [Run_command res cid argv timeout_ms False, Child_signal (Some t) try_wait, Grace_over (next_command_id w)]) =
    sent w @ [Replied cid (Error_is (literal ''run_command spawn failed: '' @ e)), Dropped cid, Killed_group q,
      Replied cid (Command_result c (lossy []) (lossy []) False), Dropped cid]"
  using assms
  by (simp add: run_command_request_def spawn_remote_command_def finish_request_def on_sigchld_def track_def Let_def
      note_child_reaped_def note_screenshot_reaped_def note_command_reaped_def find_pid_def maybe_finalize_remote_command_def
      command_ready_def arm_output_grace_def armed_def on_output_grace_over_def finalize_remote_command_def modify_command_def
      modify_def send_def)

lemma unwatched_command_is_answered_twice_witness:
  "sent (foldl (child_step plain blank) no_children
      [Run_command ((spawned 7)\<lparr> stdout_source := Inl [] \<rparr>) 1 [literal ''ls''] None False,
       Child_signal (Some 9) (\<lambda>_. Has_exited (Exited 3)), Grace_over (next_command_id no_children)]) =
    [Replied 1 (Error_is (literal ''run_command spawn failed: '')), Dropped 1, Killed_group 7,
      Replied 1 (Command_result 3 [] [] False), Dropped 1]"
  using unwatched_command_is_answered_twice [of no_children "[literal ''ls'']" "(spawned 7)\<lparr> stdout_source := Inl [] \<rparr>" 7 "[]"
      "\<lambda>_. Has_exited (Exited 3)" 3 plain blank 1 None 9]
  by (simp add: no_children_def spawned_def plain_def del: child_step.simps literal_simps)

text \<open>
  A wake-up reads less than one buffer more than its budget: the budget is looked at before
  each read, and a read gives at most 4096 bytes.
\<close>

lemma wakeup_stays_near_its_budget:
  assumes "\<forall>bs. Chunk bs \<in> set rs \<longrightarrow> length bs \<le> 4096" "n < READ_BUDGET + 4096"
  shows "n + length (concat (map data_of (pipe_wakeup n rs))) < READ_BUDGET + 4096"
  using assms
proof (induction n rs rule: pipe_wakeup.induct)
  case (2 n r rs)
  show ?case
  proof (cases "n < READ_BUDGET")
    case True
    show ?thesis
    proof (cases r)
      case (Chunk bs)
      then have "length bs \<le> 4096" using 2(3) by auto
      with 2(1) [OF True Chunk] True Chunk 2(3) show ?thesis by (simp add: add.assoc)
    qed (use True 2 in auto)
  qed (use 2 in simp)
qed simp

text \<open>Two reads can exceed the budget: 65535 bytes in pieces, then a full buffer.\<close>

lemma wakeup_exceeds_its_budget:
  "length (concat (map data_of (pipe_wakeup 0 [Chunk (replicate 65535 0), Chunk (replicate 4096 0)]))) = READ_BUDGET + 4095"
  by (simp add: READ_BUDGET_def)

text \<open>What was tracked is reported, still tracked or lost to an error of \<open>try_wait\<close>, and reported once.\<close>

lemma sweep_accounts:
  "length (fst (sweep try_wait pids)) + length (snd (sweep try_wait pids)) +
     length (filter (\<lambda>q. try_wait q = Wait_failed) pids) = length pids \<and>
   map fst (fst (sweep try_wait pids)) = filter (\<lambda>q. \<exists>st. try_wait q = Has_exited st) pids \<and>
   snd (sweep try_wait pids) = filter (\<lambda>q. try_wait q = Still_running) pids"
  by (induction pids) (auto split: prod.splits wait_result.splits)

end
