(* ===== verification/Confirm.thy ===== *)
theory Confirm
  imports Strings
begin

text \<open>
  Asking before something drastic: the confirm dialog (\<open>src/confirm.rs\<close>) and the power actions behind it
  (\<open>src/power.rs\<close>, for systems other than FreeBSD), with the requests and key bindings that reach them
  (\<open>src/ipc.rs\<close>, \<open>src/input.rs\<close>). The dialog is another program; it says what was chosen by the last byte it
  prints that is not a newline, \<open>0\<close> for yes. Whether programs are on the path and start is an argument. What
  is done is recorded in \<open>log\<close>.
\<close>

section \<open>Power actions\<close>

datatype power_action = Power_off | Reboot | Suspend

fun prompt :: "power_action \<Rightarrow> chars" where
  "prompt Power_off = literal ''Shut down?''"
| "prompt Reboot = literal ''Reboot?''"
| "prompt Suspend = literal ''Sleep (suspend)?''"

type_synonym command = "chars \<times> chars list"

fun candidates :: "power_action \<Rightarrow> command list" where
  "candidates Power_off = [(literal ''systemctl'', [literal ''poweroff'']), (literal ''loginctl'', [literal ''poweroff'']),
     (literal ''shutdown'', [literal ''-h'', literal ''now''])]"
| "candidates Reboot = [(literal ''systemctl'', [literal ''reboot'']), (literal ''loginctl'', [literal ''reboot'']),
     (literal ''shutdown'', [literal ''-r'', literal ''now''])]"
| "candidates Suspend = [(literal ''systemctl'', [literal ''suspend'']), (literal ''loginctl'', [literal ''suspend''])]"

text \<open>A program with a slash is looked up as it is; \<open>join\<close> and \<open>is_file\<close> are the file system's.\<close>

definition on_path :: "(chars \<Rightarrow> bool) \<Rightarrow> (chars \<Rightarrow> chars \<Rightarrow> chars) \<Rightarrow> chars list option \<Rightarrow> chars \<Rightarrow> bool" where
  "on_path is_file join path program =
    (if of_char (CHR ''/'') \<in> set program then is_file program
     else case path of None \<Rightarrow> False | Some dirs \<Rightarrow> list_ex (\<lambda>dir. is_file (join dir program)) dirs)"

text \<open>The pid of what was started.\<close>

fun first_that_starts :: "(chars \<Rightarrow> bool) \<Rightarrow> (command \<Rightarrow> int option) \<Rightarrow> command list \<Rightarrow> (command \<times> int) option" where
  "first_that_starts there start [] = None"
| "first_that_starts there start (c # cs) =
    (if \<not> there (fst c) then first_that_starts there start cs
     else case start c of Some pid \<Rightarrow> Some (c, pid) | None \<Rightarrow> first_that_starts there start cs)"

section \<open>The dialog\<close>

datatype confirmed = Stop_loop | Power power_action

record pending_confirm =
  child :: int
  stdout_token :: "nat option"
  on_accept :: confirmed
  last_digit :: "u8 option"

datatype did =
  Dialog_shown chars int
| Dialog_killed int
| Dialog_waited int
| Loop_stopped
| Power_run power_action "(command \<times> int) option"

record confirm_wm =
  pending_confirm :: "pending_confirm option"
  log :: "did list"

definition note_done :: "did list \<Rightarrow> confirm_wm \<Rightarrow> confirm_wm" where
  "note_done ds w = w\<lparr> log := log w @ ds \<rparr>"

record confirm_env =
  dialog_starts :: "int option"
  dialog_source :: "nat option"
  found :: "chars \<Rightarrow> bool"
  spawn :: "command \<Rightarrow> int option"

definition run_power_action :: "confirm_env \<Rightarrow> power_action \<Rightarrow> confirm_wm \<Rightarrow> confirm_wm" where
  "run_power_action env a w = note_done [Power_run a (first_that_starts (found env) (spawn env) (candidates a))] w"

definition run_confirmed :: "confirm_env \<Rightarrow> confirmed \<Rightarrow> confirm_wm \<Rightarrow> confirm_wm" where
  "run_confirmed env c w = (case c of Stop_loop \<Rightarrow> note_done [Loop_stopped] w | Power a \<Rightarrow> run_power_action env a w)"

definition confirm_action :: "confirm_env \<Rightarrow> chars \<Rightarrow> confirmed \<Rightarrow> confirm_wm \<Rightarrow> confirm_wm" where
  "confirm_action env ask c w =
    (if pending_confirm w \<noteq> None then w
     else case dialog_starts env of
       None \<Rightarrow> w
     | Some pid \<Rightarrow>
         (let w1 = note_done [Dialog_shown ask pid] w
          in case dialog_source env of
               Some t \<Rightarrow> w1\<lparr> pending_confirm := Some \<lparr> child = pid, stdout_token = Some t, on_accept = c, last_digit = None \<rparr> \<rparr>
             | None \<Rightarrow> note_done [Dialog_killed pid, Dialog_waited pid] w1))"

definition finalize_confirm :: "confirm_env \<Rightarrow> bool \<Rightarrow> confirm_wm \<Rightarrow> confirm_wm" where
  "finalize_confirm env accepted w = (case pending_confirm w of
     None \<Rightarrow> w
   | Some p \<Rightarrow>
       (let w1 = note_done [Dialog_waited (child p)] (w\<lparr> pending_confirm := None \<rparr>)
        in if accepted then run_confirmed env (on_accept p) w1 else w1))"

datatype confirm_read = Chunk bytes | End_of_file | Would_block | Read_failed

text \<open>The last byte that is not a newline, if there is one.\<close>

definition last_printed :: "bytes \<Rightarrow> u8 option" where
  "last_printed bs = find (\<lambda>b. b \<noteq> 10) (rev bs)"

definition remember :: "bytes \<Rightarrow> confirm_wm \<Rightarrow> confirm_wm" where
  "remember bs w = (case (last_printed bs, pending_confirm w) of
     (Some b, Some p) \<Rightarrow> w\<lparr> pending_confirm := Some (p\<lparr> last_digit := Some b \<rparr>) \<rparr>
   | _ \<Rightarrow> w)"

definition accepted :: "confirm_wm \<Rightarrow> bool" where
  "accepted w = (case pending_confirm w of None \<Rightarrow> False | Some p \<Rightarrow> last_digit p = Some 48)"

fun confirm_readable :: "confirm_env \<Rightarrow> confirm_read list \<Rightarrow> confirm_wm \<Rightarrow> confirm_wm" where
  "confirm_readable env [] w = w"
| "confirm_readable env (Chunk bs # rs) w = confirm_readable env rs (remember bs w)"
| "confirm_readable env (End_of_file # rs) w = finalize_confirm env (accepted w) w"
| "confirm_readable env (Would_block # rs) w = w"
| "confirm_readable env (Read_failed # rs) w = finalize_confirm env False w"

definition confirm_power :: "confirm_env \<Rightarrow> power_action \<Rightarrow> confirm_wm \<Rightarrow> confirm_wm" where
  "confirm_power env a w = confirm_action env (prompt a) (Power a) w"

definition confirm_quit :: "confirm_env \<Rightarrow> confirm_wm \<Rightarrow> confirm_wm" where
  "confirm_quit env w = confirm_action env (literal ''Exit shoestring-wm?'') Stop_loop w"

text \<open>Requests over the socket and key bindings come to the same two; the dialog's pipe is readable while it is shown.\<close>

datatype confirm_event = Ask_quit confirm_env | Ask_power confirm_env power_action | Dialog_readable confirm_env "confirm_read list"

fun confirm_step :: "confirm_wm \<Rightarrow> confirm_event \<Rightarrow> confirm_wm" where
  "confirm_step w (Ask_quit env) = confirm_quit env w"
| "confirm_step w (Ask_power env a) = confirm_power env a w"
| "confirm_step w (Dialog_readable env rs) = (if pending_confirm w = None then w else confirm_readable env rs w)"

section \<open>Nothing without a yes\<close>

lemma first_that_starts_spec:
  "first_that_starts there start cs = Some (c, pid) \<longleftrightarrow>
    (\<exists>before after. cs = before @ c # after \<and> there (fst c) \<and> start c = Some pid \<and>
      (\<forall>c' \<in> set before. there (fst c') \<longrightarrow> start c' = None) \<and> c \<notin> set before)"
proof (induction cs)
  case (Cons d ds)
  show ?case
  proof (cases "there (fst d) \<and> start d \<noteq> None")
    case True
    then have "first_that_starts there start (d # ds) = Some (d, the (start d))" by (cases "start d") auto
    moreover have "(\<exists>before after. d # ds = before @ c # after \<and> there (fst c) \<and> start c = Some pid \<and>
        (\<forall>c' \<in> set before. there (fst c') \<longrightarrow> start c' = None) \<and> c \<notin> set before) \<longleftrightarrow> c = d \<and> start d = Some pid"
    proof (intro iffI)
      assume "\<exists>before after. d # ds = before @ c # after \<and> there (fst c) \<and> start c = Some pid \<and>
        (\<forall>c' \<in> set before. there (fst c') \<longrightarrow> start c' = None) \<and> c \<notin> set before"
      then obtain before after where b: "d # ds = before @ c # after" "start c = Some pid"
          "\<forall>c' \<in> set before. there (fst c') \<longrightarrow> start c' = None" by blast
      with True have "before = []" by (cases before) auto
      with b show "c = d \<and> start d = Some pid" by simp
    next
      assume "c = d \<and> start d = Some pid"
      with True show "\<exists>before after. d # ds = before @ c # after \<and> there (fst c) \<and> start c = Some pid \<and>
        (\<forall>c' \<in> set before. there (fst c') \<longrightarrow> start c' = None) \<and> c \<notin> set before"
        by (intro exI [of _ "[]"] exI [of _ ds]) simp
    qed
    ultimately show ?thesis using True by auto
  next
    case False
    then have "first_that_starts there start (d # ds) = first_that_starts there start ds" by auto
    moreover have "(\<exists>before after. d # ds = before @ c # after \<and> there (fst c) \<and> start c = Some pid \<and>
        (\<forall>c' \<in> set before. there (fst c') \<longrightarrow> start c' = None) \<and> c \<notin> set before) \<longleftrightarrow>
      (\<exists>before after. ds = before @ c # after \<and> there (fst c) \<and> start c = Some pid \<and>
        (\<forall>c' \<in> set before. there (fst c') \<longrightarrow> start c' = None) \<and> c \<notin> set before)" (is "?L \<longleftrightarrow> ?R")
    proof
      assume ?L
      then obtain before after where b: "d # ds = before @ c # after" "there (fst c)" "start c = Some pid"
          "\<forall>c' \<in> set before. there (fst c') \<longrightarrow> start c' = None" "c \<notin> set before" by blast
      with False obtain b' where "before = d # b'" by (cases before) auto
      with b show ?R by auto
    next
      assume ?R
      then obtain before after where "ds = before @ c # after" "there (fst c)" "start c = Some pid"
          "\<forall>c' \<in> set before. there (fst c') \<longrightarrow> start c' = None" "c \<notin> set before" by blast
      with False show ?L by (intro exI [of _ "d # before"] exI [of _ after]) auto
    qed
    ultimately show ?thesis using Cons by simp
  qed
qed simp

fun prompt_of :: "confirmed \<Rightarrow> chars" where
  "prompt_of Stop_loop = literal ''Exit shoestring-wm?''"
| "prompt_of (Power a) = prompt a"

fun carries_out :: "confirmed \<Rightarrow> did \<Rightarrow> bool" where
  "carries_out Stop_loop d = (d = Loop_stopped)"
| "carries_out (Power a) (Power_run b r) = (a = b)"
| "carries_out (Power a) d = False"

text \<open>
  What may be on record when no dialog is shown: dialogs that could not be watched and were killed,
  dialogs that were refused, and dialogs followed by the one thing they asked about.
\<close>

inductive settled :: "did list \<Rightarrow> bool" where
  nothing: "settled []"
| killed: "settled ds \<Longrightarrow> settled (ds @ [Dialog_shown q pid, Dialog_killed pid, Dialog_waited pid])"
| refused: "settled ds \<Longrightarrow> settled (ds @ [Dialog_shown q pid, Dialog_waited pid])"
| agreed: "settled ds \<Longrightarrow> carries_out c d \<Longrightarrow> settled (ds @ [Dialog_shown (prompt_of c) pid, Dialog_waited pid, d])"

definition asked_first :: "confirm_wm \<Rightarrow> bool" where
  "asked_first w = (case pending_confirm w of
     None \<Rightarrow> settled (log w)
   | Some p \<Rightarrow> \<exists>ds. settled ds \<and> log w = ds @ [Dialog_shown (prompt_of (on_accept p)) (child p)])"

lemma confirm_action_asked:
  assumes "asked_first w" "q = prompt_of c"
  shows "asked_first (confirm_action env q c w)"
  using assms killed [of "log w" "prompt_of c"]
  by (auto simp: asked_first_def confirm_action_def note_done_def Let_def split: option.splits)

lemma finalize_asked:
  assumes "asked_first w"
  shows "asked_first (finalize_confirm env yes w)"
proof (cases "pending_confirm w")
  case (Some p)
  with assms obtain ds where ds: "settled ds" "log w = ds @ [Dialog_shown (prompt_of (on_accept p)) (child p)]"
    by (auto simp: asked_first_def)
  obtain d where d: "log (run_confirmed env (on_accept p) v) = log v @ [d]" "carries_out (on_accept p) d"
      "pending_confirm (run_confirmed env (on_accept p) v) = pending_confirm v" for v
    by (cases "on_accept p") (auto simp: run_confirmed_def note_done_def run_power_action_def)
  from Some ds d(1,3) show ?thesis
    using refused [OF ds(1)] agreed [OF ds(1) d(2)]
    by (auto simp: asked_first_def finalize_confirm_def note_done_def Let_def)
qed (use assms in \<open>simp add: finalize_confirm_def\<close>)

lemma remember_asked: "asked_first w \<Longrightarrow> asked_first (remember bs w)"
  by (auto simp: asked_first_def remember_def split: option.splits)

lemma readable_asked: "asked_first w \<Longrightarrow> asked_first (confirm_readable env rs w)"
  by (induction env rs w rule: confirm_readable.induct) (auto intro: finalize_asked remember_asked)

lemma step_asked: "asked_first w \<Longrightarrow> asked_first (confirm_step w e)"
  by (cases e) (auto simp: confirm_quit_def confirm_power_def intro: confirm_action_asked readable_asked)

interpretation confirming: stepper confirm_step asked_first "\<lambda>_ _. True"
  by unfold_locales (rule step_asked)


section \<open>The decision\<close>

fun only_chunks :: "confirm_read list \<Rightarrow> bool" where
  "only_chunks [] = True"
| "only_chunks (Chunk bs # rs) = only_chunks rs"
| "only_chunks (Would_block # rs) = True"
| "only_chunks (r # rs) = False"

fun chunks :: "confirm_read list \<Rightarrow> bytes" where
  "chunks (Chunk bs # rs) = bs @ chunks rs"
| "chunks rs = []"

fun still_open :: "confirm_event \<Rightarrow> bool" where
  "still_open (Dialog_readable env rs) = only_chunks rs"
| "still_open e = True"

fun printed :: "confirm_event \<Rightarrow> bytes" where
  "printed (Dialog_readable env rs) = chunks rs"
| "printed e = []"

lemma last_printed_append: "last_printed (xs @ ys) = (case last_printed ys of Some b \<Rightarrow> Some b | None \<Rightarrow> last_printed xs)"
  by (simp add: last_printed_def find_append split: option.split)

text \<open>A dialog that has printed \<open>bs\<close> so far.\<close>

definition has_printed :: "bytes \<Rightarrow> pending_confirm \<Rightarrow> did list \<Rightarrow> confirm_wm \<Rightarrow> bool" where
  "has_printed bs p ds w \<longleftrightarrow> pending_confirm w = Some (p\<lparr> last_digit := last_printed bs \<rparr>) \<and> log w = ds"

lemma remember_printed: "has_printed bs p ds w \<Longrightarrow> has_printed (bs @ cs) p ds (remember cs w)"
  by (auto simp: has_printed_def remember_def last_printed_append split: option.split)

lemma readable_printed:
  "has_printed bs p ds w \<Longrightarrow> only_chunks rs \<Longrightarrow> has_printed (bs @ chunks rs) p ds (confirm_readable env rs w)"
proof (induction rs arbitrary: bs w)
  case (Cons r rs)
  show ?case
  proof (cases r)
    case (Chunk cs)
    with Cons.IH [OF remember_printed [OF Cons.prems(1)]] Cons.prems(2) show ?thesis by simp
  qed (use Cons.prems in auto)
qed simp

lemma step_printed:
  "has_printed bs p ds w \<Longrightarrow> still_open e \<Longrightarrow> has_printed (bs @ printed e) p ds (confirm_step w e)"
proof (cases e)
  case (Dialog_readable env rs)
  assume p: "has_printed bs p ds w" "still_open e"
  then have "pending_confirm w \<noteq> None" by (simp add: has_printed_def)
  with p Dialog_readable readable_printed [of bs p ds w rs env] show ?thesis by auto
qed (auto simp: confirm_quit_def confirm_power_def confirm_action_def has_printed_def)

lemma run_printed:
  "has_printed bs p ds w \<Longrightarrow> list_all still_open es \<Longrightarrow>
    has_printed (bs @ concat (map printed es)) p ds (foldl confirm_step w es)"
proof (induction es arbitrary: bs w)
  case (Cons e es)
  then show ?case using Cons.IH [OF step_printed, of bs w e] by simp
qed simp

text \<open>C39. However its output is cut into reads, and whatever else is asked for meanwhile, a dialog whose pipe ends is waited
  for, and its action is carried out then exactly if the last byte it printed that is not a newline was a zero digit.\<close>

theorem dialog_decides_by_its_last_byte:
  assumes shown: "pending_confirm w = Some p" "last_digit p = None" and es: "list_all still_open es"
    and w': "w' = foldl confirm_step w es"
  shows "confirm_step w' (Dialog_readable env [End_of_file]) =
    (let over = \<lparr> pending_confirm = None, log = log w @ [Dialog_waited (child p)] \<rparr>
     in if last_printed (concat (map printed es)) = Some 48 then run_confirmed env (on_accept p) over else over)"
proof -
  have "has_printed [] p (log w) w" using shown by (simp add: has_printed_def last_printed_def)
  from run_printed [OF this es] w'
  have w'': "w' = \<lparr> pending_confirm = Some (p\<lparr> last_digit := last_printed (concat (map printed es)) \<rparr>), log = log w \<rparr>"
    by (simp add: has_printed_def)
  show ?thesis by (simp add: w'' finalize_confirm_def accepted_def note_done_def Let_def)
qed

definition quiet :: confirm_wm where "quiet = \<lparr> pending_confirm = None, log = [] \<rparr>"

definition usual :: confirm_env where
  "usual = \<lparr> dialog_starts = Some 5, dialog_source = Some 1, found = (\<lambda>p. True), spawn = (\<lambda>c. if fst c = literal ''loginctl'' then Some 6 else None) \<rparr>"


lemma dialog_decides_by_its_last_byte_witness:
  "confirm_step (foldl confirm_step (confirm_step quiet (Ask_power usual Reboot))
       [Ask_quit usual, Dialog_readable usual [Chunk [49], Would_block], Dialog_readable usual [Chunk [48], Chunk [10]]])
     (Dialog_readable usual [End_of_file]) =
   \<lparr> pending_confirm = None, log = [Dialog_shown (prompt Reboot) 5, Dialog_waited 5,
       Power_run Reboot (Some ((literal ''loginctl'', [literal ''reboot'']), 6))] \<rparr>"
proof -
  let ?p = "\<lparr> child = 5, stdout_token = Some 1, on_accept = Power Reboot, last_digit = None \<rparr>"
  have w: "confirm_step quiet (Ask_power usual Reboot) = \<lparr> pending_confirm = Some ?p, log = [Dialog_shown (prompt Reboot) 5] \<rparr>"
    by (simp add: quiet_def usual_def confirm_power_def confirm_action_def note_done_def Let_def)
  have run: "run_confirmed usual (Power Reboot) v =
      v\<lparr> log := log v @ [Power_run Reboot (Some ((literal ''loginctl'', [literal ''reboot'']), 6))] \<rparr>" for v
    by (simp add: run_confirmed_def run_power_action_def note_done_def usual_def)
  show ?thesis
    using dialog_decides_by_its_last_byte [of "confirm_step quiet (Ask_power usual Reboot)" ?p
        "[Ask_quit usual, Dialog_readable usual [Chunk [49], Would_block], Dialog_readable usual [Chunk [48], Chunk [10]]]" _ usual]
    by (simp add: w run last_printed_def Let_def del: confirm_step.simps literal_simps prompt.simps)
qed

end
