(* ===== verification/Gamma.thy ===== *)
theory Gamma
  imports Complex_Main Strings "HOL-Library.AList"
begin

text \<open>
  The colour ramps of the outputs: \<open>src/gamma_control.rs\<close>, its protocol in \<open>src/handlers/gamma_control.rs\<close>, the
  part of \<open>src/backend/udev.rs\<close> that reads, applies and gives back ramps, and the requests of
  \<open>src/ipc.rs\<close>. The display hardware is the ramp each CRTC shows; whether the kernel accepts a ramp and
  lets one be read is an argument, and so are the outputs with their CRTCs. The ramp of a temperature is
  computed in real numbers where the code has \<open>f64\<close>. The machine is little-endian. The controls are a list
  of pairs where the code has a hash map: each has a CRTC of its own, so the order they are visited in does
  not matter.
\<close>

section \<open>Ramps\<close>

record gamma_ramp =
  red :: "u16 list"
  green :: "u16 list"
  blue :: "u16 list"

definition identity_channel :: "nat \<Rightarrow> u16 list" where
  "identity_channel n = (let denom = max (n - 1) 1 in map (\<lambda>i. of_nat (i * 65535 div denom)) [0..<n])"

definition identity_ramp :: "nat \<Rightarrow> gamma_ramp" where
  "identity_ramp n = \<lparr> red = identity_channel n, green = identity_channel n, blue = identity_channel n \<rparr>"

text \<open>The multipliers of red, green and blue at a colour temperature.\<close>

definition clamp01 :: "real \<Rightarrow> real" where
  "clamp01 v = max 0 (min 1 v)"

definition whitepoint :: "u32 \<Rightarrow> real \<times> real \<times> real" where
  "whitepoint temperature =
    (let t = real (unat temperature) / 100;
         r = (if t \<le> 66 then 1 else clamp01 (329.698727446 * (t - 60) powr (-0.1332047592) / 255));
         g = (if t \<le> 66 then clamp01 ((99.4708025861 * ln t - 161.1195681661) / 255)
              else clamp01 (288.1221695283 * (t - 60) powr (-0.0755148492) / 255));
         b = (if t \<ge> 66 then 1 else if t \<le> 19 then 0
              else clamp01 ((138.5177312231 * ln (t - 10) - 305.0447927307) / 255))
     in (r, g, b))"

definition temperature_channel :: "nat \<Rightarrow> real \<Rightarrow> real \<Rightarrow> real \<Rightarrow> u16 list" where
  "temperature_channel n white brightness gamma =
    (let denom = real (max (n - 1) 1)
     in map (\<lambda>i. let v = (real i / denom) powr (1 / gamma); scaled = round (v * brightness * white * 65535)
                 in of_int (max 0 (min 65535 scaled))) [0..<n])"

definition ramp_from_temperature :: "nat \<Rightarrow> u32 \<Rightarrow> real \<Rightarrow> real \<Rightarrow> gamma_ramp" where
  "ramp_from_temperature n temperature brightness gamma =
    (case whitepoint temperature of (wr, wg, wb) \<Rightarrow>
      \<lparr> red = temperature_channel n wr brightness gamma, green = temperature_channel n wg brightness gamma,
        blue = temperature_channel n wb brightness gamma \<rparr>)"

text \<open>A file a client hands over: what \<open>fstat\<close> says of its length, and its bytes when it can be mapped.\<close>

record ramp_file =
  stat_size :: "int option"
  mapped :: "bytes option"

datatype gamma_read_error = Bad_size | Io

fun words_of :: "bytes \<Rightarrow> u16 list" where
  "words_of (a # b # bs) = from_le [a, b] # words_of bs"
| "words_of bs = []"

definition read_ramp_from_fd :: "ramp_file \<Rightarrow> nat \<Rightarrow> gamma_read_error + gamma_ramp" where
  "read_ramp_from_fd f n =
    (let count = n * 3; bytes = count * 2 in
     case stat_size f of
       None \<Rightarrow> Inl Io
     | Some st \<Rightarrow>
         if st < 0 \<or> nat st < bytes then Inl Bad_size
         else (case mapped f of
             None \<Rightarrow> Inl Io
           | Some bs \<Rightarrow>
               (let ws = words_of (take bytes bs); rest = drop n ws
                in Inr \<lparr> red = take n ws, green = take n rest, blue = drop n rest \<rparr>)))"

section \<open>Who has an output's ramp\<close>

text \<open>A CRTC, by its device and its handle there.\<close>

datatype crtc = Crtc nat nat

datatype gamma_owner = Client nat | Ipc

record gamma_control =
  owner :: gamma_owner
  crtc_of :: crtc
  ramp_size :: nat
  original :: gamma_ramp
  current :: "gamma_ramp option"

datatype told = Told_failed nat | Told_size nat nat | Told_invalid nat

record gamma_wm =
  controls :: "(chars \<times> gamma_control) list"
  hardware :: "crtc \<Rightarrow> gamma_ramp"
  vt_active :: bool
  told :: "told list"

text \<open>What is outside: the outputs in order with their CRTC and its size, and what the kernel answers.\<close>

record gamma_env =
  outputs :: "chars list"
  gamma_target_for_output :: "chars \<Rightarrow> (crtc \<times> nat) option"
  accepts :: "crtc \<Rightarrow> bool"
  readable :: "crtc \<Rightarrow> bool"

definition is_client :: "nat \<Rightarrow> gamma_owner \<Rightarrow> bool" where
  "is_client r o' = (o' = Client r)"

definition tell :: "told list \<Rightarrow> gamma_wm \<Rightarrow> gamma_wm" where
  "tell ts w = w\<lparr> told := told w @ ts \<rparr>"

definition read_gamma :: "gamma_env \<Rightarrow> crtc \<Rightarrow> gamma_wm \<Rightarrow> gamma_ramp option" where
  "read_gamma env c w = (if readable env c then Some (hardware w c) else None)"

definition apply_gamma :: "gamma_env \<Rightarrow> crtc \<Rightarrow> gamma_ramp \<Rightarrow> gamma_wm \<Rightarrow> bool \<times> gamma_wm" where
  "apply_gamma env c ramp w =
    (if \<not> vt_active w then (True, w)
     else if accepts env c then (True, w\<lparr> hardware := (hardware w)(c := ramp) \<rparr>)
     else (False, w))"

definition reapply_all_gamma :: "gamma_env \<Rightarrow> gamma_wm \<Rightarrow> gamma_wm" where
  "reapply_all_gamma env w = foldl (\<lambda>w (name, c). case current c of
     None \<Rightarrow> w | Some ramp \<Rightarrow> snd (apply_gamma env (crtc_of c) ramp w)) w (controls w)"

definition release_gamma_control :: "gamma_env \<Rightarrow> chars \<Rightarrow> nat \<Rightarrow> gamma_wm \<Rightarrow> gamma_wm" where
  "release_gamma_control env name r w = (case map_of (controls w) name of
     None \<Rightarrow> w
   | Some c \<Rightarrow>
       if is_client r (owner c)
       then snd (apply_gamma env (crtc_of c) (original c) (w\<lparr> controls := AList.delete name (controls w) \<rparr>))
       else w)"

text \<open>The previous owner is told that it lost the output, and the ramp from before all of them is passed on.\<close>

definition take_over :: "gamma_env \<Rightarrow> chars \<Rightarrow> crtc \<Rightarrow> nat \<Rightarrow> gamma_wm \<Rightarrow> gamma_ramp \<times> gamma_wm" where
  "take_over env name c n w = (case map_of (controls w) name of
     Some old \<Rightarrow> (original old, (case owner old of Client r \<Rightarrow> tell [Told_failed r] | Ipc \<Rightarrow> id)
                                (w\<lparr> controls := AList.delete name (controls w) \<rparr>))
   | None \<Rightarrow> (case read_gamma env c w of Some ramp \<Rightarrow> ramp | None \<Rightarrow> identity_ramp n, w))"

definition create_control :: "gamma_env \<Rightarrow> nat \<Rightarrow> chars option \<Rightarrow> gamma_wm \<Rightarrow> gamma_wm" where
  "create_control env r out w = (case Option.bind out (gamma_target_for_output env) of
     None \<Rightarrow> tell [Told_failed r] w
   | Some (c, n) \<Rightarrow>
       (let name = the out; (orig, w1) = take_over env name c n w
        in tell [Told_size r n] (w1\<lparr> controls := AList.update name
             \<lparr> owner = Client r, crtc_of = c, ramp_size = n, original = orig, current = None \<rparr> (controls w1) \<rparr>)))"

text \<open>\<open>name\<close> is the output the control was made for.\<close>

definition set_gamma :: "gamma_env \<Rightarrow> nat \<Rightarrow> chars \<Rightarrow> ramp_file \<Rightarrow> gamma_wm \<Rightarrow> gamma_wm" where
  "set_gamma env r name f w = (case map_of (controls w) name of
     None \<Rightarrow> w
   | Some c \<Rightarrow>
       if \<not> is_client r (owner c) then w
       else (case read_ramp_from_fd f (ramp_size c) of
           Inr ramp \<Rightarrow>
             (case apply_gamma env (crtc_of c) ramp w of
                (True, w1) \<Rightarrow> w1\<lparr> controls := AList.update name (c\<lparr> current := Some ramp \<rparr>) (controls w1) \<rparr>
              | (False, w1) \<Rightarrow> release_gamma_control env name r (tell [Told_failed r] w1))
         | Inl Bad_size \<Rightarrow> tell [Told_invalid r] w
         | Inl Io \<Rightarrow> release_gamma_control env name r (tell [Told_failed r] w)))"

section \<open>Ramps set over the socket\<close>

definition set_one :: "gamma_env \<Rightarrow> (nat \<Rightarrow> gamma_ramp) \<Rightarrow> nat \<times> gamma_wm \<Rightarrow> chars \<times> crtc \<times> nat \<Rightarrow> nat \<times> gamma_wm" where
  "set_one env ramp_for = (\<lambda>(applied, w) (name, c, n).
     let ramp = ramp_for n; (orig, w1) = take_over env name c n w; (ok, w2) = apply_gamma env c ramp w1
     in (if ok then applied + 1 else applied,
         w2\<lparr> controls := AList.update name
           \<lparr> owner = Ipc, crtc_of = c, ramp_size = n, original = orig, current = Some ramp \<rparr> (controls w2) \<rparr>))"

definition targets :: "gamma_env \<Rightarrow> chars option \<Rightarrow> (chars \<times> crtc \<times> nat) list" where
  "targets env only = concat (map (\<lambda>out. if only = None \<or> only = Some out
     then (case gamma_target_for_output env out of None \<Rightarrow> [] | Some (c, n) \<Rightarrow> [(out, c, n)]) else []) (outputs env))"

datatype gamma_error = Temperature_range | Brightness_range | Gamma_range | No_output | Rejected

definition set_gamma_ipc ::
  "gamma_env \<Rightarrow> chars option \<Rightarrow> u32 \<Rightarrow> real \<Rightarrow> real \<Rightarrow> gamma_wm \<Rightarrow> (gamma_error + nat) \<times> gamma_wm" where
  "set_gamma_ipc env only temperature brightness gamma w =
    (if \<not> (1000 \<le> temperature \<and> temperature \<le> 25000) then (Inl Temperature_range, w)
     else if \<not> (1/10 \<le> brightness \<and> brightness \<le> 1) then (Inl Brightness_range, w)
     else if \<not> (1/10 \<le> gamma \<and> gamma \<le> 10) then (Inl Gamma_range, w)
     else if targets env only = [] then (Inl No_output, w)
     else
       (let (applied, w1) = foldl (set_one env (\<lambda>n. ramp_from_temperature n temperature brightness gamma))
              (0, w) (targets env only)
        in (if applied = 0 then Inl Rejected else Inr applied, w1)))"

definition set_gamma_request ::
  "gamma_env \<Rightarrow> chars option \<Rightarrow> u32 \<Rightarrow> real option \<Rightarrow> real option \<Rightarrow> gamma_wm \<Rightarrow> gamma_error option \<times> gamma_wm" where
  "set_gamma_request env only temperature brightness gamma w =
    (case set_gamma_ipc env only temperature (case brightness of Some b \<Rightarrow> b | None \<Rightarrow> 1)
            (case gamma of Some g \<Rightarrow> g | None \<Rightarrow> 1) w of
       (Inr n, w1) \<Rightarrow> (None, w1)
     | (Inl e, w1) \<Rightarrow> (Some e, w1))"

definition reset_one :: "gamma_env \<Rightarrow> gamma_wm \<Rightarrow> chars \<Rightarrow> gamma_wm" where
  "reset_one env w name = (case map_of (controls w) name of
     None \<Rightarrow> w
   | Some c \<Rightarrow> snd (apply_gamma env (crtc_of c) (original c) (w\<lparr> controls := AList.delete name (controls w) \<rparr>)))"

definition ipc_names :: "chars option \<Rightarrow> gamma_wm \<Rightarrow> chars list" where
  "ipc_names only w = map fst (filter (\<lambda>(name, c). owner c = Ipc \<and> (only = None \<or> only = Some name)) (controls w))"

definition reset_gamma_ipc :: "gamma_env \<Rightarrow> chars option \<Rightarrow> gamma_wm \<Rightarrow> gamma_wm" where
  "reset_gamma_ipc env only w = foldl (reset_one env) w (ipc_names only w)"

section \<open>Everything that happens\<close>

text \<open>Leaving the virtual terminal puts whatever the other session wants on the screen; coming back finds what the switch left.\<close>

datatype gamma_event =
  Get_control gamma_env nat "chars option"
| Client_sets gamma_env nat chars ramp_file
| Control_destroyed gamma_env nat chars
| Ipc_sets gamma_env "chars option" u32 "real option" "real option"
| Ipc_resets gamma_env "chars option"
| Vt_leaves "crtc \<Rightarrow> gamma_ramp"
| Vt_returns gamma_env "crtc \<Rightarrow> gamma_ramp"

fun gamma_step :: "gamma_wm \<Rightarrow> gamma_event \<Rightarrow> gamma_wm" where
  "gamma_step w (Get_control env r out) = create_control env r out w"
| "gamma_step w (Client_sets env r name f) = set_gamma env r name f w"
| "gamma_step w (Control_destroyed env r name) = release_gamma_control env name r w"
| "gamma_step w (Ipc_sets env only t b g) = snd (set_gamma_request env only t b g w)"
| "gamma_step w (Ipc_resets env only) = reset_gamma_ipc env only w"
| "gamma_step w (Vt_leaves h) = w\<lparr> vt_active := False, hardware := h \<rparr>"
| "gamma_step w (Vt_returns env h) = reapply_all_gamma env (w\<lparr> vt_active := True, hardware := h \<rparr>)"

section \<open>Files\<close>

definition bytes_of :: "u16 list \<Rightarrow> bytes" where
  "bytes_of ws = concat (map (to_le 2) ws)"

lemma words_of_bytes_of: "words_of (bytes_of ws @ bs) = ws @ words_of bs"
proof (induction ws)
  case (Cons v ws)
  have "length (to_le 2 v) = Suc (Suc 0)" by (simp add: to_le_def)
  then obtain a b where ab: "to_le 2 v = [a, b]" by (auto simp only: length_Suc_conv length_0_conv)
  have "from_le (to_le 2 v) = v" by (rule from_le_to_le) simp
  then have "from_le [a, b] = v" using ab by simp
  with Cons ab show ?case by (simp add: bytes_of_def)
qed (simp add: bytes_of_def)

lemma length_bytes_of: "length (bytes_of ws) = 2 * length ws"
  by (induction ws) (simp_all add: bytes_of_def to_le_def)

text \<open>A table with its three channels one after the other is read back, whatever follows it in the file.\<close>

lemma table_is_read_back:
  assumes "length r = n" "length g = n" "length b = n"
    "stat_size f = Some (int (6 * n + length rest))" "mapped f = Some (bytes_of (r @ g @ b) @ rest)"
  shows "read_ramp_from_fd f n = Inr \<lparr> red = r, green = g, blue = b \<rparr>"
proof -
  have "take (n * 3 * 2) (bytes_of (r @ g @ b) @ rest) = bytes_of (r @ g @ b)"
    using assms(1-3) by (simp add: length_bytes_of)
  moreover have "words_of (bytes_of (r @ g @ b)) = r @ g @ b" using words_of_bytes_of [of "r @ g @ b" "[]"] by simp
  ultimately show ?thesis using assms by (simp add: read_ramp_from_fd_def Let_def)
qed

lemma short_table_is_rejected:
  "stat_size f = Some st \<Longrightarrow> st < int (6 * n) \<Longrightarrow> read_ramp_from_fd f n = Inl Bad_size"
  by (auto simp: read_ramp_from_fd_def Let_def)

lemma identity_spans_the_range:
  assumes "2 \<le> n"
  shows "length (identity_channel n) = n" "identity_channel n ! 0 = 0" "identity_channel n ! (n - 1) = 65535"
    and "i \<le> j \<Longrightarrow> j < n \<Longrightarrow> identity_channel n ! i \<le> identity_channel n ! j"
proof -
  show "length (identity_channel n) = n" "identity_channel n ! 0 = 0" using assms by (simp_all add: identity_channel_def)
  have [simp]: "max (n - 1) 1 = n - 1" using assms by simp
  show "identity_channel n ! (n - 1) = 65535" using assms by (simp add: identity_channel_def Let_def del: One_nat_def)
  assume ij: "i \<le> j" "j < n"
  have le: "k * 65535 div (n - 1) \<le> 65535" if "k < n" for k
  proof -
    have "k * 65535 div (n - 1) \<le> (n - 1) * 65535 div (n - 1)" using that by (intro div_le_mono mult_le_mono) auto
    with assms show ?thesis by simp
  qed
  have nth: "identity_channel n ! k = of_nat (k * 65535 div (n - 1))" if "k < n" for k
    using that by (simp add: identity_channel_def Let_def del: One_nat_def)
  have "i * 65535 div (n - 1) \<le> j * 65535 div (n - 1)" using ij by (intro div_le_mono mult_le_mono) auto
  with le [of i] le [of j] ij show "identity_channel n ! i \<le> identity_channel n ! j"
    by (simp add: nth word_le_nat_alt unat_of_nat)
qed

text \<open>A ramp never goes down, and up to 6600 K red is the brightest channel throughout.\<close>

lemma clamped_word_mono:
  assumes "x \<le> y"
  shows "(of_int (max 0 (min 65535 x)) :: u16) \<le> of_int (max 0 (min 65535 y))"
proof -
  have u: "uint (of_int (max 0 (min 65535 z)) :: u16) = max 0 (min 65535 z)" for z :: int
    by (simp add: uint_word_of_int)
  show ?thesis using assms unfolding word_le_def u by linarith
qed

lemma temperature_channel_mono:
  assumes "0 \<le> white" "white \<le> white'" "0 \<le> brightness" "0 < gamma" "i \<le> j" "j < n"
  shows "temperature_channel n white brightness gamma ! i \<le> temperature_channel n white' brightness gamma ! j"
proof -
  let ?v = "\<lambda>i. (real i / real (max (n - 1) 1)) powr (1 / gamma)"
  have "?v i \<le> ?v j" using assms by (intro powr_mono2 divide_right_mono) auto
  then have "?v i * brightness * white * 65535 \<le> ?v j * brightness * white' * 65535"
    using assms by (intro mult_mono) auto
  then show ?thesis using assms unfolding temperature_channel_def Let_def by (simp add: clamped_word_mono round_mono)
qed

lemma whitepoint_bounds: "whitepoint t = (r, g, b) \<Longrightarrow> 0 \<le> r \<and> r \<le> 1 \<and> 0 \<le> g \<and> g \<le> 1 \<and> 0 \<le> b \<and> b \<le> 1"
  by (auto simp: whitepoint_def clamp01_def Let_def)

lemma warm_light_is_led_by_red:
  assumes "unat t \<le> 6600" "0 \<le> brightness" "0 < gamma" "i < n"
  defines "ramp \<equiv> ramp_from_temperature n t brightness gamma"
  shows "green ramp ! i \<le> red ramp ! i" "blue ramp ! i \<le> red ramp ! i"
proof -
  obtain r g b where w: "whitepoint t = (r, g, b)" by (cases "whitepoint t")
  have "real (unat t) / 100 \<le> 66" using assms(1) by linarith
  then have "r = 1" using w unfolding whitepoint_def Let_def by simp
  with whitepoint_bounds [OF w] w assms show "green ramp ! i \<le> red ramp ! i" "blue ramp ! i \<le> red ramp ! i"
    by (auto simp: ramp_def ramp_from_temperature_def intro!: temperature_channel_mono)
qed

section \<open>What an output shows\<close>

text \<open>
  The outputs have CRTCs of their own; every control remembers the ramp its output showed before all
  controls; and on the own terminal an output without a control shows that ramp, one with a control the
  ramp last set.
\<close>

definition gamma_ok :: "(chars \<Rightarrow> (crtc \<times> nat) option) \<Rightarrow> (crtc \<Rightarrow> gamma_ramp) \<Rightarrow> gamma_wm \<Rightarrow> bool" where
  "gamma_ok tgt base w \<longleftrightarrow>
    (\<forall>a b c n m. tgt a = Some (c, n) \<longrightarrow> tgt b = Some (c, m) \<longrightarrow> a = b) \<and>
    (\<forall>name c. map_of (controls w) name = Some c \<longrightarrow>
       tgt name = Some (crtc_of c, ramp_size c) \<and> original c = base (crtc_of c)) \<and>
    distinct (map fst (controls w)) \<and>
    (vt_active w \<longrightarrow> (\<forall>name c n. tgt name = Some (c, n) \<longrightarrow>
       (map_of (controls w) name = None \<longrightarrow> hardware w c = base c) \<and>
       (\<forall>k ramp. map_of (controls w) name = Some k \<longrightarrow> current k = Some ramp \<longrightarrow> hardware w c = ramp)))"

definition kernel_ok :: "(chars \<Rightarrow> (crtc \<times> nat) option) \<Rightarrow> gamma_env \<Rightarrow> bool" where
  "kernel_ok tgt env \<longleftrightarrow> gamma_target_for_output env = tgt \<and> (\<forall>c. accepts env c \<and> readable env c)"

text \<open>Ramps are taken over on the own terminal, the kernel does as it is told, and a switch back finds the ramps of the start.\<close>

fun gamma_admissible ::
  "(chars \<Rightarrow> (crtc \<times> nat) option) \<Rightarrow> (crtc \<Rightarrow> gamma_ramp) \<Rightarrow> gamma_wm \<Rightarrow> gamma_event \<Rightarrow> bool" where
  "gamma_admissible tgt base w (Get_control env r out) = (kernel_ok tgt env \<and> vt_active w)"
| "gamma_admissible tgt base w (Client_sets env r name f) = kernel_ok tgt env"
| "gamma_admissible tgt base w (Control_destroyed env r name) = kernel_ok tgt env"
| "gamma_admissible tgt base w (Ipc_sets env only t b g) = (kernel_ok tgt env \<and> vt_active w)"
| "gamma_admissible tgt base w (Ipc_resets env only) = kernel_ok tgt env"
| "gamma_admissible tgt base w (Vt_leaves h) = True"
| "gamma_admissible tgt base w (Vt_returns env h) = (kernel_ok tgt env \<and> h = base)"

lemma told_kept [simp]:
  "controls (tell ts w) = controls w" "hardware (tell ts w) = hardware w" "vt_active (tell ts w) = vt_active w"
  "gamma_ok tgt base (tell ts w) = gamma_ok tgt base w"
  by (simp_all add: tell_def gamma_ok_def)

lemma map_delete [simp]: "map_of (AList.delete k xs) j = (if j = k then None else map_of xs j)"
  by (simp add: delete_conv')

lemma map_update [simp]: "map_of (AList.update k v xs) j = (if j = k then Some v else map_of xs j)"
  by (simp add: update_conv')

declare map_of_eq_Some_iff [simp del]

lemma gamma_okD:
  assumes "gamma_ok tgt base w"
  shows "tgt a = Some (c, n) \<Longrightarrow> tgt b = Some (c, m) \<Longrightarrow> a = b"
    and "map_of (controls w) name = Some k \<Longrightarrow> tgt name = Some (crtc_of k, ramp_size k)"
    and "map_of (controls w) name = Some k \<Longrightarrow> original k = base (crtc_of k)"
    and "distinct (map fst (controls w))"
    and "vt_active w \<Longrightarrow> tgt name = Some (c, n) \<Longrightarrow> map_of (controls w) name = None \<Longrightarrow> hardware w c = base c"
    and "vt_active w \<Longrightarrow> tgt name = Some (c, n) \<Longrightarrow> map_of (controls w) name = Some k \<Longrightarrow> current k = Some ramp \<Longrightarrow>
      hardware w c = ramp"
  using assms unfolding gamma_ok_def by blast+

lemma give_back_ok:
  assumes ok: "gamma_ok tgt base w" and k: "map_of (controls w) name = Some c" and env: "kernel_ok tgt env"
  shows "gamma_ok tgt base (snd (apply_gamma env (crtc_of c) (original c) (w\<lparr> controls := AList.delete name (controls w) \<rparr>)))"
proof -
  have t: "tgt name = Some (crtc_of c, ramp_size c)" "original c = base (crtc_of c)" using ok k by (auto simp: gamma_ok_def)
  have inj: "a = name" if "tgt a = Some (crtc_of c, n)" for a n using ok t(1) that by (auto simp: gamma_ok_def)
  show ?thesis
    using ok env t inj by (auto simp: gamma_ok_def apply_gamma_def kernel_ok_def distinct_delete split: option.splits)
qed

lemma release_ok: "gamma_ok tgt base w \<Longrightarrow> kernel_ok tgt env \<Longrightarrow> gamma_ok tgt base (release_gamma_control env name r w)"
  by (auto simp: release_gamma_control_def intro: give_back_ok split: option.split)

text \<open>Taking over: the ramp passed on is that of the start, and nothing changes but the control.\<close>

lemma take_over_ok:
  assumes ok: "gamma_ok tgt base w" and t: "tgt name = Some (c, n)" and env: "kernel_ok tgt env" and vt: "vt_active w"
    and w1: "take_over env name c n w = (orig, w1)"
  shows "orig = base c" "hardware w1 = hardware w" "vt_active w1 = vt_active w"
    "map_of (controls w1) = (map_of (controls w))(name := None)" "distinct (map fst (controls w1))"
    "a \<noteq> name \<Longrightarrow> map_of (controls w1) a = map_of (controls w) a"
proof -
  have "orig = base c \<and> hardware w1 = hardware w \<and> vt_active w1 = vt_active w \<and>
      map_of (controls w1) = (map_of (controls w))(name := None) \<and> distinct (map fst (controls w1))"
  proof (cases "map_of (controls w) name")
    case None
    have "hardware w c = base c" by (rule gamma_okD(5) [OF ok vt t None])
    with None w1 env gamma_okD(4) [OF ok] show ?thesis
      by (auto simp: take_over_def read_gamma_def kernel_ok_def)
  next
    case (Some old)
    have "original old = base c" using gamma_okD(2,3) [OF ok Some] t by simp
    with Some w1 gamma_okD(4) [OF ok] show ?thesis
      by (auto simp: take_over_def distinct_delete fun_eq_iff split: gamma_owner.splits)
  qed
  then show "orig = base c" "hardware w1 = hardware w" "vt_active w1 = vt_active w"
    "map_of (controls w1) = (map_of (controls w))(name := None)" "distinct (map fst (controls w1))"
    "a \<noteq> name \<Longrightarrow> map_of (controls w1) a = map_of (controls w) a" by auto
qed

lemma own_ok:
  assumes ok: "gamma_ok tgt base w" and t: "tgt name = Some (c, n)"
    and w1: "\<And>a. a \<noteq> name \<Longrightarrow> map_of (controls w1) a = map_of (controls w) a" "distinct (map fst (controls w1))"
      "vt_active w \<Longrightarrow> hardware w1 = (case cur of None \<Rightarrow> hardware w | Some ramp \<Rightarrow> (hardware w)(c := ramp))"
      "vt_active w1 = vt_active w"
    and k: "crtc_of k = c" "ramp_size k = n" "original k = base c" "current k = cur"
  shows "gamma_ok tgt base (w1\<lparr> controls := AList.update name k (controls w1) \<rparr>)" (is "gamma_ok tgt base ?w")
proof -
  note D = gamma_okD [OF ok]
  have m: "map_of (controls ?w) a = (if a = name then Some k else map_of (controls w) a)" for a by (simp add: w1(1))
  have hw: "hardware ?w c' = hardware w c'" if "c' \<noteq> c" "vt_active w" for c' using that w1(3) by (simp split: option.splits)
  have hc: "hardware ?w c = ramp" if "cur = Some ramp" "vt_active w" for ramp using that w1(3) by simp
  have other: "c' \<noteq> c" if "a \<noteq> name" "tgt a = Some (c', m)" for a c' m using D(1) [of a c m name n] t that by blast
  have 2: "tgt a = Some (crtc_of k', ramp_size k') \<and> original k' = base (crtc_of k')" if "map_of (controls ?w) a = Some k'" for a k'
    using that D(2,3) [of a k'] t k unfolding m by (cases "a = name") auto
  have 4: "distinct (map fst (controls ?w))" using w1(2) by (simp add: distinct_update)
  have 5: "hardware ?w c' = base c'" if "vt_active ?w" "tgt a = Some (c', m)" "map_of (controls ?w) a = None" for a c' m
    using that D(5) [of a c' m] other [of a c' m] hw [of c'] w1(4) unfolding m by (cases "a = name") auto
  have 6: "hardware ?w c' = ramp"
    if "vt_active ?w" "tgt a = Some (c', m)" "map_of (controls ?w) a = Some k'" "current k' = Some ramp" for a c' m k' ramp
  proof (cases "a = name")
    case True
    with that t k hc w1(4) show ?thesis unfolding m by simp
  next
    case False
    with that D(6) [of a c' m k' ramp] other [of a c' m] hw [of c'] w1(4) show ?thesis unfolding m by simp
  qed
  show ?thesis unfolding gamma_ok_def using D(1) 2 4 5 6 by blast
qed

lemma create_ok:
  assumes ok: "gamma_ok tgt base w" and env: "kernel_ok tgt env" and vt: "vt_active w"
  shows "gamma_ok tgt base (create_control env r out w)"
proof (cases "Option.bind out tgt")
  case (Some cn)
  obtain c n where cn: "cn = (c, n)" by (cases cn)
  obtain name where name: "out = Some name" "tgt name = Some (c, n)" using Some cn by (cases out) auto
  obtain orig w1 where w1: "take_over env name c n w = (orig, w1)" by fastforce
  note t = take_over_ok [OF ok name(2) env vt w1]
  have "gamma_ok tgt base (w1\<lparr> controls := AList.update name
      \<lparr> owner = Client r, crtc_of = c, ramp_size = n, original = orig, current = None \<rparr> (controls w1) \<rparr>)"
    by (rule own_ok [OF ok name(2), of _ None]) (simp_all add: t)
  with env name w1 show ?thesis by (simp add: create_control_def kernel_ok_def)
qed (use ok env in \<open>simp add: create_control_def kernel_ok_def\<close>)

lemma set_one_ok:
  assumes ok: "gamma_ok tgt base w" and env: "kernel_ok tgt env" and vt: "vt_active w" and t: "tgt name = Some (c, n)"
    and w': "set_one env ramp_for (k, w) (name, c, n) = (k', w')"
  shows "gamma_ok tgt base w' \<and> vt_active w'"
proof -
  obtain orig w1 where w1: "take_over env name c n w = (orig, w1)" by fastforce
  note t1 = take_over_ok [OF ok t env vt w1]
  let ?w2 = "w1\<lparr> hardware := (hardware w1)(c := ramp_for n) \<rparr>"
  have a: "apply_gamma env c (ramp_for n) w1 = (True, ?w2)" using env vt t1 by (simp add: apply_gamma_def kernel_ok_def)
  have "gamma_ok tgt base (?w2\<lparr> controls := AList.update name
      \<lparr> owner = Ipc, crtc_of = c, ramp_size = n, original = orig, current = Some (ramp_for n) \<rparr> (controls ?w2) \<rparr>)"
    by (rule own_ok [OF ok t, of _ "Some (ramp_for n)"]) (simp_all add: t1)
  with w' w1 a vt t1 show ?thesis by (auto simp: set_one_def Let_def)
qed

lemma set_gamma_ok:
  assumes ok: "gamma_ok tgt base w" and env: "kernel_ok tgt env"
  shows "gamma_ok tgt base (set_gamma env r name f w)"
proof (cases "map_of (controls w) name")
  case (Some k)
  note D = gamma_okD [OF ok]
  show ?thesis
  proof (cases "is_client r (owner k)")
    case own: True
    show ?thesis
    proof (cases "read_ramp_from_fd f (ramp_size k)")
      case (Inl e)
      with Some own ok env show ?thesis by (cases e) (simp_all add: set_gamma_def release_ok)
    next
      case (Inr ramp)
      define w1 where "w1 = snd (apply_gamma env (crtc_of k) ramp w)"
      have a: "apply_gamma env (crtc_of k) ramp w = (True, w1)" "controls w1 = controls w" "vt_active w1 = vt_active w"
        "vt_active w \<Longrightarrow> hardware w1 = (hardware w)(crtc_of k := ramp)"
        using env by (simp_all add: w1_def apply_gamma_def kernel_ok_def)
      have "gamma_ok tgt base (w1\<lparr> controls := AList.update name (k\<lparr> current := Some ramp \<rparr>) (controls w1) \<rparr>)"
        by (rule own_ok [OF ok D(2) [OF Some], of _ "Some ramp"]) (simp_all add: a D(4) D(3) [OF Some])
      with Some own Inr a(1) show ?thesis by (simp add: set_gamma_def)
    qed
  qed (use Some ok in \<open>simp add: set_gamma_def\<close>)
qed (use ok in \<open>simp add: set_gamma_def\<close>)

lemma in_targets: "(name, c, n) \<in> set (targets env only) \<Longrightarrow> gamma_target_for_output env name = Some (c, n)"
  by (auto simp: targets_def split: if_splits option.splits)

lemma set_all_ok:
  assumes "gamma_ok tgt base w" "kernel_ok tgt env" "vt_active w" "\<And>name c n. (name, c, n) \<in> set ts \<Longrightarrow> tgt name = Some (c, n)"
    and "foldl (set_one env ramp_for) (k, w) ts = (k', w')"
  shows "gamma_ok tgt base w'"
  using assms
proof (induction ts arbitrary: k w)
  case (Cons t ts)
  obtain name c n where t: "t = (name, c, n)" by (cases t)
  obtain k1 w1 where s: "set_one env ramp_for (k, w) (name, c, n) = (k1, w1)" by fastforce
  have "gamma_ok tgt base w1 \<and> vt_active w1" by (rule set_one_ok [OF Cons.prems(1-3) _ s]) (simp add: Cons.prems(4) t)
  with Cons.IH [of w1 k1] Cons.prems t s show ?case by simp
qed simp

lemma ipc_set_ok:
  assumes "gamma_ok tgt base w" "kernel_ok tgt env" "vt_active w"
  shows "gamma_ok tgt base (snd (set_gamma_ipc env only t b g w))"
proof -
  obtain k w1 where f: "foldl (set_one env (\<lambda>n. ramp_from_temperature n t b g)) (0, w) (targets env only) = (k, w1)" by fastforce
  have "gamma_ok tgt base w1"
    using assms by (intro set_all_ok [OF assms _ f]) (auto dest: in_targets simp: kernel_ok_def)
  with f assms(1) show ?thesis by (simp add: set_gamma_ipc_def)
qed

lemma request_state: "snd (set_gamma_request env only t b g w) =
    snd (set_gamma_ipc env only t (case b of Some b \<Rightarrow> b | None \<Rightarrow> 1) (case g of Some g \<Rightarrow> g | None \<Rightarrow> 1) w)"
  by (simp add: set_gamma_request_def split: prod.split sum.split)

lemma reset_ok: "gamma_ok tgt base w \<Longrightarrow> kernel_ok tgt env \<Longrightarrow> gamma_ok tgt base (foldl (reset_one env) w names)"
  by (induction names arbitrary: w) (auto simp: reset_one_def give_back_ok split: option.splits)

lemma reapply_shows:
  assumes "kernel_ok tgt env" "vt_active w" "distinct (map (\<lambda>(name, k). crtc_of k) cs)"
  defines "f \<equiv> \<lambda>w (name, k). case current k of None \<Rightarrow> w | Some ramp \<Rightarrow> snd (apply_gamma env (crtc_of k) ramp w)"
  shows "controls (foldl f w cs) = controls w" "vt_active (foldl f w cs)"
    "(\<And>name k. (name, k) \<in> set cs \<Longrightarrow> crtc_of k \<noteq> c) \<Longrightarrow> hardware (foldl f w cs) c = hardware w c"
    "(name, k) \<in> set cs \<Longrightarrow> current k = Some ramp \<Longrightarrow> hardware (foldl f w cs) (crtc_of k) = ramp"
proof -
  have "controls (foldl f w cs) = controls w \<and> vt_active (foldl f w cs) \<and>
      (\<forall>c. (\<forall>name k. (name, k) \<in> set cs \<longrightarrow> crtc_of k \<noteq> c) \<longrightarrow> hardware (foldl f w cs) c = hardware w c) \<and>
      (\<forall>name k ramp. (name, k) \<in> set cs \<longrightarrow> current k = Some ramp \<longrightarrow> hardware (foldl f w cs) (crtc_of k) = ramp)"
    using assms(2,3)
  proof (induction cs arbitrary: w)
    case (Cons nk cs)
    obtain name k where nk: "nk = (name, k)" by (cases nk)
    have f1: "controls (f w nk) = controls w" "vt_active (f w nk)" "\<And>c. crtc_of k \<noteq> c \<Longrightarrow> hardware (f w nk) c = hardware w c"
      "\<And>ramp. current k = Some ramp \<Longrightarrow> hardware (f w nk) (crtc_of k) = ramp"
      using assms(1) Cons.prems(1) nk by (simp_all add: f_def apply_gamma_def kernel_ok_def split: option.split)
    have "\<forall>(name', k') \<in> set cs. crtc_of k' \<noteq> crtc_of k" using Cons.prems(2) nk by force
    with Cons.IH [OF f1(2)] Cons.prems(2) nk f1 show ?case by (auto 0 3)
  qed simp
  then show "controls (foldl f w cs) = controls w" "vt_active (foldl f w cs)"
    "(\<And>name k. (name, k) \<in> set cs \<Longrightarrow> crtc_of k \<noteq> c) \<Longrightarrow> hardware (foldl f w cs) c = hardware w c"
    "(name, k) \<in> set cs \<Longrightarrow> current k = Some ramp \<Longrightarrow> hardware (foldl f w cs) (crtc_of k) = ramp"
    by blast+
qed

lemma controls_have_own_crtcs:
  assumes "gamma_ok tgt base w"
  shows "distinct (map (\<lambda>(name, k). crtc_of k) (controls w))"
proof -
  note D = gamma_okD [OF assms]
  have "a = b \<and> k = l" if "(a, k) \<in> set (controls w)" "(b, l) \<in> set (controls w)" "crtc_of k = crtc_of l" for a b k l
  proof -
    have m: "map_of (controls w) a = Some k" "map_of (controls w) b = Some l" using that D(4) by simp_all
    then have "a = b" using D(1) [of a _ _ b] D(2) that(3) by metis
    with m show ?thesis by simp
  qed
  moreover have "distinct (controls w)" using D(4) by (simp add: distinct_map)
  ultimately show ?thesis by (auto simp: distinct_map inj_on_def)
qed

lemma reapply_ok:
  assumes ok: "gamma_ok tgt base w" and env: "kernel_ok tgt env"
  shows "gamma_ok tgt base (reapply_all_gamma env (w\<lparr> vt_active := True, hardware := base \<rparr>))"
proof -
  note D = gamma_okD [OF ok]
  let ?here = "w\<lparr> vt_active := True, hardware := base \<rparr>"
  let ?w = "reapply_all_gamma env ?here"
  have vt: "vt_active ?here" and dc: "distinct (map (\<lambda>(name, k). crtc_of k) (controls w))"
    using controls_have_own_crtcs [OF ok] by simp_all
  note R = reapply_shows [OF env vt dc, folded reapply_all_gamma_def]
  have w: "?w = foldl (\<lambda>w (name, k). case current k of None \<Rightarrow> w | Some ramp \<Rightarrow> snd (apply_gamma env (crtc_of k) ramp w)) ?here (controls w)"
    by (simp add: reapply_all_gamma_def)
  have c: "controls ?w = controls w" unfolding w using R(1) by simp
  have none: "hardware ?w c = base c" if "tgt name = Some (c, n)" "map_of (controls w) name = None" for name c n
  proof -
    have "crtc_of k \<noteq> c" if "(a, k) \<in> set (controls w)" for a k
    proof
      assume "crtc_of k = c"
      moreover have m: "map_of (controls w) a = Some k" using that D(4) by simp
      ultimately have "a = name" using D(1,2) \<open>tgt name = Some (c, n)\<close> by metis
      with m \<open>map_of (controls w) name = None\<close> show False by simp
    qed
    then show ?thesis unfolding w using R(3) [of c] by simp
  qed
  have some: "hardware ?w c = ramp"
    if "tgt name = Some (c, n)" "map_of (controls w) name = Some k" "current k = Some ramp" for name c n k ramp
    unfolding w using R(4) [OF map_of_SomeD that(3)] that D(2) [OF that(2)] by simp
  show ?thesis unfolding gamma_ok_def c using D(1-4) none some by blast
qed

lemma gamma_step_ok:
  "gamma_ok tgt base w \<Longrightarrow> gamma_admissible tgt base w e \<Longrightarrow> gamma_ok tgt base (gamma_step w e)"
proof (cases e)
  case (Vt_leaves h)
  then show "gamma_ok tgt base w \<Longrightarrow> gamma_ok tgt base (gamma_step w e)" by (auto simp: gamma_ok_def)
qed (simp_all add: create_ok set_gamma_ok release_ok request_state ipc_set_ok reset_gamma_ipc_def reset_ok reapply_ok)

interpretation gamma: stepper gamma_step "gamma_ok tgt base" "gamma_admissible tgt base" for tgt base
  by unfold_locales (rule gamma_step_ok)

section \<open>Ramps that are not brought back\<close>

text \<open>
  A control given back while the session is switched away is forgotten at once, and its ramp is not written
  because the terminal is not the own one; the switch back reapplies the ramps of the controls that are
  left. So the output keeps whatever the switch left on it.
\<close>

lemma released_away_is_not_brought_back:
  assumes ok: "gamma_ok tgt base w" and away: "\<not> vt_active w" and k: "map_of (controls w) name = Some k" "owner k = Client r"
    and env: "kernel_ok tgt env"
  shows "hardware (gamma_step (gamma_step w (Control_destroyed env r name)) (Vt_returns env h)) (crtc_of k) = h (crtc_of k)"
proof -
  let ?v = "release_gamma_control env name r w"
  have v: "?v = w\<lparr> controls := AList.delete name (controls w) \<rparr>"
    using away k by (simp add: release_gamma_control_def is_client_def apply_gamma_def)
  have ok': "gamma_ok tgt base ?v" by (rule release_ok [OF ok env])
  note D = gamma_okD [OF ok] and D' = gamma_okD [OF ok']
  have none: "crtc_of l \<noteq> crtc_of k" if "(a, l) \<in> set (controls ?v)" for a l
  proof
    assume c: "crtc_of l = crtc_of k"
    have m: "map_of (controls ?v) a = Some l" using that D'(4) by simp
    have "a = name" using D(1) D(2) [OF k(1)] D'(2) [OF m] c by metis
    with m v show False by simp
  qed
  let ?here = "?v\<lparr> vt_active := True, hardware := h \<rparr>"
  have "distinct (map (\<lambda>(name, k). crtc_of k) (controls ?v))" by (rule controls_have_own_crtcs [OF ok'])
  from reapply_shows(3) [OF env _ this, of ?here "crtc_of k"] none
  show ?thesis by (simp add: reapply_all_gamma_def)
qed

text \<open>A control made while the session is switched away takes the ramp of the other session for that of the start.\<close>

lemma made_away_keeps_the_other_ramp:
  assumes "\<not> vt_active w" "kernel_ok tgt env" "tgt name = Some (c, n)" "map_of (controls w) name = None"
  shows "map_of (controls (gamma_step w (Get_control env r (Some name)))) name =
    Some \<lparr> owner = Client r, crtc_of = c, ramp_size = n, original = hardware w c, current = None \<rparr>"
  using assms by (simp add: create_control_def take_over_def read_gamma_def kernel_ok_def)

text \<open>
  A socket request the kernel rejects is answered with an error, and yet the client loses the output and the
  rejected ramp is the one the socket's control stands for from then on.
\<close>

lemma rejected_ramp_takes_the_output:
  assumes "vt_active w" "\<not> accepts env c" "targets env (Some name) = [(name, c, n)]"
    and "map_of (controls w) name = Some k" "owner k = Client r"
    and "1000 \<le> t" "t \<le> 25000" "1/10 \<le> b" "b \<le> 1" "1/10 \<le> g" "g \<le> 10"
  defines "res \<equiv> set_gamma_request env (Some name) t (Some b) (Some g) w"
  shows "fst res = Some Rejected" "told (snd res) = told w @ [Told_failed r]" "hardware (snd res) = hardware w"
    "map_of (controls (snd res)) name = Some \<lparr> owner = Ipc, crtc_of = c, ramp_size = n, original = original k,
      current = Some (ramp_from_temperature n t b g) \<rparr>"
  using assms(1-11) by (simp_all add: res_def set_gamma_request_def set_gamma_ipc_def set_one_def take_over_def apply_gamma_def
    tell_def Let_def)

section \<open>Properties\<close>

lemma fresh_gamma_ok:
  assumes "\<And>a b c n m. tgt a = Some (c, n) \<Longrightarrow> tgt b = Some (c, m) \<Longrightarrow> a = b" "controls w = []"
    and "\<And>name c n. tgt name = Some (c, n) \<Longrightarrow> hardware w c = base c"
  shows "gamma_ok tgt base w"
  using assms unfolding gamma_ok_def by simp


definition one_output :: "chars \<Rightarrow> (crtc \<times> nat) option" where
  "one_output name = (if name = [68, 80] then Some (Crtc 0 0, 2) else None)"

definition one_env :: gamma_env where
  "one_env = \<lparr> outputs = [[68, 80]], gamma_target_for_output = one_output, accepts = (\<lambda>_. True), readable = (\<lambda>_. True) \<rparr>"

definition dark_file :: ramp_file where
  "dark_file = \<lparr> stat_size = Some 12, mapped = Some (replicate 12 0) \<rparr>"

definition dark :: gamma_ramp where
  "dark = \<lparr> red = [0, 0], green = [0, 0], blue = [0, 0] \<rparr>"

definition fresh_gamma :: gamma_wm where
  "fresh_gamma = \<lparr> controls = [], hardware = (\<lambda>_. identity_ramp 2), vt_active = True, told = [] \<rparr>"

definition away_and_back :: "gamma_event list" where
  "away_and_back = [Get_control one_env 7 (Some [68, 80]), Client_sets one_env 7 [68, 80] dark_file,
    Vt_leaves (\<lambda>_. dark), Vt_returns one_env (\<lambda>_. identity_ramp 2)]"

lemmas gamma_run = fresh_gamma_def away_and_back_def one_env_def one_output_def dark_file_def dark_def create_control_def
  set_gamma_def take_over_def read_gamma_def apply_gamma_def reapply_all_gamma_def is_client_def tell_def
  read_ramp_from_fd_def kernel_ok_def release_gamma_control_def


end
