(* ===== verification/Spec2Isabelle.thy ===== *)
theory Spec2Isabelle
  imports TileCodec Serve Workspaces Gates Viewer MachineAxis SessionLock Locker Notify Grabs Clipboard Children Confirm Gamma
begin

text \<open>
  A verification development for the shoestring window manager and the programs that come with
  it. This theory holds nothing but this guide: every model, lemma and property is in the theory
  of the component it belongs to. Theories name the sources they translate in their first
  paragraph, and paths below are relative to the repository.

  \<^bold>\<open>The program.\<close> \<^verbatim>\<open>src/\<close> is the window manager, a Wayland compositor built on smithay: one
  thread, one event loop, one state record (\<^verbatim>\<open>ShoestringWm\<close> of \<^verbatim>\<open>src/state.rs\<close>) that protocol
  handlers, input events, timers and the JSON control socket (\<^verbatim>\<open>src/ipc.rs\<close>) change in turn.
  \<^verbatim>\<open>crates/\<close> holds the programs around it. \<^verbatim>\<open>shoestring-remote-server\<close> shares a desktop:
  it accepts viewers over the network, reads their input and injects it through the control
  socket, and sends back the damaged tiles of the screen. \<^verbatim>\<open>shoestring-remote-client\<close> is the
  viewer, and registers the machine it shows with the window manager of its own box.
  \<^verbatim>\<open>shoestring-remote\<close> is the binary protocol the two speak. \<^verbatim>\<open>shoestring-lock\<close> is the lock
  screen, \<^verbatim>\<open>shoestring-notify\<close> the notification daemon, \<^verbatim>\<open>shoestring-config\<close> the settings that
  all of them read.

  \<^bold>\<open>How things are modelled.\<close> A Rust struct is a record or a datatype with one field each, an
  enum a datatype, \<^verbatim>\<open>u8\<close> to \<^verbatim>\<open>u64\<close> and \<^verbatim>\<open>i32\<close> words of their width wherever wrap-around can be
  seen (\<^verbatim>\<open>int\<close> or \<^verbatim>\<open>nat\<close> where the code only compares or where a stated bound keeps the value in
  range), \<^verbatim>\<open>Result\<close> a sum with the error on the left, \<^verbatim>\<open>Option\<close> an option, a panic an explicit
  outcome that the theorems rule out or exhibit. The world outside \<^verbatim>\<open>src/\<close> is an argument: zlib,
  PAM, the font, XKB, TOML, regular expressions, smithay's space and seat, the clock. What the
  code relies on of it is a named hypothesis of the theorem that needs it, and each such theorem
  has a witness on a concrete instance. Event-driven components are step functions on the
  component's state; \<^verbatim>\<open>Prelude\<close> has the locale \<^verbatim>\<open>stepper\<close> with the one induction over runs of
  events that the invariants share, and components interpret it on their own step.

  \<^bold>\<open>Theories, in the order of their imports.\<close>

  \<^item> \<^verbatim>\<open>Prelude\<close>: words in little-endian bytes, the result type, lists, the locale \<^verbatim>\<open>stepper\<close>.
  \<^verbatim>\<open>Strings\<close>: Rust's \<^verbatim>\<open>String\<close> as a list of code points, its UTF-8 bytes, trimming and parsing.

  \<^item> \<^verbatim>\<open>Wire\<close>, \<^verbatim>\<open>Messages\<close>, \<^verbatim>\<open>Protocol\<close> (\<^verbatim>\<open>crates/shoestring-remote/src/lib.rs\<close>, \<^verbatim>\<open>message.rs\<close>,
  \<^verbatim>\<open>version.rs\<close>): writers and the bounded reader, each message with encoder and decoder, frames,
  the version exchange. The locale \<^verbatim>\<open>wire_codec\<close> is the contract of one field, \<^verbatim>\<open>message\<close> that of
  a message enum; both are interpreted on every field and on both enums. The lemmas show round
  trips, that a truncated input is an error and never a wrong value, and that unknown messages
  are skipped. Lengths are bounded by the four-byte counts (\<^verbatim>\<open>fits_u32\<close>).

  \<^item> \<^verbatim>\<open>TileCodec\<close> (\<^verbatim>\<open>codec.rs\<close>, with the viewer's framebuffer of \<^verbatim>\<open>crates/shoestring-remote-client/\<close>):
  cropping damage, cutting tiles out, applying them, splitting a frame by size. Damage extracted
  and applied gives the damaged pixels and leaves the others.

  \<^item> \<^verbatim>\<open>Tracker\<close>, \<^verbatim>\<open>SeatHeld\<close>, \<^verbatim>\<open>Holds\<close>, \<^verbatim>\<open>Serve\<close> (\<^verbatim>\<open>src/inject.rs\<close>, \<^verbatim>\<open>src/input.rs\<close>,
  \<^verbatim>\<open>crates/shoestring-remote-server/src/holds.rs\<close>, \<^verbatim>\<open>viewers.rs\<close>, \<^verbatim>\<open>session.rs\<close>, \<^verbatim>\<open>wm.rs\<close>): who
  holds a key or button down. \<^verbatim>\<open>held_tracker\<close> is the contract of both trackers, the one in the
  window manager and the one in the server; \<^verbatim>\<open>Serve\<close> composes a server with any number of
  viewers and the window manager with its gates, and shows that at every moment the seat has
  down exactly what connected viewers hold, and nothing after they left.

  \<^item> \<^verbatim>\<open>Layout\<close>, \<^verbatim>\<open>Workspaces\<close> (\<^verbatim>\<open>src/layout.rs\<close>, \<^verbatim>\<open>src/workspace.rs\<close>, parts of \<^verbatim>\<open>src/state.rs\<close>,
  \<^verbatim>\<open>src/picker.rs\<close>, \<^verbatim>\<open>src/input.rs\<close>, \<^verbatim>\<open>src/handlers/xdg_shell.rs\<close>): arrangements in i32 arithmetic
  (a rectangle is partitioned), layouts of a window, minimizing, workspaces, focus. The space is
  a list of window and place in stacking order. The invariant of the desk is that a window is
  mapped exactly when its workspace is shown.

  \<^item> \<^verbatim>\<open>Gates\<close> (\<^verbatim>\<open>src/remote_lease.rs\<close>, \<^verbatim>\<open>src/state.rs\<close>, \<^verbatim>\<open>src/ipc.rs\<close>, \<^verbatim>\<open>src/handlers/screencopy.rs\<close>,
  \<^verbatim>\<open>ext_screencopy.rs\<close>): the three coupled switches that let a remote viewer see and act, the
  lease that ends them, capture sessions, and what subscribers of the socket are told.

  \<^item> \<^verbatim>\<open>Viewer\<close> (\<^verbatim>\<open>crates/shoestring-remote-client/src/net.rs\<close>, \<^verbatim>\<open>main.rs\<close>): incremental parsing of
  what the server sends and staged output. Its specification is the list of messages sent: it is
  refined however the bytes are cut into reads.

  \<^item> \<^verbatim>\<open>Ipc\<close>, \<^verbatim>\<open>MachineAxis\<close> (\<^verbatim>\<open>src/ipc.rs\<close>, \<^verbatim>\<open>src/remote.rs\<close>, \<^verbatim>\<open>src/input.rs\<close>,
  \<^verbatim>\<open>crates/shoestring-remote-client/src/wm.rs\<close>): one connection of the control socket with its
  bounded output queue, and the machines registered over such connections, the machine in view
  and where captured input goes. The locales \<^verbatim>\<open>bounded_emitter\<close>, \<^verbatim>\<open>listeners\<close> and
  \<^verbatim>\<open>emitter_extends\<close> are the broadcast, in which listeners that do not read are dropped while
  being told that others were dropped.

  \<^item> \<^verbatim>\<open>SessionLock\<close> (\<^verbatim>\<open>src/handlers/session_lock.rs\<close>, \<^verbatim>\<open>src/idle_lock.rs\<close> and everything that
  sets the keyboard focus in \<^verbatim>\<open>src/picker.rs\<close>, \<^verbatim>\<open>src/input.rs\<close>, \<^verbatim>\<open>src/state.rs\<close>,
  \<^verbatim>\<open>src/handlers/layer_shell.rs\<close>): while locked the keyboard is at a lock surface or nowhere; the
  idle timer starts the lock command exactly one period after the last input.

  \<^item> \<^verbatim>\<open>Maze\<close>, \<^verbatim>\<open>Locker\<close> (\<^verbatim>\<open>crates/shoestring-lock/src/maze.rs\<close>, \<^verbatim>\<open>main.rs\<close>, \<^verbatim>\<open>pam.rs\<close>): the generator and
  the solver of the screen saver's maze, the prompt, the PAM conversation with an explicit heap
  of the replies it allocates, and the lock screen as a whole.

  \<^item> \<^verbatim>\<open>Notify\<close> (\<^verbatim>\<open>crates/shoestring-notify/\<close>): the queue behind the D-Bus calls, wrapping of texts,
  the stack of surfaces, expiry.

  \<^item> \<^verbatim>\<open>Config\<close> (\<^verbatim>\<open>crates/shoestring-config/src/lib.rs\<close>, \<^verbatim>\<open>src/binds.rs\<close>, \<^verbatim>\<open>src/config_watcher.rs\<close>):
  every section with its defaults, colours, paths, the table of bindings, and hot reloading.

  \<^item> \<^verbatim>\<open>WindowRules\<close>, \<^verbatim>\<open>Grabs\<close> (\<^verbatim>\<open>src/window_rules.rs\<close>, \<^verbatim>\<open>src/handlers/compositor.rs\<close>,
  \<^verbatim>\<open>src/handlers/xdg_shell.rs\<close>, \<^verbatim>\<open>src/xwayland.rs\<close>, \<^verbatim>\<open>src/grabs/\<close>): what happens to a new window
  until it has its place, and moving and resizing it with the pointer; both on the desk of
  \<^verbatim>\<open>Workspaces\<close>, whose invariant they keep.

  \<^item> \<^verbatim>\<open>Clipboard\<close> (\<^verbatim>\<open>src/clipboard.rs\<close>, \<^verbatim>\<open>src/handlers/mod.rs\<close>, \<^verbatim>\<open>src/xwayland.rs\<close>): the selection as
  remote desktop reads and sets it over the socket, the reads that wait for another client's pipe,
  and what Wayland and X11 programs paste.

  \<^item> \<^verbatim>\<open>Children\<close>, \<^verbatim>\<open>Confirm\<close> (\<^verbatim>\<open>src/child_reaper.rs\<close>, \<^verbatim>\<open>src/child_pipe.rs\<close>, \<^verbatim>\<open>src/remote_command.rs\<close>,
  \<^verbatim>\<open>src/remote_screenshot.rs\<close>, \<^verbatim>\<open>src/confirm.rs\<close>, \<^verbatim>\<open>src/power.rs\<close>): the processes the window manager
  starts for a request, with the reply that waits for their output and their exit status, and
  the dialog that is shown before anything is ended or shut down.

  \<^item> \<^verbatim>\<open>Gamma\<close> (\<^verbatim>\<open>src/gamma_control.rs\<close>, \<^verbatim>\<open>src/handlers/gamma_control.rs\<close>, part of
  \<^verbatim>\<open>src/backend/udev.rs\<close>): the colour ramps, the programs and the socket that take them over from
  each other, and terminal switches in between.

  \<^bold>\<open>Interactions that are proved, not only the parts.\<close> The codec, the viewer's parser and its
  framebuffer compose to the statement that damage reaches the viewer; server, viewers, gates and
  seat compose in \<^verbatim>\<open>Serve\<close>; the lease, its timer and the gates in \<^verbatim>\<open>Gates\<close>; the socket
  connection and the machine axis in \<^verbatim>\<open>MachineAxis\<close>; rules and drags with the workspaces and the
  layout engine in \<^verbatim>\<open>WindowRules\<close> and \<^verbatim>\<open>Grabs\<close>; the lock command, the idle timer and the lock in
  \<^verbatim>\<open>SessionLock\<close>.

  \<^bold>\<open>Bounds and fuel.\<close> Loops whose recursion is structural are \<^verbatim>\<open>fun\<close>; others are \<^verbatim>\<open>function\<close> with
  a measure (what is left to read, the unvisited cells and the stack of the carver). One definition
  takes fuel, the broadcast that drops listeners while it tells of drops (\<^verbatim>\<open>emit_event\<close>): each
  round drops one, so one more than the number of listeners is enough, and more makes no
  difference (\<^verbatim>\<open>emit_event_fuel\<close>). The maze's solver is a step that the lock screen repeats; two
  for each cell are shown to be enough. Panics of the sources are outcomes: indexing, slicing a
  string inside a character, \<^verbatim>\<open>clamp\<close> with crossed bounds. Counters that wrap (identifiers of
  notifications, of clipboard reads and of commands, generations of holds) wrap in the model; where a property
  needs them not to have wrapped it says for how many events it holds.

  \<^bold>\<open>Not modelled, and why.\<close> Drawing (\<^verbatim>\<open>src/drawing.rs\<close>, \<^verbatim>\<open>render.rs\<close>, \<^verbatim>\<open>cursor.rs\<close>, \<^verbatim>\<open>diag_overlay.rs\<close>,
  \<^verbatim>\<open>crates/shoestring-font/\<close>, \<^verbatim>\<open>crates/shoestring-lock/src/canvas.rs\<close>) and the backends
  (\<^verbatim>\<open>src/backend/\<close>, colour ramps apart) hand buffers and file descriptors to the kernel and to smithay. What a
  screen capture renders (\<^verbatim>\<open>src/screencopy.rs\<close>, \<^verbatim>\<open>window_capture.rs\<close>, \<^verbatim>\<open>capture_stream.rs\<close>) is of
  the same kind; the permission for it is modelled. The bar, the menu, the task list, the region
  and screenshot tools, the clipboard tool and the confirm dialog are Wayland clients whose code
  is mostly event plumbing and drawing; \<^verbatim>\<open>crates/shoestring-ctl\<close> turns arguments into requests;
  \<^verbatim>\<open>crates/shoestring-ipc\<close> holds the types of the requests and no code beyond their derives, so
  the requests that are modelled appear as operations. \<^verbatim>\<open>crates/xdg-desktop-portal-shoestring\<close>
  and \<^verbatim>\<open>crates/shoestring-mediad\<close> are D-Bus and PipeWire glue; \<^verbatim>\<open>crates/wlcs-shoestring\<close> and
  \<^verbatim>\<open>tests/\<close> are tests; \<^verbatim>\<open>third_party/\<close> is vendored. Inside the modelled parts, JSON, TOML, logging,
  and the marshalling of D-Bus and Wayland are left out, floating point appears only where it is
  an argument or a real number with the hypothesis that says so.
\<close>

end
